(* ===== verification/Prelude.thy ===== *)
theory Prelude
  imports Main "HOL-Library.Word" "HOL-Library.Monad_Syntax"
begin

unbundle bit_operations_syntax

text \<open>
  Shared vocabulary of the development: the machine integer types of the C code, the arithmetic
  reading of its bit tests (collection \<open>word_arith\<close>), C buffers whose out-of-range accesses are
  \<open>None\<close>, the wrap-around of \<open>size_t\<close>, C strings as byte lists without the terminating NUL, and the
  three interfaces (locales) the components implement: an associative store, a prefix decoder with
  its encoder, and a transcoder that comes with a buffer-size function.
\<close>

section \<open>Machine integers\<close>

type_synonym u8 = "8 word"
type_synonym u16 = "16 word"
type_synonym u32 = "32 word"
type_synonym u64 = "64 word"
type_synonym bytes = "u8 list"

named_theorems word_arith \<comment> \<open>bit operations on words as arithmetic on their values\<close>

lemma unat_and_mask: "unat (x AND mask k) = unat x mod 2 ^ k"
  for x :: "'a::len word"
proof -
  have "unat (take_bit k x) = take_bit k (unat x)"
    by (rule unsigned_take_bit_eq)
  then show ?thesis
    by (simp only: take_bit_eq_mask [symmetric] take_bit_eq_mod)
qed

lemma unat_and_not_mask: "unat (x AND NOT (mask k)) = unat x div 2 ^ k * 2 ^ k"
  for x :: "'a::len word"
proof -
  have eq: "x AND NOT (mask k) = push_bit k (drop_bit k x)"
    by (rule bit_word_eqI) (auto simp: bit_simps)
  have "unat x div 2 ^ k * 2 ^ k \<le> unat x" by simp
  also have "unat x < 2 ^ LENGTH('a)" by (rule unsigned_less)
  finally have "take_bit LENGTH('a) (unat x div 2 ^ k * 2 ^ k) = unat x div 2 ^ k * 2 ^ k"
    by (simp only: take_bit_nat_eq_self_iff)
  then show ?thesis
    unfolding eq unsigned_push_bit_eq unat_drop_bit_eq
    by (simp only: push_bit_eq_mult drop_bit_eq_div)
qed

lemma unat_or_add:
  fixes a b :: "'a::len word"
  assumes "unat b < 2 ^ k" and "2 ^ k dvd unat a"
  shows "unat (a OR b) = unat a + unat b"
proof -
  obtain q where q: "unat a = push_bit k q"
    using assms(2) by (auto simp: dvd_def push_bit_eq_mult mult.commute)
  have tb: "take_bit k (unat b) = unat b"
    using assms(1) by (simp add: take_bit_nat_eq_self_iff)
  have "push_bit k q AND unat b = 0"
  proof (rule bit_eqI)
    fix n
    show "bit (push_bit k q AND unat b) n = bit 0 n"
      by (subst tb [symmetric]) (auto simp: bit_simps)
  qed
  then show ?thesis
    by (simp add: unsigned_or_eq q disjunctive_add_eq_or)
qed

lemma unat_push_bit_bounded:
  fixes x :: "'a::len word"
  assumes "unat x * 2 ^ k < 2 ^ LENGTH('a)"
  shows "unat (push_bit k x) = unat x * 2 ^ k"
proof -
  have "take_bit LENGTH('a) (unat x * 2 ^ k) = unat x * 2 ^ k"
    using assms by (simp only: take_bit_nat_eq_self_iff)
  then show ?thesis
    unfolding unsigned_push_bit_eq by (simp only: push_bit_eq_mult)
qed

lemma unat_drop_bit_div [word_arith]: "unat (drop_bit k x) = unat x div 2 ^ k"
  for x :: "'a::len word"
  unfolding unat_drop_bit_eq by (rule drop_bit_eq_div)

lemma byte_less: "unat (x :: u8) < 256"
  using unsigned_less [of x] by simp

lemma unat_ucast_byte [word_arith]: "unat (ucast b :: u32) = unat b" for b :: u8
  using byte_less[of b] by (simp add: unsigned_ucast_eq take_bit_nat_eq_self)

lemma unat_ucast_to_byte [word_arith]: "unat (ucast x :: u8) = unat x mod 256"
  for x :: "'a::len word"
  by (simp add: unsigned_ucast_eq take_bit_eq_mod)

lemma unat_and_low8 [word_arith]:
  "unat (x AND 0x7F) = unat x mod 128" "unat (x AND 0x3F) = unat x mod 64"
  "unat (x AND 0x1F) = unat x mod 32" "unat (x AND 0x0F) = unat x mod 16"
  "unat (x AND 0x07) = unat x mod 8"
  for x :: u8
  using unat_and_mask [of x 7] unat_and_mask [of x 6] unat_and_mask [of x 5]
    unat_and_mask [of x 4] unat_and_mask [of x 3]
  by (simp_all add: mask_eq_exp_minus_1)

lemma unat_and_low32 [word_arith]:
  "unat (x AND 0x7F) = unat x mod 128" "unat (x AND 0x3F) = unat x mod 64"
  "unat (x AND 0x1F) = unat x mod 32" "unat (x AND 0x0F) = unat x mod 16"
  "unat (x AND 0x07) = unat x mod 8" "unat (x AND 0x3FF) = unat x mod 1024"
  for x :: u32
  using unat_and_mask [of x 7] unat_and_mask [of x 6] unat_and_mask [of x 5]
    unat_and_mask [of x 4] unat_and_mask [of x 3] unat_and_mask [of x 10]
  by (simp_all add: mask_eq_exp_minus_1)

lemma unat_and_high8 [word_arith]:
  "unat (x AND 0x80) = unat x div 128 * 128" "unat (x AND 0xC0) = unat x div 64 * 64"
  "unat (x AND 0xE0) = unat x div 32 * 32" "unat (x AND 0xF0) = unat x div 16 * 16"
  "unat (x AND 0xF8) = unat x div 8 * 8"
  for x :: u8
proof -
  have "NOT (mask 7) = (0x80 :: u8)" "NOT (mask 6) = (0xC0 :: u8)" "NOT (mask 5) = (0xE0 :: u8)"
    "NOT (mask 4) = (0xF0 :: u8)" "NOT (mask 3) = (0xF8 :: u8)"
    by (simp_all add: mask_eq_exp_minus_1 word_unat_eq_iff)
  then show "unat (x AND 0x80) = unat x div 128 * 128" "unat (x AND 0xC0) = unat x div 64 * 64"
    "unat (x AND 0xE0) = unat x div 32 * 32" "unat (x AND 0xF0) = unat x div 16 * 16"
    "unat (x AND 0xF8) = unat x div 8 * 8"
    using unat_and_not_mask [of x 7] unat_and_not_mask [of x 6] unat_and_not_mask [of x 5]
      unat_and_not_mask [of x 4] unat_and_not_mask [of x 3]
    by simp_all
qed

lemma div_mult_eq_iff: "n div d * d = m * d \<longleftrightarrow> m * d \<le> n \<and> n < (m + 1) * d"
  if "0 < d" for n d m :: nat
proof -
  have "n div d * d = m * d \<longleftrightarrow> n div d = m" using that by simp
  also have "\<dots> \<longleftrightarrow> m * d \<le> n \<and> n < (m + 1) * d"
  proof
    assume "n div d = m"
    then have "n = m * d + n mod d" using div_mult_mod_eq [of n d] by simp
    moreover have "n mod d < d" using that by simp
    ultimately show "m * d \<le> n \<and> n < (m + 1) * d" by (simp add: add_mult_distrib)
  next
    assume "m * d \<le> n \<and> n < (m + 1) * d"
    then show "n div d = m" by (intro div_nat_eqI) (simp_all add: algebra_simps)
  qed
  finally show ?thesis .
qed

lemma byte_class_tests [word_arith]:
  "x AND 0x80 = 0 \<longleftrightarrow> unat x < 128"
  "x AND 0xC0 = 0x80 \<longleftrightarrow> 128 \<le> unat x \<and> unat x < 192"
  "x AND 0xE0 = 0xC0 \<longleftrightarrow> 192 \<le> unat x \<and> unat x < 224"
  "x AND 0xF0 = 0xE0 \<longleftrightarrow> 224 \<le> unat x \<and> unat x < 240"
  "x AND 0xF8 = 0xF0 \<longleftrightarrow> 240 \<le> unat x \<and> unat x < 248"
  for x :: u8
  using div_mult_eq_iff [of 128 "unat x" 0] div_mult_eq_iff [of 64 "unat x" 2]
    div_mult_eq_iff [of 32 "unat x" 6] div_mult_eq_iff [of 16 "unat x" 14]
    div_mult_eq_iff [of 8 "unat x" 30]
  by (simp_all add: word_unat_eq_iff unat_and_high8)

section \<open>C buffers, sizes and strings\<close>

text \<open>
  A heap buffer is the list of its cells. A store outside it is undefined behaviour in C: it is
  \<open>None\<close> here, so that a definition returns \<open>Some\<close> only on executions that stay inside their
  allocations.
\<close>

definition buf_put :: "'a list \<Rightarrow> nat \<Rightarrow> 'a \<Rightarrow> 'a list option" where
  "buf_put buf i v = (if i < length buf then Some (buf[i := v]) else None)"

fun buf_write :: "'a list \<Rightarrow> nat \<Rightarrow> 'a list \<Rightarrow> 'a list option" where
  "buf_write buf i [] = Some buf"
| "buf_write buf i (v # vs) = do { buf' \<leftarrow> buf_put buf i v; buf_write buf' (Suc i) vs }"

lemma length_buf_put: "buf_put buf i v = Some buf' \<Longrightarrow> length buf' = length buf"
  by (auto simp: buf_put_def split: if_splits)

lemma length_buf_write: "buf_write buf i vs = Some buf' \<Longrightarrow> length buf' = length buf"
  by (induction vs arbitrary: buf i) (auto simp: length_buf_put bind_eq_Some_conv)

lemma buf_write_defined:
  "buf_write buf i vs \<noteq> None \<longleftrightarrow> vs = [] \<or> i + length vs \<le> length buf"
proof (induction vs arbitrary: buf i)
  case Nil
  then show ?case by simp
next
  case (Cons v vs)
  show ?case
    by (cases "i < length buf") (auto simp: buf_put_def Cons.IH[simplified])
qed

lemma take_buf_write:
  "buf_write buf i vs = Some buf' \<Longrightarrow> take (i + length vs) buf' = take i buf @ vs"
proof (induction vs arbitrary: buf i)
  case Nil
  then show ?case by simp
next
  case (Cons v vs)
  from Cons.prems have i: "i < length buf" and w: "buf_write (buf[i := v]) (Suc i) vs = Some buf'"
    by (auto simp: buf_put_def bind_eq_Some_conv split: if_splits)
  from Cons.IH[OF w] have "take (Suc i + length vs) buf' = take (Suc i) (buf[i := v]) @ vs" .
  also have "take (Suc i) (buf[i := v]) = take i buf @ [v]"
    using i by (simp add: take_Suc_conv_app_nth)
  finally show ?case by simp
qed

text \<open>Subtraction on a 64-bit \<open>size_t\<close> wraps around.\<close>

definition size_sub :: "nat \<Rightarrow> nat \<Rightarrow> nat" where
  "size_sub a b = (if b \<le> a then a - b else 2 ^ 64 + a - b)"

lemma size_sub_le: "b \<le> a \<Longrightarrow> size_sub a b = a - b"
  by (simp add: size_sub_def)

text \<open>
  A NUL-terminated C string is the list of its bytes before the NUL; \<open>cstr\<close> cuts a byte list at
  its first NUL, as every C function that is handed the pointer does.
\<close>

definition cstr :: "bytes \<Rightarrow> bytes" where
  "cstr bs = takeWhile (\<lambda>b. b \<noteq> 0) bs"

lemma cstr_id: "0 \<notin> set bs \<Longrightarrow> cstr bs = bs"
  unfolding cstr_def by (rule takeWhile_eq_all_conv[THEN iffD2]) auto

lemma cstr_no_nul: "0 \<notin> set (cstr bs)"
  unfolding cstr_def by (auto dest: set_takeWhileD)

definition ascii :: "string \<Rightarrow> bytes" where
  "ascii s = map (\<lambda>c. of_nat (of_char c)) s"

text \<open>
  The index loops \<open>while (k < e && P(s[k])) k++\<close> of the scanners, with what they guarantee.
\<close>

function scan_while :: "('a \<Rightarrow> bool) \<Rightarrow> 'a list \<Rightarrow> nat \<Rightarrow> nat \<Rightarrow> nat" where
  "scan_while P s k e = (if k < e \<and> P (s ! k) then scan_while P s (k + 1) e else k)"
  by pat_completeness auto
termination
  by (relation "measure (\<lambda>(P, s, k, e). e - k)") auto

declare scan_while.simps [simp del]

lemma scan_while_bounds: "k \<le> scan_while P s k e" "k \<le> e \<Longrightarrow> scan_while P s k e \<le> e"
proof -
  have "k \<le> scan_while P s k e \<and> (k \<le> e \<longrightarrow> scan_while P s k e \<le> e)"
  proof (induction P s k e rule: scan_while.induct)
    case (1 P s k e)
    then show ?case by (auto simp: scan_while.simps[of P s k e])
  qed
  then show "k \<le> scan_while P s k e" "k \<le> e \<Longrightarrow> scan_while P s k e \<le> e" by simp_all
qed

lemma scan_while_spec:
  "(\<forall>i. k \<le> i \<and> i < scan_while P s k e \<longrightarrow> P (s ! i)) \<and>
    (scan_while P s k e < e \<longrightarrow> \<not> P (s ! scan_while P s k e))"
proof (induction P s k e rule: scan_while.induct)
  case (1 P s k e)
  show ?case
  proof (cases "k < e \<and> P (s ! k)")
    case True
    then have eq: "scan_while P s k e = scan_while P s (k + 1) e" by (simp add: scan_while.simps[of P s k e])
    have "P (s ! i)" if "k \<le> i" "i < scan_while P s k e" for i
      using 1[OF True] that True by (cases "i = k") (auto simp: eq)
    with 1[OF True] show ?thesis by (simp add: eq)
  qed (auto simp: scan_while.simps[of P s k e])
qed

lemma scan_while_eqI:
  assumes "k \<le> m" "m \<le> e" "\<And>i. k \<le> i \<Longrightarrow> i < m \<Longrightarrow> P (s ! i)" "m < e \<Longrightarrow> \<not> P (s ! m)"
  shows "scan_while P s k e = m"
proof -
  let ?r = "scan_while P s k e"
  note sp = scan_while_spec[of k P s e] and b = scan_while_bounds[where P = P and s = s and k = k and e = e]
  have "\<not> ?r < m" using sp b(1) assms by (meson order_less_le_trans)
  moreover have "\<not> m < ?r" using sp b(2) assms by (meson order_trans order_less_le_trans)
  ultimately show ?thesis by simp
qed

text \<open>Token loops: skip separators, take a token, go on behind it.\<close>

lemma dropWhile_shorter [termination_simp]:
  "dropWhile P xs = y # ys \<Longrightarrow> length (dropWhile Q ys) < length xs"
  using length_dropWhile_le[of P xs] length_dropWhile_le[of Q ys] by (metis le_imp_less_Suc length_Cons order_less_le_trans)

section \<open>Interfaces\<close>

text \<open>
  An associative store: looking a key up after an insertion gives the inserted value, every other
  key is as before, and an insertion keeps the store's invariant. The hash tables and lists of the
  program that are keyed by address or by name provide it.
\<close>

locale assoc_store =
  fixes lookup :: "'s \<Rightarrow> 'k \<Rightarrow> 'v option"
    and insert :: "'k \<Rightarrow> 'v \<Rightarrow> 's \<Rightarrow> 's"
    and invar :: "'s \<Rightarrow> bool"
    and key_ok :: "'k \<Rightarrow> bool"
    and val_ok :: "'k \<Rightarrow> 'v \<Rightarrow> 's \<Rightarrow> bool"
  assumes lookup_insert_same:
      "invar s \<Longrightarrow> key_ok k \<Longrightarrow> val_ok k v s \<Longrightarrow> lookup (insert k v s) k = Some v"
    and lookup_insert_other:
      "invar s \<Longrightarrow> key_ok k \<Longrightarrow> val_ok k v s \<Longrightarrow> k' \<noteq> k \<Longrightarrow>
        lookup (insert k v s) k' = lookup s k'"
    and invar_insert: "invar s \<Longrightarrow> key_ok k \<Longrightarrow> val_ok k v s \<Longrightarrow> invar (insert k v s)"
begin

lemma lookup_insert:
  "invar s \<Longrightarrow> key_ok k \<Longrightarrow> val_ok k v s \<Longrightarrow>
    lookup (insert k v s) = (lookup s)(k \<mapsto> v)"
  by (auto simp: fun_eq_iff lookup_insert_same lookup_insert_other)

text \<open>A sequence of insertions behaves as the sequence of map updates, whatever the layout.\<close>

lemma lookup_inserts:
  assumes "invar s" and "\<forall>(k, v) \<in> set kvs. key_ok k"
    and vals: "\<And>k v s'. invar s' \<Longrightarrow> key_ok k \<Longrightarrow> (k, v) \<in> set kvs \<Longrightarrow> val_ok k v s'"
  shows "lookup (fold (\<lambda>(k, v). insert k v) kvs s) = fold (\<lambda>(k, v) m. m(k \<mapsto> v)) kvs (lookup s)
    \<and> invar (fold (\<lambda>(k, v). insert k v) kvs s)"
  using assms
proof (induction kvs arbitrary: s)
  case Nil
  then show ?case by simp
next
  case (Cons kv kvs)
  obtain k v where kv: "kv = (k, v)" by (cases kv)
  from Cons.prems kv have ok: "key_ok k" "val_ok k v s" by auto
  have "invar (insert k v s)" using Cons.prems(1) ok by (rule invar_insert)
  then have "lookup (fold (\<lambda>(k, v). insert k v) kvs (insert k v s)) =
      fold (\<lambda>(k, v) m. m(k \<mapsto> v)) kvs (lookup (insert k v s))
      \<and> invar (fold (\<lambda>(k, v). insert k v) kvs (insert k v s))"
    using Cons.prems by (intro Cons.IH) auto
  then show ?case
    using kv Cons.prems(1) ok by (simp add: lookup_insert del: fun_upd_apply)
qed

end

text \<open>A store whose entries can also be removed.\<close>

locale assoc_store_del = assoc_store lookup insert invar key_ok val_ok
  for lookup :: "'s \<Rightarrow> 'k \<Rightarrow> 'v option"
    and insert :: "'k \<Rightarrow> 'v \<Rightarrow> 's \<Rightarrow> 's"
    and invar :: "'s \<Rightarrow> bool"
    and key_ok :: "'k \<Rightarrow> bool"
    and val_ok :: "'k \<Rightarrow> 'v \<Rightarrow> 's \<Rightarrow> bool" +
  fixes delete :: "'k \<Rightarrow> 's \<Rightarrow> 's"
  assumes lookup_delete: "invar s \<Longrightarrow> lookup (delete k s) = (lookup s)(k := None)"
    and invar_delete: "invar s \<Longrightarrow> invar (delete k s)"
begin

lemma delete_insert_fresh:
  assumes "invar s" "key_ok k" "val_ok k v s" "lookup s k = None"
  shows "lookup (delete k (insert k v s)) = lookup s"
  using assms by (simp add: lookup_delete invar_insert lookup_insert fun_upd_idem)

end

text \<open>
  A prefix code: the decoder reads back what the encoder wrote in front of any rest, and reports
  how much it read.
\<close>

locale prefix_codec =
  fixes enc :: "'a \<Rightarrow> 'b list"
    and dec :: "'b list \<Rightarrow> ('a \<times> nat) option"
    and ok :: "'a \<Rightarrow> bool"
  assumes dec_enc: "ok a \<Longrightarrow> dec (enc a @ rest) = Some (a, length (enc a))"
    and enc_nonempty: "ok a \<Longrightarrow> enc a \<noteq> []"
begin

lemma enc_inj: "ok a \<Longrightarrow> ok b \<Longrightarrow> enc a @ xs = enc b @ ys \<Longrightarrow> a = b \<and> xs = ys"
  using dec_enc[of a xs] dec_enc[of b ys] by auto

lemma concat_enc_inj:
  assumes "\<forall>a \<in> set as. ok a" "\<forall>b \<in> set bs. ok b" "concat (map enc as) = concat (map enc bs)"
  shows "as = bs"
  using assms
proof (induction as arbitrary: bs)
  case Nil
  show ?case
  proof (cases bs)
    case (Cons b bs')
    with Nil.prems have "ok b" "enc b = []" by simp_all
    with enc_nonempty show ?thesis by blast
  qed simp
next
  case (Cons a as)
  have a: "ok a" using Cons.prems by simp
  show ?case
  proof (cases bs)
    case Nil
    with Cons.prems have "enc a = []" by simp
    with enc_nonempty a show ?thesis by blast
  next
    fix b bs'
    assume bs: "bs = b # bs'"
    with Cons.prems have "ok b" "enc a @ concat (map enc as) = enc b @ concat (map enc bs')"
      by simp_all
    with a have "a = b" "concat (map enc as) = concat (map enc bs')"
      using enc_inj by blast+
    with Cons.IH[of bs'] Cons.prems bs show ?thesis by simp
  qed
qed

end

text \<open>
  A transcoder that writes into a caller's buffer, with the function the caller sizes the buffer by.
\<close>

locale sized_transcoder =
  fixes conv :: "bytes \<Rightarrow> nat \<Rightarrow> bytes"
    and out_size :: "bytes \<Rightarrow> nat"
    and full :: "bytes \<Rightarrow> bytes"
  assumes conv_bounded: "length (conv inp n) \<le> n"
    and conv_enough: "length (full inp) \<le> n \<Longrightarrow> conv inp n = full inp"
    and full_fits: "inp \<noteq> [] \<Longrightarrow> length (full inp) < out_size inp"
begin

lemma sized_conv_full: "inp \<noteq> [] \<Longrightarrow> conv inp (out_size inp) = full inp"
  using full_fits conv_enough by (simp add: less_imp_le)

text \<open>The caller's terminating NUL, stored after the output, stays inside the buffer.\<close>

lemma sized_nul_in_bounds: "inp \<noteq> [] \<Longrightarrow> length (conv inp (out_size inp)) < out_size inp"
  using full_fits by (simp add: sized_conv_full)

end

end
