(* ===== verification/TextScan.thy ===== *)
theory TextScan
  imports Prelude
begin

text \<open>
  The scalar text kernels of \<open>common/simd_text.c\<close>: byte search, three-byte search, counting, the
  fused counting pre-scan, the text-run scan, the structural event scan, and the UTF-8 acceptor the
  document parser gates its input with. They are the always-compiled fallback and the reference the
  vector kernels are compared against. A pair \<open>(const char* s, size_t len)\<close> is the list of the
  \<open>len\<close> bytes; a walking pointer is the list from the pointer on; \<open>ptrdiff_t\<close> results are
  integers, \<open>-1\<close> for "absent".
\<close>

section \<open>Search and counting\<close>

text \<open>The library's \<open>memchr\<close>: the offset of the first occurrence.\<close>

fun memchr :: "bytes \<Rightarrow> u8 \<Rightarrow> nat option" where
  "memchr [] c = None"
| "memchr (x # xs) c = (if x = c then Some 0 else map_option Suc (memchr xs c))"

fun contains_loop :: "bytes \<Rightarrow> u8 \<Rightarrow> bool" where
  "contains_loop [] c = False"
| "contains_loop (x # p) c = (if x = c then True else contains_loop p c)"

definition contains_scalar :: "bytes \<Rightarrow> u8 \<Rightarrow> bool" where
  "contains_scalar s c = (if length s \<le> 16 then contains_loop s c else memchr s c \<noteq> None)"

definition find_scalar :: "bytes \<Rightarrow> u8 \<Rightarrow> int" where
  "find_scalar s c = (case memchr s c of Some hit \<Rightarrow> int hit | None \<Rightarrow> -1)"

lemma memchr_Some:
  "memchr s c = Some h \<longleftrightarrow> h < length s \<and> s ! h = c \<and> (\<forall>j < h. s ! j \<noteq> c)"
proof (induction s arbitrary: h)
  case Nil
  then show ?case by simp
next
  case (Cons x xs)
  then show ?case
    by (cases h) (auto simp: less_Suc_eq_0_disj)
qed

lemma memchr_None: "memchr s c = None \<longleftrightarrow> c \<notin> set s"
  by (induction s) auto

lemma memchr_less: "memchr s c = Some h \<Longrightarrow> h < length s"
  by (simp add: memchr_Some)

text \<open>The three-byte search anchors on the first byte and verifies the other two.\<close>

function find3_loop :: "bytes \<Rightarrow> nat \<Rightarrow> u8 \<Rightarrow> u8 \<Rightarrow> u8 \<Rightarrow> int" where
  "find3_loop s i c0 c1 c2 =
    (if i + 2 < length s then
       (case memchr (take (length s - 2 - i) (drop i s)) c0 of
          None \<Rightarrow> -1
        | Some hit \<Rightarrow>
            (let pos = i + hit in
             if s ! (pos + 1) = c1 \<and> s ! (pos + 2) = c2 then int pos
             else find3_loop s (pos + 1) c0 c1 c2))
     else -1)"
  by pat_completeness auto
termination
  by (relation "measure (\<lambda>(s, i, _). length s - i)") auto

declare find3_loop.simps [simp del]

definition find3_scalar :: "bytes \<Rightarrow> u8 \<Rightarrow> u8 \<Rightarrow> u8 \<Rightarrow> int" where
  "find3_scalar s c0 c1 c2 = (if length s < 3 then -1 else find3_loop s 0 c0 c1 c2)"

function count_loop :: "bytes \<Rightarrow> u8 \<Rightarrow> nat \<Rightarrow> nat" where
  "count_loop p c n =
    (if p = [] then n
     else (case memchr p c of None \<Rightarrow> n | Some hit \<Rightarrow> count_loop (drop (hit + 1) p) c (n + 1)))"
  by pat_completeness auto
termination
  by (relation "measure (\<lambda>(p, c, n). length p)") (auto dest: memchr_less)

declare count_loop.simps [simp del]

definition count_scalar :: "bytes \<Rightarrow> u8 \<Rightarrow> nat" where
  "count_scalar s c = count_loop s c 0"

fun count3_high_loop :: "bytes \<Rightarrow> u8 \<Rightarrow> u8 \<Rightarrow> u8 \<Rightarrow> nat \<Rightarrow> nat \<Rightarrow> nat \<Rightarrow> bool \<Rightarrow> nat \<times> nat \<times> nat \<times> bool"
  where
  "count3_high_loop [] c0 c1 c2 a b c h = (a, b, c, h)"
| "count3_high_loop (ch # s) c0 c1 c2 a b c h =
     count3_high_loop s c0 c1 c2
       (if ch = c0 then a + 1 else a) (if ch = c1 then b + 1 else b)
       (if ch = c2 then c + 1 else c) (if ch AND 0x80 \<noteq> 0 then True else h)"

definition count3_high_scalar :: "bytes \<Rightarrow> u8 \<Rightarrow> u8 \<Rightarrow> u8 \<Rightarrow> nat \<times> nat \<times> nat \<times> bool" where
  "count3_high_scalar s c0 c1 c2 = count3_high_loop s c0 c1 c2 0 0 0 False"

text \<open>Without a vector kernel, \<open>leptris_text_count3\<close> is three separate counting passes.\<close>

definition leptris_text_count3 :: "bytes \<Rightarrow> u8 \<Rightarrow> u8 \<Rightarrow> u8 \<Rightarrow> nat \<times> nat \<times> nat" where
  "leptris_text_count3 s c0 c1 c2 = (count_scalar s c0, count_scalar s c1, count_scalar s c2)"

text \<open>One pass over a text run: the terminator's offset and whether the two flag bytes precede it.\<close>

fun scan_run_loop :: "bytes \<Rightarrow> u8 \<Rightarrow> u8 \<Rightarrow> u8 \<Rightarrow> nat \<Rightarrow> bool \<Rightarrow> bool \<Rightarrow> int \<times> bool \<times> bool" where
  "scan_run_loop [] term f1 f2 off a b = (-1, a, b)"
| "scan_run_loop (ch # p) term f1 f2 off a b =
     (if ch = term then (int off, a, b)
      else scan_run_loop p term f1 f2 (off + 1) (a \<or> ch = f1) (b \<or> ch = f2))"

definition scan_run_scalar :: "bytes \<Rightarrow> u8 \<Rightarrow> u8 \<Rightarrow> u8 \<Rightarrow> int \<times> bool \<times> bool" where
  "scan_run_scalar s term f1 f2 = scan_run_loop s term f1 f2 0 False False"

section \<open>The structural event scan\<close>

definition DPSCAN_WS :: u8 where "DPSCAN_WS = 1"
definition DPSCAN_LT :: u8 where "DPSCAN_LT = 2"
definition DPSCAN_GT :: u8 where "DPSCAN_GT = 3"
definition DPSCAN_SLASH :: u8 where "DPSCAN_SLASH = 4"
definition DPSCAN_EQ :: u8 where "DPSCAN_EQ = 5"
definition DPSCAN_QUOTE_S :: u8 where "DPSCAN_QUOTE_S = 6"
definition DPSCAN_QUOTE_D :: u8 where "DPSCAN_QUOTE_D = 7"
definition DPSCAN_AMP :: u8 where "DPSCAN_AMP = 8"

lemmas dpscan_defs = DPSCAN_WS_def DPSCAN_LT_def DPSCAN_GT_def DPSCAN_SLASH_def DPSCAN_EQ_def
  DPSCAN_QUOTE_S_def DPSCAN_QUOTE_D_def DPSCAN_AMP_def

text \<open>The filled classification table, as the function it tabulates.\<close>

definition leptris_dp_class_table :: "u8 \<Rightarrow> u8" where
  "leptris_dp_class_table b =
    (if b = 0x3C then DPSCAN_LT
     else if b = 0x3E then DPSCAN_GT
     else if b = 0x2F then DPSCAN_SLASH
     else if b = 0x3D then DPSCAN_EQ
     else if b = 0x27 then DPSCAN_QUOTE_S
     else if b = 0x22 then DPSCAN_QUOTE_D
     else if b = 0x26 then DPSCAN_AMP
     else if b \<le> 0x20 then DPSCAN_WS
     else 0)"

record scan_event =
  offset :: u32
  cls :: u8

text \<open>The scan writes events into a caller array of capacity \<open>cap\<close>; the result is the array's
  written part and the returned count.\<close>

fun scan_events_loop :: "bytes \<Rightarrow> nat \<Rightarrow> nat \<Rightarrow> scan_event list \<Rightarrow> scan_event list \<times> nat" where
  "scan_events_loop [] i cap out = (out, length out)"
| "scan_events_loop (b # buf) i cap out =
     (let c = leptris_dp_class_table b in
      if c \<noteq> 0 then
        (if length out \<ge> cap then (out, cap)
         else scan_events_loop buf (i + 1) cap (out @ [\<lparr>offset = of_nat i, cls = c\<rparr>]))
      else scan_events_loop buf (i + 1) cap out)"

definition scan_events_scalar :: "bytes \<Rightarrow> nat \<Rightarrow> scan_event list \<times> nat" where
  "scan_events_scalar buf cap = scan_events_loop buf 0 cap []"

section \<open>The UTF-8 acceptor\<close>

text \<open>Eight bytes loaded at once (little-endian; the tested mask is the same for either order).\<close>

fun load64 :: "bytes \<Rightarrow> u64" where
  "load64 [] = 0"
| "load64 (b # bs) = ucast b OR push_bit 8 (load64 bs)"

function skip_ascii8 :: "bytes \<Rightarrow> bytes" where
  "skip_ascii8 p =
    (if 8 \<le> length p \<and> load64 (take 8 p) AND 0x8080808080808080 = 0
     then skip_ascii8 (drop 8 p) else p)"
  by pat_completeness auto
termination
  by (relation "measure length") auto

declare skip_ascii8.simps [simp del]

fun skip_ascii :: "bytes \<Rightarrow> bytes" where
  "skip_ascii [] = []"
| "skip_ascii (c # p) = (if c < 0x80 then skip_ascii p else c # p)"

text \<open>The number of continuation bytes a lead byte asks for, and the range of the first of them.\<close>

definition utf8_lead :: "u8 \<Rightarrow> (nat \<times> u8 \<times> u8) option" where
  "utf8_lead c =
    (if 0xC2 \<le> c \<and> c \<le> 0xDF then Some (1, 0x80, 0xBF)
     else if 0xE0 \<le> c \<and> c \<le> 0xEF then
       Some (2, if c = 0xE0 then 0xA0 else 0x80, if c = 0xED then 0x9F else 0xBF)
     else if 0xF0 \<le> c \<and> c \<le> 0xF4 then
       Some (3, if c = 0xF0 then 0x90 else 0x80, if c = 0xF4 then 0x8F else 0xBF)
     else None)"

function utf8_dfa :: "bytes \<Rightarrow> bool" where
  "utf8_dfa [] = True"
| "utf8_dfa (c # p) =
    (if c < 0x80 then utf8_dfa p
     else (case utf8_lead c of
         None \<Rightarrow> False
       | Some (n, lo, hi) \<Rightarrow>
           if length (c # p) \<le> n then False
           else if p ! 0 < lo \<or> p ! 0 > hi then False
           else if list_ex (\<lambda>k. p ! (k - 1) < 0x80 \<or> p ! (k - 1) > 0xBF) [2..<n + 1] then False
           else utf8_dfa (drop n p)))"
  by pat_completeness auto
termination
  by (relation "measure length") auto

definition leptris_utf8_valid_scalar :: "bytes \<Rightarrow> bool" where
  "leptris_utf8_valid_scalar s = utf8_dfa (skip_ascii (skip_ascii8 s))"

section \<open>What the kernels compute\<close>

lemma contains_loop_iff: "contains_loop p c \<longleftrightarrow> c \<in> set p"
  by (induction p) auto

lemma find3_loop_spec:
  assumes "\<forall>j < i. j + 2 < length s \<longrightarrow> \<not> (s ! j = c0 \<and> s ! (j + 1) = c1 \<and> s ! (j + 2) = c2)"
  shows "(\<exists>k. find3_loop s i c0 c1 c2 = int k \<and> k + 2 < length s
        \<and> s ! k = c0 \<and> s ! (k + 1) = c1 \<and> s ! (k + 2) = c2
        \<and> (\<forall>j < k. \<not> (s ! j = c0 \<and> s ! (j + 1) = c1 \<and> s ! (j + 2) = c2)))
    \<or> (find3_loop s i c0 c1 c2 = -1
        \<and> (\<forall>j. j + 2 < length s \<longrightarrow> \<not> (s ! j = c0 \<and> s ! (j + 1) = c1 \<and> s ! (j + 2) = c2)))"
  using assms
proof (induction s i c0 c1 c2 rule: find3_loop.induct)
  case (1 s i c0 c1 c2)
  let ?hit = "\<lambda>j. s ! j = c0 \<and> s ! (j + 1) = c1 \<and> s ! (j + 2) = c2"
  let ?w = "take (length s - 2 - i) (drop i s)"
  note unf = find3_loop.simps[of s i c0 c1 c2]
  show ?case
  proof (cases "i + 2 < length s")
    case False
    then show ?thesis using "1.prems" by (auto simp: unf)
  next
    case True
    show ?thesis
    proof (cases "memchr ?w c0")
      case None
      have "\<not> ?hit j" if "j + 2 < length s" for j
      proof (cases "j < i")
        case False
        then have "s ! j = ?w ! (j - i)" "j - i < length ?w" using that by auto
        then have "s ! j \<in> set ?w" by (metis nth_mem)
        with None show ?thesis by (auto simp: memchr_None)
      qed (use "1.prems" that in auto)
      with True None show ?thesis by (auto simp: unf)
    next
      case (Some h)
      then have h: "h < length ?w" "?w ! h = c0" "\<forall>j < h. ?w ! j \<noteq> c0"
        by (auto simp: memchr_Some)
      then have pos: "i + h + 2 < length s" "s ! (i + h) = c0" by auto
      have before: "\<not> ?hit j" if "j < i + h" for j
      proof (cases "j < i")
        case False
        then have "j - i < h" "?w ! (j - i) = s ! j" using that h(1) by auto
        with h(3) show ?thesis by metis
      qed (use "1.prems" that pos(1) in auto)
      show ?thesis
      proof (cases "s ! (i + h + 1) = c1 \<and> s ! (i + h + 2) = c2")
        case True
        with pos before \<open>i + 2 < length s\<close> Some show ?thesis
          by (intro disjI1 exI[of _ "i + h"]) (simp add: unf)
      next
        case False
        with before pos have "\<forall>j < i + h + 1. j + 2 < length s \<longrightarrow> \<not> ?hit j"
          by (auto simp: less_Suc_eq)
        moreover from False True Some have "find3_loop s i c0 c1 c2 = find3_loop s (i + h + 1) c0 c1 c2"
          by (auto simp: unf)
        ultimately show ?thesis using "1.IH"[OF True Some refl False] by (simp only:)
      qed
    qed
  qed
qed

lemma count_loop_eq: "count_loop p c n = n + count_list p c"
proof (induction p c n rule: count_loop.induct)
  case (1 p c n)
  show ?case
  proof (cases "memchr p c")
    case None
    then have "c \<notin> set p" by (simp add: memchr_None)
    with None show ?thesis by (simp add: count_loop.simps[of p c n])
  next
    case (Some h)
    then have h: "h < length p" "p ! h = c" "\<forall>j < h. p ! j \<noteq> c" by (auto simp: memchr_Some)
    have "p = take h p @ c # drop (h + 1) p"
      using h(1,2) by (metis Suc_eq_plus1 id_take_nth_drop)
    moreover have "c \<notin> set (take h p)" using h by (auto simp: in_set_conv_nth)
    ultimately have "count_list p c = Suc (count_list (drop (h + 1) p) c)"
      by (metis add_0 count_list.simps(2) count_list_append count_notin Suc_eq_plus1)
    moreover have "p \<noteq> []" using h(1) by auto
    ultimately show ?thesis using Some 1 by (simp add: count_loop.simps[of p c n])
  qed
qed

lemma count_scalar_eq: "count_scalar s c = count_list s c"
  by (simp add: count_scalar_def count_loop_eq)

lemma high_bit_iff: "ch AND 0x80 \<noteq> 0 \<longleftrightarrow> 0x80 \<le> ch" for ch :: u8
  by (simp add: word_arith word_le_nat_alt not_less)

lemma count3_high_loop_eq:
  "count3_high_loop s c0 c1 c2 a b c h =
    (a + count_list s c0, b + count_list s c1, c + count_list s c2,
     h \<or> (\<exists>x \<in> set s. 0x80 \<le> x))"
  by (induction s arbitrary: a b c h) (auto simp: high_bit_iff)

lemma scan_run_loop_eq:
  "scan_run_loop p term f1 f2 off a b =
    (case memchr p term of
       Some h \<Rightarrow> (int (off + h), a \<or> f1 \<in> set (take h p), b \<or> f2 \<in> set (take h p))
     | None \<Rightarrow> (-1, a \<or> f1 \<in> set p, b \<or> f2 \<in> set p))"
  by (induction p arbitrary: off a b) (auto split: option.splits)

text \<open>The events of a buffer, by position.\<close>

definition structural_events :: "bytes \<Rightarrow> scan_event list" where
  "structural_events buf =
    map (\<lambda>i. \<lparr>offset = of_nat i, cls = leptris_dp_class_table (buf ! i)\<rparr>)
      (filter (\<lambda>i. leptris_dp_class_table (buf ! i) \<noteq> 0) [0..<length buf])"

fun events_from :: "nat \<Rightarrow> bytes \<Rightarrow> scan_event list" where
  "events_from i [] = []"
| "events_from i (b # buf) =
     (if leptris_dp_class_table b \<noteq> 0
      then \<lparr>offset = of_nat i, cls = leptris_dp_class_table b\<rparr> # events_from (Suc i) buf
      else events_from (Suc i) buf)"

lemma events_from_eq:
  "events_from i buf =
    map (\<lambda>j. \<lparr>offset = of_nat (i + j), cls = leptris_dp_class_table (buf ! j)\<rparr>)
      (filter (\<lambda>j. leptris_dp_class_table (buf ! j) \<noteq> 0) [0..<length buf])"
proof (induction buf arbitrary: i)
  case Nil
  then show ?case by simp
next
  case (Cons b buf)
  have idx: "[0..<length (b # buf)] = 0 # map Suc [0..<length buf]"
    by (simp add: map_Suc_upt upt_conv_Cons del: upt_Suc)
  show ?case
    unfolding idx by (simp add: Cons.IH[of "Suc i"] filter_map comp_def add_ac)
qed

lemma scan_events_loop_eq:
  "scan_events_loop buf i cap out =
    (if length out + length (events_from i buf) \<le> cap \<or> events_from i buf = []
     then (out @ events_from i buf, length out + length (events_from i buf))
     else (out @ take (cap - length out) (events_from i buf), cap))"
  by (induction buf i cap out rule: scan_events_loop.induct)
    (auto simp: Let_def take_Cons' Suc_diff_le)

lemma scan_events_scalar_eq:
  "scan_events_scalar buf cap =
    (if length (structural_events buf) \<le> cap
     then (structural_events buf, length (structural_events buf))
     else (take cap (structural_events buf), cap))"
proof -
  have "structural_events buf = events_from 0 buf"
    by (simp add: structural_events_def events_from_eq)
  then show ?thesis
    by (simp add: scan_events_scalar_def scan_events_loop_eq)
qed

section \<open>Properties\<close>

text \<open>
  The three-byte search returns the first position at which the three bytes stand, and -1 exactly
  when there is none, although it anchors on the first byte only.
\<close>
theorem find3_first_occurrence:
  "(\<exists>k. find3_scalar s c0 c1 c2 = int k \<and> k + 2 < length s
      \<and> s ! k = c0 \<and> s ! (k + 1) = c1 \<and> s ! (k + 2) = c2
      \<and> (\<nexists>j. j < k \<and> s ! j = c0 \<and> s ! (j + 1) = c1 \<and> s ! (j + 2) = c2))
    \<or> (find3_scalar s c0 c1 c2 = -1
      \<and> (\<nexists>j. j + 2 < length s \<and> s ! j = c0 \<and> s ! (j + 1) = c1 \<and> s ! (j + 2) = c2))"
proof (cases "length s < 3")
  case True
  then show ?thesis by (auto simp: find3_scalar_def)
next
  case False
  then show ?thesis
    using find3_loop_spec[of 0 s c0 c1 c2] by (auto simp: find3_scalar_def)
qed

text \<open>
  The fused counting pass of the parser agrees with three separate counting passes and reports a
  high byte exactly when there is one.
\<close>
theorem count3_high_fused:
  "count3_high_scalar s c0 c1 c2 =
    (case leptris_text_count3 s c0 c1 c2 of (n0, n1, n2) \<Rightarrow> (n0, n1, n2, \<not> list_all (\<lambda>b. b < 0x80) s))"
  by (auto simp: count3_high_scalar_def count3_high_loop_eq leptris_text_count3_def count_scalar_eq
      list_all_iff not_less)

text \<open>
  The structural scan reports the classified bytes of the buffer in order with their offsets and
  classes: all of them when they fit the caller's array, else the first \<open>cap\<close> of them and the count
  \<open>cap\<close>, never more than the array holds.
\<close>
theorem scan_events_exact:
  "scan_events_scalar buf cap =
    (take cap (structural_events buf), min cap (length (structural_events buf)))"
  by (simp add: scan_events_scalar_eq)

end
