(* ===== verification/Unicode.thy ===== *)
theory Unicode
  imports TextScan
begin

text \<open>
  The UTF-8 / UTF-16 conversions of \<open>encoding/unicode.c\<close>. A decoder result \<open>None\<close> is the C return
  value 0. The two converters run a sizing pass, allocate, and run a writing pass; the writing pass
  goes through \<open>buf_put\<close>, so that a store outside the allocation makes the whole conversion \<open>None\<close>.
  Allocation success is the first argument of a converter.
\<close>

definition REPLACEMENT_CHARACTER :: u32 where
  "REPLACEMENT_CHARACTER = 0xFFFD"

section \<open>UTF-8 sequences\<close>

definition utf8_sequence_length :: "u8 \<Rightarrow> nat" where
  "utf8_sequence_length lead_byte =
    (if lead_byte AND 0x80 = 0x00 then 1
     else if lead_byte AND 0xE0 = 0xC0 then 2
     else if lead_byte AND 0xF0 = 0xE0 then 3
     else if lead_byte AND 0xF8 = 0xF0 then 4
     else 0)"

text \<open>The code point assembled from a lead byte and its continuation bytes.\<close>

definition cp2 :: "u8 \<Rightarrow> u8 \<Rightarrow> u32" where
  "cp2 lead b1 = push_bit 6 (ucast (lead AND 0x1F)) OR ucast (b1 AND 0x3F)"

definition cp3 :: "u8 \<Rightarrow> u8 \<Rightarrow> u8 \<Rightarrow> u32" where
  "cp3 lead b1 b2 =
    push_bit 12 (ucast (lead AND 0x0F)) OR push_bit 6 (ucast (b1 AND 0x3F)) OR ucast (b2 AND 0x3F)"

definition cp4 :: "u8 \<Rightarrow> u8 \<Rightarrow> u8 \<Rightarrow> u8 \<Rightarrow> u32" where
  "cp4 lead b1 b2 b3 =
    push_bit 18 (ucast (lead AND 0x07)) OR push_bit 12 (ucast (b1 AND 0x3F)) OR
      push_bit 6 (ucast (b2 AND 0x3F)) OR ucast (b3 AND 0x3F)"

definition utf8_decode :: "bytes \<Rightarrow> (u32 \<times> nat) option" where
  "utf8_decode str =
    (if str = [] then None
     else let lead = str ! 0; seq_len = utf8_sequence_length lead in
       if seq_len = 0 \<or> seq_len > length str then None
       else if seq_len = 1 then Some (ucast (lead AND 0x7F), 1)
       else if seq_len = 2 then
         (if str ! 1 AND 0xC0 \<noteq> 0x80 then None
          else let code_point = cp2 lead (str ! 1) in
            if code_point < 0x80 then None else Some (code_point, 2))
       else if seq_len = 3 then
         (if str ! 1 AND 0xC0 \<noteq> 0x80 then None
          else if str ! 2 AND 0xC0 \<noteq> 0x80 then None
          else let code_point = cp3 lead (str ! 1) (str ! 2) in
            if code_point < 0x800 then None
            else if 0xD800 \<le> code_point \<and> code_point \<le> 0xDFFF then None
            else Some (code_point, 3))
       else
         (if str ! 1 AND 0xC0 \<noteq> 0x80 then None
          else if str ! 2 AND 0xC0 \<noteq> 0x80 then None
          else if str ! 3 AND 0xC0 \<noteq> 0x80 then None
          else let code_point = cp4 lead (str ! 1) (str ! 2) (str ! 3) in
            if code_point < 0x10000 then None
            else if code_point > 0x10FFFF then None
            else Some (code_point, 4)))"

definition utf8_encode :: "u32 \<Rightarrow> bytes" where
  "utf8_encode code_point =
    (if code_point \<le> 0x7F then [ucast code_point]
     else if code_point \<le> 0x7FF then
       [ucast (0xC0 OR (drop_bit 6 code_point AND 0x1F)), ucast (0x80 OR (code_point AND 0x3F))]
     else if code_point \<le> 0xFFFF then
       (if 0xD800 \<le> code_point \<and> code_point \<le> 0xDFFF then [0xEF, 0xBF, 0xBD]
        else [ucast (0xE0 OR (drop_bit 12 code_point AND 0x0F)),
              ucast (0x80 OR (drop_bit 6 code_point AND 0x3F)),
              ucast (0x80 OR (code_point AND 0x3F))])
     else if code_point \<le> 0x10FFFF then
       [ucast (0xF0 OR (drop_bit 18 code_point AND 0x07)),
        ucast (0x80 OR (drop_bit 12 code_point AND 0x3F)),
        ucast (0x80 OR (drop_bit 6 code_point AND 0x3F)),
        ucast (0x80 OR (code_point AND 0x3F))]
     else [0xEF, 0xBF, 0xBD])"

text \<open>Unicode scalar values: every code point but the surrogates.\<close>

definition scalar_value :: "u32 \<Rightarrow> bool" where
  "scalar_value c \<longleftrightarrow> c \<le> 0x10FFFF \<and> \<not> (0xD800 \<le> c \<and> c \<le> 0xDFFF)"

section \<open>Arithmetic of sequences\<close>

lemma mod64: "unat (b :: u8) mod 64 \<le> 63"
  using mod_less_divisor[of 64 "unat b"] by simp

lemma unat_cp2: "unat (cp2 l b1) = unat l mod 32 * 64 + unat b1 mod 64"
proof -
  let ?h = "push_bit 6 (ucast (l AND 0x1F) :: u32)" and ?t = "ucast (b1 AND 0x3F) :: u32"
  have h: "unat ?h = unat l mod 32 * 64"
    by (subst unat_push_bit_bounded) (simp_all add: word_arith)
  have "unat (?h OR ?t) = unat ?h + unat ?t"
    by (rule unat_or_add[where k = 6]) (simp_all add: h word_arith)
  then show ?thesis by (simp add: cp2_def h word_arith)
qed

lemma unat_cp3:
  "unat (cp3 l b1 b2) = unat l mod 16 * 4096 + unat b1 mod 64 * 64 + unat b2 mod 64"
proof -
  let ?h = "push_bit 12 (ucast (l AND 0x0F) :: u32)"
  let ?m = "push_bit 6 (ucast (b1 AND 0x3F) :: u32)" and ?t = "ucast (b2 AND 0x3F) :: u32"
  have h: "unat ?h = unat l mod 16 * 4096"
    by (subst unat_push_bit_bounded) (simp_all add: word_arith)
  have m: "unat ?m = unat b1 mod 64 * 64"
    by (subst unat_push_bit_bounded) (simp_all add: word_arith)
  have mt: "unat (?m OR ?t) = unat ?m + unat ?t"
    by (rule unat_or_add[where k = 6]) (simp_all add: m word_arith)
  have lt: "unat b1 mod 64 * 64 + unat b2 mod 64 < 4096"
    using mod64[of b1] mod64[of b2] by linarith
  have "unat (?h OR (?m OR ?t)) = unat ?h + unat (?m OR ?t)"
    by (rule unat_or_add[where k = 12]) (use lt in \<open>simp_all add: mt h m word_arith\<close>)
  then show ?thesis by (simp add: cp3_def h mt m word_arith)
qed

lemma unat_cp4:
  "unat (cp4 l b1 b2 b3) =
    unat l mod 8 * 262144 + unat b1 mod 64 * 4096 + unat b2 mod 64 * 64 + unat b3 mod 64"
proof -
  let ?h = "push_bit 18 (ucast (l AND 0x07) :: u32)"
  let ?r = "push_bit 12 (ucast (b1 AND 0x3F)) OR
      (push_bit 6 (ucast (b2 AND 0x3F)) OR ucast (b3 AND 0x3F)) :: u32"
  have h: "unat ?h = unat l mod 8 * 262144"
    by (subst unat_push_bit_bounded) (simp_all add: word_arith)
  let ?g = "push_bit 12 (ucast (b1 AND 0x3F) :: u32)"
  let ?m = "push_bit 6 (ucast (b2 AND 0x3F) :: u32)" and ?t = "ucast (b3 AND 0x3F) :: u32"
  have g: "unat ?g = unat b1 mod 64 * 4096"
    by (subst unat_push_bit_bounded) (simp_all add: word_arith)
  have m: "unat ?m = unat b2 mod 64 * 64"
    by (subst unat_push_bit_bounded) (simp_all add: word_arith)
  have mt: "unat (?m OR ?t) = unat ?m + unat ?t"
    by (rule unat_or_add[where k = 6]) (simp_all add: m word_arith)
  have lt: "unat b2 mod 64 * 64 + unat b3 mod 64 < 4096"
    using mod64[of b2] mod64[of b3] by linarith
  have r: "unat ?r = unat ?g + unat (?m OR ?t)"
    by (rule unat_or_add[where k = 12]) (use lt in \<open>simp_all add: mt g m word_arith\<close>)
  have lt': "unat b1 mod 64 * 4096 + (unat b2 mod 64 * 64 + unat b3 mod 64) < 262144"
    using mod64[of b1] lt by linarith
  have "unat (?h OR ?r) = unat ?h + unat ?r"
    by (rule unat_or_add[where k = 18]) (use lt' in \<open>simp_all add: r mt h g m word_arith\<close>)
  then show ?thesis by (simp add: cp4_def h r mt g m word_arith)
qed

text \<open>The bytes the encoder assembles.\<close>

lemma unat_lead2: "unat (ucast (0xC0 OR (drop_bit 6 c AND 0x1F)) :: u8) = 192 + unat c div 64 mod 32"
  for c :: u32
proof -
  have "unat (0xC0 OR (drop_bit 6 c AND 0x1F)) = unat (0xC0 :: u32) + unat (drop_bit 6 c AND 0x1F)"
    by (rule unat_or_add[where k = 5]) (simp_all add: word_arith)
  then show ?thesis
    using mod_less_divisor[of 32 "unat c div 64"] by (simp add: word_arith)
qed

lemma unat_lead3: "unat (ucast (0xE0 OR (drop_bit 12 c AND 0x0F)) :: u8) = 224 + unat c div 4096 mod 16"
  for c :: u32
proof -
  have "unat (0xE0 OR (drop_bit 12 c AND 0x0F)) = unat (0xE0 :: u32) + unat (drop_bit 12 c AND 0x0F)"
    by (rule unat_or_add[where k = 4]) (simp_all add: word_arith)
  then show ?thesis
    using mod_less_divisor[of 16 "unat c div 4096"] by (simp add: word_arith)
qed

lemma unat_lead4: "unat (ucast (0xF0 OR (drop_bit 18 c AND 0x07)) :: u8) = 240 + unat c div 262144 mod 8"
  for c :: u32
proof -
  have "unat (0xF0 OR (drop_bit 18 c AND 0x07)) = unat (0xF0 :: u32) + unat (drop_bit 18 c AND 0x07)"
    by (rule unat_or_add[where k = 3]) (simp_all add: word_arith)
  then show ?thesis
    using mod_less_divisor[of 8 "unat c div 262144"] by (simp add: word_arith)
qed

lemma unat_cont: "unat (ucast (0x80 OR (x AND 0x3F)) :: u8) = 128 + unat x mod 64"
  for x :: u32
proof -
  have "unat (0x80 OR (x AND 0x3F)) = unat (0x80 :: u32) + unat (x AND 0x3F)"
    by (rule unat_or_add[where k = 6]) (simp_all add: word_arith)
  then show ?thesis
    using mod_less_divisor[of 64 "unat x"] by (simp add: word_arith)
qed

lemmas unat_seq = unat_lead2 unat_lead3 unat_lead4 unat_cont unat_cp2 unat_cp3 unat_cp4

lemma utf8_sequence_length_arith:
  "utf8_sequence_length b =
    (if unat b < 128 then 1 else if 192 \<le> unat b \<and> unat b < 224 then 2
     else if 224 \<le> unat b \<and> unat b < 240 then 3
     else if 240 \<le> unat b \<and> unat b < 248 then 4 else 0)"
  by (simp add: utf8_sequence_length_def byte_class_tests)

lemma word_eq_unat: "x = y \<longleftrightarrow> unat x = unat y" for x y :: "'a::len word"
  by (simp add: word_unat_eq_iff)

lemma cp_eq_iff:
  "cp2 l b1 = c \<longleftrightarrow> unat l mod 32 * 64 + unat b1 mod 64 = unat c"
  "cp3 l b1 b2 = c \<longleftrightarrow> unat l mod 16 * 4096 + unat b1 mod 64 * 64 + unat b2 mod 64 = unat c"
  "cp4 l b1 b2 b3 = c \<longleftrightarrow>
    unat l mod 8 * 262144 + unat b1 mod 64 * 4096 + unat b2 mod 64 * 64 + unat b3 mod 64 = unat c"
  by (simp_all add: word_eq_unat unat_cp2 unat_cp3 unat_cp4)

lemma tag_mod [simp]:
  "(192 + n) mod 32 = n mod 32" "(224 + n) mod 16 = n mod 16" "(240 + n) mod 8 = n mod 8"
  "(128 + n) mod 64 = n mod 64" for n :: nat
  using mod_mult_self2[of n 32 6] mod_mult_self2[of n 16 14] mod_mult_self2[of n 8 30]
    mod_mult_self2[of n 64 2]
  by (simp_all add: add.commute)

lemma digits64:
  "n div 64 * 64 + n mod 64 = n"
  "n div 4096 * 4096 + n div 64 mod 64 * 64 + n mod 64 = n"
  "n div 262144 * 262144 + n div 4096 mod 64 * 4096 + n div 64 mod 64 * 64 + n mod 64 = n"
  for n :: nat
proof -
  have a: "m div 64 * 64 + m mod 64 = m" for m :: nat by (rule div_mult_mod_eq)
  have b: "n div 4096 = n div 64 div 64" "n div 262144 = n div 64 div 64 div 64"
    by (simp_all add: div_mult2_eq[symmetric])
  show "n div 64 * 64 + n mod 64 = n" by (rule a)
  show "n div 4096 * 4096 + n div 64 mod 64 * 64 + n mod 64 = n"
    unfolding b using a[of n] a[of "n div 64"] by linarith
  show "n div 262144 * 262144 + n div 4096 mod 64 * 4096 + n div 64 mod 64 * 64 + n mod 64 = n"
    unfolding b using a[of n] a[of "n div 64"] a[of "n div 64 div 64"] by linarith
qed

section \<open>Decoding what was encoded\<close>

lemma utf8_decode_encode:
  assumes "scalar_value c"
  shows "utf8_decode (utf8_encode c @ rest) = Some (c, length (utf8_encode c))"
proof -
  let ?n = "unat c"
  have sv: "?n \<le> 0x10FFFF" "\<not> (0xD800 \<le> ?n \<and> ?n \<le> 0xDFFF)"
    using assms by (simp_all add: scalar_value_def word_le_nat_alt)
  consider "?n \<le> 0x7F" | "0x7F < ?n" "?n \<le> 0x7FF" | "0x7FF < ?n" "?n \<le> 0xFFFF" | "0xFFFF < ?n"
    by linarith
  then show ?thesis
  proof cases
    case 1
    then have "unat (ucast c :: u8) = ?n" by (simp add: word_arith)
    with 1 show ?thesis
      by (simp add: utf8_encode_def utf8_decode_def word_le_nat_alt utf8_sequence_length_arith
          Let_def word_eq_unat word_arith)
  next
    case 2
    then have d: "?n div 64 mod 32 = ?n div 64" "?n div 64 < 32" by simp_all
    from 2 show ?thesis
      by (simp add: utf8_encode_def utf8_decode_def word_le_nat_alt word_less_nat_alt
          utf8_sequence_length_arith byte_class_tests unat_seq Let_def cp_eq_iff d digits64)
  next
    case 3
    then have d: "?n div 4096 mod 16 = ?n div 4096" "?n div 4096 < 16" by simp_all
    from 3 sv show ?thesis
      by (simp add: utf8_encode_def utf8_decode_def word_le_nat_alt word_less_nat_alt
          utf8_sequence_length_arith byte_class_tests unat_seq unat_drop_bit_div Let_def cp_eq_iff
          d digits64)
  next
    case 4
    have d: "?n div 262144 mod 8 = ?n div 262144" "?n div 262144 < 8" using sv by simp_all
    from 4 sv show ?thesis
      by (simp add: utf8_encode_def utf8_decode_def word_le_nat_alt word_less_nat_alt
          utf8_sequence_length_arith byte_class_tests unat_seq unat_drop_bit_div Let_def cp_eq_iff
          d digits64)
  qed
qed

lemma utf8_encode_nonempty: "utf8_encode c \<noteq> []"
  by (simp add: utf8_encode_def)

interpretation utf8: prefix_codec utf8_encode utf8_decode scalar_value
  by unfold_locales (simp_all add: utf8_decode_encode utf8_encode_nonempty)

text \<open>The other direction: what the decoder accepts is the encoding of what it returns.\<close>

lemma undigits64:
  assumes "t < 64" "u < 64" "v < (64 :: nat)"
  shows "(h * 64 + t) div 64 = h" "(h * 64 + t) mod 64 = t"
    "(h * 4096 + t * 64 + u) div 4096 = h" "(h * 4096 + t * 64 + u) div 64 mod 64 = t"
    "(h * 4096 + t * 64 + u) mod 64 = u"
    "(h * 262144 + t * 4096 + u * 64 + v) div 262144 = h"
    "(h * 262144 + t * 4096 + u * 64 + v) div 4096 mod 64 = t"
    "(h * 262144 + t * 4096 + u * 64 + v) div 64 mod 64 = u"
    "(h * 262144 + t * 4096 + u * 64 + v) mod 64 = v"
proof -
  have one: "(x * 64 + y) div 64 = x" "(x * 64 + y) mod 64 = y" if "y < 64" for x y :: nat
    using that by simp_all
  have e3: "h * 4096 + t * 64 + u = (h * 64 + t) * 64 + u" by simp
  have e4: "h * 262144 + t * 4096 + u * 64 + v = ((h * 64 + t) * 64 + u) * 64 + v" by simp
  have dd: "n div 4096 = n div 64 div 64" "n div 262144 = n div 64 div 64 div 64" for n :: nat
    by (simp_all add: div_mult2_eq[symmetric])
  show "(h * 64 + t) div 64 = h" "(h * 64 + t) mod 64 = t" by (rule one[OF assms(1)])+
  show "(h * 4096 + t * 64 + u) div 4096 = h" "(h * 4096 + t * 64 + u) div 64 mod 64 = t"
    "(h * 4096 + t * 64 + u) mod 64 = u"
    unfolding e3 dd by (simp_all only: one[OF assms(1)] one[OF assms(2)])
  show "(h * 262144 + t * 4096 + u * 64 + v) div 262144 = h"
    "(h * 262144 + t * 4096 + u * 64 + v) div 4096 mod 64 = t"
    "(h * 262144 + t * 4096 + u * 64 + v) div 64 mod 64 = u"
    "(h * 262144 + t * 4096 + u * 64 + v) mod 64 = v"
    unfolding e4 dd by (simp_all only: one[OF assms(1)] one[OF assms(2)] one[OF assms(3)])
qed

lemma take_2: "2 \<le> length s \<Longrightarrow> take 2 s = [s ! 0, s ! 1]"
  and take_3: "3 \<le> length s \<Longrightarrow> take 3 s = [s ! 0, s ! 1, s ! 2]"
  and take_4: "4 \<le> length s \<Longrightarrow> take 4 s = [s ! 0, s ! 1, s ! 2, s ! 3]"
proof -
  have "take k s = map ((!) s) [0..<k]" if "k \<le> length s" for k
    using that by (intro nth_equalityI) auto
  then show "2 \<le> length s \<Longrightarrow> take 2 s = [s ! 0, s ! 1]"
    "3 \<le> length s \<Longrightarrow> take 3 s = [s ! 0, s ! 1, s ! 2]"
    "4 \<le> length s \<Longrightarrow> take 4 s = [s ! 0, s ! 1, s ! 2, s ! 3]"
    by (simp_all add: upt_rec numeral_2_eq_2 numeral_3_eq_3)
qed

lemma nat_sub_bounds: "a \<le> n \<Longrightarrow> n < a + k \<Longrightarrow> \<exists>h < k. n = a + h" for a k n :: nat
  by (rule exI[of _ "n - a"]) auto

lemma encode_cp2:
  assumes "192 \<le> unat l" "unat l < 224" "128 \<le> unat b1" "unat b1 < 192" "0x80 \<le> unat (cp2 l b1)"
  shows "scalar_value (cp2 l b1) \<and> utf8_encode (cp2 l b1) = [l, b1]"
proof -
  obtain h t where ht: "h < 32" "unat l = 192 + h" "t < 64" "unat b1 = 128 + t"
    using nat_sub_bounds[of 192 "unat l" 32] nat_sub_bounds[of 128 "unat b1" 64] assms by auto
  then have c: "unat (cp2 l b1) = h * 64 + t" by (simp add: unat_cp2)
  show ?thesis
    using assms(5) ht undigits64[of t 0 0 h]
    by (simp add: utf8_encode_def word_le_nat_alt word_eq_unat unat_lead2 unat_cont c scalar_value_def)
qed

lemma encode_cp3:
  assumes "224 \<le> unat l" "unat l < 240" "128 \<le> unat b1" "unat b1 < 192" "128 \<le> unat b2" "unat b2 < 192"
    and "0x800 \<le> unat (cp3 l b1 b2)"
    and "\<not> (0xD800 \<le> unat (cp3 l b1 b2) \<and> unat (cp3 l b1 b2) \<le> 0xDFFF)"
  shows "scalar_value (cp3 l b1 b2) \<and> utf8_encode (cp3 l b1 b2) = [l, b1, b2]"
proof -
  obtain h t u where ht: "h < 16" "unat l = 224 + h" "t < 64" "unat b1 = 128 + t" "u < 64" "unat b2 = 128 + u"
    using nat_sub_bounds[of 224 "unat l" 16] nat_sub_bounds[of 128 "unat b1" 64]
      nat_sub_bounds[of 128 "unat b2" 64] assms by auto
  let ?c = "cp3 l b1 b2"
  have c: "unat ?c = h * 4096 + t * 64 + u" using ht by (simp add: unat_cp3)
  have ub: "unat ?c \<le> 0xFFFF" unfolding c using ht by linarith
  have d: "unat ?c div 4096 = h" "unat ?c div 64 mod 64 = t" "unat ?c mod 64 = u"
    unfolding c using undigits64[of t u 0 h] ht(3,5) by simp_all
  have enc: "utf8_encode ?c =
      [ucast (0xE0 OR (drop_bit 12 ?c AND 0x0F)), ucast (0x80 OR (drop_bit 6 ?c AND 0x3F)),
       ucast (0x80 OR (?c AND 0x3F))]"
    using assms(7,8) ub by (auto simp: utf8_encode_def word_le_nat_alt)
  have "ucast (0xE0 OR (drop_bit 12 ?c AND 0x0F)) = l"
    unfolding word_eq_unat unat_lead3 using d ht(1,2) by simp
  moreover have "ucast (0x80 OR (drop_bit 6 ?c AND 0x3F)) = b1" "ucast (0x80 OR (?c AND 0x3F)) = b2"
    unfolding word_eq_unat unat_cont unat_drop_bit_div using d ht(4,6) by simp_all
  ultimately show ?thesis
    using assms(7,8) ub enc by (auto simp: scalar_value_def word_le_nat_alt)
qed

lemma encode_cp4:
  assumes "240 \<le> unat l" "unat l < 248" "128 \<le> unat b1" "unat b1 < 192" "128 \<le> unat b2" "unat b2 < 192"
    "128 \<le> unat b3" "unat b3 < 192"
    and "0x10000 \<le> unat (cp4 l b1 b2 b3)" "unat (cp4 l b1 b2 b3) \<le> 0x10FFFF"
  shows "scalar_value (cp4 l b1 b2 b3) \<and> utf8_encode (cp4 l b1 b2 b3) = [l, b1, b2, b3]"
proof -
  obtain h t u v where ht: "h < 8" "unat l = 240 + h" "t < 64" "unat b1 = 128 + t" "u < 64"
    "unat b2 = 128 + u" "v < 64" "unat b3 = 128 + v"
    using nat_sub_bounds[of 240 "unat l" 8] nat_sub_bounds[of 128 "unat b1" 64]
      nat_sub_bounds[of 128 "unat b2" 64] nat_sub_bounds[of 128 "unat b3" 64] assms by auto
  let ?c = "cp4 l b1 b2 b3"
  have c: "unat ?c = h * 262144 + t * 4096 + u * 64 + v" using ht by (simp add: unat_cp4)
  have d: "unat ?c div 262144 = h" "unat ?c div 4096 mod 64 = t" "unat ?c div 64 mod 64 = u"
    "unat ?c mod 64 = v"
    unfolding c by (rule undigits64[OF ht(3,5,7)])+
  have enc: "utf8_encode ?c =
      [ucast (0xF0 OR (drop_bit 18 ?c AND 0x07)), ucast (0x80 OR (drop_bit 12 ?c AND 0x3F)),
       ucast (0x80 OR (drop_bit 6 ?c AND 0x3F)), ucast (0x80 OR (?c AND 0x3F))]"
    using assms(9,10) by (simp add: utf8_encode_def word_le_nat_alt)
  have "ucast (0xF0 OR (drop_bit 18 ?c AND 0x07)) = l"
    unfolding word_eq_unat unat_lead4 d using ht(1,2) by simp
  moreover have "ucast (0x80 OR (drop_bit 12 ?c AND 0x3F)) = b1"
    "ucast (0x80 OR (drop_bit 6 ?c AND 0x3F)) = b2" "ucast (0x80 OR (?c AND 0x3F)) = b3"
    unfolding word_eq_unat unat_cont unat_drop_bit_div using d ht(4,6,8) by simp_all
  ultimately show ?thesis
    using assms(9,10) enc by (simp add: scalar_value_def word_le_nat_alt)
qed

lemma utf8_decode_sound:
  assumes "utf8_decode s = Some (c, n)"
  shows "scalar_value c \<and> n = length (utf8_encode c) \<and> take n s = utf8_encode c"
proof -
  from assms have ne: "s \<noteq> []" and len: "utf8_sequence_length (s ! 0) \<le> length s"
    by (auto simp: utf8_decode_def Let_def split: if_splits)
  consider "utf8_sequence_length (s ! 0) = 1" | "utf8_sequence_length (s ! 0) = 2"
    | "utf8_sequence_length (s ! 0) = 3" | "utf8_sequence_length (s ! 0) = 4"
    using assms by (auto simp: utf8_decode_def Let_def utf8_sequence_length_def split: if_splits)
  then show ?thesis
  proof cases
    case 1
    then have l: "unat (s ! 0) < 128" by (simp add: utf8_sequence_length_arith split: if_splits)
    with assms ne 1 len have c: "unat c = unat (s ! 0)" "n = 1"
      by (auto simp: utf8_decode_def Let_def word_eq_unat word_arith split: if_splits)
    with l have "utf8_encode c = [s ! 0]"
      by (simp add: utf8_encode_def word_le_nat_alt word_eq_unat word_arith)
    moreover have "take 1 s = [s ! 0]" using ne by (cases s) auto
    ultimately show ?thesis using c l by (simp add: scalar_value_def word_le_nat_alt)
  next
    case 2
    then have "192 \<le> unat (s ! 0)" "unat (s ! 0) < 224"
      by (simp_all add: utf8_sequence_length_arith split: if_splits)
    moreover from assms 2 ne have "128 \<le> unat (s ! 1)" "unat (s ! 1) < 192" "0x80 \<le> unat c"
      "c = cp2 (s ! 0) (s ! 1)" "n = 2"
      by (auto simp: utf8_decode_def Let_def byte_class_tests word_less_nat_alt split: if_splits)
    ultimately show ?thesis using encode_cp2[of "s ! 0" "s ! 1"] len 2 by (simp add: take_2)
  next
    case 3
    then have "224 \<le> unat (s ! 0)" "unat (s ! 0) < 240"
      by (simp_all add: utf8_sequence_length_arith split: if_splits)
    moreover from assms 3 ne have "128 \<le> unat (s ! 1)" "unat (s ! 1) < 192"
      "128 \<le> unat (s ! 2)" "unat (s ! 2) < 192" "0x800 \<le> unat c"
      "\<not> (0xD800 \<le> unat c \<and> unat c \<le> 0xDFFF)" "c = cp3 (s ! 0) (s ! 1) (s ! 2)" "n = 3"
      by (auto simp: utf8_decode_def Let_def byte_class_tests word_less_nat_alt word_le_nat_alt
          split: if_splits)
    ultimately show ?thesis using encode_cp3[of "s ! 0" "s ! 1" "s ! 2"] len 3 by (simp add: take_3)
  next
    case 4
    then have "240 \<le> unat (s ! 0)" "unat (s ! 0) < 248"
      by (simp_all add: utf8_sequence_length_arith split: if_splits)
    moreover from assms 4 ne have "128 \<le> unat (s ! 1)" "unat (s ! 1) < 192"
      "128 \<le> unat (s ! 2)" "unat (s ! 2) < 192" "128 \<le> unat (s ! 3)" "unat (s ! 3) < 192"
      "0x10000 \<le> unat c" "unat c \<le> 0x10FFFF" "c = cp4 (s ! 0) (s ! 1) (s ! 2) (s ! 3)" "n = 4"
      by (auto simp: utf8_decode_def Let_def byte_class_tests word_less_nat_alt word_le_nat_alt
          split: if_splits)
    ultimately show ?thesis
      using encode_cp4[of "s ! 0" "s ! 1" "s ! 2" "s ! 3"] len 4 by (simp add: take_4)
  qed
qed

section \<open>UTF-8 to UTF-16\<close>

lemma utf8_decode_consumes: "utf8_decode s = Some (c, n) \<Longrightarrow> s \<noteq> [] \<and> 0 < n"
  using utf8_decode_sound[of s c n] utf8_encode_nonempty[of c] by (auto simp: utf8_decode_def)

text \<open>The sizing pass: an undecodable byte is skipped and counts for nothing.\<close>

function utf16_count :: "bytes \<Rightarrow> nat" where
  "utf16_count s =
    (if s = [] then 0
     else (case utf8_decode s of
         None \<Rightarrow> utf16_count (tl s)
       | Some (code_point, consumed) \<Rightarrow>
           (if code_point \<le> 0xFFFF then 1 else 2) + utf16_count (drop consumed s)))"
  by pat_completeness auto
termination
  by (relation "measure length") (auto dest: utf8_decode_consumes)

declare utf16_count.simps [simp del]

text \<open>The writing pass: an undecodable byte writes a replacement character.\<close>

function utf16_fill :: "bytes \<Rightarrow> u16 list \<Rightarrow> nat \<Rightarrow> (u16 list \<times> nat) option" where
  "utf16_fill s buf out_idx =
    (if s = [] then Some (buf, out_idx)
     else (case utf8_decode s of
         None \<Rightarrow>
           (case buf_put buf out_idx (ucast REPLACEMENT_CHARACTER) of
              None \<Rightarrow> None
            | Some buf' \<Rightarrow> utf16_fill (tl s) buf' (out_idx + 1))
       | Some (code_point, consumed) \<Rightarrow>
           if code_point \<le> 0xFFFF then
             (case buf_put buf out_idx (ucast code_point) of
                None \<Rightarrow> None
              | Some buf' \<Rightarrow> utf16_fill (drop consumed s) buf' (out_idx + 1))
           else
             (case buf_put buf out_idx (ucast (drop_bit 10 (code_point - 0x10000) + 0xD800)) of
                None \<Rightarrow> None
              | Some buf1 \<Rightarrow>
                  (case buf_put buf1 (out_idx + 1) (ucast (((code_point - 0x10000) AND 0x3FF) + 0xDC00)) of
                     None \<Rightarrow> None
                   | Some buf2 \<Rightarrow> utf16_fill (drop consumed s) buf2 (out_idx + 2)))))"
  by pat_completeness auto
termination
  by (relation "measure (\<lambda>(s, _, _). length s)") (auto dest: utf8_decode_consumes)

declare utf16_fill.simps [simp del]

text \<open>
  The whole conversion. The first argument is the outcome of the allocation, the string pointer and
  the out-parameter may be NULL. The result is the pointer stored through \<open>out_utf16\<close> (as the
  buffer it points to) and the returned count.
\<close>

definition leptris_utf8_to_utf16 :: "bool \<Rightarrow> bytes option \<Rightarrow> bool \<Rightarrow> (u16 list option \<times> nat) option" where
  "leptris_utf8_to_utf16 alloc_ok utf8_str out_given =
    (case utf8_str of
       None \<Rightarrow> Some (None, 0)
     | Some raw \<Rightarrow>
         if \<not> out_given then Some (None, 0)
         else let s = cstr raw in
           if length s = 0 then (if alloc_ok then Some (Some [0], 1) else Some (None, 0))
           else if \<not> alloc_ok then Some (None, 0)
           else (case utf16_fill s (replicate (utf16_count s + 1) 0) 0 of
                   None \<Rightarrow> None
                 | Some (buf, out_idx) \<Rightarrow>
                     (case buf_put buf out_idx 0 of
                        None \<Rightarrow> None
                      | Some buf' \<Rightarrow> Some (Some buf', out_idx))))"

section \<open>UTF-16 to UTF-8\<close>

text \<open>The code point at the head of a UTF-16 string and the units it takes (both passes).\<close>

definition utf16_next :: "u16 list \<Rightarrow> u32 \<times> nat" where
  "utf16_next s =
    (let u = s ! 0 in
     if 0xD800 \<le> u \<and> u \<le> 0xDBFF then
       (if 1 < length s \<and> 0xDC00 \<le> s ! 1 \<and> s ! 1 \<le> 0xDFFF
        then (0x10000 + push_bit 10 (ucast u - 0xD800) + (ucast (s ! 1) - 0xDC00), 2)
        else (REPLACEMENT_CHARACTER, 1))
     else if 0xDC00 \<le> u \<and> u \<le> 0xDFFF then (REPLACEMENT_CHARACTER, 1)
     else (ucast u, 1))"

lemma utf16_next_consumes: "(c, n) = utf16_next s \<Longrightarrow> 0 < n"
  by (simp add: utf16_next_def Let_def split: if_splits)

definition utf8_units :: "u32 \<Rightarrow> nat" where
  "utf8_units code_point =
    (if code_point \<le> 0x7F then 1 else if code_point \<le> 0x7FF then 2
     else if code_point \<le> 0xFFFF then 3 else 4)"

function utf8_count :: "u16 list \<Rightarrow> nat" where
  "utf8_count s =
    (if s = [] then 0
     else let (code_point, n) = utf16_next s in utf8_units code_point + utf8_count (drop n s))"
  by pat_completeness auto
termination
  by (relation "measure length") (auto dest: utf16_next_consumes)

declare utf8_count.simps [simp del]

function utf8_fill :: "u16 list \<Rightarrow> bytes \<Rightarrow> nat \<Rightarrow> (bytes \<times> nat) option" where
  "utf8_fill s buf out_idx =
    (if s = [] then Some (buf, out_idx)
     else let (code_point, n) = utf16_next s in
       (case buf_write buf out_idx (utf8_encode code_point) of
          None \<Rightarrow> None
        | Some buf' \<Rightarrow> utf8_fill (drop n s) buf' (out_idx + length (utf8_encode code_point))))"
  by pat_completeness auto
termination
  by (relation "measure (\<lambda>(s, _, _). length s)") (auto dest: utf16_next_consumes)

declare utf8_fill.simps [simp del]

definition leptris_utf16_to_utf8 :: "bool \<Rightarrow> u16 list option \<Rightarrow> bool \<Rightarrow> (bytes option \<times> nat) option" where
  "leptris_utf16_to_utf8 alloc_ok utf16_str out_given =
    (case utf16_str of
       None \<Rightarrow> Some (None, 0)
     | Some s \<Rightarrow>
         if \<not> out_given then Some (None, 0)
         else if length s = 0 then (if alloc_ok then Some (Some [0], 0) else Some (None, 0))
         else if \<not> alloc_ok then Some (None, 0)
         else (case utf8_fill s (replicate (utf8_count s + 1) 0) 0 of
                 None \<Rightarrow> None
               | Some (buf, out_idx) \<Rightarrow>
                   (case buf_put buf out_idx 0 of
                      None \<Rightarrow> None
                    | Some buf' \<Rightarrow> Some (Some buf', out_idx))))"


section \<open>What the conversions produce\<close>

text \<open>Buffer writes compose; the whole write of a list that fits is the list and the rest.\<close>

lemma buf_write_append:
  "buf_write buf i (xs @ ys) =
    (case buf_write buf i xs of None \<Rightarrow> None | Some b \<Rightarrow> buf_write b (i + length xs) ys)"
  by (induction xs arbitrary: buf i) (auto split: option.splits bind_splits)

lemma buf_write_snoc:
  "buf_write buf i (xs @ [y]) =
    (case buf_write buf i xs of None \<Rightarrow> None | Some b \<Rightarrow> buf_put b (i + length xs) y)"
  by (simp add: buf_write_append split: option.splits)

lemma buf_write_exact:
  assumes "length buf = length vs"
  shows "buf_write buf 0 vs = Some vs"
proof -
  obtain b where b: "buf_write buf 0 vs = Some b"
    using buf_write_defined[of buf 0 vs] assms by auto
  then have "take (length vs) b = vs" using take_buf_write[of buf 0 vs b] by simp
  moreover have "length b = length vs" using length_buf_write[OF b] assms by simp
  ultimately show ?thesis using b by simp
qed

text \<open>The units written for one code point, and for a whole string.\<close>

definition utf16_encode :: "u32 \<Rightarrow> u16 list" where
  "utf16_encode c =
    (if c \<le> 0xFFFF then [ucast c]
     else [ucast (drop_bit 10 (c - 0x10000) + 0xD800), ucast (((c - 0x10000) AND 0x3FF) + 0xDC00)])"

function utf16_out :: "bytes \<Rightarrow> u16 list" where
  "utf16_out s =
    (if s = [] then []
     else (case utf8_decode s of
         None \<Rightarrow> 0xFFFD # utf16_out (tl s)
       | Some (c, n) \<Rightarrow> utf16_encode c @ utf16_out (drop n s)))"
  by pat_completeness auto
termination
  by (relation "measure length") (auto dest: utf8_decode_consumes)

declare utf16_out.simps [simp del]

function invalid_bytes :: "bytes \<Rightarrow> nat" where
  "invalid_bytes s =
    (if s = [] then 0
     else (case utf8_decode s of
         None \<Rightarrow> Suc (invalid_bytes (tl s))
       | Some (c, n) \<Rightarrow> invalid_bytes (drop n s)))"
  by pat_completeness auto
termination
  by (relation "measure length") (auto dest: utf8_decode_consumes)

declare invalid_bytes.simps [simp del]

lemma utf16_fill_eq:
  "utf16_fill s buf i =
    (case buf_write buf i (utf16_out s) of None \<Rightarrow> None | Some b \<Rightarrow> Some (b, i + length (utf16_out s)))"
proof (induction s buf i rule: utf16_fill.induct)
  case (1 s buf i)
  note unf = utf16_fill.simps[of s buf i] utf16_out.simps[of s]
  show ?case
  proof (cases "s = []")
    case True
    then show ?thesis by (simp add: utf16_fill.simps[of "[]"] utf16_out.simps[of "[]"])
  next
    case ne: False
    show ?thesis
    proof (cases "utf8_decode s")
      case None
      show ?thesis
        using 1(1)[OF ne None] ne None
        by (auto simp: unf REPLACEMENT_CHARACTER_def split: option.splits bind_splits)
    next
      case (Some cn)
      obtain c n where cn: "cn = (c, n)" by (cases cn)
      show ?thesis
      proof (cases "c \<le> 0xFFFF")
        case True
        show ?thesis
          using 1(2)[OF ne Some cn[symmetric] True] ne Some cn True
          by (auto simp: unf utf16_encode_def split: option.splits bind_splits)
      next
        case False
        show ?thesis
          using 1(3)[OF ne Some cn[symmetric] False] ne Some cn False
          by (auto simp: unf utf16_encode_def split: option.splits bind_splits)
      qed
    qed
  qed
qed

lemma length_utf16_out: "length (utf16_out s) = utf16_count s + invalid_bytes s"
proof (induction s rule: utf16_out.induct)
  case (1 s)
  then show ?case
    by (auto simp: utf16_out.simps[of s] utf16_count.simps[of s] invalid_bytes.simps[of s]
        utf16_encode_def split: option.splits)
qed

lemma utf8_to_utf16_result:
  assumes "cstr raw \<noteq> []"
  shows "leptris_utf8_to_utf16 True (Some raw) True =
    (if invalid_bytes (cstr raw) = 0
     then Some (Some (utf16_out (cstr raw) @ [0]), length (utf16_out (cstr raw))) else None)"
proof -
  let ?s = "cstr raw" let ?o = "utf16_out ?s" and ?b = "replicate (utf16_count ?s + 1) 0"
  have w: "leptris_utf8_to_utf16 True (Some raw) True =
      (case buf_write ?b 0 (?o @ [0]) of None \<Rightarrow> None | Some b \<Rightarrow> Some (Some b, length ?o))"
    using assms by (simp add: leptris_utf8_to_utf16_def Let_def utf16_fill_eq buf_write_snoc
        split: option.splits)
  show ?thesis
  proof (cases "invalid_bytes ?s = 0")
    case True
    then show ?thesis
      using buf_write_exact[of ?b "?o @ [0]"] by (simp add: w length_utf16_out)
  next
    case False
    then have "buf_write ?b 0 (?o @ [0]) = None"
      using buf_write_defined[of ?b 0 "?o @ [0]"] by (simp add: length_utf16_out)
    with False show ?thesis by (simp add: w)
  qed
qed


text \<open>A string with no undecodable byte is the encoding of a list of scalar values.\<close>

lemma invalid_bytes_0_iff:
  "invalid_bytes s = 0 \<longleftrightarrow> (\<exists>cs. (\<forall>c \<in> set cs. scalar_value c) \<and> s = concat (map utf8_encode cs))"
proof
  assume "invalid_bytes s = 0"
  then show "\<exists>cs. (\<forall>c \<in> set cs. scalar_value c) \<and> s = concat (map utf8_encode cs)"
  proof (induction s rule: invalid_bytes.induct)
    case (1 s)
    show ?case
    proof (cases "s = []")
      case True
      then show ?thesis by (intro exI[of _ "[]"]) simp
    next
      case False
      with 1(3) obtain c n where d: "utf8_decode s = Some (c, n)" "invalid_bytes (drop n s) = 0"
        by (auto simp: invalid_bytes.simps[of s] split: option.splits)
      from 1(2)[OF False d(1) refl d(2)] obtain cs where
        cs: "\<forall>c \<in> set cs. scalar_value c" "drop n s = concat (map utf8_encode cs)" by blast
      have "take n s = utf8_encode c" "scalar_value c"
        using utf8_decode_sound[OF d(1)] by blast+
      moreover from this have "s = utf8_encode c @ drop n s"
        by (metis append_take_drop_id)
      ultimately show ?thesis using cs by (intro exI[of _ "c # cs"]) simp
    qed
  qed
next
  assume "\<exists>cs. (\<forall>c \<in> set cs. scalar_value c) \<and> s = concat (map utf8_encode cs)"
  then obtain cs where "\<forall>c \<in> set cs. scalar_value c" "s = concat (map utf8_encode cs)" by blast
  then show "invalid_bytes s = 0"
  proof (induction cs arbitrary: s)
    case Nil
    then show ?case by (simp add: invalid_bytes.simps[of "[]"])
  next
    case (Cons c cs)
    let ?r = "concat (map utf8_encode cs)"
    have "invalid_bytes ?r = 0" using Cons by simp
    moreover have "utf8_decode (utf8_encode c @ ?r) = Some (c, length (utf8_encode c))"
      using Cons.prems by (simp add: utf8_decode_encode)
    ultimately show ?case
      using Cons.prems utf8_encode_nonempty[of c] by (simp add: invalid_bytes.simps[of "utf8_encode c @ ?r"])
  qed
qed

lemma utf16_out_encoded:
  "\<forall>c \<in> set cs. scalar_value c \<Longrightarrow>
    utf16_out (concat (map utf8_encode cs)) = concat (map utf16_encode cs)"
proof (induction cs)
  case Nil
  then show ?case by (simp add: utf16_out.simps[of "[]"])
next
  case (Cons c cs)
  let ?r = "concat (map utf8_encode cs)"
  have "utf8_decode (utf8_encode c @ ?r) = Some (c, length (utf8_encode c))"
    using Cons.prems by (simp add: utf8_decode_encode)
  then show ?case
    using Cons utf8_encode_nonempty[of c] by (simp add: utf16_out.simps[of "utf8_encode c @ ?r"])
qed

section \<open>Surrogate pairs\<close>

lemma unat_surrogates:
  fixes c :: u32
  assumes "0x10000 \<le> unat c" "unat c \<le> 0x10FFFF"
  shows "unat (ucast (drop_bit 10 (c - 0x10000) + 0xD800) :: u16) = (unat c - 65536) div 1024 + 55296"
    "unat (ucast (((c - 0x10000) AND 0x3FF) + 0xDC00) :: u16) = (unat c - 65536) mod 1024 + 56320"
proof -
  let ?n = "unat c - 65536"
  have d: "unat (c - 0x10000) = ?n"
    using assms by (simp add: unat_sub word_le_nat_alt)
  have q: "?n div 1024 < 1024" using assms by simp
  have r: "?n mod 1024 < 1024" by simp
  have "unat (drop_bit 10 (c - 0x10000) + 0xD800) = ?n div 1024 + 55296"
    using q by (simp add: unat_word_ariths word_arith d)
  then show "unat (ucast (drop_bit 10 (c - 0x10000) + 0xD800) :: u16) = ?n div 1024 + 55296"
    using q by (simp add: unsigned_ucast_eq take_bit_eq_mod)
  have "unat (((c - 0x10000) AND 0x3FF) + 0xDC00) = ?n mod 1024 + 56320"
    using r by (simp add: unat_word_ariths word_arith d)
  then show "unat (ucast (((c - 0x10000) AND 0x3FF) + 0xDC00) :: u16) = ?n mod 1024 + 56320"
    using r by (simp add: unsigned_ucast_eq take_bit_eq_mod)
qed

lemma unat_ucast_unit: "unat (ucast u :: u32) = unat u" for u :: u16
proof -
  have "unat u < 2 ^ LENGTH(16)" by (rule unsigned_less)
  then have "unat u < 2 ^ 32" by simp
  then show ?thesis by (simp add: unsigned_ucast_eq take_bit_eq_mod)
qed

lemma unat_pair:
  fixes u v :: u16
  assumes "0xD800 \<le> unat u" "unat u \<le> 0xDBFF" "0xDC00 \<le> unat v" "unat v \<le> 0xDFFF"
  shows "unat (0x10000 + push_bit 10 (ucast u - 0xD800) + (ucast v - 0xDC00) :: u32) =
    65536 + (unat u - 55296) * 1024 + (unat v - 56320)"
proof -
  obtain a b where ab: "unat u = 55296 + a" "a < 1024" "unat v = 56320 + b" "b < 1024"
    using nat_sub_bounds[of 55296 "unat u" 1024] nat_sub_bounds[of 56320 "unat v" 1024] assms by auto
  let ?a = "ucast u - 0xD800 :: u32" and ?b = "ucast v - 0xDC00 :: u32"
  have h: "unat ?a = a" "unat ?b = b"
    using ab by (simp_all add: unat_sub word_le_nat_alt unat_ucast_unit)
  have p: "unat (push_bit 10 ?a) = a * 1024"
    using ab(2) by (subst unat_push_bit_bounded) (simp_all only: h, simp_all)
  have sum: "unat (0x10000 + x + y) = 65536 + unat x + unat y"
    if "unat x + unat y < 2097152" for x y :: u32
    using that by (simp add: unat_word_ariths)
  have "a * 1024 + b < 2097152" using ab by simp
  then have "unat (0x10000 + push_bit 10 ?a + ?b) = 65536 + a * 1024 + b"
    by (subst sum) (simp_all only: p h)
  then show ?thesis using ab by simp
qed

lemma utf16_next_encode:
  assumes "scalar_value c"
  shows "utf16_next (utf16_encode c @ rest) = (c, length (utf16_encode c))"
proof -
  have sv: "unat c \<le> 0x10FFFF" "\<not> (0xD800 \<le> unat c \<and> unat c \<le> 0xDFFF)"
    using assms by (simp_all add: scalar_value_def word_le_nat_alt)
  show ?thesis
  proof (cases "unat c \<le> 0xFFFF")
    case True
    then have e: "utf16_encode c = [ucast c]" by (simp add: utf16_encode_def word_le_nat_alt)
    have "unat (ucast c :: u16) = unat c mod 65536" by (simp add: unsigned_ucast_eq take_bit_eq_mod)
    with True have u: "unat (ucast c :: u16) = unat c" by simp
    then have v: "(ucast (ucast c :: u16) :: u32) = c"
      unfolding word_eq_unat unat_ucast_unit by simp
    show ?thesis using sv u v by (auto simp: e utf16_next_def Let_def word_le_nat_alt)
  next
    case False
    let ?u = "ucast (drop_bit 10 (c - 0x10000) + 0xD800) :: u16"
    let ?v = "ucast (((c - 0x10000) AND 0x3FF) + 0xDC00) :: u16"
    let ?n = "unat c - 65536"
    have e: "utf16_encode c = [?u, ?v]" using False by (simp add: utf16_encode_def word_le_nat_alt)
    have uv: "unat ?u = ?n div 1024 + 55296" "unat ?v = ?n mod 1024 + 56320"
      using unat_surrogates[of c] False sv by simp_all
    have q: "?n div 1024 < 1024" using sv by simp
    have r: "?n mod 1024 < 1024" by simp
    have "unat (0x10000 + push_bit 10 (ucast ?u - 0xD800) + (ucast ?v - 0xDC00) :: u32) = unat c"
      using unat_pair[of ?u ?v] q r False div_mult_mod_eq[of ?n 1024] unfolding uv by simp
    then have "0x10000 + push_bit 10 (ucast ?u - 0xD800) + (ucast ?v - 0xDC00) = c"
      unfolding word_eq_unat .
    then show ?thesis
      using uv q r by (simp add: e utf16_next_def Let_def word_le_nat_alt)
  qed
qed


lemma utf16_encode_nonempty: "utf16_encode c \<noteq> []"
  by (simp add: utf16_encode_def)

interpretation utf16: prefix_codec utf16_encode "\<lambda>s. if s = [] then None else Some (utf16_next s)"
    scalar_value
  by unfold_locales (simp_all add: utf16_next_encode utf16_encode_nonempty)

function utf8_out :: "u16 list \<Rightarrow> bytes" where
  "utf8_out s = (if s = [] then [] else let (c, n) = utf16_next s in utf8_encode c @ utf8_out (drop n s))"
  by pat_completeness auto
termination
  by (relation "measure length") (auto dest: utf16_next_consumes)

declare utf8_out.simps [simp del]

lemma utf16_next_le: "utf16_next s = (c, n) \<Longrightarrow> unat c \<le> 0x10FFFF"
proof -
  assume e: "utf16_next s = (c, n)"
  show "unat c \<le> 0x10FFFF"
  proof (cases "0xD800 \<le> unat (s ! 0) \<and> unat (s ! 0) \<le> 0xDBFF \<and> 1 < length s
      \<and> 0xDC00 \<le> unat (s ! 1) \<and> unat (s ! 1) \<le> 0xDFFF")
    case True
    then have "c = 0x10000 + push_bit 10 (ucast (s ! 0) - 0xD800) + (ucast (s ! 1) - 0xDC00)"
      using e by (auto simp: utf16_next_def Let_def word_le_nat_alt split: if_splits)
    then have "unat c = 65536 + (unat (s ! 0) - 55296) * 1024 + (unat (s ! 1) - 56320)"
      using unat_pair[of "s ! 0" "s ! 1"] True by simp
    moreover have "unat (s ! 0) - 55296 \<le> 1023" "unat (s ! 1) - 56320 \<le> 1023" using True by auto
    ultimately show ?thesis by linarith
  next
    case False
    have "unat (s ! 0) < 2 ^ LENGTH(16)" by (rule unsigned_less)
    with False e show ?thesis
      by (auto simp: utf16_next_def Let_def word_le_nat_alt REPLACEMENT_CHARACTER_def
          unat_ucast_unit split: if_splits)
  qed
qed

lemma utf8_units_eq: "unat c \<le> 0x10FFFF \<Longrightarrow> utf8_units c = length (utf8_encode c)"
  by (auto simp: utf8_units_def utf8_encode_def word_le_nat_alt)

lemma length_utf8_out: "length (utf8_out s) = utf8_count s"
proof (induction s rule: utf8_out.induct)
  case (1 s)
  show ?case
  proof (cases "s = []")
    case True
    then show ?thesis by (simp add: utf8_out.simps[of "[]"] utf8_count.simps[of "[]"])
  next
    case False
    obtain c n where cn: "utf16_next s = (c, n)" by (cases "utf16_next s")
    with 1[OF False] False show ?thesis
      by (simp add: utf8_out.simps[of s] utf8_count.simps[of s] utf8_units_eq utf16_next_le[OF cn])
  qed
qed

lemma utf8_fill_eq:
  "utf8_fill s buf i =
    (case buf_write buf i (utf8_out s) of None \<Rightarrow> None | Some b \<Rightarrow> Some (b, i + length (utf8_out s)))"
proof (induction s buf i rule: utf8_fill.induct)
  case (1 s buf i)
  show ?case
  proof (cases "s = []")
    case True
    then show ?thesis by (simp add: utf8_fill.simps[of "[]"] utf8_out.simps[of "[]"])
  next
    case False
    obtain c n where cn: "utf16_next s = (c, n)" by (cases "utf16_next s")
    show ?thesis
      using 1[OF False refl cn[symmetric]] False cn
      by (auto simp: utf8_fill.simps[of s] utf8_out.simps[of s] buf_write_append split: option.splits)
  qed
qed

text \<open>This direction sizes its buffer exactly: no input makes it store out of bounds.\<close>

lemma utf16_to_utf8_result:
  assumes "s \<noteq> []"
  shows "leptris_utf16_to_utf8 True (Some s) True = Some (Some (utf8_out s @ [0]), length (utf8_out s))"
proof -
  let ?b = "replicate (utf8_count s + 1) (0 :: u8)" let ?o = "utf8_out s"
  have w: "leptris_utf16_to_utf8 True (Some s) True =
      (case buf_write ?b 0 (?o @ [0]) of None \<Rightarrow> None | Some b \<Rightarrow> Some (Some b, length ?o))"
    using assms by (simp add: leptris_utf16_to_utf8_def Let_def utf8_fill_eq buf_write_snoc
        split: option.splits)
  show ?thesis
    using buf_write_exact[of ?b "?o @ [0]"] by (simp add: w length_utf8_out)
qed

lemma utf8_out_encoded:
  "\<forall>c \<in> set cs. scalar_value c \<Longrightarrow>
    utf8_out (concat (map utf16_encode cs)) = concat (map utf8_encode cs)"
proof (induction cs)
  case Nil
  then show ?case by (simp add: utf8_out.simps[of "[]"])
next
  case (Cons c cs)
  let ?r = "concat (map utf16_encode cs)"
  have "utf16_next (utf16_encode c @ ?r) = (c, length (utf16_encode c))"
    using Cons.prems by (simp add: utf16_next_encode)
  moreover have "utf16_encode c \<noteq> []" by (simp add: utf16_encode_def)
  ultimately show ?case using Cons by (simp add: utf8_out.simps[of "utf16_encode c @ ?r"])
qed


lemma nul_free_encode: "0 \<notin> set (utf8_encode c) \<longleftrightarrow> c \<noteq> 0"
proof -
  have "unat (ucast (0x80 OR (x AND 0x3F)) :: u8) \<noteq> 0" for x :: u32 by (simp add: unat_cont)
  moreover have "unat (ucast c :: u8) = unat c" if "unat c \<le> 127"
    using that by (simp add: word_arith)
  ultimately show ?thesis
    by (cases "unat c \<le> 127") (auto simp: utf8_encode_def word_eq_unat unat_lead2 unat_lead3 unat_lead4
        eq_commute[of 0] word_le_nat_alt)
qed

lemma nul_free_encoded: "0 \<notin> set cs \<Longrightarrow> cstr (concat (map utf8_encode cs)) = concat (map utf8_encode cs)"
  by (rule cstr_id) (auto simp: nul_free_encode)

section \<open>Properties\<close>

text \<open>
  C25. The UTF-8 decoder accepts exactly the shortest-form encodings of Unicode scalar values: it
  returns \<open>c\<close> and \<open>n\<close> if and only if the first \<open>n\<close> bytes are the encoder's output for \<open>c\<close> and \<open>c\<close>
  is a scalar value. Overlong forms, surrogates and code points past U+10FFFF are refused.
\<close>
theorem utf8_decode_exact:
  "utf8_decode s = Some (c, n) \<longleftrightarrow>
    scalar_value c \<and> n = length (utf8_encode c) \<and> take n s = utf8_encode c"
proof
  assume r: "scalar_value c \<and> n = length (utf8_encode c) \<and> take n s = utf8_encode c"
  then have "s = utf8_encode c @ drop n s" by (metis append_take_drop_id)
  with r show "utf8_decode s = Some (c, n)" by (metis utf8_decode_encode)
qed (rule utf8_decode_sound)

text \<open>
  The UTF-8 to UTF-16 conversion stores outside its allocation exactly when the string is not
  the encoding of a list of scalar values: the sizing pass skips an undecodable byte, the writing
  pass writes a replacement character for it.
\<close>
theorem utf8_to_utf16_overflows_iff:
  "leptris_utf8_to_utf16 True (Some raw) True = None \<longleftrightarrow>
    \<not> (\<exists>cs. list_all scalar_value cs \<and> cstr raw = concat (map utf8_encode cs))"
proof -
  have "invalid_bytes (cstr raw) = 0 \<longleftrightarrow>
      (\<exists>cs. list_all scalar_value cs \<and> cstr raw = concat (map utf8_encode cs))"
    by (simp add: invalid_bytes_0_iff list_all_iff)
  moreover have "leptris_utf8_to_utf16 True (Some raw) True \<noteq> None \<and> invalid_bytes (cstr raw) = 0"
    if "cstr raw = []"
    using that by (simp add: leptris_utf8_to_utf16_def invalid_bytes.simps[of "[]"])
  ultimately show ?thesis
    using utf8_to_utf16_result[of raw] by (cases "cstr raw = []") auto
qed

theorem utf8_to_utf16_overflows_iff_witness:
  "leptris_utf8_to_utf16 True (Some [0x41, 0xFF]) True = None"
proof -
  have bad: "\<not> (\<exists>cs. list_all scalar_value cs \<and> cstr [0x41, 0xFF] = concat (map utf8_encode cs))"
  proof
    assume "\<exists>cs. list_all scalar_value cs \<and> cstr [0x41, 0xFF] = concat (map utf8_encode cs)"
    then have "invalid_bytes [0x41, 0xFF] = 0"
      by (simp add: invalid_bytes_0_iff list_all_iff cstr_def)
    then show False
      by (simp add: invalid_bytes.simps[of "_ # _"] utf8_decode_def utf8_sequence_length_def Let_def)
  qed
  show ?thesis using utf8_to_utf16_overflows_iff[of "[0x41, 0xFF]"] bad by blast
qed

text \<open>
  C18. Text survives the trip: a non-empty text of scalar values without U+0000 converts to its
  UTF-16 form, NUL-terminated, and that form converts back to the same bytes.
\<close>
theorem utf16_roundtrip:
  assumes "list_all scalar_value cs" and "0 \<notin> set cs" and "cs \<noteq> []"
  shows "leptris_utf8_to_utf16 True (Some (concat (map utf8_encode cs))) True =
      Some (Some (concat (map utf16_encode cs) @ [0]), length (concat (map utf16_encode cs)))
    \<and> leptris_utf16_to_utf8 True (Some (concat (map utf16_encode cs))) True =
      Some (Some (concat (map utf8_encode cs) @ [0]), length (concat (map utf8_encode cs)))"
proof -
  let ?s = "concat (map utf8_encode cs)" and ?u = "concat (map utf16_encode cs)"
  have sv: "\<forall>c \<in> set cs. scalar_value c" using assms(1) by (simp add: list_all_iff)
  have ne: "?s \<noteq> []" "?u \<noteq> []"
    using assms(3) utf8_encode_nonempty utf16_encode_nonempty by (cases cs; auto)+
  have c: "cstr ?s = ?s" using assms(2) by (rule nul_free_encoded)
  have "invalid_bytes ?s = 0" using sv invalid_bytes_0_iff by blast
  then show ?thesis
    using utf8_to_utf16_result[of ?s] utf16_to_utf8_result[OF ne(2)] c ne(1) sv
    by (simp add: utf16_out_encoded utf8_out_encoded)
qed

theorem utf16_roundtrip_witness:
  "leptris_utf8_to_utf16 True (Some [0x41, 0xF0, 0x9F, 0x98, 0x80]) True = Some (Some [0x41, 0xD83D, 0xDE00, 0], 3)"
proof -
  have e: "concat (map utf8_encode [0x41, 0x1F600]) = [0x41, 0xF0, 0x9F, 0x98, 0x80]"
    by (simp add: utf8_encode_def)
  have u: "concat (map utf16_encode [0x41, 0x1F600]) = [0x41, 0xD83D, 0xDE00]"
    by (simp add: utf16_encode_def)
  show ?thesis
    using utf16_roundtrip[of "[0x41, 0x1F600]"] unfolding e u
    by (simp add: scalar_value_def)
qed

text \<open>
  The UTF-16 to UTF-8 conversion never stores outside its allocation, whatever the input units
  (isolated surrogates included), the outcome of the allocation and the NULL-ness of the pointers.
\<close>
theorem utf16_to_utf8_in_bounds:
  "leptris_utf16_to_utf8 alloc_ok str given \<noteq> None"
  using utf16_to_utf8_result
  by (auto simp: leptris_utf16_to_utf8_def split: option.splits)

end
