(* ===== verification/Utf8Gate.thy ===== *)
theory Utf8Gate
  imports Unicode
begin

text \<open>
  The load-time encoding gate of the parser (\<open>flat/direct_parse.c\<close>, \<open>dp_input_encoding_ok\<close>): a
  document whose declaration names no other encoding must be UTF-8. The first half relates the fast
  acceptor of \<open>TextScan\<close> to the decoder of \<open>Unicode\<close>; the second half models the gate.
\<close>

section \<open>The fast acceptor is the decoder\<close>

lemma bit_load64:
  "length bs \<le> 8 \<Longrightarrow> i < length bs \<Longrightarrow> j < 8 \<Longrightarrow> bit (load64 bs) (8 * i + j) = bit (bs ! i) j"
proof (induction bs arbitrary: i)
  case Nil
  then show ?case by simp
next
  case (Cons b bs)
  show ?case
  proof (cases i)
    case 0
    with Cons.prems show ?thesis by (simp add: bit_simps)
  next
    case (Suc k)
    have "bit (load64 bs) (8 * k + j) = bit (bs ! k) j" using Cons.prems Suc by (intro Cons.IH) auto
    moreover have "\<not> bit b (8 * i + j)" using Suc by (auto dest: bit_imp_le_length)
    moreover have "8 * i + j < 64" using Cons.prems by auto
    ultimately show ?thesis using Suc by (simp add: bit_simps)
  qed
qed

lemma load64_high_bits:
  assumes "length bs = 8" and z: "load64 bs AND 0x8080808080808080 = 0"
  shows "\<forall>b \<in> set bs. b < 0x80"
proof
  fix b assume "b \<in> set bs"
  then obtain i where i: "i < 8" "b = bs ! i" using assms(1) by (auto simp: in_set_conv_nth)
  let ?m = "[0x80, 0x80, 0x80, 0x80, 0x80, 0x80, 0x80, 0x80] :: bytes"
  have m: "load64 ?m = 0x8080808080808080" by simp
  have mi: "?m ! i = 0x80"
    using nth_mem[of i ?m] i(1) by simp
  have "bit (load64 ?m) (8 * i + 7) = bit (?m ! i) 7" using i by (intro bit_load64) auto
  also have "bit (?m ! i) 7" unfolding mi by simp
  finally have "bit (load64 ?m) (8 * i + 7)" .
  moreover have "bit (load64 bs AND load64 ?m) (8 * i + 7) = bit (0 :: u64) (8 * i + 7)"
    unfolding m z ..
  ultimately have "\<not> bit (load64 bs) (8 * i + 7)" by (simp only: bit_and_iff) simp
  then have "\<not> bit b 7" using bit_load64[of bs i 7] i assms(1) by simp
  then have "\<not> bit (unat b) 7" by (simp add: bit_unsigned_iff)
  then have "even (unat b div 128)" by (simp add: bit_iff_odd)
  moreover have "unat b div 128 < 2" using byte_less[of b] by simp
  moreover have "q = 0" if "even q" "q < 2" for q :: nat using that by presburger
  ultimately have "unat b div 128 = 0" by blast
  then show "b < 0x80" by (simp add: word_less_nat_alt)
qed

lemma utf8_dfa_skip_ascii: "utf8_dfa (skip_ascii p) = utf8_dfa p"
  by (induction p) auto

lemma utf8_dfa_ascii_prefix: "\<forall>b \<in> set xs. b < 0x80 \<Longrightarrow> utf8_dfa (xs @ ys) = utf8_dfa ys"
  by (induction xs) auto

lemma utf8_dfa_skip_ascii8: "utf8_dfa (skip_ascii8 p) = utf8_dfa p"
proof (induction p rule: skip_ascii8.induct)
  case (1 p)
  show ?case
  proof (cases "8 \<le> length p \<and> load64 (take 8 p) AND 0x8080808080808080 = 0")
    case True
    then have "\<forall>b \<in> set (take 8 p). b < 0x80" by (intro load64_high_bits) auto
    then have "utf8_dfa (take 8 p @ drop 8 p) = utf8_dfa (drop 8 p)" by (rule utf8_dfa_ascii_prefix)
    with True 1 show ?thesis by (simp add: skip_ascii8.simps[of p])
  qed (auto simp: skip_ascii8.simps[of p])
qed

text \<open>One step of the acceptor consumes exactly what the decoder would.\<close>

lemma word_bounds:
  "l \<le> w \<longleftrightarrow> unat l \<le> unat w" "l < w \<longleftrightarrow> unat l < unat w" for l w :: u8
  by (simp_all add: word_le_nat_alt word_less_nat_alt)

lemma cont_iff: "b AND 0xC0 = 0x80 \<longleftrightarrow> \<not> (b < 0x80 \<or> b > 0xBF)" for b :: u8
  by (auto simp: byte_class_tests word_bounds)

lemma decode_2_bounds:
  assumes "192 \<le> unat l" "unat l < 224" "128 \<le> unat b" "unat b < 192"
  shows "unat (cp2 l b) < 0x80 \<longleftrightarrow> unat l < 194"
proof -
  obtain h t where ht: "h < 32" "unat l = 192 + h" "t < 64" "unat b = 128 + t"
    using nat_sub_bounds[of 192 "unat l" 32] nat_sub_bounds[of 128 "unat b" 64] assms by auto
  then have c: "unat (cp2 l b) = h * 64 + t" by (simp add: unat_cp2)
  show ?thesis unfolding c using ht by auto
qed

lemma decode_3_bounds:
  assumes "224 \<le> unat l" "unat l < 240" "128 \<le> unat b1" "unat b1 < 192" "128 \<le> unat b2" "unat b2 < 192"
  shows "unat (cp3 l b1 b2) < 0x800 \<longleftrightarrow> unat l = 224 \<and> unat b1 < 160"
    "0xD800 \<le> unat (cp3 l b1 b2) \<and> unat (cp3 l b1 b2) \<le> 0xDFFF \<longleftrightarrow> unat l = 237 \<and> 159 < unat b1"
proof -
  obtain h t u where ht: "h < 16" "unat l = 224 + h" "t < 64" "unat b1 = 128 + t" "u < 64" "unat b2 = 128 + u"
    using nat_sub_bounds[of 224 "unat l" 16] nat_sub_bounds[of 128 "unat b1" 64]
      nat_sub_bounds[of 128 "unat b2" 64] assms by auto
  then have c: "unat (cp3 l b1 b2) = h * 4096 + t * 64 + u" by (simp add: unat_cp3)
  show "unat (cp3 l b1 b2) < 0x800 \<longleftrightarrow> unat l = 224 \<and> unat b1 < 160"
    unfolding c using ht by auto
  have "55296 \<le> h * 4096 + t * 64 + u \<and> h * 4096 + t * 64 + u \<le> 57343 \<longleftrightarrow> h = 13 \<and> 32 \<le> t"
    using ht(1,3,5) by (cases "h < 13"; cases "h = 13") auto
  then show "0xD800 \<le> unat (cp3 l b1 b2) \<and> unat (cp3 l b1 b2) \<le> 0xDFFF \<longleftrightarrow> unat l = 237 \<and> 159 < unat b1"
    unfolding c using ht by auto
qed

lemma decode_4_bounds:
  assumes "240 \<le> unat l" "unat l < 248" "128 \<le> unat b1" "unat b1 < 192" "128 \<le> unat b2" "unat b2 < 192"
    "128 \<le> unat b3" "unat b3 < 192"
  shows "unat (cp4 l b1 b2 b3) < 0x10000 \<longleftrightarrow> unat l = 240 \<and> unat b1 < 144"
    "unat (cp4 l b1 b2 b3) > 0x10FFFF \<longleftrightarrow> unat l > 244 \<or> (unat l = 244 \<and> 143 < unat b1)"
proof -
  obtain h t u v where ht: "h < 8" "unat l = 240 + h" "t < 64" "unat b1 = 128 + t" "u < 64"
    "unat b2 = 128 + u" "v < 64" "unat b3 = 128 + v"
    using nat_sub_bounds[of 240 "unat l" 8] nat_sub_bounds[of 128 "unat b1" 64]
      nat_sub_bounds[of 128 "unat b2" 64] nat_sub_bounds[of 128 "unat b3" 64] assms by auto
  then have c: "unat (cp4 l b1 b2 b3) = h * 262144 + t * 4096 + u * 64 + v" by (simp add: unat_cp4)
  show "unat (cp4 l b1 b2 b3) < 0x10000 \<longleftrightarrow> unat l = 240 \<and> unat b1 < 144"
    unfolding c using ht by auto
  show "unat (cp4 l b1 b2 b3) > 0x10FFFF \<longleftrightarrow> unat l > 244 \<or> (unat l = 244 \<and> 143 < unat b1)"
    unfolding c using ht by auto
qed


lemma lead_classes:
  "utf8_lead c =
    (if 194 \<le> unat c \<and> unat c < 224 then Some (1, 0x80, 0xBF)
     else if 224 \<le> unat c \<and> unat c < 240 then
       Some (2, if unat c = 224 then 0xA0 else 0x80, if unat c = 237 then 0x9F else 0xBF)
     else if 240 \<le> unat c \<and> unat c < 245 then
       Some (3, if unat c = 240 then 0x90 else 0x80, if unat c = 244 then 0x8F else 0xBF)
     else None)"
  by (auto simp: utf8_lead_def word_bounds word_eq_unat)

text \<open>Both sides for a long enough sequence, in arithmetic.\<close>

definition cont_byte :: "u8 \<Rightarrow> bool" where
  "cont_byte b \<longleftrightarrow> 128 \<le> unat b \<and> unat b < 192"

lemma cont_byte_tests:
  "b AND 0xC0 = 0x80 \<longleftrightarrow> cont_byte b" "b < 0x80 \<or> b > 0xBF \<longleftrightarrow> \<not> cont_byte b"
  by (auto simp: cont_byte_def byte_class_tests word_bounds)

lemma decode_dfa_2:
  assumes "192 \<le> unat c" "unat c < 224"
  shows "utf8_decode (c # b1 # p) =
      (if cont_byte b1 \<and> 194 \<le> unat c then Some (cp2 c b1, 2) else None)"
    "utf8_dfa (c # b1 # p) \<longleftrightarrow> cont_byte b1 \<and> 194 \<le> unat c \<and> utf8_dfa p"
proof -
  have sl: "utf8_sequence_length c = 2" using assms by (simp add: utf8_sequence_length_arith)
  show "utf8_decode (c # b1 # p) =
      (if cont_byte b1 \<and> 194 \<le> unat c then Some (cp2 c b1, 2) else None)"
    using decode_2_bounds[of c b1] assms
    by (auto simp: utf8_decode_def sl Let_def cont_byte_tests cont_byte_def[of b1] word_less_nat_alt)
  show "utf8_dfa (c # b1 # p) \<longleftrightarrow> cont_byte b1 \<and> 194 \<le> unat c \<and> utf8_dfa p"
    using assms by (auto simp: lead_classes word_less_nat_alt cont_byte_def)
qed

lemma decode_dfa_3:
  assumes "224 \<le> unat c" "unat c < 240"
  shows "utf8_decode (c # b1 # b2 # p) =
      (if cont_byte b1 \<and> cont_byte b2 \<and> \<not> (unat c = 224 \<and> unat b1 < 160) \<and> \<not> (unat c = 237 \<and> 159 < unat b1)
       then Some (cp3 c b1 b2, 3) else None)"
    "utf8_dfa (c # b1 # b2 # p) \<longleftrightarrow>
      cont_byte b1 \<and> cont_byte b2 \<and> \<not> (unat c = 224 \<and> unat b1 < 160) \<and> \<not> (unat c = 237 \<and> 159 < unat b1)
      \<and> utf8_dfa p"
proof -
  have sl: "utf8_sequence_length c = 3" using assms by (simp add: utf8_sequence_length_arith)
  have w: "cp3 c b1 b2 < 0x800 \<longleftrightarrow> unat c = 224 \<and> unat b1 < 160"
    "0xD800 \<le> cp3 c b1 b2 \<and> cp3 c b1 b2 \<le> 0xDFFF \<longleftrightarrow> unat c = 237 \<and> 159 < unat b1"
    if "cont_byte b1" "cont_byte b2"
    using decode_3_bounds[of c b1 b2] assms that
    by (simp_all add: word_less_nat_alt word_le_nat_alt cont_byte_def)
  show "utf8_decode (c # b1 # b2 # p) =
      (if cont_byte b1 \<and> cont_byte b2 \<and> \<not> (unat c = 224 \<and> unat b1 < 160) \<and> \<not> (unat c = 237 \<and> 159 < unat b1)
       then Some (cp3 c b1 b2, 3) else None)"
    using w by (cases "cont_byte b1"; cases "cont_byte b2") (auto simp: utf8_decode_def sl Let_def cont_byte_tests)
  have idx: "[2..<2 + 1] = [2::nat]" by (simp add: upt_rec)
  show "utf8_dfa (c # b1 # b2 # p) \<longleftrightarrow>
      cont_byte b1 \<and> cont_byte b2 \<and> \<not> (unat c = 224 \<and> unat b1 < 160) \<and> \<not> (unat c = 237 \<and> 159 < unat b1)
      \<and> utf8_dfa p"
    using assms by (cases "unat c = 224"; cases "unat c = 237")
      (auto simp add: lead_classes word_less_nat_alt cont_byte_def idx)
qed

lemma decode_dfa_4:
  assumes "240 \<le> unat c" "unat c < 248"
  shows "utf8_decode (c # b1 # b2 # b3 # p) =
      (if cont_byte b1 \<and> cont_byte b2 \<and> cont_byte b3 \<and> unat c < 245 \<and> \<not> (unat c = 240 \<and> unat b1 < 144)
          \<and> \<not> (unat c = 244 \<and> 143 < unat b1)
       then Some (cp4 c b1 b2 b3, 4) else None)"
    "utf8_dfa (c # b1 # b2 # b3 # p) \<longleftrightarrow>
      cont_byte b1 \<and> cont_byte b2 \<and> cont_byte b3 \<and> unat c < 245 \<and> \<not> (unat c = 240 \<and> unat b1 < 144)
          \<and> \<not> (unat c = 244 \<and> 143 < unat b1) \<and> utf8_dfa p"
proof -
  have sl: "utf8_sequence_length c = 4" using assms by (simp add: utf8_sequence_length_arith)
  have nth: "(c # b1 # b2 # b3 # p) ! 3 = b3" "(b1 # b2 # b3 # p) ! 2 = b3" "(c # b1 # b2 # b3 # p) ! 2 = b2"
    by (simp_all add: numeral_2_eq_2 numeral_3_eq_3)
  have w: "cp4 c b1 b2 b3 < 0x10000 \<longleftrightarrow> unat c = 240 \<and> unat b1 < 144"
    "cp4 c b1 b2 b3 > 0x10FFFF \<longleftrightarrow> 245 \<le> unat c \<or> (unat c = 244 \<and> 143 < unat b1)"
    if "cont_byte b1" "cont_byte b2" "cont_byte b3"
    using decode_4_bounds[of c b1 b2 b3] assms that
    by (auto simp: word_less_nat_alt word_le_nat_alt cont_byte_def)
  show "utf8_decode (c # b1 # b2 # b3 # p) =
      (if cont_byte b1 \<and> cont_byte b2 \<and> cont_byte b3 \<and> unat c < 245 \<and> \<not> (unat c = 240 \<and> unat b1 < 144)
          \<and> \<not> (unat c = 244 \<and> 143 < unat b1)
       then Some (cp4 c b1 b2 b3, 4) else None)"
    using w by (cases "cont_byte b1"; cases "cont_byte b2"; cases "cont_byte b3")
      (auto simp: utf8_decode_def sl Let_def cont_byte_tests nth)
  have idx: "[2..<3 + 1] = [2, 3::nat]" by (simp add: upt_rec)
  show "utf8_dfa (c # b1 # b2 # b3 # p) \<longleftrightarrow>
      cont_byte b1 \<and> cont_byte b2 \<and> cont_byte b3 \<and> unat c < 245 \<and> \<not> (unat c = 240 \<and> unat b1 < 144)
          \<and> \<not> (unat c = 244 \<and> 143 < unat b1) \<and> utf8_dfa p"
    using assms by (cases "unat c = 240"; cases "unat c = 244"; cases "unat c < 245")
      (auto simp add: lead_classes word_less_nat_alt cont_byte_def idx nth)
qed

text \<open>Sequences cut short, and lead bytes that are none.\<close>

lemma lead_length: "utf8_lead c = Some (n, lo, hi) \<Longrightarrow> utf8_sequence_length c = n + 1"
  by (auto simp: lead_classes utf8_sequence_length_arith split: if_splits)

lemma decode_dfa_other:
  assumes "128 \<le> unat c" and "utf8_sequence_length c = 0 \<or> length (c # p) < utf8_sequence_length c"
  shows "utf8_decode (c # p) = None" "\<not> utf8_dfa (c # p)"
proof -
  show "utf8_decode (c # p) = None" using assms(2) by (auto simp: utf8_decode_def)
  have "\<not> c < 0x80" using assms(1) by (simp add: word_less_nat_alt)
  then show "\<not> utf8_dfa (c # p)"
    using assms(2) by (auto split: option.splits dest!: lead_length)
qed

lemma utf8_dfa_step:
  "utf8_dfa (c # p) =
    (case utf8_decode (c # p) of None \<Rightarrow> False | Some (_, n) \<Rightarrow> utf8_dfa (drop n (c # p)))"
proof -
  have long: "192 \<le> unat c \<and> unat c < 224 \<and> 2 \<le> length (c # p) \<or>
      224 \<le> unat c \<and> unat c < 240 \<and> 3 \<le> length (c # p) \<or>
      240 \<le> unat c \<and> unat c < 248 \<and> 4 \<le> length (c # p)"
    if "128 \<le> unat c" "utf8_sequence_length c \<noteq> 0" "utf8_sequence_length c \<le> length (c # p)"
    using that by (simp add: utf8_sequence_length_arith split: if_splits)
  consider "unat c < 128"
    | "128 \<le> unat c" "utf8_sequence_length c = 0 \<or> length (c # p) < utf8_sequence_length c"
    | "192 \<le> unat c" "unat c < 224" "2 \<le> length (c # p)" | "224 \<le> unat c" "unat c < 240" "3 \<le> length (c # p)"
    | "240 \<le> unat c" "unat c < 248" "4 \<le> length (c # p)"
    using long by (cases "unat c < 128";
        cases "utf8_sequence_length c = 0 \<or> length (c # p) < utf8_sequence_length c") (auto simp: not_less)
  then show ?thesis
  proof cases
    case 1
    then show ?thesis by (simp add: utf8_decode_def utf8_sequence_length_arith word_less_nat_alt)
  next
    case 2
    then show ?thesis using decode_dfa_other by simp
  next
    case 3
    then obtain b1 q where "p = b1 # q" by (cases p) auto
    then show ?thesis using decode_dfa_2[OF 3(1,2)] by (auto simp del: utf8_dfa.simps)
  next
    case 4
    then obtain b1 b2 q where "p = b1 # b2 # q" by (cases p; cases "tl p") auto
    then show ?thesis using decode_dfa_3[OF 4(1,2)] by (auto simp del: utf8_dfa.simps)
  next
    case 5
    then obtain b1 b2 b3 q where "p = b1 # b2 # b3 # q" by (cases p; cases "tl p"; cases "tl (tl p)") auto
    then show ?thesis using decode_dfa_4[OF 5(1,2)] by (auto simp del: utf8_dfa.simps)
  qed
qed

lemma utf8_dfa_iff_valid: "utf8_dfa s \<longleftrightarrow> invalid_bytes s = 0"
proof (induction s rule: invalid_bytes.induct)
  case (1 s)
  show ?case
  proof (cases s)
    case Nil
    then show ?thesis by (simp add: invalid_bytes.simps[of "[]"])
  next
    case (Cons c p)
    with 1(2) show ?thesis
      by (auto simp: utf8_dfa_step invalid_bytes.simps[of "c # p"] simp del: utf8_dfa.simps split: option.splits)
  qed
qed

lemma utf8_valid_scalar_iff:
  "leptris_utf8_valid_scalar s \<longleftrightarrow>
    (\<exists>cs. list_all scalar_value cs \<and> s = concat (map utf8_encode cs))"
  unfolding leptris_utf8_valid_scalar_def utf8_dfa_skip_ascii utf8_dfa_skip_ascii8
  by (simp only: utf8_dfa_iff_valid invalid_bytes_0_iff list_all_iff)

section \<open>The gate\<close>

definition lower_byte :: "u8 \<Rightarrow> u8" where
  "lower_byte x = (if 0x41 \<le> x \<and> x \<le> 0x5A then x + 32 else x)"

fun dp_ascii_case_eq :: "bytes \<Rightarrow> bytes \<Rightarrow> bool" where
  "dp_ascii_case_eq (a # as) (b # bs) =
    (if lower_byte a \<noteq> lower_byte b then False else dp_ascii_case_eq as bs)"
| "dp_ascii_case_eq _ _ = True"

definition dp_space :: "u8 \<Rightarrow> bool" where
  "dp_space c \<longleftrightarrow> c = 0x20 \<or> c = 0x09 \<or> c = 0x0D \<or> c = 0x0A"

text \<open>\<open>slice s i n\<close> is what \<open>memcmp(s + i, ..., n)\<close> compares.\<close>

definition slice :: "'a list \<Rightarrow> nat \<Rightarrow> nat \<Rightarrow> 'a list" where
  "slice s i n = take n (drop i s)"

text \<open>The end of the declaration: the first \<open>?>\<close> at or after \<open>e\<close>, or the last position.\<close>

function dp_decl_end :: "bytes \<Rightarrow> nat \<Rightarrow> nat" where
  "dp_decl_end s e =
    (if e + 1 < length s \<and> \<not> (s ! e = 0x3F \<and> s ! (e + 1) = 0x3E) then dp_decl_end s (e + 1) else e)"
  by pat_completeness auto
termination
  by (relation "measure (\<lambda>(s, e). length s - e)") auto

declare dp_decl_end.simps [simp del]

text \<open>The value of the encoding pseudo-attribute that starts at \<open>j\<close>, when there is one.\<close>

definition dp_encoding_value :: "bytes \<Rightarrow> nat \<Rightarrow> nat \<Rightarrow> nat \<Rightarrow> bytes option" where
  "dp_encoding_value s first j e =
    (if e - j \<ge> 8 \<and> slice s j 8 = ascii ''encoding'' \<and> (j = first \<or> dp_space (s ! (j - 1))) then
       (let k = scan_while dp_space s (j + 8) e in
        if k < e \<and> s ! k = 0x3D then
          (let k = scan_while dp_space s (k + 1) e in
           if k < e \<and> (s ! k = 0x22 \<or> s ! k = 0x27) then
             (let q = s ! k; v = k + 1; k = scan_while (\<lambda>c. c \<noteq> q) s v e in
              Some (slice s v (k - v)))
           else None)
        else None)
     else None)"

definition dp_utf8_name :: "bytes \<Rightarrow> bool" where
  "dp_utf8_name name \<longleftrightarrow>
    (length name = 5 \<and> dp_ascii_case_eq name (ascii ''UTF-8'')) \<or>
    (length name = 4 \<and> dp_ascii_case_eq name (ascii ''UTF8'')) \<or>
    (length name = 8 \<and> dp_ascii_case_eq name (ascii ''US-ASCII''))"

function dp_declares_loop :: "bytes \<Rightarrow> nat \<Rightarrow> nat \<Rightarrow> nat \<Rightarrow> bool" where
  "dp_declares_loop s first j e =
    (if j < e then
       (case dp_encoding_value s first j e of
          Some name \<Rightarrow> \<not> dp_utf8_name name
        | None \<Rightarrow> dp_declares_loop s first (j + 1) e)
     else False)"
  by pat_completeness auto
termination
  by (relation "measure (\<lambda>(s, first, j, e). e - j)") auto

declare dp_declares_loop.simps [simp del]

definition dp_declares_non_utf8 :: "bytes \<Rightarrow> bool" where
  "dp_declares_non_utf8 s =
    (let i = (if length s \<ge> 3 \<and> s ! 0 = 0xEF \<and> s ! 1 = 0xBB \<and> s ! 2 = 0xBF then 3 else 0) in
     if length s - i < 5 \<or> slice s i 5 \<noteq> ascii ''<?xml'' then False
     else if length s - i > 5 \<and> \<not> dp_space (s ! (i + 5)) \<and> s ! (i + 5) \<noteq> 0x3F then False
     else let e = dp_decl_end s (i + 5) in
       if e + 1 \<ge> length s then False
       else dp_declares_loop s (i + 5) (i + 5) e)"

definition dp_utf8_valid :: "bytes \<Rightarrow> bool" where
  "dp_utf8_valid s = leptris_utf8_valid_scalar s"

definition dp_input_encoding_ok :: "bytes \<Rightarrow> bool" where
  "dp_input_encoding_ok s \<longleftrightarrow> dp_declares_non_utf8 s \<or> dp_utf8_valid s"

text \<open>A declaration in the usual form, up to the opening quote of the encoding name.\<close>

definition decl_header :: bytes where
  "decl_header = ascii ''<?xml version=\"1.0\" encoding=\"''"

lemma length_decl_header: "length decl_header = 30"
  by (simp add: decl_header_def ascii_def)

lemma decl_header_nth: "i < 30 \<Longrightarrow> (decl_header @ t) ! i = decl_header ! i"
  by (simp add: nth_append length_decl_header)

lemma slice_header: "i + n \<le> 30 \<Longrightarrow> slice (decl_header @ t) i n = slice decl_header i n"
  by (simp add: slice_def length_decl_header)

lemma decl_header_values:
  "list_all (\<lambda>j. slice decl_header j 8 \<noteq> ascii ''encoding'') [5..<20]"
  "slice decl_header 20 8 = ascii ''encoding''" "decl_header ! 19 = 0x20"
  "decl_header ! 28 = 0x3D" "decl_header ! 29 = 0x22"
  "slice decl_header 0 5 = ascii ''<?xml''" "decl_header ! 5 = 0x20" "decl_header ! 0 = 0x3C"
  "list_all (\<lambda>j. decl_header ! j \<noteq> 0x3F) [5..<30]"
  by code_simp+

lemma dp_decl_end_eqI:
  assumes "k \<le> m" "\<And>i. k \<le> i \<Longrightarrow> i < m \<Longrightarrow> i + 1 < length s \<and> s ! i \<noteq> 0x3F"
    and "s ! m = 0x3F" "s ! (m + 1) = 0x3E"
  shows "dp_decl_end s k = m"
  using assms(1,2)
proof (induction "m - k" arbitrary: k)
  case 0
  then have "k = m" by simp
  with assms(3,4) show ?case by (simp add: dp_decl_end.simps[of s m])
next
  case (Suc n)
  then have "dp_decl_end s (k + 1) = m" by (intro Suc.hyps(1)) auto
  moreover have "k + 1 < length s \<and> s ! k \<noteq> 0x3F" using Suc.prems(2)[of k] Suc.hyps(2) by auto
  ultimately show ?case by (simp add: dp_decl_end.simps[of s k])
qed

lemma dp_declares_loop_skip:
  assumes "j \<le> m" "m \<le> e" "\<And>i. j \<le> i \<Longrightarrow> i < m \<Longrightarrow> slice s i 8 \<noteq> ascii ''encoding''"
  shows "dp_declares_loop s first j e = dp_declares_loop s first m e"
  using assms
proof (induction "m - j" arbitrary: j)
  case 0
  then show ?case by simp
next
  case (Suc n)
  then have "dp_declares_loop s first (j + 1) e = dp_declares_loop s first m e"
    by (intro Suc.hyps(1)) auto
  moreover have "dp_encoding_value s first j e = None"
    using Suc.prems(3)[of j] Suc.hyps(2) by (simp add: dp_encoding_value_def)
  moreover have "j < e" using Suc.prems(2) Suc.hyps(2) by linarith
  ultimately show ?case by (simp only: dp_declares_loop.simps[of s first j e]) simp
qed

lemma declares_header:
  assumes "0x22 \<notin> set name" "0x3F \<notin> set name"
  shows "dp_declares_non_utf8 (decl_header @ name @ [0x22, 0x3F, 0x3E] @ rest) \<longleftrightarrow> \<not> dp_utf8_name name"
proof -
  define s where "s = decl_header @ name @ [0x22, 0x3F, 0x3E] @ rest"
  let ?m = "length name"
  let ?e = "31 + ?m"
  have len: "length s = 33 + ?m + length rest" by (simp add: s_def length_decl_header)
  have tail: "s ! (30 + i) = (name @ [0x22, 0x3F, 0x3E] @ rest) ! i" for i
    by (simp only: s_def nth_append length_decl_header) simp
  have name: "s ! (30 + i) = name ! i" if "i < ?m" for i
    using that tail[of i] by (simp only: nth_append[of name]) simp
  have q: "s ! (30 + ?m) = 0x22" "s ! ?e = 0x3F" "s ! (?e + 1) = 0x3E"
    using tail[of ?m] tail[of "?m + 1"] tail[of "?m + 2"] by (simp_all add: nth_append add_ac)
  have hd: "s ! i = decl_header ! i" if "i < 30" for i unfolding s_def using that by (rule decl_header_nth)
  have noq: "s ! i \<noteq> 0x3F" if "5 \<le> i" "i < ?e" for i
  proof (cases "i < 30")
    case True
    with that have "i \<in> set [5..<30]" by (simp only: set_upt atLeastLessThan_iff)
    with decl_header_values(9) have "decl_header ! i \<noteq> 0x3F" by (auto simp only: list_all_iff)
    then show ?thesis by (simp only: hd[OF True]) simp
  next
    case False
    then obtain k where k: "i = 30 + k" using le_Suc_ex not_less by blast
    show ?thesis
    proof (cases "k < ?m")
      case True
      then have "name ! k \<in> set name" by (rule nth_mem)
      with assms(2) show ?thesis unfolding k name[OF True] by metis
    next
      case False
      with that k have "k = ?m" by simp
      then show ?thesis unfolding k using q(1) by simp
    qed
  qed
  have en: "dp_decl_end s 5 = ?e"
    by (rule dp_decl_end_eqI) (use q noq len in auto)
  have skip: "dp_declares_loop s 5 5 ?e = dp_declares_loop s 5 20 ?e"
  proof (rule dp_declares_loop_skip)
    fix i :: nat assume "5 \<le> i" "i < 20"
    then have "slice s i 8 = slice decl_header i 8" "i \<in> set [5..<20]"
      by (simp_all only: s_def slice_header set_upt atLeastLessThan_iff)
    with decl_header_values(1) show "slice s i 8 \<noteq> ascii ''encoding''" by (auto simp only: list_all_iff)
  qed simp_all
  have k1: "scan_while dp_space s 28 ?e = 28"
    by (rule scan_while_eqI) (simp_all add: hd decl_header_values dp_space_def)
  have k2: "scan_while dp_space s 29 ?e = 29"
    by (rule scan_while_eqI) (simp_all add: hd decl_header_values dp_space_def)
  have k3: "scan_while (\<lambda>c. c \<noteq> 0x22) s 30 ?e = 30 + ?m"
  proof (rule scan_while_eqI)
    fix i assume "30 \<le> i" "i < 30 + ?m"
    then obtain k where k: "i = 30 + k" "k < ?m" using le_Suc_ex by fastforce
    then have "name ! k \<in> set name" by simp
    with assms(1) show "s ! i \<noteq> 0x22" unfolding k(1) name[OF k(2)] by metis
  qed (use q in auto)
  have sl: "slice s 30 ?m = name" "slice s 20 8 = ascii ''encoding''"
    using slice_header[of 20 8] decl_header_values(2)
    by (simp_all add: s_def slice_def[of _ 30] length_decl_header)
  have sl0: "slice s 0 5 = ascii ''<?xml''"
    using slice_header[of 0 5] decl_header_values(6) by (simp add: s_def)
  have val: "dp_encoding_value s 5 20 ?e = Some name"
    using hd[of 19] hd[of 28] hd[of 29]
    by (simp add: dp_encoding_value_def sl k1 k2 k3 decl_header_values dp_space_def Let_def)
  have "dp_declares_loop s 5 20 ?e = (\<not> dp_utf8_name name)"
    using val by (simp add: dp_declares_loop.simps[of s 5 20])
  moreover have "dp_declares_non_utf8 s = dp_declares_loop s 5 5 ?e"
    using hd[of 0] hd[of 5] sl0 decl_header_values(7,8) len
    by (simp add: dp_declares_non_utf8_def en Let_def dp_space_def)
  ultimately show ?thesis using skip by (simp only: s_def)
qed


section \<open>Properties\<close>

text \<open>
  C14. The parser's fast UTF-8 gate (eight bytes at a time while they are ASCII, then the lead-byte
  table) accepts a buffer if and only if it is the concatenation of the encodings of some Unicode
  scalar values.
\<close>
theorem leptris_utf8_valid_exact:
  "leptris_utf8_valid_scalar s \<longleftrightarrow>
    (\<exists>cs. list_all scalar_value cs \<and> s = concat (map utf8_encode cs))"
  by (rule utf8_valid_scalar_iff)



end
