(* ===== verification/Utf16.thy ===== *)
theory Utf16
  imports Utf8Gate
begin

text \<open>
  The byte-oriented UTF-16 reader of \<open>encoding/utf16.c\<close>: byte order mark, heuristic detection,
  decoding into a bounded UTF-8 buffer, and the size the callers allocate for it. A \<open>data\<close> pointer
  with its length is the byte list; the NULL checks of the entry points are the callers' \<open>None\<close>.
\<close>

datatype utf16_bom_t = UTF16_BOM_NONE | UTF16_BOM_LE | UTF16_BOM_BE

datatype utf16_encoding_t = UTF16_UNKNOWN | UTF16_LE | UTF16_BE

definition utf16_detect_bom :: "bytes \<Rightarrow> utf16_bom_t" where
  "utf16_detect_bom data =
    (if length data < 2 then UTF16_BOM_NONE
     else if data ! 0 = 0xFF \<and> data ! 1 = 0xFE
       \<and> (length data < 4 \<or> data ! 2 \<noteq> 0 \<or> data ! 3 \<noteq> 0) then UTF16_BOM_LE
     else if data ! 0 = 0xFE \<and> data ! 1 = 0xFF
       \<and> (length data < 4 \<or> data ! 2 \<noteq> 0 \<or> data ! 3 \<noteq> 0) then UTF16_BOM_BE
     else UTF16_BOM_NONE)"

text \<open>The two score loops: one step of two from \<open>i\<close>, up to \<open>sample_len - 1\<close>.\<close>

definition ascii_glyph :: "u8 \<Rightarrow> bool" where
  "ascii_glyph b \<longleftrightarrow> 0x20 \<le> b \<and> b < 0x7F"

function le_score_loop :: "bytes \<Rightarrow> nat \<Rightarrow> nat \<Rightarrow> nat" where
  "le_score_loop data i n =
    (if i < n then (if ascii_glyph (data ! i) \<and> data ! (i + 1) = 0 then 1 else 0) + le_score_loop data (i + 2) n
     else 0)"
  by pat_completeness auto
termination
  by (relation "measure (\<lambda>(data, i, n). n - i)") auto

declare le_score_loop.simps [simp del]

function be_score_loop :: "bytes \<Rightarrow> nat \<Rightarrow> nat \<Rightarrow> nat" where
  "be_score_loop data i n =
    (if i < n then (if ascii_glyph (data ! i) \<and> data ! (i - 1) = 0 then 1 else 0) + be_score_loop data (i + 2) n
     else 0)"
  by pat_completeness auto
termination
  by (relation "measure (\<lambda>(data, i, n). n - i)") auto

declare be_score_loop.simps [simp del]

definition utf16_detect_encoding :: "bytes \<Rightarrow> utf16_encoding_t" where
  "utf16_detect_encoding data =
    (if length data < 4 then UTF16_UNKNOWN
     else let sample_len = (if length data > 100 then 100 else length data);
              le_score = le_score_loop data 0 (sample_len - 1);
              be_score = be_score_loop data 1 (sample_len - 1) in
       if le_score > be_score \<and> le_score > 5 then UTF16_LE
       else if be_score > le_score \<and> be_score > 5 then UTF16_BE
       else UTF16_UNKNOWN)"

section \<open>Conversion\<close>

definition utf16_to_utf8_codepoint :: "u32 \<Rightarrow> bytes" where
  "utf16_to_utf8_codepoint codepoint =
    (if codepoint < 0x80 then [ucast codepoint]
     else if codepoint < 0x800 then
       [ucast (0xC0 OR drop_bit 6 codepoint), ucast (0x80 OR (codepoint AND 0x3F))]
     else if codepoint < 0x10000 then
       [ucast (0xE0 OR drop_bit 12 codepoint), ucast (0x80 OR (drop_bit 6 codepoint AND 0x3F)),
        ucast (0x80 OR (codepoint AND 0x3F))]
     else if codepoint < 0x110000 then
       [ucast (0xF0 OR drop_bit 18 codepoint), ucast (0x80 OR (drop_bit 12 codepoint AND 0x3F)),
        ucast (0x80 OR (drop_bit 6 codepoint AND 0x3F)), ucast (0x80 OR (codepoint AND 0x3F))]
     else [])"

definition utf16_read_codeunit :: "bytes \<Rightarrow> utf16_encoding_t \<Rightarrow> u16" where
  "utf16_read_codeunit data encoding =
    (if encoding = UTF16_LE then ucast (data ! 0) OR push_bit 8 (ucast (data ! 1))
     else push_bit 8 (ucast (data ! 0)) OR ucast (data ! 1))"

text \<open>One code point from the head of the data: the code point and the rest, or the loop's break.\<close>

definition utf16_take :: "bytes \<Rightarrow> utf16_encoding_t \<Rightarrow> (u32 \<times> bytes) option" where
  "utf16_take data encoding =
    (let codeunit = utf16_read_codeunit data encoding; rest = drop 2 data in
     if 0xD800 \<le> codeunit \<and> codeunit \<le> 0xDBFF then
       (if length rest < 2 then None
        else let low_surrogate = utf16_read_codeunit rest encoding in
          if low_surrogate < 0xDC00 \<or> low_surrogate > 0xDFFF then None
          else Some (0x10000 + push_bit 10 (ucast codeunit - 0xD800) + (ucast low_surrogate - 0xDC00),
                     drop 2 rest))
     else if 0xDC00 \<le> codeunit \<and> codeunit \<le> 0xDFFF then None
     else Some (ucast codeunit, rest))"

lemma utf16_take_shorter:
  "utf16_take data encoding = Some (cp, rest) \<Longrightarrow> 2 \<le> length data \<Longrightarrow> length rest < length data"
  by (auto simp: utf16_take_def Let_def split: if_splits)

text \<open>The conversion loop; \<open>utf8\<close> is what has been written into the buffer of \<open>utf8_size\<close> bytes.\<close>

function utf16_loop :: "bytes \<Rightarrow> utf16_encoding_t \<Rightarrow> nat \<Rightarrow> bytes \<Rightarrow> bytes" where
  "utf16_loop data encoding utf8_size utf8 =
    (if length data < 2 then utf8
     else (case utf16_take data encoding of
         None \<Rightarrow> utf8
       | Some (codepoint, rest) \<Rightarrow>
           let utf8_buf = utf16_to_utf8_codepoint codepoint in
           if length utf8_buf = 0 then utf8
           else if length utf8 + length utf8_buf > utf8_size then utf8
           else utf16_loop rest encoding utf8_size (utf8 @ utf8_buf)))"
  by pat_completeness auto
termination
  by (relation "measure (\<lambda>(data, _). length data)") (auto dest: utf16_take_shorter)

declare utf16_loop.simps [simp del]

definition utf16_to_utf8 :: "bytes \<Rightarrow> nat \<Rightarrow> utf16_encoding_t \<Rightarrow> bytes" where
  "utf16_to_utf8 utf16 utf8_size encoding =
    (if utf8_size = 0 then []
     else let has_bom = (utf16_detect_bom utf16 \<noteq> UTF16_BOM_NONE);
              data = (if has_bom \<and> length utf16 \<ge> 2 then drop 2 utf16 else utf16) in
       utf16_loop data encoding utf8_size [])"

definition utf16_to_utf8_size :: "bytes \<Rightarrow> nat" where
  "utf16_to_utf8_size utf16 =
    (if length utf16 = 0 then 0
     else let num_codeunits = length utf16 div 2;
              has_bom = (utf16_detect_bom utf16 \<noteq> UTF16_BOM_NONE);
              num_codeunits = (if has_bom \<and> num_codeunits > 0 then num_codeunits - 1 else num_codeunits) in
       num_codeunits * 3 + 1)"

section \<open>What the conversion computes\<close>

text \<open>The loop without the bound of the output buffer.\<close>

function utf16_full :: "bytes \<Rightarrow> utf16_encoding_t \<Rightarrow> bytes" where
  "utf16_full data encoding =
    (if length data < 2 then []
     else (case utf16_take data encoding of
         None \<Rightarrow> []
       | Some (codepoint, rest) \<Rightarrow>
           if utf16_to_utf8_codepoint codepoint = [] then []
           else utf16_to_utf8_codepoint codepoint @ utf16_full rest encoding))"
  by pat_completeness auto
termination
  by (relation "measure (\<lambda>(data, _). length data)") (auto dest: utf16_take_shorter)

declare utf16_full.simps [simp del]

lemma utf16_loop_bounded: "length utf8 \<le> n \<Longrightarrow> length (utf16_loop data encoding n utf8) \<le> n"
proof (induction data encoding n utf8 rule: utf16_loop.induct)
  case (1 data encoding n utf8)
  then show ?case
    by (subst utf16_loop.simps) (auto simp: Let_def split: option.splits)
qed

lemma utf16_loop_full:
  "length utf8 + length (utf16_full data encoding) \<le> n \<Longrightarrow>
    utf16_loop data encoding n utf8 = utf8 @ utf16_full data encoding"
proof (induction data encoding n utf8 rule: utf16_loop.induct)
  case (1 data encoding n utf8)
  show ?case
  proof (cases "2 \<le> length data")
    case False
    then show ?thesis by (simp add: utf16_loop.simps[of data] utf16_full.simps[of data])
  next
    case long: True
    show ?thesis
    proof (cases "utf16_take data encoding")
      case None
      then show ?thesis by (simp add: utf16_loop.simps[of data] utf16_full.simps[of data])
    next
      case (Some cr)
      obtain c r where cr: "cr = (c, r)" by (cases cr)
      show ?thesis
      proof (cases "utf16_to_utf8_codepoint c = []")
        case True
        then show ?thesis using Some cr by (simp add: utf16_loop.simps[of data] utf16_full.simps[of data])
      next
        case False
        have f: "utf16_full data encoding = utf16_to_utf8_codepoint c @ utf16_full r encoding"
          using long Some cr False by (simp add: utf16_full.simps[of data])
        have "utf16_loop r encoding n (utf8 @ utf16_to_utf8_codepoint c) =
            (utf8 @ utf16_to_utf8_codepoint c) @ utf16_full r encoding"
          using 1(2) long False
          by (intro "1.IH"[OF _ Some cr[symmetric] refl]) (auto simp: f)
        then show ?thesis
          using long Some cr False 1(2) f by (simp add: utf16_loop.simps[of data] Let_def)
      qed
    qed
  qed
qed

lemma half_drop: "2 \<le> n \<Longrightarrow> n div 2 = Suc ((n - 2) div 2)" for n :: nat
  by (auto simp: le_iff_add)

lemma utf16_take_size:
  assumes "utf16_take data encoding = Some (c, r)" "2 \<le> length data"
  shows "length (utf16_to_utf8_codepoint c) + 3 * (length r div 2) \<le> 3 * (length data div 2)"
proof -
  let ?u = "utf16_read_codeunit data encoding"
  have small: "length (utf16_to_utf8_codepoint (ucast u)) \<le> 3" for u :: u16
  proof -
    have "unat u < 2 ^ LENGTH(16)" by (rule unsigned_less)
    then have "(ucast u :: u32) < 0x10000" by (simp add: word_less_nat_alt unat_ucast_unit)
    then show ?thesis by (simp add: utf16_to_utf8_codepoint_def)
  qed
  have four: "length (utf16_to_utf8_codepoint x) \<le> 4" for x
    by (simp add: utf16_to_utf8_codepoint_def)
  from assms consider "c = ucast ?u" "r = drop 2 data" | "r = drop 4 data" "4 \<le> length data"
    by (auto simp: utf16_take_def Let_def split: if_splits)
  then show ?thesis
  proof cases
    case 1
    have "3 * ((length data - 2) div 2) + 3 = 3 * (length data div 2)"
      using half_drop[OF assms(2)] by simp
    with 1 small[of ?u] show ?thesis by simp
  next
    case 2
    have "3 * ((length data - 4) div 2) + 6 = 3 * (length data div 2)"
      using half_drop[OF assms(2)] half_drop[of "length data - 2"] 2(2) by simp
    with 2 four[of c] show ?thesis by simp
  qed
qed

lemma length_utf16_full: "length (utf16_full data encoding) \<le> 3 * (length data div 2)"
proof (induction data encoding rule: utf16_full.induct)
  case (1 data encoding)
  show ?case
  proof (cases "2 \<le> length data")
    case long: True
    show ?thesis
    proof (cases "utf16_take data encoding")
      case (Some cr)
      obtain c r where cr: "cr = (c, r)" by (cases cr)
      have "length (utf16_full r encoding) \<le> 3 * (length r div 2)"
        if "utf16_to_utf8_codepoint c \<noteq> []"
        using 1[OF _ Some cr[symmetric]] long that by simp
      with utf16_take_size[of data encoding c r] long Some cr show ?thesis
        by (fastforce simp: utf16_full.simps[of data])
    qed (simp add: utf16_full.simps[of data])
  qed (simp add: utf16_full.simps[of data])
qed

definition without_bom :: "bytes \<Rightarrow> bytes" where
  "without_bom data = (if utf16_detect_bom data \<noteq> UTF16_BOM_NONE then drop 2 data else data)"

lemma bom_length: "utf16_detect_bom data \<noteq> UTF16_BOM_NONE \<Longrightarrow> 2 \<le> length data"
  by (auto simp: utf16_detect_bom_def split: if_splits)

lemma utf16_to_utf8_eq:
  "utf16_to_utf8 data n encoding =
    (if n = 0 then [] else utf16_loop (without_bom data) encoding n [])"
  using bom_length[of data] by (auto simp: utf16_to_utf8_def without_bom_def Let_def)

lemma utf16_sized:
  assumes "data \<noteq> []"
  shows "length (utf16_full (without_bom data) encoding) < utf16_to_utf8_size data"
proof -
  have "length (utf16_full (without_bom data) encoding) \<le> 3 * (length (without_bom data) div 2)"
    by (rule length_utf16_full)
  also have "3 * (length (without_bom data) div 2) < utf16_to_utf8_size data"
    using assms bom_length[of data] half_drop[of "length data"]
    by (cases "utf16_detect_bom data \<noteq> UTF16_BOM_NONE")
      (auto simp: without_bom_def utf16_to_utf8_size_def Let_def)
  finally show ?thesis .
qed

interpretation utf16_le: sized_transcoder "\<lambda>d n. utf16_to_utf8 d n UTF16_LE" utf16_to_utf8_size
    "\<lambda>d. utf16_full (without_bom d) UTF16_LE"
  by unfold_locales (auto simp: utf16_to_utf8_eq utf16_loop_bounded utf16_loop_full intro: utf16_sized)

interpretation utf16_be: sized_transcoder "\<lambda>d n. utf16_to_utf8 d n UTF16_BE" utf16_to_utf8_size
    "\<lambda>d. utf16_full (without_bom d) UTF16_BE"
  by unfold_locales (auto simp: utf16_to_utf8_eq utf16_loop_bounded utf16_loop_full intro: utf16_sized)


section \<open>UTF-16 text\<close>

definition unit_bytes :: "utf16_encoding_t \<Rightarrow> u16 \<Rightarrow> bytes" where
  "unit_bytes encoding u =
    (if encoding = UTF16_LE then [ucast u, ucast (drop_bit 8 u)] else [ucast (drop_bit 8 u), ucast u])"

definition utf16_text :: "utf16_encoding_t \<Rightarrow> u32 list \<Rightarrow> bytes" where
  "utf16_text encoding cs = concat (map (unit_bytes encoding) (concat (map utf16_encode cs)))"

lemma read_unit_bytes: "utf16_read_codeunit (unit_bytes encoding u @ rest) encoding = u"
proof -
  have "ucast (ucast u :: u8) OR push_bit 8 (ucast (ucast (drop_bit 8 u) :: u8)) = u"
    "push_bit 8 (ucast (ucast (drop_bit 8 u) :: u8)) OR ucast (ucast u :: u8) = u"
    by (rule bit_word_eqI; auto simp: bit_simps)+
  then show ?thesis by (simp add: utf16_read_codeunit_def unit_bytes_def)
qed

lemma length_unit_bytes [simp]: "length (unit_bytes encoding u) = 2"
  by (simp add: unit_bytes_def)

lemma drop_unit_bytes [simp]: "drop 2 (unit_bytes encoding u @ rest) = rest"
  by simp

lemma utf16_take_encode:
  assumes "scalar_value c"
  shows "utf16_take (concat (map (unit_bytes encoding) (utf16_encode c)) @ rest) encoding = Some (c, rest)"
proof (cases "c \<le> 0xFFFF")
  case True
  have "utf16_next [ucast c] = (c, 1)" using utf16_next_encode[OF assms, of "[]"] True
    by (simp add: utf16_encode_def)
  moreover have "\<not> (0xD800 \<le> (ucast c :: u16) \<and> (ucast c :: u16) \<le> 0xDBFF)"
    "\<not> (0xDC00 \<le> (ucast c :: u16) \<and> (ucast c :: u16) \<le> 0xDFFF)"
  proof -
    have "unat (ucast c :: u16) = unat c mod 65536" by (simp add: unsigned_ucast_eq take_bit_eq_mod)
    with True have "unat (ucast c :: u16) = unat c" by (simp add: word_le_nat_alt)
    with assms show "\<not> (0xD800 \<le> (ucast c :: u16) \<and> (ucast c :: u16) \<le> 0xDBFF)"
      "\<not> (0xDC00 \<le> (ucast c :: u16) \<and> (ucast c :: u16) \<le> 0xDFFF)"
      by (auto simp: scalar_value_def word_le_nat_alt)
  qed
  ultimately show ?thesis
    using True by (auto simp: utf16_encode_def utf16_take_def utf16_next_def Let_def read_unit_bytes)
next
  case False
  obtain u v where uv: "utf16_encode c = [u, v]" using False by (simp add: utf16_encode_def)
  have "utf16_next [u, v] = (c, 2)" using utf16_next_encode[OF assms, of "[]"] uv by simp
  then have r: "0xD800 \<le> u \<and> u \<le> 0xDBFF" "\<not> (v < 0xDC00 \<or> v > 0xDFFF)"
    and c: "c = 0x10000 + push_bit 10 (ucast u - 0xD800) + (ucast v - 0xDC00)"
    by (auto simp: utf16_next_def Let_def split: if_splits)
  have "utf16_take (unit_bytes encoding u @ unit_bytes encoding v @ rest) encoding =
      Some (0x10000 + push_bit 10 (ucast u - 0xD800) + (ucast v - 0xDC00), rest)"
    using r by (simp add: utf16_take_def Let_def read_unit_bytes)
  then show ?thesis unfolding c[symmetric] by (simp add: uv)
qed

lemma mask_small: "unat x < 2 ^ k \<Longrightarrow> x AND mask k = x" for x :: u32
  by (simp add: word_eq_unat unat_and_mask)

lemma codepoint_eq_encode:
  assumes "scalar_value c"
  shows "utf16_to_utf8_codepoint c = utf8_encode c"
proof -
  have le: "unat c \<le> 0x10FFFF" using assms by (simp add: scalar_value_def word_le_nat_alt)
  have lead: "drop_bit 6 c AND 0x1F = drop_bit 6 c" if "unat c < 0x800"
    using mask_small[of "drop_bit 6 c" 5] that by (simp add: word_arith mask_eq_exp_minus_1)
  have lead3: "drop_bit 12 c AND 0x0F = drop_bit 12 c" if "unat c < 0x10000"
    using mask_small[of "drop_bit 12 c" 4] that by (simp add: word_arith mask_eq_exp_minus_1)
  have lead4: "drop_bit 18 c AND 0x07 = drop_bit 18 c"
    using mask_small[of "drop_bit 18 c" 3] le by (simp add: word_arith mask_eq_exp_minus_1)
  have "\<not> (0xD800 \<le> unat c \<and> unat c \<le> 0xDFFF)" using assms by (simp add: scalar_value_def word_le_nat_alt)
  then show ?thesis
    using le lead lead3 lead4
    by (auto simp: utf16_to_utf8_codepoint_def utf8_encode_def word_le_nat_alt word_less_nat_alt)
qed

lemma utf16_full_text:
  assumes "list_all scalar_value cs"
  shows "utf16_full (utf16_text encoding cs) encoding = concat (map utf8_encode cs)"
  using assms
proof (induction cs)
  case Nil
  then show ?case by (simp add: utf16_text_def utf16_full.simps[of "[]"])
next
  case (Cons c cs)
  let ?d = "utf16_text encoding (c # cs)"
  have d: "?d = concat (map (unit_bytes encoding) (utf16_encode c)) @ utf16_text encoding cs"
    by (simp add: utf16_text_def)
  have take: "utf16_take ?d encoding = Some (c, utf16_text encoding cs)"
    unfolding d using Cons.prems by (intro utf16_take_encode) simp
  have "2 \<le> length ?d" by (simp add: d utf16_encode_def)
  then have "\<not> length ?d < 2" by simp
  then show ?case
    using take Cons codepoint_eq_encode[of c] utf8_encode_nonempty[of c]
    by (simp add: utf16_full.simps[of ?d])
qed

lemma unit_bytes_zero: "unit_bytes encoding u = [0, 0] \<longleftrightarrow> u = 0"
proof
  assume "unit_bytes encoding u = [0, 0]"
  moreover have "unit_bytes encoding 0 = [0, 0]" by (simp add: unit_bytes_def)
  ultimately show "u = 0"
    using read_unit_bytes[of encoding u "[]"] read_unit_bytes[of encoding 0 "[]"] by simp
qed (simp add: unit_bytes_def)

lemma utf16_encode_hd_nonzero:
  assumes "scalar_value c" "c \<noteq> 0"
  shows "hd (utf16_encode c) \<noteq> 0"
proof
  assume z: "hd (utf16_encode c) = 0"
  have "fst (utf16_next (utf16_encode c)) = 0"
    using z by (cases "utf16_encode c") (simp_all add: utf16_encode_nonempty utf16_next_def Let_def)
  with utf16_next_encode[OF assms(1), of "[]"] assms(2) show False by simp
qed

lemma bom_text:
  assumes "list_all scalar_value cs" "0 \<notin> set cs" "encoding \<noteq> UTF16_UNKNOWN"
  shows "utf16_detect_bom (unit_bytes encoding 0xFEFF @ utf16_text encoding cs) =
      (if encoding = UTF16_LE then UTF16_BOM_LE else UTF16_BOM_BE)"
proof -
  let ?t = "utf16_text encoding cs" and ?d = "unit_bytes encoding 0xFEFF @ utf16_text encoding cs"
  have b: "unit_bytes UTF16_LE 0xFEFF = [0xFF, 0xFE]" "unit_bytes UTF16_BE 0xFEFF = [0xFE, 0xFF]"
    by (simp_all add: unit_bytes_def)
  have nz: "length ?t < 2 \<or> ?t ! 0 \<noteq> 0 \<or> ?t ! 1 \<noteq> 0"
  proof (cases cs)
    case Nil
    then show ?thesis by (simp add: utf16_text_def)
  next
    case (Cons c r)
    obtain u us where u: "utf16_encode c = u # us"
      using utf16_encode_nonempty[of c] by (cases "utf16_encode c") auto
    have "u \<noteq> 0" using utf16_encode_hd_nonzero[of c] assms Cons u by auto
    then have "unit_bytes encoding u \<noteq> [0, 0]" by (simp add: unit_bytes_zero)
    then have "unit_bytes encoding u ! 0 \<noteq> 0 \<or> unit_bytes encoding u ! 1 \<noteq> 0"
      by (auto simp: unit_bytes_def split: if_splits)
    then show ?thesis by (simp add: Cons u utf16_text_def nth_append)
  qed
  from assms(3) show ?thesis
    using nz by (cases encoding) (auto simp: utf16_detect_bom_def b)
qed

lemma bom_document:
  assumes "list_all scalar_value cs" "0 \<notin> set cs" "encoding \<noteq> UTF16_UNKNOWN"
    and "data = unit_bytes encoding 0xFEFF @ utf16_text encoding cs"
  shows "utf16_detect_bom data = (if encoding = UTF16_LE then UTF16_BOM_LE else UTF16_BOM_BE)
    \<and> utf16_to_utf8 data (utf16_to_utf8_size data) encoding = concat (map utf8_encode cs)"
proof
  show bom: "utf16_detect_bom data = (if encoding = UTF16_LE then UTF16_BOM_LE else UTF16_BOM_BE)"
    unfolding assms(4) using assms(1-3) by (rule bom_text)
  have ne: "data \<noteq> []" using assms(4) by (simp add: unit_bytes_def)
  have wb: "without_bom data = utf16_text encoding cs"
    using bom unfolding without_bom_def assms(4) by simp
  from assms(3) have "utf16_to_utf8 data (utf16_to_utf8_size data) encoding = utf16_full (without_bom data) encoding"
    using utf16_le.sized_conv_full[OF ne] utf16_be.sized_conv_full[OF ne] by (cases encoding) auto
  then show "utf16_to_utf8 data (utf16_to_utf8_size data) encoding = concat (map utf8_encode cs)"
    by (simp only: wb utf16_full_text[OF assms(1)])
qed

section \<open>Properties\<close>

text \<open>
  Converting UTF-16 input of either byte order into the buffer its size function asks for
  leaves room for the terminating NUL the callers store, whatever the input.
\<close>
theorem utf16_buffer_suffices:
  assumes "data \<noteq> []"
  shows "length (utf16_to_utf8 data (utf16_to_utf8_size data) UTF16_LE) < utf16_to_utf8_size data
    \<and> length (utf16_to_utf8 data (utf16_to_utf8_size data) UTF16_BE) < utf16_to_utf8_size data"
  using utf16_le.sized_nul_in_bounds[OF assms] utf16_be.sized_nul_in_bounds[OF assms] by (rule conjI)

theorem utf16_buffer_suffices_witness:
  "length (utf16_to_utf8 [0x41, 0, 0x42] (utf16_to_utf8_size [0x41, 0, 0x42]) UTF16_LE)
    < utf16_to_utf8_size [0x41, 0, 0x42]"
  using utf16_buffer_suffices[of "[0x41, 0, 0x42]"] by simp

text \<open>
  C24. A UTF-16 document of either byte order that starts with a byte order mark and contains no
  U+0000 is recognised as such and converted to exactly the UTF-8 form of its text.
\<close>
theorem utf16_document_converts:
  assumes "list_all scalar_value cs" "0 \<notin> set cs" "encoding \<noteq> UTF16_UNKNOWN"
    and "data = unit_bytes encoding 0xFEFF @ utf16_text encoding cs"
  shows "utf16_detect_bom data = (if encoding = UTF16_LE then UTF16_BOM_LE else UTF16_BOM_BE)
    \<and> utf16_to_utf8 data (utf16_to_utf8_size data) encoding = concat (map utf8_encode cs)"
  using assms by (rule bom_document)

theorem utf16_document_converts_witness:
  "utf16_to_utf8 [0xFE, 0xFF, 0x00, 0x41, 0xD8, 0x3D, 0xDE, 0x00]
     (utf16_to_utf8_size [0xFE, 0xFF, 0x00, 0x41, 0xD8, 0x3D, 0xDE, 0x00]) UTF16_BE
   = [0x41, 0xF0, 0x9F, 0x98, 0x80]"
proof -
  have d: "[0xFE, 0xFF, 0x00, 0x41, 0xD8, 0x3D, 0xDE, 0x00] =
      unit_bytes UTF16_BE 0xFEFF @ utf16_text UTF16_BE [0x41, 0x1F600]"
    by (simp add: utf16_text_def utf16_encode_def unit_bytes_def)
  have e: "concat (map utf8_encode [0x41, 0x1F600]) = [0x41, 0xF0, 0x9F, 0x98, 0x80]"
    by (simp add: utf8_encode_def)
  show ?thesis
    using utf16_document_converts[OF _ _ _ d] unfolding e by (simp add: scalar_value_def)
qed

end
