(* ===== verification/Encoding.thy ===== *)
theory Encoding
  imports Utf16
begin

text \<open>
  Encoding detection and conversion on the way to the parser: \<open>encoding/encoding.c\<close>, the declaration
  scanner and the wrapper of \<open>encoding/wrapper.c\<close>, and the public entry points
  \<open>leptris_parse_string\<close> (\<open>leptris.c\<close>) and \<open>direct_parse\<close> (\<open>flat/direct_parse.c\<close>). Input is the
  byte list the caller passes, with a NUL after it; \<open>malloc_ok n\<close> says whether an allocation of \<open>n\<close>
  bytes succeeds. The iconv library is the parameter \<open>iconv_conv from to input capacity\<close>: the bytes
  one call of \<open>iconv\<close> writes, or \<open>None\<close> for a descriptor that cannot be opened or a conversion error.
  The tree builder is the parameter \<open>parse\<close>, and storing the encoding name in a document is
  \<open>set_encoding\<close>.
\<close>

datatype leptris_encoding_t = LEPTRIS_ENCODING_UTF8 | LEPTRIS_ENCODING_UTF16LE | LEPTRIS_ENCODING_UTF16BE
  | LEPTRIS_ENCODING_UTF32LE | LEPTRIS_ENCODING_UTF32BE | LEPTRIS_ENCODING_ISO8859_1
  | LEPTRIS_ENCODING_ISO8859_2 | LEPTRIS_ENCODING_ISO8859_15 | LEPTRIS_ENCODING_WINDOWS_1252
  | LEPTRIS_ENCODING_SHIFT_JIS | LEPTRIS_ENCODING_EUC_JP | LEPTRIS_ENCODING_GB18030
  | LEPTRIS_ENCODING_EBCDIC_037 | LEPTRIS_ENCODING_UNKNOWN

fun encoding_names :: "leptris_encoding_t \<Rightarrow> bytes option" where
  "encoding_names LEPTRIS_ENCODING_UTF8 = Some (ascii ''UTF-8'')"
| "encoding_names LEPTRIS_ENCODING_UTF16LE = Some (ascii ''UTF-16LE'')"
| "encoding_names LEPTRIS_ENCODING_UTF16BE = Some (ascii ''UTF-16BE'')"
| "encoding_names LEPTRIS_ENCODING_UTF32LE = Some (ascii ''UTF-32LE'')"
| "encoding_names LEPTRIS_ENCODING_UTF32BE = Some (ascii ''UTF-32BE'')"
| "encoding_names LEPTRIS_ENCODING_ISO8859_1 = Some (ascii ''ISO-8859-1'')"
| "encoding_names LEPTRIS_ENCODING_ISO8859_2 = Some (ascii ''ISO-8859-2'')"
| "encoding_names LEPTRIS_ENCODING_ISO8859_15 = Some (ascii ''ISO-8859-15'')"
| "encoding_names LEPTRIS_ENCODING_WINDOWS_1252 = Some (ascii ''WINDOWS-1252'')"
| "encoding_names LEPTRIS_ENCODING_SHIFT_JIS = Some (ascii ''SHIFT_JIS'')"
| "encoding_names LEPTRIS_ENCODING_EUC_JP = Some (ascii ''EUC-JP'')"
| "encoding_names LEPTRIS_ENCODING_GB18030 = Some (ascii ''GB18030'')"
| "encoding_names LEPTRIS_ENCODING_EBCDIC_037 = Some (ascii ''EBCDIC-CP-US'')"
| "encoding_names LEPTRIS_ENCODING_UNKNOWN = None"

definition leptris_encoding_name :: "leptris_encoding_t \<Rightarrow> bytes option" where
  "leptris_encoding_name encoding =
    (if encoding = LEPTRIS_ENCODING_UNKNOWN then None else encoding_names encoding)"

section \<open>Detection\<close>

definition detect_bom :: "bytes \<Rightarrow> leptris_encoding_t" where
  "detect_bom data =
    (if length data \<ge> 3 \<and> data ! 0 = 0xEF \<and> data ! 1 = 0xBB \<and> data ! 2 = 0xBF
     then LEPTRIS_ENCODING_UTF8
     else if length data \<ge> 4 \<and> data ! 0 = 0xFF \<and> data ! 1 = 0xFE \<and> data ! 2 = 0 \<and> data ! 3 = 0
     then LEPTRIS_ENCODING_UTF32LE
     else if length data \<ge> 4 \<and> data ! 0 = 0 \<and> data ! 1 = 0 \<and> data ! 2 = 0xFE \<and> data ! 3 = 0xFF
     then LEPTRIS_ENCODING_UTF32BE
     else if length data \<ge> 2 \<and> data ! 0 = 0xFF \<and> data ! 1 = 0xFE then LEPTRIS_ENCODING_UTF16LE
     else if length data \<ge> 2 \<and> data ! 0 = 0xFE \<and> data ! 1 = 0xFF then LEPTRIS_ENCODING_UTF16BE
     else LEPTRIS_ENCODING_UNKNOWN)"

definition ebcdic_upper :: "u8 \<Rightarrow> bool" where
  "ebcdic_upper c \<longleftrightarrow> (0xC1 \<le> c \<and> c \<le> 0xC9) \<or> (0xD1 \<le> c \<and> c \<le> 0xD9) \<or> (0xE2 \<le> c \<and> c \<le> 0xE9)"

definition ebcdic_indicators :: "bytes \<Rightarrow> nat" where
  "ebcdic_indicators data =
    (if data ! 0 = 0x4C \<or> data ! 1 = 0x4C \<or> data ! 2 = 0x4C then 1 else 0)
    + (if list_ex (\<lambda>b. b = 0x40) (take 10 data) then 1 else 0)
    + (if list_ex ebcdic_upper (take 20 data) then 1 else 0)"

text \<open>The loose UTF-8 check of the sample: continuation bytes past its end are not looked at.\<close>

definition bytes_expected :: "u8 \<Rightarrow> nat" where
  "bytes_expected b =
    (if b AND 0xE0 = 0xC0 then 1 else if b AND 0xF0 = 0xE0 then 2
     else if b AND 0xF8 = 0xF0 then 3 else 0)"

function sample_utf8 :: "bytes \<Rightarrow> bool" where
  "sample_utf8 [] = True"
| "sample_utf8 (b # p) =
    (if b AND 0x80 = 0 then sample_utf8 p
     else let n = bytes_expected b in
       if n = 0 then False
       else if list_ex (\<lambda>c. c AND 0xC0 \<noteq> 0x80) (take n p) then False
       else sample_utf8 (drop n p))"
  by pat_completeness auto
termination
  by (relation "measure length") auto

definition detect_heuristic :: "bytes \<Rightarrow> leptris_encoding_t" where
  "detect_heuristic data =
    (if length data \<ge> 10 \<and> ebcdic_indicators data \<ge> 2 then LEPTRIS_ENCODING_EBCDIC_037
     else let sample = take 1024 data;
              null_count = length (filter (\<lambda>b. b = 0) sample);
              high_bit_count = length (filter (\<lambda>b. b \<noteq> 0 \<and> b \<ge> 0x80) sample) in
       if null_count > length sample div 10 then
         (if length data \<ge> 2 \<and> data ! 0 \<noteq> 0 \<and> data ! 1 = 0 then LEPTRIS_ENCODING_UTF16LE
          else if length data \<ge> 2 \<and> data ! 0 = 0 \<and> data ! 1 \<noteq> 0 then LEPTRIS_ENCODING_UTF16BE
          else LEPTRIS_ENCODING_UTF32LE)
       else if high_bit_count > 0 \<and> sample_utf8 sample then LEPTRIS_ENCODING_UTF8
       else if high_bit_count > 0 then LEPTRIS_ENCODING_ISO8859_1
       else LEPTRIS_ENCODING_UTF8)"

definition leptris_encoding_detect :: "bytes \<Rightarrow> leptris_encoding_t" where
  "leptris_encoding_detect data =
    (if length data = 0 then LEPTRIS_ENCODING_UNKNOWN
     else let encoding = detect_bom data in
       if encoding \<noteq> LEPTRIS_ENCODING_UNKNOWN then encoding else detect_heuristic data)"

section \<open>The declaration scanner\<close>

text \<open>The library's \<open>strstr\<close>: the first position at which the needle is a prefix.\<close>

fun strstr :: "bytes \<Rightarrow> bytes \<Rightarrow> nat option" where
  "strstr [] needle = (if needle = [] then Some 0 else None)"
| "strstr (b # hay) needle =
    (if take (length needle) (b # hay) = needle then Some 0
     else (case strstr hay needle of None \<Rightarrow> None | Some i \<Rightarrow> Some (Suc i)))"

definition decl_blank :: "u8 \<Rightarrow> bool" where
  "decl_blank c \<longleftrightarrow> c = 0x20 \<or> c = 0x09"

text \<open>The name is copied into a C string, so the callers see it up to a NUL byte in it.\<close>

definition leptris_encoding_parse_declaration :: "(nat \<Rightarrow> bool) \<Rightarrow> bytes \<Rightarrow> bytes option" where
  "leptris_encoding_parse_declaration malloc_ok xml =
    (let len = length xml in
     if len < 20 then None
     else if take 5 (cstr xml) \<noteq> ascii ''<?xml'' then None
     else (case strstr (cstr xml) (ascii ''encoding'') of
         None \<Rightarrow> None
       | Some at_encoding \<Rightarrow>
           if at_encoding > len then None
           else let p = scan_while decl_blank xml (at_encoding + 8) len in
             if p \<ge> len \<or> xml ! p \<noteq> 0x3D then None
             else let p = scan_while decl_blank xml (p + 1) len in
               if p \<ge> len then None
               else let quote = xml ! p in
                 if quote \<noteq> 0x22 \<and> quote \<noteq> 0x27 then None
                 else let encoding_start = p + 1;
                          encoding_end = scan_while (\<lambda>c. c \<noteq> quote) xml encoding_start len in
                   if encoding_end \<ge> len then None
                   else let encoding_len = encoding_end - encoding_start in
                     if encoding_len = 0 \<or> encoding_len > 64 then None
                     else if \<not> malloc_ok (encoding_len + 1) then None
                     else Some (cstr (slice xml encoding_start encoding_len))))"

section \<open>Conversion to UTF-8\<close>

type_synonym iconv_fn = "bytes \<Rightarrow> bytes \<Rightarrow> bytes \<Rightarrow> nat \<Rightarrow> bytes option"

definition leptris_encoding_convert ::
  "(nat \<Rightarrow> bool) \<Rightarrow> iconv_fn \<Rightarrow> bytes \<Rightarrow> bytes \<Rightarrow> bytes \<Rightarrow> bytes option" where
  "leptris_encoding_convert malloc_ok iconv_conv from_encoding to_encoding input =
    (let outbuf_size = length input * 4 + 1 in
     if \<not> malloc_ok outbuf_size then None
     else iconv_conv from_encoding to_encoding input (outbuf_size - 1))"

definition leptris_encoding_to_utf8 ::
  "(nat \<Rightarrow> bool) \<Rightarrow> iconv_fn \<Rightarrow> leptris_encoding_t \<Rightarrow> bytes \<Rightarrow> bytes option" where
  "leptris_encoding_to_utf8 malloc_ok iconv_conv from_encoding input =
    (case leptris_encoding_name from_encoding of
       None \<Rightarrow> None
     | Some from_name \<Rightarrow>
         if from_encoding = LEPTRIS_ENCODING_UTF8
         then (if malloc_ok (length input + 1) then Some input else None)
         else leptris_encoding_convert malloc_ok iconv_conv from_name (ascii ''UTF-8'') input)"

text \<open>\<open>strdup\<close>, whose failure leaves a NULL.\<close>

definition dup_str :: "(nat \<Rightarrow> bool) \<Rightarrow> bytes \<Rightarrow> bytes option" where
  "dup_str malloc_ok str = (if malloc_ok (length str + 1) then Some str else None)"

text \<open>The declaration of converted text is rewritten to name UTF-8: the first \<open>encoding=\<close> in it.\<close>

definition rewrite_declaration :: "(nat \<Rightarrow> bool) \<Rightarrow> bytes \<Rightarrow> bytes" where
  "rewrite_declaration malloc_ok converted =
    (case strstr (cstr converted) (ascii ''encoding='') of
       None \<Rightarrow> converted
     | Some enc_ptr \<Rightarrow>
         let quote = (converted @ [0]) ! (enc_ptr + 9) in
         if enc_ptr < length converted \<and> (quote = 0x22 \<or> quote = 0x27) then
           (let value_start = enc_ptr + 10 in
            case memchr (drop value_start (cstr converted)) quote of
              None \<Rightarrow> converted
            | Some n \<Rightarrow>
                let value_end = value_start + n; value = slice converted value_start n;
                    is_utf8 = (n = 5 \<and> (value = ascii ''UTF-8'' \<or> value = ascii ''utf-8'')) in
                if is_utf8 then converted
                else if \<not> malloc_ok (value_start + 5 + (length converted - value_end) + 1) then converted
                else take value_start converted @ ascii ''UTF-8'' @ drop value_end converted)
         else converted)"

text \<open>
  The result is the converted buffer and the name stored through \<open>detected_encoding\<close>. When the
  declared encoding cannot be converted from, detection by content is tried instead.
\<close>

definition convert_or_retry ::
  "(nat \<Rightarrow> bool) \<Rightarrow> iconv_fn \<Rightarrow> bytes \<Rightarrow> bytes option \<Rightarrow> bytes \<Rightarrow> bytes option \<Rightarrow> bytes option \<times> bytes option"
  where
  "convert_or_retry malloc_ok iconv_conv xml declared encoding_to_use detected_name =
    (case leptris_encoding_convert malloc_ok iconv_conv encoding_to_use (ascii ''UTF-8'') xml of
       Some converted \<Rightarrow> (Some converted, detected_name)
     | None \<Rightarrow>
         if declared = None then (None, detected_name)
         else (case leptris_encoding_name (leptris_encoding_detect xml) of
             None \<Rightarrow> (None, detected_name)
           | Some name \<Rightarrow>
               (leptris_encoding_convert malloc_ok iconv_conv name (ascii ''UTF-8'') xml,
                dup_str malloc_ok name)))"

definition leptris_encoding_auto_convert ::
  "(nat \<Rightarrow> bool) \<Rightarrow> iconv_fn \<Rightarrow> bytes \<Rightarrow> bytes option \<times> bytes option" where
  "leptris_encoding_auto_convert malloc_ok iconv_conv xml =
    (if length xml = 0 then (None, None)
     else
       let declared = leptris_encoding_parse_declaration malloc_ok xml;
           detected = (if declared = None then leptris_encoding_detect xml else LEPTRIS_ENCODING_UNKNOWN);
           to_use = (if declared \<noteq> None then declared
                     else if detected \<noteq> LEPTRIS_ENCODING_UNKNOWN then leptris_encoding_name detected else None);
           detected_name = (case to_use of None \<Rightarrow> None | Some name \<Rightarrow> dup_str malloc_ok name) in
       if to_use = None \<or> to_use = Some (ascii ''UTF-8'') \<or> to_use = Some (ascii ''utf-8'')
          \<or> detected = LEPTRIS_ENCODING_UTF8 then
         (if malloc_ok (length xml + 1) then (Some xml, detected_name) else (None, detected_name))
       else if detected = LEPTRIS_ENCODING_UTF16LE \<or> detected = LEPTRIS_ENCODING_UTF16BE then
         (let encoding = (if detected = LEPTRIS_ENCODING_UTF16LE then UTF16_LE else UTF16_BE);
              utf8_size = utf16_to_utf8_size xml in
          if malloc_ok utf8_size then (Some (utf16_to_utf8 xml utf8_size encoding), detected_name)
          else (None, detected_name))
       else
         (case convert_or_retry malloc_ok iconv_conv xml declared (the to_use) detected_name of
            (None, name) \<Rightarrow> (None, name)
          | (Some converted, name) \<Rightarrow> (Some (rewrite_declaration malloc_ok converted), name)))"

section \<open>Entry points\<close>

datatype leptris_status = LEPTRIS_OK | LEPTRIS_ERROR_MEMORY | LEPTRIS_ERROR_PARSE | LEPTRIS_ERROR_XPATH
  | LEPTRIS_ERROR_NULL_ARG | LEPTRIS_ERROR_INVALID_ARG | LEPTRIS_ERROR_NOT_FOUND | LEPTRIS_ERROR_IO
  | LEPTRIS_ERROR_NOT_IMPLEMENTED | LEPTRIS_ERROR_NOT_SUPPORTED

text \<open>The two native UTF-16 branches, which differ only in how the encoding was found.\<close>

definition parse_utf16 ::
  "(nat \<Rightarrow> bool) \<Rightarrow> (bytes \<Rightarrow> 'd option) \<Rightarrow> (bytes \<Rightarrow> 'd \<Rightarrow> 'd) \<Rightarrow> bytes \<Rightarrow> utf16_encoding_t \<Rightarrow>
    leptris_status \<times> 'd option" where
  "parse_utf16 malloc_ok parse set_encoding xml enc =
    (let utf8_size = utf16_to_utf8_size xml in
     if \<not> malloc_ok utf8_size then (LEPTRIS_ERROR_MEMORY, None)
     else (case parse (utf16_to_utf8 xml utf8_size enc) of
             None \<Rightarrow> (LEPTRIS_ERROR_PARSE, None)
           | Some doc \<Rightarrow>
               (LEPTRIS_OK, Some (set_encoding
                  (if enc = UTF16_LE then ascii ''UTF-16LE'' else ascii ''UTF-16BE'') doc))))"

text \<open>ISO-8859-1 input widened to UTF-8, for builds without iconv.\<close>

definition latin1_names :: "bytes list" where
  "latin1_names = map ascii [''ISO-8859-1'', ''iso-8859-1'', ''ISO8859-1'', ''LATIN1'', ''latin1'',
     ''LATIN-1'', ''latin-1'']"

fun latin1_to_utf8 :: "bytes \<Rightarrow> bytes" where
  "latin1_to_utf8 [] = []"
| "latin1_to_utf8 (c # cs) =
    (if c < 0x80 then c # latin1_to_utf8 cs
     else (0xC0 OR drop_bit 6 c) # (0x80 OR (c AND 0x3F)) # latin1_to_utf8 cs)"

text \<open>
  \<open>leptris_parse_string_with_encoding\<close>, for a build with iconv (\<open>iconv = Some conv\<close>) and without;
  \<open>parse_string\<close> is the entry point the build without iconv falls back to.
\<close>

definition leptris_parse_string_with_encoding ::
  "(nat \<Rightarrow> bool) \<Rightarrow> iconv_fn option \<Rightarrow> (bytes \<Rightarrow> 'd option) \<Rightarrow> (bytes \<Rightarrow> 'd \<Rightarrow> 'd) \<Rightarrow>
    (bytes \<Rightarrow> leptris_status \<times> 'd option) \<Rightarrow> bytes \<Rightarrow> leptris_status \<times> 'd option" where
  "leptris_parse_string_with_encoding malloc_ok iconv parse set_encoding parse_string xml =
    (case utf16_detect_bom xml of
       UTF16_BOM_LE \<Rightarrow> parse_utf16 malloc_ok parse set_encoding xml UTF16_LE
     | UTF16_BOM_BE \<Rightarrow> parse_utf16 malloc_ok parse set_encoding xml UTF16_BE
     | UTF16_BOM_NONE \<Rightarrow>
         if utf16_detect_encoding xml \<noteq> UTF16_UNKNOWN
         then parse_utf16 malloc_ok parse set_encoding xml (utf16_detect_encoding xml)
         else (case iconv of
             Some iconv_conv \<Rightarrow>
               (case leptris_encoding_auto_convert malloc_ok iconv_conv xml of
                  (None, name) \<Rightarrow> (LEPTRIS_ERROR_PARSE, None)
                | (Some utf8_xml, name) \<Rightarrow>
                    (case parse utf8_xml of
                       None \<Rightarrow> (LEPTRIS_ERROR_PARSE, None)
                     | Some doc \<Rightarrow>
                         (LEPTRIS_OK, Some (case name of None \<Rightarrow> doc | Some n \<Rightarrow> set_encoding n doc))))
           | None \<Rightarrow>
               (case leptris_encoding_parse_declaration malloc_ok xml of
                  None \<Rightarrow> parse_string xml
                | Some declared \<Rightarrow>
                    if declared \<in> set latin1_names then
                      (if \<not> malloc_ok (length xml * 2 + 1) then (LEPTRIS_ERROR_MEMORY, None)
                       else (case parse (latin1_to_utf8 xml) of
                           None \<Rightarrow> (LEPTRIS_ERROR_PARSE, None)
                         | Some doc \<Rightarrow> (LEPTRIS_OK, Some (set_encoding (ascii ''ISO-8859-1'') doc))))
                    else parse_string xml)))"

text \<open>
  The \<open>direct_parse\<close> family: one pass counts the bytes the arena is sized by and notes a high byte,
  then the encoding gate, then the tree builders. \<open>il_try\<close> and \<open>internal\<close> are those builders
  (\<open>dp_il_try\<close>, \<open>direct_parse_internal\<close>), with the options and counts they are given.
\<close>

record parse_lane =
  skip_flags :: u32
  owns_buffer :: nat
  drop_ws_text :: bool
  apply_dtd_attrs :: bool
  keep_entity_refs :: bool
  recover :: bool

definition LEPTRIS_PARSE_DROP_WS_TEXT :: u32 where "LEPTRIS_PARSE_DROP_WS_TEXT = 1"
definition LEPTRIS_PARSE_DTDATTR :: u32 where "LEPTRIS_PARSE_DTDATTR = 2"
definition LEPTRIS_PARSE_KEEP_ENTITY_REFS :: u32 where "LEPTRIS_PARSE_KEEP_ENTITY_REFS = 4"
definition LEPTRIS_PARSE_SKIP_DUP_DETECTION :: u32 where "LEPTRIS_PARSE_SKIP_DUP_DETECTION = 8"
definition LEPTRIS_PARSE_SKIP_SOURCE_POSITIONS :: u32 where "LEPTRIS_PARSE_SKIP_SOURCE_POSITIONS = 16"
definition LEPTRIS_PARSE_RECOVER :: u32 where "LEPTRIS_PARSE_RECOVER = 32"

lemmas parse_flag_defs = LEPTRIS_PARSE_DROP_WS_TEXT_def LEPTRIS_PARSE_DTDATTR_def
  LEPTRIS_PARSE_KEEP_ENTITY_REFS_def LEPTRIS_PARSE_SKIP_DUP_DETECTION_def
  LEPTRIS_PARSE_SKIP_SOURCE_POSITIONS_def LEPTRIS_PARSE_RECOVER_def

type_synonym 'd builder = "bytes \<Rightarrow> parse_lane \<Rightarrow> nat \<times> nat \<times> nat \<Rightarrow> 'd option"
type_synonym 'd il_builder = "bytes \<Rightarrow> bool \<Rightarrow> bool \<Rightarrow> bool \<Rightarrow> 'd option"

definition direct_parse_flags :: "'d il_builder \<Rightarrow> 'd builder \<Rightarrow> bytes \<Rightarrow> u32 \<Rightarrow> 'd option" where
  "direct_parse_flags il_try internal xml parse_flags =
    (if length xml = 0 then None
     else case count3_high_scalar xml 0x3C 0x22 0x27 of (lt_count, dq_count, sq_count, saw_high) \<Rightarrow>
       let rec = (parse_flags AND LEPTRIS_PARSE_RECOVER \<noteq> 0);
           drop_ws = (parse_flags AND LEPTRIS_PARSE_DROP_WS_TEXT \<noteq> 0);
           keep_refs = (parse_flags AND LEPTRIS_PARSE_KEEP_ENTITY_REFS \<noteq> 0);
           dtdattr = (parse_flags AND LEPTRIS_PARSE_DTDATTR \<noteq> 0) in
       if \<not> rec \<and> \<not> dp_declares_non_utf8 xml \<and> saw_high \<and> \<not> dp_utf8_valid xml then None
       else (case (if rec then None else il_try xml drop_ws keep_refs dtdattr) of
               Some d \<Rightarrow> Some d
             | None \<Rightarrow> internal xml
                 \<lparr>skip_flags = parse_flags AND (LEPTRIS_PARSE_SKIP_DUP_DETECTION OR LEPTRIS_PARSE_SKIP_SOURCE_POSITIONS),
                  owns_buffer = 2, drop_ws_text = drop_ws, apply_dtd_attrs = dtdattr,
                  keep_entity_refs = keep_refs, recover = rec\<rparr> (lt_count, dq_count, sq_count)))"

definition direct_parse :: "'d il_builder \<Rightarrow> 'd builder \<Rightarrow> bytes \<Rightarrow> 'd option" where
  "direct_parse il_try internal xml =
    (if length xml = 0 then None
     else case count3_high_scalar xml 0x3C 0x22 0x27 of (lt_count, dq_count, sq_count, saw_high) \<Rightarrow>
       if \<not> dp_declares_non_utf8 xml \<and> saw_high \<and> \<not> dp_utf8_valid xml then None
       else (case il_try xml False False False of
               Some d \<Rightarrow> Some d
             | None \<Rightarrow> internal xml
                 \<lparr>skip_flags = 0, owns_buffer = 2, drop_ws_text = False, apply_dtd_attrs = False,
                  keep_entity_refs = False, recover = False\<rparr> (lt_count, dq_count, sq_count)))"

definition direct_parse_inplace :: "'d builder \<Rightarrow> bytes \<Rightarrow> 'd option" where
  "direct_parse_inplace internal buf =
    (if length buf = 0 then None
     else case count3_high_scalar buf 0x3C 0x22 0x27 of (lt_count, dq_count, sq_count, saw_high) \<Rightarrow>
       if \<not> dp_declares_non_utf8 buf \<and> saw_high \<and> \<not> dp_utf8_valid buf then None
       else internal buf
         \<lparr>skip_flags = 0, owns_buffer = 0, drop_ws_text = False, apply_dtd_attrs = False,
          keep_entity_refs = False, recover = False\<rparr> (lt_count, dq_count, sq_count))"

text \<open>
  \<open>leptris_parse_string\<close>: input that starts (after blanks) with a tag, and not with a declaration,
  and that shows no NUL byte among its first 64 bytes, goes straight to the parser.
\<close>

definition ws_byte :: "u8 \<Rightarrow> bool" where
  "ws_byte c \<longleftrightarrow> c = 0x20 \<or> c = 0x09 \<or> c = 0x0A \<or> c = 0x0D"

definition parse_fast_path :: "bytes \<Rightarrow> bool" where
  "parse_fast_path d =
    (let len = length d; i = scan_while ws_byte d 0 len in
     if len - i \<ge> 2 \<and> (d ! i = 0xFF \<and> d ! (i + 1) = 0xFE \<or> d ! i = 0xFE \<and> d ! (i + 1) = 0xFF) then False
     else if i < len \<and> d ! i = 0x3C \<and> \<not> (len - i \<ge> 5 \<and> d ! (i + 1) = 0x3F \<and> d ! (i + 2) = 0x78
         \<and> d ! (i + 3) = 0x6D \<and> d ! (i + 4) = 0x6C) then
       (let check = (if len < 64 then len else 64) in \<not> list_ex (\<lambda>j. d ! j = 0) [i..<check])
     else False)"

definition leptris_parse_string ::
  "(nat \<Rightarrow> bool) \<Rightarrow> iconv_fn option \<Rightarrow> 'd il_builder \<Rightarrow> 'd builder \<Rightarrow> (bytes \<Rightarrow> 'd \<Rightarrow> 'd) \<Rightarrow> bytes \<Rightarrow>
    leptris_status \<times> 'd option" where
  "leptris_parse_string malloc_ok iconv il_try internal set_encoding xml =
    (let parse = direct_parse il_try internal;
         finish = (\<lambda>r. case r of None \<Rightarrow> (LEPTRIS_ERROR_PARSE, None) | Some doc \<Rightarrow> (LEPTRIS_OK, Some doc)) in
     if length xml > 0 \<and> parse_fast_path xml then finish (parse xml)
     else case utf16_detect_bom xml of
       UTF16_BOM_LE \<Rightarrow> parse_utf16 malloc_ok parse set_encoding xml UTF16_LE
     | UTF16_BOM_BE \<Rightarrow> parse_utf16 malloc_ok parse set_encoding xml UTF16_BE
     | UTF16_BOM_NONE \<Rightarrow>
         if utf16_detect_encoding xml \<noteq> UTF16_UNKNOWN
         then parse_utf16 malloc_ok parse set_encoding xml (utf16_detect_encoding xml)
         else (case iconv of
             None \<Rightarrow> finish (parse xml)
           | Some iconv_conv \<Rightarrow>
               (case leptris_encoding_auto_convert malloc_ok iconv_conv xml of
                  (None, name) \<Rightarrow> (LEPTRIS_ERROR_PARSE, None)
                | (Some utf8_xml, name) \<Rightarrow>
                    finish (case direct_parse_inplace internal utf8_xml of
                        None \<Rightarrow> None
                      | Some doc \<Rightarrow> Some (case name of None \<Rightarrow> doc | Some n \<Rightarrow> set_encoding n doc)))))"

section \<open>Scanning and detection\<close>

lemma ascii_utf8_valid: "\<forall>b \<in> set s. b < 0x80 \<Longrightarrow> dp_utf8_valid s"
  using utf8_dfa_ascii_prefix[of s "[]"]
  by (simp add: dp_utf8_valid_def leptris_utf8_valid_scalar_def utf8_dfa_skip_ascii utf8_dfa_skip_ascii8)

lemma no_high_byte_valid:
  assumes "count3_high_scalar s a b c = (x, y, z, False)"
  shows "dp_utf8_valid s"
  using assms by (intro ascii_utf8_valid) (auto simp: count3_high_scalar_def count3_high_loop_eq not_le)

lemma count3_high_eq:
  "count3_high_scalar s a b c =
    (count_list s a, count_list s b, count_list s c, \<exists>x \<in> set s. 0x80 \<le> x)"
  by (simp add: count3_high_scalar_def count3_high_loop_eq)

lemma strstr_first:
  assumes "\<forall>i < length pre. take (length needle) (drop i (pre @ needle @ rest)) \<noteq> needle" "needle \<noteq> []"
  shows "strstr (pre @ needle @ rest) needle = Some (length pre)"
  using assms(1)
proof (induction pre)
  case Nil
  obtain n ns where "needle = n # ns" using assms(2) by (cases needle) auto
  then show ?case by simp
next
  case (Cons b pre)
  have "\<forall>i < length pre. take (length needle) (drop i (pre @ needle @ rest)) \<noteq> needle"
  proof (intro allI impI)
    fix i assume "i < length pre"
    with Cons.prems have "take (length needle) (drop (Suc i) ((b # pre) @ needle @ rest)) \<noteq> needle"
      by (metis Suc_less_eq length_Cons)
    then show "take (length needle) (drop i (pre @ needle @ rest)) \<noteq> needle" by simp
  qed
  then have "strstr (pre @ needle @ rest) needle = Some (length pre)" by (rule Cons.IH)
  moreover have "take (length needle) (b # pre @ needle @ rest) \<noteq> needle"
    using Cons.prems[rule_format, of 0] by simp
  ultimately show ?case by simp
qed

lemma detect_ebcdic:
  assumes "length data \<ge> 10" "0x4C \<in> set (take 3 data)" "0x40 \<in> set (take 10 data)"
    and "detect_bom data = LEPTRIS_ENCODING_UNKNOWN"
  shows "leptris_encoding_detect data = LEPTRIS_ENCODING_EBCDIC_037"
proof -
  have "data ! 0 = 0x4C \<or> data ! 1 = 0x4C \<or> data ! 2 = 0x4C"
    using assms(1,2) by (auto simp: take_3)
  moreover have "list_ex (\<lambda>b. b = 0x40) (take 10 data)"
    using assms(3) by (auto simp: list_ex_iff)
  ultimately have "2 \<le> ebcdic_indicators data" by (auto simp: ebcdic_indicators_def)
  with assms(1,4) show ?thesis by (auto simp: leptris_encoding_detect_def detect_heuristic_def Let_def)
qed

lemma latin1_unit: "(if c < 0x80 then [c] else [0xC0 OR drop_bit 6 c, 0x80 OR (c AND 0x3F)]) = utf8_encode (ucast c)"
  for c :: u8
proof (cases "c < 0x80")
  case True
  then show ?thesis
    by (simp add: utf8_encode_def word_le_nat_alt word_less_nat_alt word_arith word_eq_unat)
next
  case False
  have b: "unat c < 256" by (rule byte_less)
  have "unat (0xC0 OR drop_bit 6 c) = unat (0xC0 :: u8) + unat (drop_bit 6 c)"
    by (rule unat_or_add[where k = 5]) (use b in \<open>simp_all add: word_arith\<close>)
  moreover have "unat (0x80 OR (c AND 0x3F)) = unat (0x80 :: u8) + unat (c AND 0x3F)"
    by (rule unat_or_add[where k = 6]) (simp_all add: word_arith)
  ultimately have u: "unat (0xC0 OR drop_bit 6 c) = 192 + unat c div 64"
    "unat (0x80 OR (c AND 0x3F)) = 128 + unat c mod 64"
    by (simp_all add: word_arith)
  have q: "unat c div 64 mod 32 = unat c div 64" using b by simp
  have "utf8_encode (ucast c) =
      [ucast (0xC0 OR (drop_bit 6 (ucast c :: u32) AND 0x1F)), ucast (0x80 OR ((ucast c :: u32) AND 0x3F))]"
    using False b by (simp add: utf8_encode_def word_le_nat_alt word_less_nat_alt word_arith)
  moreover have "0xC0 OR drop_bit 6 c = ucast (0xC0 OR (drop_bit 6 (ucast c :: u32) AND 0x1F))"
    "0x80 OR (c AND 0x3F) = ucast (0x80 OR ((ucast c :: u32) AND 0x3F))"
    unfolding word_eq_unat u unat_lead2 unat_cont unat_ucast_byte q by simp_all
  ultimately show ?thesis using False by simp
qed

lemma latin1_to_utf8_eq: "latin1_to_utf8 bs = concat (map (\<lambda>b. utf8_encode (ucast b)) bs)"
proof (induction bs)
  case (Cons c cs)
  then show ?case using latin1_unit[of c] by (auto split: if_splits)
qed simp


text \<open>The scanner takes the first \<open>encoding="..."\<close> after the declaration's opening, wherever it is.\<close>

lemma slice_append: "slice (xs @ ys) (length xs) n = take n ys"
  by (simp add: slice_def)

lemma parse_declaration_first:
  assumes xml: "xml = pre @ ascii ''encoding'' @ [0x3D, q] @ name @ [q] @ rest"
    and pre: "take 5 pre = ascii ''<?xml''" and len: "20 \<le> length xml" and nul: "0 \<notin> set xml"
    and first: "\<forall>i < length pre. slice xml i 8 \<noteq> ascii ''encoding''"
    and q: "q = 0x22 \<or> q = 0x27" "q \<notin> set name" and name: "name \<noteq> []" "length name \<le> 64"
  shows "leptris_encoding_parse_declaration (\<lambda>_. True) xml = Some name"
proof -
  let ?p = "length pre" and ?m = "length name"
  have c: "cstr xml = xml" using nul by (rule cstr_id)
  have l8: "length (ascii ''encoding'') = 8" by (simp add: ascii_def)
  have "\<forall>i < ?p. take (length (ascii ''encoding'')) (drop i (pre @ ascii ''encoding'' @ ([0x3D, q] @ name @ [q] @ rest)))
      \<noteq> ascii ''encoding''"
    using first unfolding l8 xml slice_def by simp
  then have ss: "strstr xml (ascii ''encoding'') = Some ?p"
    unfolding xml by (rule strstr_first) (simp add: ascii_def)
  have lx: "length xml = ?p + 11 + ?m + length rest" unfolding xml by (simp add: l8)
  have nth: "xml ! (?p + 8 + i) = ([0x3D, q] @ name @ [q] @ rest) ! i" for i
    unfolding xml using l8 by (simp add: nth_append)
  have at: "xml ! (?p + 8) = 0x3D" "xml ! (?p + 9) = q" "xml ! (?p + 10 + ?m) = q"
    using nth[of 0] nth[of 1] nth[of "2 + ?m"] by (simp_all add: nth_append add_ac)
  have atn: "xml ! (?p + 10 + i) = name ! i" if "i < ?m" for i
    using nth[of "2 + i"] that by (simp add: nth_append add_ac)
  have s1: "scan_while decl_blank xml (?p + 8) (length xml) = ?p + 8"
    by (rule scan_while_eqI) (use lx at in \<open>auto simp: decl_blank_def\<close>)
  have s2: "scan_while decl_blank xml (?p + 9) (length xml) = ?p + 9"
    by (rule scan_while_eqI) (use lx at q in \<open>auto simp: decl_blank_def\<close>)
  have s3: "scan_while (\<lambda>c. c \<noteq> q) xml (?p + 10) (length xml) = ?p + 10 + ?m"
  proof (rule scan_while_eqI)
    fix i assume "?p + 10 \<le> i" "i < ?p + 10 + ?m"
    then obtain k where k: "i = ?p + 10 + k" "k < ?m" using le_Suc_ex by fastforce
    then have "name ! k \<in> set name" by simp
    with q(2) show "xml ! i \<noteq> q" unfolding k(1) atn[OF k(2)] by metis
  qed (use lx at in auto)
  have sl: "slice xml (?p + 10) ?m = name"
    unfolding slice_def xml using l8 by simp
  have cn: "cstr name = name" using nul unfolding xml by (intro cstr_id) auto
  have t5: "take 5 xml = ascii ''<?xml''"
  proof -
    have "length (take 5 pre) = 5" unfolding pre by (simp add: ascii_def)
    then have "5 \<le> ?p" by simp
    then show ?thesis using pre unfolding xml by simp
  qed
  have s2': "scan_while decl_blank xml (9 + ?p) (length xml) = ?p + 9"
    using s2 by (simp only: add.commute[of 9])
  have s3': "scan_while (\<lambda>c. c \<noteq> q) xml (10 + ?p) (length xml) = ?p + 10 + ?m"
    using s3 by (simp only: add.commute[of 10])
  have sl': "slice xml (10 + ?p) ?m = name" using sl by (simp only: add.commute[of 10])
  have bnd: "?p + 8 < length xml" "?p + 9 < length xml" "?p + 10 + ?m < length xml" "?p \<le> length xml"
    using lx by simp_all
  show ?thesis
    using len bnd name at q(1)
    by (simp add: leptris_encoding_parse_declaration_def Let_def c ss t5 s1 s2' s3' sl' cn)
qed


lemma rewrite_first:
  assumes xml: "xml = pre @ ascii ''encoding='' @ [q] @ name @ [q] @ rest"
    and nul: "0 \<notin> set xml"
    and first: "\<forall>i < length pre. slice xml i 9 \<noteq> ascii ''encoding=''"
    and q: "q = 0x22 \<or> q = 0x27" "q \<notin> set name"
    and name: "name \<noteq> ascii ''UTF-8''" "name \<noteq> ascii ''utf-8''"
  shows "rewrite_declaration (\<lambda>_. True) xml = pre @ ascii ''encoding='' @ [q] @ ascii ''UTF-8'' @ [q] @ rest"
proof -
  let ?p = "length pre" and ?m = "length name"
  have l9: "length (ascii ''encoding='') = 9" by (simp add: ascii_def)
  have c: "cstr xml = xml" using nul by (rule cstr_id)
  have "\<forall>i < ?p. take (length (ascii ''encoding='')) (drop i (pre @ ascii ''encoding='' @ ([q] @ name @ [q] @ rest)))
      \<noteq> ascii ''encoding=''"
    using first unfolding l9 xml slice_def by simp
  then have ss: "strstr xml (ascii ''encoding='') = Some ?p"
    unfolding xml by (rule strstr_first) (simp add: ascii_def)
  have at: "(xml @ [0]) ! (?p + 9) = q" unfolding xml using l9 by (simp add: nth_append)
  have lt: "?p < length xml" unfolding xml using l9 by simp
  have dr: "drop (?p + 10) xml = name @ [q] @ rest" "take (?p + 10) xml = pre @ ascii ''encoding='' @ [q]"
    unfolding xml using l9 by simp_all
  have mq: "memchr (name @ [q] @ rest) q = Some ?m"
    using q(2) by (auto simp: memchr_Some nth_append)
  have sl: "slice xml (?p + 10) ?m = name" using dr(1) by (simp add: slice_def)
  have de: "drop (?p + 10 + ?m) xml = [q] @ rest"
    using dr(1) by (metis append_eq_conv_conj drop_drop add.commute)
  have comm: "10 + ?p = ?p + 10" "9 + ?p = ?p + 9" by simp_all
  show ?thesis
    using lt q(1) name
    by (simp add: rewrite_declaration_def c ss at mq[simplified] Let_def dr[simplified] sl de[simplified] comm)
qed

section \<open>Properties\<close>

text \<open>
  C3. The in-memory parse entry point never hands undeclared, malformed UTF-8 to the tree builders
  and refuses nothing else: skipping the validation when the counting pass saw no high byte changes
  no outcome, and the builders get the exact numbers of tags and quotes.
\<close>
theorem direct_parse_gated:
  "direct_parse il_try internal xml =
    (if xml \<noteq> [] \<and> dp_input_encoding_ok xml then
       (case il_try xml False False False of
          Some d \<Rightarrow> Some d
        | None \<Rightarrow> internal xml
            \<lparr>skip_flags = 0, owns_buffer = 2, drop_ws_text = False, apply_dtd_attrs = False,
             keep_entity_refs = False, recover = False\<rparr>
            (count_list xml 0x3C, count_list xml 0x22, count_list xml 0x27))
     else None)"
proof -
  have "\<not> (\<exists>x \<in> set xml. 0x80 \<le> x) \<Longrightarrow> dp_utf8_valid xml"
    by (rule ascii_utf8_valid) (auto simp: not_le)
  then show ?thesis
    by (auto simp: direct_parse_def count3_high_eq dp_input_encoding_ok_def Let_def)
qed

text \<open>
  The conversion of ISO-8859-1 input in builds without iconv writes the UTF-8 form of the text
  whose code points are the input bytes, and never more than the buffer of twice the input holds.
\<close>
theorem latin1_conversion_exact:
  "latin1_to_utf8 bs = concat (map (\<lambda>b. utf8_encode (ucast b)) bs)
    \<and> length (latin1_to_utf8 bs) < length bs * 2 + 1"
proof
  show "latin1_to_utf8 bs = concat (map (\<lambda>b. utf8_encode (ucast b)) bs)" by (rule latin1_to_utf8_eq)
  show "length (latin1_to_utf8 bs) < length bs * 2 + 1" by (induction bs) auto
qed

text \<open>
  A document whose declaration names no encoding is converted from the encoding that the first
  attribute called \<open>encoding\<close> of its body names, and that attribute's value is replaced by UTF-8:
  the declaration scanner does not stop at the end of the declaration. Here even text that iconv
  leaves unchanged comes back with different content.
\<close>
theorem body_attribute_taken_as_declaration:
  assumes "xml = ascii ''<?xml version=\"1.0\"?>'' @ body @ ascii ''encoding='' @ [0x22] @ name @ [0x22] @ rest"
    and "0 \<notin> set xml" and "0x22 \<notin> set name" and "name \<noteq> []" "length name \<le> 64"
    and "name \<noteq> ascii ''UTF-8''" "name \<noteq> ascii ''utf-8''"
    and "\<forall>i < length (ascii ''<?xml version=\"1.0\"?>'' @ body). slice xml i 8 \<noteq> ascii ''encoding''"
    and "iconv_conv name (ascii ''UTF-8'') xml (length xml * 4) = Some xml"
  shows "leptris_encoding_auto_convert (\<lambda>_. True) iconv_conv xml =
    (Some (ascii ''<?xml version=\"1.0\"?>'' @ body @ ascii ''encoding='' @ [0x22] @ ascii ''UTF-8'' @ [0x22] @ rest),
     Some name)"
proof -
  let ?pre = "ascii ''<?xml version=\"1.0\"?>'' @ body"
  have l: "length (ascii ''<?xml version=\"1.0\"?>'') = 21" by (simp add: ascii_def)
  have d: "leptris_encoding_parse_declaration (\<lambda>_. True) xml = Some name"
  proof (rule parse_declaration_first)
    show "xml = ?pre @ ascii ''encoding'' @ [0x3D, 0x22] @ name @ [0x22] @ rest"
      unfolding assms(1) by (simp add: ascii_def)
    show "take 5 ?pre = ascii ''<?xml''" by (simp add: ascii_def)
    show "20 \<le> length xml" unfolding assms(1) by (simp add: l)
  qed (use assms in auto)
  have "\<forall>i < length ?pre. slice xml i 9 \<noteq> ascii ''encoding=''"
  proof (intro allI impI notI)
    fix i assume i: "i < length ?pre" "slice xml i 9 = ascii ''encoding=''"
    have "slice xml i 8 = take 8 (slice xml i 9)" by (simp add: slice_def min_def)
    also have "\<dots> = ascii ''encoding''" unfolding i(2) by (simp add: ascii_def)
    finally show False using assms(8) i(1) by blast
  qed
  then have r: "rewrite_declaration (\<lambda>_. True) xml =
      ?pre @ ascii ''encoding='' @ [0x22] @ ascii ''UTF-8'' @ [0x22] @ rest"
    using assms by (intro rewrite_first) auto
  have "length xml \<noteq> 0" unfolding assms(1) by (simp add: l)
  then show ?thesis
    using assms(6,7,9) r
    by (simp add: leptris_encoding_auto_convert_def d dup_str_def convert_or_retry_def
        leptris_encoding_convert_def Let_def)
qed

theorem body_attribute_taken_as_declaration_witness:
  "leptris_encoding_auto_convert (\<lambda>_. True) (\<lambda>_ _ input _. Some input)
     (ascii ''<?xml version=\"1.0\"?><a encoding=\"gif\"/>'')
   = (Some (ascii ''<?xml version=\"1.0\"?><a encoding=\"UTF-8\"/>''), Some (ascii ''gif''))"
proof -
  let ?xml = "ascii ''<?xml version=\"1.0\"?><a encoding=\"gif\"/>''"
  have x: "?xml = ascii ''<?xml version=\"1.0\"?>'' @ ascii ''<a '' @ ascii ''encoding='' @ [0x22] @ ascii ''gif'' @ [0x22] @ ascii ''/>''"
    by code_simp
  have h: "0 \<notin> set ?xml" "(0x22 :: u8) \<notin> set (ascii ''gif'')" "ascii ''gif'' \<noteq> []" "length (ascii ''gif'') \<le> 64"
    "ascii ''gif'' \<noteq> ascii ''UTF-8''" "ascii ''gif'' \<noteq> ascii ''utf-8''"
    by code_simp+
  have n: "list_all (\<lambda>i. slice ?xml i 8 \<noteq> ascii ''encoding'') [0..<24]" by code_simp
  have f: "\<forall>i < length (ascii ''<?xml version=\"1.0\"?>'' @ ascii ''<a ''). slice ?xml i 8 \<noteq> ascii ''encoding''"
  proof -
    have l: "length (ascii ''<?xml version=\"1.0\"?>'' @ ascii ''<a '') = 24" by code_simp
    show ?thesis using n unfolding l list_all_iff set_upt by auto
  qed
  have e: "ascii ''<?xml version=\"1.0\"?>'' @ ascii ''<a '' @ ascii ''encoding='' @ [0x22] @ ascii ''UTF-8'' @ [0x22] @ ascii ''/>''
      = ascii ''<?xml version=\"1.0\"?><a encoding=\"UTF-8\"/>''"
    by code_simp
  show ?thesis
    using body_attribute_taken_as_declaration[OF x h(1-6) f] unfolding e by simp
qed

text \<open>
  Detection by content takes plain ASCII for EBCDIC: any document without a byte order mark whose
  first three bytes contain an \<open>L\<close> and whose first ten contain an \<open>@\<close> is reported as EBCDIC, although
  every byte of it is ASCII.
\<close>
theorem ascii_detected_as_ebcdic:
  assumes "10 \<le> length data" and "0x4C \<in> set (take 3 data)" and "0x40 \<in> set (take 10 data)"
    and "list_all (\<lambda>b. 0 < b \<and> b < 0x80) data"
  shows "leptris_encoding_detect data = LEPTRIS_ENCODING_EBCDIC_037"
proof (rule detect_ebcdic)
  have "data ! 0 \<in> set data" using assms(1) by (intro nth_mem) linarith
  then have "0 < data ! 0" "data ! 0 < 0x80" using assms(4) by (auto simp: list_all_iff)
  then have "data ! 0 \<noteq> 0" "data ! 0 \<noteq> 0xEF" "data ! 0 \<noteq> 0xFF" "data ! 0 \<noteq> 0xFE" by auto
  then show "detect_bom data = LEPTRIS_ENCODING_UNKNOWN" by (simp add: detect_bom_def)
qed (use assms in auto)

theorem ascii_detected_as_ebcdic_witness:
  "leptris_encoding_detect (ascii ''<L>me@example.org</L>'') = LEPTRIS_ENCODING_EBCDIC_037"
  by (rule ascii_detected_as_ebcdic) code_simp+

text \<open>
  Parsing a UTF-16 document of either byte order, with a byte order mark and without U+0000, is
  parsing the UTF-8 form of its text, with the encoding's name stored in the document; it never goes
  through iconv and fails only when the conversion buffer cannot be allocated or the parse fails.
\<close>
theorem parse_string_utf16:
  assumes "list_all scalar_value cs" "0 \<notin> set cs" "encoding \<noteq> UTF16_UNKNOWN"
    and "data = unit_bytes encoding 0xFEFF @ utf16_text encoding cs"
    and "malloc_ok (utf16_to_utf8_size data)"
  shows "leptris_parse_string malloc_ok iconv il_try internal set_encoding data =
    (case direct_parse il_try internal (concat (map utf8_encode cs)) of
       None \<Rightarrow> (LEPTRIS_ERROR_PARSE, None)
     | Some doc \<Rightarrow> (LEPTRIS_OK, Some (set_encoding
         (if encoding = UTF16_LE then ascii ''UTF-16LE'' else ascii ''UTF-16BE'') doc)))"
proof -
  have b: "unit_bytes encoding 0xFEFF = (if encoding = UTF16_LE then [0xFF, 0xFE] else [0xFE, 0xFF])"
    by (simp add: unit_bytes_def)
  have len: "2 \<le> length data" using assms(4) b by simp
  have hd: "data ! 0 = (if encoding = UTF16_LE then 0xFF else 0xFE)"
    "data ! 1 = (if encoding = UTF16_LE then 0xFE else 0xFF)"
    using assms(4) b by simp_all
  have "scan_while ws_byte data 0 (length data) = 0"
    by (rule scan_while_eqI) (use hd in \<open>auto simp: ws_byte_def\<close>)
  then have slow: "\<not> parse_fast_path data"
    using len hd by (simp add: parse_fast_path_def Let_def)
  have conv: "utf16_detect_bom data = (if encoding = UTF16_LE then UTF16_BOM_LE else UTF16_BOM_BE)"
    "utf16_to_utf8 data (utf16_to_utf8_size data) encoding = concat (map utf8_encode cs)"
    using bom_document[OF assms(1-4)] by simp_all
  from assms(3) show ?thesis
    using slow conv assms(5)
    by (cases encoding) (auto simp: leptris_parse_string_def parse_utf16_def Let_def)
qed

theorem parse_string_utf16_witness:
  "leptris_parse_string (\<lambda>_. True) None (\<lambda>_ _ _ _. None) (\<lambda>xml _ _. Some xml) (\<lambda>_ doc. doc)
     [0xFF, 0xFE, 0x3C, 0x00, 0xE9, 0x00] =
   (case direct_parse (\<lambda>_ _ _ _. None) (\<lambda>xml _ _. Some xml) [0x3C, 0xC3, 0xA9] of
      None \<Rightarrow> (LEPTRIS_ERROR_PARSE, None) | Some doc \<Rightarrow> (LEPTRIS_OK, Some doc))"
proof -
  have d: "[0xFF, 0xFE, 0x3C, 0x00, 0xE9, 0x00] = unit_bytes UTF16_LE 0xFEFF @ utf16_text UTF16_LE [0x3C, 0xE9]"
    by (simp add: utf16_text_def utf16_encode_def unit_bytes_def)
  have e: "concat (map utf8_encode [0x3C, 0xE9]) = [0x3C, 0xC3, 0xA9]"
    by (simp add: utf8_encode_def)
  show ?thesis
    using parse_string_utf16[OF _ _ _ d, where malloc_ok = "\<lambda>_. True"] unfolding e
    by (simp add: scalar_value_def)
qed

end
