(* ===== verification/Entities.thy ===== *)
theory Entities
  imports Utf16
begin

text \<open>
  Decoding of entity and character references (\<open>common/entities.c\<close>). The input of \<open>decode_entity\<close>
  is a C string, the output the part of the caller's buffer written before the NUL; \<open>outlen\<close> is the
  buffer's size, and the guards \<open>out_pos < outlen - k\<close> are kept with the wrap-around of \<open>size_t\<close>. The
  code point is a 64-bit \<open>unsigned long\<close>. \<open>strict\<close> is the result of \<open>leptris_get_strict_mode\<close>.
\<close>

section \<open>References\<close>

definition digit_value :: "bool \<Rightarrow> u8 \<Rightarrow> u64 option" where
  "digit_value is_hex ch =
    (if is_hex then
       (let c = lower_byte ch in
        if 0x30 \<le> c \<and> c \<le> 0x39 then Some (ucast (c - 0x30))
        else if 0x61 \<le> c \<and> c \<le> 0x66 then Some (ucast (c - 0x61) + 10)
        else None)
     else if 0x30 \<le> ch \<and> ch \<le> 0x39 then Some (ucast (ch - 0x30))
     else None)"

text \<open>The number loop: rest of the input, code point, digits read, and whether a character was bad.\<close>

fun parse_number :: "bool \<Rightarrow> bytes \<Rightarrow> u64 \<Rightarrow> nat \<Rightarrow> bytes \<times> u64 \<times> nat \<times> bool" where
  "parse_number is_hex [] codepoint digits = ([], codepoint, digits, False)"
| "parse_number is_hex (c # p) codepoint digits =
    (if c = 0x3B then (c # p, codepoint, digits, False)
     else (case digit_value is_hex c of
         Some v \<Rightarrow> parse_number is_hex p (codepoint * (if is_hex then 16 else 10) + v) (digits + 1)
       | None \<Rightarrow> (c # p, codepoint, digits, True)))"

definition put_byte :: "nat \<Rightarrow> bytes \<Rightarrow> u8 \<Rightarrow> bytes" where
  "put_byte outlen out b = (if length out < size_sub outlen 1 then out @ [b] else out)"

definition put_codepoint :: "nat \<Rightarrow> bytes \<Rightarrow> u64 \<Rightarrow> bytes" where
  "put_codepoint outlen out codepoint =
    (if codepoint \<le> 0x7F then
       (if length out < size_sub outlen 1 then out @ [ucast codepoint] else out)
     else if codepoint \<le> 0x7FF then
       (if length out < size_sub outlen 2 then
          out @ [ucast (0xC0 OR drop_bit 6 codepoint), ucast (0x80 OR (codepoint AND 0x3F))]
        else out)
     else if codepoint \<le> 0xFFFF then
       (if length out < size_sub outlen 3 then
          out @ [ucast (0xE0 OR drop_bit 12 codepoint), ucast (0x80 OR (drop_bit 6 codepoint AND 0x3F)),
                 ucast (0x80 OR (codepoint AND 0x3F))]
        else out)
     else if codepoint \<le> 0x10FFFF then
       (if length out < size_sub outlen 4 then
          out @ [ucast (0xF0 OR drop_bit 18 codepoint), ucast (0x80 OR (drop_bit 12 codepoint AND 0x3F)),
                 ucast (0x80 OR (drop_bit 6 codepoint AND 0x3F)), ucast (0x80 OR (codepoint AND 0x3F))]
        else out)
     else out)"

text \<open>The lenient copy of an unknown reference's name.\<close>

definition c_isspace :: "u8 \<Rightarrow> bool" where
  "c_isspace c \<longleftrightarrow> c = 0x20 \<or> (0x09 \<le> c \<and> c \<le> 0x0D)"

fun copy_name :: "nat \<Rightarrow> bytes \<Rightarrow> bytes \<Rightarrow> bytes \<times> bytes" where
  "copy_name outlen [] out = ([], out)"
| "copy_name outlen (c # p) out =
    (if c = 0x3B then (p, out)
     else if c_isspace c then (c # p, out)
     else if c = 0x3C then (c # p, out)
     else if length out < size_sub outlen 1 then copy_name outlen p (out @ [c])
     else (c # p, out))"

text \<open>The five predefined entities: the byte and the length of the name with its semicolon.\<close>

definition predefined_entity :: "bytes \<Rightarrow> (u8 \<times> nat) option" where
  "predefined_entity p =
    (if take 3 p = ascii ''lt;'' then Some (0x3C, 3)
     else if take 3 p = ascii ''gt;'' then Some (0x3E, 3)
     else if take 4 p = ascii ''amp;'' then Some (0x26, 4)
     else if take 5 p = ascii ''apos;'' then Some (0x27, 5)
     else if take 5 p = ascii ''quot;'' then Some (0x22, 5)
     else None)"

lemma parse_number_length:
  "parse_number is_hex p cp d = (rest, cp', d', bad) \<Longrightarrow> length rest \<le> length p"
  by (induction is_hex p cp d rule: parse_number.induct)
    (auto split: if_splits option.splits)

lemma copy_name_length: "copy_name outlen p out = (rest, out') \<Longrightarrow> length rest \<le> length p"
  by (induction outlen p out rule: copy_name.induct) (auto split: if_splits)

text \<open>A character reference, from the character after \<open>&#\<close>.\<close>

definition parse_reference :: "bytes \<Rightarrow> bytes \<times> u64 \<times> nat \<times> bool" where
  "parse_reference q =
    (let is_hex = (q \<noteq> [] \<and> (hd q = 0x78 \<or> hd q = 0x58)) in
     parse_number is_hex (if is_hex then tl q else q) 0 0)"

lemma parse_reference_length: "parse_reference q = (rest, r) \<Longrightarrow> length rest \<le> length q"
proof -
  assume "parse_reference q = (rest, r)"
  then obtain h p cp d bad where "parse_number h p 0 0 = (rest, cp, d, bad)" "length p \<le> length q"
    by (cases r) (auto simp: parse_reference_def Let_def split: if_splits)
  then show ?thesis using parse_number_length[of h p 0 0 rest cp d bad] by simp
qed

lemma step_shorter:
  "(rest, r) = parse_reference (tl p) \<Longrightarrow> length rest < Suc (length p)"
  "(rest, r) = parse_reference (tl p) \<Longrightarrow> length (tl rest) < Suc (length p)"
  "(rest, out') = copy_name outlen p out \<Longrightarrow> length rest < Suc (length p)"
proof -
  assume "(rest, r) = parse_reference (tl p)"
  then have "length rest \<le> length (tl p)" by (intro parse_reference_length[where r = r]) simp
  then show "length rest < Suc (length p)" "length (tl rest) < Suc (length p)" by simp_all
next
  assume "(rest, out') = copy_name outlen p out"
  then show "length rest < Suc (length p)" using copy_name_length[of outlen p out rest out'] by simp
qed

section \<open>The decoder\<close>

function decode_loop :: "bool \<Rightarrow> nat \<Rightarrow> bytes \<Rightarrow> bytes \<Rightarrow> bool \<Rightarrow> bytes \<times> bool" where
  "decode_loop strict outlen [] out has_error = (out, has_error)"
| "decode_loop strict outlen (c # p) out has_error =
    (if c = 0x26 then
       (case predefined_entity p of
          Some (b, n) \<Rightarrow> decode_loop strict outlen (drop n p) (put_byte outlen out b) has_error
        | None \<Rightarrow>
            if p \<noteq> [] \<and> hd p = 0x23 then
              (case parse_reference (tl p) of
                 (rest, codepoint, digits, bad) \<Rightarrow>
                   let has_error = (has_error \<or> bad) in
                   if digits = 0 then (out, True)
                   else if rest = [] \<or> hd rest \<noteq> 0x3B then
                     (if strict then (out, True)
                      else decode_loop strict outlen rest (put_codepoint outlen out codepoint) has_error)
                   else decode_loop strict outlen (tl rest) (put_codepoint outlen out codepoint) has_error)
            else if strict then (out, True)
            else (case copy_name outlen p (put_byte outlen out 0x26) of
                (rest, out') \<Rightarrow> decode_loop strict outlen rest out' has_error))
     else if length out < size_sub outlen 1 then decode_loop strict outlen p (out @ [c]) has_error
     else (out, has_error))"
  by pat_completeness auto
termination
  by (relation "measure (\<lambda>(strict, outlen, inp, out, e). length inp)") (auto dest: step_shorter)

declare decode_loop.simps(2) [simp del]

definition decode_entity :: "bool \<Rightarrow> bytes \<Rightarrow> nat \<Rightarrow> bytes \<times> nat" where
  "decode_entity strict input outlen =
    (if outlen = 0 then ([], 0)
     else case decode_loop strict outlen (cstr input) [] False of
       (out, has_error) \<Rightarrow> (out, if has_error then 0 else length out))"

text \<open>
  The allocating callers. A returned string is the decoded bytes before their NUL; \<open>None\<close> is NULL.
  \<open>alloc_ok n\<close> is the outcome of \<open>malloc(n)\<close>, \<open>pool_ok\<close> that of the pool when the caller gives one, and
  a string view is its bytes.
\<close>

definition leptris_decode_entities :: "(nat \<Rightarrow> bool) \<Rightarrow> bool \<Rightarrow> bytes \<Rightarrow> bytes option" where
  "leptris_decode_entities alloc_ok strict input =
    (let input_len = length (cstr input) in
     if \<not> alloc_ok (input_len + 1) then None
     else case decode_entity strict input (input_len + 1) of
       (output, result) \<Rightarrow> if result = 0 then None else Some output)"

definition leptris_decode_entities_view ::
  "(nat \<Rightarrow> bool) \<Rightarrow> (nat \<Rightarrow> bool) option \<Rightarrow> bool \<Rightarrow> bytes option \<Rightarrow> bytes option" where
  "leptris_decode_entities_view alloc_ok pool_ok strict sv =
    (let out_ok = (case pool_ok of None \<Rightarrow> alloc_ok | Some ok \<Rightarrow> ok) in
     if sv = None \<or> sv = Some [] then (if out_ok 1 then Some [] else None)
     else let temp_buf = the sv in
       if \<not> alloc_ok (length temp_buf + 1) then None
       else if \<not> out_ok (length temp_buf + 1) then None
       else case decode_entity strict temp_buf (length temp_buf + 1) of
         (output, result) \<Rightarrow> if result = 0 then None else Some output)"

text \<open>
  With a document type definition, its expander (\<open>leptris_dtd_expand_entities\<close>, the parameter of the
  next two) takes over.
\<close>

definition leptris_decode_entities_with_dtd ::
  "(nat \<Rightarrow> bool) \<Rightarrow> bool \<Rightarrow> bytes \<Rightarrow> (bytes \<Rightarrow> bytes option) option \<Rightarrow> bytes option" where
  "leptris_decode_entities_with_dtd alloc_ok strict input dtd =
    (case dtd of
       Some expand \<Rightarrow> expand (cstr input)
     | None \<Rightarrow> leptris_decode_entities alloc_ok strict input)"

definition leptris_decode_entities_view_with_dtd ::
  "(nat \<Rightarrow> bool) \<Rightarrow> (nat \<Rightarrow> bool) option \<Rightarrow> bool \<Rightarrow> bytes option \<Rightarrow> (bytes \<Rightarrow> bytes option) option \<Rightarrow>
    bytes option" where
  "leptris_decode_entities_view_with_dtd alloc_ok pool_ok strict sv dtd =
    (let out_ok = (case pool_ok of None \<Rightarrow> alloc_ok | Some ok \<Rightarrow> ok) in
     if sv = None \<or> sv = Some [] then (if out_ok 1 then Some [] else None)
     else (case dtd of
         Some expand \<Rightarrow>
           if \<not> alloc_ok (length (the sv) + 1) then None
           else (case expand (the sv) of
               None \<Rightarrow> None
             | Some result \<Rightarrow>
                 (case pool_ok of
                    None \<Rightarrow> Some result
                  | Some ok \<Rightarrow> if ok (length result + 1) then Some result else None))
       | None \<Rightarrow> leptris_decode_entities_view alloc_ok pool_ok strict sv))"

section \<open>Numbers and code points\<close>

definition digit_nat :: "bool \<Rightarrow> u8 \<Rightarrow> nat" where
  "digit_nat is_hex c = (case digit_value is_hex c of Some v \<Rightarrow> unat v | None \<Rightarrow> 0)"

definition digits_nat :: "bool \<Rightarrow> nat \<Rightarrow> bytes \<Rightarrow> nat" where
  "digits_nat is_hex n ds = foldl (\<lambda>n d. n * (if is_hex then 16 else 10) + digit_nat is_hex d) n ds"

lemma parse_number_digits:
  assumes "\<forall>d \<in> set ds. digit_value is_hex d \<noteq> None \<and> d \<noteq> 0x3B"
  shows "parse_number is_hex (ds @ 0x3B # rest) (of_nat n) k =
    (0x3B # rest, of_nat (digits_nat is_hex n ds), k + length ds, False)"
  using assms
proof (induction ds arbitrary: n k)
  case Nil
  then show ?case by (simp add: digits_nat_def)
next
  case (Cons d ds)
  then obtain v where v: "digit_value is_hex d = Some v" "d \<noteq> 0x3B" by auto
  let ?n = "n * (if is_hex then 16 else 10) + digit_nat is_hex d"
  have "of_nat n * (if is_hex then 16 else 10) + v = (of_nat ?n :: u64)"
    using v(1) by (simp add: digit_nat_def)
  then show ?case
    using Cons.IH[of ?n "k + 1"] Cons.prems v by (simp add: digits_nat_def)
qed

lemma digit_value_bound: "digit_value is_hex c = Some v \<Longrightarrow> unat v < (if is_hex then 16 else 10)"
proof -
  assume a: "digit_value is_hex c = Some v"
  have u: "unat (ucast x :: u64) = unat x" for x :: u8
    using byte_less[of x] by (simp add: unsigned_ucast_eq take_bit_eq_mod)
  have d: "unat (x - 0x30) = unat x - 48" if "0x30 \<le> x" for x :: u8
    using that by (simp add: unat_sub word_le_nat_alt)
  have h: "unat (x - 0x61) = unat x - 97" if "0x61 \<le> x" for x :: u8
    using that by (simp add: unat_sub word_le_nat_alt)
  have p: "unat (ucast (x - 0x61) + 10 :: u64) = unat x - 97 + 10" if "0x61 \<le> x" "x \<le> 0x66" for x :: u8
    using that by (simp add: unat_word_ariths u h word_le_nat_alt)
  show ?thesis
    using a p[of "lower_byte c"] d[of c] d[of "lower_byte c"]
    by (auto simp: digit_value_def Let_def u word_le_nat_alt split: if_splits)
qed

lemma digit_nat_bound: "digit_nat is_hex d \<le> (if is_hex then 15 else 9)"
  using digit_value_bound[of is_hex d] by (cases "digit_value is_hex d") (auto simp: digit_nat_def)

lemma digits_nat_bound: "digits_nat is_hex n ds < (n + 1) * 16 ^ length ds"
proof (induction ds arbitrary: n)
  case Nil
  then show ?case by (simp add: digits_nat_def)
next
  case (Cons d ds)
  let ?n = "n * (if is_hex then 16 else 10) + digit_nat is_hex d"
  have "?n + 1 \<le> (n + 1) * 16" using digit_nat_bound[of is_hex d] by (auto split: if_splits)
  then have "(?n + 1) * 16 ^ length ds \<le> (n + 1) * 16 * 16 ^ length ds" by (rule mult_le_mono1)
  also have "\<dots> = (n + 1) * 16 ^ length (d # ds)" by (simp add: algebra_simps)
  finally have "digits_nat is_hex ?n ds < (n + 1) * 16 ^ length (d # ds)"
    using Cons.IH[of ?n] by (rule order.strict_trans2[rotated])
  then show ?case by (simp only: digits_nat_def foldl_Cons)
qed

lemma unat_tag_or:
  fixes x :: u64
  assumes "unat x < 2 ^ k" "2 ^ k dvd t" "t < 256" "t + unat x < 256"
  shows "unat (ucast (of_nat t OR x) :: u8) = t + unat x"
proof -
  have t: "unat (of_nat t :: u64) = t" using assms(3) by (simp add: unsigned_of_nat take_bit_eq_mod)
  have "unat (of_nat t OR x) = t + unat x"
    using unat_or_add[of x k "of_nat t"] assms(1,2) t by simp
  then show ?thesis using assms(4) by (simp add: word_arith)
qed

lemma unat_and_3F: "unat (x AND 0x3F) = unat x mod 64" for x :: u64
  using unat_and_mask[of x 6] by (simp add: mask_eq_exp_minus_1)

lemma ref_bytes:
  fixes cp :: u64
  assumes "unat cp \<le> 0x10FFFF"
  shows "unat (ucast cp :: u8) = unat cp mod 256"
    "unat cp \<le> 0x7FF \<Longrightarrow> unat (ucast (0xC0 OR drop_bit 6 cp) :: u8) = 192 + unat cp div 64"
    "unat cp \<le> 0xFFFF \<Longrightarrow> unat (ucast (0xE0 OR drop_bit 12 cp) :: u8) = 224 + unat cp div 4096"
    "unat (ucast (0xF0 OR drop_bit 18 cp) :: u8) = 240 + unat cp div 262144"
    "unat (ucast (0x80 OR (drop_bit k cp AND 0x3F)) :: u8) = 128 + unat cp div 2 ^ k mod 64"
    "unat (ucast (0x80 OR (cp AND 0x3F)) :: u8) = 128 + unat cp mod 64"
proof -
  show "unat (ucast cp :: u8) = unat cp mod 256" by (simp add: word_arith)
  show "unat (ucast (0xC0 OR drop_bit 6 cp) :: u8) = 192 + unat cp div 64" if "unat cp \<le> 0x7FF"
    using unat_tag_or[of "drop_bit 6 cp" 5 192] that by (simp add: word_arith)
  show "unat (ucast (0xE0 OR drop_bit 12 cp) :: u8) = 224 + unat cp div 4096" if "unat cp \<le> 0xFFFF"
    using unat_tag_or[of "drop_bit 12 cp" 4 224] that by (simp add: word_arith)
  show "unat (ucast (0xF0 OR drop_bit 18 cp) :: u8) = 240 + unat cp div 262144"
    using unat_tag_or[of "drop_bit 18 cp" 3 240] assms by (simp add: word_arith)
  have m: "unat (ucast (0x80 OR (x AND 0x3F)) :: u8) = 128 + unat x mod 64" for x :: u64
  proof -
    have "unat x mod 64 < 64" by simp
    then have "unat (x AND 0x3F) < 2 ^ 6" "128 + unat (x AND 0x3F) < 256" by (simp_all add: unat_and_3F)
    then have "unat (ucast (of_nat 128 OR (x AND 0x3F)) :: u8) = 128 + unat (x AND 0x3F)"
      by (intro unat_tag_or[where k = 6]) simp_all
    then show ?thesis by (simp add: unat_and_3F)
  qed
  show "unat (ucast (0x80 OR (cp AND 0x3F)) :: u8) = 128 + unat cp mod 64" by (rule m)
  show "unat (ucast (0x80 OR (drop_bit k cp AND 0x3F)) :: u8) = 128 + unat cp div 2 ^ k mod 64"
    using m[of "drop_bit k cp"] by (simp add: unat_drop_bit_div)
qed

lemma put_codepoint_encodes:
  fixes cp :: u64
  assumes c: "scalar_value c" "unat cp = unat c"
    and room: "length out + length (utf8_encode c) < outlen"
  shows "put_codepoint outlen out cp = out @ utf8_encode c"
proof -
  let ?n = "unat c"
  have sv: "?n \<le> 0x10FFFF" "\<not> (0xD800 \<le> ?n \<and> ?n \<le> 0xDFFF)"
    using c(1) by (simp_all add: scalar_value_def word_le_nat_alt)
  note b = ref_bytes[of cp, unfolded c(2), OF sv(1)]
  have s: "size_sub outlen k = outlen - k" if "k \<le> outlen" for k using that by (rule size_sub_le)
  consider "?n \<le> 0x7F" | "0x7F < ?n" "?n \<le> 0x7FF" | "0x7FF < ?n" "?n \<le> 0xFFFF" | "0xFFFF < ?n"
    by linarith
  then show ?thesis
  proof cases
    case 1
    then have e: "utf8_encode c = [ucast c]" by (simp add: utf8_encode_def word_le_nat_alt)
    have "(ucast cp :: u8) = ucast c" unfolding word_eq_unat using b(1) by (simp add: word_arith)
    then show ?thesis using 1 room by (simp add: put_codepoint_def word_le_nat_alt c(2) e s)
  next
    case 2
    then have e: "utf8_encode c = [ucast (0xC0 OR (drop_bit 6 c AND 0x1F)), ucast (0x80 OR (c AND 0x3F))]"
      by (simp add: utf8_encode_def word_le_nat_alt)
    have "?n div 64 mod 32 = ?n div 64" using 2(2) by simp
    then have "ucast (0xC0 OR drop_bit 6 cp) = (ucast (0xC0 OR (drop_bit 6 c AND 0x1F)) :: u8)"
      "ucast (0x80 OR (cp AND 0x3F)) = (ucast (0x80 OR (c AND 0x3F)) :: u8)"
      unfolding word_eq_unat b(2)[OF 2(2)] b(6) unat_lead2 unat_cont by simp_all
    then show ?thesis using 2 room by (simp add: put_codepoint_def word_le_nat_alt c(2) e s)
  next
    case 3
    then have e: "utf8_encode c = [ucast (0xE0 OR (drop_bit 12 c AND 0x0F)),
        ucast (0x80 OR (drop_bit 6 c AND 0x3F)), ucast (0x80 OR (c AND 0x3F))]"
      using sv(2) by (auto simp: utf8_encode_def word_le_nat_alt)
    have "?n div 4096 mod 16 = ?n div 4096" using 3(2) by simp
    then have "ucast (0xE0 OR drop_bit 12 cp) = (ucast (0xE0 OR (drop_bit 12 c AND 0x0F)) :: u8)"
      "ucast (0x80 OR (drop_bit 6 cp AND 0x3F)) = (ucast (0x80 OR (drop_bit 6 c AND 0x3F)) :: u8)"
      "ucast (0x80 OR (cp AND 0x3F)) = (ucast (0x80 OR (c AND 0x3F)) :: u8)"
      unfolding word_eq_unat b(3)[OF 3(2)] b(5,6) unat_lead3 unat_cont unat_drop_bit_div by simp_all
    then show ?thesis using 3 room by (simp add: put_codepoint_def word_le_nat_alt c(2) e s)
  next
    case 4
    then have e: "utf8_encode c = [ucast (0xF0 OR (drop_bit 18 c AND 0x07)),
        ucast (0x80 OR (drop_bit 12 c AND 0x3F)), ucast (0x80 OR (drop_bit 6 c AND 0x3F)),
        ucast (0x80 OR (c AND 0x3F))]"
      using sv by (simp add: utf8_encode_def word_le_nat_alt)
    have "?n div 262144 mod 8 = ?n div 262144" using sv(1) by simp
    then have "ucast (0xF0 OR drop_bit 18 cp) = (ucast (0xF0 OR (drop_bit 18 c AND 0x07)) :: u8)"
      "ucast (0x80 OR (drop_bit 12 cp AND 0x3F)) = (ucast (0x80 OR (drop_bit 12 c AND 0x3F)) :: u8)"
      "ucast (0x80 OR (drop_bit 6 cp AND 0x3F)) = (ucast (0x80 OR (drop_bit 6 c AND 0x3F)) :: u8)"
      "ucast (0x80 OR (cp AND 0x3F)) = (ucast (0x80 OR (c AND 0x3F)) :: u8)"
      unfolding word_eq_unat b(4,5,6) unat_lead4 unat_cont unat_drop_bit_div by simp_all
    then show ?thesis using 4 sv(1) room by (simp add: put_codepoint_def word_le_nat_alt c(2) e s)
  qed
qed

section \<open>Well-formed character data\<close>

text \<open>Character data as XML writes it: plain bytes and references, with their source and value.\<close>

datatype text_item = Plain u8 | Lt | Gt | Amp | Apos | Quot | Dec bytes | Hex bytes

fun item_source :: "text_item \<Rightarrow> bytes" where
  "item_source (Plain b) = [b]"
| "item_source Lt = ascii ''&lt;''"
| "item_source Gt = ascii ''&gt;''"
| "item_source Amp = ascii ''&amp;''"
| "item_source Apos = ascii ''&apos;''"
| "item_source Quot = ascii ''&quot;''"
| "item_source (Dec ds) = [0x26, 0x23] @ ds @ [0x3B]"
| "item_source (Hex ds) = [0x26, 0x23, 0x78] @ ds @ [0x3B]"

fun item_value :: "text_item \<Rightarrow> bytes" where
  "item_value (Plain b) = [b]"
| "item_value Lt = [0x3C]"
| "item_value Gt = [0x3E]"
| "item_value Amp = [0x26]"
| "item_value Apos = [0x27]"
| "item_value Quot = [0x22]"
| "item_value (Dec ds) = utf8_encode (of_nat (digits_nat False 0 ds))"
| "item_value (Hex ds) = utf8_encode (of_nat (digits_nat True 0 ds))"

definition number_ok :: "bool \<Rightarrow> bytes \<Rightarrow> bool" where
  "number_ok is_hex ds \<longleftrightarrow> ds \<noteq> [] \<and> list_all (\<lambda>d. digit_value is_hex d \<noteq> None) ds
    \<and> digits_nat is_hex 0 ds \<le> 0x10FFFF
    \<and> \<not> (0xD800 \<le> digits_nat is_hex 0 ds \<and> digits_nat is_hex 0 ds \<le> 0xDFFF)"

fun item_ok :: "text_item \<Rightarrow> bool" where
  "item_ok (Plain b) = (b \<noteq> 0x26 \<and> b \<noteq> 0)"
| "item_ok (Dec ds) = number_ok False ds"
| "item_ok (Hex ds) = number_ok True ds"
| "item_ok _ = True"

lemma digit_not_special: "digit_value is_hex d \<noteq> None \<Longrightarrow> d \<noteq> 0x3B \<and> d \<noteq> 0 \<and> d \<noteq> 0x78 \<and> d \<noteq> 0x58"
  by (cases is_hex) (auto simp: digit_value_def Let_def lower_byte_def split: if_splits)

lemma number_ok_scalar:
  assumes "number_ok is_hex ds"
  shows "scalar_value (of_nat (digits_nat is_hex 0 ds))"
    "unat (of_nat (digits_nat is_hex 0 ds) :: u32) = digits_nat is_hex 0 ds"
    "unat (of_nat (digits_nat is_hex 0 ds) :: u64) = digits_nat is_hex 0 ds"
  using assms by (auto simp: number_ok_def scalar_value_def word_le_nat_alt unsigned_of_nat take_bit_eq_mod)

text \<open>A reference never decodes to more bytes than it takes.\<close>

lemma length_number_value:
  assumes "number_ok is_hex ds"
  shows "length (utf8_encode (of_nat (digits_nat is_hex 0 ds))) \<le> length ds + 1"
proof -
  let ?n = "digits_nat is_hex 0 ds"
  have u: "unat (of_nat ?n :: u32) = ?n" using number_ok_scalar[OF assms] by simp
  have b: "?n < 16 ^ length ds" using digits_nat_bound[of is_hex 0 ds] by simp
  have big: "k \<le> length ds" if "16 ^ (k - 1) \<le> ?n" "0 < k" for k
  proof (rule ccontr)
    assume "\<not> k \<le> length ds"
    then have "(16::nat) ^ length ds \<le> 16 ^ (k - 1)" by (intro power_increasing) auto
    with that(1) b show False by (meson leD le_trans)
  qed
  have "length ds \<ge> 2" if "0x7F < ?n" using big[of 2] that by simp
  moreover have "length ds \<ge> 3" if "0x7FF < ?n" using big[of 3] that by simp
  ultimately show ?thesis
    using assms by (auto simp: utf8_encode_def word_le_nat_alt u number_ok_def)
qed

lemma step_predefined:
  assumes "length out + 1 < outlen"
  shows "decode_loop strict outlen (ascii ''&lt;'' @ r) out e = decode_loop strict outlen r (out @ [0x3C]) e"
    "decode_loop strict outlen (ascii ''&gt;'' @ r) out e = decode_loop strict outlen r (out @ [0x3E]) e"
    "decode_loop strict outlen (ascii ''&amp;'' @ r) out e = decode_loop strict outlen r (out @ [0x26]) e"
    "decode_loop strict outlen (ascii ''&apos;'' @ r) out e = decode_loop strict outlen r (out @ [0x27]) e"
    "decode_loop strict outlen (ascii ''&quot;'' @ r) out e = decode_loop strict outlen r (out @ [0x22]) e"
proof -
  have "length out < size_sub outlen 1" using assms by (simp add: size_sub_def)
  then show "decode_loop strict outlen (ascii ''&lt;'' @ r) out e = decode_loop strict outlen r (out @ [0x3C]) e"
    "decode_loop strict outlen (ascii ''&gt;'' @ r) out e = decode_loop strict outlen r (out @ [0x3E]) e"
    "decode_loop strict outlen (ascii ''&amp;'' @ r) out e = decode_loop strict outlen r (out @ [0x26]) e"
    "decode_loop strict outlen (ascii ''&apos;'' @ r) out e = decode_loop strict outlen r (out @ [0x27]) e"
    "decode_loop strict outlen (ascii ''&quot;'' @ r) out e = decode_loop strict outlen r (out @ [0x22]) e"
    by (simp_all add: ascii_def decode_loop.simps(2) predefined_entity_def put_byte_def)
qed

lemma step_number:
  assumes ok: "number_ok is_hex ds" and room: "length out + length ds + 1 < outlen"
  shows "decode_loop strict outlen ((if is_hex then [0x26, 0x23, 0x78] else [0x26, 0x23]) @ ds @ 0x3B # r) out e =
    decode_loop strict outlen r (out @ utf8_encode (of_nat (digits_nat is_hex 0 ds))) e"
proof -
  let ?n = "digits_nat is_hex 0 ds"
  have ds: "\<forall>d \<in> set ds. digit_value is_hex d \<noteq> None \<and> d \<noteq> 0x3B" "ds \<noteq> []"
    using ok digit_not_special[of is_hex] unfolding number_ok_def list_all_iff by blast+
  obtain d ds' where dd: "ds = d # ds'" using ds(2) by (cases ds) auto
  have hd: "d \<noteq> 0x78" "d \<noteq> 0x58" using ok digit_not_special[of is_hex d] by (auto simp: number_ok_def dd)
  have pr: "parse_reference ((if is_hex then 0x78 # ds else ds) @ 0x3B # r) =
      (0x3B # r, of_nat ?n, length ds, False)"
    using parse_number_digits[OF ds(1), of r 0 0] hd
    by (cases is_hex) (simp_all add: parse_reference_def Let_def dd del: parse_number.simps)
  have pre: "predefined_entity (0x23 # t) = None" for t
    by (simp add: predefined_entity_def ascii_def)
  have "put_codepoint outlen out (of_nat ?n) = out @ utf8_encode (of_nat ?n)"
    using number_ok_scalar[OF ok] length_number_value[OF ok] room
    by (intro put_codepoint_encodes) simp_all
  then show ?thesis
    using pr ds(2) by (cases is_hex) (simp_all add: decode_loop.simps(2) pre Let_def)
qed

lemma decode_loop_items:
  assumes "list_all item_ok items" "length out + length (concat (map item_source items)) < outlen"
  shows "decode_loop strict outlen (concat (map item_source items)) out e =
    (out @ concat (map item_value items), e)"
  using assms
proof (induction items arbitrary: out)
  case Nil
  then show ?case by simp
next
  case (Cons i items)
  let ?r = "concat (map item_source items)"
  have ih: "decode_loop strict outlen ?r o' e = (o' @ concat (map item_value items), e)"
    if "length o' + length ?r < outlen" for o'
    using Cons.IH[of o'] Cons.prems that by simp
  show ?case
  proof (cases i)
    case (Plain b)
    then show ?thesis
      using Cons.prems ih[of "out @ [b]"] by (simp add: decode_loop.simps(2) size_sub_def)
  next
    case (Dec ds)
    have ok: "number_ok False ds" using Cons.prems Dec by simp
    show ?thesis
      using step_number[OF ok, of out outlen strict ?r e] Cons.prems Dec length_number_value[OF ok]
        ih[of "out @ utf8_encode (of_nat (digits_nat False 0 ds))"]
      by simp
  next
    case (Hex ds)
    have ok: "number_ok True ds" using Cons.prems Hex by simp
    show ?thesis
      using step_number[OF ok, of out outlen strict ?r e] Cons.prems Hex length_number_value[OF ok]
        ih[of "out @ utf8_encode (of_nat (digits_nat True 0 ds))"]
      by simp
  qed (use Cons.prems ih step_predefined[of out outlen strict ?r e] in \<open>simp_all add: ascii_def\<close>)
qed

section \<open>Bounds and errors\<close>

lemma put_byte_bounded: "1 \<le> outlen \<Longrightarrow> length out < outlen \<Longrightarrow> length (put_byte outlen out b) < outlen"
  by (auto simp: put_byte_def size_sub_def)

lemma put_codepoint_bounded:
  "4 \<le> outlen \<Longrightarrow> length out < outlen \<Longrightarrow> length (put_codepoint outlen out cp) < outlen"
  by (auto simp: put_codepoint_def size_sub_def)

lemma copy_name_bounded:
  "copy_name outlen p out = (rest, out') \<Longrightarrow> 1 \<le> outlen \<Longrightarrow> length out < outlen \<Longrightarrow> length out' < outlen"
  by (induction outlen p out rule: copy_name.induct) (auto simp: size_sub_def split: if_splits)

lemma decode_loop_bounded:
  "4 \<le> outlen \<Longrightarrow> length out < outlen \<Longrightarrow> length (fst (decode_loop strict outlen inp out e)) < outlen"
proof (induction strict outlen inp out e rule: decode_loop.induct)
  case (2 strict outlen c p out e)
  note pb = put_byte_bounded[of outlen out] put_codepoint_bounded[of outlen out]
    copy_name_bounded[of outlen p "put_byte outlen out 0x26"]
  show ?case
  proof (cases "c = 0x26")
    case amp: True
    show ?thesis
    proof (cases "predefined_entity p")
      case None
      show ?thesis
      proof (cases "p \<noteq> [] \<and> hd p = 0x23")
        case num: True
        obtain rest cp d bad where pr: "parse_reference (tl p) = (rest, cp, d, bad)"
          by (metis prod_cases4)
        show ?thesis
          using 2(1,2)[OF amp None num pr[symmetric] refl refl refl] "2.prems" pb
          by (simp add: decode_loop.simps(2) amp None num pr Let_def)
      next
        case False
        obtain rest out' where cn: "copy_name outlen p (put_byte outlen out 0x26) = (rest, out')"
          by (cases "copy_name outlen p (put_byte outlen out 0x26)")
        show ?thesis
          using 2(3)[OF amp None False _ cn[symmetric]] "2.prems" pb cn
          by (auto simp: decode_loop.simps(2) amp None False)
      qed
    next
      case (Some bn)
      obtain b n where bn: "bn = (b, n)" by (cases bn)
      show ?thesis
        using 2(4)[OF amp Some bn[symmetric]] "2.prems" pb by (simp add: decode_loop.simps(2) amp Some bn)
    qed
  next
    case False
    then show ?thesis
      using 2(5)[OF False] "2.prems" by (auto simp: decode_loop.simps(2) size_sub_def)
  qed
qed simp


lemma decode_loop_error_sticks: "snd (decode_loop strict outlen inp out True)"
proof (induction strict outlen inp out "True" rule: decode_loop.induct)
  case (2 strict outlen c p out)
  show ?case
    using 2 by (subst decode_loop.simps(2)) (auto simp: Let_def split: prod.splits option.splits)
qed simp

lemma cstr_append: "0 \<notin> set xs \<Longrightarrow> cstr (xs @ ys) = xs @ cstr ys"
  by (induction xs) (auto simp: cstr_def)

lemma item_source_no_nul: "item_ok i \<Longrightarrow> 0 \<notin> set (item_source i)"
proof (cases i)
  case (Dec ds)
  then show "item_ok i \<Longrightarrow> 0 \<notin> set (item_source i)"
    using digit_not_special[of False 0] by (auto simp: number_ok_def list_all_iff)
next
  case (Hex ds)
  then show "item_ok i \<Longrightarrow> 0 \<notin> set (item_source i)"
    using digit_not_special[of True 0] by (auto simp: number_ok_def list_all_iff)
qed (auto simp: ascii_def)

lemma items_no_nul: "list_all item_ok items \<Longrightarrow> 0 \<notin> set (concat (map item_source items))"
  using item_source_no_nul by (induction items) auto

lemma item_value_nonempty: "item_value i \<noteq> []"
  by (cases i) (auto simp: utf8_encode_def)

section \<open>Properties\<close>

text \<open>
  C12. Well-formed character data (plain bytes, the five predefined entities, decimal and hexadecimal
  references to Unicode scalar values) decodes to its value in strict and in lenient mode: no
  character is lost to the size of the output buffer, which is that of the input.
\<close>
theorem decode_well_formed:
  assumes "list_all item_ok items"
  shows "leptris_decode_entities (\<lambda>_. True) strict (concat (map item_source items)) =
    (if items = [] then None else Some (concat (map item_value items)))"
proof -
  let ?s = "concat (map item_source items)" and ?v = "concat (map item_value items)"
  have c: "cstr ?s = ?s" using items_no_nul[OF assms] by (rule cstr_id)
  have "decode_loop strict (length ?s + 1) ?s [] False = ([] @ ?v, False)"
    using assms by (rule decode_loop_items) simp
  then have d: "decode_entity strict ?s (length ?s + 1) = (?v, length ?v)"
    by (simp add: decode_entity_def c)
  have "items = [] \<longleftrightarrow> ?v = []" using item_value_nonempty by (cases items) auto
  then show ?thesis unfolding leptris_decode_entities_def c Let_def d by auto
qed

theorem decode_well_formed_witness:
  "leptris_decode_entities (\<lambda>_. True) True (ascii ''a&lt;&#xE9;'') = Some [0x61, 0x3C, 0xC3, 0xA9]"
proof -
  have s: "concat (map item_source [Plain 0x61, Lt, Hex [0x45, 0x39]]) = ascii ''a&lt;&#xE9;''"
    by (simp add: ascii_def)
  have n: "digits_nat True 0 [0x45, 0x39] = 233"
    by (simp add: digits_nat_def digit_nat_def digit_value_def lower_byte_def)
  have v: "concat (map item_value [Plain 0x61, Lt, Hex [0x45, 0x39]]) = [0x61, 0x3C, 0xC3, 0xA9]"
    by (simp add: n utf8_encode_def)
  have "number_ok True [0x45, 0x39]" by (simp add: number_ok_def n digit_value_def lower_byte_def)
  then have "list_all item_ok [Plain 0x61, Lt, Hex [0x45, 0x39]]" by simp
  from decode_well_formed[OF this] show ?thesis unfolding s v by simp
qed

text \<open>
  With an output buffer of at least four bytes the decoder, on any input, leaves room for the
  terminating NUL; with a smaller one the subtractions of its guards wrap around, and a single
  reference is written past the end.
\<close>
theorem decode_bounds:
  assumes "4 \<le> outlen" and "0 < small" "small < 4"
  shows "length (fst (decode_entity strict input outlen)) < outlen
    \<and> small < length (fst (decode_entity strict (ascii ''&#x10FFFF;'') small))"
proof
  show "length (fst (decode_entity strict input outlen)) < outlen"
    using decode_loop_bounded[of outlen "[]" strict "cstr input" False] assms(1)
    by (simp add: decode_entity_def split_def)
  have c: "cstr (ascii ''&#x10FFFF;'') = ascii ''&#x10FFFF;''" by (simp add: cstr_def ascii_def)
  have r: "parse_reference (tl (ascii ''#x10FFFF;'')) = ([0x3B], 0x10FFFF, 6, False)"
    by (simp add: parse_reference_def ascii_def digit_value_def lower_byte_def)
  have pr: "predefined_entity (ascii ''#x10FFFF;'') = None" by code_simp
  have a: "ascii ''&#x10FFFF;'' = 0x26 # ascii ''#x10FFFF;''" "ascii ''#x10FFFF;'' \<noteq> []" "hd (ascii ''#x10FFFF;'') = 0x23"
    by (simp_all add: ascii_def)
  have sz: "0 < size_sub small 4" using assms(2,3) by (simp add: size_sub_def)
  have "decode_loop strict small (ascii ''&#x10FFFF;'') [] False =
      (put_codepoint small [] 0x10FFFF, False)"
    unfolding a(1) by (subst decode_loop.simps(2)) (simp add: pr a(2,3) r)
  then have "fst (decode_entity strict (ascii ''&#x10FFFF;'') small) = put_codepoint small [] 0x10FFFF"
    using assms(2) by (simp add: decode_entity_def c)
  moreover have "length (put_codepoint small [] 0x10FFFF) = 4" using sz by (simp add: put_codepoint_def)
  ultimately show "small < length (fst (decode_entity strict (ascii ''&#x10FFFF;'') small))"
    using assms(3) by simp
qed

theorem decode_bounds_witness:
  "length (fst (decode_entity False (ascii ''&bogus'') 4)) < 4 \<and>
    2 < length (fst (decode_entity False (ascii ''&#x10FFFF;'') 2))"
  by (rule decode_bounds) simp_all

text \<open>
  Character references are taken modulo 2^64: a decimal reference whose number is a multiple of
  2^64 above an ASCII character decodes to that character, in strict mode too, although it names no
  code point.
\<close>
theorem reference_wraps_around:
  assumes "ds \<noteq> []" "list_all (\<lambda>d. digit_value False d \<noteq> None) ds"
    and "digits_nat False 0 ds = k * 2 ^ 64 + v" "v < 128"
  shows "decode_entity strict ([0x26, 0x23] @ ds @ [0x3B]) (length ds + 4) = ([of_nat v], 1)"
proof -
  let ?s = "[0x26, 0x23] @ ds @ [0x3B]"
  have ds: "\<forall>d \<in> set ds. digit_value False d \<noteq> None \<and> d \<noteq> 0x3B" "0 \<notin> set ds"
    using assms(2) digit_not_special[of False] unfolding list_all_iff by blast+
  have c: "cstr ?s = ?s" using ds(2) by (intro cstr_id) auto
  have w: "(of_nat (k * 2 ^ 64 + v) :: u64) = of_nat v"
    by (simp only: word_eq_unat unsigned_of_nat take_bit_eq_mod) simp
  obtain d ds' where dd: "ds = d # ds'" using assms(1) by (cases ds) auto
  have hd: "d \<noteq> 0x78" "d \<noteq> 0x58" using assms(2) digit_not_special[of False d] by (auto simp: dd)
  have pr: "parse_reference (ds @ [0x3B]) = ([0x3B], of_nat v, length ds, False)"
    using parse_number_digits[OF ds(1), of "[]" 0 0] hd assms(3) w
    by (simp add: parse_reference_def Let_def dd del: parse_number.simps)
  have pre: "predefined_entity (0x23 # t) = None" for t by (simp add: predefined_entity_def ascii_def)
  have u: "unat (of_nat v :: u64) = v" using assms(4) by (simp add: unsigned_of_nat take_bit_eq_mod)
  have "put_codepoint (length ds + 4) [] (of_nat v) = [of_nat v]"
  proof -
    have "(ucast (of_nat v :: u64) :: u8) = of_nat v"
      using assms(4) u by (simp add: word_eq_unat word_arith unsigned_of_nat take_bit_eq_mod)
    then show ?thesis using assms(4) u by (simp add: put_codepoint_def word_le_nat_alt size_sub_def)
  qed
  then have "decode_loop strict (length ds + 4) ?s [] False = ([of_nat v], False)"
    using assms(1) pr by (simp add: decode_loop.simps(2) pre Let_def)
  then show ?thesis unfolding decode_entity_def c by simp
qed

theorem reference_wraps_around_witness:
  "decode_entity True ([0x26, 0x23] @ ascii ''18446744073709551681'' @ [0x3B])
     (length (ascii ''18446744073709551681'') + 4) = ([0x41], 1)"
proof -
  have "digits_nat False 0 (ascii ''18446744073709551681'') = 18446744073709551681"
    by (simp add: digits_nat_def ascii_def digit_nat_def digit_value_def)
  then have "digits_nat False 0 (ascii ''18446744073709551681'') = 1 * 2 ^ 64 + 65" by simp
  moreover have "ascii ''18446744073709551681'' \<noteq> []"
    "list_all (\<lambda>d. digit_value False d \<noteq> None) (ascii ''18446744073709551681'')"
    by code_simp+
  ultimately show ?thesis using reference_wraps_around[where v = 65 and k = 1] by simp
qed

text \<open>
  In lenient mode a reference to an unknown entity is copied without its semicolon, so the
  output is not the literal text of the reference; in strict mode it is an error.
\<close>
theorem unknown_entity_loses_semicolon:
  assumes "name \<noteq> []" "hd name \<noteq> 0x23" "predefined_entity (name @ [0x3B]) = None"
    and "list_all (\<lambda>c. c \<noteq> 0x3B \<and> \<not> c_isspace c \<and> c \<noteq> 0x3C \<and> c \<noteq> 0) name"
  shows "decode_entity False ([0x26] @ name @ [0x3B]) (length name + 3) = ([0x26] @ name, length name + 1)
    \<and> snd (decode_entity True ([0x26] @ name @ [0x3B]) (length name + 3)) = 0"
proof -
  let ?s = "[0x26] @ name @ [0x3B]"
  have "0 \<notin> set name" using assms(4) by (auto simp: list_all_iff)
  then have c: "cstr ?s = ?s" by (intro cstr_id) auto
  have copy: "copy_name n (xs @ [0x3B]) out = ([], out @ xs)"
    if "list_all (\<lambda>c. c \<noteq> 0x3B \<and> \<not> c_isspace c \<and> c \<noteq> 0x3C \<and> c \<noteq> 0) xs" "length out + length xs < n"
    for n xs out
    using that by (induction xs arbitrary: out) (auto simp: size_sub_def)
  have "copy_name (length name + 3) (name @ [0x3B]) [0x26] = ([], [0x26] @ name)"
    using assms(4) by (rule copy) simp
  then have "decode_loop False (length name + 3) ?s [] False = ([0x26] @ name, False)"
    using assms(1-3) by (simp add: decode_loop.simps(2) put_byte_def size_sub_def)
  moreover have "decode_loop True (length name + 3) ?s [] False = ([], True)"
    using assms(1-3) by (simp add: decode_loop.simps(2))
  ultimately show ?thesis unfolding decode_entity_def c by simp
qed

theorem unknown_entity_loses_semicolon_witness:
  "decode_entity False ([0x26] @ ascii ''copy'' @ [0x3B]) (length (ascii ''copy'') + 3)
    = ([0x26] @ ascii ''copy'', length (ascii ''copy'') + 1)"
proof -
  have "ascii ''copy'' \<noteq> []" "hd (ascii ''copy'') \<noteq> 0x23" "predefined_entity (ascii ''copy'' @ [0x3B]) = None"
    "list_all (\<lambda>c. c \<noteq> 0x3B \<and> \<not> c_isspace c \<and> c \<noteq> 0x3C \<and> c \<noteq> 0) (ascii ''copy'')"
    by code_simp+
  from unknown_entity_loses_semicolon[OF this] show ?thesis by (rule conjunct1)
qed

text \<open>
  Lenient mode accepts a decimal reference without its semicolon only at the end of the string:
  any other character after the digits makes the whole decoding an error, as in strict mode.
\<close>
theorem lenient_semicolon_only_at_end:
  assumes "ds \<noteq> []" "list_all (\<lambda>d. digit_value False d \<noteq> None) ds"
    and "digit_value False c = None" "c \<noteq> 0x3B" "c \<noteq> 0" "c \<noteq> 0x78" "c \<noteq> 0x58"
  shows "snd (decode_entity strict ([0x26, 0x23] @ ds @ c # rest) outlen) = 0"
proof -
  have ds: "\<forall>d \<in> set ds. digit_value False d \<noteq> None \<and> d \<noteq> 0x3B" "0 \<notin> set ds"
    using assms(2) digit_not_special[of False] unfolding list_all_iff by blast+
  have cs: "cstr ([0x26, 0x23] @ ds @ c # rest) = [0x26, 0x23] @ ds @ c # cstr rest"
    using cstr_append[of "[0x26, 0x23] @ ds" "c # rest"] ds(2) assms(5) by (simp add: cstr_def)
  have pn: "\<exists>cp'. parse_number False (xs @ c # r) cp k = (c # r, cp', k + length xs, True)"
    if "\<forall>d \<in> set xs. digit_value False d \<noteq> None \<and> d \<noteq> 0x3B" for xs r cp k
    using that
  proof (induction xs arbitrary: cp k)
    case (Cons a xs)
    then obtain v where v: "digit_value False a = Some v" "a \<noteq> 0x3B" by auto
    from Cons.IH[of "cp * 10 + v" "k + 1"] Cons.prems v show ?case by simp
  qed (use assms(3,4) in simp)
  obtain d ds' where dd: "ds = d # ds'" using assms(1) by (cases ds) auto
  have hd: "d \<noteq> 0x78" "d \<noteq> 0x58" using assms(2) digit_not_special[of False d] by (auto simp: dd)
  obtain cp' where pr: "parse_reference (ds @ c # cstr rest) = (c # cstr rest, cp', length ds, True)"
    using pn[OF ds(1), of "cstr rest" 0 0] hd
    by (auto simp: parse_reference_def Let_def dd simp del: parse_number.simps)
  have pre: "predefined_entity (0x23 # t) = None" for t by (simp add: predefined_entity_def ascii_def)
  have "decode_loop strict outlen (0x26 # 0x23 # ds @ c # cstr rest) [] False =
      (if strict then ([], True)
       else decode_loop strict outlen (c # cstr rest) (put_codepoint outlen [] cp') True)"
    using assms(1,4) pr by (subst decode_loop.simps(2)) (simp add: pre Let_def)
  then have "snd (decode_loop strict outlen ([0x26, 0x23] @ ds @ c # cstr rest) [] False)"
    using decode_loop_error_sticks by simp
  then show ?thesis unfolding decode_entity_def cs by (simp add: split_def)
qed

theorem lenient_semicolon_only_at_end_witness:
  "snd (decode_entity False ([0x26, 0x23] @ ascii ''65'' @ 0x20 # ascii ''ok'') 100) = 0"
proof -
  have "ascii ''65'' \<noteq> []" "list_all (\<lambda>d. digit_value False d \<noteq> None) (ascii ''65'')"
    "digit_value False 0x20 = None"
    by code_simp+
  from lenient_semicolon_only_at_end[OF this] show ?thesis by simp
qed

end
