(* ===== verification/Compact.thy ===== *)
theory Compact
  imports Prelude "HOL-Library.Multiset"
begin

text \<open>
  Compressed tree edges (\<open>dom/compact.c\<close>): a node stores an edge as a signed offset from its own
  address, and an edge that does not fit goes into the thread's overflow table, keyed by the address
  of the field. Addresses are 64-bit words, NULL is 0. The table's buckets are the lists of their
  chains; an entry is known by its place in the slabs (\<open>eid\<close>, what a pointer to it denotes). The
  chain of entries hanging off a document is a list of such places. \<open>alloc_ok n\<close> says whether an
  allocation of \<open>n\<close> cells succeeds.
\<close>

type_synonym addr = u64

record overflow_entry =
  eid :: nat
  ekey :: addr
  evalue :: addr
  edoc :: addr

record overflow_table =
  buckets :: "overflow_entry list list"
  entry_count :: nat
  slab_count :: nat
  slab_capacity :: nat
  slab_remaining :: nat

definition bucket_count :: "overflow_table \<Rightarrow> nat" where
  "bucket_count t = length (buckets t)"

record compact_state =
  table :: "overflow_table option"
  doc_chain :: "addr \<Rightarrow> nat list"
  current_doc :: addr

section \<open>The overflow table\<close>

definition hash_pointer :: "addr \<Rightarrow> nat \<Rightarrow> nat" where
  "hash_pointer key nb_count = unat (drop_bit 32 (key * 0x9E3779B97F4A7C15) AND of_nat (nb_count - 1))"

definition round_up_buckets :: "u64 \<Rightarrow> u64" where
  "round_up_buckets n =
    (if n AND (n - 1) \<noteq> 0 then
       (let n = n - 1; n = n OR drop_bit 1 n; n = n OR drop_bit 2 n; n = n OR drop_bit 4 n;
            n = n OR drop_bit 8 n; n = n OR drop_bit 16 n in n + 1)
     else n)"

definition leptris_compact_overflow_table_create :: "(nat \<Rightarrow> bool) \<Rightarrow> u64 \<Rightarrow> overflow_table option" where
  "leptris_compact_overflow_table_create alloc_ok n =
    (let nb_count = unat (round_up_buckets n) in
     if \<not> alloc_ok 1 \<or> \<not> alloc_ok nb_count then None
     else Some \<lparr>buckets = replicate nb_count [], entry_count = 0, slab_count = 0, slab_capacity = 0,
                slab_remaining = 0\<rparr>)"

definition OVERFLOW_SLAB_ENTRIES :: nat where
  "OVERFLOW_SLAB_ENTRIES = 256"

text \<open>Carving an entry: the table after it, and the place, or \<open>None\<close> for a failed allocation.\<close>

definition carve :: "overflow_table \<Rightarrow> overflow_table \<times> nat option" where
  "carve t =
    (t\<lparr>slab_remaining := slab_remaining t - 1\<rparr>,
     Some ((slab_count t - 1) * OVERFLOW_SLAB_ENTRIES + (OVERFLOW_SLAB_ENTRIES - slab_remaining t)))"

definition overflow_entry_alloc :: "(nat \<Rightarrow> bool) \<Rightarrow> overflow_table \<Rightarrow> overflow_table \<times> nat option" where
  "overflow_entry_alloc alloc_ok t =
    (if slab_remaining t = 0 then
       (let new_cap = (if slab_capacity t \<noteq> 0 then slab_capacity t * 2 else 4);
            full = (slab_count t = slab_capacity t) in
        if full \<and> \<not> alloc_ok new_cap then (t, None)
        else let t = (if full then t\<lparr>slab_capacity := new_cap\<rparr> else t) in
          if \<not> alloc_ok OVERFLOW_SLAB_ENTRIES then (t, None)
          else carve (t\<lparr>slab_count := slab_count t + 1, slab_remaining := OVERFLOW_SLAB_ENTRIES\<rparr>))
     else carve t)"

text \<open>Growing: the old chains in order, every entry pushed on the front of its new chain.\<close>

definition rehash_entry :: "nat \<Rightarrow> overflow_entry list list \<Rightarrow> overflow_entry \<Rightarrow> overflow_entry list list" where
  "rehash_entry nb_count nb e = (let idx = hash_pointer (ekey e) nb_count in nb[idx := e # nb ! idx])"

definition overflow_table_grow :: "(nat \<Rightarrow> bool) \<Rightarrow> overflow_table \<Rightarrow> overflow_table" where
  "overflow_table_grow alloc_ok t =
    (let new_count = bucket_count t * 2 in
     if \<not> alloc_ok new_count then t
     else t\<lparr>buckets := foldl (rehash_entry new_count) (replicate new_count []) (concat (buckets t))\<rparr>)"

text \<open>The first entry of a chain with the key gets the new value and owner.\<close>

fun chain_replace :: "addr \<Rightarrow> addr \<Rightarrow> addr \<Rightarrow> overflow_entry list \<Rightarrow> overflow_entry list option" where
  "chain_replace key val doc [] = None"
| "chain_replace key val doc (e # es) =
    (if ekey e = key then Some (e\<lparr>evalue := val, edoc := doc\<rparr> # es)
     else (case chain_replace key val doc es of None \<Rightarrow> None | Some es' \<Rightarrow> Some (e # es')))"

text \<open>\<open>leptris_compact_overflow_set\<close>: the table, the document chains and the returned status.\<close>

definition leptris_compact_overflow_set ::
  "(nat \<Rightarrow> bool) \<Rightarrow> overflow_table \<Rightarrow> (addr \<Rightarrow> nat list) \<Rightarrow> addr \<Rightarrow> addr \<Rightarrow> addr \<Rightarrow>
    overflow_table \<times> (addr \<Rightarrow> nat list) \<times> int" where
  "leptris_compact_overflow_set alloc_ok t dchain key val doc =
    (if key = 0 then (t, dchain, -1)
     else let index = hash_pointer key (bucket_count t) in
       (case chain_replace key val doc (buckets t ! index) of
          Some chain \<Rightarrow> (t\<lparr>buckets := (buckets t)[index := chain]\<rparr>, dchain, 0)
        | None \<Rightarrow>
            (case overflow_entry_alloc alloc_ok t of
               (t, None) \<Rightarrow> (t, dchain, -1)
             | (t, Some i) \<Rightarrow>
                 let e = \<lparr>eid = i, ekey = key, evalue = val, edoc = doc\<rparr>;
                     t = t\<lparr>buckets := (buckets t)[index := e # buckets t ! index],
                            entry_count := entry_count t + 1\<rparr>;
                     dchain = (if doc \<noteq> 0 then dchain(doc := i # dchain doc) else dchain);
                     t = (if entry_count t \<ge> bucket_count t then overflow_table_grow alloc_ok t else t) in
                 (t, dchain, 0))))"

definition leptris_compact_overflow_get :: "overflow_table \<Rightarrow> addr \<Rightarrow> addr" where
  "leptris_compact_overflow_get t key =
    (if key = 0 then 0
     else case find (\<lambda>e. ekey e = key) (buckets t ! hash_pointer key (bucket_count t)) of
       Some e \<Rightarrow> evalue e
     | None \<Rightarrow> 0)"

section \<open>The thread's table\<close>

text \<open>The table is created on first use.\<close>

definition get_overflow_table :: "(nat \<Rightarrow> bool) \<Rightarrow> compact_state \<Rightarrow> compact_state" where
  "get_overflow_table alloc_ok st =
    (case table st of
       None \<Rightarrow> st\<lparr>table := leptris_compact_overflow_table_create alloc_ok 256\<rparr>
     | Some t \<Rightarrow> st)"

definition overflow_lookup :: "(nat \<Rightarrow> bool) \<Rightarrow> compact_state \<Rightarrow> addr \<Rightarrow> compact_state \<times> addr" where
  "overflow_lookup alloc_ok st field =
    (let st = get_overflow_table alloc_ok st in
     (st, case table st of None \<Rightarrow> 0 | Some t \<Rightarrow> leptris_compact_overflow_get t field))"

definition overflow_register ::
  "(nat \<Rightarrow> bool) \<Rightarrow> compact_state \<Rightarrow> addr \<Rightarrow> addr \<Rightarrow> addr \<Rightarrow> compact_state \<times> bool" where
  "overflow_register alloc_ok st field target doc =
    (let st = get_overflow_table alloc_ok st in
     case table st of
       None \<Rightarrow> (st, False)
     | Some t \<Rightarrow>
         (case leptris_compact_overflow_set alloc_ok t (doc_chain st) field target doc of
            (t', dchain, r) \<Rightarrow> (st\<lparr>table := Some t', doc_chain := dchain\<rparr>, r = 0)))"

definition leptris_compact_cleanup :: "compact_state \<Rightarrow> compact_state" where
  "leptris_compact_cleanup st = st\<lparr>table := None\<rparr>"

definition leptris_compact_set_current_document :: "addr \<Rightarrow> compact_state \<Rightarrow> compact_state" where
  "leptris_compact_set_current_document doc st = st\<lparr>current_doc := doc\<rparr>"

text \<open>
  Tearing a document down walks its chain: an entry that still belongs to the document is unlinked
  from its bucket. The last entry to go takes the table with it. A place on the chain is looked at
  through the table, where every carved entry that is not unlinked yet can be found.
\<close>

definition entry_at :: "overflow_table \<Rightarrow> nat \<Rightarrow> overflow_entry option" where
  "entry_at t i = find (\<lambda>e. eid e = i) (concat (buckets t))"

definition unlink :: "addr \<Rightarrow> nat \<Rightarrow> overflow_table \<times> nat \<Rightarrow> overflow_table \<times> nat" where
  "unlink doc i tr =
    (case tr of (t, removed) \<Rightarrow>
       (case entry_at t i of
          None \<Rightarrow> (t, removed)
        | Some e \<Rightarrow>
            if edoc e = doc then
              (let index = hash_pointer (ekey e) (bucket_count t) in
               if \<exists>x \<in> set (buckets t ! index). eid x = i
               then (t\<lparr>buckets := (buckets t)[index := filter (\<lambda>x. eid x \<noteq> i) (buckets t ! index)]\<rparr>,
                     removed + 1)
               else (t, removed))
            else (t, removed)))"

definition leptris_compact_cleanup_document :: "addr \<Rightarrow> compact_state \<Rightarrow> compact_state" where
  "leptris_compact_cleanup_document doc st =
    (if doc = 0 then st
     else case table st of
       None \<Rightarrow> st
     | Some t \<Rightarrow>
         (case fold (unlink doc) (doc_chain st doc) (t, 0) of
            (t', removed) \<Rightarrow>
              let t' = t'\<lparr>entry_count := entry_count t' - removed\<rparr> in
              st\<lparr>doc_chain := (doc_chain st)(doc := []),
                 table := (if entry_count t' = 0 then None else Some t')\<rparr>))"

section \<open>Edges\<close>

definition INT32_MIN :: int where "INT32_MIN = - (2 ^ 31)"
definition INT32_MAX :: int where "INT32_MAX = 2 ^ 31 - 1"

definition LEPTRIS_INT32_OVERFLOW_SENTINEL :: "32 word" where
  "LEPTRIS_INT32_OVERFLOW_SENTINEL = of_int INT32_MIN"

definition LEPTRIS_COMPACT_INT32_EMPTY :: "32 word" where
  "LEPTRIS_COMPACT_INT32_EMPTY = 2147483647"

text \<open>The distance of two addresses, as \<open>ptrdiff_t\<close>.\<close>

definition ptrdiff :: "addr \<Rightarrow> addr \<Rightarrow> int" where
  "ptrdiff target base = sint (target - base)"

definition spill ::
  "(nat \<Rightarrow> bool) \<Rightarrow> compact_state \<Rightarrow> addr \<Rightarrow> addr \<Rightarrow> addr \<Rightarrow> 'a::len word \<Rightarrow> compact_state \<times> 'a word" where
  "spill alloc_ok st field target doc sentinel =
    (case overflow_register alloc_ok st field target doc of
       (st', ok) \<Rightarrow> (st', if ok then sentinel else 0))"

definition leptris_compact_int32_encode ::
  "(nat \<Rightarrow> bool) \<Rightarrow> compact_state \<Rightarrow> addr \<Rightarrow> addr \<Rightarrow> addr \<Rightarrow> compact_state \<times> 32 word" where
  "leptris_compact_int32_encode alloc_ok st base target field =
    (if target = 0 then (st, 0)
     else let d = ptrdiff target base in
       if d < INT32_MIN \<or> d \<ge> INT32_MAX
       then spill alloc_ok st field target (current_doc st) LEPTRIS_INT32_OVERFLOW_SENTINEL
       else (st, of_int d))"

definition leptris_compact_int32_encode_doc ::
  "(nat \<Rightarrow> bool) \<Rightarrow> compact_state \<Rightarrow> addr \<Rightarrow> addr \<Rightarrow> addr \<Rightarrow> addr \<Rightarrow> compact_state \<times> 32 word" where
  "leptris_compact_int32_encode_doc alloc_ok st base target field doc =
    (if target = 0 then (st, 0)
     else let d = ptrdiff target base in
       if d < INT32_MIN \<or> d > INT32_MAX
       then spill alloc_ok st field target doc LEPTRIS_INT32_OVERFLOW_SENTINEL
       else (st, of_int d))"

definition leptris_compact_int32_decode ::
  "(nat \<Rightarrow> bool) \<Rightarrow> compact_state \<Rightarrow> addr \<Rightarrow> 32 word \<Rightarrow> addr \<Rightarrow> compact_state \<times> addr" where
  "leptris_compact_int32_decode alloc_ok st base off field =
    (if off = 0 then (st, 0)
     else if off = LEPTRIS_INT32_OVERFLOW_SENTINEL then overflow_lookup alloc_ok st field
     else (st, base + of_int (sint off)))"

text \<open>
  The one- and two-byte edges: offsets in units of \<open>2 ^ align_log2\<close>, misaligned ones spill. The
  shift of a negative \<open>ptrdiff_t\<close> is arithmetic, hence the integer division.
\<close>

definition leptris_compact_ptr8_encode ::
  "(nat \<Rightarrow> bool) \<Rightarrow> compact_state \<Rightarrow> addr \<Rightarrow> addr \<Rightarrow> nat \<Rightarrow> addr \<Rightarrow> compact_state \<times> 8 word" where
  "leptris_compact_ptr8_encode alloc_ok st base target align_log2 field =
    (if target = 0 then (st, 0)
     else let d = ptrdiff target base in
       if d mod 2 ^ align_log2 \<noteq> 0 then spill alloc_ok st field target (current_doc st) 0x80
       else let scaled = d div 2 ^ align_log2 in
         if scaled \<le> -128 \<or> scaled > 127 then spill alloc_ok st field target (current_doc st) 0x80
         else (st, of_int scaled))"

definition leptris_compact_ptr8_decode ::
  "(nat \<Rightarrow> bool) \<Rightarrow> compact_state \<Rightarrow> addr \<Rightarrow> 8 word \<Rightarrow> nat \<Rightarrow> addr \<Rightarrow> compact_state \<times> addr" where
  "leptris_compact_ptr8_decode alloc_ok st base off align_log2 field =
    (if off = 0 then (st, 0)
     else if off = 0x80 then overflow_lookup alloc_ok st field
     else (st, base + of_int (sint off * 2 ^ align_log2)))"

definition leptris_compact_ptr16_encode ::
  "(nat \<Rightarrow> bool) \<Rightarrow> compact_state \<Rightarrow> addr \<Rightarrow> addr \<Rightarrow> nat \<Rightarrow> addr \<Rightarrow> compact_state \<times> 16 word" where
  "leptris_compact_ptr16_encode alloc_ok st base target align_log2 field =
    (if target = 0 then (st, 0)
     else let d = ptrdiff target base in
       if d mod 2 ^ align_log2 \<noteq> 0 then spill alloc_ok st field target (current_doc st) 0x8000
       else let scaled = d div 2 ^ align_log2 in
         if scaled \<le> -32768 \<or> scaled > 32767 then spill alloc_ok st field target (current_doc st) 0x8000
         else (st, of_int scaled))"

definition leptris_compact_ptr16_decode ::
  "(nat \<Rightarrow> bool) \<Rightarrow> compact_state \<Rightarrow> addr \<Rightarrow> 16 word \<Rightarrow> nat \<Rightarrow> addr \<Rightarrow> compact_state \<times> addr" where
  "leptris_compact_ptr16_decode alloc_ok st base off align_log2 field =
    (if off = 0 then (st, 0)
     else if off = 0x8000 then overflow_lookup alloc_ok st field
     else (st, base + of_int (sint off * 2 ^ align_log2)))"

text \<open>The content edge of a text node (\<open>dom/text.h\<close>), where one offset stands for the empty string.\<close>

datatype text_content = No_content | Empty_string | At addr

definition leptris_textnode_set_content_ptr_doc ::
  "(nat \<Rightarrow> bool) \<Rightarrow> compact_state \<Rightarrow> addr \<Rightarrow> addr \<Rightarrow> addr \<Rightarrow> nat \<Rightarrow> addr \<Rightarrow> compact_state \<times> 32 word" where
  "leptris_textnode_set_content_ptr_doc alloc_ok st t field p len doc =
    (if p = 0 then (st, 0)
     else if len = 0 then (st, LEPTRIS_COMPACT_INT32_EMPTY)
     else let d = ptrdiff p t in
       if d < INT32_MIN \<or> d \<ge> INT32_MAX
       then leptris_compact_int32_encode_doc alloc_ok st t p field doc
       else (st, of_int d))"

definition leptris_textnode_content ::
  "(nat \<Rightarrow> bool) \<Rightarrow> compact_state \<Rightarrow> addr \<Rightarrow> addr \<Rightarrow> 32 word \<Rightarrow> text_content" where
  "leptris_textnode_content alloc_ok st t field content_off =
    (if content_off = 0 then No_content
     else if content_off = LEPTRIS_COMPACT_INT32_EMPTY then Empty_string
     else (case snd (leptris_compact_int32_decode alloc_ok st t content_off field) of
             p \<Rightarrow> if p = 0 then No_content else At p))"

text \<open>The page header: the offset from the page, in units of four bytes, in one byte.\<close>

definition LEPTRIS_COMPACT_ALIGNMENT :: nat where "LEPTRIS_COMPACT_ALIGNMENT = 4"

definition leptris_compact_header_init :: "addr \<Rightarrow> addr \<Rightarrow> u8 \<Rightarrow> (u8 \<times> u8) option" where
  "leptris_compact_header_init header page_base flags =
    (let offset = ptrdiff header page_base in
     if offset mod int LEPTRIS_COMPACT_ALIGNMENT \<noteq> 0 then None
     else if \<not> offset < 256 * int LEPTRIS_COMPACT_ALIGNMENT then None
     else Some (of_int (offset div 4), flags))"

definition leptris_compact_header_get_page :: "addr \<Rightarrow> u8 \<times> u8 \<Rightarrow> addr" where
  "leptris_compact_header_get_page header h = header - of_nat (unat (fst h) * 4)"

section \<open>The table's invariant\<close>

definition entries :: "overflow_table \<Rightarrow> overflow_entry list" where
  "entries t = concat (buckets t)"

definition carved :: "overflow_table \<Rightarrow> nat" where
  "carved t = slab_count t * OVERFLOW_SLAB_ENTRIES - slab_remaining t"

definition table_ok :: "overflow_table \<Rightarrow> bool" where
  "table_ok t \<longleftrightarrow> 0 < bucket_count t \<and> bucket_count t < 2 ^ 64
    \<and> (\<forall>i < bucket_count t. \<forall>e \<in> set (buckets t ! i). hash_pointer (ekey e) (bucket_count t) = i)
    \<and> distinct (map ekey (entries t)) \<and> distinct (map eid (entries t))
    \<and> (\<forall>e \<in> set (entries t). ekey e \<noteq> 0 \<and> eid e < carved t)
    \<and> slab_remaining t \<le> OVERFLOW_SLAB_ENTRIES \<and> (slab_remaining t \<noteq> 0 \<longrightarrow> 0 < slab_count t)
    \<and> entry_count t = length (entries t)"

lemma table_okD:
  assumes "table_ok t"
  shows "0 < bucket_count t"
    "\<And>i e. i < bucket_count t \<Longrightarrow> e \<in> set (buckets t ! i) \<Longrightarrow> hash_pointer (ekey e) (bucket_count t) = i"
    "distinct (map ekey (entries t))" "distinct (map eid (entries t))"
    "\<And>e. e \<in> set (entries t) \<Longrightarrow> ekey e \<noteq> 0" "\<And>e. e \<in> set (entries t) \<Longrightarrow> eid e < carved t"
    "slab_remaining t \<le> OVERFLOW_SLAB_ENTRIES" "slab_remaining t \<noteq> 0 \<Longrightarrow> 0 < slab_count t"
    "entry_count t = length (entries t)" "bucket_count t < 2 ^ 64"
  using assms unfolding table_ok_def by blast+

lemma hash_pointer_less:
  assumes "0 < n" "n < 2 ^ 64"
  shows "hash_pointer key n < n"
proof -
  have "drop_bit 32 (key * 0x9E3779B97F4A7C15) AND of_nat (n - 1) \<le> (of_nat (n - 1) :: u64)"
    by (rule word_and_le1)
  then have "hash_pointer key n \<le> unat (of_nat (n - 1) :: u64)"
    by (simp add: hash_pointer_def word_le_nat_alt)
  also have "\<dots> = n - 1"
  proof -
    have "n - 1 < 2 ^ LENGTH(64)" using assms(2) by simp
    then show ?thesis by (simp only: unsigned_of_nat take_bit_nat_eq_self of_nat_id)
  qed
  finally show ?thesis using assms(1) by linarith
qed

lemma mset_bucket_update:
  "i < length bs \<Longrightarrow> mset (concat (bs[i := x])) + mset (bs ! i) = mset (concat bs) + mset x"
proof (induction bs arbitrary: i)
  case (Cons b bs)
  then show ?case by (cases i) (auto simp: ac_simps)
qed simp

lemma map_bucket_update:
  "i < length bs \<Longrightarrow> map f x = map f (bs ! i) \<Longrightarrow> map f (concat (bs[i := x])) = map f (concat bs)"
proof (induction bs arbitrary: i)
  case (Cons b bs)
  then show ?case by (cases i) auto
qed simp

lemma distinct_map_mset: "mset xs = mset ys \<Longrightarrow> distinct (map f xs) = distinct (map f ys)"
  by (rule mset_eq_imp_distinct_iff) simp

lemma bucket_entry: "i < bucket_count t \<Longrightarrow> e \<in> set (buckets t ! i) \<Longrightarrow> e \<in> set (entries t)"
  by (auto simp: entries_def bucket_count_def)

lemma entry_in_bucket:
  assumes "table_ok t" "e \<in> set (entries t)"
  shows "e \<in> set (buckets t ! hash_pointer (ekey e) (bucket_count t))"
proof -
  obtain i where "i < bucket_count t" "e \<in> set (buckets t ! i)"
    using assms(2) unfolding entries_def bucket_count_def by (metis in_set_conv_nth UN_E set_concat)
  with table_okD(2)[OF assms(1)] show ?thesis by auto
qed

text \<open>What the table maps a field to.\<close>

definition table_map :: "overflow_table \<Rightarrow> addr \<Rightarrow> addr option" where
  "table_map t = map_of (map (\<lambda>e. (ekey e, evalue e)) (entries t))"

lemma table_map_iff:
  assumes "distinct (map ekey (entries t))"
  shows "table_map t k = Some v \<longleftrightarrow> (\<exists>e \<in> set (entries t). ekey e = k \<and> evalue e = v)"
proof -
  have "distinct (map fst (map (\<lambda>e. (ekey e, evalue e)) (entries t)))" using assms by (simp add: comp_def)
  then show ?thesis unfolding table_map_def by (subst map_of_eq_Some_iff) auto
qed

lemma get_table_map:
  assumes ok: "table_ok t"
  shows "leptris_compact_overflow_get t k = (if k = 0 then 0 else case table_map t k of None \<Rightarrow> 0 | Some v \<Rightarrow> v)"
proof (cases "k = 0")
  case False
  let ?b = "buckets t ! hash_pointer k (bucket_count t)"
  have i: "hash_pointer k (bucket_count t) < bucket_count t"
    using table_okD[OF ok] by (intro hash_pointer_less)
  show ?thesis
  proof (cases "find (\<lambda>e. ekey e = k) ?b")
    case None
    then have "\<forall>e \<in> set (entries t). ekey e \<noteq> k"
      using entry_in_bucket[OF ok] by (auto simp: find_None_iff)
    then have "table_map t k = None"
      using table_map_iff[OF table_okD(3)[OF ok], of k] by (cases "table_map t k") auto
    with None False show ?thesis by (simp add: leptris_compact_overflow_get_def)
  next
    case (Some e)
    then have "e \<in> set ?b" "ekey e = k" by (auto simp: find_Some_iff)
    then have "table_map t k = Some (evalue e)"
      using bucket_entry[OF i] table_map_iff[OF table_okD(3)[OF ok]] by auto
    with Some False show ?thesis by (simp add: leptris_compact_overflow_get_def)
  qed
qed (simp add: leptris_compact_overflow_get_def)

section \<open>Growing and carving\<close>

lemma rehash_mset:
  assumes "0 < n" "n < 2 ^ 64" "length nb = n"
  shows "mset (concat (foldl (rehash_entry n) nb es)) = mset (concat nb) + mset es
    \<and> length (foldl (rehash_entry n) nb es) = n"
  using assms(3)
proof (induction es arbitrary: nb)
  case (Cons e es)
  let ?i = "hash_pointer (ekey e) n" let ?nb = "rehash_entry n nb e"
  have i: "?i < length nb" using hash_pointer_less[OF assms(1,2)] Cons.prems by simp
  have "mset (concat ?nb) = mset (concat nb) + {#e#}"
    using mset_bucket_update[OF i, of "e # nb ! ?i"] by (simp add: rehash_entry_def Let_def)
  moreover have "length ?nb = n" using Cons.prems by (simp add: rehash_entry_def Let_def)
  ultimately show ?case using Cons.IH[of ?nb] by simp
qed simp

lemma rehash_hashed:
  assumes "0 < n" "n < 2 ^ 64" "length nb = n"
    and "\<forall>i < n. \<forall>e \<in> set (nb ! i). hash_pointer (ekey e) n = i"
  shows "\<forall>i < n. \<forall>e \<in> set (foldl (rehash_entry n) nb es ! i). hash_pointer (ekey e) n = i"
  using assms(3,4)
proof (induction es arbitrary: nb)
  case (Cons e es)
  have h: "\<forall>i < n. \<forall>x \<in> set (rehash_entry n nb e ! i). hash_pointer (ekey x) n = i"
  proof (intro allI impI)
    fix i assume "i < n"
    moreover have "hash_pointer (ekey e) n < n" using assms(1,2) by (rule hash_pointer_less)
    ultimately have "rehash_entry n nb e ! i = (if i = hash_pointer (ekey e) n then e # nb ! i else nb ! i)"
      using Cons.prems(1) by (simp add: rehash_entry_def Let_def nth_list_update)
    then have "x \<in> set (nb ! i) \<or> (x = e \<and> i = hash_pointer (ekey e) n)" if "x \<in> set (rehash_entry n nb e ! i)" for x
      using that by (auto split: if_splits)
    with Cons.prems(2) \<open>i < n\<close> show "\<forall>x \<in> set (rehash_entry n nb e ! i). hash_pointer (ekey x) n = i"
      by blast
  qed
  have "length (rehash_entry n nb e) = n" using Cons.prems(1) by (simp add: rehash_entry_def Let_def)
  from Cons.IH[OF this h] show ?case unfolding foldl_Cons .
next
  case Nil
  then show ?case unfolding foldl_Nil by blast
qed

lemma grow_ok:
  assumes ok: "table_ok t" and "bucket_count t * 2 < 2 ^ 64"
  shows "table_ok (overflow_table_grow alloc_ok t)
    \<and> mset (entries (overflow_table_grow alloc_ok t)) = mset (entries t)"
proof (cases "alloc_ok (bucket_count t * 2)")
  case True
  let ?n = "bucket_count t * 2"
  let ?nb = "foldl (rehash_entry ?n) (replicate ?n []) (concat (buckets t))"
  let ?t = "t\<lparr>buckets := ?nb\<rparr>"
  have g: "overflow_table_grow alloc_ok t = ?t" using True by (simp add: overflow_table_grow_def Let_def)
  have n: "0 < ?n" "?n < 2 ^ 64" using assms table_okD(1)[OF ok] by auto
  have m: "mset (concat ?nb) = mset (entries t)" "length ?nb = ?n"
    using rehash_mset[OF n, of "replicate ?n []" "concat (buckets t)"] by (simp_all add: entries_def)
  have h: "\<forall>i < ?n. \<forall>e \<in> set (?nb ! i). hash_pointer (ekey e) ?n = i"
    by (rule rehash_hashed[OF n]) simp_all
  have s: "set (concat ?nb) = set (entries t)" using m(1) by (metis set_mset_mset)
  have "length (concat ?nb) = length (entries t)" using m(1) by (metis size_mset)
  then have "table_ok ?t"
    using table_okD[OF ok] n m(2) h s distinct_map_mset[OF m(1), of ekey] distinct_map_mset[OF m(1), of eid]
    by (auto simp: table_ok_def entries_def bucket_count_def carved_def)
  then show ?thesis using m(1) g by (simp add: entries_def)
qed (use ok in \<open>simp add: overflow_table_grow_def Let_def\<close>)

lemma carve_some:
  assumes "carve t = (t', Some i)" "0 < slab_remaining t" "slab_remaining t \<le> OVERFLOW_SLAB_ENTRIES"
    "0 < slab_count t"
  shows "i = carved t \<and> carved t' = Suc (carved t) \<and> buckets t' = buckets t
    \<and> entry_count t' = entry_count t \<and> slab_remaining t' \<le> OVERFLOW_SLAB_ENTRIES \<and> 0 < slab_count t'"
proof -
  obtain c where c: "slab_count t = Suc c" using assms(4) by (cases "slab_count t") auto
  let ?S = OVERFLOW_SLAB_ENTRIES
  have t': "t' = t\<lparr>slab_remaining := slab_remaining t - 1\<rparr>" "i = c * ?S + (?S - slab_remaining t)"
    using assms(1) c by (simp_all add: carve_def)
  have "carved t = c * ?S + (?S - slab_remaining t)" using c assms(3) by (simp add: carved_def)
  moreover have "carved t' = c * ?S + (?S - (slab_remaining t - 1))"
    using c assms(3) by (simp add: carved_def t')
  ultimately show ?thesis using t' assms by auto
qed

lemma alloc_some:
  assumes ok: "table_ok t" and a: "overflow_entry_alloc alloc_ok t = (t', Some i)"
  shows "i = carved t \<and> carved t' = Suc (carved t) \<and> buckets t' = buckets t
    \<and> entry_count t' = entry_count t \<and> slab_remaining t' \<le> OVERFLOW_SLAB_ENTRIES \<and> 0 < slab_count t'"
proof (cases "slab_remaining t = 0")
  case False
  then have "carve t = (t', Some i)" using a by (simp add: overflow_entry_alloc_def)
  then show ?thesis using False table_okD(7,8)[OF ok] by (intro carve_some) auto
next
  case True
  then obtain cap where c: "carve (t\<lparr>slab_capacity := cap, slab_count := slab_count t + 1,
      slab_remaining := OVERFLOW_SLAB_ENTRIES\<rparr>) = (t', Some i)"
  proof -
    have "overflow_table.slab_capacity_update (\<lambda>_. slab_capacity t) t = t" by simp
    then show thesis using a True that[of "slab_capacity t"] that[of "slab_capacity t * 2"] that[of 4]
      by (auto simp: overflow_entry_alloc_def Let_def split: if_splits)
  qed
  have "0 < OVERFLOW_SLAB_ENTRIES" by (simp add: OVERFLOW_SLAB_ENTRIES_def)
  with carve_some[OF c] True show ?thesis by (simp add: carved_def)
qed

lemma alloc_none:
  assumes "overflow_entry_alloc alloc_ok t = (t', None)"
  shows "buckets t' = buckets t" "entry_count t' = entry_count t" "slab_count t' = slab_count t"
    "slab_remaining t' = slab_remaining t"
  using assms by (auto simp: overflow_entry_alloc_def carve_def Let_def split: if_splits)


section \<open>Setting an entry\<close>

lemma chain_replace_Some:
  "chain_replace key v d es = Some es' \<Longrightarrow>
    \<exists>xs e ys. es = xs @ e # ys \<and> ekey e = key \<and> es' = xs @ e\<lparr>evalue := v, edoc := d\<rparr> # ys"
proof (induction es arbitrary: es')
  case (Cons a es)
  show ?case
  proof (cases "ekey a = key")
    case True
    with Cons.prems show ?thesis by (intro exI[of _ "[]"]) auto
  next
    case False
    with Cons.prems obtain r where r: "chain_replace key v d es = Some r" "es' = a # r"
      by (auto split: option.splits)
    from Cons.IH[OF r(1)] obtain xs e ys where "es = xs @ e # ys" "ekey e = key"
      "r = xs @ e\<lparr>evalue := v, edoc := d\<rparr> # ys" by blast
    then show ?thesis using r(2) by (intro exI[of _ "a # xs"]) auto
  qed
qed simp

lemma chain_replace_None: "chain_replace key v d es = None \<longleftrightarrow> (\<forall>e \<in> set es. ekey e \<noteq> key)"
  by (induction es) (auto split: option.splits)

lemma table_map_eqI:
  assumes "distinct (map ekey (entries t))" "distinct (map ekey (entries t'))"
    and "\<And>v. (\<exists>e \<in> set (entries t). ekey e = k \<and> evalue e = v) \<longleftrightarrow>
      (\<exists>e \<in> set (entries t'). ekey e = k \<and> evalue e = v)"
  shows "table_map t k = table_map t' k"
proof -
  have "table_map t k = Some v \<longleftrightarrow> table_map t' k = Some v" for v
    using assms(3)[of v] table_map_iff[OF assms(1)] table_map_iff[OF assms(2)] by simp
  then show ?thesis by (metis not_Some_eq)
qed

lemma replace_ok:
  assumes ok: "table_ok t" and i: "index = hash_pointer key (bucket_count t)"
    and c: "chain_replace key v d (buckets t ! index) = Some chain"
  shows "table_ok (t\<lparr>buckets := (buckets t)[index := chain]\<rparr>)
    \<and> table_map (t\<lparr>buckets := (buckets t)[index := chain]\<rparr>) = (table_map t)(key \<mapsto> v)"
proof -
  let ?t = "t\<lparr>buckets := (buckets t)[index := chain]\<rparr>"
  have il: "index < length (buckets t)"
    using hash_pointer_less[of "bucket_count t" key] table_okD(1,10)[OF ok] i by (simp add: bucket_count_def)
  obtain xs e ys where e: "buckets t ! index = xs @ e # ys" "ekey e = key"
    "chain = xs @ e\<lparr>evalue := v, edoc := d\<rparr> # ys"
    using chain_replace_Some[OF c] by blast
  let ?e = "e\<lparr>evalue := v, edoc := d\<rparr>"
  have keys: "map ekey (entries ?t) = map ekey (entries t)" "map eid (entries ?t) = map eid (entries t)"
    unfolding entries_def by (simp_all add: map_bucket_update[OF il] e)
  have ms: "mset (entries ?t) + {#e#} = mset (entries t) + {#?e#}"
    using mset_bucket_update[OF il, of chain] e unfolding entries_def by simp
  have sets: "x \<in> set (entries ?t) \<or> x = e \<longleftrightarrow> x \<in> set (entries t) \<or> x = ?e" for x
  proof -
    have "x \<in># mset (entries ?t) + {#e#} \<longleftrightarrow> x \<in># mset (entries t) + {#?e#}" unfolding ms ..
    then show ?thesis by auto
  qed
  have len: "length (entries ?t) = length (entries t)" using keys(1) by (metis length_map)
  have bc: "bucket_count ?t = bucket_count t" by (simp add: bucket_count_def)
  have "table_ok ?t"
    unfolding table_ok_def bc keys len
  proof (intro conjI allI impI ballI)
    fix j x assume j: "j < bucket_count t" and x: "x \<in> set (buckets ?t ! j)"
    show "hash_pointer (ekey x) (bucket_count t) = j"
    proof (cases "j = index")
      case True
      with x il have "x \<in> set chain" by simp
      then have "ekey x = key \<or> x \<in> set (buckets t ! index)" using e by auto
      then show ?thesis using table_okD(2)[OF ok j, of x] True i by auto
    next
      case False
      with x have "x \<in> set (buckets t ! j)" by simp
      then show ?thesis using table_okD(2)[OF ok j] by blast
    qed
  next
    fix x assume x: "x \<in> set (entries ?t)"
    have "ekey x \<in> set (map ekey (entries ?t))" "eid x \<in> set (map eid (entries ?t))" using x by auto
    then show "ekey x \<noteq> 0" "eid x < carved ?t"
      unfolding keys using table_okD(5,6)[OF ok] by (auto simp: carved_def)
  qed (use table_okD[OF ok] in \<open>auto simp: bucket_count_def carved_def\<close>)
  moreover have "table_map ?t = (table_map t)(key \<mapsto> v)"
  proof
    fix k
    have dk: "distinct (map ekey (entries ?t))" unfolding keys by (rule table_okD(3)[OF ok])
    show "table_map ?t k = ((table_map t)(key \<mapsto> v)) k"
    proof (cases "k = key")
      case True
      have "?e \<in> set (entries ?t)" 
        by (rule bucket_entry[of index]) (use il e in \<open>simp_all add: bucket_count_def\<close>)
      then have "table_map ?t key = Some v"
        unfolding table_map_iff[OF dk] by (intro bexI[of _ ?e]) (simp_all add: e(2))
      then show ?thesis using True by simp
    next
      case False
      have "table_map ?t k = table_map t k"
        by (rule table_map_eqI[OF dk table_okD(3)[OF ok]]) (use sets e(2) False in fastforce)
      with False show ?thesis by simp
    qed
  qed
  ultimately show ?thesis by blast
qed

lemma insert_ok:
  assumes ok: "table_ok t" and k: "key \<noteq> 0" and i: "index = hash_pointer key (bucket_count t)"
    and n: "\<forall>e \<in> set (buckets t ! index). ekey e \<noteq> key"
    and a: "overflow_entry_alloc alloc_ok t = (t1, Some j)"
    and t2: "t2 = t1\<lparr>buckets := (buckets t1)[index := \<lparr>eid = j, ekey = key, evalue = v, edoc = d\<rparr> # buckets t1 ! index],
      entry_count := entry_count t1 + 1\<rparr>"
  shows "table_ok t2 \<and> table_map t2 = (table_map t)(key \<mapsto> v) \<and> bucket_count t2 = bucket_count t
    \<and> mset (entries t2) = add_mset \<lparr>eid = j, ekey = key, evalue = v, edoc = d\<rparr> (mset (entries t))"
proof -
  let ?e = "\<lparr>eid = j, ekey = key, evalue = v, edoc = d\<rparr>"
  note al = alloc_some[OF ok a]
  have il: "index < length (buckets t)"
    using hash_pointer_less[of "bucket_count t" key] table_okD(1,10)[OF ok] i by (simp add: bucket_count_def)
  have b2: "buckets t2 = (buckets t)[index := ?e # buckets t ! index]" using al t2 by simp
  have bc: "bucket_count t2 = bucket_count t" using b2 by (simp add: bucket_count_def)
  have ms: "mset (entries t2) = add_mset ?e (mset (entries t))"
    using mset_bucket_update[OF il, of "?e # buckets t ! index"] unfolding entries_def b2 by simp
  have fresh: "\<forall>e \<in> set (entries t). ekey e \<noteq> key \<and> eid e \<noteq> j"
    using entry_in_bucket[OF ok] n i table_okD(6)[OF ok] al by fastforce
  have mk: "mset (entries t2) = mset (?e # entries t)" using ms by simp
  have se: "set (entries t2) = insert ?e (set (entries t))" using mk by (metis mset_eq_setD list.simps(15))
  have "table_ok t2"
    unfolding table_ok_def bc
  proof (intro conjI allI impI ballI)
    fix m x assume m: "m < bucket_count t" and x: "x \<in> set (buckets t2 ! m)"
    show "hash_pointer (ekey x) (bucket_count t) = m"
    proof (cases "m = index")
      case True
      with x il b2 have "x = ?e \<or> x \<in> set (buckets t ! m)" by auto
      then show ?thesis using table_okD(2)[OF ok m, of x] True i by auto
    next
      case False
      with x b2 have "x \<in> set (buckets t ! m)" by simp
      then show ?thesis using table_okD(2)[OF ok m] by blast
    qed
  next
    show "distinct (map ekey (entries t2))" "distinct (map eid (entries t2))"
      using distinct_map_mset[OF mk, of ekey] distinct_map_mset[OF mk, of eid] fresh table_okD(3,4)[OF ok] by auto
  next
    fix x assume "x \<in> set (entries t2)"
    then have "x = ?e \<or> x \<in> set (entries t)" unfolding se by blast
    moreover have "carved t2 = Suc (carved t)" using al t2 by (simp add: carved_def)
    ultimately show "ekey x \<noteq> 0" "eid x < carved t2"
      using k al table_okD(5,6)[OF ok, of x] by auto
  next
    have "length (entries t2) = Suc (length (entries t))" using ms by (metis size_add_mset size_mset)
    then show "entry_count t2 = length (entries t2)" using al t2 table_okD(9)[OF ok] by simp
  qed (use al t2 table_okD[OF ok] in auto)
  moreover have "table_map t2 = (table_map t)(key \<mapsto> v)"
  proof
    fix x
    have dk: "distinct (map ekey (entries t2))"
      using distinct_map_mset[OF mk, of ekey] fresh table_okD(3)[OF ok] by auto
    show "table_map t2 x = ((table_map t)(key \<mapsto> v)) x"
    proof (cases "x = key")
      case True
      then show ?thesis using se table_map_iff[OF dk, of key v] by auto
    next
      case False
      have "table_map t2 x = table_map t x"
        by (rule table_map_eqI[OF dk table_okD(3)[OF ok]]) (use se False in auto)
      with False show ?thesis by simp
    qed
  qed
  ultimately show ?thesis using bc ms by blast
qed


lemma table_map_mset:
  assumes "distinct (map ekey (entries t))" "mset (entries t') = mset (entries t)"
  shows "table_map t' = table_map t"
proof
  fix k
  have s: "set (entries t') = set (entries t)" using assms(2) by (rule mset_eq_setD)
  have "distinct (map ekey (entries t'))" using distinct_map_mset[OF assms(2), of ekey] assms(1) by simp
  then show "table_map t' k = table_map t k" using assms(1) by (rule table_map_eqI) (simp add: s)
qed

lemma set_spec:
  assumes ok: "table_ok t" and k: "key \<noteq> 0" and b: "bucket_count t * 2 < 2 ^ 64"
    and s: "leptris_compact_overflow_set alloc_ok t dchain key v d = (t', dchain', r)"
  shows "table_ok t' \<and> ((r = 0 \<and> table_map t' = (table_map t)(key \<mapsto> v))
    \<or> (r = -1 \<and> table_map t' = table_map t \<and> dchain' = dchain))"
proof -
  let ?i = "hash_pointer key (bucket_count t)"
  show ?thesis
  proof (cases "chain_replace key v d (buckets t ! ?i)")
    case (Some chain)
    then have "t' = t\<lparr>buckets := (buckets t)[?i := chain]\<rparr>" "r = 0"
      using s k by (simp_all add: leptris_compact_overflow_set_def Let_def)
    then show ?thesis using replace_ok[OF ok refl Some] by simp
  next
    case None
    then have n: "\<forall>e \<in> set (buckets t ! ?i). ekey e \<noteq> key" by (simp add: chain_replace_None)
    obtain t1 a where a: "overflow_entry_alloc alloc_ok t = (t1, a)" by fastforce
    show ?thesis
    proof (cases a)
      case None
      with a have a: "overflow_entry_alloc alloc_ok t = (t1, None)" by simp
      have r: "t' = t1" "r = -1" "dchain' = dchain"
        using s k \<open>chain_replace key v d (buckets t ! ?i) = None\<close> a
        by (simp_all add: leptris_compact_overflow_set_def Let_def)
      note al = alloc_none[OF a]
      have "table_ok t1 \<and> table_map t1 = table_map t"
        using ok unfolding table_ok_def table_map_def entries_def bucket_count_def carved_def al by blast
      then show ?thesis using r by simp
    next
      case (Some j)
      with a have a: "overflow_entry_alloc alloc_ok t = (t1, Some j)" by simp
      let ?t2 = "t1\<lparr>buckets := (buckets t1)[?i := \<lparr>eid = j, ekey = key, evalue = v, edoc = d\<rparr> # buckets t1 ! ?i],
        entry_count := entry_count t1 + 1\<rparr>"
      note ins = insert_ok[OF ok k refl n a refl, of v d]
      have r: "r = 0" "t' = (if entry_count ?t2 \<ge> bucket_count ?t2 then overflow_table_grow alloc_ok ?t2 else ?t2)"
        using s k None a by (auto simp: leptris_compact_overflow_set_def Let_def)
      have g: "table_ok (overflow_table_grow alloc_ok ?t2) \<and>
          mset (entries (overflow_table_grow alloc_ok ?t2)) = mset (entries ?t2)"
        by (rule grow_ok) (use ins b in simp_all)
      then have "table_map (overflow_table_grow alloc_ok ?t2) = table_map ?t2"
        using table_map_mset table_okD(3) ins by blast
      with ins g r show ?thesis by auto
    qed
  qed
qed

text \<open>With memory available, the table is a store: this is what the encoders rely on.\<close>

lemma alloc_all: "overflow_entry_alloc (\<lambda>_. True) t \<noteq> (t', None)"
  by (simp add: overflow_entry_alloc_def carve_def Let_def)

lemma set_succeeds:
  assumes "key \<noteq> 0"
  shows "snd (snd (leptris_compact_overflow_set (\<lambda>_. True) t dchain key v d)) = 0"
proof (cases "overflow_entry_alloc (\<lambda>_. True) t")
  case (Pair t1 a)
  then show ?thesis
    using assms alloc_all[of t t1]
    by (cases a) (auto simp: leptris_compact_overflow_set_def Let_def split: option.splits)
qed

definition overflow_find :: "overflow_table \<times> (addr \<Rightarrow> nat list) \<Rightarrow> addr \<Rightarrow> addr option" where
  "overflow_find s key =
    (let v = leptris_compact_overflow_get (fst s) key in if v = 0 then None else Some v)"

definition overflow_insert ::
  "addr \<Rightarrow> addr \<Rightarrow> addr \<Rightarrow> overflow_table \<times> (addr \<Rightarrow> nat list) \<Rightarrow> overflow_table \<times> (addr \<Rightarrow> nat list)" where
  "overflow_insert doc key val s =
    (case leptris_compact_overflow_set (\<lambda>_. True) (fst s) (snd s) key val doc of
       (t, dchain, _) \<Rightarrow> (t, dchain))"

interpretation overflow: assoc_store overflow_find "overflow_insert doc" "\<lambda>s. table_ok (fst s)"
    "\<lambda>key. key \<noteq> 0" "\<lambda>key val s. val \<noteq> 0 \<and> bucket_count (fst s) * 2 < 2 ^ 64" for doc
proof unfold_locales
  fix s :: "overflow_table \<times> (addr \<Rightarrow> nat list)" and k v k' :: addr
  assume a: "table_ok (fst s)" "k \<noteq> 0" "v \<noteq> 0 \<and> bucket_count (fst s) * 2 < 2 ^ 64"
  obtain t' d' r where s: "leptris_compact_overflow_set (\<lambda>_. True) (fst s) (snd s) k v doc = (t', d', r)"
    by (metis prod_cases3)
  have "r = 0" using set_succeeds[OF a(2), of "fst s" "snd s" v doc] s by simp
  then have sp: "table_ok t'" "table_map t' = (table_map (fst s))(k \<mapsto> v)"
    using set_spec[OF a(1,2) _ s] a(3) by auto
  have i: "overflow_insert doc k v s = (t', d')" by (simp add: overflow_insert_def s)
  show "overflow_find (overflow_insert doc k v s) k = Some v"
    using a sp by (simp add: i overflow_find_def get_table_map)
  show "table_ok (fst (overflow_insert doc k v s))" using sp i by simp
  show "overflow_find (overflow_insert doc k v s) k' = overflow_find s k'" if "k' \<noteq> k"
    using a sp that by (simp add: i overflow_find_def get_table_map)
qed

section \<open>Tearing a document down\<close>

definition pending_ok :: "overflow_table \<Rightarrow> nat \<Rightarrow> bool" where
  "pending_ok t removed \<longleftrightarrow> removed \<le> entry_count t \<and> table_ok (t\<lparr>entry_count := entry_count t - removed\<rparr>)"

lemma entries_count_update [simp]:
  "entries (t\<lparr>entry_count := n\<rparr>) = entries t" "bucket_count (t\<lparr>entry_count := n\<rparr>) = bucket_count t"
  "carved (t\<lparr>entry_count := n\<rparr>) = carved t"
  by (simp_all add: entries_def bucket_count_def carved_def)

lemma filter_concat_bucket:
  assumes "i < length bs" "\<forall>j < length bs. j \<noteq> i \<longrightarrow> (\<forall>x \<in> set (bs ! j). P x)"
  shows "concat (bs[i := filter P (bs ! i)]) = filter P (concat bs)"
  using assms
proof (induction bs arbitrary: i)
  case (Cons b bs)
  show ?case
  proof (cases i)
    case 0
    have "\<forall>x \<in> set (concat bs). P x"
    proof
      fix x assume "x \<in> set (concat bs)"
      then obtain j where "j < length bs" "x \<in> set (bs ! j)" by (metis in_set_conv_nth UN_E set_concat)
      then show "P x" using Cons.prems(2)[rule_format, of "Suc j"] 0 by auto
    qed
    then show ?thesis using 0 by (simp add: filter_id_conv)
  next
    case (Suc k)
    have "\<forall>x \<in> set b. P x" using Cons.prems(2)[rule_format, of 0] Suc by auto
    moreover have "concat (bs[k := filter P (bs ! k)]) = filter P (concat bs)"
    proof (rule Cons.IH)
      show "k < length bs" using Cons.prems(1) Suc by simp
      show "\<forall>j < length bs. j \<noteq> k \<longrightarrow> (\<forall>x \<in> set (bs ! j). P x)"
        using Cons.prems(2) Suc by (metis Suc_inject Suc_less_eq length_Cons nth_Cons_Suc)
    qed
    ultimately show ?thesis using Suc by (simp add: filter_id_conv)
  qed
qed simp

lemma distinct_eid: "distinct (map eid es) \<Longrightarrow> a \<in> set es \<Longrightarrow> b \<in> set es \<Longrightarrow> eid a = eid b \<Longrightarrow> a = b"
  by (auto simp: distinct_map inj_on_def)

lemma distinct_filter_eid:
  assumes "distinct (map eid es)" "e \<in> set es"
  shows "length (filter (\<lambda>x. eid x \<noteq> eid e) es) = length es - 1"
proof -
  have "filter (\<lambda>x. eid x \<noteq> eid e) es = filter (\<lambda>x. x \<noteq> e) es"
    using distinct_eid[OF assms(1)] assms(2) by (intro filter_cong) auto
  moreover have "distinct es" using assms(1) by (simp add: distinct_map)
  moreover have "filter (\<lambda>x. x \<noteq> e) es = remove1 e es" if "distinct es"
    using that by (simp add: distinct_remove1_removeAll removeAll_filter_not_eq eq_commute)
  ultimately show ?thesis using assms(2) by (simp add: length_remove1)
qed

lemma unlink_spec:
  assumes p: "pending_ok t removed" and u: "unlink doc i (t, removed) = (t', removed')"
  shows "pending_ok t' removed' \<and> entries t' = filter (\<lambda>e. \<not> (eid e = i \<and> edoc e = doc)) (entries t)"
proof -
  let ?s = "t\<lparr>entry_count := entry_count t - removed\<rparr>"
  have ok: "table_ok ?s" and le: "removed \<le> entry_count t" using p by (auto simp: pending_ok_def)
  note okD = table_okD[OF ok, simplified]
  show ?thesis
  proof (cases "entry_at t i")
    case None
    then have "\<forall>e \<in> set (entries t). eid e \<noteq> i"
      by (auto simp: entry_at_def find_None_iff entries_def)
    then have "filter (\<lambda>e. \<not> (eid e = i \<and> edoc e = doc)) (entries t) = entries t"
      by (auto simp: filter_id_conv)
    then show ?thesis using None u p by (simp add: unlink_def)
  next
    case (Some e)
    then have e: "e \<in> set (entries t)" "eid e = i"
      unfolding entry_at_def entries_def find_Some_iff by (metis nth_mem)+
    show ?thesis
    proof (cases "edoc e = doc")
      case False
      have "filter (\<lambda>x. \<not> (eid x = i \<and> edoc x = doc)) (entries t) = entries t"
        using distinct_eid[OF okD(4) e(1)] e(2) False by (fastforce simp: filter_id_conv)
      then show ?thesis using Some False u p by (simp add: unlink_def)
    next
      case True
      let ?h = "hash_pointer (ekey e) (bucket_count t)"
      let ?b = "(buckets t)[?h := filter (\<lambda>x. eid x \<noteq> i) (buckets t ! ?h)]"
      have hb: "e \<in> set (buckets t ! ?h)"
        using entry_in_bucket[OF ok, of e] e(1) by simp
      have hl: "?h < length (buckets t)"
        using hash_pointer_less[of "bucket_count t" "ekey e"] okD(1,10) by (simp add: bucket_count_def)
      have t': "t' = t\<lparr>buckets := ?b\<rparr>" "removed' = removed + 1"
        using u Some True hb e(2) by (auto simp: unlink_def Let_def split: if_splits)
      have other: "\<forall>j < length (buckets t). j \<noteq> ?h \<longrightarrow> (\<forall>x \<in> set (buckets t ! j). eid x \<noteq> i)"
      proof (intro allI impI ballI notI)
        fix j x assume j: "j < length (buckets t)" "j \<noteq> ?h" "x \<in> set (buckets t ! j)" "eid x = i"
        then have "x \<in> set (entries t)" using bucket_entry[of j t x] by (simp add: bucket_count_def)
        then have "x = e" using distinct_eid[OF okD(4) _ e(1)] e(2) j(4) by simp
        then show False using okD(2)[of j x] j by (simp add: bucket_count_def)
      qed
      have en: "entries t' = filter (\<lambda>x. eid x \<noteq> i) (entries t)"
        unfolding entries_def t' using filter_concat_bucket[OF hl other] by simp
      also have "\<dots> = filter (\<lambda>x. \<not> (eid x = i \<and> edoc x = doc)) (entries t)"
        using distinct_eid[OF okD(4) _ e(1)] e(2) True by (intro filter_cong) auto
      finally have ent: "entries t' = filter (\<lambda>x. \<not> (eid x = i \<and> edoc x = doc)) (entries t)" .
      have cnt: "length (entries t') = length (entries t) - 1"
        using distinct_filter_eid[OF okD(4) e(1)] en e(2) by simp
      have pos: "0 < length (entries t)" using e(1) by (cases "entries t") auto
      have bc: "bucket_count t' = bucket_count t" by (simp add: t' bucket_count_def)
      have slab: "slab_count t' = slab_count t" "slab_remaining t' = slab_remaining t" "carved t' = carved t"
        by (simp_all add: t'(1) carved_def)
      have ec: "entry_count t' - removed' = length (entries t')"
        using okD(9) cnt by (simp add: t')
      have "table_ok (t'\<lparr>entry_count := entry_count t' - removed'\<rparr>)"
        unfolding table_ok_def entries_count_update bc
      proof (intro conjI allI impI ballI)
        fix j x assume j: "j < bucket_count t" and x: "x \<in> set (buckets (t'\<lparr>entry_count := entry_count t' - removed'\<rparr>) ! j)"
        then have "x \<in> set (buckets t ! j)"
          using hl by (cases "j = ?h") (auto simp: t')
        then show "hash_pointer (ekey x) (bucket_count t) = j" using okD(2)[OF j] by simp
      next
        show "entry_count (t'\<lparr>entry_count := entry_count t' - removed'\<rparr>) = length (entries t')" using ec by simp
      qed (use okD in \<open>auto simp: en slab carved_def distinct_map_filter\<close>)
      moreover have "removed' \<le> entry_count t'" using le pos okD(9) by (simp add: t' del: length_greater_0_conv)
      ultimately show ?thesis using ent by (simp add: pending_ok_def)
    qed
  qed
qed

lemma fold_unlink:
  assumes "pending_ok t removed" "fold (unlink doc) ids (t, removed) = (t', removed')"
  shows "pending_ok t' removed' \<and> entries t' = filter (\<lambda>e. \<not> (eid e \<in> set ids \<and> edoc e = doc)) (entries t)"
  using assms
proof (induction "ids" arbitrary: t removed)
  case (Cons i "ids")
  obtain t1 r1 where u: "unlink doc i (t, removed) = (t1, r1)" by fastforce
  note sp = unlink_spec[OF Cons.prems(1) u]
  have "fold (unlink doc) ids (t1, r1) = (t', removed')" using Cons.prems(2) u by simp
  from Cons.IH[OF conjunct1[OF sp] this] sp show ?case
    by (auto intro!: filter_cong simp: conj_commute)
qed simp

text \<open>What a field resolves to through the thread's table.\<close>

definition state_map :: "compact_state \<Rightarrow> addr \<Rightarrow> addr option" where
  "state_map st k = (case table st of None \<Rightarrow> None | Some t \<Rightarrow> table_map t k)"

definition state_ok :: "compact_state \<Rightarrow> bool" where
  "state_ok st \<longleftrightarrow> (case table st of None \<Rightarrow> True | Some t \<Rightarrow> table_ok t)"

lemma cleanup_entries:
  assumes "table st = Some t" "table_ok t" "doc \<noteq> 0"
  shows "state_ok (leptris_compact_cleanup_document doc st)
    \<and> (\<exists>t'. distinct (map ekey (entries t'))
      \<and> entries t' = filter (\<lambda>e. \<not> (eid e \<in> set (doc_chain st doc) \<and> edoc e = doc)) (entries t)
      \<and> state_map (leptris_compact_cleanup_document doc st) = table_map t')"
proof -
  obtain t1 r where f: "fold (unlink doc) (doc_chain st doc) (t, 0) = (t1, r)" by fastforce
  have "pending_ok t 0" using assms(2) by (simp add: pending_ok_def)
  note sp = fold_unlink[OF this f]
  let ?t = "t1\<lparr>entry_count := entry_count t1 - r\<rparr>"
  have ok: "table_ok ?t" using sp by (simp add: pending_ok_def)
  have c: "leptris_compact_cleanup_document doc st =
      st\<lparr>doc_chain := (doc_chain st)(doc := []), table := (if entry_count ?t = 0 then None else Some ?t)\<rparr>"
    using assms f by (simp add: leptris_compact_cleanup_document_def Let_def)
  have "entry_count ?t = 0 \<Longrightarrow> table_map ?t = Map.empty"
    using table_okD(9)[OF ok] by (simp add: table_map_def)
  then have "state_map (leptris_compact_cleanup_document doc st) = table_map ?t"
    unfolding c by (auto simp: state_map_def)
  moreover have "state_ok (leptris_compact_cleanup_document doc st)"
    unfolding c using ok by (auto simp: state_ok_def)
  ultimately show ?thesis using sp table_okD(3)[OF ok] by (intro conjI exI[of _ ?t]) simp_all
qed


section \<open>Reading an edge back\<close>

definition state_room :: "compact_state \<Rightarrow> bool" where
  "state_room st \<longleftrightarrow> (case table st of None \<Rightarrow> True | Some t \<Rightarrow> bucket_count t * 2 < 2 ^ 64)"

definition empty_table :: overflow_table where
  "empty_table = \<lparr>buckets = replicate 256 [], entry_count = 0, slab_count = 0, slab_capacity = 0,
    slab_remaining = 0\<rparr>"

lemma round_up_256: "round_up_buckets 256 = 256"
proof -
  have "(256 :: u64) AND (256 - 1) = 0" by simp
  then show ?thesis unfolding round_up_buckets_def by simp
qed

lemma create_256: "leptris_compact_overflow_table_create (\<lambda>_. True) 256 = Some empty_table"
  by (simp add: leptris_compact_overflow_table_create_def round_up_256 empty_table_def)

lemma empty_table_ok: "table_ok empty_table" "bucket_count empty_table = 256"
proof -
  show b: "bucket_count empty_table = 256" by (simp add: bucket_count_def empty_table_def)
  have e: "entries empty_table = []" by (simp add: entries_def empty_table_def)
  show "table_ok empty_table"
    unfolding table_ok_def b e by (simp add: empty_table_def)
qed

lemma get_table_some:
  assumes "state_ok st" "state_room st"
  obtains t where "get_overflow_table (\<lambda>_. True) st = st\<lparr>table := Some t\<rparr>" "table_ok t"
    "bucket_count t * 2 < 2 ^ 64"
proof (cases "table st")
  case None
  then have "get_overflow_table (\<lambda>_. True) st = st\<lparr>table := Some empty_table\<rparr>"
    by (simp add: get_overflow_table_def create_256)
  then show ?thesis by (rule that) (simp_all add: empty_table_ok)
next
  case (Some t)
  then have "st\<lparr>table := Some t\<rparr> = st" by simp
  then show ?thesis using assms Some that[of t] by (simp add: get_overflow_table_def state_ok_def state_room_def)
qed

lemma register_lookup:
  assumes "state_ok st" "state_room st" "field \<noteq> 0" "target \<noteq> 0"
  obtains st' where "overflow_register (\<lambda>_. True) st field target doc = (st', True)" "state_ok st'"
    "snd (overflow_lookup alloc_ok st' field) = target"
proof -
  from get_table_some[OF assms(1,2)] obtain t where
    t: "get_overflow_table (\<lambda>_. True) st = st\<lparr>table := Some t\<rparr>" "table_ok t" "bucket_count t * 2 < 2 ^ 64" .
  obtain t' d' r where s: "leptris_compact_overflow_set (\<lambda>_. True) t (doc_chain st) field target doc = (t', d', r)"
    by (metis prod_cases3)
  have r: "r = 0" using set_succeeds[OF assms(3), of t "doc_chain st" target doc] s by simp
  have i: "overflow_insert doc field target (t, doc_chain st) = (t', d')" by (simp add: overflow_insert_def s)
  have "overflow_find (t', d') field = Some target"
    using overflow.lookup_insert_same[of "(t, doc_chain st)" field target doc] t assms(3,4) by (simp add: i)
  then have f: "leptris_compact_overflow_get t' field = target"
    by (simp add: overflow_find_def Let_def split: if_splits)
  have ok: "table_ok t'"
    using overflow.invar_insert[of "(t, doc_chain st)" field target doc] t assms(3,4) by (simp add: i)
  show ?thesis
  proof (rule that)
    show "overflow_register (\<lambda>_. True) st field target doc =
        (st\<lparr>table := Some t', doc_chain := d'\<rparr>, True)"
      by (simp add: overflow_register_def t s r Let_def)
    show "state_ok (st\<lparr>table := Some t', doc_chain := d'\<rparr>)" using ok by (simp add: state_ok_def)
    show "snd (overflow_lookup alloc_ok (st\<lparr>table := Some t', doc_chain := d'\<rparr>) field) = target"
      using f by (simp add: overflow_lookup_def get_overflow_table_def Let_def)
  qed
qed

lemma base_plus_distance: "base + of_int (ptrdiff target base) = target"
  by (simp add: ptrdiff_def)

lemma distance_zero: "ptrdiff target base = 0 \<longleftrightarrow> target = base"
proof
  assume "ptrdiff target base = 0"
  with base_plus_distance[of base target] show "target = base" by (simp only: of_int_0 add_0_right)
qed (simp add: ptrdiff_def)

lemma sint_small32: "- (2 ^ 31) \<le> d \<Longrightarrow> d < 2 ^ 31 \<Longrightarrow> sint (of_int d :: 32 word) = d"
  by (simp add: signed_of_int signed_take_bit_int_eq_self)

lemma sint_small16: "- (2 ^ 15) \<le> d \<Longrightarrow> d < 2 ^ 15 \<Longrightarrow> sint (of_int d :: 16 word) = d"
  by (simp add: signed_of_int signed_take_bit_int_eq_self)

lemma sint_small8: "- (2 ^ 7) \<le> d \<Longrightarrow> d < 2 ^ 7 \<Longrightarrow> sint (of_int d :: 8 word) = d"
  by (simp add: signed_of_int signed_take_bit_int_eq_self)


lemma int32_nonzero: "- (2 ^ 31) \<le> d \<Longrightarrow> d < 2 ^ 31 \<Longrightarrow> (of_int d :: 32 word) = 0 \<longleftrightarrow> d = 0"
  using sint_small32[of d] by auto

lemma int16_nonzero: "- (2 ^ 15) \<le> d \<Longrightarrow> d < 2 ^ 15 \<Longrightarrow> (of_int d :: 16 word) = 0 \<longleftrightarrow> d = 0"
  using sint_small16[of d] by auto

lemma int8_nonzero: "- (2 ^ 7) \<le> d \<Longrightarrow> d < 2 ^ 7 \<Longrightarrow> (of_int d :: 8 word) = 0 \<longleftrightarrow> d = 0"
  using sint_small8[of d] by auto

lemma sentinel32: "- (2 ^ 31) \<le> d \<Longrightarrow> d < 2 ^ 31 \<Longrightarrow>
    (of_int d :: 32 word) = LEPTRIS_INT32_OVERFLOW_SENTINEL \<longleftrightarrow> d = INT32_MIN"
  using sint_small32[of d] sint_small32[of "- (2 ^ 31)"]
  by (auto simp: LEPTRIS_INT32_OVERFLOW_SENTINEL_def INT32_MIN_def)

lemma sentinel16: "- (2 ^ 15) < d \<Longrightarrow> d < 2 ^ 15 \<Longrightarrow> (of_int d :: 16 word) \<noteq> 0x8000"
proof
  assume d: "- (2 ^ 15) < d" "d < 2 ^ 15" and "(of_int d :: 16 word) = 0x8000"
  then have "sint (of_int d :: 16 word) = sint (0x8000 :: 16 word)" by simp
  moreover have "sint (0x8000 :: 16 word) = - (2 ^ 15)" by simp
  ultimately show False using sint_small16[of d] d by simp
qed

lemma sentinel8: "- (2 ^ 7) < d \<Longrightarrow> d < 2 ^ 7 \<Longrightarrow> (of_int d :: 8 word) \<noteq> 0x80"
proof
  assume d: "- (2 ^ 7) < d" "d < 2 ^ 7" and "(of_int d :: 8 word) = 0x80"
  then have "sint (of_int d :: 8 word) = sint (0x80 :: 8 word)" by simp
  moreover have "sint (0x80 :: 8 word) = - (2 ^ 7)" by simp
  ultimately show False using sint_small8[of d] d by simp
qed

lemma scaled_back: "d mod 2 ^ a = 0 \<Longrightarrow> d div 2 ^ a * 2 ^ a = (d :: int)"
  by (metis dvd_div_mult_self mod_0_imp_dvd)

text \<open>
  C20. An edge of four bytes, written with memory available, decodes to the node it was given, whatever
  the distance, except for a node's edge to itself (offset 0 is NULL) and a distance of exactly
  -2^31.
\<close>

theorem int32_edge_roundtrip:
  assumes "state_ok st" "state_room st" "field \<noteq> 0" "target \<noteq> 0" "target \<noteq> base"
    "ptrdiff target base \<noteq> INT32_MIN"
  shows "snd (leptris_compact_int32_decode alloc_ok
        (fst (leptris_compact_int32_encode (\<lambda>_. True) st base target field)) base
        (snd (leptris_compact_int32_encode (\<lambda>_. True) st base target field)) field) = target
    \<and> snd (leptris_compact_int32_decode alloc_ok
        (fst (leptris_compact_int32_encode_doc (\<lambda>_. True) st base target field doc)) base
        (snd (leptris_compact_int32_encode_doc (\<lambda>_. True) st base target field doc)) field) = target"
proof -
  let ?d = "ptrdiff target base"
  have spilled: "snd (leptris_compact_int32_decode alloc_ok
        (fst (spill (\<lambda>_. True) st field target d LEPTRIS_INT32_OVERFLOW_SENTINEL)) base
        (snd (spill (\<lambda>_. True) st field target d LEPTRIS_INT32_OVERFLOW_SENTINEL)) field) = target" for d
  proof -
    from register_lookup[OF assms(1-4)] obtain st' where
      r: "overflow_register (\<lambda>_. True) st field target d = (st', True)"
        "snd (overflow_lookup alloc_ok st' field) = target" by blast
    have "LEPTRIS_INT32_OVERFLOW_SENTINEL \<noteq> 0" by (simp add: LEPTRIS_INT32_OVERFLOW_SENTINEL_def INT32_MIN_def)
    then show ?thesis using r by (simp add: spill_def leptris_compact_int32_decode_def)
  qed
  have near: "snd (leptris_compact_int32_decode alloc_ok st base (of_int ?d) field) = target"
    if "INT32_MIN \<le> ?d" "?d \<le> INT32_MAX"
  proof -
    have d: "- (2 ^ 31) \<le> ?d" "?d < 2 ^ 31" using that by (simp_all add: INT32_MIN_def INT32_MAX_def)
    have "?d \<noteq> 0" using assms(5) distance_zero by simp
    then have "(of_int ?d :: 32 word) \<noteq> 0" "(of_int ?d :: 32 word) \<noteq> LEPTRIS_INT32_OVERFLOW_SENTINEL"
      using int32_nonzero[OF d] sentinel32[OF d] assms(6) by simp_all
    then show ?thesis
      using sint_small32[OF d] base_plus_distance[of base target] by (simp add: leptris_compact_int32_decode_def)
  qed
  show ?thesis
    using spilled near assms(4)
    by (auto simp: leptris_compact_int32_encode_def leptris_compact_int32_encode_doc_def Let_def not_less)
qed

definition no_table :: compact_state where
  "no_table = \<lparr>table = None, doc_chain = (\<lambda>_. []), current_doc = 0\<rparr>"

lemma no_table_ok: "state_ok no_table" "state_room no_table"
  by (simp_all add: no_table_def state_ok_def state_room_def)

theorem int32_edge_roundtrip_witness:
  "snd (leptris_compact_int32_decode (\<lambda>_. True)
        (fst (leptris_compact_int32_encode (\<lambda>_. True) no_table 0x1000 0xF00000000000 0x1008)) 0x1000
        (snd (leptris_compact_int32_encode (\<lambda>_. True) no_table 0x1000 0xF00000000000 0x1008)) 0x1008)
      = 0xF00000000000"
  using int32_edge_roundtrip[OF no_table_ok, of "0x1008" "0xF00000000000" "0x1000" "\<lambda>_. True" 0]
  by (simp add: ptrdiff_def INT32_MIN_def)

text \<open>
  The edges of one and two bytes decode to the node they were given, at any alignment: what is out
  of range, and what is not aligned, goes through the table.
\<close>

theorem small_edge_roundtrip:
  assumes "state_ok st" "state_room st" "field \<noteq> 0" "target \<noteq> 0" "target \<noteq> base"
  shows "snd (leptris_compact_ptr8_decode alloc_ok
        (fst (leptris_compact_ptr8_encode (\<lambda>_. True) st base target a field)) base
        (snd (leptris_compact_ptr8_encode (\<lambda>_. True) st base target a field)) a field) = target
    \<and> snd (leptris_compact_ptr16_decode alloc_ok
        (fst (leptris_compact_ptr16_encode (\<lambda>_. True) st base target a field)) base
        (snd (leptris_compact_ptr16_encode (\<lambda>_. True) st base target a field)) a field) = target"
proof -
  let ?d = "ptrdiff target base" let ?s = "?d div 2 ^ a"
  have spilled: "\<exists>st'. overflow_register (\<lambda>_. True) st field target d = (st', True)
      \<and> snd (overflow_lookup alloc_ok st' field) = target" for d
    using register_lookup[OF assms(1-4)] by metis
  have nz: "?s \<noteq> 0" if "?d mod 2 ^ a = 0"
  proof
    assume "?s = 0"
    then have "?d = 0" using scaled_back[OF that] by simp
    then show False using assms(5) distance_zero by simp
  qed
  have at: "base + of_int (?s * 2 ^ a) = target" if "?d mod 2 ^ a = 0"
    using scaled_back[OF that] base_plus_distance[of base target] by simp
  have one: "snd (leptris_compact_ptr8_decode alloc_ok st base (of_int ?s) a field) = target"
    if "?d mod 2 ^ a = 0" "- 128 < ?s" "?s \<le> 127"
  proof -
    have s: "- (2 ^ 7) < ?s" "- (2 ^ 7) \<le> ?s" "?s < 2 ^ 7" using that by simp_all
    show ?thesis
      unfolding leptris_compact_ptr8_decode_def sint_small8[OF s(2,3)] at[OF that(1)]
      using int8_nonzero[OF s(2,3)] nz[OF that(1)] sentinel8[OF s(1,3)] by simp
  qed
  have two: "snd (leptris_compact_ptr16_decode alloc_ok st base (of_int ?s) a field) = target"
    if "?d mod 2 ^ a = 0" "- 32768 < ?s" "?s \<le> 32767"
  proof -
    have s: "- (2 ^ 15) < ?s" "- (2 ^ 15) \<le> ?s" "?s < 2 ^ 15" using that by simp_all
    show ?thesis
      unfolding leptris_compact_ptr16_decode_def sint_small16[OF s(2,3)] at[OF that(1)]
      using int16_nonzero[OF s(2,3)] nz[OF that(1)] sentinel16[OF s(1,3)] by simp
  qed
  obtain st' where r: "overflow_register (\<lambda>_. True) st field target (current_doc st) = (st', True)"
    "snd (overflow_lookup alloc_ok st' field) = target" using spilled by blast
  show ?thesis
  proof
    show "snd (leptris_compact_ptr8_decode alloc_ok
        (fst (leptris_compact_ptr8_encode (\<lambda>_. True) st base target a field)) base
        (snd (leptris_compact_ptr8_encode (\<lambda>_. True) st base target a field)) a field) = target"
    proof (cases "?d mod 2 ^ a = 0 \<and> - 128 < ?s \<and> ?s \<le> 127")
      case True
      then have "leptris_compact_ptr8_encode (\<lambda>_. True) st base target a field = (st, of_int ?s)"
        using assms(4) by (auto simp: leptris_compact_ptr8_encode_def Let_def)
      then show ?thesis using one True by simp
    next
      case False
      then have "leptris_compact_ptr8_encode (\<lambda>_. True) st base target a field = (st', 0x80)"
        using assms(4) r(1) by (auto simp: leptris_compact_ptr8_encode_def Let_def spill_def)
      then show ?thesis using r(2) by (simp add: leptris_compact_ptr8_decode_def)
    qed
    show "snd (leptris_compact_ptr16_decode alloc_ok
        (fst (leptris_compact_ptr16_encode (\<lambda>_. True) st base target a field)) base
        (snd (leptris_compact_ptr16_encode (\<lambda>_. True) st base target a field)) a field) = target"
    proof (cases "?d mod 2 ^ a = 0 \<and> - 32768 < ?s \<and> ?s \<le> 32767")
      case True
      then have "leptris_compact_ptr16_encode (\<lambda>_. True) st base target a field = (st, of_int ?s)"
        using assms(4) by (auto simp: leptris_compact_ptr16_encode_def Let_def)
      then show ?thesis using two True by simp
    next
      case False
      then have "leptris_compact_ptr16_encode (\<lambda>_. True) st base target a field = (st', 0x8000)"
        using assms(4) r(1) by (auto simp: leptris_compact_ptr16_encode_def Let_def spill_def)
      then show ?thesis using r(2) by (simp add: leptris_compact_ptr16_decode_def)
    qed
  qed
qed

theorem small_edge_roundtrip_witness:
  "snd (leptris_compact_ptr8_decode (\<lambda>_. True)
        (fst (leptris_compact_ptr8_encode (\<lambda>_. True) no_table 0x1000 0x0FF0 3 0x1008)) 0x1000
        (snd (leptris_compact_ptr8_encode (\<lambda>_. True) no_table 0x1000 0x0FF0 3 0x1008)) 3 0x1008) = 0x0FF0"
  using small_edge_roundtrip[OF no_table_ok, of "0x1008" "0x0FF0" "0x1000" "\<lambda>_. True" 3] by simp

text \<open>
  An edge over a distance of exactly -2^31 is lost: the range test lets it through, its offset is
  the sentinel of the overflow table, and nothing was registered there. It reads back as NULL.
\<close>

theorem int32_min_edge_lost:
  assumes "ptrdiff target base = INT32_MIN" "target \<noteq> 0" "field \<noteq> 0"
  shows "snd (leptris_compact_int32_decode (\<lambda>_. True)
      (fst (leptris_compact_int32_encode (\<lambda>_. True) no_table base target field)) base
      (snd (leptris_compact_int32_encode (\<lambda>_. True) no_table base target field)) field) = 0
    \<and> fst (leptris_compact_int32_encode (\<lambda>_. True) no_table base target field) = no_table"
proof -
  have e: "leptris_compact_int32_encode (\<lambda>_. True) no_table base target field =
      (no_table, LEPTRIS_INT32_OVERFLOW_SENTINEL)"
    using assms by (simp add: leptris_compact_int32_encode_def Let_def LEPTRIS_INT32_OVERFLOW_SENTINEL_def
        INT32_MIN_def INT32_MAX_def)
  have nz: "LEPTRIS_INT32_OVERFLOW_SENTINEL \<noteq> 0" by (simp add: LEPTRIS_INT32_OVERFLOW_SENTINEL_def INT32_MIN_def)
  have "table_map empty_table field = None" by (simp add: table_map_def entries_def empty_table_def)
  then have g: "leptris_compact_overflow_get empty_table field = 0"
    by (simp add: get_table_map[OF empty_table_ok(1)])
  have "get_overflow_table (\<lambda>_. True) no_table = no_table\<lparr>table := Some empty_table\<rparr>"
    by (simp add: get_overflow_table_def no_table_def create_256)
  then show ?thesis using e nz g by (simp add: leptris_compact_int32_decode_def overflow_lookup_def Let_def)
qed

theorem int32_min_edge_lost_witness:
  "snd (leptris_compact_int32_decode (\<lambda>_. True)
      (fst (leptris_compact_int32_encode (\<lambda>_. True) no_table 0x80001000 0x1000 0x80001008)) 0x80001000
      (snd (leptris_compact_int32_encode (\<lambda>_. True) no_table 0x80001000 0x1000 0x80001008)) 0x80001008) = 0"
  by (rule conjunct1[OF int32_min_edge_lost[of "0x1000" "0x80001000" "0x80001008"]]) (simp_all add: ptrdiff_def INT32_MIN_def)

text \<open>
  Text whose content lies exactly 2^31 - 1 bytes behind its node reads back as the empty string:
  the content setter steps around the offset that stands for the empty string, but hands the edge to
  an encoder that stores it as it is.
\<close>

theorem far_content_reads_empty:
  assumes "ptrdiff p t = INT32_MAX" "p \<noteq> 0" "len \<noteq> 0"
  shows "leptris_textnode_content alloc_ok
      (fst (leptris_textnode_set_content_ptr_doc alloc_ok st t field p len doc)) t field
      (snd (leptris_textnode_set_content_ptr_doc alloc_ok st t field p len doc)) = Empty_string"
  using assms
  by (simp add: leptris_textnode_set_content_ptr_doc_def leptris_textnode_content_def Let_def
      leptris_compact_int32_encode_doc_def INT32_MAX_def INT32_MIN_def LEPTRIS_COMPACT_INT32_EMPTY_def)

theorem far_content_reads_empty_witness:
  "leptris_textnode_content (\<lambda>_. True)
      (fst (leptris_textnode_set_content_ptr_doc (\<lambda>_. True) no_table 0x1000 0x1008 0x80000FFF 5 7)) 0x1000 0x1008
      (snd (leptris_textnode_set_content_ptr_doc (\<lambda>_. True) no_table 0x1000 0x1008 0x80000FFF 5 7)) = Empty_string"
  using far_content_reads_empty[of "0x80000FFF" "0x1000" 5 "\<lambda>_. True" no_table "0x1008" 7]
  by (simp add: ptrdiff_def INT32_MAX_def)


section \<open>What teardown leaves behind\<close>

text \<open>Who a registered field belongs to, and whether a document's chain knows all its entries.\<close>

definition owner :: "compact_state \<Rightarrow> addr \<Rightarrow> addr option" where
  "owner st k = (case table st of None \<Rightarrow> None
    | Some t \<Rightarrow> map_option edoc (find (\<lambda>e. ekey e = k) (entries t)))"

definition chained :: "compact_state \<Rightarrow> addr \<Rightarrow> bool" where
  "chained st doc \<longleftrightarrow> (case table st of None \<Rightarrow> True
    | Some t \<Rightarrow> \<forall>e \<in> set (entries t). edoc e = doc \<longrightarrow> eid e \<in> set (doc_chain st doc))"

lemma find_SomeD: "find P xs = Some x \<Longrightarrow> x \<in> set xs \<and> P x"
  by (induction xs) (auto split: if_splits)

lemma distinct_ekey: "distinct (map ekey es) \<Longrightarrow> a \<in> set es \<Longrightarrow> b \<in> set es \<Longrightarrow> ekey a = ekey b \<Longrightarrow> a = b"
  by (auto simp: distinct_map inj_on_def)

lemma owner_iff:
  assumes "table st = Some t" "distinct (map ekey (entries t))"
  shows "owner st k = Some d \<longleftrightarrow> (\<exists>e \<in> set (entries t). ekey e = k \<and> edoc e = d)"
proof (cases "find (\<lambda>e. ekey e = k) (entries t)")
  case None
  then have "owner st k = None" using assms(1) by (simp add: owner_def)
  moreover have "\<forall>e \<in> set (entries t). ekey e \<noteq> k" using None unfolding find_None_iff by blast
  ultimately show ?thesis by simp
next
  case (Some e)
  have e: "e \<in> set (entries t)" "ekey e = k" using find_SomeD[OF Some] by simp_all
  have u: "x = e" if "x \<in> set (entries t)" "ekey x = k" for x
    by (rule distinct_ekey[OF assms(2) that(1) e(1)]) (simp add: that(2) e(2))
  have "owner st k = Some (edoc e)" using assms(1) Some by (simp add: owner_def)
  then show ?thesis using e u by (metis option.inject)
qed


definition two_documents :: compact_state where
  "two_documents = \<lparr>table = Some \<lparr>
      buckets = [[\<lparr>eid = 1, ekey = 0x18, evalue = 0x400, edoc = 8\<rparr>, \<lparr>eid = 0, ekey = 0x10, evalue = 0x200, edoc = 7\<rparr>]],
      entry_count = 2, slab_count = 1, slab_capacity = 4, slab_remaining = 254\<rparr>,
    doc_chain = (\<lambda>_. [])(7 := [0], 8 := [1]), current_doc = 7\<rparr>"

lemma two_documents_ok: "state_ok two_documents" "chained two_documents 7" "chained two_documents 8"
  by (simp_all add: two_documents_def state_ok_def chained_def table_ok_def bucket_count_def entries_def
      carved_def OVERFLOW_SLAB_ENTRIES_def hash_pointer_def)


text \<open>
  A field registered again for another document is not put on that document's chain: tearing the
  new owner down leaves the entry in the table, and the field keeps resolving to a node of the
  document that is gone.
\<close>

theorem reregistered_edge_outlives_owner:
  assumes "table st = Some t" "table_ok t" "bucket_count t * 2 < 2 ^ 64" "doc \<noteq> 0"
    "e \<in> set (entries t)" "eid e \<notin> set (doc_chain st doc)"
  shows "owner (fst (overflow_register alloc_ok st (ekey e) v doc)) (ekey e) = Some doc
    \<and> state_map (leptris_compact_cleanup_document doc (fst (overflow_register alloc_ok st (ekey e) v doc)))
      (ekey e) = Some v"
proof -
  let ?i = "hash_pointer (ekey e) (bucket_count t)"
  note okD = table_okD[OF assms(2)]
  have k: "ekey e \<noteq> 0" using okD(5) assms(5) by simp
  have inb: "e \<in> set (buckets t ! ?i)" by (rule entry_in_bucket[OF assms(2,5)])
  then obtain chain where ch: "chain_replace (ekey e) v doc (buckets t ! ?i) = Some chain"
    using chain_replace_None[of "ekey e" v doc "buckets t ! ?i"] by (cases "chain_replace (ekey e) v doc (buckets t ! ?i)") auto
  let ?t = "t\<lparr>buckets := (buckets t)[?i := chain]\<rparr>"
  let ?st = "st\<lparr>table := Some ?t, doc_chain := doc_chain st\<rparr>"
  have r: "fst (overflow_register alloc_ok st (ekey e) v doc) = ?st"
    using assms(1) k ch by (simp add: overflow_register_def get_overflow_table_def leptris_compact_overflow_set_def Let_def)
  have ok: "table_ok ?t" using replace_ok[OF assms(2) refl ch] by simp
  obtain xs x ys where x: "buckets t ! ?i = xs @ x # ys" "ekey x = ekey e"
    "chain = xs @ x\<lparr>evalue := v, edoc := doc\<rparr> # ys"
    using chain_replace_Some[OF ch] by blast
  have il: "?i < bucket_count t" using hash_pointer_less okD(1,10) by blast
  have "x = e"
    using okD(3) bucket_entry[OF il] x inb assms(5) by (auto simp: distinct_map inj_on_def)
  let ?e = "e\<lparr>evalue := v, edoc := doc\<rparr>"
  have mem: "?e \<in> set (entries ?t)"
    by (rule bucket_entry[of ?i]) (use il x \<open>x = e\<close> in \<open>simp_all add: bucket_count_def\<close>)
  have own: "owner ?st (ekey e) = Some doc"
    using mem owner_iff[of ?st ?t "ekey e" doc] table_okD(3)[OF ok] by fastforce
  from cleanup_entries[of ?st ?t doc] ok assms(4) obtain t' where
    d: "distinct (map ekey (entries t'))" and
    e': "entries t' = filter (\<lambda>e. \<not> (eid e \<in> set (doc_chain st doc) \<and> edoc e = doc)) (entries ?t)" and
    m: "state_map (leptris_compact_cleanup_document doc ?st) = table_map t'" by auto
  have "?e \<in> set (entries t')" using mem assms(6) by (simp add: e')
  then have "table_map t' (ekey e) = Some v" unfolding table_map_iff[OF d]
    by (intro bexI[of _ ?e]) simp_all
  then show ?thesis unfolding r using own m by simp
qed

theorem reregistered_edge_outlives_owner_witness:
  "state_map (leptris_compact_cleanup_document 8
      (fst (overflow_register (\<lambda>_. True) two_documents 0x10 0x500 8))) 0x10 = Some 0x500"
  using reregistered_edge_outlives_owner[of two_documents "the (table two_documents)" 8
      "\<lparr>eid = 0, ekey = 0x10, evalue = 0x200, edoc = 7\<rparr>" "\<lambda>_. True" "0x500"] two_documents_ok(1)
  by (simp add: two_documents_def state_ok_def entries_def bucket_count_def)

end
