(* ===== verification/XsdSchema.thy ===== *)
theory XsdSchema
  imports Prelude
begin

text \<open>
  The compiled schema as the content-model evaluator sees it (\<open>xsd/xsd_internal.h\<close>,
  \<open>xsd/compile.c\<close>): content-model nodes, element declarations, groups, and the lookups over the
  schema's declaration lists. A list that the code chains through \<open>next\<close> is a list, in that order; a
  \<open>char*\<close> that may be NULL is an option; a C string is the list of its bytes before the NUL. Fields of
  the C structs that the modelled functions never read are left out.
\<close>

section \<open>Data\<close>

datatype xsd_cm_kind =
  XSD_CM_ELEMENT | XSD_CM_ANY | XSD_CM_SEQ | XSD_CM_CHOICE | XSD_CM_ALL | XSD_CM_GROUP_REF

text \<open>\<open>XsdCm\<close>: a particle or a group; its children are the \<open>first_child\<close> list.\<close>

datatype xsd_cm = XsdCm
  (cm_kind: xsd_cm_kind)
  (cm_name: "bytes option")
  (cm_ns: "bytes option")
  (any_ns: "bytes option")
  (not_qname: "bytes option")
  (any_unit_tns: "bytes option")
  (min_occurs: int)
  (max_occurs: int)
  (children: "xsd_cm list")
  (open_any: "xsd_cm option")
  (oc_mode: int)

record xsd_element_decl =
  decl_name :: bytes
  decl_ns :: "bytes option"
  sub_head :: "bytes option"

record xsd_group_def =
  group_name :: bytes
  group_model :: "xsd_cm option"

record leptris_xsd_schema =
  elements :: "xsd_element_decl list"
  schema_groups :: "xsd_group_def list"

type_synonym schema = "leptris_xsd_schema option"

section \<open>Lookups\<close>

text \<open>\<open>uri && uri[0]\<close>.\<close>

definition has_ns :: "bytes option \<Rightarrow> bool" where
  "has_ns uri = (case uri of None \<Rightarrow> False | Some u \<Rightarrow> u \<noteq> [])"

text \<open>The lookup ladder that the macro \<open>XSD_DEFINE_NS_LADDER\<close> generates for the element list.\<close>

definition xsd_ladder_element ::
  "schema \<Rightarrow> bytes option \<Rightarrow> bytes option \<Rightarrow> bool \<Rightarrow> xsd_element_decl option" where
  "xsd_ladder_element s name uri allow_name_only =
    (case (s, name) of
       (Some s, Some name) \<Rightarrow>
         if has_ns uri then
           (case find (\<lambda>t. decl_ns t \<noteq> None \<and> decl_name t = name \<and> decl_ns t = uri) (elements s) of
              Some t \<Rightarrow> Some t
            | None \<Rightarrow>
                (case find (\<lambda>t. decl_ns t = None \<and> decl_name t = name) (elements s) of
                   Some t \<Rightarrow> Some t
                 | None \<Rightarrow> if \<not> allow_name_only then None else find (\<lambda>t. decl_name t = name) (elements s)))
         else find (\<lambda>t. decl_name t = name) (elements s)
     | _ \<Rightarrow> None)"

definition xsd_ladder_element_ns_free_first ::
  "schema \<Rightarrow> bytes option \<Rightarrow> bytes option \<Rightarrow> bool \<Rightarrow> xsd_element_decl option" where
  "xsd_ladder_element_ns_free_first s name uri allow_name_only =
    (case (s, name) of
       (Some s', Some name') \<Rightarrow>
         if has_ns uri then xsd_ladder_element s name uri allow_name_only
         else (case find (\<lambda>t. decl_ns t = None \<and> decl_name t = name') (elements s') of
                 Some t \<Rightarrow> Some t
               | None \<Rightarrow> if \<not> allow_name_only then None else find (\<lambda>t. decl_name t = name') (elements s'))
     | _ \<Rightarrow> None)"

definition xsd_find_element_ns :: "schema \<Rightarrow> bytes option \<Rightarrow> bytes option \<Rightarrow> xsd_element_decl option" where
  "xsd_find_element_ns s name uri = xsd_ladder_element s name uri False"

definition xsd_find_element_child_ns ::
  "schema \<Rightarrow> bytes option \<Rightarrow> bytes option \<Rightarrow> xsd_element_decl option" where
  "xsd_find_element_child_ns s name uri =
    (case (s, name) of
       (Some s', Some name') \<Rightarrow>
         if has_ns uri then xsd_ladder_element s name uri False
         else find (\<lambda>t. decl_ns t = None \<and> decl_name t = name') (elements s')
     | _ \<Rightarrow> None)"

definition xsd_element_name_defined :: "schema \<Rightarrow> bytes option \<Rightarrow> bytes option \<Rightarrow> bool" where
  "xsd_element_name_defined s local uri =
    (case (s, local) of
       (Some s, Some local) \<Rightarrow>
         list_ex (\<lambda>d. decl_name d = local \<and>
             (case uri of Some u \<Rightarrow> decl_ns d = Some u | None \<Rightarrow> \<not> has_ns (decl_ns d))) (elements s)
     | _ \<Rightarrow> False)"

definition xsd_find_element_decl :: "leptris_xsd_schema \<Rightarrow> bytes \<Rightarrow> xsd_element_decl option" where
  "xsd_find_element_decl s name = find (\<lambda>d. decl_name d = name) (elements s)"

text \<open>Substitution groups: follow the heads, at most 16 of them.\<close>

fun substitute_loop :: "leptris_xsd_schema \<Rightarrow> bytes \<Rightarrow> nat \<Rightarrow> xsd_element_decl option \<Rightarrow> xsd_element_decl option" where
  "substitute_loop s head 0 d = None"
| "substitute_loop s head (Suc hops) None = None"
| "substitute_loop s head (Suc hops) (Some d) =
    (case sub_head d of
       None \<Rightarrow> None
     | Some h \<Rightarrow> if h = head then Some d else substitute_loop s head hops (xsd_find_element_decl s h))"

definition xsd_substitute_member :: "leptris_xsd_schema \<Rightarrow> bytes \<Rightarrow> bytes \<Rightarrow> xsd_element_decl option" where
  "xsd_substitute_member s name head = substitute_loop s head 16 (xsd_find_element_decl s name)"

definition xsd_is_substitute :: "leptris_xsd_schema \<Rightarrow> bytes \<Rightarrow> bytes \<Rightarrow> bool" where
  "xsd_is_substitute s name head \<longleftrightarrow> xsd_substitute_member s name head \<noteq> None"

definition xsd_find_group :: "schema \<Rightarrow> bytes option \<Rightarrow> xsd_group_def option" where
  "xsd_find_group s name =
    (case (s, name) of
       (Some s, Some name) \<Rightarrow> find (\<lambda>g. group_name g = name) (schema_groups s)
     | _ \<Rightarrow> None)"

section \<open>Substitution groups\<close>

text \<open>One step from a declared name to the head of its substitution group.\<close>

definition head_of :: "leptris_xsd_schema \<Rightarrow> bytes \<Rightarrow> bytes option" where
  "head_of s name = Option.bind (xsd_find_element_decl s name) sub_head"

primrec nth_head :: "leptris_xsd_schema \<Rightarrow> nat \<Rightarrow> bytes \<Rightarrow> bytes option" where
  "nth_head s 0 name = Some name"
| "nth_head s (Suc k) name = Option.bind (head_of s name) (nth_head s k)"

lemma substitute_loop_iff:
  "substitute_loop s head hops (xsd_find_element_decl s name) \<noteq> None \<longleftrightarrow>
    (\<exists>k. 1 \<le> k \<and> k \<le> hops \<and> nth_head s k name = Some head)"
proof (induction hops arbitrary: name)
  case 0
  then show ?case by simp
next
  case (Suc hops)
  show ?case
  proof (cases "head_of s name")
    case None
    then have "substitute_loop s head (Suc hops) (xsd_find_element_decl s name) = None"
      by (cases "xsd_find_element_decl s name") (auto simp: head_of_def split: option.splits)
    moreover have "nth_head s k name = None" if "1 \<le> k" for k using None that by (cases k) auto
    ultimately show ?thesis by auto
  next
    case (Some h)
    then obtain d where d: "xsd_find_element_decl s name = Some d" "sub_head d = Some h"
      by (auto simp: head_of_def bind_eq_Some_conv)
    have "(\<exists>k. 1 \<le> k \<and> k \<le> Suc hops \<and> nth_head s k name = Some head) \<longleftrightarrow>
        (\<exists>k \<le> hops. nth_head s k h = Some head)"
    proof
      assume "\<exists>k. 1 \<le> k \<and> k \<le> Suc hops \<and> nth_head s k name = Some head"
      then obtain k where "1 \<le> k" "k \<le> Suc hops" "nth_head s k name = Some head" by blast
      then show "\<exists>k \<le> hops. nth_head s k h = Some head" using Some by (cases k) auto
    next
      assume "\<exists>k \<le> hops. nth_head s k h = Some head"
      then obtain k where "k \<le> hops" "nth_head s k h = Some head" by blast
      then show "\<exists>k. 1 \<le> k \<and> k \<le> Suc hops \<and> nth_head s k name = Some head"
        using Some by (intro exI[of _ "Suc k"]) simp
    qed
    also have "\<dots> \<longleftrightarrow> h = head \<or> (\<exists>k. 1 \<le> k \<and> k \<le> hops \<and> nth_head s k h = Some head)"
      by (metis One_nat_def Suc_leI le0 not_gr_zero nth_head.simps(1) option.inject)
    finally show ?thesis using d Suc.IH[of h] by auto
  qed
qed

text \<open>
  An instance element may stand for a particle's head exactly when following the substitution
  group heads from it reaches that name in one to sixteen steps. Chains that run in a circle give an
  answer too.
\<close>

theorem substitution_reaches_head:
  "xsd_is_substitute s name head \<longleftrightarrow> (\<exists>k. 1 \<le> k \<and> k \<le> 16 \<and> nth_head s k name = Some head)"
  unfolding xsd_is_substitute_def xsd_substitute_member_def by (rule substitute_loop_iff)

text \<open>
  The lookup ladder for a name without a namespace takes the first declaration of that name,
  whatever its namespace, even where a declaration without a namespace follows: the order the
  comment of the macro describes is that of the variant with the suffix \<open>ns_free_first\<close>.
\<close>

theorem null_uri_binds_first_declaration:
  assumes "decl_name d = name" "decl_ns d = Some u" "decl_name d' = name" "decl_ns d' = None"
    and "d \<in> set pre \<and> (\<forall>x \<in> set pre. decl_ns x \<noteq> None)" "elements s = pre @ d' # rest"
  shows "(\<exists>e. xsd_ladder_element (Some s) (Some name) None False = Some e \<and> decl_ns e \<noteq> None)
    \<and> xsd_ladder_element_ns_free_first (Some s) (Some name) None False = Some d'"
proof -
  obtain e where e: "find (\<lambda>t. decl_name t = name) pre = Some e"
    using assms(1,5) by (cases "find (\<lambda>t. decl_name t = name) pre") (auto simp: find_None_iff)
  have app: "find P (xs @ ys) = (case find P xs of Some x \<Rightarrow> Some x | None \<Rightarrow> find P ys)" for P :: "xsd_element_decl \<Rightarrow> bool" and xs ys
    by (induction xs) auto
  have "e \<in> set pre" using e by (auto simp: find_Some_iff)
  moreover have "find (\<lambda>t. decl_ns t = None \<and> decl_name t = name) pre = None"
    using assms(5) by (auto simp: find_None_iff)
  ultimately show ?thesis
    using assms e by (auto simp: xsd_ladder_element_def xsd_ladder_element_ns_free_first_def has_ns_def app)
qed

theorem null_uri_binds_first_declaration_witness:
  "\<exists>e. xsd_ladder_element (Some \<lparr>elements = [\<lparr>decl_name = ascii ''a'', decl_ns = Some (ascii ''urn:x''), sub_head = None\<rparr>,
      \<lparr>decl_name = ascii ''a'', decl_ns = None, sub_head = None\<rparr>], schema_groups = []\<rparr>) (Some (ascii ''a'')) None False = Some e
    \<and> decl_ns e \<noteq> None"
  using null_uri_binds_first_declaration[of "\<lparr>decl_name = ascii ''a'', decl_ns = Some (ascii ''urn:x''), sub_head = None\<rparr>"
      "ascii ''a''" "ascii ''urn:x''" "\<lparr>decl_name = ascii ''a'', decl_ns = None, sub_head = None\<rparr>"
      "[\<lparr>decl_name = ascii ''a'', decl_ns = Some (ascii ''urn:x''), sub_head = None\<rparr>]"
      "\<lparr>elements = [\<lparr>decl_name = ascii ''a'', decl_ns = Some (ascii ''urn:x''), sub_head = None\<rparr>,
      \<lparr>decl_name = ascii ''a'', decl_ns = None, sub_head = None\<rparr>], schema_groups = []\<rparr>" "[]"]
  by simp

end
