(* ===== verification/XsdContent.thy ===== *)
theory XsdContent
  imports XsdSchema
begin

text \<open>
  Content-model evaluation (\<open>xsd/content_model.c\<close>): the compiled model is lowered into an automaton
  with empty transitions, and the children of an element are run through it as a set of live states.
  The automaton is a state record that the build functions thread; \<open>n->depth\<close>, which the code counts
  up and down around a group reference, is the nesting that is left (the argument of
  \<open>group_builder\<close>). Allocation is taken to succeed.
\<close>

section \<open>The automaton\<close>

record cm_trans =
  tr_from :: nat
  symbol :: int
  particle :: "xsd_cm option"
  tr_to :: nat

record cm_nfa =
  trans :: "cm_trans list"
  state_count :: nat
  overflow :: bool

definition XSD_CM_NFA_MAX :: nat where
  "XSD_CM_NFA_MAX = 1000000"

definition nfa_state :: "cm_nfa \<Rightarrow> nat \<times> cm_nfa" where
  "nfa_state n =
    (if overflow n then (0, n)
     else if state_count n \<ge> XSD_CM_NFA_MAX then (0, n\<lparr>overflow := True\<rparr>)
     else (state_count n, n\<lparr>state_count := state_count n + 1\<rparr>))"

definition nfa_trans :: "nat \<Rightarrow> int \<Rightarrow> xsd_cm option \<Rightarrow> nat \<Rightarrow> cm_nfa \<Rightarrow> cm_nfa" where
  "nfa_trans from sy p to n =
    (if overflow n then n
     else if length (trans n) \<ge> XSD_CM_NFA_MAX then n\<lparr>overflow := True\<rparr>
     else n\<lparr>trans := trans n @ [\<lparr>tr_from = from, symbol = sy, particle = p, tr_to = to\<rparr>]\<rparr>)"

text \<open>What building a node between two states does to the automaton.\<close>

type_synonym builder = "nat \<Rightarrow> nat \<Rightarrow> cm_nfa \<Rightarrow> cm_nfa"

text \<open>
  The copies of an occurrence range. A loop that returns from the function because of an overflow
  gives \<open>None\<close> for the state to go on from.
\<close>

fun min_copies :: "builder \<Rightarrow> nat \<Rightarrow> nat \<Rightarrow> cm_nfa \<Rightarrow> nat option \<times> cm_nfa" where
  "min_copies build 0 from n = (Some from, n)"
| "min_copies build (Suc k) from n =
    (if overflow n then (None, n)
     else case nfa_state n of (mid, n) \<Rightarrow> min_copies build k mid (build from mid n))"

fun opt_copies :: "builder \<Rightarrow> nat \<Rightarrow> nat \<Rightarrow> nat \<Rightarrow> cm_nfa \<Rightarrow> nat option \<times> cm_nfa" where
  "opt_copies build 0 from to n = (Some from, n)"
| "opt_copies build (Suc k) from to n =
    (if overflow n then (None, n)
     else case nfa_state (nfa_trans from (-1) None to n) of
       (mid, n) \<Rightarrow> opt_copies build k mid to (build from mid n))"

definition cm_build_occurrence :: "xsd_cm \<Rightarrow> builder \<Rightarrow> builder" where
  "cm_build_occurrence node build from to n =
    (if overflow n then n
     else case min_copies build (nat (min_occurs node)) from n of
       (None, n) \<Rightarrow> n
     | (Some from, n) \<Rightarrow>
         if max_occurs node < 0 then
           (case nfa_state n of (loop, n) \<Rightarrow>
              nfa_trans loop (-1) None to (build loop loop (nfa_trans from (-1) None loop n)))
         else
           (case opt_copies build (nat (max_occurs node - min_occurs node)) from to n of
              (None, n) \<Rightarrow> n
            | (Some from, n) \<Rightarrow> nfa_trans from (-1) None to n))"

text \<open>Open content: a wildcard that consumes a child and stays.\<close>

definition oc_loop :: "xsd_cm \<Rightarrow> nat \<Rightarrow> cm_nfa \<Rightarrow> cm_nfa" where
  "oc_loop node st n =
    (if open_any node = None \<or> oc_mode node = 0 then n else nfa_trans st 0 (open_any node) st n)"

definition interleave :: "xsd_cm \<Rightarrow> bool" where
  "interleave node \<longleftrightarrow> open_any node \<noteq> None \<and> oc_mode node = 2"

text \<open>The children of a group in order, each with what building it once does.\<close>

fun chain_children :: "xsd_cm \<Rightarrow> (xsd_cm \<times> builder) list \<Rightarrow> builder" where
  "chain_children node [] cursor to n = n"
| "chain_children node [(c, b)] cursor to n =
    (let n = cm_build_occurrence c b cursor to n in
     if open_any node \<noteq> None \<and> oc_mode node \<noteq> 0 then oc_loop node to n else n)"
| "chain_children node ((c, b) # c' # cs) cursor to n =
    (case nfa_state n of (mid, n) \<Rightarrow>
       let n = cm_build_occurrence c b cursor mid n;
           n = (if interleave node then oc_loop node mid n else n)
       in chain_children node (c' # cs) mid to n)"

definition cm_build_children :: "xsd_cm \<Rightarrow> (xsd_cm \<times> builder) list \<Rightarrow> builder" where
  "cm_build_children node cs from to n =
    (if cs = [] then nfa_trans from (-1) None to n
     else chain_children node cs from to (if interleave node then oc_loop node from n else n))"

definition build_choice :: "(xsd_cm \<times> builder) list \<Rightarrow> builder" where
  "build_choice cs from to n =
    (if cs = [] then nfa_trans from (-1) None to n
     else fold (\<lambda>(c, b). cm_build_occurrence c b from to) cs n)"

text \<open>\<open>cm_build\<close>; \<open>expand\<close> builds the model of the group that a reference names.\<close>

fun cm_build :: "(bytes option \<Rightarrow> builder option) \<Rightarrow> xsd_cm \<Rightarrow> builder" where
  "cm_build expand (XsdCm k nm ns a q u mn mx cs oa om) = (\<lambda>from to n.
    let node = XsdCm k nm ns a q u mn mx cs oa om; bs = map (\<lambda>c. (c, cm_build expand c)) cs in
    case k of
      XSD_CM_ELEMENT \<Rightarrow> nfa_trans from 0 (Some node) to n
    | XSD_CM_ANY \<Rightarrow> nfa_trans from 0 (Some node) to n
    | XSD_CM_SEQ \<Rightarrow> cm_build_children node bs from to n
    | XSD_CM_ALL \<Rightarrow> cm_build_children node bs from to n
    | XSD_CM_GROUP_REF \<Rightarrow>
        (case expand nm of None \<Rightarrow> nfa_trans from (-1) None to n | Some b \<Rightarrow> b from to n)
    | XSD_CM_CHOICE \<Rightarrow> build_choice bs from to n)"

definition group_body :: "schema \<Rightarrow> bytes option \<Rightarrow> xsd_cm option" where
  "group_body s name = Option.bind (xsd_find_group s name) group_model"

primrec group_builder :: "schema \<Rightarrow> nat \<Rightarrow> bytes option \<Rightarrow> builder option" where
  "group_builder s 0 name = None"
| "group_builder s (Suc left) name = map_option (cm_build (group_builder s left)) (group_body s name)"

text \<open>References nest while \<open>n->depth\<close> is at most 64, so 65 levels deep.\<close>

definition cm_build_model :: "schema \<Rightarrow> xsd_cm \<Rightarrow> builder" where
  "cm_build_model s node = cm_build_occurrence node (cm_build (group_builder s 65) node)"

section \<open>The size bound\<close>

text \<open>
  \<open>cm_bound_over\<close>: whether the bound is crossed, and what it stores through the out-parameter, \<open>None\<close>
  where it returns without a store. The caller of the group case then reads an uninitialised
  variable, whose value is \<open>indet\<close>. The nesting left is the first argument.
\<close>

definition bound_copies :: "xsd_cm \<Rightarrow> nat" where
  "bound_copies node = (if max_occurs node < 0 then nat (min_occurs node) + 1 else nat (max_occurs node))"

definition bound_finish :: "xsd_cm \<Rightarrow> nat \<Rightarrow> bool \<times> nat option" where
  "bound_finish node sub =
    (let copies = bound_copies node in
     if copies = 0 then (False, Some 0)
     else if sub \<noteq> 0 \<and> copies > XSD_CM_NFA_MAX div sub then (True, None)
     else (sub * copies + 1 > XSD_CM_NFA_MAX, Some (sub * copies + 1)))"

fun bound_sum :: "(bool \<times> nat option) list \<Rightarrow> nat \<Rightarrow> nat option" where
  "bound_sum [] sub = Some sub"
| "bound_sum ((over, cb) # cs) sub =
    (if over \<or> sub > XSD_CM_NFA_MAX then None
     else bound_sum cs (sub + (case cb of None \<Rightarrow> 0 | Some v \<Rightarrow> v)))"

primrec cm_bound_over :: "nat \<Rightarrow> nat \<Rightarrow> schema \<Rightarrow> xsd_cm \<Rightarrow> bool \<times> nat option" where
  "cm_bound_over 0 indet s node = (False, None)"
| "cm_bound_over (Suc left) indet s node =
    (case cm_kind node of
       XSD_CM_ELEMENT \<Rightarrow> bound_finish node 1
     | XSD_CM_ANY \<Rightarrow> bound_finish node 1
     | XSD_CM_GROUP_REF \<Rightarrow>
         bound_finish node
           (case group_body s (cm_name node) of
              None \<Rightarrow> 1
            | Some g \<Rightarrow>
                (case cm_bound_over left indet s g of
                   (True, _) \<Rightarrow> 1
                 | (False, None) \<Rightarrow> indet
                 | (False, Some sub) \<Rightarrow> sub))
     | _ \<Rightarrow>
         (case bound_sum (map (cm_bound_over left indet s) (children node)) 0 of
            None \<Rightarrow> (True, None)
          | Some sub \<Rightarrow> bound_finish node sub))"

section \<open>Wildcards\<close>

definition xml_blank :: "u8 \<Rightarrow> bool" where
  "xml_blank b \<longleftrightarrow> b = 0x20 \<or> b = 0x09 \<or> b = 0x0A \<or> b = 0x0D"

text \<open>The two token loops: skip blanks, take a token, stop at an empty one.\<close>

fun cm_not_qname_hits :: "bytes \<Rightarrow> schema \<Rightarrow> bytes \<Rightarrow> bytes option \<Rightarrow> bool" where
  "cm_not_qname_hits p s local uri =
    (case dropWhile xml_blank p of
       [] \<Rightarrow> False
     | b # bs \<Rightarrow>
         let tok = b # takeWhile (\<lambda>c. \<not> xml_blank c) bs; rest = dropWhile (\<lambda>c. \<not> xml_blank c) bs in
         if tok = ascii ''##defined'' then
           (if xsd_element_name_defined s (Some local) uri then True else cm_not_qname_hits rest s local uri)
         else if 0x3A \<in> set tok then cm_not_qname_hits rest s local uri
         else if uri = None \<and> local = tok then True
         else cm_not_qname_hits rest s local uri)"

definition other_ns :: "bytes option \<Rightarrow> bytes option \<Rightarrow> bool" where
  "other_ns uri target_ns \<longleftrightarrow> uri \<noteq> None \<and> \<not> (target_ns \<noteq> None \<and> uri = target_ns)"

fun ns_list_matches :: "bytes \<Rightarrow> bytes option \<Rightarrow> bytes option \<Rightarrow> bool" where
  "ns_list_matches p uri target_ns =
    (case dropWhile xml_blank p of
       [] \<Rightarrow> False
     | b # bs \<Rightarrow>
         let tok = b # takeWhile (\<lambda>c. \<not> xml_blank c) bs; rest = dropWhile (\<lambda>c. \<not> xml_blank c) bs in
         if tok = ascii ''##local'' then
           (if uri = None then True else ns_list_matches rest uri target_ns)
         else if tok = ascii ''##targetNamespace'' then
           (if target_ns \<noteq> None \<and> uri = target_ns then True else ns_list_matches rest uri target_ns)
         else if tok = ascii ''##other'' then
           (if other_ns uri target_ns then True else ns_list_matches rest uri target_ns)
         else if uri = Some tok then True
         else ns_list_matches rest uri target_ns)"

definition any_ns_matches :: "xsd_cm \<Rightarrow> bytes option \<Rightarrow> bytes option \<Rightarrow> bool" where
  "any_ns_matches any uri target_ns =
    (let f = (case any_ns any of None \<Rightarrow> ascii ''##any'' | Some f \<Rightarrow> f) in
     if f = ascii ''##any'' then True
     else if f = ascii ''##local'' then uri = None
     else if f = ascii ''##targetNamespace'' then target_ns \<noteq> None \<and> uri = target_ns
     else if f = ascii ''##other'' then other_ns uri target_ns
     else ns_list_matches f uri target_ns)"

section \<open>Simulation\<close>

text \<open>A child of the instance: its local name and its namespace.\<close>

type_synonym child = "bytes \<times> bytes option"

text \<open>Whether a transition's particle takes a child (the body of the simulation loop).\<close>

definition element_takes :: "schema \<Rightarrow> xsd_cm \<Rightarrow> child \<Rightarrow> bool" where
  "element_takes s p c =
    (case c of (name, uri) \<Rightarrow>
      (let member = (case (s, cm_name p) of (Some s, Some head) \<Rightarrow> xsd_substitute_member s name head | _ \<Rightarrow> None);
           direct = (cm_name p = Some name);
           named = (direct \<or> member \<noteq> None);
           pns = (if direct then cm_ns p
                  else case member of None \<Rightarrow> cm_ns p
                    | Some m \<Rightarrow> if decl_ns m \<noteq> None then decl_ns m else cm_ns p);
           child_ns = has_ns uri;
           pns_ok = (if pns \<noteq> None then \<not> child_ns \<or> uri = pns
                     else \<not> child_ns \<or>
                       (s \<noteq> None \<and> xsd_find_element_child_ns s (Some name) uri = None))
       in named \<and> pns_ok))"

definition any_takes :: "schema \<Rightarrow> bytes option \<Rightarrow> xsd_cm \<Rightarrow> child \<Rightarrow> bool" where
  "any_takes s target_ns p c =
    (case c of (name, uri) \<Rightarrow>
      any_ns_matches p uri (if any_unit_tns p \<noteq> None then any_unit_tns p else target_ns) \<and>
      \<not> (case not_qname p of None \<Rightarrow> False | Some q \<Rightarrow> cm_not_qname_hits q s name uri))"

definition takes :: "schema \<Rightarrow> bytes option \<Rightarrow> xsd_cm \<Rightarrow> child \<Rightarrow> bool" where
  "takes s target_ns p c =
    (case cm_kind p of
       XSD_CM_ELEMENT \<Rightarrow> element_takes s p c
     | XSD_CM_ANY \<Rightarrow> any_takes s target_ns p c
     | _ \<Rightarrow> False)"

definition ss_add :: "nat \<Rightarrow> nat list \<Rightarrow> nat list" where
  "ss_add st ss = (if st \<in> set ss then ss else ss @ [st])"

definition close_state :: "cm_trans list \<Rightarrow> nat \<Rightarrow> nat list \<Rightarrow> nat list" where
  "close_state ts st ss = fold (\<lambda>t ss. if tr_from t = st \<and> symbol t = -1 then ss_add (tr_to t) ss else ss) ts ss"

text \<open>The fixpoint over the empty transitions: the set grows while it is walked.\<close>

lemma set_ss_add [simp]: "set (ss_add st ss) = insert st (set ss)"
  by (auto simp: ss_add_def)

lemma set_close_state:
  "set (close_state ts st ss) = set ss \<union> {tr_to t | t. t \<in> set ts \<and> tr_from t = st \<and> symbol t = -1}"
  unfolding close_state_def by (induction ts arbitrary: ss) auto

definition close_room :: "cm_trans list \<Rightarrow> nat list \<Rightarrow> nat" where
  "close_room ts ss = length ss + card (tr_to ` set ts - set ss)"

lemma ss_add_room: "st \<in> tr_to ` set ts \<Longrightarrow> close_room ts (ss_add st ss) = close_room ts ss"
proof (cases "st \<in> set ss")
  case False
  assume "st \<in> tr_to ` set ts"
  then have "card (tr_to ` set ts - set ss) = Suc (card (tr_to ` set ts - set ss - {st}))"
    using False by (intro card.remove) auto
  moreover have "tr_to ` set ts - set ss - {st} = tr_to ` set ts - insert st (set ss)" by auto
  ultimately show ?thesis using False by (simp add: close_room_def ss_add_def)
qed (simp add: close_room_def ss_add_def)

lemma close_state_grows: "\<exists>new. close_state ts st ss = ss @ new"
  unfolding close_state_def
proof (induction ts arbitrary: ss)
  case (Cons t ts)
  show ?case using Cons[of "ss"] Cons[of "ss_add (tr_to t) ss"] by (auto simp: ss_add_def)
qed simp

lemma close_state_room: "close_room ts (close_state ts st ss) = close_room ts ss"
proof -
  have "set us \<subseteq> set ts \<Longrightarrow> close_room ts (close_state us st ss) = close_room ts ss" for us
    unfolding close_state_def by (induction us arbitrary: ss) (auto simp: ss_add_room)
  then show ?thesis by blast
qed

function ss_close_loop :: "cm_trans list \<Rightarrow> nat \<Rightarrow> nat list \<Rightarrow> nat list" where
  "ss_close_loop ts i ss = (if i < length ss then ss_close_loop ts (i + 1) (close_state ts (ss ! i) ss) else ss)"
  by pat_completeness auto
termination
proof (relation "measure (\<lambda>(ts, i, ss). close_room ts ss - i)")
  fix ts i and ss :: "nat list"
  assume "i < length ss"
  then have "i < close_room ts ss" by (simp add: close_room_def)
  then show "((ts, i + 1, close_state ts (ss ! i) ss), ts, i, ss) \<in> measure (\<lambda>(ts, i, ss). close_room ts ss - i)"
    by (simp add: close_state_room)
qed simp

declare ss_close_loop.simps [simp del]

definition ss_close :: "cm_nfa \<Rightarrow> nat list \<Rightarrow> nat list" where
  "ss_close n ss = ss_close_loop (trans n) 0 ss"

definition live_step :: "schema \<Rightarrow> bytes option \<Rightarrow> cm_nfa \<Rightarrow> nat list \<Rightarrow> child \<Rightarrow> nat list" where
  "live_step s target_ns n live c =
    fold (\<lambda>st next. fold (\<lambda>t next.
        if tr_from t \<noteq> st \<or> symbol t = -1 then next
        else (case particle t of
                Some p \<Rightarrow> if takes s target_ns p c then ss_add (tr_to t) next else next
              | None \<Rightarrow> next)) (trans n) next) live []"

fun simulate :: "schema \<Rightarrow> bytes option \<Rightarrow> cm_nfa \<Rightarrow> nat list \<Rightarrow> child list \<Rightarrow> nat list" where
  "simulate s target_ns n live [] = live"
| "simulate s target_ns n live (c # cs) =
    (let live = ss_close n (live_step s target_ns n live c) in
     if live = [] then [] else simulate s target_ns n live cs)"

section \<open>The entry point\<close>

text \<open>\<open>xs:all\<close> at the root: count the hits of every particle, then look for strangers.\<close>

definition all_takes :: "xsd_cm \<Rightarrow> child \<Rightarrow> bool" where
  "all_takes p c =
    (case c of (name, uri) \<Rightarrow>
      cm_name p = Some name \<and>
      (if cm_ns p \<noteq> None then \<not> has_ns uri \<or> uri = cm_ns p else \<not> has_ns uri))"

definition all_hits :: "xsd_cm \<Rightarrow> child list \<Rightarrow> nat" where
  "all_hits p cs = length (filter (all_takes p) cs)"

definition all_root_valid :: "xsd_cm \<Rightarrow> child list \<Rightarrow> int" where
  "all_root_valid all cs =
    (if cs = [] \<and> min_occurs all = 0 then 1
     else if list_ex (\<lambda>p. int (all_hits p cs) < min_occurs p \<or>
         (max_occurs p \<ge> 0 \<and> int (all_hits p cs) > max_occurs p)) (children all) then 0
     else if list_ex (\<lambda>c. \<not> list_ex (\<lambda>p. all_takes p c) (children all)) cs then 0
     else 1)"

definition empty_nfa :: cm_nfa where
  "empty_nfa = \<lparr>trans = [], state_count = 0, overflow = False\<rparr>"

definition xsd_content_valid :: "nat \<Rightarrow> schema \<Rightarrow> xsd_cm option \<Rightarrow> bytes option \<Rightarrow> child list \<Rightarrow> int" where
  "xsd_content_valid indet s model target_ns cs =
    (case model of
       None \<Rightarrow> -1
     | Some m \<Rightarrow>
         if cm_kind m = XSD_CM_ALL \<and> children m \<noteq> [] then all_root_valid m cs
         else
           case nfa_state empty_nfa of (start, n) \<Rightarrow>
           case nfa_state n of (accept, n) \<Rightarrow>
           if fst (cm_bound_over 65 indet s m) then -2
           else
             let n = cm_build_model s m start accept n in
             if overflow n then -2
             else
               let live = simulate s target_ns n (ss_close n (ss_add start [])) cs in
               if list_ex (\<lambda>st. st = accept) live then 1 else 0)"

end
