(* ===== verification/Automata.thy ===== *)
theory Automata
  imports Main
begin

text \<open>
  Languages of words over any alphabet, and paths through a graph whose edges carry words: the
  abstract side of the content-model automata. An edge set may mix the transitions of an automaton
  with whole languages (\<open>macro\<close>), so that a part of an automaton is replaced by the language it reads
  without looking at the rest.
\<close>

section \<open>Languages\<close>

definition conc :: "'a list set \<Rightarrow> 'a list set \<Rightarrow> 'a list set" where
  "conc A B = {u @ v | u v. u \<in> A \<and> v \<in> B}"

primrec lang_pow :: "nat \<Rightarrow> 'a list set \<Rightarrow> 'a list set" where
  "lang_pow 0 L = {[]}"
| "lang_pow (Suc k) L = conc L (lang_pow k L)"

definition lang_star :: "'a list set \<Rightarrow> 'a list set" where
  "lang_star L = (\<Union>k. lang_pow k L)"

text \<open>Between \<open>lo\<close> and \<open>hi\<close> repetitions; no upper bound where \<open>hi\<close> is negative.\<close>

definition occurs :: "int \<Rightarrow> int \<Rightarrow> 'a list set \<Rightarrow> 'a list set" where
  "occurs lo hi L = {w. \<exists>k. lo \<le> int k \<and> (hi < 0 \<or> int k \<le> hi) \<and> w \<in> lang_pow k L}"

lemma concI: "u \<in> A \<Longrightarrow> v \<in> B \<Longrightarrow> u @ v \<in> conc A B"
  by (auto simp: conc_def)

lemma concE: "w \<in> conc A B \<Longrightarrow> (\<And>u v. w = u @ v \<Longrightarrow> u \<in> A \<Longrightarrow> v \<in> B \<Longrightarrow> thesis) \<Longrightarrow> thesis"
  by (auto simp: conc_def)

lemma conc_nil [simp]: "conc {[]} A = A" "conc A {[]} = A" "conc {} A = {}" "conc A {} = {}"
  by (auto simp: conc_def)

lemma conc_iff: "w \<in> conc A B \<longleftrightarrow> (\<exists>u \<in> A. \<exists>v \<in> B. w = u @ v)"
  by (auto simp: conc_def)

lemma occurs_once [simp]: "occurs 1 1 L = L"
proof -
  have "1 \<le> int k \<and> ((1::int) < 0 \<or> int k \<le> 1) \<longleftrightarrow> k = Suc 0" for k by auto
  then have "occurs 1 1 L = {w. \<exists>k. k = Suc 0 \<and> w \<in> lang_pow k L}"
    unfolding occurs_def by (metis (no_types, lifting))
  then show ?thesis by simp
qed

lemma conc_assoc: "conc (conc A B) C = conc A (conc B C)"
proof (intro set_eqI iffI)
  fix w assume "w \<in> conc (conc A B) C"
  then obtain x c where x: "w = x @ c" "x \<in> conc A B" "c \<in> C" by (rule concE)
  from x(2) obtain a b where ab: "x = a @ b" "a \<in> A" "b \<in> B" by (rule concE)
  have "a @ (b @ c) \<in> conc A (conc B C)" by (intro concI ab x)
  then show "w \<in> conc A (conc B C)" by (simp add: x ab)
next
  fix w assume "w \<in> conc A (conc B C)"
  then obtain a x where x: "w = a @ x" "a \<in> A" "x \<in> conc B C" by (rule concE)
  from x(3) obtain b c where bc: "x = b @ c" "b \<in> B" "c \<in> C" by (rule concE)
  have "(a @ b) @ c \<in> conc (conc A B) C" by (intro concI bc x)
  then show "w \<in> conc (conc A B) C" by (simp add: x bc)
qed

lemma conc_Un: "conc (A \<union> B) C = conc A C \<union> conc B C" "conc A (B \<union> C) = conc A B \<union> conc A C"
  by (auto simp: conc_def)

lemma star_nil: "[] \<in> lang_star L"
  unfolding lang_star_def by (rule UN_I[of 0]) simp_all

lemma star_empty [simp]: "lang_star {} = {[]}"
proof -
  have "lang_pow k {} \<subseteq> {[]}" for k :: nat by (cases k) auto
  then show ?thesis using star_nil[of "{}"] unfolding lang_star_def by blast
qed

lemma star_cons: "u \<in> L \<Longrightarrow> v \<in> lang_star L \<Longrightarrow> u @ v \<in> lang_star L"
proof -
  assume "u \<in> L" "v \<in> lang_star L"
  then obtain k where "u @ v \<in> lang_pow (Suc k) L" by (auto simp: lang_star_def intro: concI)
  then show "u @ v \<in> lang_star L" unfolding lang_star_def by blast
qed
lemma star_induct [consumes 1, case_names nil step]:
  assumes "w \<in> lang_star L" "P []" "\<And>u v. u \<in> L \<Longrightarrow> v \<in> lang_star L \<Longrightarrow> P v \<Longrightarrow> P (u @ v)"
  shows "P w"
proof -
  obtain k where "w \<in> lang_pow k L" using assms(1) by (auto simp: lang_star_def)
  then show ?thesis
  proof (induction k arbitrary: w)
    case (Suc k)
    then obtain u v where "w = u @ v" "u \<in> L" "v \<in> lang_pow k L" by (auto elim: concE)
    with Suc.IH[of v] assms(3) show ?case by (auto simp: lang_star_def)
  qed (simp add: assms(2))
qed

lemma lang_pow_add: "lang_pow (j + k) L = conc (lang_pow j L) (lang_pow k L)"
  by (induction j) (simp_all add: conc_assoc)

lemma conc_Union: "conc A (\<Union>(f ` I)) = \<Union>((\<lambda>i. conc A (f i)) ` I)"
  by (auto simp: conc_def)

text \<open>At least \<open>k\<close> repetitions, and up to \<open>k\<close>.\<close>

lemma pow_star: "conc (lang_pow k L) (lang_star L) = {w. \<exists>j \<ge> k. w \<in> lang_pow j L}"
proof -
  have "conc (lang_pow k L) (lang_star L) = (\<Union>i. lang_pow (k + i) L)"
    unfolding lang_star_def conc_Union lang_pow_add ..
  then show ?thesis by (auto simp: le_iff_add)
qed

primrec upto_lang :: "nat \<Rightarrow> 'a list set \<Rightarrow> 'a list set \<Rightarrow> 'a list set" where
  "upto_lang 0 L K = K"
| "upto_lang (Suc k) L K = {[]} \<union> conc L (upto_lang k L K)"

lemma upto_pow: "upto_lang k L {[]} = {w. \<exists>j \<le> k. w \<in> lang_pow j L}"
proof (induction k)
  case (Suc k)
  have "conc L {w. \<exists>j \<le> k. w \<in> lang_pow j L} = {w. \<exists>j \<le> k. w \<in> conc L (lang_pow j L)}"
    by (auto simp: conc_def)
  moreover have "{w. \<exists>j \<le> Suc k. w \<in> lang_pow j L} = {[]} \<union> {w. \<exists>j \<le> k. w \<in> conc L (lang_pow j L)}"
  proof (intro set_eqI iffI)
    fix w assume "w \<in> {w. \<exists>j \<le> Suc k. w \<in> lang_pow j L}"
    then obtain j where "j \<le> Suc k" "w \<in> lang_pow j L" by blast
    then show "w \<in> {[]} \<union> {w. \<exists>j \<le> k. w \<in> conc L (lang_pow j L)}" by (cases j) auto
  next
    fix w assume "w \<in> {[]} \<union> {w. \<exists>j \<le> k. w \<in> conc L (lang_pow j L)}"
    then consider "w = []" | j where "j \<le> k" "w \<in> conc L (lang_pow j L)" by blast
    then show "w \<in> {w. \<exists>j \<le> Suc k. w \<in> lang_pow j L}"
    proof cases
      case 1
      then show ?thesis by (auto intro: exI[of _ 0])
    next
      case 2
      then show ?thesis by (auto intro!: exI[of _ "Suc j"])
    qed
  qed
  ultimately show ?case using Suc by simp
qed simp

section \<open>Paths\<close>

type_synonym 'a edges = "(nat \<times> 'a list \<times> nat) set"

inductive path :: "'a edges \<Rightarrow> nat \<Rightarrow> 'a list \<Rightarrow> nat \<Rightarrow> bool" for E where
  path_nil: "path E p [] p"
| path_step: "(p, u, r) \<in> E \<Longrightarrow> path E r v q \<Longrightarrow> path E p (u @ v) q"

inductive_cases path_from: "path E p w q"

lemma path_append: "path E p u r \<Longrightarrow> path E r v q \<Longrightarrow> path E p (u @ v) q"
  by (induction rule: path.induct) (auto intro: path.intros)

lemma path_edge: "(p, u, q) \<in> E \<Longrightarrow> path E p u q"
  using path_step[OF _ path_nil] by fastforce

lemma path_map:
  assumes "path E p w q" "\<And>p u r. (p, u, r) \<in> E \<Longrightarrow> path E' p u r"
  shows "path E' p w q"
  using assms(1) by (induction rule: path.induct) (auto intro: path.intros path_append assms(2))

lemma path_mono: "path E p w q \<Longrightarrow> E \<subseteq> E' \<Longrightarrow> path E' p w q"
  by (rule path_map) (auto intro: path_edge)

definition macro :: "nat \<Rightarrow> 'a list set \<Rightarrow> nat \<Rightarrow> 'a edges" where
  "macro p L q = {(p, w, q) | w. w \<in> L}"

lemma macro_Un: "macro p (A \<union> B) q = macro p A q \<union> macro p B q"
  by (auto simp: macro_def)

lemma macro_iff [simp]: "(a, w, b) \<in> macro p L q \<longleftrightarrow> a = p \<and> b = q \<and> w \<in> L"
  by (auto simp: macro_def)

text \<open>The states that an edge set mentions.\<close>

definition within :: "nat set \<Rightarrow> 'a edges \<Rightarrow> bool" where
  "within S E \<longleftrightarrow> (\<forall>p w q. (p, w, q) \<in> E \<longrightarrow> p \<in> S \<and> q \<in> S)"

definition avoids :: "nat set \<Rightarrow> 'a edges \<Rightarrow> bool" where
  "avoids S E \<longleftrightarrow> (\<forall>p w q. (p, w, q) \<in> E \<longrightarrow> p \<notin> S \<and> q \<notin> S)"

lemma within_Un [simp]: "within S (E \<union> E') \<longleftrightarrow> within S E \<and> within S E'"
  by (auto simp: within_def)

lemma avoids_Un [simp]: "avoids S (E \<union> E') \<longleftrightarrow> avoids S E \<and> avoids S E'"
  by (auto simp: avoids_def)

lemma within_mono: "within S E \<Longrightarrow> S \<subseteq> S' \<Longrightarrow> within S' E"
  by (auto simp: within_def)

lemma avoids_mono: "avoids S E \<Longrightarrow> S' \<subseteq> S \<Longrightarrow> avoids S' E"
  by (fastforce simp: avoids_def)

lemma within_avoids: "within S E \<Longrightarrow> S \<inter> S' = {} \<Longrightarrow> avoids S' E"
  by (fastforce simp: within_def avoids_def)

lemma within_macro: "p \<in> S \<Longrightarrow> q \<in> S \<Longrightarrow> within S (macro p L q)"
  by (auto simp: within_def macro_def)

lemma within_empty [simp]: "within S {}" "avoids S {}"
  by (simp_all add: within_def avoids_def)

text \<open>Two edge sets that agree on the paths between states outside \<open>S\<close>.\<close>

definition same_paths :: "nat set \<Rightarrow> 'a edges \<Rightarrow> 'a edges \<Rightarrow> bool" where
  "same_paths S E E' \<longleftrightarrow> (\<forall>p w q. p \<notin> S \<longrightarrow> q \<notin> S \<longrightarrow> path E p w q = path E' p w q)"

lemma same_paths_refl: "same_paths S E E"
  by (simp add: same_paths_def)

lemma same_paths_trans: "same_paths S E E' \<Longrightarrow> same_paths S' E' E'' \<Longrightarrow> same_paths (S \<union> S') E E''"
  by (simp add: same_paths_def)

text \<open>Eliminating a state: the edges through it become the concatenations.\<close>

lemma eliminate_state:
  assumes R: "avoids {m} R" and ft: "from \<noteq> m" "to \<noteq> m"
  shows "same_paths {m} (R \<union> (macro from A m \<union> macro m L m \<union> macro m C to))
    (R \<union> macro from (conc A (conc (lang_star L) C)) to)"
    (is "same_paths _ ?E ?E'")
  unfolding same_paths_def
proof (intro allI impI iffI)
  fix p w q assume "path ?E p w q"
  then have "q \<noteq> m \<Longrightarrow> (if p = m then \<exists>l c v. w = l @ c @ v \<and> l \<in> lang_star L \<and> c \<in> C \<and> path ?E' to v q
      else path ?E' p w q)"
  proof (induction rule: path.induct)
    case (path_nil p)
    then show ?case by (auto intro: path.path_nil)
  next
    case (path_step p u r v q)
    from path_step.hyps(1) R consider
      (R) "(p, u, r) \<in> R" "p \<noteq> m" "r \<noteq> m" | (into) "p = from" "r = m" "u \<in> A"
      | (loop) "p = m" "r = m" "u \<in> L" | (out) "p = m" "r = to" "u \<in> C"
      by (auto simp: avoids_def)
    then show ?case
    proof cases
      case R
      then show ?thesis using path_step by (auto intro: path.path_step)
    next
      case into
      have "r \<noteq> q" using into(2) path_step.prems by simp
      with path_step.IH path_step.prems into(2) obtain l c x where
        x: "v = l @ c @ x" "l \<in> lang_star L" "c \<in> C" "path ?E' to x q" by auto
      have "u @ (l @ c) \<in> conc A (conc (lang_star L) C)" by (intro concI into x)
      then have "path ?E' from ((u @ (l @ c)) @ x) q"
        by (intro path.path_step[OF _ x(4)]) simp
      then show ?thesis using into(1) x(1) ft by simp
    next
      case loop
      with path_step.IH path_step.prems obtain l c x where
        x: "v = l @ c @ x" "l \<in> lang_star L" "c \<in> C" "path ?E' to x q" by auto
      have "u @ l \<in> lang_star L" by (rule star_cons[OF loop(3) x(2)])
      moreover have "u @ v = (u @ l) @ c @ x" using x(1) by simp
      ultimately have "\<exists>l c x. u @ v = l @ c @ x \<and> l \<in> lang_star L \<and> c \<in> C \<and> path ?E' to x q"
        using x(3,4) by blast
      then show ?thesis using loop(1) by simp
    next
      case out
      have "path ?E' to v q" using path_step.IH path_step.prems out ft by simp
      moreover have "u @ v = [] @ u @ v" by simp
      ultimately have "\<exists>l c x. u @ v = l @ c @ x \<and> l \<in> lang_star L \<and> c \<in> C \<and> path ?E' to x q"
        using out(3) star_nil by blast
      then show ?thesis using out(1) by simp
    qed
  qed
  then show "p \<notin> {m} \<Longrightarrow> q \<notin> {m} \<Longrightarrow> path ?E' p w q" by simp
next
  have star: "path ?E m l m" if "l \<in> lang_star L" for l
    using that by (induction rule: star_induct) (auto intro: path.intros)
  fix p w q assume "path ?E' p w q"
  then show "path ?E p w q"
  proof (rule path_map)
    fix p u r assume e: "(p, u, r) \<in> ?E'"
    show "path ?E p u r"
    proof (cases "(p, u, r) \<in> R")
      case False
      with e have pr: "p = from" "r = to" and u: "u \<in> conc A (conc (lang_star L) C)" by auto
      from u obtain a y where a: "u = a @ y" "a \<in> A" "y \<in> conc (lang_star L) C" by (rule concE)
      from a(3) obtain l c where l: "y = l @ c" "l \<in> lang_star L" "c \<in> C" by (rule concE)
      have "path ?E from a m" "path ?E m c to" using a(2) l(3) by (auto intro: path_edge)
      then have "path ?E from (a @ (l @ c)) to" using star[OF l(2)] by (blast intro: path_append)
      then show ?thesis by (simp add: pr a(1) l(1))
    qed (auto intro: path_edge)
  qed
qed

end
