(* ===== verification/XsdLanguage.thy ===== *)
theory XsdLanguage
  imports XsdContent Automata
begin

text \<open>
  The automaton of a content model accepts the regular language of the model, and the simulation of
  live states decides that language.
\<close>

section \<open>The language of a content model\<close>

type_synonym lang = "child list set"

text \<open>
  What a node denotes, taken once: a particle one child, a sequence the concatenation of its members
  in their occurrence ranges, a choice one of them. An empty group, or a reference that does not
  resolve, takes nothing.
\<close>

fun cm_lang :: "(xsd_cm \<Rightarrow> child \<Rightarrow> bool) \<Rightarrow> (bytes option \<Rightarrow> lang option) \<Rightarrow> xsd_cm \<Rightarrow> lang" where
  "cm_lang tk expand (XsdCm k nm ns a q u mn mx cs oa om) =
    (let ls = map (\<lambda>c. occurs (min_occurs c) (max_occurs c) (cm_lang tk expand c)) cs in
     case k of
       XSD_CM_ELEMENT \<Rightarrow> {[c] | c. tk (XsdCm k nm ns a q u mn mx cs oa om) c}
     | XSD_CM_ANY \<Rightarrow> {[c] | c. tk (XsdCm k nm ns a q u mn mx cs oa om) c}
     | XSD_CM_SEQ \<Rightarrow> foldr conc ls {[]}
     | XSD_CM_ALL \<Rightarrow> foldr conc ls {[]}
     | XSD_CM_GROUP_REF \<Rightarrow> (case expand nm of None \<Rightarrow> {[]} | Some L \<Rightarrow> L)
     | XSD_CM_CHOICE \<Rightarrow> (if cs = [] then {[]} else \<Union>(set ls)))"

primrec group_lang :: "schema \<Rightarrow> (xsd_cm \<Rightarrow> child \<Rightarrow> bool) \<Rightarrow> nat \<Rightarrow> bytes option \<Rightarrow> lang option" where
  "group_lang s tk 0 name = None"
| "group_lang s tk (Suc left) name = map_option (cm_lang tk (group_lang s tk left)) (group_body s name)"

definition model_lang :: "schema \<Rightarrow> bytes option \<Rightarrow> xsd_cm \<Rightarrow> lang" where
  "model_lang s target_ns m =
    occurs (min_occurs m) (max_occurs m) (cm_lang (takes s target_ns) (group_lang s (takes s target_ns) 65) m)"

text \<open>Occurrence bounds as the schema language has them, and no open content.\<close>

definition node_ok :: "xsd_cm \<Rightarrow> bool" where
  "node_ok m \<longleftrightarrow> 0 \<le> min_occurs m \<and> (max_occurs m < 0 \<or> min_occurs m \<le> max_occurs m)
    \<and> (open_any m = None \<or> oc_mode m = 0)"

fun model_ok :: "xsd_cm \<Rightarrow> bool" where
  "model_ok (XsdCm k nm ns a q u mn mx cs oa om) \<longleftrightarrow>
    node_ok (XsdCm k nm ns a q u mn mx cs oa om) \<and> list_all model_ok cs"

section \<open>Segments of an automaton\<close>

definition edges_of :: "(xsd_cm \<Rightarrow> child \<Rightarrow> bool) \<Rightarrow> cm_trans list \<Rightarrow> child edges" where
  "edges_of tk ts = {(p, w, q). \<exists>t \<in> set ts. tr_from t = p \<and> tr_to t = q \<and>
    (if symbol t = -1 then w = [] else \<exists>a c. particle t = Some a \<and> tk a c \<and> w = [c])}"

lemma edges_of_append [simp]: "edges_of tk (xs @ ys) = edges_of tk xs \<union> edges_of tk ys"
  by (auto simp: edges_of_def)

lemma edges_of_nil [simp]: "edges_of tk [] = {}"
  by (simp add: edges_of_def)

abbreviation fresh :: "cm_nfa \<Rightarrow> cm_nfa \<Rightarrow> nat set" where
  "fresh n n' \<equiv> {state_count n ..< state_count n'}"

text \<open>
  From \<open>n\<close> to \<open>n'\<close> the automaton grew by transitions between the old states \<open>P\<close> and the fresh ones
  that, seen from outside the fresh ones, amount to the edges \<open>M\<close>.
\<close>

definition seg :: "(xsd_cm \<Rightarrow> child \<Rightarrow> bool) \<Rightarrow> nat set \<Rightarrow> cm_nfa \<Rightarrow> child edges \<Rightarrow> cm_nfa \<Rightarrow> bool" where
  "seg tk P n M n' \<longleftrightarrow> P \<subseteq> {..<state_count n} \<and> state_count n \<le> state_count n' \<and> within P M
    \<and> (\<exists>ts. trans n' = trans n @ ts \<and> within (P \<union> fresh n n') (edges_of tk ts)
      \<and> (\<forall>R. avoids (fresh n n') R \<longrightarrow> same_paths (fresh n n') (R \<union> edges_of tk ts) (R \<union> M)))"

lemma seg_count: "seg tk P n M n' \<Longrightarrow> state_count n \<le> state_count n'"
  by (simp add: seg_def)

lemma seg_mono: "seg tk P n M n' \<Longrightarrow> P \<subseteq> P' \<Longrightarrow> P' \<subseteq> {..<state_count n} \<Longrightarrow> seg tk P' n M n'"
proof -
  assume seg: "seg tk P n M n'" and P: "P \<subseteq> P'" "P' \<subseteq> {..<state_count n}"
  from seg obtain ts where ts: "trans n' = trans n @ ts" "within (P \<union> fresh n n') (edges_of tk ts)"
    "\<forall>R. avoids (fresh n n') R \<longrightarrow> same_paths (fresh n n') (R \<union> edges_of tk ts) (R \<union> M)"
    and M: "state_count n \<le> state_count n'" "within P M" unfolding seg_def by blast
  have "within (P' \<union> fresh n n') (edges_of tk ts)" by (rule within_mono[OF ts(2)]) (use P in blast)
  then show "seg tk P' n M n'"
    unfolding seg_def using ts M P within_mono[OF M(2) P(1)] by blast
qed

lemma seg_refl: "P \<subseteq> {..<state_count n} \<Longrightarrow> seg tk P n {} n"
  unfolding seg_def by (auto intro!: exI[of _ "[]"] same_paths_refl)

lemma seg_compose:
  assumes "seg tk P n M n1" "seg tk P n1 M' n2" 
  shows "seg tk P n (M \<union> M') n2"
proof -
  from assms(1) obtain ts where P: "P \<subseteq> {..<state_count n}" and le: "state_count n \<le> state_count n1"
    and M: "within P M" and ts: "trans n1 = trans n @ ts" "within (P \<union> fresh n n1) (edges_of tk ts)"
    and eq: "\<And>R. avoids (fresh n n1) R \<Longrightarrow> same_paths (fresh n n1) (R \<union> edges_of tk ts) (R \<union> M)"
    unfolding seg_def by blast
  from assms(2) obtain ts' where le': "state_count n1 \<le> state_count n2"
    and M': "within P M'" and ts': "trans n2 = trans n1 @ ts'" "within (P \<union> fresh n1 n2) (edges_of tk ts')"
    and eq': "\<And>R. avoids (fresh n1 n2) R \<Longrightarrow> same_paths (fresh n1 n2) (R \<union> edges_of tk ts') (R \<union> M')"
    unfolding seg_def by blast
  have F: "fresh n n1 \<union> fresh n1 n2 = fresh n n2" using le le' by auto
  have "same_paths (fresh n n2) (R \<union> (edges_of tk ts \<union> edges_of tk ts')) (R \<union> (M \<union> M'))"
    if R: "avoids (fresh n n2) R" for R
  proof -
    have Rs: "avoids (fresh n n1) R" "avoids (fresh n1 n2) R"
      using R F by (metis avoids_mono Un_upper1, metis avoids_mono Un_upper2)
    have "avoids (fresh n n1) (edges_of tk ts')"
      by (rule within_avoids[OF ts'(2)]) (use P in auto)
    with Rs have a: "same_paths (fresh n n1) ((R \<union> edges_of tk ts') \<union> edges_of tk ts) ((R \<union> edges_of tk ts') \<union> M)"
      by (intro eq) simp
    have "avoids (fresh n1 n2) M"
      by (rule within_avoids[OF M]) (use P le in auto)
    with Rs have b: "same_paths (fresh n1 n2) ((R \<union> M) \<union> edges_of tk ts') ((R \<union> M) \<union> M')"
      by (intro eq') simp
    have "(R \<union> edges_of tk ts') \<union> M = (R \<union> M) \<union> edges_of tk ts'" by blast
    with same_paths_trans[OF a, of "fresh n1 n2" "(R \<union> M) \<union> M'"] b
    show ?thesis by (simp add: F Un_ac)
  qed
  moreover have "within (P \<union> fresh n n2) (edges_of tk (ts @ ts'))"
  proof -
    have "within (P \<union> fresh n n2) (edges_of tk ts)" "within (P \<union> fresh n n2) (edges_of tk ts')"
      by (rule within_mono[OF ts(2)], use F in blast, rule within_mono[OF ts'(2)], use F in blast)
    then show ?thesis by simp
  qed
  moreover have "trans n2 = trans n @ (ts @ ts')" using ts(1) ts'(1) by simp
  moreover have "within P (M \<union> M')" using M M' by simp
  moreover have "state_count n \<le> state_count n2" using le le' by simp
  ultimately show ?thesis
    unfolding seg_def using P by (intro conjI exI[of _ "ts @ ts'"] allI impI) simp_all
qed

text \<open>A fresh state that only \<open>from\<close> enters and only \<open>to\<close> follows is eliminated.\<close>

lemma seg_eliminate:
  assumes seg: "seg tk (insert m P) n0 (N \<union> (macro from A m \<union> macro m L m \<union> macro m C to)) n'"
    and n0: "m = state_count n" "state_count n0 = Suc (state_count n)" "trans n0 = trans n"
    and P: "P \<subseteq> {..<state_count n}" "from \<in> P" "to \<in> P" "within P N"
  shows "seg tk P n (N \<union> macro from (conc A (conc (lang_star L) C)) to) n'"
proof -
  from seg obtain ts where le: "state_count n0 \<le> state_count n'" and
    ts: "trans n' = trans n0 @ ts" "within (insert m P \<union> fresh n0 n') (edges_of tk ts)"
    and eq: "\<And>R. avoids (fresh n0 n') R \<Longrightarrow> same_paths (fresh n0 n') (R \<union> edges_of tk ts)
      (R \<union> (N \<union> (macro from A m \<union> macro m L m \<union> macro m C to)))"
    unfolding seg_def by blast
  have F: "fresh n n' = insert m (fresh n0 n')" using n0 le by auto
  have ne: "from \<noteq> m" "to \<noteq> m" using P n0 by auto
  have "same_paths (fresh n n') (R \<union> edges_of tk ts) (R \<union> (N \<union> macro from (conc A (conc (lang_star L) C)) to))"
    if R: "avoids (fresh n n') R" for R
  proof -
    have a: "same_paths (fresh n0 n') (R \<union> edges_of tk ts) ((R \<union> N) \<union> (macro from A m \<union> macro m L m \<union> macro m C to))"
      using eq[of R] R F by (auto simp: Un_assoc intro: avoids_mono)
    have "avoids {m} R" using R F by (auto intro: avoids_mono)
    moreover have "avoids {m} N" by (rule within_avoids[OF P(4)]) (use P n0 in auto)
    ultimately have b: "same_paths {m} ((R \<union> N) \<union> (macro from A m \<union> macro m L m \<union> macro m C to))
        ((R \<union> N) \<union> macro from (conc A (conc (lang_star L) C)) to)"
      by (intro eliminate_state ne) simp
    show ?thesis using same_paths_trans[OF a b] by (simp add: F Un_assoc)
  qed
  moreover have "within (P \<union> fresh n n') (edges_of tk ts)" using ts(2) F by simp
  ultimately show ?thesis
    unfolding seg_def using n0 le ts P
    by (auto intro!: exI[of _ ts] within_macro)
qed

lemma nfa_state_cases:
  assumes "\<not> overflow (snd (nfa_state n))"
  shows "\<not> overflow n" "fst (nfa_state n) = state_count n" "state_count (snd (nfa_state n)) = Suc (state_count n)"
    "trans (snd (nfa_state n)) = trans n"
  using assms by (auto simp: nfa_state_def split: if_splits)

lemma nfa_trans_seg:
  assumes "\<not> overflow (nfa_trans p sy a q n)"
  shows "\<not> overflow n" "state_count (nfa_trans p sy a q n) = state_count n"
    "p < state_count n \<Longrightarrow> q < state_count n \<Longrightarrow>
      seg tk {p, q} n (edges_of tk [\<lparr>tr_from = p, symbol = sy, particle = a, tr_to = q\<rparr>]) (nfa_trans p sy a q n)"
proof -
  have t: "\<not> overflow n \<and> nfa_trans p sy a q n =
      n\<lparr>trans := trans n @ [\<lparr>tr_from = p, symbol = sy, particle = a, tr_to = q\<rparr>]\<rparr>"
    using assms by (auto simp: nfa_trans_def split: if_splits)
  then show "\<not> overflow n" "state_count (nfa_trans p sy a q n) = state_count n" by simp_all
  show "seg tk {p, q} n (edges_of tk [\<lparr>tr_from = p, symbol = sy, particle = a, tr_to = q\<rparr>]) (nfa_trans p sy a q n)"
    if "p < state_count n" "q < state_count n"
    using t that unfolding seg_def
    by (auto simp: within_def edges_of_def intro!: same_paths_refl)
qed

lemma eps_edge: "edges_of tk [\<lparr>tr_from = p, symbol = -1, particle = a, tr_to = q\<rparr>] = macro p {[]} q"
  by (auto simp: edges_of_def macro_def)

lemma particle_edge:
  "edges_of tk [\<lparr>tr_from = p, symbol = 0, particle = Some a, tr_to = q\<rparr>] = macro p {[c] | c. tk a c} q"
  by (auto simp: edges_of_def macro_def)

section \<open>Building a node\<close>

text \<open>What a build function must do: add a segment that reads the language \<open>L\<close>.\<close>

definition builds :: "(xsd_cm \<Rightarrow> child \<Rightarrow> bool) \<Rightarrow> builder \<Rightarrow> lang \<Rightarrow> bool" where
  "builds tk b L \<longleftrightarrow> (\<forall>f t n. \<not> overflow (b f t n) \<longrightarrow> \<not> overflow n
    \<and> (f < state_count n \<longrightarrow> t < state_count n \<longrightarrow> seg tk {f, t} n (macro f L t) (b f t n)))"

lemma builds_live: "builds tk b L \<Longrightarrow> \<not> overflow (b f t n) \<Longrightarrow> \<not> overflow n"
  by (simp add: builds_def)

lemma builds_seg:
  "builds tk b L \<Longrightarrow> \<not> overflow (b f t n) \<Longrightarrow> f \<in> P \<Longrightarrow> t \<in> P \<Longrightarrow> P \<subseteq> {..<state_count n} \<Longrightarrow>
    seg tk P n (macro f L t) (b f t n)"
  unfolding builds_def by (rule seg_mono[of tk "{f, t}"]) auto

lemma nfa_trans_eps:
  "\<not> overflow (nfa_trans p (-1) a q n) \<Longrightarrow> p \<in> P \<Longrightarrow> q \<in> P \<Longrightarrow> P \<subseteq> {..<state_count n} \<Longrightarrow>
    seg tk P n (macro p {[]} q) (nfa_trans p (-1) a q n)"
proof (rule seg_mono[of tk "{p, q}"])
  assume a: "\<not> overflow (nfa_trans p (-1) a q n)" "p \<in> P" "q \<in> P" "P \<subseteq> {..<state_count n}"
  then have "p < state_count n" "q < state_count n" by blast+
  from nfa_trans_seg(3)[OF a(1) this] show "seg tk {p, q} n (macro p {[]} q) (nfa_trans p (-1) a q n)"
    unfolding eps_edge .
qed auto

lemma builds_eps: "builds tk (\<lambda>f t. nfa_trans f (-1) None t) {[]}"
  unfolding builds_def using nfa_trans_seg(1) nfa_trans_eps by fastforce

lemma builds_particle: "builds tk (\<lambda>f t. nfa_trans f 0 (Some a) t) {[c] | c. tk a c}"
  unfolding builds_def particle_edge[symmetric] using nfa_trans_seg(1,3) by blast

lemma seg_via:
  assumes "seg tk (insert m P) n0 (macro f A m) n1" "seg tk (insert m P) n1 (macro m C t) n2"
    and "m = state_count n" "state_count n0 = Suc (state_count n)" "trans n0 = trans n"
    and "P \<subseteq> {..<state_count n}" "f \<in> P" "t \<in> P"
  shows "seg tk P n (macro f (conc A C) t) n2"
proof -
  have "seg tk (insert m P) n0 ({} \<union> (macro f A m \<union> macro m {} m \<union> macro m C t)) n2"
    using seg_compose[OF assms(1,2)] by (simp add: macro_def)
  from seg_eliminate[OF this assms(3-8)] show ?thesis by simp
qed

lemma min_copies_facts:
  assumes b: "builds tk b L"
  shows "\<not> overflow (snd (min_copies b k f n)) \<Longrightarrow> \<not> overflow n
    \<and> (\<exists>f'. fst (min_copies b k f n) = Some f' \<and> (f < state_count n \<longrightarrow>
        f' < state_count (snd (min_copies b k f n)) \<and> state_count n \<le> state_count (snd (min_copies b k f n))))"
proof (induction k arbitrary: f n)
  case (Suc k)
  obtain mid n0 where s: "nfa_state n = (mid, n0)" by fastforce
  have no: "\<not> overflow n" using Suc.prems by (auto split: if_splits)
  have eq: "min_copies b (Suc k) f n = min_copies b k mid (b f mid n0)" using no s by simp
  have live: "\<not> overflow (b f mid n0)" using Suc.IH[of mid "b f mid n0"] Suc.prems eq by simp
  then have "\<not> overflow n0" by (rule builds_live[OF b])
  then have c: "mid = state_count n" "state_count n0 = Suc (state_count n)"
    using nfa_state_cases[of n] s by simp_all
  have "f < state_count n \<Longrightarrow> state_count n0 \<le> state_count (b f mid n0)"
    using builds_seg[OF b live, of "{f, mid}"] c by (auto dest: seg_count)
  then show ?case using Suc.IH[of mid "b f mid n0"] Suc.prems no c eq by (simp; force)
qed simp

lemma min_copies_seg:
  assumes b: "builds tk b L" and "min_copies b k f n = (Some f', n')" "\<not> overflow n'"
    and rest: "\<And>P. f' \<in> P \<Longrightarrow> t \<in> P \<Longrightarrow> P \<subseteq> {..<state_count n'} \<Longrightarrow> seg tk P n' (macro f' K t) n''"
    and "f \<in> P" "t \<in> P" "P \<subseteq> {..<state_count n}"
  shows "seg tk P n (macro f (conc (lang_pow k L) K) t) n''"
  using assms(2,3,5-)
proof (induction k arbitrary: f n P)
  case 0
  then show ?case using rest by simp
next
  case (Suc k)
  obtain mid n0 where s: "nfa_state n = (mid, n0)" by fastforce
  have eq: "min_copies b k mid (b f mid n0) = (Some f', n')" using Suc.prems(1) s by (auto split: if_splits)
  have live: "\<not> overflow (b f mid n0)"
    using min_copies_facts[OF b, of k mid "b f mid n0"] eq Suc.prems(2) by simp
  then have "\<not> overflow n0" by (rule builds_live[OF b])
  then have c: "mid = state_count n" "state_count n0 = Suc (state_count n)" "trans n0 = trans n"
    using nfa_state_cases[of n] s by simp_all
  have P: "insert mid P \<subseteq> {..<state_count n0}" using Suc.prems(5) c by auto
  have one: "seg tk (insert mid P) n0 (macro f L mid) (b f mid n0)"
    by (rule builds_seg[OF b live]) (use Suc.prems(3) P in auto)
  have "seg tk (insert mid P) (b f mid n0) (macro mid (conc (lang_pow k L) K) t) n''"
    using P seg_count[OF one] by (intro Suc.IH[OF eq Suc.prems(2)]) (use Suc.prems(4) in auto)
  from seg_via[OF one this c Suc.prems(5,3,4)] show ?case by (simp add: conc_assoc)
qed

lemma opt_copies_facts:
  assumes b: "builds tk b L"
  shows "\<not> overflow (snd (opt_copies b k f t n)) \<Longrightarrow> \<not> overflow n
    \<and> (\<exists>f'. fst (opt_copies b k f t n) = Some f' \<and> (f < state_count n \<longrightarrow>
        f' < state_count (snd (opt_copies b k f t n)) \<and> state_count n \<le> state_count (snd (opt_copies b k f t n))))"
proof (induction k arbitrary: f n)
  case (Suc k)
  let ?n = "nfa_trans f (-1) None t n"
  obtain mid n0 where s: "nfa_state ?n = (mid, n0)" by fastforce
  have no: "\<not> overflow n" using Suc.prems by (auto split: if_splits)
  have eq: "opt_copies b (Suc k) f t n = opt_copies b k mid t (b f mid n0)" using no s by simp
  have live: "\<not> overflow (b f mid n0)" using Suc.IH[of mid "b f mid n0"] Suc.prems eq by simp
  then have "\<not> overflow n0" by (rule builds_live[OF b])
  then have c: "mid = state_count ?n" "state_count n0 = Suc (state_count ?n)" "\<not> overflow ?n"
    using nfa_state_cases[of ?n] s by simp_all
  note sc = nfa_trans_seg(2)[OF c(3)]
  have le: "state_count n0 \<le> state_count (b f mid n0)" if "f < state_count n"
  proof -
    have "{f, mid} \<subseteq> {..<state_count n0}" using that c sc by simp
    from seg_count[OF builds_seg[OF b live _ _ this]] show ?thesis by simp
  qed
  have "\<not> overflow (snd (opt_copies b k mid t (b f mid n0)))" using Suc.prems eq by simp
  from Suc.IH[OF this] no le c sc show ?case unfolding eq by fastforce
qed simp

lemma opt_copies_seg:
  assumes b: "builds tk b L" and "opt_copies b k f t n = (Some f', n')" "\<not> overflow n'"
    and rest: "\<And>P. f' \<in> P \<Longrightarrow> t \<in> P \<Longrightarrow> P \<subseteq> {..<state_count n'} \<Longrightarrow> seg tk P n' (macro f' K t) n''"
    and "f \<in> P" "t \<in> P" "P \<subseteq> {..<state_count n}"
  shows "seg tk P n (macro f (upto_lang k L K) t) n''"
  using assms(2,3,5-)
proof (induction k arbitrary: f n P)
  case 0
  then show ?case using rest by simp
next
  case (Suc k)
  let ?n = "nfa_trans f (-1) None t n"
  obtain mid n0 where s: "nfa_state ?n = (mid, n0)" by fastforce
  have eq: "opt_copies b k mid t (b f mid n0) = (Some f', n')" using Suc.prems(1) s by (auto split: if_splits)
  have live: "\<not> overflow (b f mid n0)"
    using opt_copies_facts[OF b, of k mid t "b f mid n0"] eq Suc.prems(2) by simp
  then have "\<not> overflow n0" by (rule builds_live[OF b])
  then have c: "mid = state_count ?n" "state_count n0 = Suc (state_count ?n)" "trans n0 = trans ?n" "\<not> overflow ?n"
    using nfa_state_cases[of ?n] s by simp_all
  note sc = nfa_trans_seg(2)[OF c(4)]
  have P: "insert mid P \<subseteq> {..<state_count n0}" "P \<subseteq> {..<state_count ?n}" using Suc.prems(5) c sc by auto
  have one: "seg tk (insert mid P) n0 (macro f L mid) (b f mid n0)"
    by (rule builds_seg[OF b live]) (use Suc.prems(3) P in auto)
  have "seg tk (insert mid P) (b f mid n0) (macro mid (upto_lang k L K) t) n''"
    using P seg_count[OF one] by (intro Suc.IH[OF eq Suc.prems(2)]) (use Suc.prems(4) in auto)
  from seg_via[OF one this c(1-3) P(2) Suc.prems(3,4)]
  have "seg tk P ?n (macro f (conc L (upto_lang k L K)) t) n''" .
  with nfa_trans_eps[OF c(4) Suc.prems(3-5)]
  have "seg tk P n (macro f {[]} t \<union> macro f (conc L (upto_lang k L K)) t) n''" by (rule seg_compose)
  then show ?case by (simp only: upto_lang.simps macro_Un)
qed

lemma builds_then:
  assumes "builds tk b1 L1" "builds tk b2 L2"
  shows "builds tk (\<lambda>f t n. case nfa_state n of (mid, n) \<Rightarrow> b2 mid t (b1 f mid n)) (conc L1 L2)"
  unfolding builds_def
proof (intro allI impI)
  fix f t n
  obtain mid n0 where s: "nfa_state n = (mid, n0)" by fastforce
  assume "\<not> overflow (case nfa_state n of (mid, n) \<Rightarrow> b2 mid t (b1 f mid n))"
  then have l2: "\<not> overflow (b2 mid t (b1 f mid n0))" by (simp add: s)
  then have l1: "\<not> overflow (b1 f mid n0)" by (rule builds_live[OF assms(2)])
  then have "\<not> overflow n0" by (rule builds_live[OF assms(1)])
  then have c: "mid = state_count n" "state_count n0 = Suc (state_count n)" "trans n0 = trans n" "\<not> overflow n"
    using nfa_state_cases[of n] s by simp_all
  have "seg tk {f, t} n (macro f (conc L1 L2) t) (b2 mid t (b1 f mid n0))"
    if ft: "f < state_count n" "t < state_count n"
  proof -
    have P: "insert mid {f, t} \<subseteq> {..<state_count n0}" "{f, t} \<subseteq> {..<state_count n}" using ft c by auto
    have one: "seg tk (insert mid {f, t}) n0 (macro f L1 mid) (b1 f mid n0)"
      by (rule builds_seg[OF assms(1) l1 _ _ P(1)]) simp_all
    have "insert mid {f, t} \<subseteq> {..<state_count (b1 f mid n0)}" using P(1) seg_count[OF one] by auto
    then have "seg tk (insert mid {f, t}) (b1 f mid n0) (macro mid L2 t) (b2 mid t (b1 f mid n0))"
      by (intro builds_seg[OF assms(2) l2]) simp_all
    from seg_via[OF one this c(1-3) P(2)] show ?thesis by simp
  qed
  then show "\<not> overflow n \<and> (f < state_count n \<longrightarrow> t < state_count n \<longrightarrow>
      seg tk {f, t} n (macro f (conc L1 L2) t) (case nfa_state n of (mid, n) \<Rightarrow> b2 mid t (b1 f mid n)))"
    using c(4) by (simp add: s)
qed

lemma builds_both:
  assumes "builds tk b1 L1" "builds tk b2 L2"
  shows "builds tk (\<lambda>f t n. b2 f t (b1 f t n)) (L1 \<union> L2)"
  unfolding builds_def
proof (intro allI impI)
  fix f t n
  assume l2: "\<not> overflow (b2 f t (b1 f t n))"
  then have l1: "\<not> overflow (b1 f t n)" by (rule builds_live[OF assms(2)])
  have "seg tk {f, t} n (macro f (L1 \<union> L2) t) (b2 f t (b1 f t n))"
    if ft: "f < state_count n" "t < state_count n"
  proof -
    have P: "{f, t} \<subseteq> {..<state_count n}" using ft by simp
    have one: "seg tk {f, t} n (macro f L1 t) (b1 f t n)" by (rule builds_seg[OF assms(1) l1 _ _ P]) simp_all
    have "{f, t} \<subseteq> {..<state_count (b1 f t n)}" using P seg_count[OF one] by auto
    then have "seg tk {f, t} (b1 f t n) (macro f L2 t) (b2 f t (b1 f t n))"
      by (intro builds_seg[OF assms(2) l2]) simp_all
    from seg_compose[OF one this] show ?thesis by (simp add: macro_Un)
  qed
  with builds_live[OF assms(1) l1] show "\<not> overflow n \<and> (f < state_count n \<longrightarrow> t < state_count n \<longrightarrow>
      seg tk {f, t} n (macro f (L1 \<union> L2) t) (b2 f t (b1 f t n)))" by simp
qed

lemma builds_nothing: "builds tk (\<lambda>f t n. n) {}"
proof -
  have m: "macro f {} t = {}" for f t :: nat by (auto simp: macro_def)
  show ?thesis unfolding builds_def m by (auto intro: seg_refl)
qed

text \<open>The occurrence range.\<close>

lemma occurs_unbounded: "0 \<le> lo \<Longrightarrow> hi < 0 \<Longrightarrow> occurs lo hi L = conc (lang_pow (nat lo) L) (lang_star L)"
proof -
  assume "0 \<le> lo" "hi < 0"
  then have "lo \<le> int k \<longleftrightarrow> nat lo \<le> k" for k by auto
  then show ?thesis using \<open>hi < 0\<close> unfolding occurs_def pow_star by simp
qed

lemma occurs_bounded:
  assumes "0 \<le> lo" "lo \<le> hi"
  shows "occurs lo hi L = conc (lang_pow (nat lo) L) (upto_lang (nat (hi - lo)) L {[]})"
proof -
  have "conc (lang_pow (nat lo) L) (upto_lang (nat (hi - lo)) L {[]}) =
      (\<Union>j \<in> {..nat (hi - lo)}. lang_pow (nat lo + j) L)"
  proof -
    have "upto_lang (nat (hi - lo)) L {[]} = (\<Union>j \<in> {..nat (hi - lo)}. lang_pow j L)"
      unfolding upto_pow by auto
    then show ?thesis by (simp only: conc_Union lang_pow_add)
  qed
  also have "\<dots> = occurs lo hi L"
  proof (intro set_eqI iffI)
    fix w assume "w \<in> (\<Union>j \<in> {..nat (hi - lo)}. lang_pow (nat lo + j) L)"
    then obtain j where "j \<le> nat (hi - lo)" "w \<in> lang_pow (nat lo + j) L" by auto
    then show "w \<in> occurs lo hi L"
      unfolding occurs_def using assms by (intro CollectI exI[of _ "nat lo + j"]) auto
  next
    fix w assume "w \<in> occurs lo hi L"
    then obtain k where k: "lo \<le> int k" "int k \<le> hi" "w \<in> lang_pow k L"
      unfolding occurs_def using assms by auto
    have "k = nat lo + (k - nat lo)" "k - nat lo \<le> nat (hi - lo)" using k assms by auto
    then show "w \<in> (\<Union>j \<in> {..nat (hi - lo)}. lang_pow (nat lo + j) L)"
      using k(3) by (intro UN_I[of "k - nat lo"]) auto
  qed
  finally show ?thesis ..
qed

lemma builds_occurrence:
  assumes b: "builds tk b L" and ok: "0 \<le> min_occurs node" "max_occurs node < 0 \<or> min_occurs node \<le> max_occurs node"
  shows "builds tk (cm_build_occurrence node b) (occurs (min_occurs node) (max_occurs node) L)"
  unfolding builds_def
proof (intro allI impI)
  fix f t n
  let ?n = "cm_build_occurrence node b f t n" and ?L = "occurs (min_occurs node) (max_occurs node) L"
  let ?m = "min_copies b (nat (min_occurs node)) f n"
  assume live: "\<not> overflow ?n"
  have no: "\<not> overflow n" using live by (auto simp: cm_build_occurrence_def)
  obtain f0 n0 where m0: "?m = (f0, n0)" by fastforce
  have eq: "?n = (case f0 of None \<Rightarrow> n0 | Some f1 \<Rightarrow>
         if max_occurs node < 0 then
           (case nfa_state n0 of (loop, n) \<Rightarrow>
              nfa_trans loop (-1) None t (b loop loop (nfa_trans f1 (-1) None loop n)))
         else
           (case opt_copies b (nat (max_occurs node - min_occurs node)) f1 t n0 of
              (None, n) \<Rightarrow> n
            | (Some from, n) \<Rightarrow> nfa_trans from (-1) None t n))"
    using no m0 by (simp add: cm_build_occurrence_def)
  have l0: "\<not> overflow n0"
  proof (cases f0)
    case None
    then show ?thesis using eq live by simp
  next
    case (Some f1)
    show ?thesis
    proof (cases "max_occurs node < 0")
      case True
      obtain loop n1 where s: "nfa_state n0 = (loop, n1)" by fastforce
      have "\<not> overflow (b loop loop (nfa_trans f1 (-1) None loop n1))"
        using nfa_trans_seg(1) live eq Some True s by simp
      then have "\<not> overflow n1" using builds_live[OF b] nfa_trans_seg(1) by blast
      then show ?thesis using nfa_state_cases(1)[of n0] s by simp
    next
      case False
      obtain f2 n2 where o: "opt_copies b (nat (max_occurs node - min_occurs node)) f1 t n0 = (f2, n2)" by fastforce
      have "\<not> overflow n2" using live eq Some False o nfa_trans_seg(1) by (cases f2) simp_all
      then show ?thesis using opt_copies_facts[OF b, of "nat (max_occurs node - min_occurs node)" f1 t n0] o by simp
    qed
  qed
  then obtain f1 where f1: "f0 = Some f1" "f < state_count n \<longrightarrow> f1 < state_count n0 \<and> state_count n \<le> state_count n0"
    using min_copies_facts[OF b, of "nat (min_occurs node)" f n] m0 by auto
  have "seg tk {f, t} n (macro f ?L t) ?n" if ft: "f < state_count n" "t < state_count n"
  proof -
    have P: "{f, t} \<subseteq> {..<state_count n}" using ft by simp
    obtain K where K: "?L = conc (lang_pow (nat (min_occurs node)) L) K"
      "\<And>P. f1 \<in> P \<Longrightarrow> t \<in> P \<Longrightarrow> P \<subseteq> {..<state_count n0} \<Longrightarrow> seg tk P n0 (macro f1 K t) ?n"
    proof (cases "max_occurs node < 0")
      case True
      obtain loop n1 where s: "nfa_state n0 = (loop, n1)" by fastforce
      let ?n2 = "nfa_trans f1 (-1) None loop n1" let ?n3 = "b loop loop ?n2"
      have e: "?n = nfa_trans loop (-1) None t ?n3" using eq f1(1) True s by simp
      have l3: "\<not> overflow ?n3" using live nfa_trans_seg(1) e by simp
      then have l2: "\<not> overflow ?n2" by (rule builds_live[OF b])
      then have "\<not> overflow n1" by (rule nfa_trans_seg(1))
      then have c: "loop = state_count n0" "state_count n1 = Suc (state_count n0)" "trans n1 = trans n0"
        using nfa_state_cases[of n0] s by simp_all
      have "seg tk P n0 (macro f1 (lang_star L) t) ?n"
        if p: "f1 \<in> P" "t \<in> P" "P \<subseteq> {..<state_count n0}" for P
      proof -
        have P1: "insert loop P \<subseteq> {..<state_count n1}" using p c by auto
        have a: "seg tk (insert loop P) n1 (macro f1 {[]} loop) ?n2"
          by (rule nfa_trans_eps[OF l2 _ _ P1]) (use p in simp_all)
        have P2: "insert loop P \<subseteq> {..<state_count ?n2}" using P1 seg_count[OF a] by auto
        have bb: "seg tk (insert loop P) ?n2 (macro loop L loop) ?n3"
          by (rule builds_seg[OF b l3 _ _ P2]) simp_all
        have P3: "insert loop P \<subseteq> {..<state_count ?n3}" using P2 seg_count[OF bb] by auto
        have cc: "seg tk (insert loop P) ?n3 (macro loop {[]} t) ?n"
          unfolding e by (rule nfa_trans_eps[OF live[unfolded e] _ _ P3]) (use p in simp_all)
        have "seg tk (insert loop P) n1 ({} \<union> (macro f1 {[]} loop \<union> macro loop L loop \<union> macro loop {[]} t)) ?n"
          using seg_compose[OF seg_compose[OF a bb] cc] by simp
        from seg_eliminate[OF this c p(3,1,2)] show ?thesis by simp
      qed
      with that[of "lang_star L"] occurs_unbounded[OF ok(1) True] show thesis by blast
    next
      case False
      let ?k = "nat (max_occurs node - min_occurs node)"
      obtain f2 n2 where o: "opt_copies b ?k f1 t n0 = (f2, n2)" by fastforce
      have l2: "\<not> overflow n2" using live eq f1(1) False o nfa_trans_seg(1) by (cases f2) simp_all
      then obtain f3 where f3: "f2 = Some f3" using opt_copies_facts[OF b, of ?k f1 t n0] o by auto
      have e: "?n = nfa_trans f3 (-1) None t n2" using eq f1(1) False o f3 by simp
      have "seg tk P n2 (macro f3 {[]} t) ?n" if "f3 \<in> P" "t \<in> P" "P \<subseteq> {..<state_count n2}" for P
        unfolding e using live that unfolding e by (rule nfa_trans_eps)
      then have "seg tk P n0 (macro f1 (upto_lang ?k L {[]}) t) ?n"
        if "f1 \<in> P" "t \<in> P" "P \<subseteq> {..<state_count n0}" for P
        using opt_copies_seg[OF b o[unfolded f3] l2] that by blast
      with that[of "upto_lang ?k L {[]}"] occurs_bounded[OF ok(1)] ok(2) False show thesis by auto
    qed
    show ?thesis
      unfolding K(1) by (rule min_copies_seg[OF b m0[unfolded f1(1)] l0 K(2) _ _ P]) simp_all
  qed
  with no show "\<not> overflow n \<and> (f < state_count n \<longrightarrow> t < state_count n \<longrightarrow> seg tk {f, t} n (macro f ?L t) ?n)" by simp
qed


text \<open>Groups: sequences and choices of members that each build their language.\<close>

abbreviation occ_lang :: "(xsd_cm \<Rightarrow> lang) \<Rightarrow> xsd_cm \<Rightarrow> lang" where
  "occ_lang lg c \<equiv> occurs (min_occurs c) (max_occurs c) (lg c)"

lemma builds_chain:
  assumes oc: "open_any node = None \<or> oc_mode node = 0"
    and "cs \<noteq> []" "\<forall>c \<in> set cs. node_ok c \<and> builds tk (B c) (lg c)"
  shows "builds tk (chain_children node (map (\<lambda>c. (c, B c)) cs)) (foldr conc (map (occ_lang lg) cs) {[]})"
  using assms(2,3)
proof (induction cs rule: induct_list012)
  case (2 c)
  then have "builds tk (cm_build_occurrence c (B c)) (occ_lang lg c)"
    by (intro builds_occurrence) (auto simp: node_ok_def)
  moreover have "chain_children node [(c, B c)] = cm_build_occurrence c (B c)"
    using oc by (auto simp: fun_eq_iff)
  ultimately show ?case by simp
next
  case (3 c c' cs)
  have oc': "\<not> interleave node" using oc by (auto simp: interleave_def)
  have one: "builds tk (cm_build_occurrence c (B c)) (occ_lang lg c)"
    using 3 by (intro builds_occurrence) (auto simp: node_ok_def)
  have rest: "builds tk (chain_children node (map (\<lambda>c. (c, B c)) (c' # cs))) (foldr conc (map (occ_lang lg) (c' # cs)) {[]})"
    using 3 by simp
  have "chain_children node (map (\<lambda>c. (c, B c)) (c # c' # cs)) =
      (\<lambda>f t n. case nfa_state n of (mid, n) \<Rightarrow>
        chain_children node (map (\<lambda>c. (c, B c)) (c' # cs)) mid t (cm_build_occurrence c (B c) f mid n))"
    using oc' by (simp add: fun_eq_iff Let_def)
  with builds_then[OF one rest] show ?case by simp
qed simp

lemma builds_children:
  assumes "open_any node = None \<or> oc_mode node = 0" "\<forall>c \<in> set cs. node_ok c \<and> builds tk (B c) (lg c)"
  shows "builds tk (cm_build_children node (map (\<lambda>c. (c, B c)) cs)) (foldr conc (map (occ_lang lg) cs) {[]})"
proof (cases "cs = []")
  case True
  have "cm_build_children node [] = (\<lambda>f t. nfa_trans f (-1) None t)"
    by (simp add: fun_eq_iff cm_build_children_def)
  then show ?thesis using True builds_eps by simp
next
  case False
  have "cm_build_children node (map (\<lambda>c. (c, B c)) cs) = chain_children node (map (\<lambda>c. (c, B c)) cs)"
    using False assms(1) by (auto simp: fun_eq_iff cm_build_children_def interleave_def)
  then show ?thesis using builds_chain[OF assms(1) False assms(2)] by simp
qed

lemma builds_choice:
  assumes "\<forall>c \<in> set cs. node_ok c \<and> builds tk (B c) (lg c)"
  shows "builds tk (build_choice (map (\<lambda>c. (c, B c)) cs)) (if cs = [] then {[]} else \<Union>(set (map (occ_lang lg) cs)))"
proof (cases "cs = []")
  case True
  have "build_choice [] = (\<lambda>f t. nfa_trans f (-1) None t)" by (simp add: fun_eq_iff build_choice_def)
  then show ?thesis using True builds_eps by simp
next
  case False
  have "builds tk (\<lambda>f t n. fold (\<lambda>(c, b). cm_build_occurrence c b f t) (map (\<lambda>c. (c, B c)) cs) n)
      (\<Union>(set (map (occ_lang lg) cs)))"
    using assms
  proof (induction cs)
    case Nil
    show ?case using builds_nothing by simp
  next
    case (Cons c cs)
    have one: "builds tk (cm_build_occurrence c (B c)) (occ_lang lg c)"
      using Cons.prems by (intro builds_occurrence) (auto simp: node_ok_def)
    have "builds tk (\<lambda>f t n. fold (\<lambda>(c, b). cm_build_occurrence c b f t) (map (\<lambda>c. (c, B c)) cs) n)
        (\<Union>(set (map (occ_lang lg) cs)))"
      using Cons by simp
    from builds_both[OF one this] show ?case by simp
  qed
  moreover have "build_choice (map (\<lambda>c. (c, B c)) cs) =
      (\<lambda>f t n. fold (\<lambda>(c, b). cm_build_occurrence c b f t) (map (\<lambda>c. (c, B c)) cs) n)"
    using False by (simp add: fun_eq_iff build_choice_def)
  ultimately show ?thesis using False by simp
qed

definition expands :: "(xsd_cm \<Rightarrow> child \<Rightarrow> bool) \<Rightarrow> (bytes option \<Rightarrow> builder option) \<Rightarrow> (bytes option \<Rightarrow> lang option) \<Rightarrow> bool" where
  "expands tk eb el \<longleftrightarrow> (\<forall>nm. rel_option (builds tk) (eb nm) (el nm))"

lemma model_ok_node: "model_ok m \<Longrightarrow> node_ok m" "model_ok m \<Longrightarrow> c \<in> set (children m) \<Longrightarrow> model_ok c"
  by (cases m; simp add: list_all_iff)+

lemma builds_node:
  assumes e: "expands tk eb el"
  shows "model_ok m \<Longrightarrow> builds tk (cm_build eb m) (cm_lang tk el m)"
proof (induction m)
  case (XsdCm k nm ns a q u mn mx cs oa om)
  let ?m = "XsdCm k nm ns a q u mn mx cs oa om"
  have cs: "\<forall>c \<in> set cs. node_ok c \<and> builds tk (cm_build eb c) (cm_lang tk el c)"
    using XsdCm by (auto simp: list_all_iff model_ok_node(1))
  have oc: "open_any ?m = None \<or> oc_mode ?m = 0" using model_ok_node(1)[OF XsdCm.prems] by (simp add: node_ok_def)
  note seq = builds_children[OF oc cs] and choice = builds_choice[OF cs]
  show ?case
  proof (cases k)
    case XSD_CM_GROUP_REF
    show ?thesis
    proof (cases "eb nm")
      case None
      then have "el nm = None" using e[unfolded expands_def, rule_format, of nm] by simp
      with None show ?thesis using XSD_CM_GROUP_REF builds_eps by (simp add: Let_def)
    next
      case (Some b)
      then obtain L where "el nm = Some L" "builds tk b L"
        using e[unfolded expands_def, rule_format, of nm] by (auto simp: option_rel_Some1)
      with Some show ?thesis using XSD_CM_GROUP_REF by (simp add: Let_def)
    qed
  qed (use seq choice builds_particle[of tk ?m] in \<open>simp_all add: Let_def\<close>)
qed

definition groups_ok :: "schema \<Rightarrow> bool" where
  "groups_ok s \<longleftrightarrow> (\<forall>nm m. group_body s nm = Some m \<longrightarrow> model_ok m)"

lemma builds_groups: "groups_ok s \<Longrightarrow> expands tk (group_builder s left) (group_lang s tk left)"
proof (induction left)
  case 0
  then show ?case by (simp add: expands_def)
next
  case (Suc left)
  then have "builds tk (cm_build (group_builder s left) m) (cm_lang tk (group_lang s tk left) m)"
    if "group_body s nm = Some m" for nm m
    using that by (intro builds_node) (auto simp: groups_ok_def)
  then have "rel_option (builds tk) (group_builder s (Suc left) nm) (group_lang s tk (Suc left) nm)" for nm
    by (cases "group_body s nm") simp_all
  then show ?case unfolding expands_def by blast
qed

lemma builds_model:
  assumes "groups_ok s" "model_ok m"
  shows "builds (takes s target_ns) (cm_build_model s m) (model_lang s target_ns m)"
  unfolding cm_build_model_def model_lang_def
  using model_ok_node(1)[OF assms(2)]
  by (intro builds_occurrence builds_node builds_groups assms) (auto simp: node_ok_def)

section \<open>Simulation\<close>

abbreviation nfa_edges :: "schema \<Rightarrow> bytes option \<Rightarrow> cm_trans list \<Rightarrow> child edges" where
  "nfa_edges s target_ns ts \<equiv> edges_of (takes s target_ns) ts"

lemma eps_edges: "(p, [], q) \<in> edges_of tk ts \<longleftrightarrow> (\<exists>t \<in> set ts. tr_from t = p \<and> tr_to t = q \<and> symbol t = -1)"
  by (auto simp: edges_of_def split: if_splits)

lemma short_edges: "(p, w, q) \<in> edges_of tk ts \<Longrightarrow> w = [] \<or> (\<exists>c. w = [c])"
  by (auto simp: edges_of_def split: if_splits)

lemma close_loop_spec:
  assumes "\<forall>j < i. \<forall>q. (ss ! j, [], q) \<in> edges_of tk ts \<longrightarrow> q \<in> set ss" "i \<le> length ss"
  shows "set ss \<subseteq> set (ss_close_loop ts i ss)
    \<and> (\<forall>p \<in> set (ss_close_loop ts i ss). \<forall>q. (p, [], q) \<in> edges_of tk ts \<longrightarrow> q \<in> set (ss_close_loop ts i ss))
    \<and> (\<forall>q \<in> set (ss_close_loop ts i ss). \<exists>p \<in> set ss. path (edges_of tk ts) p [] q)"
  using assms
proof (induction ts i ss rule: ss_close_loop.induct)
  case (1 ts i ss)
  let ?ss = "close_state ts (ss ! i) ss"
  show ?case
  proof (cases "i < length ss")
    case False
    then have eq: "ss_close_loop ts i ss = ss" by (simp add: ss_close_loop.simps[of ts i ss])
    have closed: "q \<in> set ss" if "p \<in> set ss" "(p, [], q) \<in> edges_of tk ts" for p q
    proof -
      from that(1) obtain j where j: "j < length ss" "ss ! j = p" unfolding in_set_conv_nth by blast
      have "j < i" using j(1) False by simp
      moreover have "(ss ! j, [], q) \<in> edges_of tk ts" using that(2) j(2) by simp
      ultimately show ?thesis using 1(2) by blast
    qed
    show ?thesis unfolding eq
    proof (intro conjI ballI allI impI)
      fix q assume "q \<in> set ss"
      with path_nil[of "edges_of tk ts" q] show "\<exists>p \<in> set ss. path (edges_of tk ts) p [] q" by (rule bexI)
    qed (simp, rule closed)
  next
    case True
    have eq: "ss_close_loop ts i ss = ss_close_loop ts (i + 1) ?ss"
      using True by (simp add: ss_close_loop.simps[of ts i ss])
    obtain new where new: "?ss = ss @ new" using close_state_grows by blast
    have sets: "set ?ss = set ss \<union> {q. (ss ! i, [], q) \<in> edges_of tk ts}"
      unfolding set_close_state eps_edges by auto
    have inv: "\<forall>j < i + 1. \<forall>q. (?ss ! j, [], q) \<in> edges_of tk ts \<longrightarrow> q \<in> set ?ss"
    proof (intro allI impI)
      fix j q assume j: "j < i + 1" "(?ss ! j, [], q) \<in> edges_of tk ts"
      have "?ss ! j = ss ! j" using j(1) True new by (simp add: nth_append)
      then have e: "(ss ! j, [], q) \<in> edges_of tk ts" using j(2) by simp
      show "q \<in> set ?ss"
      proof (cases "j = i")
        case True
        then show ?thesis using e sets by blast
      next
        case False
        then have "j < i" using j(1) by simp
        then show ?thesis using e 1(2) sets by blast
      qed
    qed
    have "i + 1 \<le> length ?ss" using True new by simp
    note ih = 1(1)[OF True inv this, folded eq]
    have
      a: "set ?ss \<subseteq> set (ss_close_loop ts i ss)" and
      b: "\<forall>p \<in> set (ss_close_loop ts i ss). \<forall>q. (p, [], q) \<in> edges_of tk ts \<longrightarrow> q \<in> set (ss_close_loop ts i ss)" and
      c: "\<forall>q \<in> set (ss_close_loop ts i ss). \<exists>p \<in> set ?ss. path (edges_of tk ts) p [] q"
      by (rule ih[THEN conjunct1], rule ih[THEN conjunct2, THEN conjunct1], rule ih[THEN conjunct2, THEN conjunct2])
    have "\<exists>p \<in> set ss. path (edges_of tk ts) p [] q" if "q \<in> set (ss_close_loop ts i ss)" for q
    proof -
      from bspec[OF c that] obtain p where p: "p \<in> set ?ss" "path (edges_of tk ts) p [] q" by (rule bexE)
      show ?thesis
      proof (cases "p \<in> set ss")
        case False
        then have "(ss ! i, [], p) \<in> edges_of tk ts" using p(1) sets by simp
        from path_step[OF this p(2)] show ?thesis using True by (intro bexI[of _ "ss ! i"]) simp_all
      next
        case True
        with p(2) show ?thesis by (rule bexI)
      qed
    qed
    moreover have "set ss \<subseteq> set (ss_close_loop ts i ss)" using a sets by simp
    ultimately show ?thesis using b by (simp only: ball_simps) simp
  qed
qed

lemma path_nil_closed:
  assumes "path E p w q" "w = []" "p \<in> S" "\<And>p q. p \<in> S \<Longrightarrow> (p, [], q) \<in> E \<Longrightarrow> q \<in> S"
  shows "q \<in> S"
  using assms(1-3)
proof (induction rule: path.induct)
  case (path_step p u r v q)
  have "u = []" "v = []" using path_step.prems(1) by simp_all
  then have "r \<in> S" using assms(4) path_step.hyps(1) path_step.prems(2) by blast
  then show ?case using path_step.IH \<open>v = []\<close> by blast
qed

lemma set_ss_close: "set (ss_close n ss) = {q. \<exists>p \<in> set ss. path (edges_of tk (trans n)) p [] q}"
proof -
  note sp = close_loop_spec[where i = 0 and ss = ss and tk = tk and ts = "trans n", simplified]
  have "q \<in> set (ss_close n ss)" if "p \<in> set ss" "path (edges_of tk (trans n)) p [] q" for p q
    by (rule path_nil_closed[OF that(2) refl]) (use sp that(1) in \<open>auto simp: ss_close_def\<close>)
  then show ?thesis using sp unfolding ss_close_def by blast
qed

lemma set_live_step:
  "set (live_step s target_ns n live c) = {q. \<exists>p \<in> set live. (p, [c], q) \<in> nfa_edges s target_ns (trans n)}"
proof -
  let ?one = "\<lambda>st. \<lambda>t nx. if tr_from t \<noteq> st \<or> symbol t = -1 then nx
        else (case particle t of
                Some p \<Rightarrow> if takes s target_ns p c then ss_add (tr_to t) nx else nx
              | None \<Rightarrow> nx)"
  have inner: "set (fold (?one st) ts nx) = set nx \<union> {q. (st, [c], q) \<in> nfa_edges s target_ns ts}" for st ts nx
  proof (induction ts arbitrary: nx)
    case Nil
    then show ?case by simp
  next
    case (Cons t ts)
    have "{q. (st, [c], q) \<in> nfa_edges s target_ns (t # ts)} =
        {q. (st, [c], q) \<in> nfa_edges s target_ns [t]} \<union> {q. (st, [c], q) \<in> nfa_edges s target_ns ts}"
      using edges_of_append[of "takes s target_ns" "[t]" ts] by auto
    moreover have "set (?one st t nx) = set nx \<union> {q. (st, [c], q) \<in> nfa_edges s target_ns [t]}"
      by (cases c) (auto simp: edges_of_def split: option.splits)
    ultimately show ?case unfolding fold_simps comp_apply Cons.IH by blast
  qed
  have "set (fold (\<lambda>st nx. fold (?one st) (trans n) nx) ls nx) =
      set nx \<union> {q. \<exists>p \<in> set ls. (p, [c], q) \<in> nfa_edges s target_ns (trans n)}" for ls nx
  proof (induction ls arbitrary: nx)
    case (Cons l ls)
    show ?case unfolding fold_simps comp_apply Cons.IH inner by auto
  qed simp
  from this[of live "[]"] show ?thesis by (simp add: live_step_def)
qed

lemma path_cons:
  assumes "\<And>p w q. (p, w, q) \<in> E \<Longrightarrow> w = [] \<or> (\<exists>c. w = [c])"
  shows "path E p (c # w) q \<longleftrightarrow> (\<exists>r r'. path E p [] r \<and> (r, [c], r') \<in> E \<and> path E r' w q)"
proof
  assume "path E p (c # w) q"
  then show "\<exists>r r'. path E p [] r \<and> (r, [c], r') \<in> E \<and> path E r' w q"
  proof (induction p "c # w" q rule: path.induct)
    case (path_step p u r v q)
    show ?case
    proof (cases "u = []")
      case True
      with path_step obtain s s' where s: "path E r [] s" "(s, [c], s') \<in> E" "path E s' w q" by auto
      have "(p, [], r) \<in> E" using path_step(1) True by simp
      from path.path_step[OF this s(1)] s(2,3) show ?thesis by auto
    next
      case False
      then have "u = [c]" "v = w" using assms path_step(1,4) by force+
      then show ?thesis using path_step(1,2) path_nil by blast
    qed
  qed
next
  assume "\<exists>r r'. path E p [] r \<and> (r, [c], r') \<in> E \<and> path E r' w q"
  then obtain r r' where r: "path E p [] r" "(r, [c], r') \<in> E" "path E r' w q" by blast
  have "path E p ([] @ ([c] @ w)) q" using path_append[OF r(1) path_step[OF r(2,3)]] .
  then show "path E p (c # w) q" by simp
qed

lemma set_simulate:
  assumes "\<And>p q. p \<in> set live \<Longrightarrow> path (nfa_edges s target_ns (trans n)) p [] q \<Longrightarrow> q \<in> set live"
  shows "set (simulate s target_ns n live w) = {q. \<exists>p \<in> set live. path (nfa_edges s target_ns (trans n)) p w q}"
  using assms
proof (induction w arbitrary: live)
  case Nil
  then show ?case by (auto intro: path_nil)
next
  case (Cons c w)
  let ?E = "nfa_edges s target_ns (trans n)"
  let ?next = "ss_close n (live_step s target_ns n live c)"
  have nxt: "q \<in> set ?next \<longleftrightarrow> (\<exists>p \<in> set live. \<exists>r. (p, [c], r) \<in> ?E \<and> path ?E r [] q)" for q
    unfolding set_ss_close[of n _ "takes s target_ns"] set_live_step by blast
  have closed: "q \<in> set ?next" if "p \<in> set ?next" "path ?E p [] q" for p q
  proof -
    from nxt[THEN iffD1, OF that(1)] obtain x r where r: "x \<in> set live" "(x, [c], r) \<in> ?E" "path ?E r [] p" by blast
    have "path ?E r [] q" using path_append[OF r(3) that(2)] by simp
    then show ?thesis using r(1,2) by (intro nxt[THEN iffD2]) blast
  qed
  have "(\<exists>p \<in> set ?next. path ?E p w q) \<longleftrightarrow> (\<exists>p \<in> set live. path ?E p (c # w) q)" for q
  proof
    assume "\<exists>p \<in> set ?next. path ?E p w q"
    then obtain r' where r': "r' \<in> set ?next" "path ?E r' w q" by (rule bexE)
    from nxt[THEN iffD1, OF r'(1)] obtain p r where
      p: "p \<in> set live" "(p, [c], r) \<in> ?E" "path ?E r [] r'" by blast
    have "path ?E p ([c] @ ([] @ w)) q" using path_step[OF p(2) path_append[OF p(3) r'(2)]] .
    then show "\<exists>p \<in> set live. path ?E p (c # w) q" using p(1) by auto
  next
    assume "\<exists>p \<in> set live. path ?E p (c # w) q"
    then obtain p where p: "p \<in> set live" "path ?E p (c # w) q" by (rule bexE)
    have "path ?E p (c # w) q \<longleftrightarrow> (\<exists>r r'. path ?E p [] r \<and> (r, [c], r') \<in> ?E \<and> path ?E r' w q)"
      by (rule path_cons) (rule short_edges)
    with p(2) obtain r r' where
      r: "path ?E p [] r" "(r, [c], r') \<in> ?E" "path ?E r' w q" by blast
    have "r \<in> set live" by (rule Cons.prems[OF p(1) r(1)])
    then have "r' \<in> set ?next" using r(2) path_nil by (intro nxt[THEN iffD2]) blast
    then show "\<exists>p \<in> set ?next. path ?E p w q" using r(3) by blast
  qed
  moreover have "set (simulate s target_ns n live (c # w)) = {q. \<exists>p \<in> set ?next. path ?E p w q}"
  proof (cases "?next = []")
    case False
    then have "simulate s target_ns n live (c # w) = simulate s target_ns n ?next w" by (simp add: Let_def)
    then show ?thesis using Cons.IH[OF closed] by simp
  qed (simp add: Let_def)
  ultimately show ?case by simp
qed

end
