(* ===== verification/XsdVerdict.thy ===== *)
theory XsdVerdict
  imports XsdLanguage
begin

text \<open>
  What \<open>xsd_content_valid\<close> answers: the verdict against the language of the model, the models that
  are sure to get one, root all-groups, wildcards, and where the code falls short (open content
  outside sequences, groups that refer to themselves).
\<close>

section \<open>The verdict\<close>

lemma start_states:
  "nfa_state empty_nfa = (0, \<lparr>trans = [], state_count = 1, overflow = False\<rparr>)"
  "nfa_state \<lparr>trans = [], state_count = 1, overflow = False\<rparr> = (1, \<lparr>trans = [], state_count = 2, overflow = False\<rparr>)"
  by (simp_all add: nfa_state_def empty_nfa_def XSD_CM_NFA_MAX_def)

lemma macro_path:
  assumes ne: "p \<noteq> q"
  shows "path (macro p L q) p w q \<longleftrightarrow> w \<in> L"
proof
  have stay: "v = []" if "path (macro p L q) q v y" for v y
    using that
  proof (rule path_from)
    fix u r x assume "(q, u, r) \<in> macro p L q"
    then show "v = []" using ne by simp
  qed
  assume a: "path (macro p L q) p w q"
  show "w \<in> L"
    using a
  proof (rule path_from)
    assume "q = p"
    then show "w \<in> L" using ne by simp
  next
    fix u r v assume "w = u @ v" "(p, u, r) \<in> macro p L q" "path (macro p L q) r v q"
    then show "w \<in> L" using stay[of v q] by simp
  qed
next
  assume "w \<in> L"
  then show "path (macro p L q) p w q" by (intro path_edge) simp
qed

definition two_states :: cm_nfa where
  "two_states = \<lparr>trans = [], state_count = 2, overflow = False\<rparr>"

lemma simulate_accepts:
  assumes "builds (takes s target_ns) b L" "\<not> overflow (b 0 1 two_states)"
  shows "1 \<in> set (simulate s target_ns (b 0 1 two_states) (ss_close (b 0 1 two_states) (ss_add 0 [])) w) \<longleftrightarrow> w \<in> L"
proof -
  let ?n = "b 0 1 two_states" let ?E = "nfa_edges s target_ns (trans ?n)"
  have "seg (takes s target_ns) {0, 1} two_states (macro 0 L 1) ?n"
    by (rule builds_seg[OF assms]) (simp_all add: two_states_def lessThan_def)
  then obtain ts where ts: "trans ?n = ts"
    and eq: "\<And>R. avoids (fresh two_states ?n) R \<Longrightarrow>
      same_paths (fresh two_states ?n) (R \<union> edges_of (takes s target_ns) ts) (R \<union> macro 0 L 1)"
    unfolding seg_def by (auto simp: two_states_def)
  have "path ?E 0 w 1 \<longleftrightarrow> path (macro 0 L 1) 0 w 1"
    using eq[of "{}"] ts by (simp add: same_paths_def two_states_def)
  also have "\<dots> \<longleftrightarrow> w \<in> L" by (rule macro_path) simp
  finally have path: "path ?E 0 w 1 \<longleftrightarrow> w \<in> L" .
  let ?live = "ss_close ?n (ss_add 0 [])"
  have live: "set ?live = {q. path ?E 0 [] q}"
    unfolding set_ss_close[of ?n _ "takes s target_ns"] by simp
  have closed: "q \<in> set ?live" if "p \<in> set ?live" "path ?E p [] q" for p q
    using that path_append[of ?E 0 "[]" p "[]" q] unfolding live by simp
  have "set (simulate s target_ns ?n ?live w) = {q. \<exists>p \<in> set ?live. path ?E p w q}"
    by (rule set_simulate) (rule closed)
  then have "1 \<in> set (simulate s target_ns ?n ?live w) \<longleftrightarrow> (\<exists>p. path ?E 0 [] p \<and> path ?E p w 1)"
    unfolding live by (simp del: One_nat_def)
  also have "\<dots> \<longleftrightarrow> path ?E 0 w 1"
    using path_append[of ?E 0 "[]"] path_nil[of ?E 0] by (metis append_Nil)
  finally show ?thesis using path by simp
qed

lemma content_valid_automaton:
  assumes "cm_kind m \<noteq> XSD_CM_ALL \<or> children m = []"
  shows "xsd_content_valid indet s (Some m) target_ns w =
    (let n = cm_build_model s m 0 1 two_states in
     if fst (cm_bound_over 65 indet s m) \<or> overflow n then -2
     else if 1 \<in> set (simulate s target_ns n (ss_close n (ss_add 0 [])) w) then 1 else 0)"
  using assms by (auto simp: xsd_content_valid_def start_states two_states_def Let_def list_ex_iff simp del: One_nat_def)

text \<open>
  C1. The content-model check decides the regular language of the model: whenever it gives a verdict at
  all, it is 1 exactly for the child sequences that the model denotes, group references expanded.
  The model has the occurrence bounds of the schema language and no open content, and is not an
  \<open>xs:all\<close> with members, which is decided by counting.
\<close>

theorem content_model_exact:
  assumes "groups_ok s" "model_ok m" "cm_kind m \<noteq> XSD_CM_ALL \<or> children m = []"
    and "xsd_content_valid indet s (Some m) target_ns w \<noteq> -2"
  shows "xsd_content_valid indet s (Some m) target_ns w = (if w \<in> model_lang s target_ns m then 1 else 0)"
proof -
  let ?n = "cm_build_model s m 0 1 two_states"
  note v = content_valid_automaton[OF assms(3), of indet s target_ns w]
  have "\<not> overflow ?n" using assms(4) v by (auto simp: Let_def)
  from simulate_accepts[OF builds_model[OF assms(1,2)] this, of target_ns w] v assms(4)
  show ?thesis by (auto simp: Let_def split: if_splits)
qed

section \<open>Models of modest size get a verdict\<close>

text \<open>What the copies of a node add at most, in states and in transitions.\<close>

definition occ_cost :: "xsd_cm \<Rightarrow> nat \<Rightarrow> nat" where
  "occ_cost c k = (nat (min_occurs c) + (if max_occurs c < 0 then 1 else nat (max_occurs c - min_occurs c))) * (k + 2) + 1"

fun cm_cost :: "(bytes option \<Rightarrow> nat option) \<Rightarrow> xsd_cm \<Rightarrow> nat" where
  "cm_cost expand (XsdCm k nm ns a q u mn mx cs oa om) =
    (if k = XSD_CM_GROUP_REF then (case expand nm of None \<Rightarrow> 1 | Some c \<Rightarrow> c)
     else sum_list (map (\<lambda>c. occ_cost c (cm_cost expand c) + 2) cs) + 2)"

primrec group_cost :: "schema \<Rightarrow> nat \<Rightarrow> bytes option \<Rightarrow> nat option" where
  "group_cost s 0 name = None"
| "group_cost s (Suc left) name = map_option (cm_cost (group_cost s left)) (group_body s name)"

definition room :: "cm_nfa \<Rightarrow> nat \<Rightarrow> bool" where
  "room n k \<longleftrightarrow> \<not> overflow n \<and> state_count n + k \<le> XSD_CM_NFA_MAX \<and> length (trans n) + k \<le> XSD_CM_NFA_MAX"

definition costs :: "builder \<Rightarrow> nat \<Rightarrow> bool" where
  "costs b k \<longleftrightarrow> (\<forall>f t n j. room n (k + j) \<longrightarrow> room (b f t n) j)"

lemma costsD: "costs b k \<Longrightarrow> room n (k + j) \<Longrightarrow> room (b f t n) j"
  by (simp add: costs_def)

lemma room_mono: "room n k \<Longrightarrow> j \<le> k \<Longrightarrow> room n j"
  by (simp add: room_def)

lemma room_trans: "room n (Suc j) \<Longrightarrow> room (nfa_trans p sy a q n) j"
  by (auto simp: room_def nfa_trans_def)

lemma room_state: "room n (Suc j) \<Longrightarrow> room (snd (nfa_state n)) j"
  by (auto simp: room_def nfa_state_def)

lemma room_state_case: "room n (Suc j) \<Longrightarrow> nfa_state n = (mid, n0) \<Longrightarrow> room n0 j"
  using room_state[of n j] by simp

lemma room_min: "costs b k \<Longrightarrow> room n (i * (k + 2) + j) \<Longrightarrow>
    \<exists>f' n'. min_copies b i f n = (Some f', n') \<and> room n' j"
proof (induction i arbitrary: f n)
  case (Suc i)
  obtain mid n0 where s: "nfa_state n = (mid, n0)" by fastforce
  have "room n (Suc (k + (i * (k + 2) + j)))" using Suc.prems(2) by (rule room_mono) simp
  from costsD[OF Suc.prems(1) room_state_case[OF this s]] have "room (b f mid n0) (i * (k + 2) + j)" .
  from Suc.IH[OF Suc.prems(1) this] show ?case using s Suc.prems(2) by (simp add: room_def)
qed simp

lemma room_opt: "costs b k \<Longrightarrow> room n (i * (k + 2) + j) \<Longrightarrow>
    \<exists>f' n'. opt_copies b i f t n = (Some f', n') \<and> room n' j"
proof (induction i arbitrary: f n)
  case (Suc i)
  let ?n = "nfa_trans f (-1) None t n"
  obtain mid n0 where s: "nfa_state ?n = (mid, n0)" by fastforce
  have "room n (Suc (Suc (k + (i * (k + 2) + j))))" using Suc.prems(2) by (rule room_mono) simp
  from costsD[OF Suc.prems(1) room_state_case[OF room_trans[OF this] s]] have "room (b f mid n0) (i * (k + 2) + j)" .
  from Suc.IH[OF Suc.prems(1) this] show ?case using s Suc.prems(2) by (simp add: room_def)
qed simp

lemma costs_occurrence:
  assumes b: "costs b k"
  shows "costs (cm_build_occurrence c b) (occ_cost c k)"
  unfolding costs_def
proof (intro allI impI)
  fix f t n j
  assume r: "room n (occ_cost c k + j)"
  let ?i = "nat (min_occurs c)"
  have no: "\<not> overflow n" using r by (simp add: room_def)
  show "room (cm_build_occurrence c b f t n) j"
  proof (cases "max_occurs c < 0")
    case True
    have "room n (?i * (k + 2) + (k + 3 + j))"
      using r by (rule room_mono) (simp add: occ_cost_def True algebra_simps)
    from room_min[OF b this, of f] obtain f1 n1 where
      m: "min_copies b ?i f n = (Some f1, n1)" "room n1 (k + 3 + j)" by blast
    obtain loop n2 where s: "nfa_state n1 = (loop, n2)" by fastforce
    have "room n1 (Suc (Suc (k + Suc j)))" using m(2) by (rule room_mono) simp
    from room_trans[OF costsD[OF b room_trans[OF room_state_case[OF this s]]]]
    show ?thesis using no m(1) s True by (simp add: cm_build_occurrence_def)
  next
    case False
    let ?o = "nat (max_occurs c - min_occurs c)"
    have "room n (?i * (k + 2) + (?o * (k + 2) + Suc j))"
      using r by (rule room_mono) (simp add: occ_cost_def False algebra_simps)
    from room_min[OF b this, of f] obtain f1 n1 where
      m: "min_copies b ?i f n = (Some f1, n1)" "room n1 (?o * (k + 2) + Suc j)" by blast
    from room_opt[OF b m(2), of f1 t] obtain f2 n2 where
      o: "opt_copies b ?o f1 t n1 = (Some f2, n2)" "room n2 (Suc j)" by blast
    show ?thesis using room_trans[OF o(2)] no m(1) o(1) False by (simp add: cm_build_occurrence_def)
  qed
qed

lemma costs_oc: "room n (Suc j) \<Longrightarrow> room (oc_loop node st n) j"
  by (auto simp: oc_loop_def intro: room_trans room_mono)

abbreviation member_cost :: "(xsd_cm \<Rightarrow> nat) \<Rightarrow> xsd_cm list \<Rightarrow> nat" where
  "member_cost K cs \<equiv> sum_list (map (\<lambda>c. occ_cost c (K c) + 2) cs)"

lemma costs_chain:
  "cs \<noteq> [] \<Longrightarrow> \<forall>c \<in> set cs. costs (B c) (K c) \<Longrightarrow> costs (chain_children node (map (\<lambda>c. (c, B c)) cs)) (member_cost K cs)"
proof (induction cs rule: induct_list012)
  case (2 c)
  show ?case
    unfolding costs_def
  proof (intro allI impI)
    fix f t n j assume "room n (member_cost K [c] + j)"
    then have "room n (occ_cost c (K c) + Suc j)" by (rule room_mono) simp
    then have "room (cm_build_occurrence c (B c) f t n) (Suc j)"
      using costsD[OF costs_occurrence] 2 by simp
    then show "room (chain_children node (map (\<lambda>c. (c, B c)) [c]) f t n) j"
      using costs_oc room_mono[of _ "Suc j" j] by (simp add: Let_def)
  qed
next
  case (3 c c' cs)
  show ?case
    unfolding costs_def
  proof (intro allI impI)
    fix f t n j
    let ?rest = "member_cost K (c' # cs)"
    assume "room n (member_cost K (c # c' # cs) + j)"
    then have r: "room n (Suc (occ_cost c (K c) + Suc (?rest + j)))" by (rule room_mono) simp
    obtain mid n0 where s: "nfa_state n = (mid, n0)" by fastforce
    have one: "room (cm_build_occurrence c (B c) f mid n0) (Suc (?rest + j))"
      using costsD[OF costs_occurrence room_state_case[OF r s]] 3 by simp
    have "room (if interleave node then oc_loop node mid (cm_build_occurrence c (B c) f mid n0)
        else cm_build_occurrence c (B c) f mid n0) (?rest + j)"
      using costs_oc[OF one] room_mono[OF one, of "?rest + j"] by simp
    moreover have "costs (chain_children node (map (\<lambda>c. (c, B c)) (c' # cs))) ?rest"
      using 3 by (intro 3(2)) simp_all
    ultimately show "room (chain_children node (map (\<lambda>c. (c, B c)) (c # c' # cs)) f t n) j"
      using s by (simp add: Let_def costsD del: sum_list.Cons)
  qed
qed simp


lemma costs_mono: "costs b k \<Longrightarrow> k \<le> k' \<Longrightarrow> costs b k'"
  unfolding costs_def using room_mono by (meson add_le_mono1)

lemma costs_eps: "costs (\<lambda>f t. nfa_trans f (-1) None t) 1"
  unfolding costs_def using room_trans by simp

lemma costs_children:
  assumes "\<forall>c \<in> set cs. costs (B c) (K c)"
  shows "costs (cm_build_children node (map (\<lambda>c. (c, B c)) cs)) (member_cost K cs + 2)"
proof (cases "cs = []")
  case True
  have "cm_build_children node [] = (\<lambda>f t. nfa_trans f (-1) None t)"
    by (simp add: fun_eq_iff cm_build_children_def)
  then show ?thesis using True costs_mono[OF costs_eps, of 2] by (simp add: numeral_2_eq_2)
next
  case False
  note ch = costs_chain[OF False assms, of node]
  show ?thesis
    unfolding costs_def
  proof (intro allI impI)
    fix f t n j assume "room n (member_cost K cs + 2 + j)"
    then have r: "room n (Suc (member_cost K cs + j))" by (rule room_mono) simp
    have "room (if interleave node then oc_loop node f n else n) (member_cost K cs + j)"
      using costs_oc[OF r] room_mono[OF r, of "member_cost K cs + j"] by simp
    from costsD[OF ch this] show "room (cm_build_children node (map (\<lambda>c. (c, B c)) cs) f t n) j"
      using False by (simp add: cm_build_children_def)
  qed
qed

lemma costs_choice:
  assumes "\<forall>c \<in> set cs. costs (B c) (K c)"
  shows "costs (build_choice (map (\<lambda>c. (c, B c)) cs)) (member_cost K cs + 2)"
proof (cases "cs = []")
  case True
  have "build_choice [] = (\<lambda>f t. nfa_trans f (-1) None t)"
    by (simp add: fun_eq_iff build_choice_def)
  then show ?thesis using True costs_mono[OF costs_eps, of 2] by (simp add: numeral_2_eq_2)
next
  case False
  have "room n (member_cost K cs + j) \<Longrightarrow>
      room (fold (\<lambda>(c, b). cm_build_occurrence c b f t) (map (\<lambda>c. (c, B c)) cs) n) j" for f t n j
    using assms
  proof (induction cs arbitrary: n)
    case (Cons c cs)
    have "room n (occ_cost c (K c) + (member_cost K cs + j))" using Cons.prems(1) by (rule room_mono) simp
    moreover have "costs (B c) (K c)" using Cons.prems(2) by simp
    ultimately have "room (cm_build_occurrence c (B c) f t n) (member_cost K cs + j)"
      using costsD[OF costs_occurrence] by blast
    from Cons.IH[OF this] Cons.prems(2) show ?case by simp
  qed simp
  then have "costs (build_choice (map (\<lambda>c. (c, B c)) cs)) (member_cost K cs)"
    using False by (simp add: costs_def build_choice_def)
  then show ?thesis by (rule costs_mono) simp
qed

lemma costs_node:
  assumes e: "\<And>nm. rel_option costs (eb nm) (ek nm)"
  shows "costs (cm_build eb m) (cm_cost ek m)"
proof (induction m)
  case (XsdCm k nm ns a q u mn mx cs oa om)
  let ?m = "XsdCm k nm ns a q u mn mx cs oa om"
  have cs: "\<forall>c \<in> set cs. costs (cm_build eb c) (cm_cost ek c)" using XsdCm by blast
  have one: "costs (\<lambda>f t. nfa_trans f 0 (Some ?m) t) 1" unfolding costs_def using room_trans by simp
  show ?case
  proof (cases "k = XSD_CM_GROUP_REF")
    case True
    show ?thesis
    proof (cases "eb nm")
      case None
      then have "ek nm = None" using e[of nm] by simp
      with None show ?thesis using True costs_eps by (simp add: Let_def)
    next
      case (Some b)
      then obtain K where "ek nm = Some K" "costs b K" using e[of nm] by (auto simp: option_rel_Some1)
      with Some show ?thesis using True by (simp add: Let_def)
    qed
  next
    case False
    with costs_children[OF cs, of ?m] costs_choice[OF cs] costs_mono[OF one, of "cm_cost ek ?m"]
    show ?thesis by (cases k) (simp_all add: Let_def)
  qed
qed

lemma costs_groups: "rel_option costs (group_builder s left nm) (group_cost s left nm)"
proof (induction left arbitrary: nm)
  case (Suc left)
  show ?case using costs_node[OF Suc.IH] by (cases "group_body s nm") simp_all
qed simp

definition model_cost :: "schema \<Rightarrow> xsd_cm \<Rightarrow> nat" where
  "model_cost s m = occ_cost m (cm_cost (group_cost s 65) m)"

lemma model_fits:
  assumes "model_cost s m + 2 \<le> XSD_CM_NFA_MAX"
  shows "\<not> overflow (cm_build_model s m 0 1 two_states)"
proof -
  have "costs (cm_build_model s m) (model_cost s m)"
    unfolding cm_build_model_def model_cost_def by (intro costs_occurrence costs_node costs_groups)
  moreover have "room two_states (model_cost s m + 0)" using assms by (simp add: room_def two_states_def)
  ultimately have "room (cm_build_model s m 0 1 two_states) 0" by (rule costsD)
  then show ?thesis by (simp add: room_def)
qed

lemma small_model_verdict:
  assumes "model_cost s m + 2 \<le> XSD_CM_NFA_MAX" "\<not> fst (cm_bound_over 65 indet s m)"
    and "cm_kind m \<noteq> XSD_CM_ALL \<or> children m = []"
  shows "xsd_content_valid indet s (Some m) target_ns w \<in> {0, 1}"
  using model_fits[OF assms(1)] assms(2) content_valid_automaton[OF assms(3), of indet s target_ns w]
  by (simp add: Let_def)

text \<open>
  A model of modest size gets a verdict: if the size bound does not reject it and its copies, counted
  with the states and transitions they need, stay below the limit of one million, the check answers
  0 or 1 and never gives up.
\<close>

theorem small_model_decided:
  assumes "model_cost s m + 2 \<le> XSD_CM_NFA_MAX" "\<not> fst (cm_bound_over 65 indet s m)"
    and "cm_kind m \<noteq> XSD_CM_ALL \<or> children m = []"
  shows "xsd_content_valid indet s (Some m) target_ns w \<in> {0, 1}"
  using model_fits[OF assms(1)] assms(2) content_valid_automaton[OF assms(3), of indet s target_ns w]
  by (simp add: Let_def)


section \<open>Examples\<close>

definition element_particle :: "bytes \<Rightarrow> xsd_cm" where
  "element_particle nm = XsdCm XSD_CM_ELEMENT (Some nm) None None None None 1 1 [] None 0"

text \<open>The model \<open>(a, (b | c)*)\<close>.\<close>

definition demo_model :: xsd_cm where
  "demo_model = XsdCm XSD_CM_SEQ None None None None None 1 1
    [element_particle [0x61],
     XsdCm XSD_CM_CHOICE None None None None None 0 (-1) [element_particle [0x62], element_particle [0x63]] None 0] None 0"

lemma demo_ok: "model_ok demo_model" "groups_ok None" "cm_kind demo_model \<noteq> XSD_CM_ALL \<or> children demo_model = []"
  by (simp_all add: demo_model_def element_particle_def node_ok_def groups_ok_def group_body_def xsd_find_group_def)

lemma demo_bound: "\<not> fst (cm_bound_over 65 0 None demo_model)"
proof -
  have "cm_bound_over (Suc (Suc (Suc k))) 0 None demo_model = (False, Some 8)" for k
    by (simp add: demo_model_def element_particle_def bound_finish_def bound_copies_def XSD_CM_NFA_MAX_def)
  from this[of 62] show ?thesis by simp
qed

lemma demo_cost: "model_cost None demo_model + 2 \<le> XSD_CM_NFA_MAX"
  by (simp add: demo_model_def element_particle_def model_cost_def occ_cost_def XSD_CM_NFA_MAX_def)

theorem small_model_decided_witness:
  "xsd_content_valid 0 None (Some demo_model) None [([0x61], None), ([0x63], None)] \<in> {0, 1}"
  by (rule small_model_decided[OF demo_cost demo_bound demo_ok(3)])

lemma demo_word: "[([0x61], None), ([0x63], None)] \<in> model_lang None None demo_model"
proof -
  have takes: "takes None None (element_particle nm) (x, None) \<longleftrightarrow> x = nm" for nm x
    by (auto simp: takes_def element_takes_def element_particle_def has_ns_def)
  have "[([0x63], None)] \<in> occurs 0 (-1) ({[c] | c. takes None None (element_particle [0x62]) c} \<union>
      {[c] | c. takes None None (element_particle [0x63]) c})"
    unfolding occurs_def by (intro CollectI exI[of _ "Suc 0"]) (simp add: takes)
  then have "[([0x61], None)] @ ([([0x63], None)] @ []) \<in> conc {[c] | c. takes None None (element_particle [0x61]) c}
      (conc (occurs 0 (-1) ({[c] | c. takes None None (element_particle [0x62]) c} \<union>
      {[c] | c. takes None None (element_particle [0x63]) c})) {[]})"
    by (intro concI) (simp_all add: takes)
  then show ?thesis
    by (simp add: model_lang_def demo_model_def Let_def element_particle_def)
qed

theorem content_model_exact_witness:
  "xsd_content_valid 0 None (Some demo_model) None [([0x61], None), ([0x63], None)] = 1"
proof -
  have "xsd_content_valid 0 None (Some demo_model) None [([0x61], None), ([0x63], None)] \<noteq> -2"
    using small_model_verdict[OF demo_cost demo_bound demo_ok(3), of None "[([0x61], None), ([0x63], None)]"] by auto
  from content_model_exact[OF demo_ok(2,1,3) this] demo_word show ?thesis by simp
qed

section \<open>Groups that refer to themselves\<close>

definition self_ref :: "bytes \<Rightarrow> xsd_cm" where
  "self_ref g = XsdCm XSD_CM_GROUP_REF (Some g) None None None None 1 1 [] None 0"

definition self_schema :: "bytes \<Rightarrow> leptris_xsd_schema" where
  "self_schema g = \<lparr>elements = [], schema_groups = [\<lparr>group_name = g, group_model = Some (self_ref g)\<rparr>]\<rparr>"

lemma self_bound:
  "indet + left + 1 \<le> XSD_CM_NFA_MAX \<Longrightarrow>
    cm_bound_over (Suc left) indet (Some (self_schema g)) (self_ref g) = (False, Some (indet + left + 1))"
proof (induction left)
  case 0
  then show ?case
    by (auto simp: self_ref_def self_schema_def group_body_def xsd_find_group_def bound_finish_def bound_copies_def
        div_eq_0_iff)
next
  case (Suc left)
  then have "cm_bound_over (Suc left) indet (Some (self_schema g)) (self_ref g) = (False, Some (indet + left + 1))"
    by simp
  moreover have "group_body (Some (self_schema g)) (cm_name (self_ref g)) = Some (self_ref g)"
    by (simp add: self_ref_def self_schema_def group_body_def xsd_find_group_def)
  ultimately have "cm_bound_over (Suc (Suc left)) indet (Some (self_schema g)) (self_ref g) =
      bound_finish (self_ref g) (indet + left + 1)"
    unfolding cm_bound_over.simps(2)[of "Suc left"] by (simp add: self_ref_def)
  then show ?case using Suc.prems by (auto simp: bound_finish_def bound_copies_def self_ref_def div_eq_0_iff)
qed

text \<open>A sequence of up to two references to the group.\<close>

definition twice_ref :: "bytes \<Rightarrow> xsd_cm" where
  "twice_ref g = XsdCm XSD_CM_SEQ None None None None None 1 1
    [XsdCm XSD_CM_GROUP_REF (Some g) None None None None 1 2 [] None 0] None 0"

lemma twice_bound:
  assumes "indet + 63 \<le> XSD_CM_NFA_MAX"
  shows "fst (cm_bound_over 65 indet (Some (self_schema g)) (twice_ref g)) \<longleftrightarrow> 2 * (indet + 63) + 2 > XSD_CM_NFA_MAX"
proof -
  have "cm_bound_over (Suc 62) indet (Some (self_schema g)) (self_ref g) = (False, Some (indet + 62 + 1))"
    by (rule self_bound) (use assms in simp)
  then have b: "cm_bound_over 63 indet (Some (self_schema g)) (self_ref g) = (False, Some (indet + 63))" by simp
  have gb: "group_body (Some (self_schema g)) (Some g) = Some (self_ref g)"
    by (simp add: self_schema_def group_body_def xsd_find_group_def)
  let ?r = "XsdCm XSD_CM_GROUP_REF (Some g) None None None None 1 2 [] None 0"
  have "cm_bound_over (Suc 63) indet (Some (self_schema g)) ?r = bound_finish ?r (indet + 63)"
    unfolding cm_bound_over.simps(2)[of 63] by (simp add: gb b)
  then have r: "cm_bound_over 64 indet (Some (self_schema g)) ?r = bound_finish ?r (indet + 63)" by simp
  have t: "cm_bound_over (Suc 64) indet (Some (self_schema g)) (twice_ref g) =
      (case bound_sum [bound_finish ?r (indet + 63)] 0 of None \<Rightarrow> (True, None) | Some sub \<Rightarrow> bound_finish (twice_ref g) sub)"
    unfolding cm_bound_over.simps(2)[of 64] by (simp add: twice_ref_def r)
  have half: "2 > XSD_CM_NFA_MAX div k \<longleftrightarrow> 2 * k > XSD_CM_NFA_MAX" if "0 < k" for k
    using that by (simp add: div_less_iff_less_mult mult.commute)
  have one: "1 > XSD_CM_NFA_MAX div k \<longleftrightarrow> k > XSD_CM_NFA_MAX" if "0 < k" for k
    using that by (auto simp: div_eq_0_iff)
  have "fst (cm_bound_over (Suc 64) indet (Some (self_schema g)) (twice_ref g)) \<longleftrightarrow> 2 * (indet + 63) + 2 > XSD_CM_NFA_MAX"
  proof -
    define k where "k = indet + 63"
    then have "0 < k" by simp
    then show ?thesis
      unfolding t k_def[symmetric] using half[of k] one[of "k * 2 + 1"]
      by (auto simp: bound_finish_def bound_copies_def twice_ref_def Let_def)
  qed
  then show ?thesis by simp
qed


section \<open>Open content\<close>

text \<open>
  Open content counts for sequences only: a choice, a wildcard or a group reference at the root of
  a model gives the same verdict with and without the wildcard of its \<open>xs:openContent\<close>, so children
  the open content admits are rejected.
\<close>

theorem open_content_only_in_sequences:
  assumes "k \<in> {XSD_CM_CHOICE, XSD_CM_GROUP_REF}"
  shows "xsd_content_valid indet s (Some (XsdCm k nm ns a q u mn mx cs oa om)) target_ns w =
    xsd_content_valid indet s (Some (XsdCm k nm ns a q u mn mx cs None 0)) target_ns w"
proof -
  let ?m = "XsdCm k nm ns a q u mn mx cs oa om" and ?m' = "XsdCm k nm ns a q u mn mx cs None 0"
  have k: "cm_kind ?m \<noteq> XSD_CM_ALL \<or> children ?m = []" "cm_kind ?m' \<noteq> XSD_CM_ALL \<or> children ?m' = []"
    using assms by auto
  have "bound_finish ?m = bound_finish ?m'" by (simp add: fun_eq_iff bound_finish_def bound_copies_def)
  then have "cm_bound_over (Suc 64) indet s ?m = cm_bound_over (Suc 64) indet s ?m'"
    by (simp only: cm_bound_over.simps(2)[of 64] xsd_cm.sel)
  then have "cm_bound_over 65 indet s ?m = cm_bound_over 65 indet s ?m'" by simp
  moreover have "cm_build_model s ?m = cm_build_model s ?m'"
  proof -
    have "cm_build (group_builder s 65) ?m = cm_build (group_builder s 65) ?m'"
      using assms by (auto simp: Let_def)
    moreover have "cm_build_occurrence ?m b = cm_build_occurrence ?m' b" for b
      unfolding fun_eq_iff cm_build_occurrence_def xsd_cm.sel by simp
    ultimately show ?thesis unfolding cm_build_model_def by simp
  qed
  ultimately show ?thesis
    using content_valid_automaton[OF k(1), of indet s target_ns w] content_valid_automaton[OF k(2), of indet s target_ns w]
    by (simp add: Let_def)
qed

definition open_choice :: xsd_cm where
  "open_choice = XsdCm XSD_CM_CHOICE None None None None None 1 1 [element_particle [0x61]]
    (Some (XsdCm XSD_CM_ANY None None None None None 1 1 [] None 0)) 2"

theorem open_content_only_in_sequences_witness:
  "xsd_content_valid 0 None (Some open_choice) None [([0x61], None), ([0x62], None)] =
    xsd_content_valid 0 None (Some (XsdCm XSD_CM_CHOICE None None None None None 1 1 [element_particle [0x61]] None 0))
      None [([0x61], None), ([0x62], None)]"
  unfolding open_choice_def by (rule open_content_only_in_sequences) simp


section \<open>All-groups\<close>

lemma count_positions: "count_list r j = card {i. i < length r \<and> r ! i = j}"
  by (simp add: count_list_eq_length_filter length_filter_conv_card eq_commute)

text \<open>
  C26. The counting check of a root \<open>xs:all\<close> accepts exactly the arrangements of its particles: the
  children can be dealt out to the particles, each to one that takes it, with every particle used
  within its occurrence bounds, in any order. No child of the sequence may be taken by two particles.
\<close>

theorem all_group_arrangement:
  assumes "cs \<noteq> [] \<or> min_occurs all \<noteq> 0"
    and unamb: "\<And>i j c. i < length (children all) \<Longrightarrow> j < length (children all) \<Longrightarrow> c \<in> set cs \<Longrightarrow>
      all_takes (children all ! i) c \<Longrightarrow> all_takes (children all ! j) c \<Longrightarrow> i = j"
  shows "all_root_valid all cs = 1 \<longleftrightarrow> (\<exists>r. length r = length cs
    \<and> (\<forall>i < length cs. r ! i < length (children all) \<and> all_takes (children all ! (r ! i)) (cs ! i))
    \<and> (\<forall>j < length (children all). min_occurs (children all ! j) \<le> int (count_list r j)
        \<and> (max_occurs (children all ! j) < 0 \<or> int (count_list r j) \<le> max_occurs (children all ! j))))"
proof -
  let ?ps = "children all"
  have valid: "all_root_valid all cs = 1 \<longleftrightarrow>
      (\<forall>j < length ?ps. min_occurs (?ps ! j) \<le> int (all_hits (?ps ! j) cs)
        \<and> (max_occurs (?ps ! j) < 0 \<or> int (all_hits (?ps ! j) cs) \<le> max_occurs (?ps ! j)))
      \<and> (\<forall>i < length cs. \<exists>j < length ?ps. all_takes (?ps ! j) (cs ! i))"
  proof -
    have "all_root_valid all cs = 1 \<longleftrightarrow>
        (\<forall>p \<in> set ?ps. min_occurs p \<le> int (all_hits p cs) \<and> (max_occurs p < 0 \<or> int (all_hits p cs) \<le> max_occurs p))
        \<and> (\<forall>c \<in> set cs. \<exists>p \<in> set ?ps. all_takes p c)"
      unfolding all_root_valid_def list_ex_iff using assms(1) by (auto simp: not_less not_le)
    moreover have "(\<exists>p \<in> set ?ps. all_takes p c) \<longleftrightarrow> (\<exists>j < length ?ps. all_takes (?ps ! j) c)" for c
      by (metis in_set_conv_nth)
    ultimately show ?thesis unfolding all_set_conv_all_nth by simp
  qed
  have hits: "all_hits (?ps ! j) cs = count_list r j"
    if "length r = length cs" "\<forall>i < length cs. r ! i < length ?ps \<and> all_takes (?ps ! (r ! i)) (cs ! i)"
      "j < length ?ps" for r j
  proof -
    have "{i. i < length cs \<and> all_takes (?ps ! j) (cs ! i)} = {i. i < length r \<and> r ! i = j}"
    proof (intro Collect_cong conj_cong)
      fix i assume i: "i < length r"
      then have "cs ! i \<in> set cs" "r ! i < length ?ps" "all_takes (?ps ! (r ! i)) (cs ! i)" using that by simp_all
      then show "all_takes (?ps ! j) (cs ! i) \<longleftrightarrow> r ! i = j" using unamb[OF that(3), of "r ! i"] by blast
    qed (use that in simp)
    then show ?thesis by (simp add: all_hits_def length_filter_conv_card count_positions)
  qed
  show ?thesis
  proof
    assume v: "all_root_valid all cs = 1"
    then have "\<forall>i. \<exists>j. i < length cs \<longrightarrow> j < length ?ps \<and> all_takes (?ps ! j) (cs ! i)"
      using valid by blast
    then obtain g where g: "\<And>i. i < length cs \<Longrightarrow> g i < length ?ps \<and> all_takes (?ps ! g i) (cs ! i)"
      by metis
    let ?r = "map g [0..<length cs]"
    have r: "length ?r = length cs" "\<forall>i < length cs. ?r ! i < length ?ps \<and> all_takes (?ps ! (?r ! i)) (cs ! i)"
      using g by simp_all
    then show "\<exists>r. length r = length cs
      \<and> (\<forall>i < length cs. r ! i < length ?ps \<and> all_takes (?ps ! (r ! i)) (cs ! i))
      \<and> (\<forall>j < length ?ps. min_occurs (?ps ! j) \<le> int (count_list r j)
          \<and> (max_occurs (?ps ! j) < 0 \<or> int (count_list r j) \<le> max_occurs (?ps ! j)))"
      using v valid hits[OF r] by (intro exI[of _ ?r]) simp
  next
    assume "\<exists>r. length r = length cs
      \<and> (\<forall>i < length cs. r ! i < length ?ps \<and> all_takes (?ps ! (r ! i)) (cs ! i))
      \<and> (\<forall>j < length ?ps. min_occurs (?ps ! j) \<le> int (count_list r j)
          \<and> (max_occurs (?ps ! j) < 0 \<or> int (count_list r j) \<le> max_occurs (?ps ! j)))"
    then obtain r where r: "length r = length cs"
      "\<forall>i < length cs. r ! i < length ?ps \<and> all_takes (?ps ! (r ! i)) (cs ! i)"
      "\<forall>j < length ?ps. min_occurs (?ps ! j) \<le> int (count_list r j)
          \<and> (max_occurs (?ps ! j) < 0 \<or> int (count_list r j) \<le> max_occurs (?ps ! j))" by blast
    then show "all_root_valid all cs = 1" unfolding valid using hits[OF r(1,2)] by auto
  qed
qed

definition demo_all :: xsd_cm where
  "demo_all = XsdCm XSD_CM_ALL None None None None None 1 1 [element_particle [0x61], element_particle [0x62]] None 0"

theorem all_group_arrangement_witness:
  "all_root_valid demo_all [([0x62], None), ([0x61], None)] = 1"
proof -
  have ps: "children demo_all = [element_particle [0x61], element_particle [0x62]]" by (simp add: demo_all_def)
  have name: "all_takes (element_particle nm) c \<Longrightarrow> fst c = nm" for nm c
    by (auto simp: all_takes_def element_particle_def split: prod.splits)
  have two: "i < 2 \<Longrightarrow> i = 0 \<or> i = 1" for i :: nat by arith
  have u: "i = j" if "i < 2" "j < 2" "all_takes (children demo_all ! i) c" "all_takes (children demo_all ! j) c" for i j c
    using two[OF that(1)] two[OF that(2)] that(3,4) unfolding ps by (auto dest!: name)
  have t: "all_takes (element_particle nm) (nm, None)" for nm
    by (simp add: all_takes_def element_particle_def has_ns_def)
  have occ: "min_occurs (element_particle nm) = 1" "max_occurs (element_particle nm) = 1" for nm
    by (simp_all add: element_particle_def)
  show ?thesis
  proof (rule all_group_arrangement[THEN iffD2])
    show "\<exists>r. length r = length [([0x62], None), ([0x61 :: u8], None :: bytes option)]
      \<and> (\<forall>i < length [([0x62], None), ([0x61], None)]. r ! i < length (children demo_all)
          \<and> all_takes (children demo_all ! (r ! i)) ([([0x62], None), ([0x61], None)] ! i))
      \<and> (\<forall>j < length (children demo_all). min_occurs (children demo_all ! j) \<le> int (count_list r j)
          \<and> (max_occurs (children demo_all ! j) < 0 \<or> int (count_list r j) \<le> max_occurs (children demo_all ! j)))"
      by (rule exI[of _ "[1, 0]"]) (auto simp: ps t occ less_Suc_eq)
  qed (use u ps in auto)
qed

section \<open>Wildcard filters\<close>

fun blank_tokens :: "bytes \<Rightarrow> bytes list" where
  "blank_tokens p = (case dropWhile xml_blank p of [] \<Rightarrow> []
    | b # bs \<Rightarrow> (b # takeWhile (\<lambda>c. \<not> xml_blank c) bs) # blank_tokens (dropWhile (\<lambda>c. \<not> xml_blank c) bs))"

declare blank_tokens.simps [simp del] ns_list_matches.simps [simp del] cm_not_qname_hits.simps [simp del]

definition ns_token :: "bytes \<Rightarrow> bytes option \<Rightarrow> bytes option \<Rightarrow> bool" where
  "ns_token tok uri target_ns \<longleftrightarrow>
    (if tok = ascii ''##local'' then uri = None
     else if tok = ascii ''##targetNamespace'' then target_ns \<noteq> None \<and> uri = target_ns
     else if tok = ascii ''##other'' then other_ns uri target_ns
     else uri = Some tok)"

definition qname_token :: "bytes \<Rightarrow> schema \<Rightarrow> bytes \<Rightarrow> bytes option \<Rightarrow> bool" where
  "qname_token tok s local uri \<longleftrightarrow>
    (if tok = ascii ''##defined'' then xsd_element_name_defined s (Some local) uri
     else 0x3A \<notin> set tok \<and> uri = None \<and> local = tok)"

lemma ns_list_step:
  assumes "dropWhile xml_blank p = b # bs" "tok = b # takeWhile (\<lambda>c. \<not> xml_blank c) bs"
    "rest = dropWhile (\<lambda>c. \<not> xml_blank c) bs"
  shows "ns_list_matches p uri target_ns \<longleftrightarrow> ns_token tok uri target_ns \<or> ns_list_matches rest uri target_ns"
  unfolding ns_list_matches.simps[of p] assms(1) list.case Let_def assms(2,3)[symmetric] ns_token_def
  by (simp only: if_bool_eq_disj) argo

lemma not_qname_step:
  assumes "dropWhile xml_blank p = b # bs" "tok = b # takeWhile (\<lambda>c. \<not> xml_blank c) bs"
    "rest = dropWhile (\<lambda>c. \<not> xml_blank c) bs"
  shows "cm_not_qname_hits p s local uri \<longleftrightarrow> qname_token tok s local uri \<or> cm_not_qname_hits rest s local uri"
  unfolding cm_not_qname_hits.simps[of p] assms(1) list.case Let_def assms(2,3)[symmetric] qname_token_def
  by (simp only: if_bool_eq_disj) argo

lemma tokens_induct [case_names blank token]:
  assumes "\<And>p. dropWhile xml_blank p = [] \<Longrightarrow> P p"
    and "\<And>p b bs. dropWhile xml_blank p = b # bs \<Longrightarrow> P (dropWhile (\<lambda>c. \<not> xml_blank c) bs) \<Longrightarrow> P p"
  shows "P p"
  by (induction p rule: blank_tokens.induct) (use assms in \<open>metis list.exhaust\<close>)

lemma ns_list_tokens: "ns_list_matches p uri target_ns \<longleftrightarrow> (\<exists>tok \<in> set (blank_tokens p). ns_token tok uri target_ns)"
proof (induction p rule: tokens_induct)
  case (blank p)
  show ?case unfolding ns_list_matches.simps[of p] blank_tokens.simps[of p] blank by simp
next
  case (token p b bs)
  show ?case
    unfolding ns_list_step[OF token(1) refl refl] blank_tokens.simps[of p] token list.case by simp
qed

lemma not_qname_tokens: "cm_not_qname_hits p s local uri \<longleftrightarrow> (\<exists>tok \<in> set (blank_tokens p). qname_token tok s local uri)"
proof (induction p rule: tokens_induct)
  case (blank p)
  show ?case unfolding cm_not_qname_hits.simps[of p] blank_tokens.simps[of p] blank by simp
next
  case (token p b bs)
  show ?case
    unfolding not_qname_step[OF token(1) refl refl] blank_tokens.simps[of p] token list.case by simp
qed

text \<open>
  A wildcard whose namespace attribute is a list admits a child exactly when one of the
  blank-separated tokens does, the keywords included, and its notQName list excludes it exactly when
  one of its tokens names it. The keyword \<open>##any\<close> counts only alone: in a list it is a namespace name.
\<close>

theorem wildcard_tokens:
  assumes "any_ns any = Some f" "f \<notin> {ascii ''##any'', ascii ''##local'', ascii ''##targetNamespace'', ascii ''##other''}"
  shows "any_takes s target_ns any (name, uri) \<longleftrightarrow>
    (\<exists>tok \<in> set (blank_tokens f). ns_token tok uri (if any_unit_tns any \<noteq> None then any_unit_tns any else target_ns))
    \<and> (\<forall>q. not_qname any = Some q \<longrightarrow> \<not> (\<exists>tok \<in> set (blank_tokens q). qname_token tok s name uri))"
  using assms by (auto simp: any_takes_def any_ns_matches_def ns_list_tokens not_qname_tokens split: option.splits)

theorem wildcard_tokens_witness:
  "any_takes None None (XsdCm XSD_CM_ANY None None (Some (ascii ''urn:a  ##local'')) None None 1 1 [] None 0) ([0x61], None)"
proof -
  have "blank_tokens (ascii ''urn:a  ##local'') = [ascii ''urn:a'', ascii ''##local'']"
    by (simp add: blank_tokens.simps ascii_def xml_blank_def)
  then show ?thesis
    by (subst wildcard_tokens[of _ "ascii ''urn:a  ##local''"]) (simp_all add: ns_token_def, simp_all add: ascii_def)
qed

end
