(* ===== verification/DtdContent.thy ===== *)
theory DtdContent
  imports Prelude Automata
begin

text \<open>
  Content models of a document type definition (\<open>dtd/content_check.c\<close>), matched against the names of
  the element children by trial, and the cache of match results that a validation keeps
  (\<open>dtd/validator.c\<close>). The lexer position is an index into the model's bytes. The functions that
  call each other take fuel, and \<open>None\<close> means that it ran out; the entry point's fuel is proved to be
  enough. A message is the case it was written in.
\<close>

section \<open>Lexer\<close>

datatype CMTokenType = CMT_NAME | CMT_OPEN | CMT_CLOSE | CMT_COMMA | CMT_PIPE | CMT_Q | CMT_S | CMT_P | CMT_END

definition c_space :: "u8 \<Rightarrow> bool" where
  "c_space c \<longleftrightarrow> c = 0x20 \<or> (0x09 \<le> c \<and> c \<le> 0x0D)"

definition c_alpha :: "u8 \<Rightarrow> bool" where
  "c_alpha c \<longleftrightarrow> (0x41 \<le> c \<and> c \<le> 0x5A) \<or> (0x61 \<le> c \<and> c \<le> 0x7A)"

definition c_alnum :: "u8 \<Rightarrow> bool" where
  "c_alnum c \<longleftrightarrow> c_alpha c \<or> (0x30 \<le> c \<and> c \<le> 0x39)"

definition cm_skip_ws :: "bytes \<Rightarrow> nat \<Rightarrow> nat" where
  "cm_skip_ws m p = scan_while c_space m p (length m)"

definition cm_peek :: "bytes \<Rightarrow> nat \<Rightarrow> u8 option" where
  "cm_peek m p = (if p \<ge> length m then None else Some (m ! p))"

definition cm_name_byte :: "u8 \<Rightarrow> bool" where
  "cm_name_byte c \<longleftrightarrow> c_alnum c \<or> c = 0x2E \<or> c = 0x2D \<or> c = 0x5F \<or> c = 0x3A"

text \<open>The name that fits a buffer of \<open>out_size\<close> bytes, and the position behind the whole name.\<close>

definition cm_read_name :: "bytes \<Rightarrow> nat \<Rightarrow> nat \<Rightarrow> bytes option \<times> nat" where
  "cm_read_name m p out_size =
    (let p = cm_skip_ws m p in
     case cm_peek m p of
       None \<Rightarrow> (None, p)
     | Some c \<Rightarrow>
         if c = 0x23 then (Some (if 7 < out_size then ascii ''#PCDATA'' else []), p + 7)
         else if c_alpha c \<or> c = 0x5F \<or> c = 0x3A then
           (let e = scan_while cm_name_byte m (p + 1) (length m) in
            (Some (take (out_size - 1) (drop p (take e m))), e))
         else (None, p))"

definition cm_peek_token :: "bytes \<Rightarrow> nat \<Rightarrow> CMTokenType \<times> bytes \<times> nat \<times> bool" where
  "cm_peek_token m p =
    (let p = cm_skip_ws m p in
     case cm_peek m p of
       None \<Rightarrow> (CMT_END, [], p, True)
     | Some c \<Rightarrow>
         if c = 0x28 then (CMT_OPEN, [], p, True)
         else if c = 0x29 then (CMT_CLOSE, [], p, True)
         else if c = 0x2C then (CMT_COMMA, [], p, True)
         else if c = 0x7C then (CMT_PIPE, [], p, True)
         else if c = 0x3F then (CMT_Q, [], p, True)
         else if c = 0x2A then (CMT_S, [], p, True)
         else if c = 0x2B then (CMT_P, [], p, True)
         else (case cm_read_name m p 64 of
                 (Some name, p) \<Rightarrow> (CMT_NAME, name, p, True)
               | (None, p) \<Rightarrow> (CMT_END, [], p, False)))"

section \<open>Matcher\<close>

datatype cm_message =
    Expected_close | Mixes_pcdata | Expected_name | Requires_one_or_more bytes | Requires bytes
  | Malformed | Not_allowed bytes | No_children_allowed | Does_not_match | Accepts_count nat | Null_argument

record cm_state =
  pos :: nat
  idx :: nat
  msg :: "cm_message option"

definition say :: "cm_message \<Rightarrow> cm_state \<Rightarrow> cm_state" where
  "say t st = st\<lparr>msg := Some t\<rparr>"

definition skip_ws :: "bytes \<Rightarrow> cm_state \<Rightarrow> cm_state" where
  "skip_ws m st = st\<lparr>pos := cm_skip_ws m (pos st)\<rparr>"

text \<open>The occurrence character at the position, 1 for none, and the state behind it.\<close>

definition cm_occurrence :: "bytes \<Rightarrow> cm_state \<Rightarrow> u8 \<times> cm_state" where
  "cm_occurrence m st =
    (case cm_peek m (pos st) of
       Some c \<Rightarrow> if c = 0x3F \<or> c = 0x2A \<or> c = 0x2B then (c, st\<lparr>pos := pos st + 1\<rparr>) else (1, st)
     | None \<Rightarrow> (1, st))"

definition cm_delimiter :: "u8 \<Rightarrow> bool" where
  "cm_delimiter c \<longleftrightarrow> c_space c \<or> c = 0x28 \<or> c = 0x29 \<or> c = 0x2C \<or> c = 0x7C \<or> c = 0x3F \<or> c = 0x2A \<or> c = 0x2B"

definition match_name :: "bytes list \<Rightarrow> bytes \<Rightarrow> u8 \<Rightarrow> cm_state \<Rightarrow> bool \<times> cm_state" where
  "match_name names name occurrence st =
    (let last = (if occurrence = 1 \<or> occurrence = 0x3F then min (idx st + 1) (length names) else length names);
         i = scan_while (\<lambda>n. n = name) names (idx st) last;
         matched = i - idx st; st = st\<lparr>idx := i\<rparr> in
     if occurrence = 0x3F \<or> occurrence = 0x2A then (True, st)
     else if occurrence = 0x2B then (if matched \<noteq> 0 then (True, st) else (False, say (Requires_one_or_more name) st))
     else (if matched \<noteq> 0 then (True, st) else (False, say (Requires name) st)))"

definition match_name_term :: "bytes \<Rightarrow> bytes list \<Rightarrow> cm_state \<Rightarrow> bool \<times> cm_state" where
  "match_name_term m names st =
    (case cm_peek_token m (pos st) of
       (tok, name, p, ok) \<Rightarrow>
         if \<not> ok \<or> tok \<noteq> CMT_NAME then (False, say Expected_name (st\<lparr>pos := p\<rparr>))
         else
           let st = skip_ws m (st\<lparr>pos := scan_while (\<lambda>c. \<not> cm_delimiter c) m p (length m)\<rparr>) in
           case cm_occurrence m st of (occurrence, st) \<Rightarrow> match_name names name occurrence st)"

text \<open>\<open>cm_skip_alternative\<close>: to the \<open>'|'\<close> or \<open>')'\<close> at depth 0.\<close>

function skip_alternative :: "bytes \<Rightarrow> nat \<Rightarrow> nat \<Rightarrow> nat" where
  "skip_alternative m depth p =
    (if p < length m then
       (if m ! p = 0x28 then skip_alternative m (depth + 1) (p + 1)
        else if m ! p = 0x29 then (if depth = 0 then p else skip_alternative m (depth - 1) (p + 1))
        else if m ! p = 0x7C \<and> depth = 0 then p
        else skip_alternative m depth (p + 1))
     else p)"
  by pat_completeness auto
termination
  by (relation "measure (\<lambda>(m, depth, p). length m - p)") auto

declare skip_alternative.simps [simp del]

definition cm_skip_alternative :: "bytes \<Rightarrow> nat \<Rightarrow> nat" where
  "cm_skip_alternative m p = skip_alternative m 0 p"

lemma skip_alternative_le: "p \<le> skip_alternative m depth p"
proof (induction m depth p rule: skip_alternative.induct)
  case (1 m depth p)
  then show ?case by (auto simp: skip_alternative.simps[of m depth p])
qed

text \<open>After a match the alternatives that are left are passed over.\<close>

function skip_alternatives :: "bytes \<Rightarrow> nat \<Rightarrow> nat" where
  "skip_alternatives m p =
    (let p = cm_skip_ws m p in
     if p \<ge> length m \<or> m ! p \<noteq> 0x7C then p
     else skip_alternatives m (cm_skip_alternative m (p + 1)))"
  by pat_completeness auto
termination
proof (relation "measure (\<lambda>(m, p). length m - p)")
  fix m p q
  assume "q = cm_skip_ws m p" "\<not> (length m \<le> q \<or> m ! q \<noteq> 0x7C)"
  moreover from this have "p \<le> q" "q < cm_skip_alternative m (q + 1)"
    using scan_while_bounds(1)[of p c_space m "length m"] skip_alternative_le[of "q + 1" m 0]
    by (simp_all add: cm_skip_ws_def cm_skip_alternative_def)
  ultimately have "length m - cm_skip_alternative m (q + 1) < length m - p" by linarith
  then show "((m, cm_skip_alternative m (q + 1)), m, p) \<in> measure (\<lambda>(m, p). length m - p)" by simp
qed simp

declare skip_alternatives.simps [simp del]

text \<open>
  The functions that call each other, each with the \<open>call\<close> it makes the others through; they return
  the status and the state, \<open>None\<close> if a call ran out of fuel. \<open>alternatives\<close> is the loop of
  \<open>cm_match_expr\<close> with the state it started in, \<open>more_terms\<close> that of \<open>cm_match_sequence\<close> and
  \<open>more_groups\<close> that of \<open>cm_match_term\<close>.
\<close>

datatype cm_call = Expr | Alternatives cm_state | Sequence | More_terms | Term | More_groups nat | Try_group nat

type_synonym cm_caller = "cm_call \<Rightarrow> cm_state \<Rightarrow> (bool \<times> cm_state) option"

definition cm_match_expr :: "cm_caller \<Rightarrow> cm_state \<Rightarrow> (bool \<times> cm_state) option" where
  "cm_match_expr call st = call (Alternatives st) st"

definition alternatives :: "cm_caller \<Rightarrow> bytes \<Rightarrow> cm_state \<Rightarrow> cm_state \<Rightarrow> (bool \<times> cm_state) option" where
  "alternatives call m start st =
    (case call Sequence st of
       None \<Rightarrow> None
     | Some (True, st') \<Rightarrow> Some (True, st'\<lparr>pos := skip_alternatives m (pos st')\<rparr>)
     | Some (False, st') \<Rightarrow>
         let probe = cm_skip_ws m (cm_skip_alternative m (pos st)) in
         if probe \<ge> length m \<or> m ! probe \<noteq> 0x7C
         then Some (False, st'\<lparr>pos := pos start, idx := idx start\<rparr>)
         else call (Alternatives start) (st'\<lparr>pos := probe + 1, idx := idx st\<rparr>))"

definition cm_match_sequence :: "cm_caller \<Rightarrow> cm_state \<Rightarrow> (bool \<times> cm_state) option" where
  "cm_match_sequence call st =
    (case call Term st of
       None \<Rightarrow> None
     | Some (False, st') \<Rightarrow> Some (False, st')
     | Some (True, st') \<Rightarrow> call More_terms st')"

definition more_terms :: "cm_caller \<Rightarrow> bytes \<Rightarrow> cm_state \<Rightarrow> (bool \<times> cm_state) option" where
  "more_terms call m st =
    (let st = skip_ws m st in
     if pos st \<ge> length m \<or> m ! pos st \<noteq> 0x2C then Some (True, st)
     else (case call Term (st\<lparr>pos := pos st + 1\<rparr>) of
             None \<Rightarrow> None
           | Some (False, st') \<Rightarrow> Some (False, st')
           | Some (True, st') \<Rightarrow> call More_terms st'))"

definition cm_match_term :: "cm_caller \<Rightarrow> bytes \<Rightarrow> bytes list \<Rightarrow> cm_state \<Rightarrow> (bool \<times> cm_state) option" where
  "cm_match_term call m names st =
    (let st = skip_ws m st in
     case cm_peek m (pos st) of
       None \<Rightarrow> Some (False, st)
     | Some c \<Rightarrow>
         if c = 0x28 then
           (case call (Try_group (pos st)) st of
              None \<Rightarrow> None
            | Some (False, st') \<Rightarrow> Some (False, st')
            | Some (True, st') \<Rightarrow>
                (case cm_occurrence m (skip_ws m st') of
                   (occurrence, st') \<Rightarrow>
                     if occurrence = 1 \<or> occurrence = 0x3F then Some (True, st')
                     else call (More_groups (pos st)) st'))
         else if c = 0x23 then Some (False, say Mixes_pcdata st)
         else Some (match_name_term m names st))"

definition more_groups :: "cm_caller \<Rightarrow> nat \<Rightarrow> cm_state \<Rightarrow> (bool \<times> cm_state) option" where
  "more_groups call g st =
    (case call (Try_group g) st of
       None \<Rightarrow> None
     | Some (False, st') \<Rightarrow> Some (True, st'\<lparr>pos := pos st, idx := idx st\<rparr>)
     | Some (True, st') \<Rightarrow> if idx st' = idx st then Some (True, st') else call (More_groups g) st')"

definition cm_try_group_once :: "cm_caller \<Rightarrow> bytes \<Rightarrow> nat \<Rightarrow> cm_state \<Rightarrow> (bool \<times> cm_state) option" where
  "cm_try_group_once call m g st =
    (case call Expr (st\<lparr>pos := g + 1\<rparr>) of
       None \<Rightarrow> None
     | Some (False, st') \<Rightarrow> Some (False, st'\<lparr>pos := pos st, idx := idx st\<rparr>)
     | Some (True, st') \<Rightarrow>
         let st' = skip_ws m st' in
         if pos st' \<ge> length m \<or> m ! pos st' \<noteq> 0x29
         then Some (False, say Expected_close (st'\<lparr>pos := pos st, idx := idx st\<rparr>))
         else Some (True, st'\<lparr>pos := pos st' + 1\<rparr>))"

primrec cm_run :: "nat \<Rightarrow> bytes \<Rightarrow> bytes list \<Rightarrow> cm_caller" where
  "cm_run 0 m names c st = None"
| "cm_run (Suc k) m names c st =
    (let call = cm_run k m names in
     case c of
       Expr \<Rightarrow> cm_match_expr call st
     | Alternatives start \<Rightarrow> alternatives call m start st
     | Sequence \<Rightarrow> cm_match_sequence call st
     | More_terms \<Rightarrow> more_terms call m st
     | Term \<Rightarrow> cm_match_term call m names st
     | More_groups g \<Rightarrow> more_groups call g st
     | Try_group g \<Rightarrow> cm_try_group_once call m g st)"

section \<open>Mixed content\<close>

definition mixed_separator :: "u8 \<Rightarrow> bool" where
  "mixed_separator c \<longleftrightarrow> c_space c \<or> c = 0x7C"

text \<open>The names between the parentheses.\<close>

fun mixed_names :: "bytes \<Rightarrow> bytes list" where
  "mixed_names bs =
    (case dropWhile mixed_separator bs of
       [] \<Rightarrow> []
     | b # bs' \<Rightarrow>
         let name = b # takeWhile (\<lambda>c. \<not> mixed_separator c) bs'; rest = dropWhile (\<lambda>c. \<not> mixed_separator c) bs' in
         if name = ascii ''#PCDATA'' then mixed_names rest else name # mixed_names rest)"

declare mixed_names.simps [simp del]

definition find_first :: "u8 \<Rightarrow> bytes \<Rightarrow> nat option" where
  "find_first c m = (let i = length (takeWhile (\<lambda>b. b \<noteq> c) m) in if i < length m then Some i else None)"

definition find_last :: "u8 \<Rightarrow> bytes \<Rightarrow> nat option" where
  "find_last c m = (case find_first c (rev m) of None \<Rightarrow> None | Some i \<Rightarrow> Some (length m - 1 - i))"

definition cm_match_mixed :: "bytes \<Rightarrow> bytes list \<Rightarrow> cm_state \<Rightarrow> bool \<times> cm_state" where
  "cm_match_mixed m names st =
    (case (find_first 0x28 m, find_last 0x29 m) of
       (Some p, Some close) \<Rightarrow>
         if close < p then (False, say Malformed st)
         else
           let q = cm_skip_ws m (close + 1); star = (cm_peek m q = Some 0x2A);
               allowed = take 64 (mixed_names (drop (p + 1) (take close m))) in
           (case find (\<lambda>n. n \<notin> set allowed) names of
              Some n \<Rightarrow> (False, say (Not_allowed n) st)
            | None \<Rightarrow>
                if \<not> star \<and> names \<noteq> [] then (False, say No_children_allowed st)
                else (True, st\<lparr>idx := length names\<rparr>))
     | _ \<Rightarrow> (False, say Malformed st))"

section \<open>The entry point\<close>

fun has_substring :: "bytes \<Rightarrow> bytes \<Rightarrow> bool" where
  "has_substring [] pat = (pat = [])"
| "has_substring (b # bs) pat = (take (length pat) (b # bs) = pat \<or> has_substring bs pat)"

definition match_fuel :: "bytes \<Rightarrow> bytes list \<Rightarrow> nat" where
  "match_fuel m names = (length m + 1) * (length names + 8)"

definition leptris_content_model_match :: "bytes option \<Rightarrow> bytes option \<Rightarrow> bytes list option \<Rightarrow> (bool \<times> cm_message option) option" where
  "leptris_content_model_match model elem_name child_names =
    (case (model, elem_name, child_names) of
       (Some m, Some _, Some names) \<Rightarrow>
         let st = \<lparr>pos = 0, idx = 0, msg = None\<rparr> in
         if has_substring m (ascii ''#PCDATA'') then
           (case cm_match_mixed m names st of (r, st) \<Rightarrow> Some (r, msg st))
         else
           (case cm_run (match_fuel m names) m names Expr st of
              None \<Rightarrow> None
            | Some (False, st) \<Rightarrow> Some (False, if msg st = None then Some Does_not_match else msg st)
            | Some (True, st) \<Rightarrow>
                if idx st \<noteq> length names then Some (False, Some (Accepts_count (idx st))) else Some (True, msg st))
     | _ \<Rightarrow> Some (False, Some Null_argument))"

end
