(* ===== verification/DtdMatch.thy ===== *)
theory DtdMatch
  imports DtdContent
begin

text \<open>
  The content-model matcher returns: the fuel each call needs, and that the entry point gives enough.
\<close>

section \<open>The matcher returns\<close>

lemma name_term_facts:
  assumes "idx st \<le> length names"
  shows "\<exists>r st'. match_name_term m names st = (r, st') \<and> idx st \<le> idx st' \<and> idx st' \<le> length names \<and> (r \<longrightarrow> pos st \<le> pos st')"
proof -
  obtain tok name p ok where t: "cm_peek_token m (pos st) = (tok, name, p, ok)" by (metis prod_cases4)
  have ws: "q \<le> cm_skip_ws m q" for q by (simp add: cm_skip_ws_def scan_while_bounds(1))
  have rd: "cm_read_name m q n = (Some nm, p') \<Longrightarrow> q \<le> p'" for q n nm p'
    using ws[of q] scan_while_bounds(1)[of "cm_skip_ws m q + 1" cm_name_byte m "length m"]
    by (auto simp: cm_read_name_def Let_def split: option.splits if_splits)
  have p: "pos st \<le> p" if ok: "ok" and tok: "tok = CMT_NAME"
  proof -
    obtain nm where "cm_read_name m (cm_skip_ws m (pos st)) 64 = (Some nm, p)"
      using t[unfolded tok] ok by (auto simp: cm_peek_token_def Let_def split: option.splits if_splits prod.splits)
    from rd[OF this] ws[of "pos st"] show ?thesis by linarith
  qed
  have nm: "\<exists>r st''. match_name names name occ s = (r, st'') \<and> idx s \<le> idx st'' \<and> idx st'' \<le> length names \<and> pos st'' = pos s"
    if "idx s \<le> length names" for occ s
  proof -
    let ?l = "if occ = 1 \<or> occ = 0x3F then min (idx s + 1) (length names) else length names"
    have l: "idx s \<le> ?l" "?l \<le> length names" using that by auto
    have "idx s \<le> scan_while (\<lambda>n. n = name) names (idx s) ?l" "scan_while (\<lambda>n. n = name) names (idx s) ?l \<le> length names"
      using scan_while_bounds[where k = "idx s" and e = ?l] l order_trans by blast+
    then show ?thesis by (auto simp: match_name_def Let_def say_def)
  qed
  let ?p = "cm_skip_ws m (scan_while (\<lambda>c. \<not> cm_delimiter c) m p (length m))"
  have q: "p \<le> ?p" using ws order_trans[OF scan_while_bounds(1)] by blast
  obtain occ s where o: "cm_occurrence m (st\<lparr>pos := ?p\<rparr>) = (occ, s)" by fastforce
  have s: "idx s = idx st" "?p \<le> pos s" using o by (auto simp: cm_occurrence_def split: option.splits if_splits)
  show ?thesis
  proof (cases "ok \<and> tok = CMT_NAME")
    case True
    then show ?thesis using t o nm[of s occ] s q p assms
      by (fastforce simp: match_name_term_def skip_ws_def Let_def)
  qed (use t assms in \<open>auto simp: match_name_term_def say_def\<close>)
qed

text \<open>The fuel each call needs: \<open>w\<close> for every byte of the model that is left.\<close>

fun budget :: "nat \<Rightarrow> bytes \<Rightarrow> bytes list \<Rightarrow> cm_call \<Rightarrow> cm_state \<Rightarrow> nat" where
  "budget w m names Expr st = (length m - pos st) * w + 5"
| "budget w m names (Alternatives start) st = (length m - pos st) * w + 4"
| "budget w m names Sequence st = (length m - pos st) * w + 3"
| "budget w m names More_terms st = (length m - pos st) * w + 2"
| "budget w m names Term st = (length m - pos st) * w + 1"
| "budget w m names (Try_group g) st = (length m - (g + 1)) * w + 6"
| "budget w m names (More_groups g) st = (length m - (g + 1)) * w + 7 + (length names - idx st)"

fun call_pre :: "bytes \<Rightarrow> cm_call \<Rightarrow> cm_state \<Rightarrow> bool" where
  "call_pre m (Alternatives start) st = (idx start = idx st \<and> pos start \<le> pos st)"
| "call_pre m (Try_group g) st = (g < length m)"
| "call_pre m (More_groups g) st = (g < length m \<and> g < pos st)"
| "call_pre m _ st = True"

fun call_post :: "cm_call \<Rightarrow> cm_state \<Rightarrow> bool \<Rightarrow> cm_state \<Rightarrow> bool" where
  "call_post (Try_group g) st r st' = (if r then g < pos st' else pos st' = pos st \<and> idx st' = idx st)"
| "call_post (More_groups g) st r st' = (r \<and> g < pos st')"
| "call_post _ st r st' = (r \<longrightarrow> pos st \<le> pos st')"

definition returns :: "bytes \<Rightarrow> bytes list \<Rightarrow> cm_caller \<Rightarrow> cm_call \<Rightarrow> cm_state \<Rightarrow> bool" where
  "returns m names call c st \<longleftrightarrow> (\<exists>r st'. call c st = Some (r, st') \<and> idx st \<le> idx st'
    \<and> idx st' \<le> length names \<and> call_post c st r st')"

lemma budget_step: "p < q \<Longrightarrow> q \<le> l \<Longrightarrow> (l - q) * w + w \<le> (l - p) * (w :: nat)"
proof -
  assume "p < q" "q \<le> l"
  then have "(l - q) + 1 \<le> l - p" by simp
  then have "((l - q) + 1) * w \<le> (l - p) * w" by (rule mult_le_mono1)
  then show ?thesis by simp
qed

lemma budget_mono: "p \<le> q \<Longrightarrow> (l - q) * w \<le> (l - p) * (w :: nat)"
  by (intro mult_le_mono1) simp


text \<open>One call returns if the calls it makes do.\<close>

definition callees :: "nat \<Rightarrow> bytes \<Rightarrow> bytes list \<Rightarrow> cm_caller \<Rightarrow> bool" where
  "callees k m names call \<longleftrightarrow> (\<forall>c st. idx st \<le> length names \<longrightarrow> call_pre m c st \<longrightarrow>
    budget (length names + 8) m names c st \<le> k \<longrightarrow> returns m names call c st)"

lemma calleesE:
  assumes "callees k m names call" "idx st \<le> length names" "call_pre m c st"
    "budget (length names + 8) m names c st \<le> k"
  obtains r st' where "call c st = Some (r, st')" "idx st \<le> idx st'" "idx st' \<le> length names" "call_post c st r st'"
  using assms unfolding callees_def returns_def by blast

lemma ws_le: "p \<le> cm_skip_ws m p"
  by (simp add: cm_skip_ws_def scan_while_bounds(1))

lemma returnsI:
  "call c st = Some (r, st') \<Longrightarrow> idx st \<le> idx st' \<Longrightarrow> idx st' \<le> length names \<Longrightarrow> call_post c st r st' \<Longrightarrow>
    returns m names call c st"
  unfolding returns_def by blast

lemma returns_iff: "returns m names call c st \<longleftrightarrow> (case call c st of None \<Rightarrow> False
    | Some (r, st') \<Rightarrow> idx st \<le> idx st' \<and> idx st' \<le> length names \<and> call_post c st r st')"
  unfolding returns_def by (auto split: option.splits)

lemma skip_alternatives_le: "p \<le> skip_alternatives m p"
proof (induction m p rule: skip_alternatives.induct)
  case (1 m p)
  let ?q = "cm_skip_ws m p"
  show ?case
  proof (cases "?q \<ge> length m \<or> m ! ?q \<noteq> 0x7C")
    case True
    then show ?thesis using ws_le[of p m] by (auto simp: skip_alternatives.simps[of m p] Let_def)
  next
    case False
    have "p \<le> cm_skip_alternative m (?q + 1)"
      using ws_le[of p m] skip_alternative_le[of "?q + 1" m 0] by (simp add: cm_skip_alternative_def)
    also have "\<dots> \<le> skip_alternatives m (cm_skip_alternative m (?q + 1))" using 1[OF refl False] .
    also have "\<dots> = skip_alternatives m p" using False by (simp add: skip_alternatives.simps[of m p] Let_def)
    finally show ?thesis .
  qed
qed

lemma run_expr:
  assumes c: "callees k m names (cm_run k m names)" and i: "idx st \<le> length names"
    and b: "budget (length names + 8) m names Expr st \<le> Suc k"
  shows "returns m names (cm_run (Suc k) m names) Expr st"
proof -
  have "budget (length names + 8) m names (Alternatives st) st \<le> k" using b by simp
  then obtain r st' where "cm_run k m names (Alternatives st) st = Some (r, st')" "idx st \<le> idx st'"
    "idx st' \<le> length names" "call_post (Alternatives st) st r st'"
    by (rule calleesE[OF c i, rotated]) simp_all
  then show ?thesis by (intro returnsI) (simp_all add: cm_match_expr_def)
qed

lemma run_alternatives:
  assumes c: "callees k m names (cm_run k m names)" and i: "idx st \<le> length names" "idx start = idx st" "pos start \<le> pos st"
    and b: "budget (length names + 8) m names (Alternatives start) st \<le> Suc k"
  shows "returns m names (cm_run (Suc k) m names) (Alternatives start) st"
proof -
  let ?w = "length names + 8"
  have "budget ?w m names Sequence st \<le> k" using b by simp
  then obtain r st' where s: "cm_run k m names Sequence st = Some (r, st')" "idx st \<le> idx st'"
    "idx st' \<le> length names" "call_post Sequence st r st'"
    by (rule calleesE[OF c i(1), rotated]) simp_all
  show ?thesis
  proof (cases r)
    case True
    have "pos st \<le> skip_alternatives m (pos st')"
      using s(4) True order_trans[OF _ skip_alternatives_le] by simp
    then show ?thesis using s True unfolding returns_iff by (simp add: alternatives_def)
  next
    case False
    let ?probe = "cm_skip_ws m (cm_skip_alternative m (pos st))"
    show ?thesis
    proof (cases "?probe \<ge> length m \<or> m ! ?probe \<noteq> 0x7C")
      case True
      then show ?thesis using s False i unfolding returns_iff by (auto simp: alternatives_def Let_def)
    next
      case more: False
      let ?st = "st'\<lparr>pos := ?probe + 1, idx := idx st\<rparr>"
      have p: "pos st < ?probe + 1"
        using order_trans[OF skip_alternative_le[of "pos st" m 0] ws_le[of _ m]]
        by (simp add: cm_skip_alternative_def less_Suc_eq_le)
      have "(length m - (?probe + 1)) * ?w + ?w \<le> (length m - pos st) * ?w"
        by (rule budget_step[OF p]) (use more in simp)
      then have "budget ?w m names (Alternatives start) ?st \<le> k" using b by simp
      then obtain r2 st2 where a: "cm_run k m names (Alternatives start) ?st = Some (r2, st2)" "idx ?st \<le> idx st2"
        "idx st2 \<le> length names" "call_post (Alternatives start) ?st r2 st2"
        by (rule calleesE[OF c, rotated 2]) (use i p in simp_all)
      then show ?thesis using s False more p by (intro returnsI) (auto simp: alternatives_def Let_def)
    qed
  qed
qed

lemma run_sequence:
  assumes c: "callees k m names (cm_run k m names)" and i: "idx st \<le> length names"
    and b: "budget (length names + 8) m names Sequence st \<le> Suc k"
  shows "returns m names (cm_run (Suc k) m names) Sequence st"
proof -
  let ?w = "length names + 8"
  have "budget ?w m names Term st \<le> k" using b by simp
  then obtain r st' where s: "cm_run k m names Term st = Some (r, st')" "idx st \<le> idx st'"
    "idx st' \<le> length names" "call_post Term st r st'"
    by (rule calleesE[OF c i, rotated]) simp_all
  show ?thesis
  proof (cases r)
    case True
    have "budget ?w m names More_terms st' \<le> k"
    proof -
      have "(length m - pos st') * ?w \<le> (length m - pos st) * ?w"
        by (rule budget_mono) (use s(4) True in simp)
      then show ?thesis using b unfolding budget.simps by linarith
    qed
    then obtain r2 st2 where a: "cm_run k m names More_terms st' = Some (r2, st2)" "idx st' \<le> idx st2"
      "idx st2 \<le> length names" "call_post More_terms st' r2 st2"
      by (rule calleesE[OF c s(3), rotated]) simp_all
    then show ?thesis using s True by (intro returnsI) (auto simp: cm_match_sequence_def)
  next
    case False
    then show ?thesis using s by (intro returnsI) (auto simp: cm_match_sequence_def)
  qed
qed

lemma run_more_terms:
  assumes c: "callees k m names (cm_run k m names)" and i: "idx st \<le> length names"
    and b: "budget (length names + 8) m names More_terms st \<le> Suc k"
  shows "returns m names (cm_run (Suc k) m names) More_terms st"
proof -
  let ?w = "length names + 8" let ?p = "cm_skip_ws m (pos st)"
  show ?thesis
  proof (cases "?p \<ge> length m \<or> m ! ?p \<noteq> 0x2C")
    case True
    then have "cm_run (Suc k) m names More_terms st = Some (True, skip_ws m st)"
      by (auto simp: more_terms_def Let_def skip_ws_def)
    then show ?thesis by (rule returnsI) (use i ws_le[of "pos st" m] in \<open>auto simp: skip_ws_def\<close>)
  next
    case False
    let ?st = "st\<lparr>pos := ?p + 1\<rparr>"
    have p: "pos st < ?p + 1" using ws_le[of "pos st" m] by simp
    have step: "(length m - (?p + 1)) * ?w + ?w \<le> (length m - pos st) * ?w"
      by (rule budget_step[OF p]) (use False in simp)
    then have "budget ?w m names Term ?st \<le> k" using b by simp
    then obtain r st' where s: "cm_run k m names Term ?st = Some (r, st')" "idx ?st \<le> idx st'"
      "idx st' \<le> length names" "call_post Term ?st r st'"
      by (rule calleesE[OF c, rotated 2]) (use i in simp_all)
    show ?thesis
    proof (cases r)
      case True
      have "budget ?w m names More_terms st' \<le> k"
      proof -
        have "(length m - pos st') * ?w \<le> (length m - (?p + 1)) * ?w"
          by (rule budget_mono) (use s(4) True in simp)
        then show ?thesis using b step unfolding budget.simps by linarith
      qed
      then obtain r2 st2 where a: "cm_run k m names More_terms st' = Some (r2, st2)" "idx st' \<le> idx st2"
        "idx st2 \<le> length names" "call_post More_terms st' r2 st2"
        by (rule calleesE[OF c s(3), rotated]) simp_all
      then show ?thesis using s True False p by (intro returnsI) (auto simp: more_terms_def Let_def skip_ws_def)
    next
      case nr: False
      then show ?thesis using s False by (intro returnsI) (auto simp: more_terms_def Let_def skip_ws_def)
    qed
  qed
qed

lemma occurrence_facts: "cm_occurrence m st = (occ, st') \<Longrightarrow> idx st' = idx st \<and> pos st \<le> pos st'"
  by (auto simp: cm_occurrence_def split: option.splits if_splits)

lemma run_term:
  assumes c: "callees k m names (cm_run k m names)" and i: "idx st \<le> length names"
    and b: "budget (length names + 8) m names Term st \<le> Suc k"
  shows "returns m names (cm_run (Suc k) m names) Term st"
proof -
  let ?w = "length names + 8" let ?g = "cm_skip_ws m (pos st)" let ?st = "st\<lparr>pos := ?g\<rparr>"
  have g: "pos st \<le> ?g" by (rule ws_le)
  show ?thesis
  proof (cases "cm_peek m ?g")
    case None
    then have "cm_run (Suc k) m names Term st = Some (False, skip_ws m st)"
      by (auto simp: cm_match_term_def Let_def skip_ws_def)
    then show ?thesis by (rule returnsI) (use i in \<open>auto simp: skip_ws_def\<close>)
  next
    case (Some ch)
    then have gl: "?g < length m" by (simp add: cm_peek_def split: if_splits)
    show ?thesis
    proof (cases "ch = 0x28")
      case paren: True
      have step: "(length m - (?g + 1)) * ?w + ?w \<le> (length m - pos st) * ?w"
        by (rule budget_step) (use g gl in simp_all)
      then have "budget ?w m names (Try_group ?g) ?st \<le> k" using b by simp
      then obtain r st' where s: "cm_run k m names (Try_group ?g) ?st = Some (r, st')" "idx ?st \<le> idx st'"
        "idx st' \<le> length names" "call_post (Try_group ?g) ?st r st'"
        by (rule calleesE[OF c, rotated 2]) (use i gl in simp_all)
      show ?thesis
      proof (cases r)
        case False
        then show ?thesis using s Some paren unfolding returns_iff by (simp add: cm_match_term_def Let_def skip_ws_def)
      next
        case True
        let ?s = "skip_ws m st'"
        obtain occ so where o: "cm_occurrence m ?s = (occ, so)" by fastforce
        have so: "idx so = idx st'" "pos st' \<le> pos so"
          using occurrence_facts[OF o] ws_le[of "pos st'" m] by (auto simp: skip_ws_def)
        have gp: "?g < pos st'" using s(4) True by simp
        show ?thesis
        proof (cases "occ = 1 \<or> occ = 0x3F")
          case once: True
          have "cm_run (Suc k) m names Term st = Some (True, so)"
            using Some paren s(1) True o once by (auto simp: cm_match_term_def Let_def skip_ws_def)
          then show ?thesis by (rule returnsI) (use s so g gp in simp_all)
        next
          case many: False
          have "budget ?w m names (More_groups ?g) so \<le> k" using step b i by simp
          then obtain r2 st2 where a: "cm_run k m names (More_groups ?g) so = Some (r2, st2)" "idx so \<le> idx st2"
            "idx st2 \<le> length names" "call_post (More_groups ?g) so r2 st2"
            by (rule calleesE[OF c, rotated 2]) (use so s gl gp in simp_all)
          have "cm_run (Suc k) m names Term st = Some (r2, st2)"
            using Some paren s(1) True o many a(1) by (auto simp: cm_match_term_def Let_def skip_ws_def)
          then show ?thesis by (rule returnsI) (use a s so g in simp_all)
        qed
      qed
    next
      case other: False
      show ?thesis
      proof (cases "ch = 0x23")
        case True
        then show ?thesis using i Some unfolding returns_iff by (auto simp: cm_match_term_def Let_def skip_ws_def say_def)
      next
        case False
        obtain r st' where "match_name_term m names ?st = (r, st')" "idx ?st \<le> idx st'" "idx st' \<le> length names"
          "r \<longrightarrow> pos ?st \<le> pos st'"
          using name_term_facts[of ?st names m] i by auto
        then show ?thesis using Some other False g
          by (intro returnsI) (auto simp: cm_match_term_def Let_def skip_ws_def)
      qed
    qed
  qed
qed

lemma run_more_groups:
  assumes c: "callees k m names (cm_run k m names)" and i: "idx st \<le> length names" "g < length m" "g < pos st"
    and b: "budget (length names + 8) m names (More_groups g) st \<le> Suc k"
  shows "returns m names (cm_run (Suc k) m names) (More_groups g) st"
proof -
  let ?w = "length names + 8"
  have "budget ?w m names (Try_group g) st \<le> k" using b by simp
  then obtain r st' where s: "cm_run k m names (Try_group g) st = Some (r, st')" "idx st \<le> idx st'"
    "idx st' \<le> length names" "call_post (Try_group g) st r st'"
    by (rule calleesE[OF c i(1), rotated]) (use i in simp_all)
  show ?thesis
  proof (cases "r \<and> idx st' \<noteq> idx st")
    case True
    then have "length names - idx st' < length names - idx st" using s by linarith
    then have "budget ?w m names (More_groups g) st' \<le> k" using b by simp
    then obtain r2 st2 where a: "cm_run k m names (More_groups g) st' = Some (r2, st2)" "idx st' \<le> idx st2"
      "idx st2 \<le> length names" "call_post (More_groups g) st' r2 st2"
      by (rule calleesE[OF c s(3), rotated]) (use i s True in simp_all)
    then show ?thesis using s True by (intro returnsI) (auto simp: more_groups_def)
  next
    case False
    then show ?thesis using s i by (cases r) (auto intro!: returnsI simp: more_groups_def)
  qed
qed

lemma run_try_group:
  assumes c: "callees k m names (cm_run k m names)" and i: "idx st \<le> length names" "g < length m"
    and b: "budget (length names + 8) m names (Try_group g) st \<le> Suc k"
  shows "returns m names (cm_run (Suc k) m names) (Try_group g) st"
proof -
  let ?w = "length names + 8" let ?st = "st\<lparr>pos := g + 1\<rparr>"
  have "budget ?w m names Expr ?st \<le> k" using b by simp
  then obtain r st' where s: "cm_run k m names Expr ?st = Some (r, st')" "idx ?st \<le> idx st'"
    "idx st' \<le> length names" "call_post Expr ?st r st'"
    by (rule calleesE[OF c, rotated 2]) (use i in simp_all)
  show ?thesis
  proof (cases r)
    case True
    have "g < cm_skip_ws m (pos st')" using s(4) True ws_le[of "pos st'" m] by simp
    then show ?thesis using s i True
      by (cases "cm_skip_ws m (pos st') \<ge> length m \<or> m ! cm_skip_ws m (pos st') \<noteq> 0x29")
        (auto intro!: returnsI simp: cm_try_group_once_def Let_def skip_ws_def say_def)
  next
    case False
    then show ?thesis using s i by (auto intro!: returnsI simp: cm_try_group_once_def)
  qed
qed

lemma all_return: "callees k m names (cm_run k m names)"
proof (induction k)
  case 0
  have "0 < budget (length names + 8) m names c st" for c st by (cases c) simp_all
  then have "\<not> budget (length names + 8) m names c st \<le> 0" for c st by (simp add: not_le)
  then show ?case unfolding callees_def by blast
next
  case (Suc k)
  show ?case
    unfolding callees_def
  proof (intro allI impI)
    fix c st
    assume i: "idx st \<le> length names" and p: "call_pre m c st"
      and b: "budget (length names + 8) m names c st \<le> Suc k"
    show "returns m names (cm_run (Suc k) m names) c st"
    proof (cases c)
      case Expr then show ?thesis using run_expr[OF Suc i] b by simp
    next
      case Alternatives then show ?thesis using run_alternatives[OF Suc i] p b by simp
    next
      case Sequence then show ?thesis using run_sequence[OF Suc i] b by simp
    next
      case More_terms then show ?thesis using run_more_terms[OF Suc i] b by simp
    next
      case Term then show ?thesis using run_term[OF Suc i] b by simp
    next
      case More_groups then show ?thesis using run_more_groups[OF Suc i] p b by simp
    next
      case Try_group then show ?thesis using run_try_group[OF Suc i] p b by simp
    qed
  qed
qed

lemma expr_returns:
  "\<exists>r st'. cm_run (match_fuel m names) m names Expr \<lparr>pos = 0, idx = 0, msg = None\<rparr> = Some (r, st') \<and> idx st' \<le> length names"
proof -
  have "budget (length names + 8) m names Expr \<lparr>pos = 0, idx = 0, msg = None\<rparr> \<le> match_fuel m names"
    by (simp add: match_fuel_def)
  from calleesE[OF all_return _ _ this] show ?thesis by simp blast
qed

lemma match_answers: "leptris_content_model_match model elem_name child_names \<noteq> None"
proof -
  have "(case cm_run (match_fuel m names) m names Expr \<lparr>pos = 0, idx = 0, msg = None\<rparr> of
      None \<Rightarrow> None
    | Some (False, st) \<Rightarrow> Some (False, if msg st = None then Some Does_not_match else msg st)
    | Some (True, st) \<Rightarrow>
        if idx st \<noteq> length names then Some (False, Some (Accepts_count (idx st))) else Some (True, msg st)) \<noteq> None"
    for m names
    using expr_returns[of m names] by (auto split: bool.splits)
  then show ?thesis
    by (auto simp: leptris_content_model_match_def Let_def split: option.splits prod.splits)
qed

text \<open>
  C21. The matcher answers on every model and every list of children, malformed models included: the
  fuel the model gives it, the length of the model times the number of children and a constant, is
  enough, so the trials terminate.
\<close>

theorem content_match_returns: "leptris_content_model_match model elem_name child_names \<noteq> None"
  by (rule match_answers)

end
