(* ===== verification/DtdSound.thy ===== *)
theory DtdSound
  imports DtdMatch
begin

text \<open>
  The content-model matcher against the language of content models: a model is given by its syntax
  tree, printed without blanks; what the matcher accepts is a word of the tree's language.
\<close>

section \<open>Content models\<close>

text \<open>
  A name or a group, with its occurrence character (1 for none); a group is a choice of sequences, so
  that the sequences and choices of the grammar are the groups with one alternative and those of
  one-member alternatives.
\<close>

datatype dtd_cp = Cp_name bytes u8 | Cp_group "dtd_cp list list" u8

definition print_occ :: "u8 \<Rightarrow> bytes" where
  "print_occ q = (if q = 1 then [] else [q])"

fun joined :: "u8 \<Rightarrow> bytes list \<Rightarrow> bytes" where
  "joined sep [] = []"
| "joined sep [x] = x"
| "joined sep (x # y # xs) = x @ sep # joined sep (y # xs)"

fun print_cp :: "dtd_cp \<Rightarrow> bytes" where
  "print_cp (Cp_name n q) = n @ print_occ q"
| "print_cp (Cp_group css q) =
    0x28 # joined 0x7C (map (\<lambda>cs. joined 0x2C (map print_cp cs)) css) @ 0x29 # print_occ q"

abbreviation print_seq :: "dtd_cp list \<Rightarrow> bytes" where
  "print_seq cs \<equiv> joined 0x2C (map print_cp cs)"

abbreviation print_alts :: "dtd_cp list list \<Rightarrow> bytes" where
  "print_alts css \<equiv> joined 0x7C (map print_seq css)"

definition occ_lang :: "u8 \<Rightarrow> bytes list set \<Rightarrow> bytes list set" where
  "occ_lang q L = (if q = 0x3F then {[]} \<union> L else if q = 0x2A then lang_star L
    else if q = 0x2B then conc L (lang_star L) else L)"

fun cp_lang :: "dtd_cp \<Rightarrow> bytes list set" where
  "cp_lang (Cp_name n q) = occ_lang q {[n]}"
| "cp_lang (Cp_group css q) = occ_lang q (\<Union>(set (map (\<lambda>cs. foldr conc (map cp_lang cs) {[]}) css)))"

abbreviation seq_lang :: "dtd_cp list \<Rightarrow> bytes list set" where
  "seq_lang cs \<equiv> foldr conc (map cp_lang cs) {[]}"

abbreviation alts_lang :: "dtd_cp list list \<Rightarrow> bytes list set" where
  "alts_lang css \<equiv> \<Union>(set (map seq_lang css))"

definition name_ok :: "bytes \<Rightarrow> bool" where
  "name_ok n \<longleftrightarrow> n \<noteq> [] \<and> length n \<le> 63 \<and> (c_alpha (hd n) \<or> hd n = 0x5F \<or> hd n = 0x3A) \<and> list_all cm_name_byte n"

definition occ_ok :: "u8 \<Rightarrow> bool" where
  "occ_ok q \<longleftrightarrow> q = 1 \<or> q = 0x3F \<or> q = 0x2A \<or> q = 0x2B"

fun cp_ok :: "dtd_cp \<Rightarrow> bool" where
  "cp_ok (Cp_name n q) \<longleftrightarrow> name_ok n \<and> occ_ok q"
| "cp_ok (Cp_group css q) \<longleftrightarrow> occ_ok q \<and> css \<noteq> [] \<and> list_all (\<lambda>cs. cs \<noteq> [] \<and> list_all cp_ok cs) css"

abbreviation alts_ok :: "dtd_cp list list \<Rightarrow> bool" where
  "alts_ok css \<equiv> css \<noteq> [] \<and> list_all (\<lambda>cs. cs \<noteq> [] \<and> list_all cp_ok cs) css"

section \<open>Positions\<close>

lemma scan_while_drop: "scan_while P m p (length m) = p + length (takeWhile P (drop p m))"
proof (induction P m p "length m" rule: scan_while.induct)
  case (1 P m p)
  show ?case
  proof (cases "p < length m")
    case True
    then have d: "drop p m = m ! p # drop (Suc p) m" by (simp add: Cons_nth_drop_Suc)
    show ?thesis
    proof (cases "P (m ! p)")
      case t: True
      then show ?thesis using 1 True d by (simp add: scan_while.simps[of P m p])
    next
      case False
      then show ?thesis using d by (simp add: scan_while.simps[of P m p])
    qed
  next
    case False
    then show ?thesis by (simp add: scan_while.simps[of P m p])
  qed
qed

lemma at_cons:
  assumes "drop p m = c # s"
  shows "p < length m" "m ! p = c" "drop (Suc p) m = s"
proof -
  show p: "p < length m" using assms by (cases "p < length m") simp_all
  then have "drop p m = m ! p # drop (Suc p) m" by (simp add: Cons_nth_drop_Suc)
  then show "m ! p = c" "drop (Suc p) m = s" using assms by simp_all
qed

lemma at_append: "drop p m = u @ s \<Longrightarrow> drop (p + length u) m = s"
  by (metis add.commute append_eq_conv_conj drop_drop)

lemma ws_none: "drop p m = c # s \<Longrightarrow> \<not> c_space c \<Longrightarrow> cm_skip_ws m p = p"
  by (simp add: cm_skip_ws_def scan_while_drop)

lemma ws_end: "drop p m = [] \<Longrightarrow> cm_skip_ws m p = p"
  by (simp add: cm_skip_ws_def scan_while_drop)

lemma peek_at: "drop p m = c # s \<Longrightarrow> cm_peek m p = Some c"
  using at_cons[of p m c s] by (simp add: cm_peek_def)

lemma peek_end: "drop p m = [] \<Longrightarrow> cm_peek m p = None"
  by (simp add: cm_peek_def)

section \<open>Skipping alternatives\<close>

text \<open>Text that the lexical skip passes at its depth; and text it passes inside parentheses.\<close>

definition neutral :: "bytes \<Rightarrow> bool" where
  "neutral w \<longleftrightarrow> (\<forall>m d p s. drop p m = w @ s \<longrightarrow> skip_alternative m d p = skip_alternative m d (p + length w))"

definition inside :: "bytes \<Rightarrow> bool" where
  "inside w \<longleftrightarrow> (\<forall>m d p s. drop p m = w @ s \<longrightarrow> skip_alternative m (Suc d) p = skip_alternative m (Suc d) (p + length w))"

lemma neutral_inside: "neutral w \<Longrightarrow> inside w"
  by (simp add: neutral_def inside_def)

lemma neutral_append:
  assumes "neutral u" "neutral v"
  shows "neutral (u @ v)"
  unfolding neutral_def
proof (intro allI impI)
  fix m d p s assume "drop p m = (u @ v) @ s"
  then have u: "drop p m = u @ (v @ s)" by simp
  have "skip_alternative m d p = skip_alternative m d (p + length u)"
    using assms(1) u unfolding neutral_def by blast
  also have "\<dots> = skip_alternative m d (p + length u + length v)"
    using assms(2) at_append[OF u] unfolding neutral_def by blast
  finally show "skip_alternative m d p = skip_alternative m d (p + length (u @ v))" by (simp add: add.assoc)
qed

lemma inside_append:
  assumes "inside u" "inside v"
  shows "inside (u @ v)"
  unfolding inside_def
proof (intro allI impI)
  fix m d p s assume "drop p m = (u @ v) @ s"
  then have u: "drop p m = u @ (v @ s)" by simp
  have "skip_alternative m (Suc d) p = skip_alternative m (Suc d) (p + length u)"
    using assms(1) u unfolding inside_def by blast
  also have "\<dots> = skip_alternative m (Suc d) (p + length u + length v)"
    using assms(2) at_append[OF u] unfolding inside_def by blast
  finally show "skip_alternative m (Suc d) p = skip_alternative m (Suc d) (p + length (u @ v))" by (simp add: add.assoc)
qed

lemma neutral_nil: "neutral []"
  by (simp add: neutral_def)

lemma neutral_byte: "b \<noteq> 0x28 \<Longrightarrow> b \<noteq> 0x29 \<Longrightarrow> b \<noteq> 0x7C \<Longrightarrow> neutral [b]"
  unfolding neutral_def
proof (intro allI impI)
  fix m d p s assume b: "b \<noteq> 0x28" "b \<noteq> 0x29" "b \<noteq> 0x7C" and "drop p m = [b] @ s"
  then have "p < length m" "m ! p = b" using at_cons[of p m b s] by simp_all
  then show "skip_alternative m d p = skip_alternative m d (p + length [b])"
    using b by (simp add: skip_alternative.simps[of m d p])
qed

lemma inside_pipe: "inside [0x7C]"
  unfolding inside_def
proof (intro allI impI)
  fix m d p s assume "drop p m = [0x7C :: u8] @ s"
  then have "p < length m" "m ! p = 0x7C" using at_cons[of p m "0x7C" s] by simp_all
  then show "skip_alternative m (Suc d) p = skip_alternative m (Suc d) (p + length [0x7C :: u8])"
    by (simp add: skip_alternative.simps[of m "Suc d" p])
qed

lemma neutral_group: "inside w \<Longrightarrow> neutral (0x28 # w @ [0x29])"
  unfolding neutral_def
proof (intro allI impI)
  fix m d p s assume w: "inside w" and "drop p m = (0x28 # w @ [0x29]) @ s"
  then have d: "drop p m = 0x28 # w @ 0x29 # s" by simp
  note o = at_cons[OF d]
  define q where "q = Suc p + length w"
  have c: "drop q m = 0x29 # s" unfolding q_def by (rule at_append[OF o(3)])
  note cl = at_cons[OF c]
  have "skip_alternative m d p = skip_alternative m (Suc d) (Suc p)"
    using o(1,2) by (simp add: skip_alternative.simps[of m d p])
  also have "\<dots> = skip_alternative m (Suc d) q" using w o(3) by (simp add: inside_def q_def)
  also have "\<dots> = skip_alternative m d (Suc q)"
    using cl(1,2) by (simp add: skip_alternative.simps[of m "Suc d" q])
  finally show "skip_alternative m d p = skip_alternative m d (p + length (0x28 # w @ [0x29]))" by (simp add: q_def)
qed

lemma neutral_joined: "neutral [sep] \<Longrightarrow> \<forall>x \<in> set xs. neutral x \<Longrightarrow> neutral (joined sep xs)"
proof (induction sep xs rule: joined.induct)
  case (3 sep x y xs)
  have "neutral (x @ [sep] @ joined sep (y # xs))" using 3 by (intro neutral_append) simp_all
  then show ?case by simp
qed (simp_all add: neutral_nil)

lemma inside_joined: "inside [sep] \<Longrightarrow> \<forall>x \<in> set xs. inside x \<Longrightarrow> inside (joined sep xs)"
proof (induction sep xs rule: joined.induct)
  case (3 sep x y xs)
  have "inside (x @ [sep] @ joined sep (y # xs))" using 3 by (intro inside_append) simp_all
  then show ?case by simp
qed (simp_all add: neutral_inside neutral_nil)

lemma name_byte_plain: "cm_name_byte b \<Longrightarrow> b \<notin> {0x28, 0x29, 0x7C, 0x2C, 0x3F, 0x2A, 0x2B, 0x23} \<and> \<not> c_space b \<and> \<not> cm_delimiter b"
  unfolding cm_name_byte_def c_alnum_def c_alpha_def c_space_def cm_delimiter_def
  by (auto simp: word_le_nat_alt)

lemma neutral_bytes: "\<forall>b \<in> set w. neutral [b] \<Longrightarrow> neutral w"
proof (induction w)
  case (Cons b w)
  then show ?case using neutral_append[of "[b]" w] by simp
qed (simp add: neutral_nil)

lemma neutral_occ: "occ_ok q \<Longrightarrow> neutral (print_occ q)"
  by (auto simp: occ_ok_def print_occ_def neutral_nil intro!: neutral_byte)

lemma neutral_cp: "cp_ok cp \<Longrightarrow> neutral (print_cp cp)"
proof (induction cp)
  case (Cp_name n q)
  have "neutral n"
    using Cp_name name_byte_plain by (intro neutral_bytes) (auto simp: name_ok_def list_all_iff intro!: neutral_byte)
  then show ?case using Cp_name neutral_occ neutral_append by simp
next
  case (Cp_group css q)
  have comma: "neutral [0x2C]" by (rule neutral_byte) simp_all
  have "neutral (print_seq cs)" if "cs \<in> set css" for cs
    using Cp_group that by (intro neutral_joined[OF comma]) (auto simp: list_all_iff)
  then have "inside (print_alts css)" by (intro inside_joined[OF inside_pipe]) (auto intro: neutral_inside)
  from neutral_append[OF neutral_group[OF this] neutral_occ] Cp_group.prems show ?case by simp
qed

lemma neutral_seq: "list_all cp_ok cs \<Longrightarrow> neutral (print_seq cs)"
  by (rule neutral_joined) (auto simp: list_all_iff intro: neutral_cp neutral_byte)

lemma skip_seq:
  assumes "list_all cp_ok cs" "drop p m = print_seq cs @ c # s" "c = 0x29 \<or> c = 0x7C"
  shows "drop (cm_skip_alternative m p) m = c # s" "cm_skip_ws m (cm_skip_alternative m p) = cm_skip_alternative m p"
proof -
  let ?q = "p + length (print_seq cs)"
  have q: "drop ?q m = c # s" by (rule at_append[OF assms(2)])
  have "skip_alternative m 0 p = skip_alternative m 0 ?q"
    using neutral_seq[OF assms(1)] assms(2) by (auto simp: neutral_def)
  also have "\<dots> = ?q" using at_cons[OF q] assms(3) by (auto simp: skip_alternative.simps[of m 0 ?q])
  finally have e: "cm_skip_alternative m p = ?q" by (simp add: cm_skip_alternative_def)
  then show "drop (cm_skip_alternative m p) m = c # s" using q by simp
  show "cm_skip_ws m (cm_skip_alternative m p) = cm_skip_alternative m p"
    unfolding e by (rule ws_none[OF q]) (use assms(3) in \<open>auto simp: c_space_def\<close>)
qed

end
