(* ===== verification/DtdVerdict.thy ===== *)
theory DtdVerdict
  imports DtdSound
begin

text \<open>
  The verdicts of the content-model matcher: every call, when it succeeds, has moved the children
  index over a word of the language of what it matched, so acceptance is sound; models on which the
  matcher rejects children that the language allows; and mixed models, which are decided exactly.
\<close>

section \<open>What a call takes\<close>

definition word :: "bytes list \<Rightarrow> cm_state \<Rightarrow> cm_state \<Rightarrow> bytes list" where
  "word names st st' = take (idx st' - idx st) (drop (idx st) names)"

text \<open>The children index moves forward over a word of the language.\<close>

definition takes_word :: "bytes list \<Rightarrow> bytes list set \<Rightarrow> cm_state \<Rightarrow> cm_state \<Rightarrow> bool" where
  "takes_word names L st st' \<longleftrightarrow> idx st \<le> idx st' \<and> idx st' \<le> length names \<and> word names st st' \<in> L"

lemma takes_append:
  assumes "takes_word names A st st1" "takes_word names B st1 st2"
  shows "takes_word names (conc A B) st st2"
proof -
  have le: "idx st \<le> idx st1" "idx st1 \<le> idx st2" using assms by (simp_all add: takes_word_def)
  have "idx st2 - idx st = (idx st1 - idx st) + (idx st2 - idx st1)" using le by simp
  then have "word names st st2 = word names st st1 @ word names st1 st2"
    using le by (simp only: word_def take_add drop_drop) simp
  then show ?thesis using assms unfolding takes_word_def by (auto intro: concI)
qed

lemma takes_mono: "takes_word names A st st' \<Longrightarrow> A \<subseteq> B \<Longrightarrow> takes_word names B st st'"
  by (auto simp: takes_word_def)

lemma takes_idx: "idx s = idx st \<Longrightarrow> idx s' = idx st' \<Longrightarrow> takes_word names L s s' = takes_word names L st st'"
  by (simp add: takes_word_def word_def)

lemma takes_nil: "idx st' = idx st \<Longrightarrow> idx st \<le> length names \<Longrightarrow> [] \<in> L \<Longrightarrow> takes_word names L st st'"
  by (simp add: takes_word_def word_def)

text \<open>
  A repeated group leaves the position in front of its occurrence character after its second
  instance; what calls it then finds neither a comma nor a parenthesis there.
\<close>

definition stuck :: "bytes \<Rightarrow> bool" where
  "stuck s \<longleftrightarrow> (\<exists>q r. s = q # r \<and> (q = 0x2A \<or> q = 0x2B))"

definition stop :: "bytes \<Rightarrow> bool" where
  "stop s \<longleftrightarrow> s = [] \<or> hd s = 0x2C \<or> hd s = 0x7C \<or> hd s = 0x29"

definition close :: "bytes \<Rightarrow> bool" where
  "close s \<longleftrightarrow> s \<noteq> [] \<and> (hd s = 0x7C \<or> hd s = 0x29)"

lemma stuck_ws: "stuck (drop p m) \<Longrightarrow> cm_skip_ws m p = p"
  using ws_none by (auto simp: stuck_def c_space_def)

lemma stop_ws: "stop (drop p m) \<Longrightarrow> cm_skip_ws m p = p"
  by (cases "drop p m") (auto simp: stop_def c_space_def intro: ws_none ws_end)

lemma close_stop: "close s \<Longrightarrow> stop s"
  by (auto simp: close_def stop_def)

section \<open>Names\<close>

lemma replicate_star: "set w \<subseteq> {n} \<Longrightarrow> w \<in> lang_star {[n]}"
proof (induction w)
  case (Cons x w)
  then show ?case using star_cons[of "[n]" "{[n]}" w] by simp
qed (simp add: star_nil)

lemma match_name_sound:
  assumes "match_name names n q st = (True, st')" "idx st \<le> length names" "occ_ok q"
  shows "takes_word names (occ_lang q {[n]}) st st' \<and> pos st' = pos st"
proof -
  let ?l = "if q = 1 \<or> q = 0x3F then min (idx st + 1) (length names) else length names"
  let ?i = "scan_while (\<lambda>x. x = n) names (idx st) ?l"
  have l: "idx st \<le> ?l" "?l \<le> length names" using assms(2) by auto
  have i: "idx st \<le> ?i" "?i \<le> ?l" by (rule scan_while_bounds(1), rule scan_while_bounds(2)[OF l(1)])
  have st': "st' = st\<lparr>idx := ?i\<rparr>" "q = 0x3F \<or> q = 0x2A \<or> ?i \<noteq> idx st"
    using assms(1) i(1) by (auto simp: match_name_def Let_def split: if_splits)
  let ?w = "word names st st'"
  have eq: "x = n" if x: "x \<in> set ?w" for x
  proof -
    obtain j where "j < ?i - idx st" "x = drop (idx st) names ! j"
      using x st'(1) by (auto simp: word_def in_set_conv_nth)
    then have "x = names ! (idx st + j)" "idx st + j < ?i" using i l by auto
    then show ?thesis using scan_while_spec[of "idx st" "\<lambda>x. x = n" names ?l] by simp
  qed
  have len: "length ?w = ?i - idx st" using i l st'(1) by (simp add: word_def)
  have star: "?w \<in> lang_star {[n]}" using eq by (intro replicate_star) blast
  have "?w \<in> occ_lang q {[n]}"
  proof (cases "q = 0x2A")
    case True
    then show ?thesis using star by (simp add: occ_lang_def)
  next
    case nstar: False
    show ?thesis
    proof (cases "?w")
      case Nil
      then show ?thesis using len st'(2) i(1) nstar by (auto simp: occ_lang_def)
    next
      case (Cons x w)
      then have x: "x = n" "set w \<subseteq> {n}" using eq by auto
      show ?thesis
      proof (cases "q = 0x2B")
        case True
        have "[n] @ w \<in> conc {[n]} (lang_star {[n]})" by (intro concI replicate_star x) simp
        then show ?thesis using True Cons x(1) by (simp add: occ_lang_def)
      next
        case False
        then have "q = 1 \<or> q = 0x3F" using nstar assms(3) by (auto simp: occ_ok_def)
        then have "?i \<le> idx st + 1" using i(2) by (auto split: if_splits)
        moreover have "Suc (length w) = ?i - idx st" using len Cons by simp
        ultimately have "length w = 0" by linarith
        then have "w = []" by simp
        then show ?thesis using False nstar Cons x(1) by (auto simp: occ_lang_def)
      qed
    qed
  qed
  then show ?thesis using i l st'(1) by (simp add: takes_word_def)
qed

lemma occurrence_at:
  assumes "drop (pos st) m = print_occ q @ post" "occ_ok q" "stop post"
  shows "cm_occurrence m st = (q, st\<lparr>pos := pos st + length (print_occ q)\<rparr>)"
proof (cases "q = 1")
  case True
  then have d: "drop (pos st) m = post" using assms(1) by (simp add: print_occ_def)
  show ?thesis
  proof (cases post)
    case Nil
    then show ?thesis using d True peek_end[of "pos st" m] by (simp add: cm_occurrence_def print_occ_def)
  next
    case (Cons c s)
    then have "c = 0x2C \<or> c = 0x7C \<or> c = 0x29" using assms(3) by (simp add: stop_def)
    then show ?thesis using d Cons True peek_at[of "pos st" m c s] by (auto simp: cm_occurrence_def print_occ_def)
  qed
next
  case False
  then have "drop (pos st) m = q # post" using assms(1) by (simp add: print_occ_def)
  from peek_at[OF this] show ?thesis using False assms(2) by (auto simp: cm_occurrence_def print_occ_def occ_ok_def)
qed

lemma occ_post_first:
  assumes "occ_ok q" "stop post"
  shows "print_occ q @ post = [] \<or> (\<exists>c s. print_occ q @ post = c # s \<and> \<not> cm_name_byte c \<and> cm_delimiter c \<and> \<not> c_space c)"
proof (cases "print_occ q @ post")
  case (Cons c s)
  then have "c \<in> {0x2C, 0x7C, 0x29, 0x3F, 0x2A, 0x2B}"
    using assms by (auto simp: print_occ_def occ_ok_def stop_def split: if_splits)
  then show ?thesis using Cons by (auto simp: cm_delimiter_def c_space_def dest: name_byte_plain)
qed simp

lemma name_term_at:
  assumes d: "drop (pos st) m = n @ print_occ q @ post" and ok: "name_ok n" "occ_ok q" and p: "stop post"
  shows "match_name_term m names st = match_name names n q (st\<lparr>pos := pos st + length n + length (print_occ q)\<rparr>)"
    "drop (pos st + length n + length (print_occ q)) m = post"
proof -
  obtain c t where n: "n = c # t" using ok(1) by (cases n) (auto simp: name_ok_def)
  have first: "c_alpha c \<or> c = 0x5F \<or> c = 0x3A" "cm_name_byte c" "list_all cm_name_byte t" "length n \<le> 63"
    using ok(1) n by (auto simp: name_ok_def)
  note plain = name_byte_plain[OF first(2)]
  have dc: "drop (pos st) m = c # (t @ print_occ q @ post)" using d n by simp
  have ws: "cm_skip_ws m (pos st) = pos st" by (rule ws_none[OF dc]) (use plain in simp)
  have pk: "cm_peek m (pos st) = Some c" by (rule peek_at[OF dc])
  define e where "e = pos st + length n"
  have de: "drop e m = print_occ q @ post" unfolding e_def by (rule at_append[OF d])
  have "takeWhile cm_name_byte (t @ print_occ q @ post) = t"
    using occ_post_first[OF ok(2) p] first(3) by (auto simp: list_all_iff)
  then have scan: "scan_while cm_name_byte m (pos st + 1) (length m) = e"
    using at_cons(3)[OF dc] n by (simp add: scan_while_drop e_def)
  have "take e m = take (pos st) m @ n"
    using d by (metis append_eq_conv_conj e_def take_add)
  moreover have "length (take (pos st) m) = pos st" using at_cons(1)[OF dc] by simp
  ultimately have "drop (pos st) (take e m) = n" by simp
  then have rd: "cm_read_name m (pos st) 64 = (Some n, e)"
    using ws pk first plain scan by (simp add: cm_read_name_def Let_def)
  have tok: "cm_peek_token m (pos st) = (CMT_NAME, n, e, True)"
    using ws pk plain rd by (simp add: cm_peek_token_def Let_def)
  have stay: "scan_while (\<lambda>c. \<not> cm_delimiter c) m e (length m) = e"
    using occ_post_first[OF ok(2) p] de by (auto simp: scan_while_drop)
  have ws_e: "cm_skip_ws m e = e" using occ_post_first[OF ok(2) p] de ws_none ws_end by metis
  let ?s = "st\<lparr>pos := e\<rparr>"
  have "cm_occurrence m ?s = (q, ?s\<lparr>pos := e + length (print_occ q)\<rparr>)"
    using occurrence_at[of ?s m q post] de ok(2) p by simp
  then show "match_name_term m names st = match_name names n q (st\<lparr>pos := pos st + length n + length (print_occ q)\<rparr>)"
    using tok stay ws_e by (simp add: match_name_term_def skip_ws_def Let_def e_def)
  show "drop (pos st + length n + length (print_occ q)) m = post"
    using at_append[OF de] by (simp add: e_def)
qed

lemma name_term_sound:
  assumes d: "drop (pos st) m = n @ print_occ q @ post" and ok: "name_ok n" "occ_ok q" and p: "stop post"
    and r: "match_name_term m names st = (True, st')" and i: "idx st \<le> length names"
  shows "takes_word names (occ_lang q {[n]}) st st' \<and> drop (pos st') m = post"
proof -
  note at = name_term_at[OF d ok p]
  let ?s = "st\<lparr>pos := pos st + length n + length (print_occ q)\<rparr>"
  have "match_name names n q ?s = (True, st')" using at(1) r by simp
  from match_name_sound[OF this _ ok(2)] i
  have "takes_word names (occ_lang q {[n]}) ?s st'" "pos st' = pos st + length n + length (print_occ q)" by simp_all
  then show ?thesis using at(2) takes_idx[of ?s st st' st'] by simp
qed

section \<open>The calls\<close>

abbreviation behind :: "bytes \<Rightarrow> bytes list \<Rightarrow> bytes \<Rightarrow> bytes list set \<Rightarrow> cm_state \<Rightarrow> cm_state \<Rightarrow> bool" where
  "behind m names rest L st st' \<equiv> drop (pos st') m = rest \<and> takes_word names L st st'"

definition term_sound :: "bytes \<Rightarrow> bytes list \<Rightarrow> cm_caller \<Rightarrow> bool" where
  "term_sound m names call \<longleftrightarrow> (\<forall>cp post st st'. cp_ok cp \<longrightarrow> stop post \<longrightarrow> idx st \<le> length names \<longrightarrow>
    drop (pos st) m = print_cp cp @ post \<longrightarrow> call Term st = Some (True, st') \<longrightarrow>
    takes_word names (cp_lang cp) st st' \<and> (drop (pos st') m = post \<or> stuck (drop (pos st') m)))"

definition more_terms_sound :: "bytes \<Rightarrow> bytes list \<Rightarrow> cm_caller \<Rightarrow> bool" where
  "more_terms_sound m names call \<longleftrightarrow> (\<forall>cs rest st st'. list_all cp_ok cs \<longrightarrow> close rest \<longrightarrow> idx st \<le> length names \<longrightarrow>
    drop (pos st) m = (if cs = [] then rest else 0x2C # print_seq cs @ rest) \<or> stuck (drop (pos st) m) \<longrightarrow>
    call More_terms st = Some (True, st') \<longrightarrow>
    behind m names rest (seq_lang cs) st st' \<or> stuck (drop (pos st') m))"

definition sequence_sound :: "bytes \<Rightarrow> bytes list \<Rightarrow> cm_caller \<Rightarrow> bool" where
  "sequence_sound m names call \<longleftrightarrow> (\<forall>cs rest st st'. cs \<noteq> [] \<longrightarrow> list_all cp_ok cs \<longrightarrow> close rest \<longrightarrow> idx st \<le> length names \<longrightarrow>
    drop (pos st) m = print_seq cs @ rest \<longrightarrow> call Sequence st = Some (True, st') \<longrightarrow>
    behind m names rest (seq_lang cs) st st' \<or> stuck (drop (pos st') m))"

definition alternatives_sound :: "bytes \<Rightarrow> bytes list \<Rightarrow> cm_caller \<Rightarrow> bool" where
  "alternatives_sound m names call \<longleftrightarrow> (\<forall>css post start st st'. alts_ok css \<longrightarrow> idx st \<le> length names \<longrightarrow>
    drop (pos st) m = print_alts css @ 0x29 # post \<longrightarrow> call (Alternatives start) st = Some (True, st') \<longrightarrow>
    behind m names (0x29 # post) (alts_lang css) st st' \<or> stuck (drop (pos st') m))"

definition expr_sound :: "bytes \<Rightarrow> bytes list \<Rightarrow> cm_caller \<Rightarrow> bool" where
  "expr_sound m names call \<longleftrightarrow> (\<forall>css post st st'. alts_ok css \<longrightarrow> idx st \<le> length names \<longrightarrow>
    drop (pos st) m = print_alts css @ 0x29 # post \<longrightarrow> call Expr st = Some (True, st') \<longrightarrow>
    behind m names (0x29 # post) (alts_lang css) st st' \<or> stuck (drop (pos st') m))"

definition group_sound :: "bytes \<Rightarrow> bytes list \<Rightarrow> cm_caller \<Rightarrow> bool" where
  "group_sound m names call \<longleftrightarrow> (\<forall>css post g st st'. alts_ok css \<longrightarrow> idx st \<le> length names \<longrightarrow>
    drop g m = 0x28 # print_alts css @ 0x29 # post \<longrightarrow> call (Try_group g) st = Some (True, st') \<longrightarrow>
    behind m names post (alts_lang css) st st')"

definition groups_sound :: "bytes \<Rightarrow> bytes list \<Rightarrow> cm_caller \<Rightarrow> bool" where
  "groups_sound m names call \<longleftrightarrow> (\<forall>css post q g st st'. alts_ok css \<longrightarrow> idx st \<le> length names \<longrightarrow> q = 0x2A \<or> q = 0x2B \<longrightarrow>
    drop g m = 0x28 # print_alts css @ 0x29 # q # post \<longrightarrow> drop (pos st) m = post \<or> drop (pos st) m = q # post \<longrightarrow>
    call (More_groups g) st = Some (True, st') \<longrightarrow>
    takes_word names (lang_star (alts_lang css)) st st' \<and> (drop (pos st') m = post \<or> drop (pos st') m = q # post))"

definition all_sound :: "bytes \<Rightarrow> bytes list \<Rightarrow> cm_caller \<Rightarrow> bool" where
  "all_sound m names call \<longleftrightarrow> term_sound m names call \<and> more_terms_sound m names call \<and> sequence_sound m names call
    \<and> alternatives_sound m names call \<and> expr_sound m names call \<and> group_sound m names call \<and> groups_sound m names call"

lemma step_more_terms:
  assumes t: "term_sound m names (cm_run k m names)" and mt: "more_terms_sound m names (cm_run k m names)"
  shows "more_terms_sound m names (cm_run (Suc k) m names)"
  unfolding more_terms_sound_def
proof (intro allI impI)
  fix cs rest st st'
  assume ok: "list_all cp_ok cs" and cl: "close rest" and i: "idx st \<le> length names"
    and d: "drop (pos st) m = (if cs = [] then rest else 0x2C # print_seq cs @ rest) \<or> stuck (drop (pos st) m)"
    and r: "cm_run (Suc k) m names More_terms st = Some (True, st')"
  have ws: "cm_skip_ws m (pos st) = pos st"
    using d stuck_ws[of "pos st" m] stop_ws[of "pos st" m] close_stop[OF cl] by (auto simp: stop_def split: if_splits)
  have same: "skip_ws m st = st" by (simp add: skip_ws_def ws)
  show "behind m names rest (seq_lang cs) st st' \<or> stuck (drop (pos st') m)"
  proof (cases "stuck (drop (pos st) m)")
    case True
    then obtain q s where "drop (pos st) m = q # s" "q = 0x2A \<or> q = 0x2B" by (auto simp: stuck_def)
    then have "m ! pos st \<noteq> 0x2C" using at_cons(2) by fastforce
    then have "st' = st" using r same by (simp add: more_terms_def)
    then show ?thesis using True by simp
  next
    case False
    show ?thesis
    proof (cases cs)
      case Nil
      then obtain c s where "drop (pos st) m = c # s" "c \<noteq> 0x2C"
        using d False cl by (cases rest) (auto simp: close_def)
      then have "m ! pos st \<noteq> 0x2C" using at_cons(2) by fastforce
      then have "st' = st" using r same by (simp add: more_terms_def)
      then show ?thesis using d False Nil i by (simp add: takes_nil)
    next
      case (Cons cp cs')
      then have dc: "drop (pos st) m = 0x2C # print_seq cs @ rest" using d False by simp
      let ?st = "st\<lparr>pos := pos st + 1\<rparr>" and ?post = "if cs' = [] then rest else 0x2C # print_seq cs' @ rest"
      have dt: "drop (pos ?st) m = print_cp cp @ ?post"
        using at_cons(3)[OF dc] Cons by (cases cs') simp_all
      have "\<not> (length m \<le> pos st \<or> m ! pos st \<noteq> 0x2C)" using at_cons(1,2)[OF dc] by simp
      then obtain s1 where s1: "cm_run k m names Term ?st = Some (True, s1)" "cm_run k m names More_terms s1 = Some (True, st')"
        using r same by (auto simp: more_terms_def Let_def split: option.splits bool.splits)
      have "stop ?post" using close_stop[OF cl] by (simp add: stop_def)
      then have a: "takes_word names (cp_lang cp) ?st s1" "drop (pos s1) m = ?post \<or> stuck (drop (pos s1) m)"
        using t[unfolded term_sound_def, rule_format, of cp ?post ?st s1] ok Cons i dt s1(1) by auto
      then have i1: "idx s1 \<le> length names" by (simp add: takes_word_def)
      have "list_all cp_ok cs'" using ok Cons by simp
      from mt[unfolded more_terms_sound_def, rule_format, OF this cl i1 a(2) s1(2)]
      show ?thesis
      proof
        assume b: "behind m names rest (seq_lang cs') s1 st'"
        have "takes_word names (seq_lang cs) ?st st'" using takes_append[OF a(1)] b Cons by simp
        then show ?thesis using b takes_idx[of ?st st st' st'] by simp
      qed simp
    qed
  qed
qed

lemma step_sequence:
  assumes t: "term_sound m names (cm_run k m names)" and mt: "more_terms_sound m names (cm_run k m names)"
  shows "sequence_sound m names (cm_run (Suc k) m names)"
  unfolding sequence_sound_def
proof (intro allI impI)
  fix cs rest st st'
  assume ne: "cs \<noteq> []" and ok: "list_all cp_ok cs" and cl: "close rest" and i: "idx st \<le> length names"
    and d: "drop (pos st) m = print_seq cs @ rest" and r: "cm_run (Suc k) m names Sequence st = Some (True, st')"
  obtain cp cs' where cs: "cs = cp # cs'" using ne by (cases cs) auto
  let ?post = "if cs' = [] then rest else 0x2C # print_seq cs' @ rest"
  have dt: "drop (pos st) m = print_cp cp @ ?post" using d cs by (cases cs') simp_all
  obtain s1 where s1: "cm_run k m names Term st = Some (True, s1)" "cm_run k m names More_terms s1 = Some (True, st')"
    using r by (auto simp: cm_match_sequence_def Let_def split: option.splits bool.splits)
  have "stop ?post" using close_stop[OF cl] by (simp add: stop_def)
  then have a: "takes_word names (cp_lang cp) st s1" "drop (pos s1) m = ?post \<or> stuck (drop (pos s1) m)"
    using t[unfolded term_sound_def, rule_format, of cp ?post st s1] ok cs i dt s1(1) by auto
  then have i1: "idx s1 \<le> length names" by (simp add: takes_word_def)
  have "list_all cp_ok cs'" using ok cs by simp
  from mt[unfolded more_terms_sound_def, rule_format, OF this cl i1 a(2) s1(2)]
  show "behind m names rest (seq_lang cs) st st' \<or> stuck (drop (pos st') m)"
    using takes_append[OF a(1), of "seq_lang cs'" st'] cs by auto
qed

lemma skip_alternatives_at:
  "list_all (\<lambda>cs. cs \<noteq> [] \<and> list_all cp_ok cs) css \<Longrightarrow>
    drop p m = (if css = [] then 0x29 # post else 0x7C # print_alts css @ 0x29 # post) \<Longrightarrow>
    drop (skip_alternatives m p) m = 0x29 # post"
proof (induction css arbitrary: p)
  case Nil
  then have d: "drop p m = 0x29 # post" by simp
  have ws: "cm_skip_ws m p = p" by (rule ws_none[OF d]) (simp add: c_space_def)
  have "m ! p \<noteq> 0x7C" using at_cons(2)[OF d] by simp
  then have "skip_alternatives m p = p" by (simp add: skip_alternatives.simps[of m p] ws)
  then show ?case using d by simp
next
  case (Cons cs css)
  then have d: "drop p m = 0x7C # print_alts (cs # css) @ 0x29 # post" by simp
  have ws: "cm_skip_ws m p = p" by (rule ws_none[OF d]) (simp add: c_space_def)
  let ?tail = "if css = [] then 0x29 # post else 0x7C # print_alts css @ 0x29 # post"
  have seq: "drop (p + 1) m = print_seq cs @ ?tail" using at_cons(3)[OF d] by (cases css) simp_all
  have "drop (cm_skip_alternative m (p + 1)) m = ?tail"
  proof (cases css)
    case Nil
    then show ?thesis using skip_seq(1)[of cs "p + 1" m "0x29" post] seq Cons.prems(1) by simp
  next
    case (Cons x xs)
    then show ?thesis
      using skip_seq(1)[of cs "p + 1" m "0x7C" "print_alts css @ 0x29 # post"] seq \<open>list_all _ (cs # css)\<close> by simp
  qed
  then have ih: "drop (skip_alternatives m (cm_skip_alternative m (p + 1))) m = 0x29 # post"
    using Cons.IH Cons.prems(1) by simp
  have "skip_alternatives m p = skip_alternatives m (cm_skip_alternative m (p + 1))"
    using at_cons(1,2)[OF d] by (simp add: skip_alternatives.simps[of m p] ws)
  then show ?case using ih by simp
qed

lemma skip_alternatives_stuck: "stuck (drop p m) \<Longrightarrow> skip_alternatives m p = p"
proof -
  assume st: "stuck (drop p m)"
  then obtain q s where "drop p m = q # s" "q = 0x2A \<or> q = 0x2B" by (auto simp: stuck_def)
  then have "m ! p \<noteq> 0x7C" using at_cons(2) by fastforce
  then show "skip_alternatives m p = p" by (simp add: skip_alternatives.simps[of m p] stuck_ws[OF st])
qed

lemma step_alternatives:
  assumes sq: "sequence_sound m names (cm_run k m names)" and al: "alternatives_sound m names (cm_run k m names)"
  shows "alternatives_sound m names (cm_run (Suc k) m names)"
  unfolding alternatives_sound_def
proof (intro allI impI)
  fix css post start st st'
  assume ok: "alts_ok css" and i: "idx st \<le> length names" and d: "drop (pos st) m = print_alts css @ 0x29 # post"
    and r: "cm_run (Suc k) m names (Alternatives start) st = Some (True, st')"
  obtain cs css' where css: "css = cs # css'" using ok by (cases css) auto
  then have cs: "cs \<noteq> []" "list_all cp_ok cs" using ok by simp_all
  let ?rest = "if css' = [] then 0x29 # post else 0x7C # print_alts css' @ 0x29 # post"
  have dt: "drop (pos st) m = print_seq cs @ ?rest" using d css by (cases css') simp_all
  have cl: "close ?rest" by (simp add: close_def)
  obtain b s1 where s1: "cm_run k m names Sequence st = Some (b, s1)"
    using r by (auto simp: alternatives_def Let_def split: option.splits)
  show "behind m names (0x29 # post) (alts_lang css) st st' \<or> stuck (drop (pos st') m)"
  proof (cases b)
    case True
    then have st': "st' = s1\<lparr>pos := skip_alternatives m (pos s1)\<rparr>" using r s1 by (simp add: alternatives_def)
    from sq[unfolded sequence_sound_def, rule_format, OF cs cl i dt] s1 True
    have "behind m names ?rest (seq_lang cs) st s1 \<or> stuck (drop (pos s1) m)" by simp
    then show ?thesis
    proof
      assume a: "behind m names ?rest (seq_lang cs) st s1"
      have "drop (pos st') m = 0x29 # post"
        using skip_alternatives_at[of css' "pos s1" m post] ok css a st' by simp
      moreover have "takes_word names (alts_lang css) st s1" by (rule takes_mono[of _ "seq_lang cs"]) (use a css in auto)
      ultimately show ?thesis using takes_idx[of st st st' s1 names] st' by simp
    next
      assume "stuck (drop (pos s1) m)"
      then show ?thesis using st' skip_alternatives_stuck by simp
    qed
  next
    case False
    let ?p = "cm_skip_alternative m (pos st)"
    have p: "drop ?p m = ?rest" "cm_skip_ws m ?p = ?p"
    proof -
      show "drop ?p m = ?rest"
        using skip_seq(1)[OF cs(2), of "pos st" m "hd ?rest" "tl ?rest"] dt by simp
      show "cm_skip_ws m ?p = ?p"
        using skip_seq(2)[OF cs(2), of "pos st" m "hd ?rest" "tl ?rest"] dt by simp
    qed
    show ?thesis
    proof (cases css')
      case Nil
      then have "m ! ?p = 0x29" using at_cons(2)[of ?p m "0x29" post] p(1) by simp
      then show ?thesis using r s1 False p(2) by (simp add: alternatives_def)
    next
      case (Cons x xs)
      then have dp: "drop ?p m = 0x7C # print_alts css' @ 0x29 # post" using p(1) by simp
      let ?s = "s1\<lparr>pos := ?p + 1, idx := idx st\<rparr>"
      have "cm_run k m names (Alternatives start) ?s = Some (True, st')"
        using r s1 False p(2) at_cons(1,2)[OF dp] by (simp add: alternatives_def)
      moreover have "drop (pos ?s) m = print_alts css' @ 0x29 # post" using at_cons(3)[OF dp] by simp
      moreover have "alts_ok css'" using ok css Cons by simp
      ultimately have "behind m names (0x29 # post) (alts_lang css') ?s st' \<or> stuck (drop (pos st') m)"
        using al[unfolded alternatives_sound_def, rule_format, of css' ?s post start st'] i by simp
      then show ?thesis
      proof
        assume a: "behind m names (0x29 # post) (alts_lang css') ?s st'"
        have "takes_word names (alts_lang css) ?s st'" by (rule takes_mono[of _ "alts_lang css'"]) (use a css in auto)
        then show ?thesis using a takes_idx[of ?s st st' st'] by simp
      qed simp
    qed
  qed
qed

lemma step_expr:
  assumes al: "alternatives_sound m names (cm_run k m names)"
  shows "expr_sound m names (cm_run (Suc k) m names)"
  unfolding expr_sound_def
proof (intro allI impI)
  fix css post st st'
  assume ok: "alts_ok css" and i: "idx st \<le> length names" and d: "drop (pos st) m = print_alts css @ 0x29 # post"
    and r: "cm_run (Suc k) m names Expr st = Some (True, st')"
  have "cm_run k m names (Alternatives st) st = Some (True, st')" using r by (simp add: cm_match_expr_def)
  from al[unfolded alternatives_sound_def, rule_format, OF ok i d this]
  show "behind m names (0x29 # post) (alts_lang css) st st' \<or> stuck (drop (pos st') m)" .
qed

lemma step_group:
  assumes ex: "expr_sound m names (cm_run k m names)"
  shows "group_sound m names (cm_run (Suc k) m names)"
  unfolding group_sound_def
proof (intro allI impI)
  fix css post g st st'
  assume ok: "alts_ok css" and i: "idx st \<le> length names" and d: "drop g m = 0x28 # print_alts css @ 0x29 # post"
    and r: "cm_run (Suc k) m names (Try_group g) st = Some (True, st')"
  let ?st = "st\<lparr>pos := g + 1\<rparr>"
  have de: "drop (pos ?st) m = print_alts css @ 0x29 # post" using at_cons(3)[OF d] by simp
  obtain s1 where s1: "cm_run k m names Expr ?st = Some (True, s1)"
    using r by (auto simp: cm_try_group_once_def split: option.splits bool.splits)
  let ?p = "cm_skip_ws m (pos s1)"
  have p: "?p < length m" "m ! ?p = 0x29" "st' = s1\<lparr>pos := ?p + 1\<rparr>"
    using r s1 by (auto simp: cm_try_group_once_def skip_ws_def Let_def split: if_splits)
  have "behind m names (0x29 # post) (alts_lang css) ?st s1 \<or> stuck (drop (pos s1) m)"
    using ex[unfolded expr_sound_def, rule_format, OF ok _ de s1] i by simp
  then show "behind m names post (alts_lang css) st st'"
  proof
    assume a: "behind m names (0x29 # post) (alts_lang css) ?st s1"
    then have d1: "drop (pos s1) m = 0x29 # post" by simp
    have "?p = pos s1" by (rule ws_none[OF d1]) (simp add: c_space_def)
    then show ?thesis using a p(3) at_cons(3)[OF d1] takes_idx[of ?st st s1 st'] by simp
  next
    assume st: "stuck (drop (pos s1) m)"
    then obtain q s where "drop (pos s1) m = q # s" "q = 0x2A \<or> q = 0x2B" by (auto simp: stuck_def)
    then have "m ! pos s1 \<noteq> 0x29" using at_cons(2) by fastforce
    then show ?thesis using p(2) stuck_ws[OF st] by simp
  qed
qed

lemma step_groups:
  assumes gr: "group_sound m names (cm_run k m names)" and gs: "groups_sound m names (cm_run k m names)"
  shows "groups_sound m names (cm_run (Suc k) m names)"
  unfolding groups_sound_def
proof (intro allI impI)
  fix css post q g st st'
  assume ok: "alts_ok css" and i: "idx st \<le> length names" and q: "q = 0x2A \<or> q = 0x2B"
    and d: "drop g m = 0x28 # print_alts css @ 0x29 # q # post"
    and p: "drop (pos st) m = post \<or> drop (pos st) m = q # post"
    and r: "cm_run (Suc k) m names (More_groups g) st = Some (True, st')"
  let ?L = "alts_lang css"
  obtain b s1 where s1: "cm_run k m names (Try_group g) st = Some (b, s1)"
    using r by (auto simp: more_groups_def Let_def split: option.splits)
  show "takes_word names (lang_star ?L) st st' \<and> (drop (pos st') m = post \<or> drop (pos st') m = q # post)"
  proof (cases b)
    case False
    then have "st' = s1\<lparr>pos := pos st, idx := idx st\<rparr>" using r s1 by (simp add: more_groups_def)
    then show ?thesis using p i by (simp add: takes_nil star_nil)
  next
    case True
    then have a: "drop (pos s1) m = q # post" "takes_word names ?L st s1"
      using gr[unfolded group_sound_def, rule_format, OF ok i d, of s1] s1 by simp_all
    show ?thesis
    proof (cases "idx s1 = idx st")
      case same: True
      then have "st' = s1" using r s1 True by (simp add: more_groups_def)
      then show ?thesis using a(1) same i by (simp add: takes_nil star_nil)
    next
      case False
      then have m: "cm_run k m names (More_groups g) s1 = Some (True, st')" using r s1 True by (simp add: more_groups_def)
      have i1: "idx s1 \<le> length names" using a(2) by (simp add: takes_word_def)
      have b: "takes_word names (lang_star ?L) s1 st'" "drop (pos st') m = post \<or> drop (pos st') m = q # post"
        using gs[unfolded groups_sound_def, rule_format, OF ok i1 q d _ m] a(1) by simp_all
      have "takes_word names (lang_star ?L) st st'"
        by (rule takes_mono[OF takes_append[OF a(2) b(1)]]) (auto simp: conc_def intro: star_cons)
      then show ?thesis using b(2) by simp
    qed
  qed
qed

lemma step_term:
  assumes gr: "group_sound m names (cm_run k m names)" and gs: "groups_sound m names (cm_run k m names)"
  shows "term_sound m names (cm_run (Suc k) m names)"
  unfolding term_sound_def
proof (intro allI impI)
  fix cp post st st'
  assume ok: "cp_ok cp" and sp: "stop post" and i: "idx st \<le> length names" and d: "drop (pos st) m = print_cp cp @ post"
    and r: "cm_run (Suc k) m names Term st = Some (True, st')"
  show "takes_word names (cp_lang cp) st st' \<and> (drop (pos st') m = post \<or> stuck (drop (pos st') m))"
  proof (cases cp)
    case (Cp_name n q)
    then have n: "name_ok n" "occ_ok q" and dn: "drop (pos st) m = n @ print_occ q @ post" using ok d by simp_all
    obtain c t where c: "n = c # t" "cm_name_byte c" using n(1) by (cases n) (auto simp: name_ok_def)
    then have dc: "drop (pos st) m = c # (t @ print_occ q @ post)" using dn by simp
    note plain = name_byte_plain[OF c(2)]
    have "skip_ws m st = st" using ws_none[OF dc] plain by (simp add: skip_ws_def)
    then have "match_name_term m names st = (True, st')"
      using r peek_at[OF dc] plain by (simp add: cm_match_term_def split: if_splits)
    from name_term_sound[OF dn n sp this i] show ?thesis using Cp_name by simp
  next
    case (Cp_group css q)
    then have css: "alts_ok css" "occ_ok q" using ok by simp_all
    have dg: "drop (pos st) m = 0x28 # print_alts css @ 0x29 # print_occ q @ post" using d Cp_group by simp
    have ws: "skip_ws m st = st" using ws_none[OF dg] by (simp add: skip_ws_def c_space_def)
    obtain s1 where s1: "cm_run k m names (Try_group (pos st)) st = Some (True, s1)"
      using r ws peek_at[OF dg] by (auto simp: cm_match_term_def Let_def split: option.splits bool.splits)
    have a: "drop (pos s1) m = print_occ q @ post" "takes_word names (alts_lang css) st s1"
      using gr[unfolded group_sound_def, rule_format, OF css(1) i dg s1] by simp_all
    have ws1: "skip_ws m s1 = s1"
      using occ_post_first[OF css(2) sp] a(1) ws_none ws_end by (metis (no_types) skip_ws_def cm_state.surjective cm_state.update_convs(1))
    let ?s = "s1\<lparr>pos := pos s1 + length (print_occ q)\<rparr>"
    have oc: "cm_occurrence m s1 = (q, ?s)" by (rule occurrence_at[OF a(1) css(2) sp])
    have dp: "drop (pos ?s) m = post" using at_append[OF a(1)] by simp
    show ?thesis
    proof (cases "q = 1 \<or> q = 0x3F")
      case True
      then have "st' = ?s" using r ws peek_at[OF dg] s1 ws1 oc by (simp add: cm_match_term_def split: if_splits)
      moreover have "takes_word names (cp_lang cp) st s1"
        by (rule takes_mono[OF a(2)]) (use True Cp_group in \<open>auto simp: occ_lang_def\<close>)
      ultimately show ?thesis using dp takes_idx[of st st st' s1] by simp
    next
      case False
      then have q: "q = 0x2A \<or> q = 0x2B" using css(2) by (auto simp: occ_ok_def)
      then have dq: "drop (pos st) m = 0x28 # print_alts css @ 0x29 # q # post" using dg False by (simp add: print_occ_def)
      have mg: "cm_run k m names (More_groups (pos st)) ?s = Some (True, st')"
        using r ws peek_at[OF dg] s1 ws1 oc False by (simp add: cm_match_term_def)
      have i1: "idx ?s \<le> length names" using a(2) by (simp add: takes_word_def)
      have b: "takes_word names (lang_star (alts_lang css)) ?s st'" "drop (pos st') m = post \<or> drop (pos st') m = q # post"
        using gs[unfolded groups_sound_def, rule_format, OF css(1) i1 q dq _ mg] dp by simp_all
      have "takes_word names (alts_lang css) st ?s" using a(2) takes_idx[of st st ?s s1] by simp
      from takes_append[OF this b(1)] have "takes_word names (cp_lang cp) st st'"
        by (rule takes_mono) (use q Cp_group in \<open>auto simp: occ_lang_def conc_def intro: star_cons\<close>)
      then show ?thesis using b(2) q by (auto simp: stuck_def)
    qed
  qed
qed

lemma all_sound: "all_sound m names (cm_run k m names)"
proof (induction k)
  case 0
  show ?case
    by (simp add: all_sound_def term_sound_def more_terms_sound_def sequence_sound_def alternatives_sound_def
      expr_sound_def group_sound_def groups_sound_def)
next
  case (Suc k)
  then show ?case
    unfolding all_sound_def
    using step_term step_more_terms step_sequence step_alternatives step_expr step_group step_groups by meson
qed

section \<open>What is accepted is in the language\<close>

text \<open>A document's model is a group. What the matcher takes from the top is the group's term.\<close>

lemma top_expr:
  assumes d: "m = print_cp cp" and ok: "cp_ok cp"
    and r: "cm_run k m names Expr st = Some (True, st')" and st: "pos st = 0" "idx st = 0"
  shows "takes_word names (cp_lang cp) st st'"
proof -
  obtain k1 where k1: "k = Suc k1" using r by (cases k) simp_all
  then have "cm_run k1 m names (Alternatives st) st = Some (True, st')" using r by (simp add: cm_match_expr_def)
  moreover obtain k2 where k2: "k1 = Suc k2" using calculation by (cases k1) simp_all
  ultimately have al: "alternatives (cm_run k2 m names) m st st = Some (True, st')" by simp
  obtain k3 where k3: "k2 = Suc k3" using al by (cases k2) (simp_all add: alternatives_def)
  have sq: "cm_run k2 m names Sequence st = cm_match_sequence (cm_run k3 m names) st" using k3 by simp
  have d0: "drop (pos st) m = print_cp cp @ []" using d st by simp
  have stop: "stop []" by (simp add: stop_def)
  have t: "term_sound m names (cm_run k3 m names)" using all_sound[of m names k3] by (simp add: all_sound_def)
  have mt: "more_terms_sound m names (cm_run k3 m names)" using all_sound[of m names k3] by (simp add: all_sound_def)
  obtain k4 where k4: "k3 = Suc k4"
    using al k3 by (cases k3) (auto simp: alternatives_def cm_match_sequence_def)
  have pipe: "m ! p \<noteq> 0x7C" "m ! p \<noteq> 0x2C" if at: "drop p m = [] \<or> stuck (drop p m)" "p < length m" for p
  proof -
    obtain q s where "drop p m = q # s" "q = 0x2A \<or> q = 0x2B" using at by (auto simp: stuck_def)
    then show "m ! p \<noteq> 0x7C" "m ! p \<noteq> 0x2C" using at_cons(2) by fastforce+
  qed
  have ws: "cm_skip_ws m p = p" if "drop p m = [] \<or> stuck (drop p m)" for p
    using that ws_end stuck_ws by blast
  have probe: "cm_skip_alternative m (pos st) = length m"
  proof -
    have "skip_alternative m 0 0 = skip_alternative m 0 (length m)"
      using neutral_cp[OF ok] d unfolding neutral_def by (metis append_Nil2 add_0 drop_0)
    then show ?thesis using st by (simp add: cm_skip_alternative_def skip_alternative.simps[of m 0 "length m"])
  qed
  have pws: "cm_skip_ws m (length m) = length m" by (rule ws_end) simp
  have "\<exists>s1. cm_run k2 m names Sequence st = Some (True, s1) \<and> idx st' = idx s1"
    using al probe pws by (auto simp: alternatives_def Let_def split: option.splits bool.splits)
  then obtain s1 where s1: "cm_run k2 m names Sequence st = Some (True, s1)" "idx st' = idx s1" by blast
  then obtain s2 where s2: "cm_run k3 m names Term st = Some (True, s2)" "cm_run k3 m names More_terms s2 = Some (True, s1)"
    using sq by (auto simp: cm_match_sequence_def Let_def split: option.splits bool.splits)
  have a: "takes_word names (cp_lang cp) st s2" "drop (pos s2) m = [] \<or> stuck (drop (pos s2) m)"
    using t[unfolded term_sound_def, rule_format, OF ok stop _ d0 s2(1)] st by simp_all
  have "idx s1 = idx s2"
    using s2(2) k4 pipe(2)[OF a(2)] ws[OF a(2)] by (auto simp: more_terms_def skip_ws_def Let_def split: if_splits)
  then show ?thesis using a(1) s1(2) takes_idx[of st st st' s2] by simp
qed

lemma no_hash: "0x23 \<notin> set m \<Longrightarrow> \<not> has_substring m (ascii ''#PCDATA'')"
proof (induction m)
  case (Cons b m)
  have "hd (ascii ''#PCDATA'') = 0x23" by (simp add: ascii_def)
  then show ?case using Cons by (auto simp: ascii_def)
qed (simp add: ascii_def)

lemma joined_set: "set (joined sep xs) \<subseteq> insert sep (\<Union>(set ` set xs))"
  by (induction sep xs rule: joined.induct) auto

lemma print_no_hash: "cp_ok cp \<Longrightarrow> 0x23 \<notin> set (print_cp cp)"
proof (induction cp)
  case (Cp_name n q)
  then show ?case using name_byte_plain
    by (fastforce simp: name_ok_def list_all_iff print_occ_def occ_ok_def)
next
  case (Cp_group css q)
  have "0x23 \<notin> set (print_seq cs)" if "cs \<in> set css" for cs
    using Cp_group that joined_set[of "0x2C" "map print_cp cs"] by (fastforce simp: list_all_iff)
  then have "0x23 \<notin> set (print_alts css)" using joined_set[of "0x7C" "map print_seq css"] by fastforce
  then show ?case using Cp_group.prems by (auto simp: print_occ_def occ_ok_def)
qed

lemma all_accepted:
  assumes "cp_ok cp" "leptris_content_model_match (Some (print_cp cp)) (Some elem) (Some names) = Some (True, out_msg)"
  shows "names \<in> cp_lang cp"
proof -
  let ?m = "print_cp cp" and ?st = "\<lparr>pos = 0, idx = 0, msg = None\<rparr>"
  have "\<not> has_substring ?m (ascii ''#PCDATA'')" by (rule no_hash[OF print_no_hash[OF assms(1)]])
  then obtain st' where r: "cm_run (match_fuel ?m names) ?m names Expr ?st = Some (True, st')" "idx st' = length names"
    using assms(2) by (auto simp: leptris_content_model_match_def Let_def split: option.splits bool.splits if_splits)
  from top_expr[OF refl assms(1) r(1)] have "takes_word names (cp_lang cp) ?st st'" by simp
  then show ?thesis using r(2) by (simp add: takes_word_def word_def)
qed

text \<open>
  C16. What the matcher accepts is right: when a model that prints a well-formed tree of names,
  sequences, choices and occurrence marks is matched with success, the element children, in order,
  are a word of the language the tree denotes.
\<close>

theorem content_match_sound:
  assumes "cp_ok cp" "leptris_content_model_match (Some (print_cp cp)) (Some elem) (Some names) = Some (True, out_msg)"
  shows "names \<in> cp_lang cp"
  using assms by (rule all_accepted)

theorem content_match_sound_witness:
  "[ascii ''a'', ascii ''b'', ascii ''a''] \<in> cp_lang (Cp_group [[Cp_name (ascii ''a'') 1], [Cp_name (ascii ''b'') 1]] 0x2A)"
proof -
  let ?cp = "Cp_group [[Cp_name (ascii ''a'') 1], [Cp_name (ascii ''b'') 1]] 0x2A"
  have ok: "cp_ok ?cp" by code_simp
  have "leptris_content_model_match (Some (print_cp ?cp)) (Some (ascii ''e'')) (Some [ascii ''a'', ascii ''b'', ascii ''a'']) =
      Some (True, Some (Requires (ascii ''b'')))" by code_simp
  from content_match_sound[OF ok this] show ?thesis .
qed

section \<open>Sequences of distinct names\<close>

abbreviation name_cps :: "(bytes \<times> u8) list \<Rightarrow> dtd_cp list" where
  "name_cps ts \<equiv> map (\<lambda>(n, q). Cp_name n q) ts"

abbreviation flat_ok :: "(bytes \<times> u8) list \<Rightarrow> bool" where
  "flat_ok ts \<equiv> list_all (\<lambda>(n, q). name_ok n \<and> occ_ok q) ts"

definition starts :: "bytes \<Rightarrow> bytes list \<Rightarrow> bool" where
  "starts n w \<longleftrightarrow> w \<noteq> [] \<and> hd w = n"

lemma star_single: "w \<in> lang_star {[n]} \<Longrightarrow> w = replicate (length w) n"
proof -
  have "w \<in> lang_pow k {[n]} \<Longrightarrow> w = replicate (length w) n" for k
  proof (induction k arbitrary: w)
    case (Suc k)
    then obtain v where v: "w = n # v" "v \<in> lang_pow k {[n]}" by (auto elim!: concE)
    then show ?case using Suc.IH[OF v(2)] by simp
  qed simp
  moreover assume "w \<in> lang_star {[n]}"
  ultimately show ?thesis by (auto simp: lang_star_def)
qed

lemma occ_single:
  assumes "w \<in> occ_lang q {[n]}" "occ_ok q"
  shows "w = replicate (length w) n" "q = 1 \<Longrightarrow> w = [n]" "q = 0x3F \<Longrightarrow> length w \<le> 1" "q = 0x2B \<Longrightarrow> w \<noteq> []"
  using assms by (auto simp: occ_lang_def occ_ok_def conc_iff dest: star_single split: if_splits)

lemma flat_first: "w \<in> seq_lang (name_cps ts) \<Longrightarrow> flat_ok ts \<Longrightarrow> starts n w \<Longrightarrow> n \<in> fst ` set ts"
proof (induction ts arbitrary: w)
  case Nil
  then show ?case by (simp add: starts_def)
next
  case (Cons t ts)
  obtain n1 q where t: "t = (n1, q)" by (cases t)
  then obtain u v where w: "w = u @ v" "u \<in> occ_lang q {[n1]}" "v \<in> seq_lang (name_cps ts)"
    using Cons.prems(1) by (auto elim!: concE)
  show ?case
  proof (cases u)
    case Nil
    then show ?thesis using Cons w by simp
  next
    case (Cons x u')
    then have "x = n1" using occ_single(1)[OF w(2)] Cons.prems(2) t by (cases "length u") auto
    then show ?thesis using \<open>starts n w\<close> w(1) Cons t by (simp add: starts_def)
  qed
qed

lemma takeWhile_word: "u = replicate (length u) n \<Longrightarrow> \<not> starts n v \<Longrightarrow> takeWhile (\<lambda>x. x = n) (u @ v) = u"
proof (induction u)
  case Nil
  then show ?case by (cases v) (simp_all add: starts_def)
qed simp

lemma scan_names: "drop p names = u @ v \<Longrightarrow> u = replicate (length u) n \<Longrightarrow> \<not> starts n v \<Longrightarrow>
    scan_while (\<lambda>x. x = n) names p (length names) = p + length u"
  by (simp add: scan_while_drop takeWhile_word)

lemma scan_one:
  assumes w: "drop p names = u @ v" and u: "u = [] \<or> u = [n]" and v: "\<not> starts n v"
  shows "scan_while (\<lambda>x. x = n) names p (min (p + 1) (length names)) = p + length u"
  using u
proof
  assume u: "u = []"
  have "names ! p \<noteq> n" if "p < length names"
  proof -
    have "drop p names = names ! p # drop (Suc p) names" using that by (simp add: Cons_nth_drop_Suc)
    then show ?thesis using w u v by (simp add: starts_def)
  qed
  then show ?thesis using u by (auto simp: scan_while.simps[of _ names p])
next
  assume u: "u = [n]"
  then have "drop p names = n # v" using w by simp
  note at = at_cons(1,2)[OF this]
  then show ?thesis
    using u by (simp add: scan_while.simps[of _ names p] scan_while.simps[of _ names "Suc p"])
qed

lemma match_name_complete:
  assumes w: "drop (idx st) names = u @ v" and u: "u \<in> occ_lang q {[n]}" and v: "\<not> starts n v" and q: "occ_ok q"
  shows "match_name names n q st = (True, st\<lparr>idx := idx st + length u\<rparr>)"
proof -
  note s = occ_single[OF u q]
  consider "q = 1" | "q = 0x3F" | "q = 0x2A" | "q = 0x2B" using q by (auto simp: occ_ok_def)
  then show ?thesis
  proof cases
    case 1
    then show ?thesis using scan_one[OF w _ v] s(2) by (simp add: match_name_def)
  next
    case 2
    then have "u = [] \<or> u = [n]" using s(1,3) by (cases u) auto
    then show ?thesis using 2 scan_one[OF w _ v] by (simp add: match_name_def)
  next
    case 3
    then show ?thesis using scan_names[OF w s(1) v] by (simp add: match_name_def)
  next
    case 4
    then show ?thesis using scan_names[OF w s(1) v] s(4) by (simp add: match_name_def)
  qed
qed

lemma run_Suc: "cm_run k m names c st = Some r \<Longrightarrow> \<exists>j. k = Suc j"
  by (cases k) simp_all

lemma flat_term:
  assumes d: "drop (pos st) m = print_cp (Cp_name n q) @ post" and ok: "name_ok n" "occ_ok q" and p: "stop post"
    and r: "cm_run k m names Term st = Some (r, st')"
    and w: "drop (idx st) names = u @ v" "u \<in> occ_lang q {[n]}" "\<not> starts n v"
  shows "r \<and> drop (pos st') m = post \<and> idx st' = idx st + length u"
proof -
  obtain j where k: "k = Suc j" using run_Suc[OF r] by blast
  have dn: "drop (pos st) m = n @ print_occ q @ post" using d by simp
  obtain c t where c: "n = c # t" "cm_name_byte c" using ok(1) by (cases n) (auto simp: name_ok_def)
  then have dc: "drop (pos st) m = c # (t @ print_occ q @ post)" using dn by simp
  note plain = name_byte_plain[OF c(2)]
  have "skip_ws m st = st" using ws_none[OF dc] plain by (simp add: skip_ws_def)
  then have "match_name_term m names st = (r, st')"
    using r k peek_at[OF dc] plain by (simp add: cm_match_term_def split: if_splits)
  moreover let ?s = "st\<lparr>pos := pos st + length n + length (print_occ q)\<rparr>"
  have "match_name names n q ?s = (True, ?s\<lparr>idx := idx ?s + length u\<rparr>)"
    by (rule match_name_complete) (use w ok in simp_all)
  ultimately show ?thesis using name_term_at(1)[OF dn ok p, of names] name_term_at(2)[OF dn ok p] by (auto simp: prod_eq_iff)
qed

lemma flat_rest:
  "flat_ok ts \<Longrightarrow> distinct (map fst ts) \<Longrightarrow> close rest \<Longrightarrow> idx st \<le> length names \<Longrightarrow>
    drop (pos st) m = (if ts = [] then rest else 0x2C # print_seq (name_cps ts) @ rest) \<Longrightarrow>
    drop (idx st) names \<in> seq_lang (name_cps ts) \<Longrightarrow> cm_run k m names More_terms st = Some (r, st') \<Longrightarrow>
    r \<and> drop (pos st') m = rest \<and> idx st' = length names"
proof (induction ts arbitrary: st k)
  case Nil
  obtain j where k: "k = Suc j" using run_Suc[OF Nil.prems(7)] by blast
  have d: "drop (pos st) m = rest" using Nil.prems by simp
  obtain c s where c: "rest = c # s" "c \<noteq> 0x2C" using Nil.prems(3) by (cases rest) (auto simp: close_def)
  have "skip_ws m st = st" using stop_ws[of "pos st" m] close_stop[OF Nil.prems(3)] d by (simp add: skip_ws_def)
  moreover have "m ! pos st \<noteq> 0x2C" using at_cons(2)[of "pos st" m c s] d c by simp
  ultimately show ?case using Nil.prems k d by (auto simp: more_terms_def Let_def)
next
  case (Cons t ts)
  obtain n q where t: "t = (n, q)" by (cases t)
  obtain j where k: "k = Suc j" using run_Suc[OF Cons.prems(7)] by blast
  have dc: "drop (pos st) m = 0x2C # print_seq (name_cps (t # ts)) @ rest" using Cons.prems(5) by simp
  have same: "skip_ws m st = st" using ws_none[OF dc] by (simp add: skip_ws_def c_space_def)
  let ?st = "st\<lparr>pos := pos st + 1\<rparr>" and ?post = "if ts = [] then rest else 0x2C # print_seq (name_cps ts) @ rest"
  have dt: "drop (pos ?st) m = print_cp (Cp_name n q) @ ?post" using at_cons(3)[OF dc] t by (cases ts) auto
  have ok: "name_ok n" "occ_ok q" using Cons.prems(1) t by simp_all
  have sp: "stop ?post" using close_stop[OF Cons.prems(3)] by (simp add: stop_def)
  obtain u v where w: "drop (idx st) names = u @ v" "u \<in> occ_lang q {[n]}" "v \<in> seq_lang (name_cps ts)"
    using Cons.prems(6) t by (auto elim!: concE)
  have v: "\<not> starts n v" using flat_first[OF w(3)] Cons.prems(1,2) t by (auto simp: image_iff)
  have cr: "cm_run (Suc j) m names More_terms st = Some (r, st')" using Cons.prems(7) k by simp
  obtain b s1 where tm: "cm_run j m names Term ?st = Some (b, s1)"
    using cr same at_cons(1,2)[OF dc] by (auto simp: more_terms_def Let_def split: option.splits)
  have s1: "b" "drop (pos s1) m = ?post" "idx s1 = idx st + length u"
    using flat_term[OF dt ok sp tm _ w(2) v] w(1) by simp_all
  have mt: "cm_run j m names More_terms s1 = Some (r, st')"
    using cr same at_cons(1,2)[OF dc] tm s1(1) by (simp add: more_terms_def)
  have "drop (idx s1) names = v" using at_append[OF w(1)] s1(3) by simp
  moreover have "idx s1 \<le> length names"
    using s1(3) arg_cong[OF w(1), of length] Cons.prems(4) by simp
  ultimately show ?case
    using Cons.IH[OF _ _ Cons.prems(3) _ s1(2) _ mt] Cons.prems(1,2) w(3) by simp
qed

lemma flat_sequence:
  assumes ne: "ts \<noteq> []" and ok: "flat_ok ts" "distinct (map fst ts)" and rest: "close rest" and i: "idx st \<le> length names"
    and d: "drop (pos st) m = print_seq (name_cps ts) @ rest"
    and w: "drop (idx st) names \<in> seq_lang (name_cps ts)" and r: "cm_run k m names Sequence st = Some (r, st')"
  shows "r \<and> drop (pos st') m = rest \<and> idx st' = length names"
proof -
  obtain j where k: "k = Suc j" using run_Suc[OF r] by blast
  have sq: "cm_match_sequence (cm_run j m names) st = Some (r, st')" using r k by simp
  obtain n q ts' where ts: "ts = (n, q) # ts'" using ne by (cases ts) auto
  let ?post = "if ts' = [] then rest else 0x2C # print_seq (name_cps ts') @ rest"
  have dt: "drop (pos st) m = print_cp (Cp_name n q) @ ?post" using d ts by (cases ts') auto
  have nq: "name_ok n" "occ_ok q" using ok ts by simp_all
  have sp: "stop ?post" using close_stop[OF rest] by (simp add: stop_def)
  obtain u v where w: "drop (idx st) names = u @ v" "u \<in> occ_lang q {[n]}" "v \<in> seq_lang (name_cps ts')"
    using w ts by (auto elim!: concE)
  have v: "\<not> starts n v" using flat_first[OF w(3)] ok ts by (auto simp: image_iff)
  obtain b s1 where tm: "cm_run j m names Term st = Some (b, s1)"
    using sq by (auto simp: cm_match_sequence_def split: option.splits)
  have s1: "b" "drop (pos s1) m = ?post" "idx s1 = idx st + length u"
    using flat_term[OF dt nq sp tm w(1) w(2) v] by simp_all
  have mt: "cm_run j m names More_terms s1 = Some (r, st')" using sq tm s1(1) by (simp add: cm_match_sequence_def)
  have "drop (idx s1) names = v" using at_append[OF w(1)] s1(3) by simp
  moreover have "idx s1 \<le> length names"
    using s1(3) arg_cong[OF w(1), of length] i by simp
  ultimately show ?thesis using flat_rest[OF _ _ rest _ s1(2) _ mt] ok w(3) ts by simp
qed

lemma flat_expr:
  assumes ne: "ts \<noteq> []" and ok: "flat_ok ts" "distinct (map fst ts)" and i: "idx st \<le> length names"
    and d: "drop (pos st) m = print_seq (name_cps ts) @ 0x29 # post"
    and w: "drop (idx st) names \<in> seq_lang (name_cps ts)" and r: "cm_run k m names Expr st = Some (r, st')"
  shows "r \<and> drop (pos st') m = 0x29 # post \<and> idx st' = length names"
proof -
  obtain j where k: "k = Suc j" using run_Suc[OF r] by blast
  then have al: "cm_run j m names (Alternatives st) st = Some (r, st')" using r by (simp add: cm_match_expr_def)
  obtain l where j: "j = Suc l" using run_Suc[OF al] by blast
  then have al: "alternatives (cm_run l m names) m st st = Some (r, st')" using al by simp
  obtain b s1 where sq: "cm_run l m names Sequence st = Some (b, s1)"
    using al by (auto simp: alternatives_def split: option.splits)
  have cl: "close (0x29 # post)" by (simp add: close_def)
  have s1: "b" "drop (pos s1) m = 0x29 # post" "idx s1 = length names"
    using flat_sequence[OF ne ok cl i d w sq] by simp_all
  have "drop (skip_alternatives m (pos s1)) m = 0x29 # post"
    using skip_alternatives_at[of "[]" "pos s1" m post] s1(2) by simp
  then show ?thesis using al sq s1 by (auto simp: alternatives_def)
qed

lemma flat_group:
  assumes ne: "ts \<noteq> []" and ok: "flat_ok ts" "distinct (map fst ts)" and i: "idx st \<le> length names"
    and d: "drop g m = 0x28 # print_seq (name_cps ts) @ 0x29 # post"
    and w: "drop (idx st) names \<in> seq_lang (name_cps ts)" and r: "cm_run k m names (Try_group g) st = Some (r, st')"
  shows "r \<and> drop (pos st') m = post \<and> idx st' = length names"
proof -
  obtain j where k: "k = Suc j" using run_Suc[OF r] by blast
  then have gr: "cm_try_group_once (cm_run j m names) m g st = Some (r, st')" using r by simp
  let ?st = "st\<lparr>pos := g + 1\<rparr>"
  obtain b s1 where ex: "cm_run j m names Expr ?st = Some (b, s1)"
    using gr by (auto simp: cm_try_group_once_def split: option.splits)
  have de: "drop (pos ?st) m = print_seq (name_cps ts) @ 0x29 # post" using at_cons(3)[OF d] by simp
  have s1: "b" "drop (pos s1) m = 0x29 # post" "idx s1 = length names"
    using flat_expr[OF ne ok _ de _ ex] i w by simp_all
  have ws: "skip_ws m s1 = s1" using ws_none[OF s1(2)] by (simp add: skip_ws_def c_space_def)
  show ?thesis using gr ex s1 ws at_cons[OF s1(2)] by (auto simp: cm_try_group_once_def)
qed

lemma flat_top:
  assumes ne: "ts \<noteq> []" and ok: "flat_ok ts" "distinct (map fst ts)" and st: "idx st \<le> length names"
    and d: "drop (pos st) m = 0x28 # print_seq (name_cps ts) @ 0x29 # []"
    and w: "drop (idx st) names \<in> seq_lang (name_cps ts)" and ex: "cm_run k m names Expr st = Some (r, st')"
  shows "r \<and> idx st' = length names"
proof -
  obtain j where "k = Suc j" using run_Suc[OF ex] by blast
  then have al: "cm_run j m names (Alternatives st) st = Some (r, st')" using ex by (simp add: cm_match_expr_def)
  obtain l where j: "j = Suc l" using run_Suc[OF al] by blast
  then have al: "alternatives (cm_run l m names) m st st = Some (r, st')" using al by simp
  obtain b s1 where sq: "cm_run l m names Sequence st = Some (b, s1)"
    using al by (auto simp: alternatives_def split: option.splits)
  obtain l2 where l: "l = Suc l2" using run_Suc[OF sq] by blast
  then have sq2: "cm_match_sequence (cm_run l2 m names) st = Some (b, s1)" using sq by simp
  obtain b2 s2 where tm: "cm_run l2 m names Term st = Some (b2, s2)"
    using sq2 by (auto simp: cm_match_sequence_def split: option.splits)
  obtain l3 where l2: "l2 = Suc l3" using run_Suc[OF tm] by blast
  have ws0: "skip_ws m st = st" using ws_none[OF d] by (simp add: skip_ws_def c_space_def)
  have tm2: "cm_match_term (cm_run l3 m names) m names st = Some (b2, s2)" using tm l2 by simp
  obtain b3 s3 where gr: "cm_run l3 m names (Try_group (pos st)) st = Some (b3, s3)"
    using tm2 ws0 peek_at[OF d] by (auto simp: cm_match_term_def Let_def split: option.splits)
  have s3: "b3" "drop (pos s3) m = []" "idx s3 = length names"
    using flat_group[OF ne ok st d w gr] by simp_all
  have ws3: "skip_ws m s3 = s3" using ws_end[OF s3(2)] by (simp add: skip_ws_def)
  have s2: "b2" "s2 = s3"
    using tm2 ws0 peek_at[OF d] gr s3(1) ws3 peek_end[OF s3(2)] by (simp_all add: cm_match_term_def cm_occurrence_def)
  have mt: "cm_run l2 m names More_terms s3 = Some (b, s1)" using sq2 tm s2 by (simp add: cm_match_sequence_def)
  have end3: "length m \<le> pos s3" using s3(2) by simp
  have s1: "b" "s1 = s3" using mt l2 ws3 end3 by (simp_all add: more_terms_def)
  show ?thesis
    using s3(3) al sq s1 ws_end[OF s3(2)] end3 by (auto simp: alternatives_def skip_alternatives.simps[of m "pos s3"])
qed

text \<open>
  C10. A model that is one sequence of different names, each with an occurrence mark or none, is decided
  exactly: the matcher accepts the element children just when they are a word of its language. Neither
  its greediness nor the lack of a second try costs anything there.
\<close>

theorem sequence_match_exact:
  assumes "ts \<noteq> []" "list_all (\<lambda>(n, q). name_ok n \<and> occ_ok q) ts" "distinct (map fst ts)"
  defines "cp \<equiv> Cp_group [map (\<lambda>(n, q). Cp_name n q) ts] 1"
  shows "(\<exists>out_msg. leptris_content_model_match (Some (print_cp cp)) (Some elem) (Some names) = Some (True, out_msg))
    \<longleftrightarrow> names \<in> cp_lang cp"
proof
  have ok: "cp_ok cp" using assms by (auto simp: list_all_iff occ_ok_def)
  show "names \<in> cp_lang cp" if "\<exists>out_msg. leptris_content_model_match (Some (print_cp cp)) (Some elem) (Some names) = Some (True, out_msg)"
    using all_accepted[OF ok] that by blast
  assume "names \<in> cp_lang cp"
  then have w: "names \<in> seq_lang (name_cps ts)" by (simp add: cp_def occ_lang_def)
  let ?m = "print_cp cp" and ?st = "\<lparr>pos = 0, idx = 0, msg = None\<rparr>"
  have no: "\<not> has_substring ?m (ascii ''#PCDATA'')" by (rule no_hash[OF print_no_hash[OF ok]])
  obtain r st' where ex: "cm_run (match_fuel ?m names) ?m names Expr ?st = Some (r, st')"
    using expr_returns by blast
  have d: "drop (pos ?st) ?m = 0x28 # print_seq (name_cps ts) @ 0x29 # []" by (simp add: cp_def print_occ_def)
  have "r \<and> idx st' = length names" using flat_top[OF assms(1-3) _ d _ ex] w by simp
  then show "\<exists>out_msg. leptris_content_model_match (Some ?m) (Some elem) (Some names) = Some (True, out_msg)"
    using no ex by (simp add: leptris_content_model_match_def)
qed

theorem sequence_match_exact_witness:
  "\<exists>out_msg. leptris_content_model_match (Some (ascii ''(a,b?,c*)'')) (Some (ascii ''e'')) (Some [ascii ''a'', ascii ''c'', ascii ''c'']) = Some (True, out_msg)"
proof -
  let ?ts = "[(ascii ''a'', 1), (ascii ''b'', 0x3F), (ascii ''c'', 0x2A)] :: (bytes \<times> u8) list"
  let ?w = "[ascii ''a'', ascii ''c'', ascii ''c'']"
  have ok: "list_all (\<lambda>(n, q). name_ok n \<and> occ_ok q) ?ts" by code_simp
  have ne: "?ts \<noteq> []" and d: "distinct (map fst ?ts)" by code_simp+
  have "[ascii ''c''] @ [ascii ''c''] @ [] \<in> lang_star {[ascii ''c'']}" by (intro star_cons star_nil) simp_all
  then have w: "?w \<in> cp_lang (Cp_group [map (\<lambda>(n, q). Cp_name n q) ?ts] 1)"
    by (auto simp: occ_lang_def conc_def)
  have p: "print_cp (Cp_group [map (\<lambda>(n, q). Cp_name n q) ?ts] 1) = ascii ''(a,b?,c*)''" by code_simp
  from sequence_match_exact[OF ne ok d, of "ascii ''e''" ?w] show ?thesis unfolding p using w by simp
qed

section \<open>Sequences the matcher rejects\<close>

text \<open>
  C29. Three models on which the matcher is not complete. An optional group inside a sequence has to
  occur, \<open>(a,(b)?)\<close> rejects \<open>a\<close>; a repeated group inside another is left before its occurrence
  character after its second instance, and \<open>((a,b)*)\<close> rejects \<open>a b a b\<close>; an alternative that matches
  nothing is not given up, and \<open>(a?|b)\<close> rejects \<open>b\<close>. Each of the three is in the language.
\<close>

theorem content_match_incomplete:
  "let a = ascii ''a''; b = ascii ''b'';
       optional = Cp_group [[Cp_name a 1, Cp_group [[Cp_name b 1]] 0x3F]] 1;
       repeated = Cp_group [[Cp_group [[Cp_name a 1, Cp_name b 1]] 0x2A]] 1;
       choice = Cp_group [[Cp_name a 0x3F], [Cp_name b 1]] 1;
       match = (\<lambda>cp. leptris_content_model_match (Some (print_cp cp)) (Some [0x65])) in
   match optional (Some [a]) = Some (False, Some (Requires b)) \<and> [a] \<in> cp_lang optional
   \<and> match repeated (Some [a, b, a, b]) = Some (False, Some Expected_close) \<and> [a, b, a, b] \<in> cp_lang repeated
   \<and> match choice (Some [b]) = Some (False, Some (Accepts_count 0)) \<and> [b] \<in> cp_lang choice"
proof -
  let ?a = "ascii ''a''" and ?b = "ascii ''b''"
  let ?optional = "Cp_group [[Cp_name ?a 1, Cp_group [[Cp_name ?b 1]] 0x3F]] 1"
  let ?repeated = "Cp_group [[Cp_group [[Cp_name ?a 1, Cp_name ?b 1]] 0x2A]] 1"
  let ?choice = "Cp_group [[Cp_name ?a 0x3F], [Cp_name ?b 1]] 1"
  have 1: "leptris_content_model_match (Some (print_cp ?optional)) (Some [0x65]) (Some [?a]) = Some (False, Some (Requires ?b))"
    by code_simp
  have 2: "leptris_content_model_match (Some (print_cp ?repeated)) (Some [0x65]) (Some [?a, ?b, ?a, ?b]) = Some (False, Some Expected_close)"
    by code_simp
  have 3: "leptris_content_model_match (Some (print_cp ?choice)) (Some [0x65]) (Some [?b]) = Some (False, Some (Accepts_count 0))"
    by code_simp
  have "[?a, ?b] \<in> {[?a, ?b]}" by simp
  then have "[?a, ?b] @ [?a, ?b] @ [] \<in> lang_star {[?a, ?b]}" by (intro star_cons star_nil)
  then have 5: "[?a, ?b, ?a, ?b] \<in> cp_lang ?repeated" by (simp add: occ_lang_def conc_def)
  have 4: "[?a] \<in> cp_lang ?optional" "[?b] \<in> cp_lang ?choice" by (auto simp: occ_lang_def conc_def)
  show ?thesis unfolding Let_def by (intro conjI 1 2 3 4 5)
qed

section \<open>Mixed models\<close>

definition print_mixed :: "bytes list \<Rightarrow> bytes" where
  "print_mixed ns = 0x28 # joined 0x7C (ascii ''#PCDATA'' # ns) @ [0x29, 0x2A]"

definition plain_name :: "bytes \<Rightarrow> bool" where
  "plain_name n \<longleftrightarrow> n \<noteq> [] \<and> list_all (\<lambda>c. \<not> mixed_separator c) n"

lemma mixed_names_bar: "mixed_names (0x7C # bs) = mixed_names bs"
  by (simp add: mixed_names.simps[of "0x7C # bs"] mixed_names.simps[of bs] mixed_separator_def)

lemma mixed_names_name:
  assumes "plain_name n" "rest = [] \<or> hd rest = 0x7C"
  shows "mixed_names (n @ rest) = (if n = ascii ''#PCDATA'' then [] else [n]) @ mixed_names rest"
proof -
  obtain b t where n: "n = b # t" "\<not> mixed_separator b" "list_all (\<lambda>c. \<not> mixed_separator c) t"
    using assms(1) by (cases n) (auto simp: plain_name_def)
  have "takeWhile (\<lambda>c. \<not> mixed_separator c) (t @ rest) = t" "dropWhile (\<lambda>c. \<not> mixed_separator c) (t @ rest) = rest"
    using assms(2) n(3) by (cases rest; auto simp: list_all_iff mixed_separator_def)+
  then show ?thesis using n by (simp add: mixed_names.simps[of "b # t @ rest"])
qed

lemma mixed_names_joined:
  "\<forall>n \<in> set ns. plain_name n \<Longrightarrow> mixed_names (joined 0x7C ns) = filter (\<lambda>n. n \<noteq> ascii ''#PCDATA'') ns"
proof (induction "0x7C :: u8" ns rule: joined.induct)
  case 1
  show ?case by (simp add: mixed_names.simps[of "[]"])
next
  case (2 x)
  then show ?case using mixed_names_name[of x "[]"] by (simp add: mixed_names.simps[of "[]"])
next
  case (3 x y xs)
  then show ?case using mixed_names_name[of x "0x7C # joined 0x7C (y # xs)"] by (simp add: mixed_names_bar)
qed

lemma find_first_at: "c \<notin> set u \<Longrightarrow> find_first c (u @ c # v) = Some (length u)"
proof -
  assume "c \<notin> set u"
  then have "takeWhile (\<lambda>b. b \<noteq> c) (u @ c # v) = u" by (induction u) auto
  then show ?thesis by (simp add: find_first_def)
qed

lemma find_last_at: "c \<notin> set v \<Longrightarrow> find_last c (u @ c # v) = Some (length u)"
  using find_first_at[of c "rev v" "rev u"] by (simp add: find_last_def)

lemma has_substring_at: "pat \<noteq> [] \<Longrightarrow> has_substring (u @ pat @ v) pat"
proof (induction u)
  case Nil
  then show ?case by (cases pat) simp_all
qed simp

lemma pcdata_plain: "plain_name (ascii ''#PCDATA'')"
  by (simp add: plain_name_def ascii_def mixed_separator_def c_space_def)

lemma plain_no_hash: "list_all cm_name_byte n \<Longrightarrow> n \<noteq> [] \<Longrightarrow> plain_name n \<and> n \<noteq> ascii ''#PCDATA''"
  using name_byte_plain by (fastforce simp: plain_name_def mixed_separator_def list_all_iff ascii_def)

text \<open>
  C28. A mixed model allows exactly the children it names, any number of times and in any order: for
  up to 64 names the matcher accepts when every child is one of them, and it rejects with the first
  child that is none of them. A name past the 64th is not kept, and its element is rejected.
\<close>

theorem mixed_match_exact:
  assumes "list_all (\<lambda>n. n \<noteq> [] \<and> list_all cm_name_byte n) ns"
  shows "leptris_content_model_match (Some (print_mixed ns)) (Some elem) (Some names) =
    Some (case find (\<lambda>n. n \<notin> set (take 64 ns)) names of Some n \<Rightarrow> (False, Some (Not_allowed n)) | None \<Rightarrow> (True, None))"
proof -
  let ?m = "print_mixed ns" and ?xs = "ascii ''#PCDATA'' # ns"
  let ?b = "joined 0x7C ?xs"
  have ok: "\<forall>n \<in> set ns. plain_name n \<and> n \<noteq> ascii ''#PCDATA''" using assms plain_no_hash by (auto simp: list_all_iff)
  have names: "mixed_names ?b = ns"
    using mixed_names_joined[of ?xs] ok pcdata_plain by simp
  obtain v where v: "?b = ascii ''#PCDATA'' @ v" by (cases ns) auto
  have sub: "has_substring ?m (ascii ''#PCDATA'')"
    using has_substring_at[of "ascii ''#PCDATA''" "[0x28]" "v @ [0x29, 0x2A]"] v
    by (simp add: print_mixed_def ascii_def)
  have fst: "find_first 0x28 ?m = Some 0" using find_first_at[of "0x28" "[]"] by (simp add: print_mixed_def)
  have lst: "find_last 0x29 ?m = Some (Suc (length ?b))"
    using find_last_at[of "0x29" "[0x2A]" "0x28 # ?b"] by (simp add: print_mixed_def)
  have body: "drop (0 + 1) (take (Suc (length ?b)) ?m) = ?b" by (simp add: print_mixed_def)
  have d: "drop (Suc (length ?b) + 1) ?m = 0x2A # []" by (simp add: print_mixed_def)
  have star: "cm_peek ?m (cm_skip_ws ?m (Suc (length ?b) + 1)) = Some 0x2A"
    using ws_none[OF d] peek_at[OF d] by (simp add: c_space_def)
  show ?thesis
    using sub fst lst star body names
    by (simp add: leptris_content_model_match_def cm_match_mixed_def Let_def say_def split: option.splits)
qed

theorem mixed_match_exact_witness:
  "leptris_content_model_match (Some (print_mixed [[0x61], [0x62]])) (Some [0x65]) (Some [[0x62], [0x63]]) =
    Some (False, Some (Not_allowed [0x63]))"
  using mixed_match_exact[of "[[0x61], [0x62]]" "[0x65]" "[[0x62], [0x63]]"]
  by (simp add: cm_name_byte_def c_alnum_def c_alpha_def)

end
