(* ===== verification/HashTable.thy ===== *)
theory HashTable
  imports Prelude "HOL-Library.Multiset"
begin

text \<open>
  The string hash table (\<open>memory/pool.c\<close>): chained buckets keyed by byte strings, hashed by FNV-1a,
  with growth at three quarters of the buckets and string interning on top. Every operation is shown
  to act on the table's map, through any growth, and iteration to visit each entry once.

  A bucket is the list of its chain; a value may be \<open>NULL\<close>, which a lookup does not tell from a
  missing key. \<open>mem i\<close> says whether the \<open>i\<close>-th allocation an operation makes succeeds, and \<open>pool\<close>
  whether it was given a pool.
\<close>

record 'v hash_entry =
  key_data :: bytes
  cached_string :: "'v option"

record 'v hash_table =
  buckets :: "'v hash_entry list list"
  entry_count :: nat
  cache_hits :: nat
  cache_misses :: nat

section \<open>Operations\<close>

definition fnv_prime :: u32 where
  "fnv_prime = 16777619"

definition fnv_basis :: u32 where
  "fnv_basis = 2166136261"

definition hash_cstring :: "bytes \<Rightarrow> u32" where
  "hash_cstring s = fold (\<lambda>b h. (h XOR ucast b) * fnv_prime) s fnv_basis"

definition hash_string_view :: "bytes \<Rightarrow> u32" where
  "hash_string_view s = (if s = [] then 0 else fold (\<lambda>b h. (h XOR ucast b) * fnv_prime) s fnv_basis)"

definition leptris_hash_table_create :: "(nat \<Rightarrow> bool) \<Rightarrow> bool \<Rightarrow> nat \<Rightarrow> 'v hash_table option" where
  "leptris_hash_table_create mem pool bucket_count =
    (if \<not> pool \<or> bucket_count = 0 then None
     else if \<not> mem 0 then None
     else if \<not> mem 1 then None
     else Some \<lparr>buckets = replicate bucket_count [], entry_count = 0, cache_hits = 0, cache_misses = 0\<rparr>)"

definition chain_find :: "bytes \<Rightarrow> 'v hash_entry list \<Rightarrow> 'v hash_entry option" where
  "chain_find key chain = find (\<lambda>e. key_data e = key) chain"

definition bucket_index :: "bytes \<Rightarrow> nat \<Rightarrow> nat" where
  "bucket_index key n = unat (hash_cstring key) mod n"

definition leptris_hash_table_get :: "'v hash_table \<Rightarrow> bytes \<Rightarrow> 'v option" where
  "leptris_hash_table_get t key =
    (if key = [] then None
     else (case chain_find key (buckets t ! bucket_index key (length (buckets t))) of
             Some e \<Rightarrow> cached_string e
           | None \<Rightarrow> None))"

text \<open>An entry is moved to the front of its chain in the new array.\<close>

definition rehash_entry :: "'v hash_entry \<Rightarrow> 'v hash_entry list list \<Rightarrow> 'v hash_entry list list" where
  "rehash_entry e new = (let b = bucket_index (key_data e) (length new) in new[b := e # new ! b])"

definition rehash :: "'v hash_entry list list \<Rightarrow> nat \<Rightarrow> 'v hash_entry list list" where
  "rehash old new_count = fold (\<lambda>chain new. fold rehash_entry chain new) old (replicate new_count [])"

definition hash_table_maybe_grow :: "bool \<Rightarrow> bool \<Rightarrow> 'v hash_table \<Rightarrow> 'v hash_table" where
  "hash_table_maybe_grow mem pool t =
    (if \<not> pool then t
     else let bucket_count = length (buckets t) in
       if entry_count t < (bucket_count * 3) div 4 then t
       else if bucket_count \<ge> 2 ^ 24 then t
       else if \<not> mem then t
       else t\<lparr>buckets := rehash (buckets t) (bucket_count * 2)\<rparr>)"

primrec chain_set :: "bytes \<Rightarrow> 'v option \<Rightarrow> 'v hash_entry list \<Rightarrow> 'v hash_entry list" where
  "chain_set key v [] = []"
| "chain_set key v (e # es) = (if key_data e = key then e\<lparr>cached_string := v\<rparr> # es else e # chain_set key v es)"

definition prepend_entry :: "bytes \<Rightarrow> 'v option \<Rightarrow> 'v hash_table \<Rightarrow> 'v hash_table" where
  "prepend_entry key v t =
    (let b = bucket_index key (length (buckets t)) in
     t\<lparr>buckets := (buckets t)[b := \<lparr>key_data = key, cached_string = v\<rparr> # buckets t ! b],
       entry_count := entry_count t + 1\<rparr>)"

definition leptris_hash_table_set :: "(nat \<Rightarrow> bool) \<Rightarrow> bool \<Rightarrow> bytes \<Rightarrow> 'v option \<Rightarrow> 'v hash_table \<Rightarrow> bool \<times> 'v hash_table" where
  "leptris_hash_table_set mem pool key v t =
    (if key = [] then (False, t)
     else let b = bucket_index key (length (buckets t)) in
       case chain_find key (buckets t ! b) of
         Some e \<Rightarrow> (True, t\<lparr>buckets := (buckets t)[b := chain_set key v (buckets t ! b)]\<rparr>)
       | None \<Rightarrow>
           if \<not> mem 0 then (False, t)
           else if \<not> mem 1 then (False, t)
           else (True, hash_table_maybe_grow (mem 2) pool (prepend_entry key v t)))"

primrec chain_remove :: "bytes \<Rightarrow> 'v hash_entry list \<Rightarrow> 'v hash_entry list" where
  "chain_remove key [] = []"
| "chain_remove key (e # es) = (if key_data e = key then es else e # chain_remove key es)"

definition leptris_hash_table_remove :: "bytes \<Rightarrow> 'v hash_table \<Rightarrow> bool \<times> 'v hash_table" where
  "leptris_hash_table_remove key t =
    (if key = [] then (False, t)
     else let b = bucket_index key (length (buckets t)) in
       case chain_find key (buckets t ! b) of
         None \<Rightarrow> (False, t)
       | Some e \<Rightarrow> (True, t\<lparr>buckets := (buckets t)[b := chain_remove key (buckets t ! b)],
                           entry_count := entry_count t - 1\<rparr>))"

text \<open>
  Interning: \<open>fresh\<close> is the address of the copy, should one be needed. The copy of the key is taken
  to be allocated; the code does not check it.
\<close>

definition leptris_pool_intern_string :: "(nat \<Rightarrow> bool) \<Rightarrow> 'v \<Rightarrow> bytes \<Rightarrow> 'v hash_table option \<Rightarrow> 'v option \<times> 'v hash_table option" where
  "leptris_pool_intern_string mem fresh sv cache =
    (if sv = [] then (None, cache)
     else case cache of
       None \<Rightarrow> (if mem 0 then Some fresh else None, None)
     | Some t \<Rightarrow>
         (case chain_find sv (buckets t ! (unat (hash_string_view sv) mod length (buckets t))) of
            Some e \<Rightarrow> (cached_string e, Some (t\<lparr>cache_hits := cache_hits t + 1\<rparr>))
          | None \<Rightarrow>
              let t = t\<lparr>cache_misses := cache_misses t + 1\<rparr> in
              if \<not> mem 0 then (None, Some t)
              else if \<not> mem 1 then (Some fresh, Some t)
              else (Some fresh, Some (hash_table_maybe_grow (mem 2) True (prepend_entry sv (Some fresh) t)))))"

text \<open>The iterator carries the caller's data and stops where it answers 0.\<close>

type_synonym ('v, 's) hash_iterator = "bytes \<Rightarrow> 'v option \<Rightarrow> 's \<Rightarrow> bool \<times> 's"

primrec chain_each :: "('v, 's) hash_iterator \<Rightarrow> 'v hash_entry list \<Rightarrow> 's \<Rightarrow> bool \<times> 's" where
  "chain_each iter [] s = (True, s)"
| "chain_each iter (e # es) s =
    (case iter (key_data e) (cached_string e) s of
       (False, s) \<Rightarrow> (False, s)
     | (True, s) \<Rightarrow> chain_each iter es s)"

primrec bucket_each :: "('v, 's) hash_iterator \<Rightarrow> 'v hash_entry list list \<Rightarrow> 's \<Rightarrow> bool \<times> 's" where
  "bucket_each iter [] s = (True, s)"
| "bucket_each iter (c # cs) s =
    (case chain_each iter c s of
       (False, s) \<Rightarrow> (False, s)
     | (True, s) \<Rightarrow> bucket_each iter cs s)"

definition leptris_hash_table_for_each :: "('v, 's) hash_iterator \<Rightarrow> 'v hash_table \<Rightarrow> 's \<Rightarrow> 's" where
  "leptris_hash_table_for_each iter t s = snd (bucket_each iter (buckets t) s)"

section \<open>Invariant\<close>

abbreviation all_entries :: "'v hash_table \<Rightarrow> 'v hash_entry list" where
  "all_entries t \<equiv> concat (buckets t)"

text \<open>Every entry is in the bucket of its key, keys are different and not empty, and the count is right.\<close>

definition placed :: "'v hash_entry list list \<Rightarrow> bool" where
  "placed bs \<longleftrightarrow> (\<forall>i < length bs. \<forall>e \<in> set (bs ! i). key_data e \<noteq> [] \<and> bucket_index (key_data e) (length bs) = i)"

definition table_inv :: "'v hash_table \<Rightarrow> bool" where
  "table_inv t \<longleftrightarrow> buckets t \<noteq> [] \<and> placed (buckets t) \<and> distinct (map key_data (all_entries t))
    \<and> entry_count t = length (all_entries t)"

lemma table_invD:
  assumes "table_inv t"
  shows "buckets t \<noteq> []" "placed (buckets t)" "distinct (map key_data (all_entries t))" "entry_count t = length (all_entries t)"
  using assms by (simp_all add: table_inv_def)

lemma bucket_index_less: "n \<noteq> 0 \<Longrightarrow> bucket_index key n < n"
  by (simp add: bucket_index_def)

lemma concat_update:
  assumes "b < length bs"
  shows "concat (bs[b := c]) = concat (take b bs) @ c @ concat (drop (Suc b) bs)"
    "concat bs = concat (take b bs) @ bs ! b @ concat (drop (Suc b) bs)"
proof -
  show "concat (bs[b := c]) = concat (take b bs) @ c @ concat (drop (Suc b) bs)"
    using assms by (simp add: upd_conv_take_nth_drop)
  have "bs = take b bs @ bs ! b # drop (Suc b) bs" using assms by (simp add: id_take_nth_drop)
  then have "concat bs = concat (take b bs @ bs ! b # drop (Suc b) bs)" by simp
  then show "concat bs = concat (take b bs) @ bs ! b @ concat (drop (Suc b) bs)" by simp
qed

lemma mset_update: "b < length bs \<Longrightarrow> mset (concat (bs[b := e # bs ! b])) = add_mset e (mset (concat bs))"
  by (simp add: concat_update)

lemma placed_update:
  assumes "placed bs" "b < length bs"
    "\<And>e. e \<in> set c \<Longrightarrow> e \<in> set (bs ! b) \<or> key_data e \<noteq> [] \<and> bucket_index (key_data e) (length bs) = b
      \<or> (\<exists>e' \<in> set (bs ! b). key_data e' = key_data e)"
  shows "placed (bs[b := c])"
  unfolding placed_def
proof (intro allI impI ballI)
  fix i e
  assume i: "i < length (bs[b := c])" and e: "e \<in> set (bs[b := c] ! i)"
  show "key_data e \<noteq> [] \<and> bucket_index (key_data e) (length (bs[b := c])) = i"
  proof (cases "i = b")
    case True
    then have "e \<in> set c" using e assms(2) by simp
    then show ?thesis using assms True unfolding placed_def by (metis length_list_update)
  next
    case False
    then show ?thesis using assms(1) i e by (simp add: placed_def)
  qed
qed

lemma in_table: "placed bs \<Longrightarrow> bs \<noteq> [] \<Longrightarrow> e \<in> set (concat bs) \<Longrightarrow> e \<in> set (bs ! bucket_index (key_data e) (length bs))"
  unfolding placed_def by (auto simp: in_set_conv_nth[of _ bs])

lemma chain_find_iff:
  assumes "table_inv t"
  shows "chain_find key (buckets t ! bucket_index key (length (buckets t))) = Some e
    \<longleftrightarrow> e \<in> set (all_entries t) \<and> key_data e = key"
proof
  let ?b = "bucket_index key (length (buckets t))"
  have b: "?b < length (buckets t)" using table_invD(1)[OF assms] by (simp add: bucket_index_less)
  show "e \<in> set (all_entries t) \<and> key_data e = key" if f: "chain_find key (buckets t ! ?b) = Some e"
    using f b nth_mem[OF b] by (auto simp: chain_find_def find_Some_iff dest: nth_mem)
  assume e: "e \<in> set (all_entries t) \<and> key_data e = key"
  then have "e \<in> set (buckets t ! ?b)" using in_table[OF table_invD(2,1)[OF assms]] by auto
  then obtain e' where e': "chain_find key (buckets t ! ?b) = Some e'"
    using e by (cases "chain_find key (buckets t ! ?b)") (auto simp: chain_find_def find_None_iff)
  then have "e' \<in> set (all_entries t)" "key_data e' = key"
    using b nth_mem[OF b] by (auto simp: chain_find_def find_Some_iff dest: nth_mem)
  then have "e' = e" using e table_invD(3)[OF assms] by (metis distinct_map inj_onD)
  then show "chain_find key (buckets t ! ?b) = Some e" using e' by simp
qed

lemma chain_find_none:
  assumes "table_inv t"
  shows "chain_find key (buckets t ! bucket_index key (length (buckets t))) = None
    \<longleftrightarrow> key \<notin> key_data ` set (all_entries t)"
  using chain_find_iff[OF assms, of key] by (metis (no_types, lifting) imageE image_eqI not_None_eq option.simps(3))

text \<open>What a lookup finds.\<close>

lemma get_iff:
  assumes "table_inv t"
  shows "leptris_hash_table_get t key = Some v \<longleftrightarrow> (\<exists>e \<in> set (all_entries t). key_data e = key \<and> cached_string e = Some v)"
proof (cases "key = []")
  case True
  have "key_data e \<noteq> []" if "e \<in> set (all_entries t)" for e
    using that table_invD(2)[OF assms] by (auto simp: placed_def in_set_conv_nth[of _ "buckets t"])
  then show ?thesis using True by (auto simp: leptris_hash_table_get_def)
next
  case False
  then show ?thesis
    using chain_find_iff[OF assms, of key] by (fastforce simp: leptris_hash_table_get_def split: option.splits)
qed

lemma get_eqI:
  assumes "table_inv t" "table_inv t'" "set (all_entries t') = set (all_entries t)"
  shows "leptris_hash_table_get t' = leptris_hash_table_get t"
proof
  fix key
  have "leptris_hash_table_get t' key = Some v \<longleftrightarrow> leptris_hash_table_get t key = Some v" for v
    unfolding get_iff[OF assms(1)] get_iff[OF assms(2)] assms(3) ..
  then show "leptris_hash_table_get t' key = leptris_hash_table_get t key"
    by (metis not_None_eq)
qed

section \<open>Growth\<close>

lemma rehash_entry_facts:
  assumes "placed new" "new \<noteq> []" "key_data e \<noteq> []"
  shows "placed (rehash_entry e new)" "length (rehash_entry e new) = length new"
    "mset (concat (rehash_entry e new)) = add_mset e (mset (concat new))"
proof -
  let ?b = "bucket_index (key_data e) (length new)"
  have b: "?b < length new" using assms(2) by (simp add: bucket_index_less)
  show "placed (rehash_entry e new)"
    unfolding rehash_entry_def Let_def by (rule placed_update[OF assms(1) b]) (use assms(3) in auto)
  show "length (rehash_entry e new) = length new" by (simp add: rehash_entry_def Let_def)
  show "mset (concat (rehash_entry e new)) = add_mset e (mset (concat new))"
    using mset_update[OF b] by (simp add: rehash_entry_def Let_def)
qed

lemma rehash_entries:
  "placed new \<Longrightarrow> new \<noteq> [] \<Longrightarrow> \<forall>e \<in> set es. key_data e \<noteq> [] \<Longrightarrow>
    placed (fold rehash_entry es new) \<and> length (fold rehash_entry es new) = length new
    \<and> mset (concat (fold rehash_entry es new)) = mset es + mset (concat new)"
proof (induction es arbitrary: new)
  case (Cons e es)
  note f = rehash_entry_facts[OF Cons.prems(1,2), of e]
  have "rehash_entry e new \<noteq> []" using f(2) Cons.prems by auto
  then show ?case using Cons.IH[OF f(1)] f Cons.prems(3) by simp
qed simp

lemma rehash_chains:
  "placed new \<Longrightarrow> new \<noteq> [] \<Longrightarrow> \<forall>e \<in> set (concat old). key_data e \<noteq> [] \<Longrightarrow>
    placed (fold (\<lambda>chain new. fold rehash_entry chain new) old new)
    \<and> length (fold (\<lambda>chain new. fold rehash_entry chain new) old new) = length new
    \<and> mset (concat (fold (\<lambda>chain new. fold rehash_entry chain new) old new)) = mset (concat old) + mset (concat new)"
proof (induction old arbitrary: new)
  case (Cons c old)
  have f: "placed (fold rehash_entry c new)" "length (fold rehash_entry c new) = length new"
    "mset (concat (fold rehash_entry c new)) = mset c + mset (concat new)"
    using rehash_entries[OF Cons.prems(1,2), of c] Cons.prems(3) by simp_all
  have "fold rehash_entry c new \<noteq> []" using f(2) Cons.prems(2) by auto
  then show ?case using Cons.IH[OF f(1)] f Cons.prems(3) by (simp add: ac_simps)
qed simp

lemma rehash_facts:
  assumes "placed old" "n \<noteq> 0"
  shows "placed (rehash old n)" "length (rehash old n) = n" "mset (concat (rehash old n)) = mset (concat old)"
proof -
  have p: "placed (replicate n [])" by (simp add: placed_def)
  have e: "replicate n ([] :: 'a hash_entry list) \<noteq> []" using assms(2) by simp
  have k: "\<forall>e \<in> set (concat old). key_data e \<noteq> []"
    using assms(1) by (auto simp: placed_def in_set_conv_nth[of _ old])
  have c: "concat (replicate n ([] :: 'a hash_entry list)) = []" by simp
  show "placed (rehash old n)" "length (rehash old n) = n" "mset (concat (rehash old n)) = mset (concat old)"
    using rehash_chains[OF p e k] unfolding rehash_def c by simp_all
qed

lemma grow_facts:
  assumes "table_inv t"
  shows "table_inv (hash_table_maybe_grow mem pool t)"
    "mset (all_entries (hash_table_maybe_grow mem pool t)) = mset (all_entries t)"
    "entry_count (hash_table_maybe_grow mem pool t) = entry_count t"
proof -
  let ?n = "length (buckets t) * 2"
  have n: "?n \<noteq> 0" using table_invD(1)[OF assms] by simp
  note r = rehash_facts[OF table_invD(2)[OF assms] n]
  have "rehash (buckets t) ?n \<noteq> []" using r(2) n by (metis list.size(3))
  moreover have "mset (map key_data (concat (rehash (buckets t) ?n))) = mset (map key_data (all_entries t))"
    using r(3) by (metis mset_map)
  then have "distinct (map key_data (concat (rehash (buckets t) ?n)))"
    using table_invD(3)[OF assms] mset_eq_imp_distinct_iff by blast
  moreover have "length (concat (rehash (buckets t) ?n)) = length (all_entries t)" using r(3) by (rule mset_eq_length)
  ultimately have "table_inv (t\<lparr>buckets := rehash (buckets t) ?n\<rparr>)"
    using r(1) table_invD(4)[OF assms] by (simp add: table_inv_def)
  then show "table_inv (hash_table_maybe_grow mem pool t)"
    "mset (all_entries (hash_table_maybe_grow mem pool t)) = mset (all_entries t)"
    "entry_count (hash_table_maybe_grow mem pool t) = entry_count t"
    using assms r(3) by (simp_all add: hash_table_maybe_grow_def Let_def)
qed

section \<open>Insertion and removal\<close>

lemma chain_set_map: "distinct (map key_data c) \<Longrightarrow>
    chain_set key v c = map (\<lambda>e. if key_data e = key then e\<lparr>cached_string := v\<rparr> else e) c"
proof (induction c)
  case (Cons e c)
  show ?case
  proof (cases "key_data e = key")
    case True
    then have "key \<notin> key_data ` set c" using Cons.prems by simp
    then have "\<forall>x \<in> set c. key_data x \<noteq> key" by (metis imageI)
    then have "map (\<lambda>e. if key_data e = key then e\<lparr>cached_string := v\<rparr> else e) c = c" by (intro map_idI) simp
    then show ?thesis using True by simp
  qed (use Cons in simp)
qed simp

lemma chain_remove_filter: "distinct (map key_data c) \<Longrightarrow> chain_remove key c = filter (\<lambda>e. key_data e \<noteq> key) c"
proof (induction c)
  case (Cons e c)
  show ?case
  proof (cases "key_data e = key")
    case True
    then have "key \<notin> key_data ` set c" using Cons.prems by simp
    then have "\<forall>x \<in> set c. key_data x \<noteq> key" by (metis imageI)
    then have "filter (\<lambda>e. key_data e \<noteq> key) c = c" by (intro filter_True)
    then show ?thesis using True by simp
  qed (use Cons in simp)
qed simp

text \<open>The other buckets do not hold the key.\<close>

lemma parts:
  assumes "table_inv t" "b = bucket_index key (length (buckets t))"
  shows "b < length (buckets t)" "distinct (map key_data (buckets t ! b))"
    "\<forall>e \<in> set (concat (take b (buckets t)) @ concat (drop (Suc b) (buckets t))). key_data e \<noteq> key"
proof -
  show b: "b < length (buckets t)" using table_invD(1)[OF assms(1)] assms(2) by (simp add: bucket_index_less)
  have all: "all_entries t = concat (take b (buckets t)) @ buckets t ! b @ concat (drop (Suc b) (buckets t))"
    by (rule concat_update(2)[OF b])
  show "distinct (map key_data (buckets t ! b))"
    using table_invD(3)[OF assms(1)] unfolding all by simp
  have "key_data e \<noteq> key" if e: "e \<in> set (concat (take b (buckets t)) @ concat (drop (Suc b) (buckets t)))" for e
  proof
    assume k: "key_data e = key"
    have "e \<in> set (all_entries t)" using e unfolding all by auto
    then have "e \<in> set (buckets t ! b)" using in_table[OF table_invD(2,1)[OF assms(1)], of e] k assms(2) by simp
    then have 1: "key_data e \<in> set (map key_data (buckets t ! b))" by simp
    have 2: "key_data e \<in> set (map key_data (concat (take b (buckets t))) @ map key_data (concat (drop (Suc b) (buckets t))))"
      using e by (simp only: map_append[symmetric] set_map imageI)
    have "distinct (l @ c @ r) \<Longrightarrow> x \<in> set c \<Longrightarrow> x \<notin> set (l @ r)" for l c r :: "bytes list" and x by auto
    from this[OF _ 1] 2 show False using table_invD(3)[OF assms(1)] unfolding all map_append by blast
  qed
  then show "\<forall>e \<in> set (concat (take b (buckets t)) @ concat (drop (Suc b) (buckets t))). key_data e \<noteq> key" by blast
qed

lemma update_entries:
  assumes "table_inv t" "b = bucket_index key (length (buckets t))"
  shows "concat ((buckets t)[b := chain_set key v (buckets t ! b)]) =
    map (\<lambda>e. if key_data e = key then e\<lparr>cached_string := v\<rparr> else e) (all_entries t)"
    "concat ((buckets t)[b := chain_remove key (buckets t ! b)]) = filter (\<lambda>e. key_data e \<noteq> key) (all_entries t)"
proof -
  note p = parts[OF assms]
  let ?l = "concat (take b (buckets t))" and ?r = "concat (drop (Suc b) (buckets t))"
  let ?f = "\<lambda>e. if key_data e = key then e\<lparr>cached_string := v\<rparr> else e"
  have all: "all_entries t = ?l @ buckets t ! b @ ?r" by (rule concat_update(2)[OF p(1)])
  have "map ?f ?l = ?l" "map ?f ?r = ?r" using p(3) by (intro map_idI; auto)+
  then show "concat ((buckets t)[b := chain_set key v (buckets t ! b)]) = map ?f (all_entries t)"
    unfolding all concat_update(1)[OF p(1)] chain_set_map[OF p(2)] by (simp only: map_append)
  have "filter (\<lambda>e. key_data e \<noteq> key) ?l = ?l" "filter (\<lambda>e. key_data e \<noteq> key) ?r = ?r"
    using p(3) by (intro filter_True; auto)+
  then show "concat ((buckets t)[b := chain_remove key (buckets t ! b)]) = filter (\<lambda>e. key_data e \<noteq> key) (all_entries t)"
    unfolding all concat_update(1)[OF p(1)] chain_remove_filter[OF p(2)] by (simp only: filter_append)
qed

lemma table_invI:
  "bs \<noteq> [] \<Longrightarrow> placed bs \<Longrightarrow> distinct (map key_data (concat bs)) \<Longrightarrow> buckets t = bs \<Longrightarrow>
    entry_count t = length (concat bs) \<Longrightarrow> table_inv t"
  by (simp add: table_inv_def)

lemma get_ext: "(\<And>k w. leptris_hash_table_get t k = Some w \<longleftrightarrow> m k = Some w) \<Longrightarrow> leptris_hash_table_get t = m"
  by (intro ext) (metis not_None_eq)

lemma replaced_value:
  assumes inv: "table_inv t" and p: "key \<in> key_data ` set (all_entries t)"
    and b: "b = bucket_index key (length (buckets t))"
  shows "table_inv (t\<lparr>buckets := (buckets t)[b := chain_set key v (buckets t ! b)]\<rparr>)"
    "leptris_hash_table_get (t\<lparr>buckets := (buckets t)[b := chain_set key v (buckets t ! b)]\<rparr>) = (leptris_hash_table_get t)(key := v)"
proof -
  let ?bs = "(buckets t)[b := chain_set key v (buckets t ! b)]"
  let ?f = "\<lambda>e. if key_data e = key then e\<lparr>cached_string := v\<rparr> else e"
  let ?t = "t\<lparr>buckets := ?bs\<rparr>"
  note u = update_entries(1)[OF inv b, of v]
  have keys: "map key_data (map ?f (all_entries t)) = map key_data (all_entries t)"
    unfolding map_map by (rule map_cong) simp_all
  have pl: "placed ?bs"
    by (rule placed_update[OF table_invD(2)[OF inv] parts(1)[OF inv b]])
      (auto simp: chain_set_map[OF parts(2)[OF inv b]] split: if_splits)
  have d: "distinct (map key_data (concat ?bs))" unfolding u keys by (rule table_invD(3)[OF inv])
  have n: "entry_count ?t = length (concat ?bs)" unfolding u using table_invD(4)[OF inv] by simp
  have ne: "?bs \<noteq> []" using table_invD(1)[OF inv] by simp
  show inv': "table_inv ?t" by (rule table_invI[OF ne pl d _ n]) simp
  have all: "all_entries ?t = map ?f (all_entries t)" using u by simp
  show "leptris_hash_table_get ?t = (leptris_hash_table_get t)(key := v)"
  proof (rule get_ext)
    fix k w
    have "leptris_hash_table_get ?t k = Some w \<longleftrightarrow>
        (\<exists>e \<in> set (all_entries t). key_data (?f e) = k \<and> cached_string (?f e) = Some w)"
      unfolding get_iff[OF inv'] all by (simp only: set_map bex_simps)
    also have "\<dots> \<longleftrightarrow> ((leptris_hash_table_get t)(key := v)) k = Some w"
    proof (cases "k = key")
      case True
      obtain e where "e \<in> set (all_entries t)" "key_data e = key" using p by (rule imageE) simp
      then show ?thesis using True by (auto split: if_splits)
    next
      case False
      then show ?thesis using get_iff[OF inv, of k w] by (auto split: if_splits)
    qed
    finally show "leptris_hash_table_get ?t k = Some w \<longleftrightarrow> ((leptris_hash_table_get t)(key := v)) k = Some w" .
  qed
qed

lemma removed_entry:
  assumes inv: "table_inv t" and p: "key \<in> key_data ` set (all_entries t)"
    and b: "b = bucket_index key (length (buckets t))"
  defines "t' \<equiv> t\<lparr>buckets := (buckets t)[b := chain_remove key (buckets t ! b)], entry_count := entry_count t - 1\<rparr>"
  shows "table_inv t'" "leptris_hash_table_get t' = (leptris_hash_table_get t)(key := None)"
proof -
  let ?g = "filter (\<lambda>e. key_data e \<noteq> key) (all_entries t)"
  have all: "all_entries t' = ?g" using update_entries(2)[OF inv b] by (simp add: t'_def)
  have pl: "placed (buckets t')"
    using placed_update[OF table_invD(2)[OF inv] parts(1)[OF inv b], of "chain_remove key (buckets t ! b)"]
    by (simp add: t'_def chain_remove_filter[OF parts(2)[OF inv b]])
  have d: "distinct (map key_data ?g)" by (rule distinct_map_filter[OF table_invD(3)[OF inv]])
  obtain e where e: "e \<in> set (all_entries t)" "key_data e = key" using p by auto
  have "distinct (all_entries t)" using table_invD(3)[OF inv] by (simp add: distinct_map)
  then have "length ?g = length (all_entries t) - 1"
  proof -
    have "?g = remove1 e (all_entries t)"
    proof -
      have "x \<in> set (all_entries t) \<Longrightarrow> key_data x \<noteq> key \<longleftrightarrow> x \<noteq> e" for x
        using e table_invD(3)[OF inv] by (metis distinct_map inj_onD)
      then have "?g = filter (\<lambda>x. x \<noteq> e) (all_entries t)" by (intro filter_cong) auto
      also have "\<dots> = removeAll e (all_entries t)" by (simp add: removeAll_filter_not_eq eq_commute)
      also have "\<dots> = remove1 e (all_entries t)"
        using \<open>distinct (all_entries t)\<close> by (simp add: distinct_remove1_removeAll)
      finally show ?thesis .
    qed
    then show ?thesis using e(1) by (simp add: length_remove1)
  qed
  then show inv': "table_inv t'"
    using pl d all table_invD(1,4)[OF inv] unfolding table_inv_def by (simp add: t'_def)
  have "leptris_hash_table_get t' k = Some w \<longleftrightarrow> ((leptris_hash_table_get t)(key := None)) k = Some w" for k w
    using get_iff[OF inv', of k w] get_iff[OF inv, of k w] unfolding all by auto
  then show "leptris_hash_table_get t' = (leptris_hash_table_get t)(key := None)"
    by (rule get_ext)
qed

lemma prepended_entry:
  assumes inv: "table_inv t" and k: "key \<noteq> []" "key \<notin> key_data ` set (all_entries t)"
  shows "table_inv (prepend_entry key v t)" "leptris_hash_table_get (prepend_entry key v t) = (leptris_hash_table_get t)(key := v)"
    "mset (all_entries (prepend_entry key v t)) = add_mset \<lparr>key_data = key, cached_string = v\<rparr> (mset (all_entries t))"
proof -
  let ?b = "bucket_index key (length (buckets t))" and ?e = "\<lparr>key_data = key, cached_string = v\<rparr>"
  note b = parts(1)[OF inv refl, of key]
  show m: "mset (all_entries (prepend_entry key v t)) = add_mset ?e (mset (all_entries t))"
    using mset_update[OF b] by (simp add: prepend_entry_def Let_def)
  then have s: "set (all_entries (prepend_entry key v t)) = insert ?e (set (all_entries t))"
    by (metis set_mset_add_mset_insert set_mset_mset)
  have "placed (buckets (prepend_entry key v t))"
  proof -
    have "placed ((buckets t)[?b := ?e # buckets t ! ?b])"
      by (rule placed_update[OF table_invD(2)[OF inv] b]) (use k(1) in auto)
    then show ?thesis by (simp add: prepend_entry_def Let_def)
  qed
  moreover have "mset (map key_data (all_entries (prepend_entry key v t))) = mset (key # map key_data (all_entries t))"
    using arg_cong[OF m, of "image_mset key_data"] by (simp only: mset_map image_mset_add_mset mset.simps hash_entry.simps)
  then have "distinct (map key_data (all_entries (prepend_entry key v t)))"
    using mset_eq_imp_distinct_iff table_invD(3)[OF inv] k(2) by fastforce
  moreover have "length (all_entries (prepend_entry key v t)) = Suc (length (all_entries t))"
    using mset_eq_length[of _ "?e # all_entries t"] m by simp
  ultimately show inv': "table_inv (prepend_entry key v t)"
    using table_invD(1,4)[OF inv] unfolding table_inv_def by (simp add: prepend_entry_def Let_def)
  have "leptris_hash_table_get (prepend_entry key v t) x = Some w \<longleftrightarrow> ((leptris_hash_table_get t)(key := v)) x = Some w" for x w
    using get_iff[OF inv', of x w] get_iff[OF inv, of x w] k(2) unfolding s by auto
  then show "leptris_hash_table_get (prepend_entry key v t) = (leptris_hash_table_get t)(key := v)"
    by (rule get_ext)
qed

lemma grow_get: "table_inv t \<Longrightarrow> leptris_hash_table_get (hash_table_maybe_grow mem pool t) = leptris_hash_table_get t"
  by (rule get_eqI[OF _ grow_facts(1)]) (simp_all only: mset_eq_setD[OF grow_facts(2)])

section \<open>The operations on the map\<close>

text \<open>What every caller may rely on: allocations that succeed.\<close>

definition mem_ok :: "(nat \<Rightarrow> bool) \<Rightarrow> bool" where
  "mem_ok mem \<longleftrightarrow> mem 0 \<and> mem 1"

lemma set_facts:
  assumes inv: "table_inv t" and k: "key \<noteq> []" and m: "mem_ok mem \<or> key \<in> key_data ` set (all_entries t)"
  obtains t' where "leptris_hash_table_set mem pool key v t = (True, t')" "table_inv t'"
    "leptris_hash_table_get t' = (leptris_hash_table_get t)(key := v)"
proof (cases "key \<in> key_data ` set (all_entries t)")
  case True
  then obtain e where "chain_find key (buckets t ! bucket_index key (length (buckets t))) = Some e"
    using chain_find_none[OF inv, of key] by blast
  then show ?thesis
    using that replaced_value[OF inv True refl] k by (simp add: leptris_hash_table_set_def Let_def)
next
  case False
  then have "chain_find key (buckets t ! bucket_index key (length (buckets t))) = None"
    using chain_find_none[OF inv, of key] by blast
  then have "leptris_hash_table_set mem pool key v t = (True, hash_table_maybe_grow (mem 2) pool (prepend_entry key v t))"
    using k m False by (simp add: leptris_hash_table_set_def Let_def mem_ok_def)
  then show ?thesis
    by (rule that) (simp_all add: grow_facts(1) grow_get prepended_entry[OF inv k False])
qed

lemma keys_nonempty: "table_inv t \<Longrightarrow> e \<in> set (all_entries t) \<Longrightarrow> key_data e \<noteq> []"
  unfolding table_inv_def placed_def by (auto simp: in_set_conv_nth[of _ "buckets t"])

lemma get_absent: "table_inv t \<Longrightarrow> key \<notin> key_data ` set (all_entries t) \<Longrightarrow> leptris_hash_table_get t key = None"
  using get_iff[of t key] by (metis imageI not_None_eq)

lemma remove_facts:
  assumes inv: "table_inv t"
  shows "table_inv (snd (leptris_hash_table_remove key t)) \<and>
    leptris_hash_table_get (snd (leptris_hash_table_remove key t)) = (leptris_hash_table_get t)(key := None) \<and>
    (fst (leptris_hash_table_remove key t) \<longleftrightarrow> key \<in> key_data ` set (all_entries t))"
proof (cases "key \<in> key_data ` set (all_entries t)")
  case True
  then obtain e where e: "chain_find key (buckets t ! bucket_index key (length (buckets t))) = Some e"
    using chain_find_none[OF inv, of key] by blast
  have "key \<noteq> []" using True keys_nonempty[OF inv] by (metis imageE)
  then show ?thesis
    using e True removed_entry[OF inv True refl] by (simp add: leptris_hash_table_remove_def Let_def)
next
  case False
  then have "chain_find key (buckets t ! bucket_index key (length (buckets t))) = None"
    using chain_find_none[OF inv, of key] by blast
  then have "leptris_hash_table_remove key t = (False, t)" by (simp add: leptris_hash_table_remove_def Let_def)
  then show ?thesis using inv False get_absent[OF inv False] by (simp add: fun_upd_idem)
qed

definition table_put :: "bytes \<Rightarrow> 'v \<Rightarrow> 'v hash_table \<Rightarrow> 'v hash_table" where
  "table_put key v t = snd (leptris_hash_table_set (\<lambda>_. True) True key (Some v) t)"

definition table_drop :: "bytes \<Rightarrow> 'v hash_table \<Rightarrow> 'v hash_table" where
  "table_drop key t = snd (leptris_hash_table_remove key t)"

lemma put_facts:
  assumes "table_inv t" "key \<noteq> []"
  shows "table_inv (table_put key v t)" "leptris_hash_table_get (table_put key v t) = (leptris_hash_table_get t)(key \<mapsto> v)"
proof -
  obtain t' where "leptris_hash_table_set (\<lambda>_. True) True key (Some v) t = (True, t')" "table_inv t'"
    "leptris_hash_table_get t' = (leptris_hash_table_get t)(key := Some v)"
    by (rule set_facts[OF assms, of "\<lambda>_. True" True "Some v"]) (simp_all add: mem_ok_def)
  then show "table_inv (table_put key v t)" "leptris_hash_table_get (table_put key v t) = (leptris_hash_table_get t)(key \<mapsto> v)"
    by (simp_all add: table_put_def)
qed

interpretation strings: assoc_store_del leptris_hash_table_get table_put table_inv "\<lambda>key. key \<noteq> []" "\<lambda>_ _ _. True" table_drop
  by unfold_locales (simp_all add: put_facts remove_facts table_drop_def)

section \<open>Sequences of operations\<close>

datatype 'v table_op = Set_key "nat \<Rightarrow> bool" bytes 'v | Remove_key bytes

definition table_step :: "'v table_op \<Rightarrow> 'v hash_table \<Rightarrow> 'v hash_table" where
  "table_step op t =
    (case op of
       Set_key mem key v \<Rightarrow> snd (leptris_hash_table_set mem True key (Some v) t)
     | Remove_key key \<Rightarrow> snd (leptris_hash_table_remove key t))"

text \<open>An insertion is lost only where the key is empty, or new and its memory cannot be had.\<close>

definition map_step :: "'v table_op \<Rightarrow> (bytes \<rightharpoonup> 'v) \<Rightarrow> bytes \<rightharpoonup> 'v" where
  "map_step op m =
    (case op of
       Set_key mem key v \<Rightarrow> if key = [] \<or> key \<notin> dom m \<and> \<not> (mem 0 \<and> mem 1) then m else m(key \<mapsto> v)
     | Remove_key key \<Rightarrow> m(key := None))"

definition no_nulls :: "'v hash_table \<Rightarrow> bool" where
  "no_nulls t \<longleftrightarrow> key_data ` set (all_entries t) = dom (leptris_hash_table_get t)"

abbreviation table_keys :: "'v hash_table \<Rightarrow> bytes set" where
  "table_keys t \<equiv> key_data ` set (all_entries t)"

lemma set_keys:
  assumes inv: "table_inv t" and k: "key \<noteq> []" and m: "mem_ok mem \<or> key \<in> table_keys t"
  shows "table_keys (snd (leptris_hash_table_set mem pool key v t)) = insert key (table_keys t)"
proof (cases "key \<in> table_keys t")
  case True
  let ?b = "bucket_index key (length (buckets t))" and ?f = "\<lambda>e. if key_data e = key then e\<lparr>cached_string := v\<rparr> else e"
  obtain e where "chain_find key (buckets t ! ?b) = Some e"
    using chain_find_none[OF inv, of key] True by blast
  then have "all_entries (snd (leptris_hash_table_set mem pool key v t)) = map ?f (all_entries t)"
    using k update_entries(1)[OF inv refl, of key v] by (simp add: leptris_hash_table_set_def Let_def)
  then have "table_keys (snd (leptris_hash_table_set mem pool key v t)) = (\<lambda>e. key_data (?f e)) ` set (all_entries t)"
    by (simp only: set_map image_image)
  also have "\<dots> = table_keys t" by (rule image_cong) simp_all
  finally show ?thesis using True by (simp only: insert_absorb)
next
  case False
  then have "chain_find key (buckets t ! bucket_index key (length (buckets t))) = None"
    using chain_find_none[OF inv, of key] by blast
  then have s: "snd (leptris_hash_table_set mem pool key v t) = hash_table_maybe_grow (mem 2) pool (prepend_entry key v t)"
    using k m False by (simp add: leptris_hash_table_set_def Let_def mem_ok_def)
  have "set (all_entries (prepend_entry key v t)) = insert \<lparr>key_data = key, cached_string = v\<rparr> (set (all_entries t))"
    using prepended_entry(3)[OF inv k False] by (metis set_mset_add_mset_insert set_mset_mset)
  then show ?thesis
    unfolding s using mset_eq_setD[OF grow_facts(2)[OF prepended_entry(1)[OF inv k False]]] by simp
qed

lemma remove_keys:
  assumes inv: "table_inv t"
  shows "table_keys (snd (leptris_hash_table_remove key t)) = table_keys t - {key}"
proof (cases "key \<in> table_keys t")
  case True
  then obtain e where e: "chain_find key (buckets t ! bucket_index key (length (buckets t))) = Some e"
    using chain_find_none[OF inv, of key] by blast
  have "key \<noteq> []" using True keys_nonempty[OF inv] by (metis imageE)
  then have "all_entries (snd (leptris_hash_table_remove key t)) = filter (\<lambda>e. key_data e \<noteq> key) (all_entries t)"
    using e update_entries(2)[OF inv refl, of key] by (simp add: leptris_hash_table_remove_def Let_def)
  then show ?thesis by auto
next
  case False
  then have "chain_find key (buckets t ! bucket_index key (length (buckets t))) = None"
    using chain_find_none[OF inv, of key] by blast
  then have "leptris_hash_table_remove key t = (False, t)" by (simp add: leptris_hash_table_remove_def Let_def)
  then show ?thesis using False by simp
qed

lemma step_refines:
  assumes inv: "table_inv t" and n: "no_nulls t"
  shows "table_inv (table_step op t)" "no_nulls (table_step op t)"
    "leptris_hash_table_get (table_step op t) = map_step op (leptris_hash_table_get t)"
proof (atomize (full), cases op)
  case (Set_key mem key v)
  let ?lost = "key = [] \<or> key \<notin> table_keys t \<and> \<not> mem_ok mem"
  have d: "table_keys t = dom (leptris_hash_table_get t)" using n by (simp only: no_nulls_def)
  show "table_inv (table_step op t) \<and> no_nulls (table_step op t) \<and>
    leptris_hash_table_get (table_step op t) = map_step op (leptris_hash_table_get t)"
  proof (cases ?lost)
    case True
    then have "leptris_hash_table_set mem True key (Some v) t = (False, t)"
      using chain_find_none[OF inv, of key] by (auto simp: leptris_hash_table_set_def Let_def mem_ok_def split: option.splits)
    then show ?thesis using Set_key inv n True d by (auto simp: table_step_def map_step_def mem_ok_def)
  next
    case False
    then have k: "key \<noteq> []" and m: "mem_ok mem \<or> key \<in> table_keys t" by blast+
    obtain t' where t': "leptris_hash_table_set mem True key (Some v) t = (True, t')" "table_inv t'"
      "leptris_hash_table_get t' = (leptris_hash_table_get t)(key := Some v)"
      by (rule set_facts[OF inv k m])
    have "table_keys t' = insert key (table_keys t)" using set_keys[OF inv k m, of True "Some v"] t'(1) by simp
    then have "no_nulls t'" using d t'(3) by (simp only: no_nulls_def dom_fun_upd) simp
    then show ?thesis using Set_key t' False d by (auto simp: table_step_def map_step_def mem_ok_def)
  qed
next
  case (Remove_key key)
  have d: "table_keys t = dom (leptris_hash_table_get t)" using n by (simp only: no_nulls_def)
  have "no_nulls (snd (leptris_hash_table_remove key t))"
    using remove_keys[OF inv, of key] remove_facts[OF inv, of key] d unfolding no_nulls_def by (simp only: dom_fun_upd) simp
  then show "table_inv (table_step op t) \<and> no_nulls (table_step op t) \<and>
    leptris_hash_table_get (table_step op t) = map_step op (leptris_hash_table_get t)"
    using Remove_key remove_facts[OF inv, of key] by (simp add: table_step_def map_step_def)
qed

lemma created_table:
  assumes "leptris_hash_table_create mem pool n = Some t"
  shows "table_inv t" "no_nulls t" "leptris_hash_table_get t = Map.empty"
proof -
  have n: "n \<noteq> 0" and t: "t = \<lparr>buckets = replicate n [], entry_count = 0, cache_hits = 0, cache_misses = 0\<rparr>"
    using assms by (auto simp: leptris_hash_table_create_def split: if_splits)
  show inv: "table_inv t" using n unfolding t table_inv_def by (simp add: placed_def)
  show g: "leptris_hash_table_get t = Map.empty"
    by (intro ext) (rule get_absent[OF inv], simp add: t)
  show "no_nulls t" using g by (simp add: no_nulls_def t)
qed

lemma run_refines:
  "table_inv t \<Longrightarrow> no_nulls t \<Longrightarrow>
    table_inv (fold table_step ops t) \<and> no_nulls (fold table_step ops t)
    \<and> leptris_hash_table_get (fold table_step ops t) = fold map_step ops (leptris_hash_table_get t)"
proof (induction ops arbitrary: t)
  case (Cons op ops)
  note s = step_refines[OF Cons.prems, of op]
  show ?case using Cons.IH[OF s(1,2)] s(3) by simp
qed simp

text \<open>
  C4. The hash table refines a map: after any sequence of insertions and removals on a new table,
  through every growth of the bucket array and every failed allocation, a lookup of any key gives
  what the same sequence of map updates gives, an insertion being lost only for an empty key or a
  new key without memory.
\<close>

theorem hash_table_refines_map:
  assumes "leptris_hash_table_create mem pool n = Some t"
  shows "leptris_hash_table_get (fold table_step ops t) = fold map_step ops Map.empty"
  using run_refines[OF created_table(1,2)[OF assms], of ops] created_table(3)[OF assms] by simp

theorem hash_table_refines_map_witness:
  "\<exists>t :: nat hash_table. leptris_hash_table_create (\<lambda>_. True) True 1 = Some t
    \<and> leptris_hash_table_get (fold table_step [Set_key (\<lambda>_. True) [0x61] 1, Set_key (\<lambda>_. True) [0x62] 2, Remove_key [0x61]] t) [0x62] = Some 2"
proof -
  obtain t :: "nat hash_table" where t: "leptris_hash_table_create (\<lambda>_. True) True 1 = Some t"
    by (simp add: leptris_hash_table_create_def)
  from hash_table_refines_map[OF t, of "[Set_key (\<lambda>_. True) [0x61] 1, Set_key (\<lambda>_. True) [0x62] 2, Remove_key [0x61]]"]
  show ?thesis using t by (auto simp: map_step_def)
qed

section \<open>Iteration\<close>

lemma chain_each_append:
  "chain_each iter (xs @ ys) s = (case chain_each iter xs s of (False, s) \<Rightarrow> (False, s) | (True, s) \<Rightarrow> chain_each iter ys s)"
  by (induction xs arbitrary: s) (auto split: prod.splits bool.splits)

lemma bucket_each_concat: "bucket_each iter bs s = chain_each iter (concat bs) s"
  by (induction bs arbitrary: s) (auto simp: chain_each_append split: prod.splits bool.splits)

lemma chain_each_all: "chain_each (\<lambda>key v s. (True, f key v s)) es s = (True, fold (\<lambda>e. f (key_data e) (cached_string e)) es s)"
  by (induction es arbitrary: s) simp_all

lemma entry_value:
  assumes inv: "table_inv t" and n: "no_nulls t" and e: "e \<in> set (all_entries t)"
  shows "leptris_hash_table_get t (key_data e) = cached_string e" "cached_string e \<noteq> None"
proof -
  have "key_data e \<in> dom (leptris_hash_table_get t)" using n e unfolding no_nulls_def by (metis imageI)
  then obtain v where v: "leptris_hash_table_get t (key_data e) = Some v" by (auto simp: dom_def)
  then obtain e' where e': "e' \<in> set (all_entries t)" "key_data e' = key_data e" "cached_string e' = Some v"
    unfolding get_iff[OF inv] by (rule bexE) simp
  have "e' = e" using e' e table_invD(3)[OF inv] by (metis distinct_map inj_onD)
  then show "leptris_hash_table_get t (key_data e) = cached_string e" "cached_string e \<noteq> None" using e'(3) v by simp_all
qed

lemma entry_values:
  assumes inv: "table_inv t" and n: "no_nulls t"
  shows "(key, v) \<in> (\<lambda>e. (key_data e, cached_string e)) ` set (all_entries t)
    \<longleftrightarrow> v \<noteq> None \<and> leptris_hash_table_get t key = v"
proof
  assume "(key, v) \<in> (\<lambda>e. (key_data e, cached_string e)) ` set (all_entries t)"
  then obtain e where "e \<in> set (all_entries t)" "(key, v) = (key_data e, cached_string e)" by (rule imageE)
  then show "v \<noteq> None \<and> leptris_hash_table_get t key = v" using entry_value[OF inv n, of e] by simp
next
  assume v: "v \<noteq> None \<and> leptris_hash_table_get t key = v"
  then obtain w where w: "v = Some w" "leptris_hash_table_get t key = Some w" by (cases v) simp_all
  from w(2)[unfolded get_iff[OF inv]] obtain e where e: "e \<in> set (all_entries t)" "key_data e = key \<and> cached_string e = Some w"
    by (rule bexE)
  have "(key, v) = (\<lambda>e. (key_data e, cached_string e)) e" using e(2) w(1) by simp
  then show "(key, v) \<in> (\<lambda>e. (key_data e, cached_string e)) ` set (all_entries t)" using e(1) by (rule image_eqI)
qed

definition seen_entries :: "'v hash_table \<Rightarrow> (bytes \<times> 'v option) list" where
  "seen_entries t = leptris_hash_table_for_each (\<lambda>key v s. (True, s @ [(key, v)])) t []"

lemma seen_entries_eq: "seen_entries t = map (\<lambda>e. (key_data e, cached_string e)) (all_entries t)"
proof -
  have "fold (\<lambda>e s. s @ [(key_data e, cached_string e)]) es s = s @ map (\<lambda>e. (key_data e, cached_string e)) es"
    for es :: "'a hash_entry list" and s by (induction es arbitrary: s) simp_all
  then show ?thesis
    by (simp add: seen_entries_def leptris_hash_table_for_each_def bucket_each_concat chain_each_all)
qed

text \<open>
  Iteration visits every entry of the table exactly once: an iterator that collects what it is
  shown ends with a list of different keys whose values are those the lookup gives, as many as the
  table counts.
\<close>

theorem for_each_visits_once:
  assumes "leptris_hash_table_create mem pool n = Some t"
  shows "distinct (map fst (seen_entries (fold table_step ops t)))
    \<and> (\<forall>key v. (key, v) \<in> set (seen_entries (fold table_step ops t))
        \<longleftrightarrow> v \<noteq> None \<and> leptris_hash_table_get (fold table_step ops t) key = v)
    \<and> length (seen_entries (fold table_step ops t)) = entry_count (fold table_step ops t)"
proof -
  let ?t = "fold table_step ops t"
  have r: "table_inv ?t" "no_nulls ?t"
    using run_refines[OF created_table(1,2)[OF assms(1)], of ops] by simp_all
  have "map fst (seen_entries ?t) = map key_data (all_entries ?t)"
    by (simp only: seen_entries_eq map_map comp_def fst_conv)
  then have "distinct (map fst (seen_entries ?t))" using table_invD(3)[OF r(1)] by simp
  moreover have "length (seen_entries ?t) = entry_count ?t" unfolding seen_entries_eq length_map by (rule table_invD(4)[OF r(1), symmetric])
  moreover have "(key, v) \<in> set (seen_entries ?t) \<longleftrightarrow> v \<noteq> None \<and> leptris_hash_table_get ?t key = v" for key v
    unfolding seen_entries_eq set_map by (rule entry_values[OF r])
  ultimately show ?thesis by (intro conjI allI)
qed

theorem for_each_visits_once_witness:
  "\<exists>t :: nat hash_table. leptris_hash_table_create (\<lambda>_. True) True 4 = Some t
    \<and> set (seen_entries (fold table_step [Set_key (\<lambda>_. True) [0x61] 1] t)) = {([0x61], Some 1)}"
proof -
  obtain t :: "nat hash_table" where t: "leptris_hash_table_create (\<lambda>_. True) True 4 = Some t"
    by (simp add: leptris_hash_table_create_def)
  let ?ops = "[Set_key (\<lambda>_. True) [0x61] 1] :: nat table_op list"
  have g: "leptris_hash_table_get (fold table_step ?ops t) = [[0x61] \<mapsto> 1]"
    using run_refines[OF created_table(1,2)[OF t], of ?ops] created_table(3)[OF t] by (simp add: map_step_def)
  have "(key, v) \<in> set (seen_entries (fold table_step ?ops t)) \<longleftrightarrow> (key, v) = ([0x61], Some 1)" for key v
    using for_each_visits_once[OF t, of ?ops] unfolding g by (auto split: if_splits)
  then have "set (seen_entries (fold table_step ?ops t)) = {([0x61], Some 1)}" by auto
  then show ?thesis using t by blast
qed

section \<open>Interning\<close>

text \<open>A document's strings interned one after the other, each with the address its copy would get.\<close>

primrec intern_all :: "(bytes \<times> 'v) list \<Rightarrow> 'v hash_table \<Rightarrow> 'v option list \<times> 'v hash_table" where
  "intern_all [] t = ([], t)"
| "intern_all (x # xs) t =
    (case leptris_pool_intern_string (\<lambda>_. True) (snd x) (fst x) (Some t) of
       (r, t1) \<Rightarrow> (case intern_all xs (the t1) of (rs, t2) \<Rightarrow> (r # rs, t2)))"

lemma same_hash: "s \<noteq> [] \<Longrightarrow> hash_string_view s = hash_cstring s"
  by (simp add: hash_string_view_def hash_cstring_def)

lemma counters_kept [simp]:
  "table_inv (t\<lparr>cache_hits := n\<rparr>) = table_inv t" "table_inv (t\<lparr>cache_misses := n\<rparr>) = table_inv t"
  "leptris_hash_table_get (t\<lparr>cache_hits := n\<rparr>) = leptris_hash_table_get t"
  "leptris_hash_table_get (t\<lparr>cache_misses := n\<rparr>) = leptris_hash_table_get t"
  "no_nulls (t\<lparr>cache_hits := n\<rparr>) = no_nulls t" "no_nulls (t\<lparr>cache_misses := n\<rparr>) = no_nulls t"
proof -
  show g: "leptris_hash_table_get (t\<lparr>cache_hits := n\<rparr>) = leptris_hash_table_get t"
    "leptris_hash_table_get (t\<lparr>cache_misses := n\<rparr>) = leptris_hash_table_get t"
    by (intro ext, simp add: leptris_hash_table_get_def)+
  show "table_inv (t\<lparr>cache_hits := n\<rparr>) = table_inv t" "table_inv (t\<lparr>cache_misses := n\<rparr>) = table_inv t"
    by (simp_all add: table_inv_def)
  show "no_nulls (t\<lparr>cache_hits := n\<rparr>) = no_nulls t" "no_nulls (t\<lparr>cache_misses := n\<rparr>) = no_nulls t"
    unfolding no_nulls_def g by simp_all
qed

lemma intern_facts:
  assumes inv: "table_inv t" and nn: "no_nulls t" and s: "s \<noteq> []"
  obtains a t' where "leptris_pool_intern_string (\<lambda>_. True) fresh s (Some t) = (Some a, Some t')" "table_inv t'" "no_nulls t'"
    "leptris_hash_table_get t' = (leptris_hash_table_get t)(s \<mapsto> a)"
    "leptris_hash_table_get t s = Some a \<or> leptris_hash_table_get t s = None \<and> a = fresh"
proof (cases "chain_find s (buckets t ! bucket_index s (length (buckets t)))")
  case (Some e)
  then have e: "e \<in> set (all_entries t)" "key_data e = s" using chain_find_iff[OF inv, of s e] by blast+
  have g: "leptris_hash_table_get t s = cached_string e"
    using Some s by (simp add: leptris_hash_table_get_def)
  obtain a where a: "leptris_hash_table_get t s = Some a" using nn e unfolding no_nulls_def by blast
  show ?thesis
    by (rule that[of a "t\<lparr>cache_hits := cache_hits t + 1\<rparr>"])
      (use Some s g a inv nn in \<open>simp_all add: leptris_pool_intern_string_def same_hash bucket_index_def fun_upd_idem\<close>)
next
  case None
  then have k: "s \<notin> table_keys t" using chain_find_none[OF inv, of s] by blast
  let ?t = "t\<lparr>cache_misses := cache_misses t + 1\<rparr>"
  have inv': "table_inv ?t" and k': "s \<notin> table_keys ?t" using inv k by simp_all
  note p = prepended_entry[OF inv' s k', of "Some fresh"]
  let ?g = "hash_table_maybe_grow True True (prepend_entry s (Some fresh) ?t)"
  have get: "leptris_hash_table_get ?g = (leptris_hash_table_get t)(s \<mapsto> fresh)" using grow_get[OF p(1)] p(2) by simp
  have "set (all_entries (prepend_entry s (Some fresh) ?t)) = insert \<lparr>key_data = s, cached_string = Some fresh\<rparr> (set (all_entries t))"
    using p(3) by (metis hash_table.simps(1) hash_table.update_convs(4) counters_kept(2) set_mset_add_mset_insert set_mset_mset hash_table.surjective)
  then have "table_keys ?g = insert s (table_keys t)" using mset_eq_setD[OF grow_facts(2)[OF p(1)]] by simp
  then have "no_nulls ?g" using nn unfolding no_nulls_def get by (simp only: dom_fun_upd) simp
  then show ?thesis
    by (rule that[of fresh ?g, rotated 2])
      (use None s get get_absent[OF inv k] grow_facts(1)[OF p(1)] in
        \<open>simp_all add: leptris_pool_intern_string_def same_hash bucket_index_def Let_def\<close>)
qed

lemma inj_map_upd:
  assumes "inj_on m (dom m)" "m s = Some a \<or> m s = None \<and> a \<notin> ran m"
  shows "inj_on (m(s \<mapsto> a)) (dom (m(s \<mapsto> a)))"
  using assms(2)
proof
  assume "m s = Some a"
  then have "m(s \<mapsto> a) = m" by (rule fun_upd_idem)
  then show ?thesis using assms(1) by simp
next
  assume new: "m s = None \<and> a \<notin> ran m"
  show ?thesis
  proof (rule inj_onI)
    fix x y assume "x \<in> dom (m(s \<mapsto> a))" "y \<in> dom (m(s \<mapsto> a))" and eq: "(m(s \<mapsto> a)) x = (m(s \<mapsto> a)) y"
    then show "x = y" using new inj_onD[OF assms(1), of x y] by (auto simp: ran_def dom_def split: if_splits)
  qed
qed

lemma intern_all_facts:
  "table_inv t \<Longrightarrow> no_nulls t \<Longrightarrow> \<forall>x \<in> set xs. fst x \<noteq> [] \<Longrightarrow> intern_all xs t = (rs, t') \<Longrightarrow>
    inj_on (leptris_hash_table_get t) (dom (leptris_hash_table_get t)) \<Longrightarrow>
    distinct (map snd xs) \<Longrightarrow> ran (leptris_hash_table_get t) \<inter> snd ` set xs = {} \<Longrightarrow>
    length rs = length xs \<and> leptris_hash_table_get t \<subseteq>\<^sub>m leptris_hash_table_get t'
    \<and> (\<forall>i < length xs. rs ! i \<noteq> None \<and> leptris_hash_table_get t' (fst (xs ! i)) = rs ! i)
    \<and> inj_on (leptris_hash_table_get t') (dom (leptris_hash_table_get t'))"
proof (induction xs arbitrary: t rs)
  case (Cons x xs)
  obtain s fresh where x: "x = (s, fresh)" by (cases x)
  have ne: "s \<noteq> []" using Cons.prems(3) x by simp
  let ?m = "leptris_hash_table_get t"
  obtain a t1 where i: "leptris_pool_intern_string (\<lambda>_. True) fresh s (Some t) = (Some a, Some t1)" "table_inv t1" "no_nulls t1"
    "leptris_hash_table_get t1 = ?m(s \<mapsto> a)" "?m s = Some a \<or> ?m s = None \<and> a = fresh"
    by (rule intern_facts[OF Cons.prems(1,2) ne])
  obtain rs1 where rs: "intern_all xs t1 = (rs1, t')" "rs = Some a # rs1"
    using Cons.prems(4) i(1) x by (auto split: prod.splits)
  have new: "?m s = None \<Longrightarrow> a \<notin> ran ?m" using i(5) Cons.prems(7) x by auto
  have inj: "inj_on (leptris_hash_table_get t1) (dom (leptris_hash_table_get t1))"
    unfolding i(4) by (rule inj_map_upd[OF Cons.prems(5)]) (use i(5) new in blast)
  have ran: "ran (leptris_hash_table_get t1) \<inter> snd ` set xs = {}"
    using i(5) Cons.prems(6,7) x unfolding i(4) by (auto simp: ran_def split: if_splits)
  have le: "?m \<subseteq>\<^sub>m leptris_hash_table_get t1" unfolding i(4) using i(5) by (auto simp: map_le_def)
  have ih: "length rs1 = length xs \<and> leptris_hash_table_get t1 \<subseteq>\<^sub>m leptris_hash_table_get t'
    \<and> (\<forall>i < length xs. rs1 ! i \<noteq> None \<and> leptris_hash_table_get t' (fst (xs ! i)) = rs1 ! i)
    \<and> inj_on (leptris_hash_table_get t') (dom (leptris_hash_table_get t'))"
    by (rule Cons.IH[OF i(2,3) _ rs(1) inj _ ran]) (use Cons.prems(3,6) in simp_all)
  have "leptris_hash_table_get t1 s = Some a" unfolding i(4) by simp
  then have "leptris_hash_table_get t' s = Some a" using ih by (auto simp: map_le_def dom_def)
  then show ?case using ih rs(2) x map_le_trans[OF le] by (auto simp: nth_Cons split: nat.splits)
qed simp

text \<open>
  C22. Interning is canonical: of a sequence of strings interned in a new table, each with a different
  address for its copy, two get the same address exactly when they are equal, however the table grows
  in between.
\<close>

theorem intern_canonical:
  assumes "leptris_hash_table_create mem pool n = Some t" "\<forall>x \<in> set xs. fst x \<noteq> []" "distinct (map snd xs)"
    "i < length xs" "j < length xs"
  shows "fst (intern_all xs t) ! i = fst (intern_all xs t) ! j \<longleftrightarrow> fst (xs ! i) = fst (xs ! j)"
proof -
  obtain rs t' where r: "intern_all xs t = (rs, t')" by fastforce
  have e: "leptris_hash_table_get t = Map.empty" by (rule created_table(3)[OF assms(1)])
  have f: "\<forall>i < length xs. rs ! i \<noteq> None \<and> leptris_hash_table_get t' (fst (xs ! i)) = rs ! i"
    "inj_on (leptris_hash_table_get t') (dom (leptris_hash_table_get t'))"
    using intern_all_facts[OF created_table(1,2)[OF assms(1)] assms(2) r _ assms(3)] unfolding e by simp_all
  have g: "leptris_hash_table_get t' (fst (xs ! k)) = rs ! k" "fst (xs ! k) \<in> dom (leptris_hash_table_get t')"
    if "k < length xs" for k using f(1) that by auto
  show ?thesis
    using g[OF assms(4)] g[OF assms(5)] f(2) unfolding r fst_conv by (metis inj_onD)
qed

theorem intern_canonical_witness:
  "\<exists>t :: nat hash_table. leptris_hash_table_create (\<lambda>_. True) True 1 = Some t
    \<and> fst (intern_all [([0x61], 1), ([0x62], 2), ([0x61], 3)] t) ! 0 = fst (intern_all [([0x61], 1), ([0x62], 2), ([0x61], 3)] t) ! 2"
proof -
  obtain t :: "nat hash_table" where t: "leptris_hash_table_create (\<lambda>_. True) True 1 = Some t"
    by (simp add: leptris_hash_table_create_def)
  from intern_canonical[OF t, of "[([0x61], 1), ([0x62], 2), ([0x61], 3)]" 0 2] show ?thesis using t by simp
qed

end
