(* ===== verification/DtdModel.thy ===== *)
theory DtdModel
  imports DtdContent HashTable
begin

text \<open>
  The document type definition as a set of declarations (\<open>dtd/model.c\<close>): four hash tables, to which
  the first declaration of a name is binding, the list of attribute defaults, and the pass that puts
  them into a document. Allocations are taken to succeed. The first lemmas carry the laws of the hash
  table over to the four tables; the properties are that first declarations bind, where the table of
  attributes confuses two declarations, and which elements the pass over the document reaches.
\<close>

section \<open>Declarations\<close>

datatype DTDContentType =
  DTD_CONTENT_EMPTY | DTD_CONTENT_ANY | DTD_CONTENT_MIXED | DTD_CONTENT_CHILDREN | DTD_CONTENT_PCDATA | DTD_CONTENT_ELEMENT

datatype DTDAttrDefault = DTD_ATTR_REQUIRED | DTD_ATTR_IMPLIED | DTD_ATTR_FIXED | DTD_ATTR_DEFAULT

datatype DTDEntityType = DTD_ENTITY_INTERNAL | DTD_ENTITY_EXTERNAL

record element_decl =
  el_name :: bytes
  content_type :: DTDContentType
  content_model :: "bytes option"

record attribute_decl =
  at_element :: bytes
  at_name :: bytes
  at_type :: bytes
  default_type :: DTDAttrDefault
  default_value :: "bytes option"

record entity_decl =
  en_name :: bytes
  en_type :: DTDEntityType
  en_value :: "bytes option"
  en_system_id :: "bytes option"
  en_public_id :: "bytes option"
  notation_name :: "bytes option"

record notation_decl =
  no_name :: bytes
  no_public_id :: "bytes option"
  no_system_id :: "bytes option"

text \<open>The loader of external parameter entities belongs to the application.\<close>

record dtd =
  entities :: "entity_decl hash_table"
  elements :: "element_decl hash_table"
  notations :: "notation_decl hash_table"
  attributes :: "attribute_decl hash_table"
  entity_count :: nat
  element_count :: nat
  notation_count :: nat
  attribute_count :: nat
  default_decls :: "attribute_decl list"
  parse_failed :: bool
  pe_loader :: "(bytes \<Rightarrow> bytes option) option"

definition empty_table :: "nat \<Rightarrow> 'v hash_table" where
  "empty_table n = \<lparr>buckets = replicate n [], hash_table.entry_count = 0, cache_hits = 0, cache_misses = 0\<rparr>"

definition leptris_dtd_create :: dtd where
  "leptris_dtd_create =
    \<lparr>entities = empty_table 128, elements = empty_table 64, notations = empty_table 32, attributes = empty_table 128,
     entity_count = 0, element_count = 0, notation_count = 0, attribute_count = 0, default_decls = [],
     parse_failed = False, pe_loader = None\<rparr>"

lemma created_tables: "leptris_hash_table_create (\<lambda>_. True) True n = (if n = 0 then None else Some (empty_table n))"
  by (simp add: leptris_hash_table_create_def empty_table_def)

definition ttdtd_entity_create :: "bytes \<Rightarrow> entity_decl" where
  "ttdtd_entity_create name =
    \<lparr>en_name = name, en_type = DTD_ENTITY_INTERNAL, en_value = None, en_system_id = None, en_public_id = None, notation_name = None\<rparr>"

definition ttdtd_element_create_pooled :: "bytes \<Rightarrow> element_decl" where
  "ttdtd_element_create_pooled name = \<lparr>el_name = name, content_type = DTD_CONTENT_ANY, content_model = None\<rparr>"

definition ttdtd_notation_create :: "bytes \<Rightarrow> notation_decl" where
  "ttdtd_notation_create name = \<lparr>no_name = name, no_public_id = None, no_system_id = None\<rparr>"

definition dtd_attribute_decl_create_pooled :: "bytes \<Rightarrow> bytes \<Rightarrow> attribute_decl" where
  "dtd_attribute_decl_create_pooled element attr =
    \<lparr>at_element = element, at_name = attr, at_type = ascii ''CDATA'', default_type = DTD_ATTR_IMPLIED, default_value = None\<rparr>"

section \<open>Lookup and addition\<close>

definition table_set :: "bytes \<Rightarrow> 'v \<Rightarrow> 'v hash_table \<Rightarrow> bool \<times> 'v hash_table" where
  "table_set key v t = leptris_hash_table_set (\<lambda>_. True) True key (Some v) t"

definition ttdtd_lookup_entity :: "dtd \<Rightarrow> bytes \<Rightarrow> entity_decl option" where
  "ttdtd_lookup_entity d name = leptris_hash_table_get (entities d) name"

definition ttdtd_add_entity :: "entity_decl \<Rightarrow> dtd \<Rightarrow> bool \<times> dtd" where
  "ttdtd_add_entity entity d =
    (if ttdtd_lookup_entity d (en_name entity) \<noteq> None then (False, d)
     else case table_set (en_name entity) entity (entities d) of
       (True, t) \<Rightarrow> (True, d\<lparr>entities := t, entity_count := entity_count d + 1\<rparr>)
     | (False, t) \<Rightarrow> (False, d\<lparr>entities := t\<rparr>))"

definition ttdtd_lookup_element :: "dtd \<Rightarrow> bytes \<Rightarrow> element_decl option" where
  "ttdtd_lookup_element d name = leptris_hash_table_get (elements d) name"

definition ttdtd_add_element :: "element_decl \<Rightarrow> dtd \<Rightarrow> bool \<times> dtd" where
  "ttdtd_add_element element d =
    (if ttdtd_lookup_element d (el_name element) \<noteq> None then (False, d)
     else case table_set (el_name element) element (elements d) of
       (True, t) \<Rightarrow> (True, d\<lparr>elements := t, element_count := element_count d + 1\<rparr>)
     | (False, t) \<Rightarrow> (False, d\<lparr>elements := t\<rparr>))"

definition ttdtd_lookup_notation :: "dtd \<Rightarrow> bytes \<Rightarrow> notation_decl option" where
  "ttdtd_lookup_notation d name = leptris_hash_table_get (notations d) name"

definition ttdtd_add_notation :: "notation_decl \<Rightarrow> dtd \<Rightarrow> bool \<times> dtd" where
  "ttdtd_add_notation nd d =
    (if ttdtd_lookup_notation d (no_name nd) \<noteq> None then (False, d)
     else case table_set (no_name nd) nd (notations d) of
       (True, t) \<Rightarrow> (True, d\<lparr>notations := t, notation_count := notation_count d + 1\<rparr>)
     | (False, t) \<Rightarrow> (False, d\<lparr>notations := t\<rparr>))"

definition build_attr_key :: "bytes \<Rightarrow> bytes \<Rightarrow> bytes" where
  "build_attr_key element attr = element @ [0x2E] @ attr"

definition ttdtd_lookup_attribute :: "dtd \<Rightarrow> bytes \<Rightarrow> bytes \<Rightarrow> attribute_decl option" where
  "ttdtd_lookup_attribute d element attr = leptris_hash_table_get (attributes d) (build_attr_key element attr)"

definition ttdtd_add_attribute :: "attribute_decl \<Rightarrow> dtd \<Rightarrow> bool \<times> dtd" where
  "ttdtd_add_attribute attr d =
    (if ttdtd_lookup_attribute d (at_element attr) (at_name attr) \<noteq> None then (False, d)
     else case table_set (build_attr_key (at_element attr) (at_name attr)) attr (attributes d) of
       (True, t) \<Rightarrow>
         let d = d\<lparr>attributes := t, attribute_count := attribute_count d + 1\<rparr> in
         if (default_type attr = DTD_ATTR_DEFAULT \<or> default_type attr = DTD_ATTR_FIXED)
            \<and> default_value attr \<noteq> None \<and> default_value attr \<noteq> Some []
         then (True, d\<lparr>default_decls := default_decls d @ [attr]\<rparr>)
         else (True, d)
     | (False, t) \<Rightarrow> (False, d\<lparr>attributes := t\<rparr>))"

section \<open>Attribute defaults in a document\<close>

text \<open>
  The nodes of a document that the definition is concerned with. A text may have no content, and a
  CDATA section's ends at its first NUL byte.
\<close>

datatype node =
    Element (node_name: bytes) (node_attrs: "(bytes \<times> bytes) list") (node_children: "node list")
  | Text "bytes option" | Cdata "bytes option" | Other

fun is_element :: "node \<Rightarrow> bool" where
  "is_element (Element _ _ _) = True"
| "is_element _ = False"

text \<open>The value of an attribute is replaced, or the attribute is put at the end.\<close>

primrec set_attr :: "bytes \<Rightarrow> bytes \<Rightarrow> (bytes \<times> bytes) list \<Rightarrow> (bytes \<times> bytes) list" where
  "set_attr name value [] = [(name, value)]"
| "set_attr name value (a # as) = (if fst a = name then (name, value) # as else a # set_attr name value as)"

text \<open>
  \<open>has\<close> is the DOM's lookup of an attribute, which resolves prefixes in the element's context. The
  defaults of an element's name are added where the lookup finds nothing.
\<close>

type_synonym attr_lookup = "bytes \<Rightarrow> (bytes \<times> bytes) list \<Rightarrow> bytes option"

definition add_defaults :: "attr_lookup \<Rightarrow> attribute_decl list \<Rightarrow> bytes \<Rightarrow> (bytes \<times> bytes) list \<Rightarrow> (bytes \<times> bytes) list" where
  "add_defaults has decls name as =
    fold (\<lambda>ad as.
      if at_element ad \<noteq> name then as
      else if has (at_name ad) as \<noteq> None then as
      else (case default_value ad of Some v \<Rightarrow> set_attr (at_name ad) v as | None \<Rightarrow> as)) decls as"

text \<open>
  The walk with its stack of 128 nodes, the top first, each with its place in the document: the
  places visited, in order. The children are pushed while the stack has room.
\<close>

type_synonym path = "nat list"

definition element_children :: "path \<Rightarrow> node \<Rightarrow> (path \<times> node) list" where
  "element_children p n = filter (\<lambda>x. is_element (snd x)) (map (\<lambda>i. (p @ [i], node_children n ! i)) [0..<length (node_children n)])"

definition stack_size :: "(path \<times> node) list \<Rightarrow> nat" where
  "stack_size st = sum_list (map (\<lambda>x. size (snd x)) st)"

lemma stack_size_simps [simp]: "stack_size [] = 0" "stack_size (x # st) = size (snd x) + stack_size st"
  "stack_size (xs @ ys) = stack_size xs + stack_size ys"
  by (simp_all add: stack_size_def)

lemma children_size: "is_element n \<Longrightarrow> stack_size (rev (take k (element_children p n))) < size n"
proof -
  assume "is_element n"
  then obtain nm as cs where n: "n = Element nm as cs" by (cases n) simp_all
  let ?all = "map (\<lambda>i. (p @ [i], cs ! i)) [0..<length cs]"
  have take: "stack_size (take k xs) \<le> stack_size xs" for xs
    by (metis append_take_drop_id le_add1 stack_size_simps(3))
  have filt: "stack_size (filter P xs) \<le> stack_size xs" for P xs by (induction xs) auto
  have "stack_size (rev xs) = stack_size xs" for xs by (simp add: stack_size_def flip: rev_map)
  then have "stack_size (rev (take k (element_children p n))) \<le> stack_size ?all"
    using order.trans[OF take filt] n by (simp add: element_children_def)
  also have "?all = zip (map (\<lambda>i. p @ [i]) [0..<length cs]) cs"
    by (rule nth_equalityI) simp_all
  also have "stack_size (zip (map (\<lambda>i. p @ [i]) [0..<length cs]) cs) = sum_list (map size cs)"
    unfolding stack_size_def by (rule arg_cong[of _ _ sum_list], rule nth_equalityI) simp_all
  also have "\<dots> < size n" using n by (simp add: size_list_conv_sum_list)
  finally show ?thesis .
qed

function defaults_visited :: "(path \<times> node) list \<Rightarrow> path list" where
  "defaults_visited [] = []"
| "defaults_visited ((p, n) # st) =
    (if \<not> is_element n then defaults_visited st
     else p # defaults_visited (rev (take (128 - length st) (element_children p n)) @ st))"
  by pat_completeness auto
termination
proof (relation "measures [stack_size, length]")
  fix p n st
  assume "\<not> \<not> is_element n"
  then show "(rev (take (128 - length st) (element_children p n)) @ st, (p, n) # st) \<in> measures [stack_size, length]"
    using children_size[of n "128 - length st" p] by simp
next
  fix p n st
  show "(st, (p, n) # st) \<in> measures [stack_size, length]" by (cases "size n = 0") simp_all
qed simp

fun at_path :: "(node \<Rightarrow> node) \<Rightarrow> path \<Rightarrow> node \<Rightarrow> node" where
  "at_path f [] n = f n"
| "at_path f (i # p) (Element nm as cs) = (if i < length cs then Element nm as (cs[i := at_path f p (cs ! i)]) else Element nm as cs)"
| "at_path f (i # p) n = n"

definition default_at :: "attr_lookup \<Rightarrow> dtd \<Rightarrow> node \<Rightarrow> node" where
  "default_at has d n = Element (node_name n) (add_defaults has (default_decls d) (node_name n) (node_attrs n)) (node_children n)"

definition leptris_dtd_apply_attribute_defaults :: "attr_lookup \<Rightarrow> dtd \<Rightarrow> node \<Rightarrow> node" where
  "leptris_dtd_apply_attribute_defaults has d root =
    (if default_decls d = [] then root
     else fold (at_path (default_at has d)) (defaults_visited [([], root)]) root)"

section \<open>First declarations bind\<close>

text \<open>What a table of declarations promises: an addition is heard only while its name is free.\<close>

locale first_binding =
  fixes lookup :: "'s \<Rightarrow> 'k \<Rightarrow> 'v option"
    and add :: "'v \<Rightarrow> 's \<Rightarrow> 's"
    and key :: "'v \<Rightarrow> 'k"
    and key_ok :: "'k \<Rightarrow> bool"
    and invar :: "'s \<Rightarrow> bool"
  assumes lookup_add: "invar s \<Longrightarrow> lookup (add v s) =
      (if key_ok (key v) \<and> lookup s (key v) = None then (lookup s)(key v \<mapsto> v) else lookup s)"
    and invar_add: "invar s \<Longrightarrow> invar (add v s)"
begin

lemma adds:
  assumes "invar s"
  shows "invar (fold add vs s) \<and>
    lookup (fold add vs s) k = (case lookup s k of Some v \<Rightarrow> Some v | None \<Rightarrow> find (\<lambda>v. key_ok (key v) \<and> key v = k) vs)"
  using assms
proof (induction vs arbitrary: s)
  case Nil
  then show ?case by (cases "lookup s k") simp_all
next
  case (Cons v vs)
  have i: "invar (add v s)" by (rule invar_add[OF Cons.prems])
  show ?case using Cons.IH[OF i] lookup_add[OF Cons.prems, of v] by (auto split: option.splits)
qed

lemma first_declared:
  assumes "invar s" "lookup s k = None"
  shows "lookup (fold add vs s) k = find (\<lambda>v. key_ok (key v) \<and> key v = k) vs"
  using adds[OF assms(1), of vs k] assms(2) by simp

end

definition dtd_inv :: "dtd \<Rightarrow> bool" where
  "dtd_inv d \<longleftrightarrow> table_inv (entities d) \<and> table_inv (elements d) \<and> table_inv (notations d) \<and> table_inv (attributes d)
    \<and> no_nulls (entities d) \<and> no_nulls (elements d) \<and> no_nulls (notations d) \<and> no_nulls (attributes d)"

lemma dtd_invD:
  assumes "dtd_inv d"
  shows "table_inv (entities d)" "table_inv (elements d)" "table_inv (notations d)" "table_inv (attributes d)"
    "no_nulls (entities d)" "no_nulls (elements d)" "no_nulls (notations d)" "no_nulls (attributes d)"
  using assms by (simp_all add: dtd_inv_def)

lemma table_set_facts:
  assumes inv: "table_inv t" "no_nulls t" and r: "table_set key v t = (ok, t')"
  shows "table_inv t' \<and> no_nulls t' \<and> (ok \<longleftrightarrow> key \<noteq> []) \<and>
    leptris_hash_table_get t' = (if key = [] then leptris_hash_table_get t else (leptris_hash_table_get t)(key \<mapsto> v))"
proof (cases "key = []")
  case True
  then show ?thesis using assms by (simp add: table_set_def leptris_hash_table_set_def)
next
  case False
  have s: "table_inv t' \<and> no_nulls t'"
    using step_refines(1,2)[OF inv, of "Set_key (\<lambda>_. True) key v"] r by (simp add: table_step_def table_set_def)
  obtain t1 where "leptris_hash_table_set (\<lambda>_. True) True key (Some v) t = (True, t1)"
    "leptris_hash_table_get t1 = (leptris_hash_table_get t)(key := Some v)"
    by (rule set_facts[OF inv(1) False, of "\<lambda>_. True" True "Some v"]) (simp_all add: mem_ok_def)
  then show ?thesis using False s r by (simp add: table_set_def)
qed

lemma empty_table_facts:
  assumes "n \<noteq> 0"
  shows "table_inv (empty_table n)" "no_nulls (empty_table n)" "leptris_hash_table_get (empty_table n) = Map.empty"
  using created_table[of "\<lambda>_. True" True n "empty_table n"] created_tables[of n] assms by simp_all

lemma created_dtd: "dtd_inv leptris_dtd_create"
  by (simp add: dtd_inv_def leptris_dtd_create_def empty_table_facts)

abbreviation add_entity :: "entity_decl \<Rightarrow> dtd \<Rightarrow> dtd" where "add_entity e d \<equiv> snd (ttdtd_add_entity e d)"
abbreviation add_element :: "element_decl \<Rightarrow> dtd \<Rightarrow> dtd" where "add_element e d \<equiv> snd (ttdtd_add_element e d)"
abbreviation add_notation :: "notation_decl \<Rightarrow> dtd \<Rightarrow> dtd" where "add_notation e d \<equiv> snd (ttdtd_add_notation e d)"
abbreviation add_attribute :: "attribute_decl \<Rightarrow> dtd \<Rightarrow> dtd" where "add_attribute e d \<equiv> snd (ttdtd_add_attribute e d)"

abbreviation attr_key :: "attribute_decl \<Rightarrow> bytes" where
  "attr_key ad \<equiv> build_attr_key (at_element ad) (at_name ad)"

lemma attr_key_nonempty [simp]: "build_attr_key e a \<noteq> []"
  by (simp add: build_attr_key_def)

lemma add_entity_facts:
  assumes "dtd_inv d"
  shows "dtd_inv (add_entity e d)" "ttdtd_lookup_entity (add_entity e d) =
      (if en_name e \<noteq> [] \<and> ttdtd_lookup_entity d (en_name e) = None
       then (ttdtd_lookup_entity d)(en_name e \<mapsto> e) else ttdtd_lookup_entity d)"
    "elements (add_entity e d) = elements d" "notations (add_entity e d) = notations d"
    "attributes (add_entity e d) = attributes d" "default_decls (add_entity e d) = default_decls d"
proof -
  obtain ok t where t: "table_set (en_name e) e (entities d) = (ok, t)" by fastforce
  note f = table_set_facts[OF dtd_invD(1,5)[OF assms] t]
  have "ttdtd_lookup_entity d = leptris_hash_table_get (entities d)" by (simp add: fun_eq_iff ttdtd_lookup_entity_def)
  moreover have "ttdtd_lookup_entity (add_entity e d) = leptris_hash_table_get (entities (add_entity e d))"
    by (simp add: fun_eq_iff ttdtd_lookup_entity_def)
  ultimately show "dtd_inv (add_entity e d)" "ttdtd_lookup_entity (add_entity e d) =
      (if en_name e \<noteq> [] \<and> ttdtd_lookup_entity d (en_name e) = None
       then (ttdtd_lookup_entity d)(en_name e \<mapsto> e) else ttdtd_lookup_entity d)"
    "elements (add_entity e d) = elements d" "notations (add_entity e d) = notations d"
    "attributes (add_entity e d) = attributes d" "default_decls (add_entity e d) = default_decls d"
    using f t assms by (cases ok; simp add: ttdtd_add_entity_def dtd_inv_def)+
qed

lemma add_element_facts:
  assumes "dtd_inv d"
  shows "dtd_inv (add_element e d)" "ttdtd_lookup_element (add_element e d) =
      (if el_name e \<noteq> [] \<and> ttdtd_lookup_element d (el_name e) = None
       then (ttdtd_lookup_element d)(el_name e \<mapsto> e) else ttdtd_lookup_element d)"
    "entities (add_element e d) = entities d" "notations (add_element e d) = notations d"
    "attributes (add_element e d) = attributes d" "default_decls (add_element e d) = default_decls d"
proof -
  obtain ok t where t: "table_set (el_name e) e (elements d) = (ok, t)" by fastforce
  note f = table_set_facts[OF dtd_invD(2,6)[OF assms] t]
  have "ttdtd_lookup_element d = leptris_hash_table_get (elements d)" by (simp add: fun_eq_iff ttdtd_lookup_element_def)
  moreover have "ttdtd_lookup_element (add_element e d) = leptris_hash_table_get (elements (add_element e d))"
    by (simp add: fun_eq_iff ttdtd_lookup_element_def)
  ultimately show "dtd_inv (add_element e d)" "ttdtd_lookup_element (add_element e d) =
      (if el_name e \<noteq> [] \<and> ttdtd_lookup_element d (el_name e) = None
       then (ttdtd_lookup_element d)(el_name e \<mapsto> e) else ttdtd_lookup_element d)"
    "entities (add_element e d) = entities d" "notations (add_element e d) = notations d"
    "attributes (add_element e d) = attributes d" "default_decls (add_element e d) = default_decls d"
    using f t assms by (cases ok; simp add: ttdtd_add_element_def dtd_inv_def)+
qed

lemma add_notation_facts:
  assumes "dtd_inv d"
  shows "dtd_inv (add_notation e d)" "ttdtd_lookup_notation (add_notation e d) =
      (if no_name e \<noteq> [] \<and> ttdtd_lookup_notation d (no_name e) = None
       then (ttdtd_lookup_notation d)(no_name e \<mapsto> e) else ttdtd_lookup_notation d)"
    "entities (add_notation e d) = entities d" "elements (add_notation e d) = elements d"
    "attributes (add_notation e d) = attributes d" "default_decls (add_notation e d) = default_decls d"
proof -
  obtain ok t where t: "table_set (no_name e) e (notations d) = (ok, t)" by fastforce
  note f = table_set_facts[OF dtd_invD(3,7)[OF assms] t]
  have "ttdtd_lookup_notation d = leptris_hash_table_get (notations d)" by (simp add: fun_eq_iff ttdtd_lookup_notation_def)
  moreover have "ttdtd_lookup_notation (add_notation e d) = leptris_hash_table_get (notations (add_notation e d))"
    by (simp add: fun_eq_iff ttdtd_lookup_notation_def)
  ultimately show "dtd_inv (add_notation e d)" "ttdtd_lookup_notation (add_notation e d) =
      (if no_name e \<noteq> [] \<and> ttdtd_lookup_notation d (no_name e) = None
       then (ttdtd_lookup_notation d)(no_name e \<mapsto> e) else ttdtd_lookup_notation d)"
    "entities (add_notation e d) = entities d" "elements (add_notation e d) = elements d"
    "attributes (add_notation e d) = attributes d" "default_decls (add_notation e d) = default_decls d"
    using f t assms by (cases ok; simp add: ttdtd_add_notation_def dtd_inv_def)+
qed

text \<open>A declaration with a default is kept for the pass over the document.\<close>

definition bears_default :: "attribute_decl \<Rightarrow> bool" where
  "bears_default ad \<longleftrightarrow> (default_type ad = DTD_ATTR_DEFAULT \<or> default_type ad = DTD_ATTR_FIXED)
    \<and> default_value ad \<noteq> None \<and> default_value ad \<noteq> Some []"

lemma add_attribute_cases:
  assumes "dtd_inv d"
  obtains (bound) "leptris_hash_table_get (attributes d) (attr_key e) \<noteq> None" "add_attribute e d = d"
  | (free) t where "leptris_hash_table_get (attributes d) (attr_key e) = None" "table_inv t" "no_nulls t"
      "leptris_hash_table_get t = (leptris_hash_table_get (attributes d))(attr_key e \<mapsto> e)"
      "add_attribute e d = d\<lparr>attributes := t, attribute_count := attribute_count d + 1,
         default_decls := default_decls d @ (if bears_default e then [e] else [])\<rparr>"
proof (cases "leptris_hash_table_get (attributes d) (attr_key e) = None")
  case True
  obtain ok t where t: "table_set (attr_key e) e (attributes d) = (ok, t)" by fastforce
  note f = table_set_facts[OF dtd_invD(4,8)[OF assms] t]
  then have ok: "ok" by simp
  have "add_attribute e d = d\<lparr>attributes := t, attribute_count := attribute_count d + 1,
      default_decls := default_decls d @ (if bears_default e then [e] else [])\<rparr>"
    using True t ok by (simp add: ttdtd_add_attribute_def ttdtd_lookup_attribute_def bears_default_def Let_def)
  moreover have "leptris_hash_table_get t = (leptris_hash_table_get (attributes d))(attr_key e \<mapsto> e)" using f by simp
  ultimately show ?thesis using free[OF True] f by blast
next
  case False
  then show ?thesis using bound by (simp add: ttdtd_add_attribute_def ttdtd_lookup_attribute_def)
qed

lemma add_attribute_facts:
  assumes "dtd_inv d"
  shows "dtd_inv (add_attribute e d)" "leptris_hash_table_get (attributes (add_attribute e d)) =
      (if leptris_hash_table_get (attributes d) (attr_key e) = None
       then (leptris_hash_table_get (attributes d))(attr_key e \<mapsto> e) else leptris_hash_table_get (attributes d))"
    "entities (add_attribute e d) = entities d" "elements (add_attribute e d) = elements d"
    "notations (add_attribute e d) = notations d"
    "default_decls (add_attribute e d) = default_decls d @
      (if leptris_hash_table_get (attributes d) (attr_key e) = None \<and> bears_default e then [e] else [])"
proof (atomize (full), rule add_attribute_cases[OF assms, of e], goal_cases)
  case 1
  show ?case unfolding 1(2) using 1(1) assms by (simp only: if_False simp_thms append_Nil2)
next
  case (2 t)
  have "dtd_inv (d\<lparr>attributes := t, attribute_count := attribute_count d + 1,
      default_decls := default_decls d @ (if bears_default e then [e] else [])\<rparr>)"
    using assms 2(2,3) by (simp add: dtd_inv_def)
  then show ?case unfolding 2(5) using 2(1,4) by simp
qed

text \<open>The four tables together, as one store of declarations.\<close>

datatype decl =
    Entity_decl entity_decl | Element_decl element_decl | Notation_decl notation_decl | Attribute_decl attribute_decl

datatype decl_key = Entity_key bytes | Element_key bytes | Notation_key bytes | Attribute_key bytes

primrec key_of :: "decl \<Rightarrow> decl_key" where
  "key_of (Entity_decl e) = Entity_key (en_name e)"
| "key_of (Element_decl e) = Element_key (el_name e)"
| "key_of (Notation_decl e) = Notation_key (no_name e)"
| "key_of (Attribute_decl e) = Attribute_key (attr_key e)"

primrec key_bytes :: "decl_key \<Rightarrow> bytes" where
  "key_bytes (Entity_key k) = k"
| "key_bytes (Element_key k) = k"
| "key_bytes (Notation_key k) = k"
| "key_bytes (Attribute_key k) = k"

primrec add_decl :: "decl \<Rightarrow> dtd \<Rightarrow> dtd" where
  "add_decl (Entity_decl e) d = add_entity e d"
| "add_decl (Element_decl e) d = add_element e d"
| "add_decl (Notation_decl e) d = add_notation e d"
| "add_decl (Attribute_decl e) d = add_attribute e d"

primrec lookup_decl :: "dtd \<Rightarrow> decl_key \<Rightarrow> decl option" where
  "lookup_decl d (Entity_key k) = map_option Entity_decl (ttdtd_lookup_entity d k)"
| "lookup_decl d (Element_key k) = map_option Element_decl (ttdtd_lookup_element d k)"
| "lookup_decl d (Notation_key k) = map_option Notation_decl (ttdtd_lookup_notation d k)"
| "lookup_decl d (Attribute_key k) = map_option Attribute_decl (leptris_hash_table_get (attributes d) k)"

lemma same_tables:
  "entities d' = entities d \<Longrightarrow> ttdtd_lookup_entity d' = ttdtd_lookup_entity d"
  "elements d' = elements d \<Longrightarrow> ttdtd_lookup_element d' = ttdtd_lookup_element d"
  "notations d' = notations d \<Longrightarrow> ttdtd_lookup_notation d' = ttdtd_lookup_notation d"
  by (simp_all add: fun_eq_iff ttdtd_lookup_entity_def ttdtd_lookup_element_def ttdtd_lookup_notation_def)

lemma add_decl_inv: "dtd_inv d \<Longrightarrow> dtd_inv (add_decl v d)"
  by (cases v) (simp_all add: add_entity_facts add_element_facts add_notation_facts add_attribute_facts)

lemma lookup_add_decl:
  assumes "dtd_inv d"
  shows "lookup_decl (add_decl v d) = (if key_bytes (key_of v) \<noteq> [] \<and> lookup_decl d (key_of v) = None
      then (lookup_decl d)(key_of v \<mapsto> v) else lookup_decl d)"
proof (rule ext)
  fix k
  show "lookup_decl (add_decl v d) k = (if key_bytes (key_of v) \<noteq> [] \<and> lookup_decl d (key_of v) = None
      then (lookup_decl d)(key_of v \<mapsto> v) else lookup_decl d) k"
  proof (cases v)
    case (Entity_decl e)
    note f = add_entity_facts[OF assms, of e]
    show ?thesis using Entity_decl f(2-5) same_tables(2,3)[of "add_entity e d" d] by (cases k) simp_all
  next
    case (Element_decl e)
    note f = add_element_facts[OF assms, of e]
    show ?thesis using Element_decl f(2-5) same_tables(1,3)[of "add_element e d" d] by (cases k) simp_all
  next
    case (Notation_decl e)
    note f = add_notation_facts[OF assms, of e]
    show ?thesis using Notation_decl f(2-5) same_tables(1,2)[of "add_notation e d" d] by (cases k) simp_all
  next
    case (Attribute_decl e)
    note f = add_attribute_facts[OF assms, of e]
    show ?thesis using Attribute_decl f(2-5) same_tables[of "add_attribute e d" d] by (cases k) simp_all
  qed
qed

interpretation decls: first_binding lookup_decl add_decl key_of "\<lambda>k. key_bytes k \<noteq> []" dtd_inv
  by unfold_locales (rule lookup_add_decl add_decl_inv; assumption)+

lemma created_empty: "lookup_decl leptris_dtd_create k = None"
  by (cases k) (simp_all add: leptris_dtd_create_def ttdtd_lookup_entity_def ttdtd_lookup_element_def
      ttdtd_lookup_notation_def empty_table_facts(3))

text \<open>
  C31. The first declaration of a name is binding: after any sequence of declarations of entities,
  elements, notations and attributes, in whatever order and through every growth of the four hash
  tables, a lookup finds the first one declared under that name, or nothing if there is none.
\<close>

theorem first_declaration_binds:
  "lookup_decl (fold add_decl ds leptris_dtd_create) k = find (\<lambda>v. key_bytes (key_of v) \<noteq> [] \<and> key_of v = k) ds"
  by (rule decls.first_declared[OF created_dtd created_empty])

section \<open>The walk over the document\<close>

text \<open>
  The walk as a recursion: \<open>s\<close> counts the entries below the node on the stack, and each element child
  that is pushed lies one higher. \<open>walk f s n\<close> applies \<open>f\<close> to the elements that are visited.
\<close>

fun reach :: "nat \<Rightarrow> node \<Rightarrow> path list" and reach_children :: "nat \<Rightarrow> nat \<Rightarrow> node list \<Rightarrow> path list" where
  "reach s (Element nm as cs) = [] # reach_children s 0 cs"
| "reach s n = []"
| "reach_children s i [] = []"
| "reach_children s i (c # cs) =
    (if is_element c \<and> s < 128 then reach_children (s + 1) (i + 1) cs @ map ((#) i) (reach s c)
     else reach_children s (i + 1) cs)"

fun walk :: "(node \<Rightarrow> node) \<Rightarrow> nat \<Rightarrow> node \<Rightarrow> node" and walk_children :: "(node \<Rightarrow> node) \<Rightarrow> nat \<Rightarrow> node list \<Rightarrow> node list" where
  "walk f s (Element nm as cs) = f (Element nm as (walk_children f s cs))"
| "walk f s n = n"
| "walk_children f s [] = []"
| "walk_children f s (c # cs) =
    (if is_element c \<and> s < 128 then walk f s c # walk_children f (s + 1) cs else c # walk_children f s cs)"

definition children_from :: "path \<Rightarrow> nat \<Rightarrow> node list \<Rightarrow> (path \<times> node) list" where
  "children_from p i cs = filter (\<lambda>x. is_element (snd x)) (map (\<lambda>k. (p @ [i + k], cs ! k)) [0..<length cs])"

lemma children_from_simps [simp]:
  "children_from p i [] = []"
  "children_from p i (c # cs) = (if is_element c then [(p @ [i], c)] else []) @ children_from p (i + 1) cs"
proof -
  have "map (\<lambda>k. (p @ [i + k], (c # cs) ! k)) [0..<Suc (length cs)] =
      (p @ [i], c) # map (\<lambda>k. (p @ [(i + 1) + k], cs ! k)) [0..<length cs]"
    unfolding upt_conv_Cons[OF zero_less_Suc] by (simp add: map_Suc_upt[symmetric] del: upt_Suc)
  then show "children_from p i (c # cs) = (if is_element c then [(p @ [i], c)] else []) @ children_from p (i + 1) cs"
    by (simp add: children_from_def del: upt_Suc)
qed (simp add: children_from_def)

lemma visited_reach:
  "is_element n \<Longrightarrow> defaults_visited ((p, n) # st) = map ((@) p) (reach (length st) n) @ defaults_visited st"
  "defaults_visited (rev (take (128 - length st) (children_from p i cs)) @ st) =
     map ((@) p) (reach_children (length st) i cs) @ defaults_visited st"
proof (induction "length st" n and "length st" i cs arbitrary: p st and p st rule: reach_reach_children.induct)
  case (1 nm as cs)
  have "element_children p (Element nm as cs) = children_from p 0 cs" by (simp add: element_children_def children_from_def)
  then show ?case using 1(1)[of st p] by (simp add: comp_def)
next
  case (4 i c cs)
  show ?case
  proof (cases "is_element c \<and> length st < 128")
    case True
    let ?x = "(p @ [i], c)"
    have "128 - length st = Suc (128 - length (?x # st))" using True by (metis Suc_diff_Suc length_Cons)
    then have "rev (take (128 - length st) (children_from p i (c # cs))) @ st =
        rev (take (128 - length (?x # st)) (children_from p (i + 1) cs)) @ ?x # st"
      using True by simp
    then show ?thesis using 4(1)[OF True, of "?x # st" p] 4(2)[OF True, of st "p @ [i]"] True by (simp add: comp_def)
  next
    case False
    then have "take (128 - length st) (children_from p i (c # cs)) = take (128 - length st) (children_from p (i + 1) cs)" by auto
    moreover have "reach_children (length st) i (c # cs) = reach_children (length st) (i + 1) cs" using False by auto
    ultimately show ?thesis using 4(3)[OF False refl, of p] by (simp only:)
  qed
qed simp_all

text \<open>Changing the attributes of the places reached, one after the other, is the walk.\<close>

definition keeps_shape :: "(node \<Rightarrow> node) \<Rightarrow> bool" where
  "keeps_shape f \<longleftrightarrow> (\<forall>nm as. \<exists>as'. \<forall>cs. f (Element nm as cs) = Element nm as' cs)"

lemma fold_at_child:
  "fold (at_path f) (map ((#) i) ps) (Element nm as cs) =
    (if i < length cs then Element nm as (cs[i := fold (at_path f) ps (cs ! i)]) else Element nm as cs)"
  by (induction ps arbitrary: cs) simp_all

lemma walk_reach:
  assumes f: "keeps_shape f"
  shows "fold (at_path f) (reach s n) n = walk f s n"
    "fold (at_path f) (reach_children s (length pre) cs) (Element nm as (pre @ cs)) = Element nm as (pre @ walk_children f s cs)"
proof (induction s n and s "length pre" cs arbitrary: and nm as pre rule: reach_reach_children.induct)
  case (1 s nm' as' cs)
  obtain as2 where as2: "\<And>cs. f (Element nm' as' cs) = Element nm' as2 cs" using f unfolding keeps_shape_def by metis
  then show ?case using 1[of "[]" nm' as2] by simp
next
  case (4 s c cs)
  show ?case
  proof (cases "is_element c \<and> s < 128")
    case True
    have "fold (at_path f) (reach_children (s + 1) (length pre + 1) cs) (Element nm as (pre @ c # cs)) =
        Element nm as (pre @ c # walk_children f (s + 1) cs)"
      using 4(1)[OF True, of "pre @ [c]" nm as] by simp
    then show ?thesis using True 4(2)[OF True] by (simp add: fold_at_child)
  next
    case False
    then have "reach_children s (length pre) (c # cs) = reach_children s (length pre + 1) cs"
      "walk_children f s (c # cs) = c # walk_children f s cs" by auto
    then show ?thesis using 4(3)[OF False, of "pre @ [c]" nm as] by simp
  qed
qed simp_all

text \<open>Whether every element that is met still finds room on the stack, and the change of all of them.\<close>

fun fits :: "nat \<Rightarrow> node \<Rightarrow> bool" and fits_children :: "nat \<Rightarrow> node list \<Rightarrow> bool" where
  "fits s (Element nm as cs) = fits_children s cs"
| "fits s n = True"
| "fits_children s [] = True"
| "fits_children s (c # cs) = (if is_element c then s < 128 \<and> fits s c \<and> fits_children (s + 1) cs else fits_children s cs)"

fun everywhere :: "(node \<Rightarrow> node) \<Rightarrow> node \<Rightarrow> node" where
  "everywhere f (Element nm as cs) = f (Element nm as (map (everywhere f) cs))"
| "everywhere f n = n"

lemma walk_everywhere:
  "fits s n \<Longrightarrow> walk f s n = everywhere f n"
  "fits_children s cs \<Longrightarrow> walk_children f s cs = map (everywhere f) cs"
proof (induction s n and s cs rule: fits_fits_children.induct)
  case (4 s c cs)
  show ?case using 4 by (cases c) simp_all
qed simp_all

lemma apply_walk:
  assumes "is_element root" "default_decls d \<noteq> []"
  shows "leptris_dtd_apply_attribute_defaults has d root = walk (default_at has d) 0 root"
proof -
  have "keeps_shape (default_at has d)" by (simp add: keeps_shape_def default_at_def)
  from walk_reach(1)[OF this, of 0 root] show ?thesis
    using visited_reach(1)[OF assms(1), of "[]" "[]"] assms(2)
    by (simp add: leptris_dtd_apply_attribute_defaults_def map_idI del: defaults_visited.simps(2))
qed

lemma walk_leaves:
  assumes "\<And>s. walk f s c = f c" "is_element c"
  shows "walk_children f s (replicate n c) = replicate (min n (128 - s)) (f c) @ replicate (n - (128 - s)) c"
proof (induction n arbitrary: s)
  case (Suc n)
  show ?case
  proof (cases "s < 128")
    case True
    then obtain k where k: "128 - s = Suc k" "128 - (s + 1) = k" by (metis Suc_diff_Suc Suc_eq_plus1)
    show ?thesis using Suc[of "s + 1"] True assms k by simp
  next
    case False
    then show ?thesis using Suc[of s] by simp
  qed
qed simp

text \<open>
  The pass that adds attribute defaults gives them to every element of a document in which at most
  128 elements wait on its stack at a time. An element that finds the stack full is passed over
  silently with everything below it: of any number of like children of the root, the first 128 get
  their defaults and the others do not.
\<close>

theorem defaults_reach:
  assumes "default_decls d \<noteq> []"
  shows "(is_element root \<and> fits 0 root \<longrightarrow> leptris_dtd_apply_attribute_defaults has d root = everywhere (default_at has d) root)
    \<and> leptris_dtd_apply_attribute_defaults has d (Element r as (replicate n (Element e bs []))) =
        default_at has d (Element r as
          (replicate (min n 128) (default_at has d (Element e bs [])) @ replicate (n - 128) (Element e bs [])))"
  using walk_everywhere(1)[of 0 root "default_at has d"] walk_leaves[of "default_at has d" "Element e bs []" 0 n]
  by (simp add: apply_walk[OF _ assms])

text \<open>A definition with one default, for the concrete instance.\<close>

definition default_v :: attribute_decl where
  "default_v = \<lparr>at_element = ascii ''e'', at_name = ascii ''a'', at_type = ascii ''CDATA'', default_type = DTD_ATTR_DEFAULT,
     default_value = Some (ascii ''v'')\<rparr>"

theorem defaults_reach_witness:
  "leptris_dtd_apply_attribute_defaults (\<lambda>name as. map_of as name) (leptris_dtd_create\<lparr>default_decls := [default_v]\<rparr>)
      (Element (ascii ''r'') [] (replicate 130 (Element (ascii ''e'') [] []))) =
    Element (ascii ''r'') []
      (replicate 128 (Element (ascii ''e'') [(ascii ''a'', ascii ''v'')] []) @ replicate 2 (Element (ascii ''e'') [] []))"
proof -
  let ?d = "leptris_dtd_create\<lparr>default_decls := [default_v]\<rparr>"
  have "default_decls ?d \<noteq> []" by simp
  from defaults_reach[OF this, THEN conjunct2, of "\<lambda>name as. map_of as name" "ascii ''r''" "[]" 130 "ascii ''e''" "[]"]
  show ?thesis by (simp add: default_at_def add_defaults_def default_v_def ascii_def)
qed

end
