(* ===== verification/DtdResolver.thy ===== *)
theory DtdResolver
  imports DtdModel
begin

text \<open>
  Expansion of general entities (\<open>dtd/resolver.c\<close>): a counting pass sizes the buffer, and a writing
  pass, recursive in the same way, fills it; both stop at the tenth nested entity and at a name that
  is already being expanded. Strings are the bytes before their NUL. The stack of names has its top
  first; allocations succeed.

  The two passes are shown to agree to the byte, and the result to be the text with every reference
  replaced by its fully expanded value, as long as that takes at most ten levels and no value is
  empty; an empty value makes the whole expansion fail.
\<close>

section \<open>The two passes\<close>

definition predefined_entities :: "(bytes \<times> bytes) list" where
  "predefined_entities =
    [(ascii ''lt'', [0x3C]), (ascii ''gt'', [0x3E]), (ascii ''amp'', [0x26]), (ascii ''apos'', [0x27]), (ascii ''quot'', [0x22])]"

definition lookup_predefined_entity :: "bytes \<Rightarrow> bytes option" where
  "lookup_predefined_entity name = map_of predefined_entities name"

definition MAX_ENTITY_DEPTH :: nat where "MAX_ENTITY_DEPTH = 10"

text \<open>The value that a reference is replaced with.\<close>

definition reference_value :: "dtd option \<Rightarrow> bytes \<Rightarrow> bytes option" where
  "reference_value d name =
    (case lookup_predefined_entity name of
       Some v \<Rightarrow> Some v
     | None \<Rightarrow>
         (case d of
            None \<Rightarrow> None
          | Some d \<Rightarrow>
              (case ttdtd_lookup_entity d name of
                 Some e \<Rightarrow> if en_type e = DTD_ENTITY_INTERNAL then en_value e else None
               | None \<Rightarrow> None)))"

text \<open>The name of the reference that starts before \<open>p\<close>, and what follows its semicolon.\<close>

definition reference_after :: "bytes \<Rightarrow> (bytes \<times> bytes) option" where
  "reference_after p =
    (if (p = [] \<or> hd p \<noteq> 0x23) \<and> 0x3B \<in> set p
     then Some (takeWhile (\<lambda>c. c \<noteq> 0x3B) p, tl (dropWhile (\<lambda>c. c \<noteq> 0x3B) p)) else None)"

lemma reference_shorter [termination_simp]: "reference_after p = Some (name, rest) \<Longrightarrow> length rest < Suc (length p)"
  using length_dropWhile_le[of "\<lambda>c. c \<noteq> 0x3B" p] by (auto simp: reference_after_def split: if_splits)

text \<open>The loop over \<open>p\<close> with the length counted so far; 0 is also the answer to an error.\<close>

function calculate_expanded_length :: "dtd option \<Rightarrow> bytes list \<Rightarrow> bytes \<Rightarrow> nat \<Rightarrow> nat" where
  "calculate_expanded_length d st [] len = len"
| "calculate_expanded_length d st (c # p) len =
    (case if c = 0x26 then reference_after p else None of
       None \<Rightarrow> calculate_expanded_length d st p (len + 1)
     | Some (name, rest) \<Rightarrow>
         if name \<in> set st then 0
         else (case reference_value d name of
                 Some v \<Rightarrow>
                   if length st < MAX_ENTITY_DEPTH then
                     (let nested_len = calculate_expanded_length d (name # st) v 0 in
                      if nested_len = 0 then 0 else calculate_expanded_length d st rest (len + nested_len))
                   else calculate_expanded_length d st rest (len + length v)
               | None \<Rightarrow> calculate_expanded_length d st rest (len + (length name + 2))))"
  by pat_completeness auto
termination
  by (relation "measures [\<lambda>(d, st, p, len). MAX_ENTITY_DEPTH - length st, \<lambda>(d, st, p, len). length p]")
    (auto split: if_splits dest: reference_shorter)

text \<open>The text and the length reported, \<open>None\<close> for \<open>NULL\<close>; \<open>dest\<close> is what has been written.\<close>

function expand_entity_references :: "dtd option \<Rightarrow> bytes list \<Rightarrow> bytes \<Rightarrow> (bytes \<times> nat) option"
  and write_expanded :: "dtd option \<Rightarrow> bytes list \<Rightarrow> bytes \<Rightarrow> bytes \<Rightarrow> bytes option" where
  "expand_entity_references d st value =
    (let len = calculate_expanded_length d st value 0 in
     if len = 0 \<and> value \<noteq> [] then None
     else (case write_expanded d st value [] of None \<Rightarrow> None | Some out \<Rightarrow> Some (out, len)))"
| "write_expanded d st [] dest = Some dest"
| "write_expanded d st (c # p) dest =
    (case if c = 0x26 then reference_after p else None of
       None \<Rightarrow> write_expanded d st p (dest @ [c])
     | Some (name, rest) \<Rightarrow>
         if name \<in> set st then None
         else (case reference_value d name of
                 Some v \<Rightarrow>
                   if length st < MAX_ENTITY_DEPTH then
                     (case expand_entity_references d (name # st) v of
                        None \<Rightarrow> None
                      | Some (nested, _) \<Rightarrow> write_expanded d st rest (dest @ nested))
                   else write_expanded d st rest (dest @ v)
               | None \<Rightarrow> write_expanded d st rest (dest @ c # name @ [0x3B])))"
  by pat_completeness auto
termination
  by (relation "measures
      [case_sum (\<lambda>(d, st, v). MAX_ENTITY_DEPTH - length st) (\<lambda>(d, st, p, dest). MAX_ENTITY_DEPTH - length st),
       case_sum (\<lambda>(d, st, v). length v + 1) (\<lambda>(d, st, p, dest). length p)]")
    (auto split: if_splits dest: reference_shorter)

declare expand_entity_references.simps [simp del]

text \<open>The text is read up to its NUL byte; its length is only compared with 0.\<close>

definition leptris_dtd_expand_entities :: "dtd option \<Rightarrow> bytes \<Rightarrow> nat \<Rightarrow> (bytes \<times> nat) option" where
  "leptris_dtd_expand_entities d text len = (if len = 0 then None else expand_entity_references d [] (cstr text))"

definition leptris_dtd_lookup_entity :: "dtd option \<Rightarrow> bytes \<Rightarrow> bytes option" where
  "leptris_dtd_lookup_entity d name =
    (case lookup_predefined_entity name of
       Some v \<Rightarrow> Some v
     | None \<Rightarrow>
         (case d of
            None \<Rightarrow> None
          | Some d \<Rightarrow>
              (case ttdtd_lookup_entity d name of
                 Some e \<Rightarrow> if en_type e = DTD_ENTITY_INTERNAL then en_value e else None
               | None \<Rightarrow> None)))"

section \<open>The passes agree\<close>

text \<open>The number counted, with \<open>None\<close> for an error.\<close>

function counted :: "dtd option \<Rightarrow> bytes list \<Rightarrow> bytes \<Rightarrow> nat option" where
  "counted d st [] = Some 0"
| "counted d st (c # p) =
    (case if c = 0x26 then reference_after p else None of
       None \<Rightarrow> map_option ((+) 1) (counted d st p)
     | Some (name, rest) \<Rightarrow>
         if name \<in> set st then None
         else (case reference_value d name of
                 Some v \<Rightarrow>
                   if length st < MAX_ENTITY_DEPTH then
                     (case counted d (name # st) v of
                        None \<Rightarrow> None
                      | Some n \<Rightarrow> if n = 0 then None else map_option ((+) n) (counted d st rest))
                   else map_option ((+) (length v)) (counted d st rest)
               | None \<Rightarrow> map_option ((+) (length name + 2)) (counted d st rest)))"
  by pat_completeness auto
termination
  by (relation "measures [\<lambda>(d, st, p). MAX_ENTITY_DEPTH - length st, \<lambda>(d, st, p). length p]")
    (auto split: if_splits dest: reference_shorter)

lemma calculate_counted:
  "calculate_expanded_length d st p len = (case counted d st p of None \<Rightarrow> 0 | Some n \<Rightarrow> len + n)"
proof (induction d st p len rule: calculate_expanded_length.induct)
  case (2 d st c p len)
  show ?case
  proof (cases "if c = 0x26 then reference_after p else None")
    case None
    then show ?thesis using 2(1) by (auto split: option.splits)
  next
    case (Some x)
    obtain name rest where x: "x = (name, rest)" by fastforce
    show ?thesis
    proof (cases "name \<in> set st")
      case True
      then show ?thesis using Some x by simp
    next
      case fresh: False
      show ?thesis
      proof (cases "reference_value d name")
        case None
        then show ?thesis using 2(2)[OF Some x[symmetric] fresh None] Some x fresh by (auto split: option.splits)
      next
        case v: (Some v)
        show ?thesis
        proof (cases "length st < MAX_ENTITY_DEPTH")
          case True
          note nested = 2(3)[OF Some x[symmetric] fresh v True]
          show ?thesis
          proof (cases "counted d (name # st) v")
            case None
            then show ?thesis using nested Some x fresh v True by simp
          next
            case (Some n)
            then have c: "calculate_expanded_length d (name # st) v 0 = n" using nested by simp
            show ?thesis
            proof (cases "n = 0")
              case False
              from 2(4)[OF \<open>_ = Some x\<close> x[symmetric] fresh v True c[symmetric] False] show ?thesis
                using \<open>_ = Some x\<close> x fresh v True c False Some by (auto split: option.splits)
            qed (use \<open>_ = Some x\<close> x fresh v True c Some in simp)
          qed
        next
          case False
          then show ?thesis using 2(5)[OF Some x[symmetric] fresh v False] Some x fresh v by (auto split: option.splits)
        qed
      qed
    qed
  qed
qed simp

text \<open>Where the count is not an error, writing succeeds and takes that many bytes.\<close>

lemma written:
  "counted d st p = Some n \<Longrightarrow> \<exists>out. length out = n \<and> (\<forall>dest. write_expanded d st p dest = Some (dest @ out))"
proof (induction d st p arbitrary: n rule: counted.induct)
  case (2 d st c p)
  show ?case
  proof (cases "if c = 0x26 then reference_after p else None")
    case None
    then obtain m where m: "counted d st p = Some m" "n = m + 1" using 2(6) by auto
    obtain out where "length out = m" "\<And>dest. write_expanded d st p dest = Some (dest @ out)" using 2(1)[OF None m(1)] by blast
    then show ?thesis using None m(2) by (intro exI[of _ "c # out"]) simp
  next
    case (Some x)
    obtain name rest where x: "x = (name, rest)" by fastforce
    have fresh: "name \<notin> set st" using 2(6) Some x by (auto split: if_splits)
    show ?thesis
    proof (cases "reference_value d name")
      case None
      then obtain m where m: "counted d st rest = Some m" "n = length name + 2 + m" using 2(6) Some x fresh by auto
      obtain out where "length out = m" "\<And>dest. write_expanded d st rest dest = Some (dest @ out)"
        using 2(2)[OF Some x[symmetric] fresh None m(1)] by blast
      then show ?thesis using Some x fresh None m(2) by (intro exI[of _ "c # name @ 0x3B # out"]) simp
    next
      case v: (Some v)
      show ?thesis
      proof (cases "length st < MAX_ENTITY_DEPTH")
        case True
        obtain k m where k: "counted d (name # st) v = Some k" "k \<noteq> 0" and m: "counted d st rest = Some m" "n = k + m"
          using 2(6) Some x fresh v True by (auto split: option.splits if_splits)
        obtain w where w: "length w = k" "\<And>dest. write_expanded d (name # st) v dest = Some (dest @ w)"
          using 2(3)[OF Some x[symmetric] fresh v True k(1)] by blast
        obtain out where "length out = m" "\<And>dest. write_expanded d st rest dest = Some (dest @ out)"
          using 2(4)[OF Some x[symmetric] fresh v True k(1) k(2) m(1)] by blast
        moreover have "expand_entity_references d (name # st) v = Some (w, k)"
          using k w by (simp add: expand_entity_references.simps calculate_counted)
        ultimately show ?thesis using Some x fresh v True m(2) w(1) by (intro exI[of _ "w @ out"]) simp
      next
        case False
        then obtain m where m: "counted d st rest = Some m" "n = length v + m" using 2(6) Some x fresh v by auto
        obtain out where "length out = m" "\<And>dest. write_expanded d st rest dest = Some (dest @ out)"
          using 2(5)[OF Some x[symmetric] fresh v False m(1)] by blast
        then show ?thesis using Some x fresh v False m(2) by (intro exI[of _ "v @ out"]) simp
      qed
    qed
  qed
qed simp

lemma expand_cases:
  obtains (error) "counted d st v = None \<or> counted d st v = Some 0 \<and> v \<noteq> []" "calculate_expanded_length d st v 0 = 0"
      "v = [] \<or> expand_entity_references d st v = None"
  | (ok) n out where "counted d st v = Some n" "length out = n" "n \<noteq> 0 \<or> v = []" "calculate_expanded_length d st v 0 = n"
      "expand_entity_references d st v = Some (out, n)"
proof (cases "counted d st v")
  case None
  then show ?thesis using error by (cases v) (simp_all add: expand_entity_references.simps calculate_counted)
next
  case (Some n)
  obtain out where "length out = n" "\<And>dest. write_expanded d st v dest = Some (dest @ out)" using written[OF Some] by blast
  then show ?thesis using Some error ok[of n out]
    by (cases "n = 0 \<and> v \<noteq> []") (auto simp: expand_entity_references.simps calculate_counted)
qed

text \<open>
  C32. The writing pass of entity expansion fills the buffer that the counting pass has sized, exactly:
  it answers a text of just the length that was counted and that is reported to the caller, for every
  definition, circular and malformed ones included, and where it answers \<open>NULL\<close> for a text that is not
  empty the count was 0 and nothing was written.
\<close>

theorem expansion_fills_buffer:
  "case expand_entity_references d st t of
     None \<Rightarrow> calculate_expanded_length d st t 0 = 0 \<and> t \<noteq> []
   | Some (out, n) \<Rightarrow> length out = n \<and> n = calculate_expanded_length d st t 0"
proof (rule expand_cases[of d st t], goal_cases)
  case 1
  then show ?case by (cases t) (simp_all add: expand_entity_references.simps)
next
  case (2 n out)
  then show ?case by simp
qed

section \<open>What expansion means\<close>

text \<open>
  The text with every reference replaced by the meaning of its value, \<open>None\<close> where the values are
  nested more than \<open>k\<close> deep; a reference to nothing stands for itself.
\<close>

function meaning :: "nat \<Rightarrow> dtd option \<Rightarrow> bytes \<Rightarrow> bytes option" where
  "meaning k d [] = Some []"
| "meaning k d (c # p) =
    (case if c = 0x26 then reference_after p else None of
       None \<Rightarrow> map_option ((#) c) (meaning k d p)
     | Some (name, rest) \<Rightarrow>
         (case reference_value d name of
            None \<Rightarrow> map_option ((@) (c # name @ [0x3B])) (meaning k d rest)
          | Some v \<Rightarrow>
              (case k of
                 0 \<Rightarrow> None
               | Suc j \<Rightarrow> (case meaning j d v of None \<Rightarrow> None | Some w \<Rightarrow> map_option ((@) w) (meaning k d rest)))))"
  by pat_completeness auto
termination
  by (relation "measures [\<lambda>(k, d, p). k, \<lambda>(k, d, p). length p]")
    (auto split: if_splits dest: reference_shorter)

definition values_nonempty :: "dtd option \<Rightarrow> bool" where
  "values_nonempty d \<longleftrightarrow> (\<forall>name. reference_value d name \<noteq> Some [])"

lemma meaning_nonempty: "values_nonempty d \<Longrightarrow> meaning k d v = Some w \<Longrightarrow> v \<noteq> [] \<Longrightarrow> w \<noteq> []"
proof (induction k d v arbitrary: w rule: meaning.induct)
  case (2 k d c p)
  show ?case
  proof (cases "if c = 0x26 then reference_after p else None")
    case None
    then show ?thesis using 2(6) by auto
  next
    case (Some x)
    obtain name rest where x: "x = (name, rest)" by fastforce
    show ?thesis
    proof (cases "reference_value d name")
      case None
      then show ?thesis using 2(6) Some x by auto
    next
      case v: (Some v)
      then obtain j w1 where j: "k = Suc j" "meaning j d v = Some w1" using 2(6) Some x by (auto split: nat.splits option.splits)
      have "v \<noteq> []" using v 2(5) by (auto simp: values_nonempty_def)
      then have "w1 \<noteq> []" using 2(3)[OF Some x[symmetric] v j(1) 2(5) j(2)] by simp
      then show ?thesis using 2(6) Some x v j by auto
    qed
  qed
qed simp

lemma meaning_mono: "meaning k d v = Some w \<Longrightarrow> k \<le> m \<Longrightarrow> meaning m d v = Some w"
proof (induction k d v arbitrary: w m rule: meaning.induct)
  case (2 k d c p)
  show ?case
  proof (cases "if c = 0x26 then reference_after p else None")
    case None
    then obtain w1 where w1: "meaning k d p = Some w1" "w = c # w1" using 2(5) by auto
    show ?thesis using None w1(2) 2(1)[OF None w1(1) 2(6)] by simp
  next
    case (Some x)
    obtain name rest where x: "x = (name, rest)" by fastforce
    show ?thesis
    proof (cases "reference_value d name")
      case None
      then obtain w1 where w1: "meaning k d rest = Some w1" "w = c # name @ 0x3B # w1" using 2(5) Some x by auto
      show ?thesis using Some x None w1(2) 2(2)[OF Some x[symmetric] None w1(1) 2(6)] by simp
    next
      case v: (Some v)
      then obtain j w1 w2 where j: "k = Suc j" "meaning j d v = Some w1" "meaning k d rest = Some w2" "w = w1 @ w2"
        using 2(5) Some x by (auto split: nat.splits option.splits)
      obtain i where i: "m = Suc i" "j \<le> i" using j(1) 2(6) by (cases m) auto
      show ?thesis using Some x v i(1) j(4) 2(3)[OF Some x[symmetric] v j(1,2) i(2)] 2(4)[OF Some x[symmetric] v j(1,2,3) 2(6)] by simp
    qed
  qed
qed simp

text \<open>
  The names on the stack need at least as many levels as are left, so that none of them can come up
  again.
\<close>

definition stack_above :: "nat \<Rightarrow> dtd option \<Rightarrow> bytes list \<Rightarrow> bool" where
  "stack_above k d st \<longleftrightarrow> 
    (\<forall>name \<in> set st. \<exists>v. reference_value d name = Some v \<and> (\<forall>j < k. meaning j d v = None))"

lemma expand_meaning:
  "values_nonempty d \<Longrightarrow> meaning k d p = Some w \<Longrightarrow> stack_above k d st \<Longrightarrow> length st + k \<le> MAX_ENTITY_DEPTH \<Longrightarrow>
    counted d st p = Some (length w) \<and> (\<forall>dest. write_expanded d st p dest = Some (dest @ w))"
proof (induction k arbitrary: p w st rule: less_induct)
  case (less k)
  note vals = less.prems(1) and above = less.prems(3) and room = less.prems(4)
  have "meaning k d p = Some w \<Longrightarrow> counted d st p = Some (length w) \<and> (\<forall>dest. write_expanded d st p dest = Some (dest @ w))" for p w
  proof (induction p arbitrary: w rule: length_induct)
    case (1 p)
    show ?case
    proof (cases p)
      case Nil
      then show ?thesis using 1(2) by simp
    next
      case p: (Cons c p')
      show ?thesis
      proof (cases "if c = 0x26 then reference_after p' else None")
        case None
        then obtain w1 where w1: "meaning k d p' = Some w1" "w = c # w1" using 1(2) p by auto
        show ?thesis using None w1(2) 1(1) w1(1) p by simp
      next
        case (Some x)
        obtain name rest where x: "x = (name, rest)" by fastforce
        have short: "length rest < length p" using Some x p reference_shorter[of p' name rest] by (simp split: if_splits)
        show ?thesis
        proof (cases "reference_value d name")
          case None
          then obtain w1 where w1: "meaning k d rest = Some w1" "w = c # name @ 0x3B # w1" using 1(2) Some x p by auto
          moreover have "counted d st rest = Some (length w1) \<and> (\<forall>dest. write_expanded d st rest dest = Some (dest @ w1))"
            using 1(1) short w1(1) by blast
          moreover have "name \<notin> set st" using None above by (auto simp: stack_above_def)
          ultimately show ?thesis using Some x None p by simp
        next
          case v: (Some v)
          then obtain j w1 w2 where j: "k = Suc j" "meaning j d v = Some w1" "meaning k d rest = Some w2" "w = w1 @ w2"
            using 1(2) Some x p by (auto split: nat.splits option.splits)
          define m where "m = (LEAST m. meaning m d v \<noteq> None)"
          have "meaning j d v \<noteq> None" using j(2) by simp
          then have m: "meaning m d v \<noteq> None" "m \<le> j" unfolding m_def by (rule LeastI, rule Least_le)
          have before: "meaning i d v = None" if "i < m" for i using not_less_Least[of i] that unfolding m_def by blast
          have mk: "m < k" using m(2) j(1) by simp
          have mw: "meaning m d v = Some w1" using m meaning_mono[of m d v _ j] j(2) by auto
          have fresh: "name \<notin> set st" using above m(1) mk v by (auto simp: stack_above_def)
          have "stack_above m d (name # st)"
            using above before v mk unfolding stack_above_def by (metis less_trans set_ConsD)
          moreover have "length (name # st) + m \<le> MAX_ENTITY_DEPTH" using room mk by simp
          ultimately have n: "counted d (name # st) v = Some (length w1) \<and> (\<forall>dest. write_expanded d (name # st) v dest = Some (dest @ w1))"
            using less.IH[OF mk vals mw] by blast
          have "v \<noteq> []" using v vals by (auto simp: values_nonempty_def)
          then have ne: "w1 \<noteq> []" using meaning_nonempty[OF vals mw] by simp
          then have e: "expand_entity_references d (name # st) v = Some (w1, length w1)"
            using n by (simp add: expand_entity_references.simps calculate_counted)
          have r: "counted d st rest = Some (length w2) \<and> (\<forall>dest. write_expanded d st rest dest = Some (dest @ w2))"
            using 1(1) short j(3) by blast
          have "length st < MAX_ENTITY_DEPTH" using room mk by simp
          then show ?thesis using Some x v p fresh n e r ne j(4) by simp
        qed
      qed
    qed
  qed
  then show ?case using less.prems(2) by blast
qed


text \<open>
  An empty entity spoils the whole text: wherever a reference to an entity with the empty value
  comes up first in a text, expansion answers \<open>NULL\<close>, as for a circular reference, because the count
  of 0 is taken for an error.
\<close>

theorem empty_value_fails:
  assumes "reference_value d name = Some []" "0x3B \<notin> set name" "name = [] \<or> hd name \<noteq> 0x23" "0x26 \<notin> set pre"
    "0 \<notin> set (pre @ name)"
  shows "leptris_dtd_expand_entities d (pre @ 0x26 # name @ 0x3B # post) len = None"
proof -
  have r: "reference_after (name @ 0x3B # q) = Some (name, q)" for q
  proof -
    have "takeWhile (\<lambda>c. c \<noteq> 0x3B) (name @ 0x3B # q) = name" "dropWhile (\<lambda>c. c \<noteq> 0x3B) (name @ 0x3B # q) = 0x3B # q"
      using assms(2) by (induction name) auto
    then show ?thesis using assms(3) by (auto simp: reference_after_def hd_append)
  qed
  have pre: "calculate_expanded_length d [] (pre @ q) n = calculate_expanded_length d [] q (n + length pre)" for q n
    using assms(4) by (induction pre arbitrary: n) auto
  have "calculate_expanded_length d [] (0x26 # name @ 0x3B # q) n = 0" for q n
    using r[of q] assms(1) by (simp add: MAX_ENTITY_DEPTH_def)
  moreover have "cstr (pre @ 0x26 # name @ 0x3B # post) = pre @ 0x26 # name @ 0x3B # cstr post"
  proof -
    have app: "0 \<notin> set xs \<Longrightarrow> takeWhile (\<lambda>b. b \<noteq> 0) (xs @ ys) = xs @ takeWhile (\<lambda>b. b \<noteq> 0) ys" for xs ys :: bytes
      by (induction xs) auto
    show ?thesis using assms(5) by (simp add: cstr_def app)
  qed
  ultimately show ?thesis by (simp add: leptris_dtd_expand_entities_def expand_entity_references.simps pre)
qed

section \<open>Concrete instances\<close>

definition earth :: "bytes \<Rightarrow> dtd" where
  "earth v = add_entity ((ttdtd_entity_create (ascii ''world''))\<lparr>en_value := Some v\<rparr>) leptris_dtd_create"

lemma earth_lookup: "ttdtd_lookup_entity (earth v) =
    [ascii ''world'' \<mapsto> (ttdtd_entity_create (ascii ''world''))\<lparr>en_value := Some v\<rparr>]"
proof -
  have "ttdtd_lookup_entity leptris_dtd_create = Map.empty"
    by (simp add: fun_eq_iff ttdtd_lookup_entity_def leptris_dtd_create_def empty_table_facts(3))
  then show ?thesis
    unfolding earth_def add_entity_facts(2)[OF created_dtd] by (simp add: ttdtd_entity_create_def ascii_def)
qed

lemma earth_value:
  "reference_value (Some (earth v)) name =
    (case lookup_predefined_entity name of Some w \<Rightarrow> Some w | None \<Rightarrow> if name = ascii ''world'' then Some v else None)"
  by (simp add: reference_value_def earth_lookup ttdtd_entity_create_def split: option.splits)


theorem empty_value_fails_witness:
  "leptris_dtd_expand_entities (Some (earth [])) (ascii ''Hello &world;!'') 14 = None"
proof -
  have v: "reference_value (Some (earth [])) (ascii ''world'') = Some []"
    by (simp add: earth_value lookup_predefined_entity_def predefined_entities_def ascii_def)
  have t: "ascii ''Hello &world;!'' = ascii ''Hello '' @ 0x26 # ascii ''world'' @ 0x3B # ascii ''!''" by (simp add: ascii_def)
  show ?thesis unfolding t by (rule empty_value_fails[OF v]) (simp_all add: ascii_def)
qed

end
