(* ===== verification/DtdParser.thy ===== *)
theory DtdParser
  imports DtdModel
begin

text \<open>
  The parser of document type definitions (\<open>dtd/parser.c\<close>): entity, element, notation and attribute
  declarations, comments, conditional sections and parameter entities. The position in a text is the
  rest of it; a string stored in a declaration is the bytes before its NUL; allocations succeed.

  One round of the main loop is \<open>dtd_step\<close>, which says how the loop goes on and what is parsed first
  into the same definition. The buffer that parameter entities are spliced in is modelled with its
  capacity: the flag beside the definition tells whether a write has gone past the end of one.
\<close>

section \<open>Tokens\<close>

definition dtd_peek :: "bytes \<Rightarrow> u8" where
  "dtd_peek p = (case p of [] \<Rightarrow> 0 | c # _ \<Rightarrow> c)"

definition dtd_skip_whitespace :: "bytes \<Rightarrow> bytes" where
  "dtd_skip_whitespace p = dropWhile c_space p"

definition dtd_match :: "bytes \<Rightarrow> bytes \<Rightarrow> bool" where
  "dtd_match str p \<longleftrightarrow> take (length str) p = str"

definition dtd_name_byte :: "u8 \<Rightarrow> bool" where
  "dtd_name_byte c \<longleftrightarrow> c_alnum c \<or> c = 0x5F \<or> c = 0x3A \<or> c = 0x2D \<or> c = 0x2E \<or> c \<ge> 0x80"

definition dtd_parse_name :: "bytes \<Rightarrow> bytes option \<times> bytes" where
  "dtd_parse_name p =
    (let p = dtd_skip_whitespace p; name = takeWhile dtd_name_byte p in
     (if name = [] then None else Some name, dropWhile dtd_name_byte p))"

definition is_quote :: "u8 \<Rightarrow> bool" where
  "is_quote c \<longleftrightarrow> c = 0x22 \<or> c = 0x27"

definition dtd_parse_quoted_string :: "bytes \<Rightarrow> bytes option \<times> bytes" where
  "dtd_parse_quoted_string p =
    (let p = dtd_skip_whitespace p; quote = dtd_peek p in
     if \<not> is_quote quote then (None, p)
     else (Some (cstr (takeWhile (\<lambda>c. c \<noteq> quote) (tl p))), tl (dropWhile (\<lambda>c. c \<noteq> quote) (tl p))))"

text \<open>To the \<open>'>'\<close> and past it, \<open>None\<close> where there is none; the rest is then empty.\<close>

definition skip_gt :: "bytes \<Rightarrow> bytes option" where
  "skip_gt p = (case dropWhile (\<lambda>c. c \<noteq> 0x3E) p of [] \<Rightarrow> None | _ # p \<Rightarrow> Some p)"

definition finish :: "'a \<Rightarrow> bytes \<Rightarrow> 'a option \<times> bytes" where
  "finish x p = (case skip_gt p of Some p \<Rightarrow> (Some x, p) | None \<Rightarrow> (None, []))"

section \<open>Declarations\<close>

text \<open>Behind \<open>SYSTEM\<close> or \<open>PUBLIC\<close>: the public and the system identifier.\<close>

definition parse_external_id :: "bytes \<Rightarrow> (bytes option \<times> bytes option) \<times> bytes" where
  "parse_external_id p =
    (if dtd_match (ascii ''SYSTEM'') p then
       (case dtd_parse_quoted_string (dtd_skip_whitespace (drop 6 p)) of (sys, p) \<Rightarrow> ((None, sys), p))
     else
       (case dtd_parse_quoted_string (dtd_skip_whitespace (drop 6 p)) of
          (pub, p) \<Rightarrow>
            let p = dtd_skip_whitespace p in
            if is_quote (dtd_peek p) then (case dtd_parse_quoted_string p of (sys, p) \<Rightarrow> ((pub, sys), p))
            else ((pub, None), p)))"

definition external_id_ahead :: "bytes \<Rightarrow> bool" where
  "external_id_ahead p \<longleftrightarrow> dtd_match (ascii ''SYSTEM'') p \<or> dtd_match (ascii ''PUBLIC'') p"

text \<open>The value or the external identifier of an entity, and the notation of an unparsed one.\<close>

definition parse_entity_value :: "entity_decl \<Rightarrow> bytes \<Rightarrow> entity_decl \<times> bytes" where
  "parse_entity_value entity p =
    (if external_id_ahead p then
       (case parse_external_id p of
          ((pub, sys), p) \<Rightarrow> (entity\<lparr>en_type := DTD_ENTITY_EXTERNAL, en_public_id := pub, en_system_id := sys\<rparr>, p))
     else (case dtd_parse_quoted_string p of (v, p) \<Rightarrow> (entity\<lparr>en_value := v\<rparr>, p)))"

definition parse_ndata :: "entity_decl \<Rightarrow> bytes \<Rightarrow> entity_decl option \<times> bytes" where
  "parse_ndata entity p =
    (if dtd_match (ascii ''NDATA'') p then
       (case dtd_parse_name (dtd_skip_whitespace (drop 5 p)) of (nn, p) \<Rightarrow> finish (entity\<lparr>notation_name := nn\<rparr>) p)
     else finish entity p)"

definition dtd_parse_entity :: "bytes \<Rightarrow> entity_decl option \<times> bytes" where
  "dtd_parse_entity p =
    (let p = dtd_skip_whitespace (drop 8 p);
         is_param = (dtd_peek p = 0x25);
         p = (if is_param then dtd_skip_whitespace (tl p) else p) in
     case dtd_parse_name p of
       (None, p) \<Rightarrow> (None, p)
     | (Some name, p) \<Rightarrow>
         (case parse_entity_value (ttdtd_entity_create (if is_param then 0x25 # name else name)) (dtd_skip_whitespace p) of
            (entity, p) \<Rightarrow> parse_ndata entity (dtd_skip_whitespace p)))"

text \<open>What follows the parenthesis that closes the content model, \<open>None\<close> where it is not closed.\<close>

primrec model_end :: "nat \<Rightarrow> u8 option \<Rightarrow> bytes \<Rightarrow> bytes option" where
  "model_end depth quote [] = None"
| "model_end depth quote (c # p) =
    (case quote of
       Some q \<Rightarrow> model_end depth (if c = q then None else Some q) p
     | None \<Rightarrow>
         if is_quote c then model_end depth (Some c) p
         else if c = 0x28 then model_end (depth + 1) None p
         else if c = 0x29 then (if depth - 1 = 0 then Some p else model_end (depth - 1) None p)
         else model_end depth None p)"

definition is_occurrence :: "u8 \<Rightarrow> bool" where
  "is_occurrence c \<longleftrightarrow> c = 0x2A \<or> c = 0x2B \<or> c = 0x3F"

definition parse_content :: "element_decl \<Rightarrow> bytes \<Rightarrow> element_decl option \<times> bytes" where
  "parse_content elem p =
    (if dtd_match (ascii ''EMPTY'') p then finish (elem\<lparr>content_type := DTD_CONTENT_EMPTY\<rparr>) (drop 5 p)
     else if dtd_match (ascii ''ANY'') p then finish (elem\<lparr>content_type := DTD_CONTENT_ANY\<rparr>) (drop 3 p)
     else if dtd_peek p = 0x28 then
       (case model_end 0 None p of
          None \<Rightarrow> (None, [])
        | Some q \<Rightarrow>
            let q = (if q \<noteq> [] \<and> is_occurrence (hd q) then tl q else q);
                model = cstr (take (length p - length q) p) in
            finish (elem\<lparr>content_model := Some model,
                     content_type := if has_substring model (ascii ''#PCDATA'') then DTD_CONTENT_MIXED else DTD_CONTENT_CHILDREN\<rparr>) q)
     else finish elem p)"

definition dtd_parse_element :: "bytes \<Rightarrow> element_decl option \<times> bytes" where
  "dtd_parse_element p =
    (case dtd_parse_name (dtd_skip_whitespace (drop 9 p)) of
       (None, p) \<Rightarrow> (None, p)
     | (Some name, p) \<Rightarrow> parse_content (ttdtd_element_create_pooled name) (dtd_skip_whitespace p))"

definition dtd_parse_notation :: "bytes \<Rightarrow> notation_decl option \<times> bytes" where
  "dtd_parse_notation p =
    (case dtd_parse_name (dtd_skip_whitespace (drop 10 p)) of
       (None, p) \<Rightarrow> (None, p)
     | (Some name, p) \<Rightarrow>
         let nd = ttdtd_notation_create name; p = dtd_skip_whitespace p in
         if external_id_ahead p then
           (case parse_external_id p of ((pub, sys), p) \<Rightarrow> finish (nd\<lparr>no_public_id := pub, no_system_id := sys\<rparr>) p)
         else finish nd p)"

definition parse_attr_type :: "bytes \<Rightarrow> bytes \<times> bytes" where
  "parse_attr_type p =
    (if dtd_peek p = 0x28 then
       (takeWhile (\<lambda>c. c \<noteq> 0x29) (tl p), tl (dropWhile (\<lambda>c. c \<noteq> 0x29) (tl p)))
     else
       (takeWhile (\<lambda>c. c \<noteq> 0x3E \<and> c \<noteq> 0x23 \<and> \<not> c_space c) p, dropWhile (\<lambda>c. c \<noteq> 0x3E \<and> c \<noteq> 0x23 \<and> \<not> c_space c) p))"

definition parse_attr_default :: "attribute_decl \<Rightarrow> bytes \<Rightarrow> attribute_decl \<times> bytes" where
  "parse_attr_default ad p =
    (if dtd_peek p = 0x23 then
       (case dtd_parse_name (tl p) of
          (None, p) \<Rightarrow> (ad, p)
        | (Some keyword, p) \<Rightarrow>
            if keyword = ascii ''REQUIRED'' then (ad\<lparr>default_type := DTD_ATTR_REQUIRED\<rparr>, p)
            else if keyword = ascii ''IMPLIED'' then (ad\<lparr>default_type := DTD_ATTR_IMPLIED\<rparr>, p)
            else if keyword = ascii ''FIXED'' then
              (case dtd_parse_quoted_string (dtd_skip_whitespace p) of
                 (None, p) \<Rightarrow> (ad\<lparr>default_type := DTD_ATTR_FIXED\<rparr>, p)
               | (Some v, p) \<Rightarrow> (ad\<lparr>default_type := DTD_ATTR_FIXED, default_value := Some v\<rparr>, p))
            else (ad, p))
     else if is_quote (dtd_peek p) then
       (case dtd_parse_quoted_string p of
          (None, p) \<Rightarrow> (ad, p)
        | (Some v, p) \<Rightarrow> (ad\<lparr>default_type := DTD_ATTR_DEFAULT, default_value := Some v\<rparr>, p))
     else (ad, p))"

definition parse_attribute :: "bytes \<Rightarrow> bytes \<Rightarrow> bytes \<Rightarrow> attribute_decl \<times> bytes" where
  "parse_attribute elem name p =
    (case parse_attr_type (dtd_skip_whitespace p) of
       (ty, p) \<Rightarrow>
         let ad = dtd_attribute_decl_create_pooled elem name;
             ad = (if ty = [] then ad else ad\<lparr>at_type := cstr ty\<rparr>) in
         parse_attr_default ad (dtd_skip_whitespace p))"

lemma parse_name_length:
  "dtd_parse_name p = (Some n, r) \<Longrightarrow> length r < length p" "dtd_parse_name p = (None, r) \<Longrightarrow> length r \<le> length p"
proof -
  have "length (dropWhile P q) \<le> length q" for P and q :: bytes by (rule length_dropWhile_le)
  note le = order.trans[OF this length_dropWhile_le]
  have "takeWhile dtd_name_byte q \<noteq> [] \<Longrightarrow> length (dropWhile dtd_name_byte q) < length q" for q
    using takeWhile_dropWhile_id[of dtd_name_byte q] by (metis length_append length_greater_0_conv less_add_same_cancel2)
  then show "dtd_parse_name p = (Some n, r) \<Longrightarrow> length r < length p"
    using length_dropWhile_le[of c_space p]
    by (auto simp: dtd_parse_name_def dtd_skip_whitespace_def Let_def split: if_splits intro: less_le_trans)
  show "dtd_parse_name p = (None, r) \<Longrightarrow> length r \<le> length p"
    using le by (auto simp: dtd_parse_name_def dtd_skip_whitespace_def Let_def split: if_splits)
qed

named_theorems shorter \<comment> \<open>what is left of a text is no longer than the text\<close>

lemma skip_shorter [shorter]: "length (dtd_skip_whitespace p) \<le> length p"
  by (simp add: dtd_skip_whitespace_def length_dropWhile_le)

lemma tl_dropWhile_shorter [shorter]: "length (tl (dropWhile P (tl p))) \<le> length p" "length (dropWhile P (tl p)) \<le> length p"
  "length (dropWhile P p) \<le> length p"
  using length_dropWhile_le[of P "tl p"] length_dropWhile_le[of P p] by auto

lemma quoted_shorter [shorter]: "length (snd (dtd_parse_quoted_string p)) \<le> length p"
  using tl_dropWhile_shorter(1)[of "\<lambda>c. c \<noteq> dtd_peek (dtd_skip_whitespace p)" "dtd_skip_whitespace p"] skip_shorter[of p]
  by (simp add: dtd_parse_quoted_string_def Let_def)

lemma name_shorter [shorter]: "length (snd (dtd_parse_name p)) \<le> length p"
proof -
  obtain n r where n: "dtd_parse_name p = (n, r)" by fastforce
  then show ?thesis using parse_name_length(1)[of p _ r] parse_name_length(2)[of p r] by (cases n) (auto simp: less_imp_le)
qed

lemma type_shorter [shorter]: "length (snd (parse_attr_type p)) \<le> length p"
  using tl_dropWhile_shorter[of _ p] by (simp add: parse_attr_type_def)

lemma default_shorter [shorter]: "length (snd (parse_attr_default ad p)) \<le> length p"
proof -
  obtain k r where k: "dtd_parse_name (tl p) = (k, r)" by fastforce
  have r: "length r \<le> length p" using name_shorter[of "tl p"] k by simp
  have "length (snd (dtd_parse_quoted_string (dtd_skip_whitespace r))) \<le> length p"
    using quoted_shorter[of "dtd_skip_whitespace r"] skip_shorter[of r] r by linarith
  then show ?thesis using k r quoted_shorter[of p]
    by (auto simp: parse_attr_default_def split: prod.splits option.splits)
qed

lemma attribute_shorter: "length (snd (parse_attribute elem name p)) \<le> length p"
proof -
  let ?t = "parse_attr_type (dtd_skip_whitespace p)"
  have "length (snd (parse_attribute elem name p)) \<le> length (dtd_skip_whitespace (snd ?t))"
    using default_shorter by (simp add: parse_attribute_def Let_def split: prod.split)
  also have "\<dots> \<le> length p"
    using skip_shorter[of "snd ?t"] type_shorter[of "dtd_skip_whitespace p"] skip_shorter[of p] by linarith
  finally show ?thesis .
qed

text \<open>The attributes of an \<open>ATTLIST\<close>, up to its end or to what is no name.\<close>

function attlist :: "bytes \<Rightarrow> bytes \<Rightarrow> dtd \<Rightarrow> bytes \<times> dtd" where
  "attlist elem p d =
    (if p = [] \<or> dtd_peek p = 0x3E then (p, d)
     else let p = dtd_skip_whitespace p in
       if dtd_peek p = 0x3E then (p, d)
       else (case dtd_parse_name p of
               (None, p) \<Rightarrow> (p, d)
             | (Some name, p) \<Rightarrow>
                 (case parse_attribute elem name p of (ad, p) \<Rightarrow> attlist elem p (add_attribute ad d))))"
  by pat_completeness auto
termination
proof (relation "measure (\<lambda>(elem, p, d). length p)", goal_cases)
  case (2 elem p d r o r1 name ad r2)
  then have "length r2 \<le> length r1" "length r1 < length r" "length r \<le> length p"
    using attribute_shorter[of elem name r1] parse_name_length(1)[of r name r1] skip_shorter[of p]
    by (auto simp: prod_eq_iff)
  then show ?case by simp
qed simp

declare attlist.simps [simp del]

lemma attlist_shorter: "length (fst (attlist elem p d)) \<le> length p"
proof (induction elem p d rule: attlist.induct)
  case (1 elem p d)
  show ?case
  proof (cases "p = [] \<or> dtd_peek p = 0x3E \<or> dtd_peek (dtd_skip_whitespace p) = 0x3E")
    case True
    then show ?thesis using skip_shorter[of p] by (auto simp: attlist.simps[of elem p d] Let_def)
  next
    case False
    obtain nm r where n: "dtd_parse_name (dtd_skip_whitespace p) = (nm, r)" by fastforce
    have r: "length r \<le> length p" using name_shorter[of "dtd_skip_whitespace p"] skip_shorter[of p] n by simp
    show ?thesis
    proof (cases nm)
      case None
      then show ?thesis using False n r by (simp add: attlist.simps[of elem p d] Let_def)
    next
      case (Some name)
      obtain ad r2 where a: "parse_attribute elem name r = (ad, r2)" by fastforce
      have "length r2 \<le> length r" using attribute_shorter[of elem name r] a by simp
      moreover have "length (fst (attlist elem r2 (add_attribute ad d))) \<le> length r2"
        by (rule 1[of "dtd_skip_whitespace p" nm r name ad r2]) (use False n Some a in auto)
      ultimately show ?thesis using False n r Some a by (simp add: attlist.simps[of elem p d] Let_def)
    qed
  qed
qed

section \<open>Parameter entities inside a declaration\<close>

definition DTD_PE_MAX_DEPTH :: nat where "DTD_PE_MAX_DEPTH = 16"

text \<open>
  The buffer: its capacity, the bytes written from its start, and whether one of them was written past
  its end. \<open>store\<close> is the write of one byte at the end.
\<close>

record buffer =
  capacity :: nat
  written_bytes :: bytes
  overran :: bool

definition store :: "u8 \<Rightarrow> buffer \<Rightarrow> buffer" where
  "store c b = b\<lparr>written_bytes := written_bytes b @ [c], overran := overran b \<or> length (written_bytes b) \<ge> capacity b\<rparr>"

text \<open>The name between a \<open>'%'\<close> and a \<open>';'\<close>, and what follows.\<close>

definition pe_reference :: "bytes \<Rightarrow> (bytes \<times> bytes) option" where
  "pe_reference p =
    (let name = takeWhile (\<lambda>c. c \<noteq> 0x3B \<and> c \<noteq> 0x25 \<and> \<not> c_space c) p;
         q = dropWhile (\<lambda>c. c \<noteq> 0x3B \<and> c \<noteq> 0x25 \<and> \<not> c_space c) p in
     if q \<noteq> [] \<and> hd q = 0x3B \<and> name \<noteq> [] \<and> length name < 128 then Some (name, tl q) else None)"

text \<open>What replaces a reference: a declared value, or a text from the loader.\<close>

datatype pe_text = Declared bytes | Loaded bytes

definition pe_text :: "dtd \<Rightarrow> nat \<Rightarrow> bytes \<Rightarrow> pe_text option" where
  "pe_text d depth name =
    (case ttdtd_lookup_entity d (0x25 # name) of
       None \<Rightarrow> None
     | Some pe \<Rightarrow>
         if depth \<ge> DTD_PE_MAX_DEPTH then None
         else if en_type pe = DTD_ENTITY_INTERNAL then map_option Declared (en_value pe)
         else (case (en_system_id pe, pe_loader d) of
                 (Some sys, Some load) \<Rightarrow> map_option Loaded (load sys)
               | _ \<Rightarrow> None))"

function dtd_substitute_decl_pes :: "dtd \<Rightarrow> nat \<Rightarrow> bytes \<Rightarrow> bytes option \<times> bool"
  and substitute_loop :: "dtd \<Rightarrow> nat \<Rightarrow> bytes \<Rightarrow> buffer \<Rightarrow> bool \<Rightarrow> bytes option \<times> bool" where
  "dtd_substitute_decl_pes d depth t =
    (if 0x25 \<notin> set t then (None, False)
     else substitute_loop d depth t \<lparr>capacity = length t + 1, written_bytes = [], overran = False\<rparr> False)"
| "substitute_loop d depth [] out substituted =
    (let over = overran (store 0 out) in if substituted then (Some (written_bytes out), over) else (None, over))"
| "substitute_loop d depth (c # p) out substituted =
    (case if c = 0x25 then pe_reference p else None of
       None \<Rightarrow> substitute_loop d depth p (store c out) substituted
     | Some (name, tail) \<Rightarrow>
         (case pe_text d depth name of
            None \<Rightarrow> substitute_loop d depth p (store c out) substituted
          | Some (Declared v) \<Rightarrow>
              substitute_loop d depth tail
                \<lparr>capacity = length (written_bytes out) + length v + (length tail + 1) + 1,
                 written_bytes = written_bytes out @ v @ tail, overran = overran out\<rparr> True
          | Some (Loaded got) \<Rightarrow>
              let grown = written_bytes out @ got @ tail in
              (case dtd_substitute_decl_pes d (depth + 1) grown of
                 (None, over) \<Rightarrow> (Some grown, overran out \<or> over)
               | (Some rec, over) \<Rightarrow> (Some rec, overran out \<or> over))))"
  by pat_completeness auto

lemma pe_reference_shorter:
  assumes "pe_reference p = Some (name, tail)"
  shows "length tail < length p"
proof -
  let ?q = "dropWhile (\<lambda>c. c \<noteq> 0x3B \<and> c \<noteq> 0x25 \<and> \<not> c_space c) p"
  have "?q \<noteq> []" "tail = tl ?q" using assms by (simp_all add: pe_reference_def Let_def split: if_split_asm)
  then have "length tail < length ?q" by simp
  then show ?thesis using length_dropWhile_le by (rule less_le_trans)
qed

lemma pe_text_depth: "pe_text d depth name = Some t \<Longrightarrow> depth < DTD_PE_MAX_DEPTH"
  by (auto simp: pe_text_def split: option.splits if_splits)

termination dtd_substitute_decl_pes
proof (relation "measures
    [case_sum (\<lambda>(d, depth, t). DTD_PE_MAX_DEPTH - depth) (\<lambda>(d, depth, p, out, s). DTD_PE_MAX_DEPTH - depth),
     case_sum (\<lambda>(d, depth, t). length t + 1) (\<lambda>(d, depth, p, out, s). length p)]", goal_cases)
  case (5 d depth c p out substituted x name tail t v)
  then have "pe_reference p = Some (name, tail)" by (simp split: if_splits)
  then show ?case using pe_reference_shorter[of p name tail] by simp
next
  case (6 d depth c p out substituted x name tail t got grown)
  then show ?case using pe_text_depth[of d depth name] by auto
qed simp_all

declare dtd_substitute_decl_pes.simps [simp del]

section \<open>The main loop\<close>

text \<open>From the \<open>"]]>"\<close> that closes a conditional section on, with the sections inside it left out.\<close>

function section_end :: "nat \<Rightarrow> bytes \<Rightarrow> bytes" where
  "section_end nest p =
    (if p = [] then []
     else if dtd_match (ascii ''<!['') p then section_end (nest + 1) (drop 3 p)
     else if dtd_match (ascii '']]>'') p then (if nest - 1 = 0 then p else section_end (nest - 1) (drop 3 p))
     else section_end nest (tl p))"
  by pat_completeness auto
termination
  by (relation "measure (\<lambda>(nest, p). length p)") auto

declare section_end.simps [simp del]

text \<open>The definition, and whether a buffer was overrun on the way.\<close>

type_synonym parse_state = "dtd \<times> bool"

text \<open>The loop goes on with a text, or parses another one first, at some depth, into the same definition.\<close>

datatype next_step = Go_on bytes parse_state | First nat bytes bytes parse_state

definition register :: "('a \<Rightarrow> dtd \<Rightarrow> dtd) \<Rightarrow> 'a option \<times> bytes \<Rightarrow> parse_state \<Rightarrow> next_step" where
  "register add r st =
    (case r of
       (Some x, p) \<Rightarrow> Go_on p (add x (fst st), snd st)
     | (None, p) \<Rightarrow> Go_on p ((fst st)\<lparr>parse_failed := True\<rparr>, snd st))"

definition skip_declaration :: "bytes \<Rightarrow> bytes" where
  "skip_declaration p = tl (dropWhile (\<lambda>c. c \<noteq> 0x3E) p)"

definition attlist_step :: "bytes \<Rightarrow> parse_state \<Rightarrow> next_step" where
  "attlist_step p st =
    (case dtd_parse_name (dtd_skip_whitespace p) of
       (None, p) \<Rightarrow> Go_on (skip_declaration p) ((fst st)\<lparr>parse_failed := True\<rparr>, snd st)
     | (Some elem, p) \<Rightarrow>
         (case attlist elem p (fst st) of
            (p, d) \<Rightarrow> Go_on (if dtd_peek p = 0x3E then tl p else p) (d, snd st)))"

text \<open>The body is what is left of the text \<open>p\<close> up to the end of the section.\<close>

definition section_body :: "nat \<Rightarrow> bytes \<Rightarrow> bytes \<Rightarrow> parse_state \<Rightarrow> next_step" where
  "section_body depth kw p st =
    (let e = section_end 1 p in
     if kw = ascii ''INCLUDE'' then
       (let body = take (length p - length e) p; q = (if dtd_match (ascii '']]>'') e then drop 3 e else e) in
        if body = [] then Go_on q st else First depth body q st)
     else Go_on (drop 3 e) st)"

definition conditional_section :: "nat \<Rightarrow> bytes \<Rightarrow> parse_state \<Rightarrow> next_step" where
  "conditional_section depth p st =
    (let p = dtd_skip_whitespace p;
         kw = takeWhile (\<lambda>c. c_alnum c \<or> c = 0x5F) p;
         p = dtd_skip_whitespace (dropWhile (\<lambda>c. c_alnum c \<or> c = 0x5F) p) in
     section_body depth kw (if dtd_peek p = 0x5B then tl p else p) st)"

definition declaration_step :: "nat \<Rightarrow> bytes \<Rightarrow> parse_state \<Rightarrow> next_step" where
  "declaration_step depth p st =
    (if dtd_match (ascii ''<!ENTITY'') p then register add_entity (dtd_parse_entity p) st
     else if dtd_match (ascii ''<!ELEMENT'') p then register add_element (dtd_parse_element p) st
     else if dtd_match (ascii ''<!NOTATION'') p then register add_notation (dtd_parse_notation p) st
     else if dtd_match (ascii ''<!ATTLIST'') p then attlist_step (drop 9 p) st
     else if dtd_match (ascii ''<!['') p then conditional_section depth (drop 3 p) st
     else Go_on (skip_declaration p) st)"

definition comment_end :: "bytes \<Rightarrow> bytes" where
  "comment_end p = drop 3 (drop (length (takeWhile (\<lambda>i. \<not> dtd_match (ascii ''-->'') (drop i p)) [0..<length p])) p)"

text \<open>A reference between declarations is replaced by its value in front of the rest.\<close>

definition reference_step :: "nat \<Rightarrow> bytes \<Rightarrow> parse_state \<Rightarrow> next_step" where
  "reference_step depth p st =
    (let name = takeWhile (\<lambda>c. c \<noteq> 0x3B \<and> \<not> c_space c) p; q = dropWhile (\<lambda>c. c \<noteq> 0x3B \<and> \<not> c_space c) p;
         skipped = Go_on (tl (dropWhile (\<lambda>c. c \<noteq> 0x3B) p)) st in
     if dtd_peek q = 0x3B \<and> name \<noteq> [] \<and> length name < 128 then
       (case ttdtd_lookup_entity (fst st) (0x25 # name) of
          Some pe \<Rightarrow>
            if en_type pe = DTD_ENTITY_INTERNAL \<and> en_value pe \<noteq> None \<and> depth < DTD_PE_MAX_DEPTH
            then First (depth + 1) (the (en_value pe) @ tl q) [] st
            else skipped
        | None \<Rightarrow> skipped)
     else skipped)"

definition takes_references :: "bytes \<Rightarrow> bool" where
  "takes_references p \<longleftrightarrow> dtd_match (ascii ''<!ELEMENT'') p \<or> dtd_match (ascii ''<!ATTLIST'') p \<or> dtd_match (ascii ''<!NOTATION'') p"

definition dtd_step :: "nat \<Rightarrow> bytes \<Rightarrow> parse_state \<Rightarrow> next_step" where
  "dtd_step depth p st =
    (let p = dtd_skip_whitespace p in
     if dtd_match (ascii ''<!--'') p then Go_on (comment_end (drop 4 p)) st
     else if dtd_peek p = 0x25 then reference_step depth (tl p) st
     else if takes_references p \<and> 0x3E \<in> set p then
       (case dtd_substitute_decl_pes (fst st) depth (takeWhile (\<lambda>c. c \<noteq> 0x3E) p @ [0x3E]) of
          (None, over) \<Rightarrow> declaration_step depth p (fst st, snd st \<or> over)
        | (Some sub, over) \<Rightarrow> First (depth + 1) (cstr sub) (skip_declaration p) (fst st, snd st \<or> over))
     else declaration_step depth p st)"

text \<open>Every round takes something from the text, and what is parsed first is shorter or one level deeper.\<close>

definition progress :: "nat \<Rightarrow> nat \<Rightarrow> next_step \<Rightarrow> bool" where
  "progress depth n s \<longleftrightarrow>
    (case s of
       Go_on q st \<Rightarrow> length q < n
     | First k buf q st \<Rightarrow> length q < n \<and> (k = depth \<and> length buf < n \<or> k = Suc depth \<and> depth < DTD_PE_MAX_DEPTH))"

lemma progress_simps [simp]:
  "progress depth n (Go_on q st) \<longleftrightarrow> length q < n"
  "progress depth n (First k buf q st) \<longleftrightarrow>
    length q < n \<and> (k = depth \<and> length buf < n \<or> k = Suc depth \<and> depth < DTD_PE_MAX_DEPTH)"
  by (simp_all add: progress_def)

lemma progress_mono: "progress depth n s \<Longrightarrow> n \<le> m \<Longrightarrow> progress depth m s"
  by (auto simp: progress_def split: next_step.splits)

lemma finish_shorter: "length (snd (finish x p)) \<le> length p"
proof (cases "dropWhile (\<lambda>c. c \<noteq> 0x3E) p")
  case (Cons c q)
  then show ?thesis using length_dropWhile_le[of "\<lambda>c. c \<noteq> 0x3E" p] by (simp add: finish_def skip_gt_def)
next
  case Nil
  then show ?thesis by (simp only: finish_def skip_gt_def list.case option.case snd_conv list.size le0)
qed

lemma finish_le: "length p \<le> n \<Longrightarrow> length (snd (finish x p)) \<le> n"
  by (rule order.trans[OF finish_shorter])

lemma quoted_cases: "dtd_parse_quoted_string p = (r, q) \<Longrightarrow> length q \<le> length p"
  using quoted_shorter[of p] by simp

lemma name_cases: "dtd_parse_name p = (r, q) \<Longrightarrow> length q \<le> length p"
  using name_shorter[of p] by simp

lemma external_id_shorter: "length (snd (parse_external_id p)) \<le> length p"
proof -
  obtain a q where a: "dtd_parse_quoted_string (dtd_skip_whitespace (drop 6 p)) = (a, q)" by fastforce
  have q: "length q \<le> length p" using quoted_cases[OF a] skip_shorter[of "drop 6 p"] by simp
  obtain b r where b: "dtd_parse_quoted_string (dtd_skip_whitespace q) = (b, r)" by fastforce
  have "length r \<le> length p" using quoted_cases[OF b] skip_shorter[of q] q by simp
  then show ?thesis using a b q skip_shorter[of q] by (simp add: parse_external_id_def Let_def)
qed

lemma entity_value_shorter: "length (snd (parse_entity_value e p)) \<le> length p"
  using external_id_shorter[of p] quoted_shorter[of p] by (auto simp: parse_entity_value_def split: prod.splits)

lemma ndata_shorter: "length (snd (parse_ndata e p)) \<le> length p"
proof -
  obtain nn q where n: "dtd_parse_name (dtd_skip_whitespace (drop 5 p)) = (nn, q)" by fastforce
  have "length q \<le> length p" using name_cases[OF n] skip_shorter[of "drop 5 p"] by simp
  then show ?thesis using n by (simp add: parse_ndata_def finish_le)
qed

lemma entity_shorter: "8 \<le> length p \<Longrightarrow> length (snd (dtd_parse_entity p)) < length p"
proof -
  assume p: "8 \<le> length p"
  let ?p1 = "dtd_skip_whitespace (drop 8 p)"
  let ?param = "dtd_peek ?p1 = 0x25"
  let ?p2 = "if ?param then dtd_skip_whitespace (tl ?p1) else ?p1"
  have p2: "length ?p2 \<le> length p - 8" using skip_shorter[of "drop 8 p"] skip_shorter[of "tl ?p1"] by (auto intro: le_trans)
  obtain nm q where n: "dtd_parse_name ?p2 = (nm, q)" by fastforce
  have q: "length q \<le> length p - 8" using name_cases[OF n] p2 by simp
  have "length (snd (dtd_parse_entity p)) \<le> length p - 8"
  proof (cases nm)
    case None
    then show ?thesis using n q by (simp add: dtd_parse_entity_def Let_def)
  next
    case (Some name)
    obtain e r where v: "parse_entity_value (ttdtd_entity_create (if ?param then 0x25 # name else name)) (dtd_skip_whitespace q) = (e, r)"
      by fastforce
    have "length r \<le> length q"
      using entity_value_shorter[of _ "dtd_skip_whitespace q"] skip_shorter[of q] v by (metis le_trans snd_conv)
    then have "length (snd (parse_ndata e (dtd_skip_whitespace r))) \<le> length q"
      using ndata_shorter[of e "dtd_skip_whitespace r"] skip_shorter[of r] by linarith
    moreover have "dtd_parse_entity p = parse_ndata e (dtd_skip_whitespace r)"
      using n Some v by (simp add: dtd_parse_entity_def Let_def)
    ultimately show ?thesis using q by simp
  qed
  then show ?thesis using p by simp
qed

lemma model_end_shorter: "model_end depth quote p = Some q \<Longrightarrow> length q \<le> length p"
  by (induction p arbitrary: depth quote) (auto split: option.splits if_splits intro: le_SucI)

lemma content_shorter: "length (snd (parse_content elem r)) \<le> length r"
proof -
  show ?thesis
  proof (cases "model_end 0 None r")
    case None
    then show ?thesis unfolding parse_content_def by (auto intro: finish_le)
  next
    case (Some e)
    then have "length e \<le> length r" by (rule model_end_shorter)
    then have "length (if e \<noteq> [] \<and> is_occurrence (hd e) then tl e else e) \<le> length r" by auto
    then show ?thesis unfolding parse_content_def Some by (auto simp: Let_def intro: finish_le)
  qed
qed

lemma element_shorter: "9 \<le> length p \<Longrightarrow> length (snd (dtd_parse_element p)) < length p"
proof -
  assume p: "9 \<le> length p"
  obtain nm q where n: "dtd_parse_name (dtd_skip_whitespace (drop 9 p)) = (nm, q)" by fastforce
  have q: "length q \<le> length p - 9" using name_cases[OF n] skip_shorter[of "drop 9 p"] by simp
  have "length (snd (parse_content e (dtd_skip_whitespace q))) \<le> length q" for e
    using content_shorter[of e "dtd_skip_whitespace q"] skip_shorter[of q] by simp
  then have "length (snd (dtd_parse_element p)) \<le> length q" using n by (cases nm) (simp_all add: dtd_parse_element_def)
  then show ?thesis using p q by simp
qed

lemma notation_shorter: "10 \<le> length p \<Longrightarrow> length (snd (dtd_parse_notation p)) < length p"
proof -
  assume p: "10 \<le> length p"
  obtain nm q where n: "dtd_parse_name (dtd_skip_whitespace (drop 10 p)) = (nm, q)" by fastforce
  obtain x r where x: "parse_external_id (dtd_skip_whitespace q) = (x, r)" by fastforce
  have q: "length q \<le> length p - 10" "length (dtd_skip_whitespace q) \<le> length p - 10" "length r \<le> length p - 10"
    using name_cases[OF n] skip_shorter[of "drop 10 p"] skip_shorter[of q] external_id_shorter[of "dtd_skip_whitespace q"] x
    by simp_all
  have "length (snd (dtd_parse_notation p)) \<le> length p - 10"
  proof (cases nm)
    case None
    then show ?thesis using n q by (simp add: dtd_parse_notation_def)
  next
    case (Some name)
    then have "\<exists>e. dtd_parse_notation p = finish e (if external_id_ahead (dtd_skip_whitespace q) then r else dtd_skip_whitespace q)"
      using n x by (cases x) (auto simp: dtd_parse_notation_def Let_def)
    then obtain e where "dtd_parse_notation p = finish e (if external_id_ahead (dtd_skip_whitespace q) then r else dtd_skip_whitespace q)"
      by blast
    then show ?thesis using q by (simp add: finish_le)
  qed
  then show ?thesis using p by simp
qed

lemma match_length: "dtd_match str p \<Longrightarrow> length str \<le> length p"
  by (metis dtd_match_def length_take min.cobounded1)

lemma keyword_lengths:
  "dtd_match (ascii ''<!ENTITY'') p \<Longrightarrow> 8 \<le> length p" "dtd_match (ascii ''<!ELEMENT'') p \<Longrightarrow> 9 \<le> length p"
  "dtd_match (ascii ''<!NOTATION'') p \<Longrightarrow> 10 \<le> length p" "dtd_match (ascii ''<!ATTLIST'') p \<Longrightarrow> 9 \<le> length p"
  "dtd_match (ascii ''<!['') p \<Longrightarrow> 3 \<le> length p" "dtd_match (ascii ''<!--'') p \<Longrightarrow> 4 \<le> length p"
  by (drule match_length, simp add: ascii_def)+

lemma register_progress: "length (snd r) < n \<Longrightarrow> progress depth n (register add r st)"
  by (cases r; cases "fst r") (simp_all add: register_def progress_def)

lemma skip_declaration_shorter: "p \<noteq> [] \<Longrightarrow> length (skip_declaration p) < length p"
proof (cases "dropWhile (\<lambda>c. c \<noteq> 0x3E) p")
  case (Cons c q)
  then show ?thesis using length_dropWhile_le[of "\<lambda>c. c \<noteq> 0x3E" p] by (simp add: skip_declaration_def)
next
  case Nil
  assume "p \<noteq> []"
  then show ?thesis unfolding skip_declaration_def Nil by simp
qed

lemma attlist_progress:
  assumes "length p < n"
  shows "progress depth n (attlist_step p st)"
proof -
  obtain nm q where q: "dtd_parse_name (dtd_skip_whitespace p) = (nm, q)" by fastforce
  have le: "length q \<le> length p" using name_cases[OF q] skip_shorter[of p] by simp
  obtain r d where r: "attlist (the nm) q (fst st) = (r, d)" by fastforce
  have "length r \<le> length p" using attlist_shorter[of "the nm" q "fst st"] r le by simp
  then have r': "length (if dtd_peek r = 0x3E then tl r else r) \<le> length p" by auto
  show ?thesis
  proof (cases nm)
    case None
    have "length (skip_declaration q) \<le> length q"
      using skip_declaration_shorter[of q] by (cases q) (auto simp: skip_declaration_def)
    then show ?thesis using None q le assms by (simp add: attlist_step_def progress_def)
  next
    case (Some name)
    then show ?thesis using q r r' assms by (simp add: attlist_step_def progress_def split: if_splits)
  qed
qed

lemma section_end_shorter: "length (section_end nest p) \<le> length p"
proof (induction nest p rule: section_end.induct)
  case (1 nest p)
  then show ?case by (auto simp: section_end.simps[of nest p] intro: le_trans)
qed

lemma body_progress:
  assumes "length p < n"
  shows "progress depth n (section_body depth kw p st)"
proof -
  define e where "e = section_end 1 p"
  define q where "q = (if dtd_match (ascii '']]>'') e then drop 3 e else e)"
  have "length e < n" using section_end_shorter[of 1 p] assms unfolding e_def by (rule le_less_trans)
  then have "length q < n" "length (drop 3 e) < n" by (auto simp: q_def less_imp_diff_less)
  then show ?thesis unfolding section_body_def Let_def e_def[symmetric] q_def[symmetric] using assms by auto
qed

lemma section_progress:
  assumes "length p < n"
  shows "progress depth n (conditional_section depth p st)"
proof -
  define q where "q = dtd_skip_whitespace (dropWhile (\<lambda>c. c_alnum c \<or> c = 0x5F) (dtd_skip_whitespace p))"
  have "length q \<le> length p"
    unfolding q_def using skip_shorter length_dropWhile_le by (meson le_trans)
  then have "length (if dtd_peek q = 0x5B then tl q else q) < n" using assms by auto
  then show ?thesis unfolding conditional_section_def Let_def q_def[symmetric] by (rule body_progress)
qed

lemma declaration_progress:
  assumes "p \<noteq> []"
  shows "progress depth (length p) (declaration_step depth p st)"
  unfolding declaration_step_def
  using assms entity_shorter[OF keyword_lengths(1)] element_shorter[OF keyword_lengths(2)]
    notation_shorter[OF keyword_lengths(3)] skip_declaration_shorter[OF assms] keyword_lengths(4)[of p] keyword_lengths(5)[of p]
  by (auto intro!: register_progress attlist_progress section_progress)

lemma substitute_depth:
  "dtd_substitute_decl_pes d depth t = (Some s, over) \<Longrightarrow> depth < DTD_PE_MAX_DEPTH"
  "substitute_loop d depth p out sub = (Some s, over) \<Longrightarrow> sub \<or> depth < DTD_PE_MAX_DEPTH"
proof (induction d depth t and d depth p out sub arbitrary: s over and s over
    rule: dtd_substitute_decl_pes_substitute_loop.induct)
  case (1 d depth t)
  then show ?case by (auto simp: dtd_substitute_decl_pes.simps split: if_splits)
next
  case (2 d depth out sub)
  then show ?case by (auto simp: Let_def split: if_splits)
next
  case (3 d depth c p out sub)
  show ?case
  proof (cases "if c = 0x25 then pe_reference p else None")
    case None
    then show ?thesis using 3(1)[OF None] 3(5) by simp
  next
    case (Some x)
    obtain name tail where x: "x = (name, tail)" by fastforce
    show ?thesis
    proof (cases "pe_text d depth name")
      case None
      then show ?thesis using 3(2)[OF Some x[symmetric] None] 3(5) Some x by simp
    next
      case (Some t)
      then show ?thesis by (auto dest: pe_text_depth)
    qed
  qed
qed

lemma step_progress:
  assumes "p \<noteq> []"
  shows "progress depth (length p) (dtd_step depth p st)"
proof -
  define q where "q = dtd_skip_whitespace p"
  have q: "length q \<le> length p" unfolding q_def by (rule skip_shorter)
  show ?thesis
  proof (cases "q = []")
    case True
    then show ?thesis using assms
      by (simp add: dtd_step_def q_def[symmetric] dtd_match_def dtd_peek_def takes_references_def declaration_step_def
          skip_declaration_def progress_def ascii_def)
  next
    case False
    have decl: "progress depth (length p) (declaration_step depth q st)" for st
      by (rule progress_mono[OF declaration_progress[OF False] q])
    have ref: "progress depth (length p) (reference_step depth (tl q) st)"
    proof -
      have "length (tl (dropWhile (\<lambda>c. c \<noteq> 0x3B) (tl q))) < length p"
        using False q tl_dropWhile_shorter(2)[of "\<lambda>c. c \<noteq> 0x3B" q] length_dropWhile_le[of "\<lambda>c. c \<noteq> 0x3B" "tl q"]
        by (cases q) auto
      then show ?thesis using False q assms
        by (auto simp: reference_step_def progress_def Let_def split: option.splits if_splits)
    qed
    have com: "length (comment_end (drop 4 q)) < length p" if "dtd_match (ascii ''<!--'') q"
      using keyword_lengths(6)[OF that] q by (simp add: comment_end_def)
    have sub: "progress depth (length p) (First (depth + 1) (cstr s) (skip_declaration q) st')"
      if "dtd_substitute_decl_pes (fst st) depth t = (Some s, over)" for s over t st'
      using substitute_depth(1)[OF that] skip_declaration_shorter[OF False] q by (simp add: progress_def)
    show ?thesis
      unfolding dtd_step_def Let_def q_def[symmetric]
      using decl ref com sub by (auto split: prod.splits option.splits)
  qed
qed

text \<open>\<open>dtd_parse_into\<close>, the loop with the texts that are parsed first.\<close>

function parse_loop :: "nat \<Rightarrow> bytes \<Rightarrow> parse_state \<Rightarrow> parse_state" where
  "parse_loop depth p st =
    (if p = [] then st
     else (case dtd_step depth p st of
             Go_on q st \<Rightarrow> parse_loop depth q st
           | First k buf q st \<Rightarrow> parse_loop depth q (parse_loop k buf st)))"
  by pat_completeness auto
termination
proof (relation "measures [\<lambda>(depth, p, st). DTD_PE_MAX_DEPTH - depth, \<lambda>(depth, p, st). length p]", goal_cases)
  case (2 depth p st q st')
  then show ?case using step_progress[of p depth st] by simp
next
  case (3 depth p st k buf q st')
  then show ?case using step_progress[of p depth st] by auto
next
  case (4 depth p st k buf q st')
  then show ?case using step_progress[of p depth st] by simp
qed simp

declare parse_loop.simps [simp del]

definition dtd_parse_into :: "dtd \<Rightarrow> bytes \<Rightarrow> nat \<Rightarrow> dtd" where
  "dtd_parse_into d t depth = fst (parse_loop depth t (d, False))"

definition leptris_dtd_parse_internal_subset :: "bytes \<Rightarrow> dtd option" where
  "leptris_dtd_parse_internal_subset t = (if t = [] then None else Some (dtd_parse_into leptris_dtd_create t 0))"

definition leptris_dtd_parse_external_subset :: "dtd \<Rightarrow> bytes \<Rightarrow> int \<times> dtd" where
  "leptris_dtd_parse_external_subset d t = (if t = [] then (-1, d) else (1, dtd_parse_into d t 0))"

definition leptris_dtd_set_pe_loader :: "(bytes \<Rightarrow> bytes option) option \<Rightarrow> dtd \<Rightarrow> dtd" where
  "leptris_dtd_set_pe_loader loader d = d\<lparr>pe_loader := loader\<rparr>"

definition leptris_dtd_parse :: "bytes \<Rightarrow> dtd option" where
  "leptris_dtd_parse t =
    (case leptris_dtd_parse_internal_subset t of
       None \<Rightarrow> None
     | Some d \<Rightarrow> if parse_failed d then None else Some d)"

end
