(* ===== verification/DtdRoundtrip.thy ===== *)
theory DtdRoundtrip
  imports DtdParser
begin

text \<open>
  What the parser of definitions does with well-formed text, shown by printing: the declarations of a
  printed definition are parsed back, in order, into the tables; and with parameter entities: the
  splice inside a declaration writes past its buffer, and a chain of references is cut at the
  seventeenth.
\<close>

section \<open>Printing\<close>

definition quoted :: "bytes \<Rightarrow> bytes" where
  "quoted s = 0x22 # s @ [0x22]"

definition quotable :: "bytes \<Rightarrow> bool" where
  "quotable s \<longleftrightarrow> 0x22 \<notin> set s \<and> 0 \<notin> set s"

definition name_ok :: "bytes \<Rightarrow> bool" where
  "name_ok n \<longleftrightarrow> n \<noteq> [] \<and> list_all dtd_name_byte n"

definition print_id :: "bytes option \<Rightarrow> bytes option \<Rightarrow> bytes" where
  "print_id pub sys =
    (case (pub, sys) of
       (None, Some s) \<Rightarrow> ascii ''SYSTEM '' @ quoted s
     | (Some p, None) \<Rightarrow> ascii ''PUBLIC '' @ quoted p
     | (Some p, Some s) \<Rightarrow> ascii ''PUBLIC '' @ quoted p @ 0x20 # quoted s
     | (None, None) \<Rightarrow> [])"

definition id_ok :: "bytes option \<Rightarrow> bytes option \<Rightarrow> bool" where
  "id_ok pub sys \<longleftrightarrow> (\<forall>s \<in> set_option pub \<union> set_option sys. quotable s)"

definition entity_ok :: "entity_decl \<Rightarrow> bool" where
  "entity_ok e \<longleftrightarrow> (name_ok (en_name e) \<or> (\<exists>n. en_name e = 0x25 # n \<and> name_ok n)) \<and>
    (case en_type e of
       DTD_ENTITY_INTERNAL \<Rightarrow> (\<exists>v. en_value e = Some v \<and> quotable v) \<and> en_system_id e = None \<and> en_public_id e = None \<and> notation_name e = None
     | DTD_ENTITY_EXTERNAL \<Rightarrow> en_value e = None \<and> id_ok (en_public_id e) (en_system_id e)
         \<and> (en_public_id e \<noteq> None \<or> en_system_id e \<noteq> None) \<and> (\<forall>n. notation_name e = Some n \<longrightarrow> name_ok n))"

definition print_entity :: "entity_decl \<Rightarrow> bytes" where
  "print_entity e =
    ascii ''<!ENTITY '' @ (if hd (en_name e) = 0x25 then 0x25 # 0x20 # tl (en_name e) else en_name e) @ 0x20 #
    (case en_type e of
       DTD_ENTITY_INTERNAL \<Rightarrow> quoted (the (en_value e))
     | DTD_ENTITY_EXTERNAL \<Rightarrow> print_id (en_public_id e) (en_system_id e) @
         (case notation_name e of None \<Rightarrow> [] | Some n \<Rightarrow> ascii '' NDATA '' @ n)) @ [0x3E]"

text \<open>A content model is closed by the last of its parentheses, or by one occurrence character behind it.\<close>

definition model_ok :: "bytes \<Rightarrow> bool" where
  "model_ok m \<longleftrightarrow> m \<noteq> [] \<and> hd m = 0x28 \<and> 0x25 \<notin> set m \<and> 0 \<notin> set m \<and>
    (model_end 0 None m = Some [] \<or> (\<exists>c. is_occurrence c \<and> model_end 0 None m = Some [c]))"

definition element_ok :: "element_decl \<Rightarrow> bool" where
  "element_ok e \<longleftrightarrow> name_ok (el_name e) \<and>
    (case content_model e of
       None \<Rightarrow> content_type e = DTD_CONTENT_EMPTY \<or> content_type e = DTD_CONTENT_ANY
     | Some m \<Rightarrow> model_ok m \<and>
         content_type e = (if has_substring m (ascii ''#PCDATA'') then DTD_CONTENT_MIXED else DTD_CONTENT_CHILDREN))"

definition print_element :: "element_decl \<Rightarrow> bytes" where
  "print_element e =
    ascii ''<!ELEMENT '' @ el_name e @ 0x20 #
    (case content_model e of
       Some m \<Rightarrow> m
     | None \<Rightarrow> if content_type e = DTD_CONTENT_EMPTY then ascii ''EMPTY'' else ascii ''ANY'') @ [0x3E]"

definition notation_ok :: "notation_decl \<Rightarrow> bool" where
  "notation_ok e \<longleftrightarrow> name_ok (no_name e) \<and> id_ok (no_public_id e) (no_system_id e)
    \<and> (\<forall>s \<in> set_option (no_public_id e) \<union> set_option (no_system_id e). 0x25 \<notin> set s)"

definition print_notation :: "notation_decl \<Rightarrow> bytes" where
  "print_notation e = ascii ''<!NOTATION '' @ no_name e @ 0x20 # print_id (no_public_id e) (no_system_id e) @ [0x3E]"

definition type_byte :: "u8 \<Rightarrow> bool" where
  "type_byte c \<longleftrightarrow> c \<noteq> 0x3E \<and> c \<noteq> 0x23 \<and> \<not> c_space c"

definition attribute_ok :: "attribute_decl \<Rightarrow> bool" where
  "attribute_ok a \<longleftrightarrow> name_ok (at_element a) \<and> name_ok (at_name a) \<and> at_type a \<noteq> [] \<and> 0 \<notin> set (at_type a) \<and> 0x25 \<notin> set (at_type a)
    \<and> (if 0x7C \<in> set (at_type a) then 0x29 \<notin> set (at_type a) else list_all type_byte (at_type a) \<and> hd (at_type a) \<noteq> 0x28)
    \<and> (case default_type a of
         DTD_ATTR_REQUIRED \<Rightarrow> default_value a = None
       | DTD_ATTR_IMPLIED \<Rightarrow> default_value a = None
       | _ \<Rightarrow> (\<exists>v. default_value a = Some v \<and> quotable v \<and> 0x25 \<notin> set v))"

definition print_default :: "attribute_decl \<Rightarrow> bytes" where
  "print_default a =
    (case default_type a of
       DTD_ATTR_REQUIRED \<Rightarrow> ascii ''#REQUIRED''
     | DTD_ATTR_IMPLIED \<Rightarrow> ascii ''#IMPLIED''
     | DTD_ATTR_FIXED \<Rightarrow> ascii ''#FIXED '' @ quoted (the (default_value a))
     | DTD_ATTR_DEFAULT \<Rightarrow> quoted (the (default_value a)))"

definition print_attribute :: "attribute_decl \<Rightarrow> bytes" where
  "print_attribute a =
    ascii ''<!ATTLIST '' @ at_element a @ 0x20 # at_name a @ 0x20 #
    (if 0x7C \<in> set (at_type a) then 0x28 # at_type a @ [0x29] else at_type a) @ 0x20 #
    print_default a @ [0x3E]"

primrec decl_ok :: "decl \<Rightarrow> bool" where
  "decl_ok (Entity_decl e) \<longleftrightarrow> entity_ok e"
| "decl_ok (Element_decl e) \<longleftrightarrow> element_ok e"
| "decl_ok (Notation_decl e) \<longleftrightarrow> notation_ok e"
| "decl_ok (Attribute_decl e) \<longleftrightarrow> attribute_ok e"

primrec print_decl :: "decl \<Rightarrow> bytes" where
  "print_decl (Entity_decl e) = print_entity e"
| "print_decl (Element_decl e) = print_element e"
| "print_decl (Notation_decl e) = print_notation e"
| "print_decl (Attribute_decl e) = print_attribute e"

section \<open>Tokens of printed text\<close>

lemma stop_at: "list_all P xs \<Longrightarrow> \<not> P c \<Longrightarrow> takeWhile P (xs @ c # ys) = xs \<and> dropWhile P (xs @ c # ys) = c # ys"
  by (induction xs) auto

lemma ws_simps [simp]:
  "dtd_skip_whitespace (0x20 # p) = dtd_skip_whitespace p"
  "\<not> c_space c \<Longrightarrow> dtd_skip_whitespace (c # p) = c # p"
  "dtd_peek (c # p) = c"
  by (simp_all add: dtd_skip_whitespace_def dtd_peek_def) (simp add: c_space_def)

lemma not_space [simp]:
  "dtd_name_byte c \<Longrightarrow> \<not> c_space c" "\<not> c_space 0x22" "\<not> c_space 0x3C" "\<not> c_space 0x3E" "\<not> c_space 0x28" "\<not> c_space 0x25"
  "\<not> c_space 0x23"
  by (auto simp: dtd_name_byte_def c_alnum_def c_alpha_def c_space_def word_le_nat_alt)

lemma no_name_byte [simp]:
  "\<not> dtd_name_byte 0x20" "\<not> dtd_name_byte 0x3E" "\<not> dtd_name_byte 0x22" "\<not> dtd_name_byte 0x25" "\<not> dtd_name_byte 0x28"
  by (simp_all add: dtd_name_byte_def c_alnum_def c_alpha_def)

lemma skip_name [simp]: "name_ok n \<Longrightarrow> dtd_skip_whitespace (n @ p) = n @ p"
  by (cases n) (simp_all add: name_ok_def)

lemma parse_printed_name [simp]:
  "name_ok n \<Longrightarrow> \<not> dtd_name_byte c \<Longrightarrow> dtd_parse_name (n @ c # p) = (Some n, c # p)"
  using stop_at[of dtd_name_byte n c p] by (simp add: dtd_parse_name_def Let_def) (simp add: name_ok_def)

lemma parse_quoted [simp]:
  assumes "quotable s"
  shows "dtd_parse_quoted_string (quoted s @ p) = (Some s, p)"
proof -
  have "list_all (\<lambda>c. c \<noteq> 0x22) s" using assms by (auto simp: quotable_def list_all_iff)
  from stop_at[OF this, of "0x22" p] show ?thesis using assms
    by (simp add: dtd_parse_quoted_string_def quoted_def is_quote_def quotable_def cstr_id Let_def)
qed

lemma finish_gt [simp]: "finish x (0x3E # p) = (Some x, p)"
  by (simp add: finish_def skip_gt_def)

lemma parse_printed_id:
  assumes "id_ok pub sys" "pub \<noteq> None \<or> sys \<noteq> None"
  shows "external_id_ahead (print_id pub sys @ p) \<and>
    (\<not> is_quote (dtd_peek (dtd_skip_whitespace p)) \<longrightarrow>
      (\<exists>q. parse_external_id (print_id pub sys @ p) = ((pub, sys), q) \<and> (q = p \<or> q = dtd_skip_whitespace p)))"
proof (cases pub)
  case None
  then obtain s where s: "sys = Some s" "quotable s" using assms by (auto simp: id_ok_def)
  then have "print_id pub sys @ p = ascii ''SYSTEM '' @ quoted s @ p" using None by (simp add: print_id_def)
  then show ?thesis using s None parse_quoted[OF s(2), of p]
    by (simp add: external_id_ahead_def parse_external_id_def dtd_match_def ascii_def quoted_def)
next
  case (Some b)
  then have b: "quotable b" using assms by (simp add: id_ok_def)
  show ?thesis
  proof (cases sys)
    case None
    then have "print_id pub sys @ p = ascii ''PUBLIC '' @ quoted b @ p" using Some by (simp add: print_id_def)
    then show ?thesis using Some None parse_quoted[OF b, of p]
      by (simp add: external_id_ahead_def parse_external_id_def dtd_match_def ascii_def quoted_def)
  next
    case s: (Some s)
    then have q: "quotable s" using assms by (simp add: id_ok_def)
    have "print_id pub sys @ p = ascii ''PUBLIC '' @ quoted b @ 0x20 # quoted s @ p" using Some s by (simp add: print_id_def)
    then show ?thesis using Some s parse_quoted[OF b, of "0x20 # quoted s @ p"] parse_quoted[OF q, of p]
      by (simp add: external_id_ahead_def parse_external_id_def dtd_match_def ascii_def quoted_def is_quote_def)
  qed
qed

section \<open>Printed declarations are parsed back\<close>

lemma parse_print_entity:
  assumes ok: "entity_ok e"
  shows "dtd_parse_entity (print_entity e @ p) = (Some e, p)"
proof -
  define param where "param = (hd (en_name e) = 0x25)"
  obtain n where n: "name_ok n" "en_name e = (if param then 0x25 # n else n)"
  proof (cases "name_ok (en_name e)")
    case True
    then have "hd (en_name e) \<noteq> 0x25" using no_name_byte(4) by (cases "en_name e") (auto simp: name_ok_def simp del: no_name_byte)
    then show ?thesis using that[OF True] by (simp add: param_def)
  next
    case False
    then show ?thesis using that ok by (auto simp: entity_ok_def param_def)
  qed
  have nh: "n \<noteq> []" "hd n \<noteq> 0x25"
    using n(1) no_name_byte(4) by (cases n; auto simp: name_ok_def simp del: no_name_byte)+
  define t where "t = (case en_type e of
       DTD_ENTITY_INTERNAL \<Rightarrow> quoted (the (en_value e)) @ 0x3E # p
     | DTD_ENTITY_EXTERNAL \<Rightarrow> print_id (en_public_id e) (en_system_id e) @
         (case notation_name e of None \<Rightarrow> [] | Some n \<Rightarrow> ascii '' NDATA '' @ n) @ 0x3E # p)"
  have printed: "print_entity e @ p = ascii ''<!ENTITY '' @ (if param then 0x25 # 0x20 # n else n) @ 0x20 # t"
    using n(2) nh by (cases "en_type e") (auto simp: print_entity_def param_def t_def)
  let ?start = "dtd_skip_whitespace (drop 8 (print_entity e @ p))"
  have start: "?start = (if param then 0x25 # 0x20 # n @ 0x20 # t else n @ 0x20 # t)"
    unfolding printed using n(1) by (simp add: ascii_def)
  have pk: "dtd_peek ?start = 0x25 \<longleftrightarrow> param" unfolding start using nh by (cases n) auto
  have after: "(if dtd_peek ?start = 0x25 then dtd_skip_whitespace (tl ?start) else ?start) = n @ 0x20 # t"
    unfolding pk using start n(1) by (cases param) simp_all
  let ?e = "ttdtd_entity_create (en_name e)"
  have parsed: "dtd_parse_entity (print_entity e @ p) =
      (case parse_entity_value ?e (dtd_skip_whitespace t) of (entity, q) \<Rightarrow> parse_ndata entity (dtd_skip_whitespace q))"
    unfolding dtd_parse_entity_def Let_def unfolding after unfolding pk using n by simp
  show ?thesis
  proof (cases "en_type e")
    case DTD_ENTITY_INTERNAL
    then obtain v where v: "en_value e = Some v" "quotable v" "en_system_id e = None" "en_public_id e = None" "notation_name e = None"
      using ok by (auto simp: entity_ok_def)
    have t: "dtd_skip_whitespace t = quoted v @ 0x3E # p" using DTD_ENTITY_INTERNAL v(1) by (simp add: t_def quoted_def)
    have "\<not> external_id_ahead (quoted v @ 0x3E # p)" by (simp add: external_id_ahead_def dtd_match_def quoted_def ascii_def)
    then have "parse_entity_value ?e (dtd_skip_whitespace t) = (e, 0x3E # p)"
      unfolding t using v DTD_ENTITY_INTERNAL by (simp add: parse_entity_value_def ttdtd_entity_create_def)
    then show ?thesis unfolding parsed by (simp add: parse_ndata_def dtd_match_def ascii_def)
  next
    case DTD_ENTITY_EXTERNAL
    then have x: "en_value e = None" "id_ok (en_public_id e) (en_system_id e)" "en_public_id e \<noteq> None \<or> en_system_id e \<noteq> None"
        "\<And>n. notation_name e = Some n \<Longrightarrow> name_ok n"
      using ok by (auto simp: entity_ok_def)
    let ?r = "(case notation_name e of None \<Rightarrow> [] | Some n \<Rightarrow> ascii '' NDATA '' @ n) @ 0x3E # p"
    have r: "dtd_skip_whitespace ?r = (case notation_name e of None \<Rightarrow> [] | Some n \<Rightarrow> ascii ''NDATA '' @ n) @ 0x3E # p"
      by (cases "notation_name e") (simp_all add: ascii_def dtd_skip_whitespace_def c_space_def)
    have nq: "\<not> is_quote (dtd_peek (dtd_skip_whitespace ?r))"
      unfolding r by (cases "notation_name e") (simp_all add: ascii_def is_quote_def)
    obtain q where q: "external_id_ahead (print_id (en_public_id e) (en_system_id e) @ ?r)"
      "parse_external_id (print_id (en_public_id e) (en_system_id e) @ ?r) = ((en_public_id e, en_system_id e), q)"
      "q = ?r \<or> q = dtd_skip_whitespace ?r"
      using parse_printed_id[OF x(2,3), of ?r] nq by blast
    have q': "dtd_skip_whitespace q = dtd_skip_whitespace ?r" using q(3) by (auto simp: dtd_skip_whitespace_def)
    have t: "dtd_skip_whitespace t = print_id (en_public_id e) (en_system_id e) @ ?r"
      using DTD_ENTITY_EXTERNAL x(3)
      by (cases "en_public_id e"; cases "en_system_id e") (simp_all add: t_def print_id_def ascii_def dtd_skip_whitespace_def c_space_def)
    let ?e2 = "?e\<lparr>en_type := DTD_ENTITY_EXTERNAL, en_public_id := en_public_id e, en_system_id := en_system_id e\<rparr>"
    have "dtd_parse_entity (print_entity e @ p) = parse_ndata ?e2 (dtd_skip_whitespace ?r)"
      unfolding parsed t using q(1,2) q' by (simp add: parse_entity_value_def)
    also have "\<dots> = (Some e, p)"
    proof (cases "notation_name e")
      case None
      then show ?thesis unfolding r using x(1) DTD_ENTITY_EXTERNAL
        by (simp add: parse_ndata_def dtd_match_def ascii_def ttdtd_entity_create_def)
    next
      case (Some m)
      then show ?thesis unfolding r using x DTD_ENTITY_EXTERNAL
        by (simp add: parse_ndata_def dtd_match_def ascii_def ttdtd_entity_create_def)
    qed
    finally show ?thesis .
  qed
qed

lemma parse_print_notation:
  assumes ok: "notation_ok e"
  shows "dtd_parse_notation (print_notation e @ p) = (Some e, p)"
proof -
  have n: "name_ok (no_name e)" "id_ok (no_public_id e) (no_system_id e)" using ok by (simp_all add: notation_ok_def)
  let ?id = "print_id (no_public_id e) (no_system_id e)"
  have start: "dtd_skip_whitespace (drop 10 (print_notation e @ p)) = no_name e @ 0x20 # ?id @ 0x3E # p"
    using n(1) by (simp add: print_notation_def ascii_def)
  have nm: "dtd_parse_name (dtd_skip_whitespace (drop 10 (print_notation e @ p))) = (Some (no_name e), 0x20 # ?id @ 0x3E # p)"
    unfolding start using n(1) by simp
  show ?thesis
  proof (cases "no_public_id e \<noteq> None \<or> no_system_id e \<noteq> None")
    case True
    have "\<not> is_quote (dtd_peek (dtd_skip_whitespace (0x3E # p)))" by (simp add: is_quote_def)
    then obtain q where q: "external_id_ahead (?id @ 0x3E # p)"
      "parse_external_id (?id @ 0x3E # p) = ((no_public_id e, no_system_id e), q)" "q = 0x3E # p"
      using parse_printed_id[OF n(2) True, of "0x3E # p"] by auto
    have "dtd_skip_whitespace (0x20 # ?id @ 0x3E # p) = ?id @ 0x3E # p"
      using True by (cases "no_public_id e"; cases "no_system_id e")
        (simp_all add: print_id_def ascii_def dtd_skip_whitespace_def c_space_def)
    then show ?thesis unfolding dtd_parse_notation_def nm using q by (simp add: ttdtd_notation_create_def Let_def)
  next
    case False
    then have "?id = []" by (simp add: print_id_def)
    moreover have "\<not> external_id_ahead (0x3E # p)" by (simp add: external_id_ahead_def dtd_match_def ascii_def)
    ultimately show ?thesis unfolding dtd_parse_notation_def nm using False
      by (simp add: ttdtd_notation_create_def Let_def)
  qed
qed

lemma model_end_append: "model_end k q m = Some r \<Longrightarrow> model_end k q (m @ p) = Some (r @ p)"
  by (induction m arbitrary: k q) (auto split: option.splits if_splits)

lemma model_end_suffix: "model_end k q m = Some r \<Longrightarrow> \<exists>pre. m = pre @ r"
  by (induction m arbitrary: k q) (force split: option.splits if_splits)+

lemma parse_print_model:
  assumes "model_ok m"
  shows "parse_content (ttdtd_element_create_pooled n) (m @ 0x3E # p) =
    (Some \<lparr>el_name = n, content_type = (if has_substring m (ascii ''#PCDATA'') then DTD_CONTENT_MIXED else DTD_CONTENT_CHILDREN),
       content_model = Some m\<rparr>, p)"
proof -
  obtain m' where m: "m = 0x28 # m'" using assms by (cases m) (auto simp: model_ok_def)
  have no_key: "\<not> dtd_match (ascii ''EMPTY'') (m @ 0x3E # p)" "\<not> dtd_match (ascii ''ANY'') (m @ 0x3E # p)"
    "dtd_peek (m @ 0x3E # p) = 0x28"
    by (simp_all add: m dtd_match_def ascii_def)
  have nul: "cstr m = m" using assms by (simp add: model_ok_def cstr_id)
  consider "model_end 0 None m = Some []" | c where "is_occurrence c" "model_end 0 None m = Some [c]"
    using assms by (auto simp: model_ok_def)
  then have "\<exists>q. model_end 0 None (m @ 0x3E # p) = Some q \<and> (if q \<noteq> [] \<and> is_occurrence (hd q) then tl q else q) = 0x3E # p"
  proof cases
    case 1
    from model_end_append[OF this, of "0x3E # p"] show ?thesis by (simp add: is_occurrence_def)
  next
    case 2
    from model_end_append[OF this(2), of "0x3E # p"] show ?thesis using 2(1) by simp
  qed
  then obtain q where q: "model_end 0 None (m @ 0x3E # p) = Some q"
    "(if q \<noteq> [] \<and> is_occurrence (hd q) then tl q else q) = 0x3E # p" by blast
  show ?thesis unfolding parse_content_def Let_def q(1) option.case q(2)
    using nul no_key by (simp add: ttdtd_element_create_pooled_def)
qed

lemma parse_print_element:
  assumes ok: "element_ok e"
  shows "dtd_parse_element (print_element e @ p) = (Some e, p)"
proof -
  have n: "name_ok (el_name e)" using ok by (simp add: element_ok_def)
  let ?c = "case content_model e of
       Some m \<Rightarrow> m | None \<Rightarrow> if content_type e = DTD_CONTENT_EMPTY then ascii ''EMPTY'' else ascii ''ANY''"
  have start: "dtd_skip_whitespace (drop 9 (print_element e @ p)) = el_name e @ 0x20 # ?c @ 0x3E # p"
    using n by (simp add: print_element_def ascii_def)
  have nm: "dtd_parse_name (dtd_skip_whitespace (drop 9 (print_element e @ p))) = (Some (el_name e), 0x20 # ?c @ 0x3E # p)"
    unfolding start using n by simp
  show ?thesis
  proof (cases "content_model e")
    case None
    then have "content_type e = DTD_CONTENT_EMPTY \<or> content_type e = DTD_CONTENT_ANY" using ok by (simp add: element_ok_def)
    then show ?thesis unfolding dtd_parse_element_def nm using None
      by (auto simp: parse_content_def dtd_match_def ascii_def ttdtd_element_create_pooled_def dtd_skip_whitespace_def c_space_def)
  next
    case (Some m)
    then have m: "model_ok m" "content_type e = (if has_substring m (ascii ''#PCDATA'') then DTD_CONTENT_MIXED else DTD_CONTENT_CHILDREN)"
      using ok by (simp_all add: element_ok_def)
    obtain m' where m': "m = 0x28 # m'" using m(1) by (cases m) (auto simp: model_ok_def)
    have "dtd_skip_whitespace (0x20 # m @ 0x3E # p) = m @ 0x3E # p" by (simp add: m')
    then show ?thesis unfolding dtd_parse_element_def nm using Some parse_print_model[OF m(1), of "el_name e" p] m(2) by simp
  qed
qed

lemma parse_print_type:
  assumes ok: "attribute_ok a"
  shows "parse_attr_type ((if 0x7C \<in> set (at_type a) then 0x28 # at_type a @ [0x29] else at_type a) @ 0x20 # p) = (at_type a, 0x20 # p)"
proof (cases "0x7C \<in> set (at_type a)")
  case True
  then have "list_all (\<lambda>c. c \<noteq> 0x29) (at_type a)" using ok by (auto simp: attribute_ok_def list_all_iff)
  from stop_at[OF this, of "0x29" "0x20 # p"] show ?thesis using True by (simp add: parse_attr_type_def)
next
  case False
  then have t: "list_all type_byte (at_type a)" "hd (at_type a) \<noteq> 0x28" "at_type a \<noteq> []" using ok by (auto simp: attribute_ok_def)
  have "\<not> type_byte 0x20" by (simp add: type_byte_def c_space_def)
  from stop_at[OF t(1) this, of p] have "takeWhile type_byte (at_type a @ 0x20 # p) = at_type a"
    "dropWhile type_byte (at_type a @ 0x20 # p) = 0x20 # p" by simp_all
  moreover have "dtd_peek (at_type a @ 0x20 # p) \<noteq> 0x28" using t by (cases "at_type a") simp_all
  moreover have "(\<lambda>c. c \<noteq> 0x3E \<and> c \<noteq> 0x23 \<and> \<not> c_space c) = type_byte" by (simp add: fun_eq_iff type_byte_def)
  ultimately show ?thesis using False by (simp add: parse_attr_type_def)
qed

lemma parse_print_default:
  assumes ok: "attribute_ok a" and d: "default_type d = DTD_ATTR_IMPLIED" "default_value d = None"
  shows "parse_attr_default d (print_default a @ 0x3E # p) =
    (d\<lparr>default_type := default_type a, default_value := default_value a\<rparr>, 0x3E # p)"
proof -
  have kw: "dtd_parse_name (k @ c # q) = (Some k, c # q)" if "k \<in> {ascii ''REQUIRED'', ascii ''IMPLIED'', ascii ''FIXED''}" "c = 0x3E \<or> c = 0x20"
    for k c q
  proof -
    have "name_ok k" using that(1) by (auto simp: name_ok_def ascii_def dtd_name_byte_def c_alnum_def c_alpha_def)
    then show ?thesis using that(2) by auto
  qed
  show ?thesis
  proof (cases "default_type a")
    case DTD_ATTR_REQUIRED
    then have "print_default a @ 0x3E # p = 0x23 # ascii ''REQUIRED'' @ 0x3E # p" "default_value a = None"
      using ok by (simp_all add: print_default_def ascii_def attribute_ok_def)
    then show ?thesis using kw[of "ascii ''REQUIRED''" "0x3E" p] DTD_ATTR_REQUIRED d by (simp add: parse_attr_default_def)
  next
    case DTD_ATTR_IMPLIED
    then have "print_default a @ 0x3E # p = 0x23 # ascii ''IMPLIED'' @ 0x3E # p" "default_value a = None"
      using ok by (simp_all add: print_default_def ascii_def attribute_ok_def)
    then show ?thesis using kw[of "ascii ''IMPLIED''" "0x3E" p] DTD_ATTR_IMPLIED d by (simp add: parse_attr_default_def) (simp add: ascii_def)
  next
    case DTD_ATTR_FIXED
    then obtain v where v: "default_value a = Some v" "quotable v" using ok by (auto simp: attribute_ok_def)
    then have t: "print_default a @ 0x3E # p = 0x23 # ascii ''FIXED'' @ 0x20 # quoted v @ 0x3E # p"
      using DTD_ATTR_FIXED by (simp add: print_default_def ascii_def)
    have "dtd_skip_whitespace (0x20 # quoted v @ 0x3E # p) = quoted v @ 0x3E # p" by (simp add: quoted_def)
    then show ?thesis unfolding t using kw[of "ascii ''FIXED''" "0x20" "quoted v @ 0x3E # p"] DTD_ATTR_FIXED d v
      by (simp add: parse_attr_default_def) (simp add: ascii_def)
  next
    case DTD_ATTR_DEFAULT
    then obtain v where v: "default_value a = Some v" "quotable v" using ok by (auto simp: attribute_ok_def)
    then have t: "print_default a @ 0x3E # p = quoted v @ 0x3E # p" using DTD_ATTR_DEFAULT by (simp add: print_default_def)
    have "dtd_peek (quoted v @ 0x3E # p) = 0x22" by (simp add: quoted_def)
    then show ?thesis unfolding t using parse_quoted[OF v(2), of "0x3E # p"] DTD_ATTR_DEFAULT v(1)
      by (simp add: parse_attr_default_def is_quote_def)
  qed
qed

lemma parse_print_attribute:
  assumes ok: "attribute_ok a"
  shows "attlist_step (drop 9 (print_attribute a @ p)) st = Go_on p (add_attribute a (fst st), snd st)"
proof -
  have n: "name_ok (at_element a)" "name_ok (at_name a)" using ok by (simp_all add: attribute_ok_def)
  let ?ty = "if 0x7C \<in> set (at_type a) then 0x28 # at_type a @ [0x29] else at_type a"
  let ?rest = "0x20 # ?ty @ 0x20 # print_default a @ 0x3E # p"
  have start: "dtd_skip_whitespace (drop 9 (print_attribute a @ p)) = at_element a @ 0x20 # at_name a @ ?rest"
    using n(1) by (simp add: print_attribute_def ascii_def)
  have el: "dtd_parse_name (dtd_skip_whitespace (drop 9 (print_attribute a @ p))) = (Some (at_element a), 0x20 # at_name a @ ?rest)"
    unfolding start using n(1) by simp
  obtain c cs where c: "at_name a = c # cs" "dtd_name_byte c" using n(2) by (cases "at_name a") (auto simp: name_ok_def)
  then have not_gt: "c \<noteq> 0x3E" using no_name_byte(2) by auto
  have ws: "dtd_skip_whitespace (0x20 # at_name a @ ?rest) = at_name a @ ?rest" using n(2) by simp
  have nm: "dtd_parse_name (at_name a @ ?rest) = (Some (at_name a), ?rest)" using n(2) by simp
  have tw: "dtd_skip_whitespace ?rest = ?ty @ 0x20 # print_default a @ 0x3E # p"
  proof -
    have "at_type a \<noteq> [] \<and> \<not> c_space (hd ?ty)"
      using ok by (cases "at_type a") (auto simp: attribute_ok_def type_byte_def)
    then show ?thesis by (cases "at_type a") auto
  qed
  have dw: "dtd_skip_whitespace (0x20 # print_default a @ 0x3E # p) = print_default a @ 0x3E # p"
    by (cases "default_type a") (simp_all add: print_default_def ascii_def quoted_def)
  have "cstr (at_type a) = at_type a" "at_type a \<noteq> []" using ok by (simp_all add: attribute_ok_def cstr_id)
  then have pa: "parse_attribute (at_element a) (at_name a) ?rest = (a, 0x3E # p)"
    unfolding parse_attribute_def tw parse_print_type[OF ok] dw Let_def prod.case
    using parse_print_default[OF ok, of "dtd_attribute_decl_create_pooled (at_element a) (at_name a)\<lparr>at_type := at_type a\<rparr>" p]
    by (simp add: dtd_attribute_decl_create_pooled_def)
  have "attlist (at_element a) (0x20 # at_name a @ ?rest) (fst st) = attlist (at_element a) (0x3E # p) (add_attribute a (fst st))"
    unfolding attlist.simps[of "at_element a" "0x20 # at_name a @ ?rest"] Let_def ws nm
    using pa c not_gt by simp
  also have "\<dots> = (0x3E # p, add_attribute a (fst st))" by (simp add: attlist.simps)
  finally show ?thesis unfolding attlist_step_def el by simp
qed

text \<open>A declaration without \<open>'%'\<close> is not touched by substitution.\<close>

lemma step_declaration:
  assumes "takes_references (t @ p)" "0x25 \<notin> set t" "0x3E \<in> set t" "hd t = 0x3C" "\<not> dtd_match (ascii ''<!--'') (t @ p)"
  shows "dtd_step depth (t @ p) st = declaration_step depth (t @ p) st"
proof -
  obtain t' where t: "t = 0x3C # t'" using assms(3,4) by (cases t) auto
  have ws: "dtd_skip_whitespace (t @ p) = t @ p" by (simp add: t)
  have "takeWhile (\<lambda>c. c \<noteq> 0x3E) (t @ p) = takeWhile (\<lambda>c. c \<noteq> 0x3E) t" using assms(3) by (intro takeWhile_append1) auto
  then have "0x25 \<notin> set (takeWhile (\<lambda>c. c \<noteq> 0x3E) (t @ p) @ [0x3E])" using assms(2) set_takeWhileD[of "0x25" _ t] by auto
  then have "dtd_substitute_decl_pes d k (takeWhile (\<lambda>c. c \<noteq> 0x3E) (t @ p) @ [0x3E]) = (None, False)" for d k
    by (simp add: dtd_substitute_decl_pes.simps)
  then show ?thesis unfolding dtd_step_def Let_def ws using assms by (simp add: t)
qed

lemma step_print:
  assumes ok: "decl_ok v"
  shows "dtd_step depth (print_decl v @ p) st = Go_on p (add_decl v (fst st), snd st)"
proof (cases v)
  case (Entity_decl e)
  have "dtd_match (ascii ''<!ENTITY'') (print_entity e @ p)" "\<not> dtd_match (ascii ''<!--'') (print_entity e @ p)"
    "\<not> takes_references (print_entity e @ p)" "dtd_skip_whitespace (print_entity e @ p) = print_entity e @ p"
    "dtd_peek (print_entity e @ p) \<noteq> 0x25"
    by (simp_all add: print_entity_def dtd_match_def takes_references_def ascii_def)
  then show ?thesis using ok Entity_decl
    by (simp add: dtd_step_def declaration_step_def parse_print_entity register_def)
next
  case (Element_decl e)
  let ?t = "print_element e"
  have m: "dtd_match (ascii ''<!ELEMENT'') (?t @ p)" "\<not> dtd_match (ascii ''<!--'') (?t @ p)" "\<not> dtd_match (ascii ''<!ENTITY'') (?t @ p)"
    by (simp_all add: print_element_def dtd_match_def ascii_def)
  have e: "element_ok e" using ok Element_decl by simp
  have "0x25 \<notin> set (el_name e)" using e no_name_byte(4) by (auto simp: element_ok_def name_ok_def list_all_iff)
  then have "0x25 \<notin> set ?t" using e by (auto simp: print_element_def element_ok_def model_ok_def ascii_def split: option.splits)
  then have "dtd_step depth (?t @ p) st = declaration_step depth (?t @ p) st"
    by (rule step_declaration[rotated]) (use m in \<open>simp_all add: takes_references_def print_element_def ascii_def\<close>)
  then show ?thesis using e Element_decl m by (simp add: declaration_step_def parse_print_element register_def)
next
  case (Notation_decl e)
  let ?t = "print_notation e"
  have m: "dtd_match (ascii ''<!NOTATION'') (?t @ p)" "\<not> dtd_match (ascii ''<!--'') (?t @ p)" "\<not> dtd_match (ascii ''<!ENTITY'') (?t @ p)"
    "\<not> dtd_match (ascii ''<!ELEMENT'') (?t @ p)"
    by (simp_all add: print_notation_def dtd_match_def ascii_def)
  have e: "notation_ok e" using ok Notation_decl by simp
  have "0x25 \<notin> set (no_name e)" using e no_name_byte(4) by (auto simp: notation_ok_def name_ok_def list_all_iff)
  then have "0x25 \<notin> set ?t" using e
    by (auto simp: print_notation_def notation_ok_def print_id_def quoted_def ascii_def split: option.splits)
  then have "dtd_step depth (?t @ p) st = declaration_step depth (?t @ p) st"
    by (rule step_declaration[rotated]) (use m in \<open>simp_all add: takes_references_def print_notation_def ascii_def\<close>)
  then show ?thesis using e Notation_decl m by (simp add: declaration_step_def parse_print_notation register_def)
next
  case (Attribute_decl a)
  let ?t = "print_attribute a"
  have m: "dtd_match (ascii ''<!ATTLIST'') (?t @ p)" "\<not> dtd_match (ascii ''<!--'') (?t @ p)" "\<not> dtd_match (ascii ''<!ENTITY'') (?t @ p)"
    "\<not> dtd_match (ascii ''<!ELEMENT'') (?t @ p)" "\<not> dtd_match (ascii ''<!NOTATION'') (?t @ p)"
    by (simp_all add: print_attribute_def dtd_match_def ascii_def)
  have a: "attribute_ok a" using ok Attribute_decl by simp
  have "0x25 \<notin> set (at_element a)" "0x25 \<notin> set (at_name a)" "0x25 \<notin> set (at_type a)"
    using a no_name_byte(4) by (auto simp: attribute_ok_def name_ok_def list_all_iff)
  moreover have "0x25 \<notin> set (print_default a)" using a
    by (auto simp: print_default_def attribute_ok_def quoted_def ascii_def split: DTDAttrDefault.splits)
  ultimately have "0x25 \<notin> set ?t" by (auto simp: print_attribute_def ascii_def)
  then have "dtd_step depth (?t @ p) st = declaration_step depth (?t @ p) st"
    by (rule step_declaration[rotated]) (use m in \<open>simp_all add: takes_references_def print_attribute_def ascii_def\<close>)
  then show ?thesis using a Attribute_decl m parse_print_attribute[OF a, of p st] by (simp add: declaration_step_def)
qed

lemma parse_print:
  "\<forall>v \<in> set ds. decl_ok v \<Longrightarrow>
    parse_loop depth (concat (map print_decl ds)) st = (fold add_decl ds (fst st), snd st)"
proof (induction ds arbitrary: st)
  case Nil
  then show ?case by (simp add: parse_loop.simps)
next
  case (Cons v ds)
  have ne: "print_decl v \<noteq> []"
    by (cases v) (simp_all add: print_entity_def print_element_def print_notation_def print_attribute_def ascii_def)
  have "decl_ok v" using Cons.prems by simp
  from step_print[OF this, of depth "concat (map print_decl ds)" st]
  have "parse_loop depth (concat (map print_decl (v # ds))) st =
      parse_loop depth (concat (map print_decl ds)) (add_decl v (fst st), snd st)"
    using ne by (simp add: parse_loop.simps[of depth "print_decl v @ _"])
  then show ?case using Cons by simp
qed

lemma add_decl_flags: "parse_failed (add_decl v d) = parse_failed d"
  by (cases v) (simp_all add: ttdtd_add_entity_def ttdtd_add_element_def ttdtd_add_notation_def ttdtd_add_attribute_def Let_def
      split: prod.split bool.split)

text \<open>
  C8. Parsing a definition inverts printing it: a text of any number of well-formed declarations, of
  entities (internal, external, unparsed and parameter), elements, notations and attributes, parses
  without error into just the definition that these declarations make one after the other, so that a
  lookup finds the first one printed under a name.
\<close>

theorem definition_roundtrip:
  assumes "ds \<noteq> []" "\<forall>v \<in> set ds. decl_ok v"
  shows "\<exists>d. leptris_dtd_parse (concat (map print_decl ds)) = Some d \<and> d = fold add_decl ds leptris_dtd_create
    \<and> (\<forall>k. lookup_decl d k = find (\<lambda>v. key_bytes (key_of v) \<noteq> [] \<and> key_of v = k) ds)"
proof -
  have "print_decl (hd ds) \<noteq> []"
    by (cases "hd ds") (simp_all add: print_entity_def print_element_def print_notation_def print_attribute_def ascii_def)
  then have ne: "concat (map print_decl ds) \<noteq> []" using assms(1) by (cases ds) simp_all
  have "parse_failed (fold add_decl ds d) = parse_failed d" for d
    by (induction ds arbitrary: d) (simp_all add: add_decl_flags)
  then have "\<not> parse_failed (fold add_decl ds leptris_dtd_create)" by (simp add: leptris_dtd_create_def)
  then show ?thesis using ne parse_print[OF assms(2), of 0 "(leptris_dtd_create, False)"]
    by (simp add: leptris_dtd_parse_def leptris_dtd_parse_internal_subset_def dtd_parse_into_def
        decls.first_declared[OF created_dtd created_empty])
qed

text \<open>A definition of each kind, for the concrete instance.\<close>

definition sample_decls :: "decl list" where
  "sample_decls =
    [Entity_decl ((ttdtd_entity_create (ascii ''%m''))\<lparr>en_value := Some (ascii ''b'')\<rparr>),
     Element_decl ((ttdtd_element_create_pooled (ascii ''a''))\<lparr>content_type := DTD_CONTENT_CHILDREN, content_model := Some (ascii ''(b,c)*'')\<rparr>),
     Notation_decl ((ttdtd_notation_create (ascii ''gif''))\<lparr>no_system_id := Some (ascii ''viewer'')\<rparr>),
     Attribute_decl ((dtd_attribute_decl_create_pooled (ascii ''a'') (ascii ''id''))\<lparr>at_type := ascii ''ID'', default_type := DTD_ATTR_REQUIRED\<rparr>)]"

theorem definition_roundtrip_witness:
  "leptris_dtd_parse (concat (map print_decl sample_decls)) = Some (fold add_decl sample_decls leptris_dtd_create)"
proof -
  have "\<forall>v \<in> set sample_decls. decl_ok v"
    by (simp add: sample_decls_def entity_ok_def element_ok_def notation_ok_def attribute_ok_def id_ok_def name_ok_def model_ok_def
        quotable_def ascii_def ttdtd_entity_create_def ttdtd_element_create_pooled_def ttdtd_notation_create_def
        dtd_attribute_decl_create_pooled_def dtd_name_byte_def c_alnum_def c_alpha_def is_quote_def is_occurrence_def type_byte_def c_space_def)
  then show ?thesis using definition_roundtrip[of sample_decls] by (auto simp: sample_decls_def)
qed

section \<open>Parameter entities\<close>

definition pe_name_ok :: "bytes \<Rightarrow> bool" where
  "pe_name_ok n \<longleftrightarrow> n \<noteq> [] \<and> length n < 128 \<and> list_all (\<lambda>c. c \<noteq> 0x3B \<and> c \<noteq> 0x25 \<and> \<not> c_space c) n"

lemma copy_plain:
  "0x25 \<notin> set p \<Longrightarrow> substitute_loop d depth (p @ q) b sub = substitute_loop d depth q (fold store p b) sub"
  by (induction p arbitrary: b) auto

lemma stored:
  "written_bytes (fold store p b) = written_bytes b @ p \<and> capacity (fold store p b) = capacity b"
  by (induction p arbitrary: b) (simp_all add: store_def)

lemma stored_over:
  "overran (fold store p b) \<longleftrightarrow> overran b \<or> p \<noteq> [] \<and> length (written_bytes b) + length p > capacity b"
proof (induction p arbitrary: b)
  case Nil
  then show ?case by simp
next
  case (Cons c p)
  have "overran (fold store (c # p) b) = overran (fold store p (store c b))" by simp
  also have "\<dots> \<longleftrightarrow> (overran b \<or> capacity b \<le> length (written_bytes b))
      \<or> p \<noteq> [] \<and> length (written_bytes b) + 1 + length p > capacity b"
    unfolding Cons.IH by (simp add: store_def)
  also have "\<dots> \<longleftrightarrow> overran b \<or> c # p \<noteq> [] \<and> length (written_bytes b) + length (c # p) > capacity b"
    by (cases p) auto
  finally show ?case .
qed

text \<open>
  C33. Replacing a parameter entity inside a declaration writes past its buffer: the rest of the
  declaration is copied behind the value once when the buffer is made and once more by the loop that
  goes on, so that with two or more bytes behind the reference, as in every real declaration, the
  buffer of exactly the right size for one copy is overrun; the text that is parsed has the rest twice.
\<close>

theorem substitution_overruns:
  assumes "0x25 \<notin> set pre" "0x25 \<notin> set rest" "pe_name_ok name" "pe_text d depth name = Some (Declared v)"
  shows "dtd_substitute_decl_pes d depth (pre @ 0x25 # name @ 0x3B # rest) = (Some (pre @ v @ rest @ rest), 2 \<le> length rest)"
proof -
  have "list_all (\<lambda>c. c \<noteq> 0x3B \<and> c \<noteq> 0x25 \<and> \<not> c_space c) name" using assms(3) by (simp add: pe_name_ok_def)
  from stop_at[OF this, of "0x3B" rest] have ref: "pe_reference (name @ 0x3B # rest) = Some (name, rest)"
    using assms(3) by (simp add: pe_reference_def pe_name_ok_def Let_def)
  let ?t = "pre @ 0x25 # name @ 0x3B # rest"
  let ?b0 = "fold store pre \<lparr>capacity = length ?t + 1, written_bytes = [], overran = False\<rparr>"
  let ?b1 = "\<lparr>capacity = length pre + length v + (length rest + 1) + 1, written_bytes = pre @ v @ rest, overran = False\<rparr>"
  have b0: "written_bytes ?b0 = pre" "\<not> overran ?b0" by (simp_all add: stored stored_over)
  have "dtd_substitute_decl_pes d depth ?t = substitute_loop d depth (0x25 # name @ 0x3B # rest) ?b0 False"
    using copy_plain[OF assms(1), of d depth "0x25 # name @ 0x3B # rest"] by (simp add: dtd_substitute_decl_pes.simps)
  also have "\<dots> = substitute_loop d depth rest ?b1 True" using ref assms(4) b0 by simp
  also have "\<dots> = substitute_loop d depth [] (fold store rest ?b1) True"
    using copy_plain[OF assms(2), of d depth "[]" ?b1 True] by simp
  also have "\<dots> = (Some (pre @ v @ rest @ rest), 2 \<le> length rest)"
    by (simp add: stored stored_over store_def[of 0] Let_def) linarith
  finally show ?thesis .
qed

definition sample_pes :: "decl list" where
  "sample_pes =
    [Entity_decl ((ttdtd_entity_create (ascii ''%m''))\<lparr>en_value := Some (ascii ''b'')\<rparr>),
     Entity_decl ((ttdtd_entity_create (ascii ''%e''))\<lparr>en_value := Some []\<rparr>)]"

definition sample_dtd :: dtd where
  "sample_dtd = fold add_decl sample_pes leptris_dtd_create"

lemma sample_lookup:
  "ttdtd_lookup_entity sample_dtd (0x25 # ascii ''m'') = Some ((ttdtd_entity_create (ascii ''%m''))\<lparr>en_value := Some (ascii ''b'')\<rparr>)"
  "ttdtd_lookup_entity sample_dtd (0x25 # ascii ''e'') = Some ((ttdtd_entity_create (ascii ''%e''))\<lparr>en_value := Some []\<rparr>)"
proof -
  have f: "lookup_decl sample_dtd k = find (\<lambda>v. key_bytes (key_of v) \<noteq> [] \<and> key_of v = k) sample_pes" for k
    unfolding sample_dtd_def by (rule decls.first_declared[OF created_dtd created_empty])
  show "ttdtd_lookup_entity sample_dtd (0x25 # ascii ''m'') = Some ((ttdtd_entity_create (ascii ''%m''))\<lparr>en_value := Some (ascii ''b'')\<rparr>)"
    using f[of "Entity_key (0x25 # ascii ''m'')"] by (auto simp: sample_pes_def ascii_def ttdtd_entity_create_def)
  show "ttdtd_lookup_entity sample_dtd (0x25 # ascii ''e'') = Some ((ttdtd_entity_create (ascii ''%e''))\<lparr>en_value := Some []\<rparr>)"
    using f[of "Entity_key (0x25 # ascii ''e'')"] by (auto simp: sample_pes_def ascii_def ttdtd_entity_create_def)
qed

theorem substitution_overruns_witness:
  "dtd_substitute_decl_pes sample_dtd 0 (ascii ''<!ELEMENT a (%m;)>'') = (Some (ascii ''<!ELEMENT a (b)>)>''), True)"
proof -
  have "pe_text sample_dtd 0 (ascii ''m'') = Some (Declared (ascii ''b''))"
    using sample_lookup(1) by (simp add: pe_text_def DTD_PE_MAX_DEPTH_def ttdtd_entity_create_def)
  then show ?thesis
    using substitution_overruns[of "ascii ''<!ELEMENT a (''" "ascii '')>''" "ascii ''m''" sample_dtd 0 "ascii ''b''"]
    by (simp add: pe_name_ok_def ascii_def c_space_def)
qed

text \<open>References between declarations, one after the other.\<close>

definition reference :: "bytes \<Rightarrow> bytes" where
  "reference n = 0x25 # n @ [0x3B]"

lemma step_reference:
  assumes n: "pe_name_ok n" and e: "ttdtd_lookup_entity (fst st) (0x25 # n) = Some pe"
    "en_type pe = DTD_ENTITY_INTERNAL" "en_value pe = Some v"
  shows "dtd_step depth (reference n @ p) st =
    (if depth < DTD_PE_MAX_DEPTH then First (depth + 1) (v @ p) [] st else Go_on p st)"
proof -
  have "list_all (\<lambda>c. c \<noteq> 0x3B \<and> \<not> c_space c) n" "list_all (\<lambda>c. c \<noteq> 0x3B) n" using n by (auto simp: pe_name_ok_def list_all_iff)
  note s = stop_at[OF this(1), of "0x3B" p] stop_at[OF this(2), of "0x3B" p]
  have "reference_step depth (n @ 0x3B # p) st = (if depth < DTD_PE_MAX_DEPTH then First (depth + 1) (v @ p) [] st else Go_on p st)"
    using s n e by (simp add: reference_step_def Let_def pe_name_ok_def)
  then show ?thesis by (simp add: dtd_step_def reference_def dtd_match_def ascii_def)
qed

text \<open>
  C34. The limit of 16 on the nesting of parameter entities also counts references that merely follow
  each other, since each is parsed together with everything behind it: behind 16 references to an
  empty parameter entity the declarations of the next reference are dropped without a word, while
  behind fewer they are parsed.
\<close>

theorem reference_chain_cut:
  assumes "pe_name_ok e" "pe_name_ok x"
    "\<exists>pe. ttdtd_lookup_entity d (0x25 # e) = Some pe \<and> en_type pe = DTD_ENTITY_INTERNAL \<and> en_value pe = Some []"
    "\<exists>pe. ttdtd_lookup_entity d (0x25 # x) = Some pe \<and> en_type pe = DTD_ENTITY_INTERNAL \<and> en_value pe = Some v"
  shows "dtd_parse_into d (concat (replicate n (reference e)) @ reference x) 0 =
    (if n < 16 then dtd_parse_into d v (n + 1) else d)"
proof -
  obtain pe px where pe: "ttdtd_lookup_entity d (0x25 # e) = Some pe" "en_type pe = DTD_ENTITY_INTERNAL" "en_value pe = Some []"
    and px: "ttdtd_lookup_entity d (0x25 # x) = Some px" "en_type px = DTD_ENTITY_INTERNAL" "en_value px = Some v"
    using assms(3,4) by blast
  have ne: "reference r @ p \<noteq> []" for r p by (simp add: reference_def)
  have nil: "parse_loop k [] st = st" for k st by (simp add: parse_loop.simps)
  have last: "parse_loop k (reference x) (d, b) = (if k < 16 then parse_loop (k + 1) v (d, b) else (d, b))" for k b
    using step_reference[OF assms(2), of "(d, b)" px v k "[]"] px ne[of x "[]"]
    by (simp add: parse_loop.simps[of k "reference x"] DTD_PE_MAX_DEPTH_def nil)
  have "k \<le> 16 \<Longrightarrow> parse_loop k (concat (replicate n (reference e)) @ reference x) (d, False) =
      (if k + n < 16 then parse_loop (k + n + 1) v (d, False) else (d, False))" for k
  proof (induction n arbitrary: k)
    case 0
    then show ?case using last by simp
  next
    case (Suc n)
    let ?rest = "concat (replicate n (reference e)) @ reference x"
    have s: "parse_loop k (reference e @ ?rest) (d, False) =
        (if k < 16 then parse_loop (k + 1) ?rest (d, False) else parse_loop k ?rest (d, False))"
      using step_reference[OF assms(1), of "(d, False)" pe "[]" k ?rest] pe ne[of e ?rest]
      by (simp add: parse_loop.simps[of k "reference e @ ?rest"] DTD_PE_MAX_DEPTH_def nil)
    show ?case using s Suc.IH[of "k + 1"] Suc.IH[of k] Suc.prems by auto
  qed
  from this[of 0] show ?thesis by (simp add: dtd_parse_into_def)
qed

theorem reference_chain_cut_witness:
  "dtd_parse_into sample_dtd (concat (replicate 16 (reference (ascii ''e''))) @ reference (ascii ''m'')) 0 = sample_dtd"
proof -
  have "pe_name_ok (ascii ''e'')" "pe_name_ok (ascii ''m'')" by (simp_all add: pe_name_ok_def ascii_def c_space_def)
  moreover have "\<exists>pe. ttdtd_lookup_entity sample_dtd (0x25 # ascii ''e'') = Some pe \<and> en_type pe = DTD_ENTITY_INTERNAL \<and> en_value pe = Some []"
    "\<exists>pe. ttdtd_lookup_entity sample_dtd (0x25 # ascii ''m'') = Some pe \<and> en_type pe = DTD_ENTITY_INTERNAL \<and> en_value pe = Some (ascii ''b'')"
    using sample_lookup by (simp_all add: ttdtd_entity_create_def)
  ultimately show ?thesis using reference_chain_cut[of "ascii ''e''" "ascii ''m''" sample_dtd "ascii ''b''" 16] by simp
qed

end
