(* ===== verification/DtdValidate.thy ===== *)
theory DtdValidate
  imports DtdMatch DtdModel
begin

text \<open>
  Validation of a document against its definition (\<open>dtd/validator.c\<close>): the content of each element,
  with the memo of 64 results of the content-model matcher, the required attributes, the attribute
  types, and the second pass that resolves references to IDs. A message is the case it was written in
  with its arguments; names and values are C strings, without a NUL byte, and allocations are taken to
  succeed. The properties say which documents pass, and where the memo and the table of attributes
  give a verdict that the declarations do not.
\<close>

section \<open>Results\<close>

datatype violation =
    Empty_has_elements | Empty_has_characters | No_characters_allowed | Content_mismatch "cm_message option"
  | Missing_required bytes | Fixed_differs bytes bytes bytes | Duplicate_id bytes | Not_nmtoken bytes | Invalid_nmtokens bytes
  | Not_in_enumeration bytes bytes bytes | Entity_name_too_long bytes | Undeclared_entity bytes bytes | Parsed_entity bytes bytes
  | Undeclared_notation bytes bytes | Unresolved_idref bytes | Unresolved_idrefs bytes | Null_document

text \<open>The first violation, with the name of its element.\<close>

type_synonym verdict = "(violation \<times> bytes option) option"

section \<open>The memo of the matcher\<close>

text \<open>
  The code keys an entry by the address of the declared model. Each declared element has a model of
  its own, so the element's name stands for the address here. An unused entry is \<open>None\<close>.
\<close>

record memo_entry =
  memo_model :: bytes
  child_count :: nat
  child_hash :: u32
  match_result :: bool
  error_msg :: "cm_message option"

record content_memo =
  memo_entries :: "memo_entry option list"
  memo_next :: nat

definition CONTENT_MODEL_MEMO_CAP :: nat where
  "CONTENT_MODEL_MEMO_CAP = 64"

definition hash_child_names :: "bytes list \<Rightarrow> u32" where
  "hash_child_names names =
    fold (\<lambda>s h. (fold (\<lambda>b h. (h XOR ucast b) * fnv_prime) s h XOR 0x2C) * fnv_prime) names fnv_basis"

definition memo_hit :: "bytes \<Rightarrow> nat \<Rightarrow> u32 \<Rightarrow> memo_entry option \<Rightarrow> bool" where
  "memo_hit model n h e = (case e of None \<Rightarrow> False
    | Some e \<Rightarrow> memo_model e = model \<and> child_count e = n \<and> child_hash e = h)"

definition memo_lookup :: "content_memo \<Rightarrow> bytes \<Rightarrow> nat \<Rightarrow> u32 \<Rightarrow> memo_entry option" where
  "memo_lookup m model n h = (case find (memo_hit model n h) (memo_entries m) of Some e \<Rightarrow> e | None \<Rightarrow> None)"

definition memo_store :: "content_memo \<Rightarrow> bytes \<Rightarrow> nat \<Rightarrow> u32 \<Rightarrow> bool \<Rightarrow> cm_message option \<Rightarrow> content_memo" where
  "memo_store m model n h r t =
    m\<lparr>memo_entries := (memo_entries m)
        [memo_next m := Some \<lparr>memo_model = model, child_count = n, child_hash = h, match_result = r, error_msg = t\<rparr>],
      memo_next := (memo_next m + 1) mod CONTENT_MODEL_MEMO_CAP\<rparr>"

section \<open>Content of an element\<close>

definition element_has_element_children :: "node list \<Rightarrow> bool" where
  "element_has_element_children cs \<longleftrightarrow> (\<exists>c \<in> set cs. is_element c)"

text \<open>
  A text without content is never left: the loop goes on without moving to the next sibling, so that
  the answer is \<open>None\<close>.
\<close>

fun element_has_char_content :: "node list \<Rightarrow> bool option" where
  "element_has_char_content [] = Some False"
| "element_has_char_content (Text None # cs) = None"
| "element_has_char_content (Text (Some t) # cs) =
    (if \<exists>c \<in> set t. \<not> c_space c then Some True else element_has_char_content cs)"
| "element_has_char_content (Cdata (Some t) # cs) =
    (if \<exists>c \<in> set (takeWhile (\<lambda>c. c \<noteq> 0) t). \<not> c_space c then Some True else element_has_char_content cs)"
| "element_has_char_content (c # cs) = element_has_char_content cs"

definition child_names :: "node list \<Rightarrow> bytes list" where
  "child_names cs = map node_name (filter is_element cs)"

text \<open>The content model, by the memo or by the matcher. The outer \<open>None\<close> is a call that does not return.\<close>

definition match_children :: "bytes \<Rightarrow> bytes \<Rightarrow> node list \<Rightarrow> content_memo \<Rightarrow> (violation option \<times> content_memo) option" where
  "match_children name model cs memo =
    (let names = child_names cs; n = length names in
     if n = 0 then Some (None, memo)
     else
       let h = hash_child_names names in
       (case memo_lookup memo name n h of
          Some hit \<Rightarrow> Some (if match_result hit then None else Some (Content_mismatch (error_msg hit)), memo)
        | None \<Rightarrow>
            (case leptris_content_model_match (Some model) (Some name) (Some names) of
               None \<Rightarrow> None
             | Some (ok, t) \<Rightarrow> Some (if ok then None else Some (Content_mismatch t), memo_store memo name n h ok t))))"

text \<open>What is left to check of a declared element that is not in breach of \<open>EMPTY\<close>.\<close>

definition check_model :: "element_decl \<Rightarrow> bytes \<Rightarrow> node list \<Rightarrow> content_memo \<Rightarrow> (violation option \<times> content_memo) option" where
  "check_model decl name cs memo =
    (if content_type decl = DTD_CONTENT_ANY then Some (None, memo)
     else
       (case if content_type decl = DTD_CONTENT_CHILDREN then element_has_char_content cs else Some False of
          None \<Rightarrow> None
        | Some True \<Rightarrow> Some (Some No_characters_allowed, memo)
        | Some False \<Rightarrow>
            (case content_model decl of
               None \<Rightarrow> Some (None, memo)
             | Some model \<Rightarrow> if model = [] then Some (None, memo) else match_children name model cs memo)))"

definition check_content :: "element_decl \<Rightarrow> bytes \<Rightarrow> node list \<Rightarrow> content_memo \<Rightarrow> (violation option \<times> content_memo) option" where
  "check_content decl name cs memo =
    (if content_type decl = DTD_CONTENT_EMPTY then
       if element_has_element_children cs then Some (Some Empty_has_elements, memo)
       else (case element_has_char_content cs of
               None \<Rightarrow> None
             | Some True \<Rightarrow> Some (Some Empty_has_characters, memo)
             | Some False \<Rightarrow> check_model decl name cs memo)
     else check_model decl name cs memo)"

section \<open>Attributes\<close>

text \<open>The iterator over the table of attributes: the key is an element's name, a point and an attribute's name.\<close>

definition attr_check_iter :: "attr_lookup \<Rightarrow> bytes \<Rightarrow> (bytes \<times> bytes) list \<Rightarrow> (attribute_decl, violation option) hash_iterator" where
  "attr_check_iter has name as key value found =
    (if length key \<le> length name + 1 then (True, found)
     else if take (length name) key \<noteq> name then (True, found)
     else if key ! length name \<noteq> 0x2E then (True, found)
     else (case value of
             None \<Rightarrow> (True, found)
           | Some decl \<Rightarrow>
               let attr_name = drop (length name + 1) key in
               if default_type decl = DTD_ATTR_REQUIRED \<and> length attr_name < 256 \<and> has attr_name as = None
               then (False, Some (Missing_required attr_name))
               else (True, found)))"

definition required_violation :: "attr_lookup \<Rightarrow> dtd \<Rightarrow> bytes \<Rightarrow> (bytes \<times> bytes) list \<Rightarrow> violation option" where
  "required_violation has d name as = leptris_hash_table_for_each (attr_check_iter has name as) (attributes d) None"

text \<open>The parts between white space.\<close>

function space_tokens :: "bytes \<Rightarrow> bytes list" where
  "space_tokens p =
    (let q = dropWhile c_space p in
     if q = [] then [] else takeWhile (\<lambda>c. \<not> c_space c) q # space_tokens (dropWhile (\<lambda>c. \<not> c_space c) q))"
  by pat_completeness auto
termination
proof (relation "measure length", goal_cases)
  case (2 p q)
  then have "q \<noteq> []" by simp
  then obtain c r where q: "q = c # r" by (cases q) blast+
  then have "\<not> c_space c" using hd_dropWhile[of c_space p] 2 by (metis list.sel(1))
  then have "length (dropWhile (\<lambda>c. \<not> c_space c) q) \<le> length r"
    using q by (simp add: length_dropWhile_le)
  also have "length r < length p" using q 2 length_dropWhile_le[of c_space p] by simp
  finally show ?case by simp
qed simp

declare space_tokens.simps [simp del]

definition nmtoken_byte :: "u8 \<Rightarrow> bool" where
  "nmtoken_byte c \<longleftrightarrow> c_alnum c \<or> c = 0x2E \<or> c = 0x2D \<or> c = 0x5F \<or> c = 0x3A"

text \<open>The values of an enumeration, between \<open>'|'\<close>.\<close>

function enum_options :: "bytes \<Rightarrow> bytes list" where
  "enum_options m =
    (if m = [] then []
     else takeWhile (\<lambda>c. c \<noteq> 0x7C) m # enum_options (tl (dropWhile (\<lambda>c. c \<noteq> 0x7C) m)))"
  by pat_completeness auto
termination
proof (relation "measure length", goal_cases)
  case (2 m)
  then have "0 < length m" by simp
  then have "length (tl (dropWhile (\<lambda>c. c \<noteq> 0x7C) m)) < length m"
    using length_dropWhile_le[of "\<lambda>c. c \<noteq> 0x7C" m] by (simp del: length_greater_0_conv)
  then show ?case by simp
qed simp

declare enum_options.simps [simp del]

definition token_violation :: "bytes \<Rightarrow> bytes \<Rightarrow> bytes \<Rightarrow> violation option" where
  "token_violation ty attr_name v =
    (if ty = ascii ''NMTOKEN'' then
       if v \<noteq> [] \<and> list_all nmtoken_byte v then None else Some (Not_nmtoken attr_name)
     else if ty = ascii ''NMTOKENS'' then
       if list_all (list_all nmtoken_byte) (space_tokens v) then None else Some (Invalid_nmtokens attr_name)
     else if 0x7C \<in> set ty then
       if v \<in> set (enum_options ty) then None else Some (Not_in_enumeration attr_name v ty)
     else None)"

fun entity_tokens :: "dtd \<Rightarrow> bytes \<Rightarrow> bytes list \<Rightarrow> violation option" where
  "entity_tokens d attr_name [] = None"
| "entity_tokens d attr_name (tok # toks) =
    (if length tok \<ge> 256 then Some (Entity_name_too_long attr_name)
     else (case ttdtd_lookup_entity d tok of
             None \<Rightarrow> Some (Undeclared_entity attr_name tok)
           | Some entity \<Rightarrow>
               (case notation_name entity of
                  None \<Rightarrow> Some (Parsed_entity attr_name tok)
                | Some nn \<Rightarrow>
                    if ttdtd_lookup_notation d nn = None then Some (Undeclared_notation tok nn)
                    else entity_tokens d attr_name toks)))"

definition entity_violation :: "dtd \<Rightarrow> bytes \<Rightarrow> bytes \<Rightarrow> bytes \<Rightarrow> violation option" where
  "entity_violation d ty attr_name v =
    (if ty = ascii ''ENTITY'' \<or> ty = ascii ''ENTITIES'' then entity_tokens d attr_name (space_tokens v) else None)"

text \<open>An ID is looked up and put into the table of the document's IDs, which takes no empty key.\<close>

definition track_id :: "bytes \<Rightarrow> bytes \<Rightarrow> unit hash_table \<Rightarrow> violation option \<times> unit hash_table" where
  "track_id ty v ids =
    (if ty = ascii ''ID'' then
       if leptris_hash_table_get ids v \<noteq> None then (Some (Duplicate_id v), ids)
       else (None, snd (table_set v () ids))
     else (None, ids))"

definition check_attribute :: "dtd \<Rightarrow> bytes \<Rightarrow> bytes \<times> bytes \<Rightarrow> unit hash_table \<Rightarrow> violation option \<times> unit hash_table" where
  "check_attribute d name a ids =
    (case a of (attr_name, v) \<Rightarrow>
       if attr_name = [] then (None, ids)
       else (case ttdtd_lookup_attribute d name attr_name of
               None \<Rightarrow> (None, ids)
             | Some ad \<Rightarrow>
                 if default_type ad = DTD_ATTR_FIXED \<and> default_value ad \<noteq> None \<and> v \<noteq> the (default_value ad)
                 then (Some (Fixed_differs attr_name (the (default_value ad)) v), ids)
                 else (case track_id (at_type ad) v ids of
                         (Some e, ids) \<Rightarrow> (Some e, ids)
                       | (None, ids) \<Rightarrow>
                           (case token_violation (at_type ad) attr_name v of
                              Some e \<Rightarrow> (Some e, ids)
                            | None \<Rightarrow> (entity_violation d (at_type ad) attr_name v, ids)))))"

fun check_attributes :: "dtd \<Rightarrow> bytes \<Rightarrow> (bytes \<times> bytes) list \<Rightarrow> unit hash_table \<Rightarrow> violation option \<times> unit hash_table" where
  "check_attributes d name [] ids = (None, ids)"
| "check_attributes d name (a # as) ids =
    (case check_attribute d name a ids of
       (Some e, ids) \<Rightarrow> (Some e, ids)
     | (None, ids) \<Rightarrow> check_attributes d name as ids)"

section \<open>The two passes\<close>

record validation =
  id_table :: "unit hash_table"
  memo :: content_memo

fun validate_element_recursive :: "attr_lookup \<Rightarrow> dtd \<Rightarrow> node \<Rightarrow> validation \<Rightarrow> (verdict \<times> validation) option"
  and validate_children :: "attr_lookup \<Rightarrow> dtd \<Rightarrow> node list \<Rightarrow> validation \<Rightarrow> (verdict \<times> validation) option" where
  "validate_element_recursive has d (Element name as cs) st =
    (case (case ttdtd_lookup_element d name of
             None \<Rightarrow> Some (None, memo st)
           | Some decl \<Rightarrow> check_content decl name cs (memo st)) of
       None \<Rightarrow> None
     | Some (Some e, m) \<Rightarrow> Some (Some (e, Some name), st\<lparr>memo := m\<rparr>)
     | Some (None, m) \<Rightarrow>
         (case required_violation has d name as of
            Some e \<Rightarrow> Some (Some (e, Some name), st\<lparr>memo := m\<rparr>)
          | None \<Rightarrow>
              (case check_attributes d name as (id_table st) of
                 (Some e, ids) \<Rightarrow> Some (Some (e, Some name), \<lparr>id_table = ids, memo = m\<rparr>)
               | (None, ids) \<Rightarrow> validate_children has d cs \<lparr>id_table = ids, memo = m\<rparr>)))"
| "validate_element_recursive has d n st = Some (None, st)"
| "validate_children has d [] st = Some (None, st)"
| "validate_children has d (c # cs) st =
    (if \<not> is_element c then validate_children has d cs st
     else (case validate_element_recursive has d c st of
             None \<Rightarrow> None
           | Some (Some e, st) \<Rightarrow> Some (Some e, st)
           | Some (None, st) \<Rightarrow> validate_children has d cs st))"

text \<open>The references of an attribute, in the order in which they are looked up.\<close>

definition idref_violation :: "unit hash_table \<Rightarrow> bytes \<Rightarrow> bytes \<Rightarrow> violation option" where
  "idref_violation ids ty v =
    (if ty = ascii ''IDREF'' then
       if leptris_hash_table_get ids v = None then Some (Unresolved_idref v) else None
     else if ty = ascii ''IDREFS'' then
       map_option (\<lambda>tok. Unresolved_idrefs (take 127 tok)) (find (\<lambda>tok. leptris_hash_table_get ids tok = None) (space_tokens v))
     else None)"

fun idref_attributes :: "dtd \<Rightarrow> bytes \<Rightarrow> unit hash_table \<Rightarrow> (bytes \<times> bytes) list \<Rightarrow> violation option" where
  "idref_attributes d name ids [] = None"
| "idref_attributes d name ids ((attr_name, v) # as) =
    (if attr_name = [] then idref_attributes d name ids as
     else (case ttdtd_lookup_attribute d name attr_name of
             None \<Rightarrow> idref_attributes d name ids as
           | Some ad \<Rightarrow>
               (case idref_violation ids (at_type ad) v of
                  Some e \<Rightarrow> Some e
                | None \<Rightarrow> idref_attributes d name ids as)))"

fun validate_idref_pass :: "dtd \<Rightarrow> unit hash_table \<Rightarrow> node \<Rightarrow> verdict"
  and idref_children :: "dtd \<Rightarrow> unit hash_table \<Rightarrow> node list \<Rightarrow> verdict" where
  "validate_idref_pass d ids (Element name as cs) =
    (case idref_attributes d name ids as of
       Some e \<Rightarrow> Some (e, Some name)
     | None \<Rightarrow> idref_children d ids cs)"
| "validate_idref_pass d ids n = None"
| "idref_children d ids [] = None"
| "idref_children d ids (c # cs) =
    (if \<not> is_element c then idref_children d ids cs
     else (case validate_idref_pass d ids c of
             Some e \<Rightarrow> Some e
           | None \<Rightarrow> idref_children d ids cs))"

definition empty_memo :: content_memo where
  "empty_memo = \<lparr>memo_entries = replicate CONTENT_MODEL_MEMO_CAP None, memo_next = 0\<rparr>"

text \<open>
  A document with or without a root element, and a definition, either of which may be missing: the
  answer 1, 0 or -1 and the error that is filled in. The outer \<open>None\<close> is a call that does not return.
\<close>

definition leptris_dtd_validate :: "attr_lookup \<Rightarrow> node option option \<Rightarrow> dtd option \<Rightarrow> (int \<times> verdict) option" where
  "leptris_dtd_validate has doc dt =
    (case (doc, dt) of
       (Some None, Some d) \<Rightarrow> Some (1, None)
     | (Some (Some root), Some d) \<Rightarrow>
         (case validate_element_recursive has d root \<lparr>id_table = empty_table 16, memo = empty_memo\<rparr> of
            None \<Rightarrow> None
          | Some (Some e, st) \<Rightarrow> Some (0, Some e)
          | Some (None, st) \<Rightarrow>
              (case validate_idref_pass d (id_table st) root of
                 Some e \<Rightarrow> Some (0, Some e)
               | None \<Rightarrow> Some (1, None)))
     | _ \<Rightarrow> Some (-1, Some (Null_document, None)))"

end
