(* ===== verification/DtdValid.thy ===== *)
theory DtdValid
  imports DtdValidate
begin

text \<open>
  What the validator of \<open>dtd/validator.c\<close> promises: a document is valid when the content, the required
  attributes and the attribute values of each element are as declared, no ID occurs twice, and each
  reference is some ID. The lemmas show of each check that it decides its part of this, of the memo
  that its entries are results of the matcher, and of the table that it holds the IDs seen so far.
\<close>

section \<open>Valid documents\<close>

fun elements_of :: "node \<Rightarrow> node list" and elements_in :: "node list \<Rightarrow> node list" where
  "elements_of (Element nm as cs) = Element nm as cs # elements_in cs"
| "elements_of n = []"
| "elements_in [] = []"
| "elements_in (c # cs) = elements_of c @ elements_in cs"

fun blank :: "node \<Rightarrow> bool" where
  "blank (Text (Some t)) = list_all c_space t"
| "blank (Cdata (Some t)) = list_all c_space (takeWhile (\<lambda>c. c \<noteq> 0) t)"
| "blank n = True"

definition model_accepts :: "bytes \<Rightarrow> bytes \<Rightarrow> bytes list \<Rightarrow> bool" where
  "model_accepts model name names \<longleftrightarrow>
    (\<exists>t. leptris_content_model_match (Some model) (Some name) (Some names) = Some (True, t))"

definition content_valid :: "element_decl \<Rightarrow> bytes \<Rightarrow> node list \<Rightarrow> bool" where
  "content_valid decl name cs \<longleftrightarrow>
    (content_type decl = DTD_CONTENT_EMPTY \<longrightarrow> child_names cs = [])
    \<and> (content_type decl \<in> {DTD_CONTENT_EMPTY, DTD_CONTENT_CHILDREN} \<longrightarrow> list_all blank cs)
    \<and> (\<forall>model. content_type decl \<noteq> DTD_CONTENT_ANY \<and> content_model decl = Some model \<and> model \<noteq> [] \<and> child_names cs \<noteq> []
         \<longrightarrow> model_accepts model name (child_names cs))"

definition required_valid :: "attr_lookup \<Rightarrow> dtd \<Rightarrow> bytes \<Rightarrow> (bytes \<times> bytes) list \<Rightarrow> bool" where
  "required_valid has d name as \<longleftrightarrow>
    (\<forall>attr decl. leptris_hash_table_get (attributes d) (build_attr_key name attr) = Some decl
        \<and> default_type decl = DTD_ATTR_REQUIRED \<and> attr \<noteq> [] \<and> length attr < 256 \<longrightarrow> has attr as \<noteq> None)"

definition unparsed_entity :: "dtd \<Rightarrow> bytes \<Rightarrow> bool" where
  "unparsed_entity d name \<longleftrightarrow> length name < 256 \<and>
    (\<exists>entity nn. ttdtd_lookup_entity d name = Some entity \<and> notation_name entity = Some nn \<and> ttdtd_lookup_notation d nn \<noteq> None)"

definition value_valid :: "dtd \<Rightarrow> bytes \<Rightarrow> bytes \<Rightarrow> bool" where
  "value_valid d ty v \<longleftrightarrow>
    (ty = ascii ''NMTOKEN'' \<longrightarrow> v \<noteq> [] \<and> list_all nmtoken_byte v)
    \<and> (ty = ascii ''NMTOKENS'' \<longrightarrow> list_all (list_all nmtoken_byte) (space_tokens v))
    \<and> (0x7C \<in> set ty \<longrightarrow> v \<in> set (enum_options ty))
    \<and> (ty \<in> {ascii ''ENTITY'', ascii ''ENTITIES''} \<longrightarrow> list_all (unparsed_entity d) (space_tokens v))"

text \<open>The declaration of an attribute; one without a name has none.\<close>

definition attr_declared :: "dtd \<Rightarrow> bytes \<Rightarrow> bytes \<Rightarrow> attribute_decl option" where
  "attr_declared d name an = (if an = [] then None else ttdtd_lookup_attribute d name an)"

definition attribute_valid :: "dtd \<Rightarrow> bytes \<Rightarrow> bytes \<times> bytes \<Rightarrow> bool" where
  "attribute_valid d name a \<longleftrightarrow>
    (\<forall>ad. attr_declared d name (fst a) = Some ad \<longrightarrow>
      (default_type ad = DTD_ATTR_FIXED \<and> default_value ad \<noteq> None \<longrightarrow> default_value ad = Some (snd a))
      \<and> value_valid d (at_type ad) (snd a))"

definition attr_ids :: "dtd \<Rightarrow> bytes \<Rightarrow> bytes \<times> bytes \<Rightarrow> bytes list" where
  "attr_ids d name a =
    (if map_option at_type (attr_declared d name (fst a)) = Some (ascii ''ID'') \<and> snd a \<noteq> [] then [snd a] else [])"

definition attr_refs :: "dtd \<Rightarrow> bytes \<Rightarrow> bytes \<times> bytes \<Rightarrow> bytes list" where
  "attr_refs d name a =
    (case map_option at_type (attr_declared d name (fst a)) of
       None \<Rightarrow> []
     | Some ty \<Rightarrow> if ty = ascii ''IDREF'' then [snd a] else if ty = ascii ''IDREFS'' then space_tokens (snd a) else [])"

definition ids_of :: "dtd \<Rightarrow> node \<Rightarrow> bytes list" where
  "ids_of d n = concat (map (attr_ids d (node_name n)) (node_attrs n))"

definition refs_of :: "dtd \<Rightarrow> node \<Rightarrow> bytes list" where
  "refs_of d n = concat (map (attr_refs d (node_name n)) (node_attrs n))"

definition element_valid :: "attr_lookup \<Rightarrow> dtd \<Rightarrow> node \<Rightarrow> bool" where
  "element_valid has d n \<longleftrightarrow>
    (\<forall>decl. ttdtd_lookup_element d (node_name n) = Some decl \<longrightarrow> content_valid decl (node_name n) (node_children n))
    \<and> required_valid has d (node_name n) (node_attrs n)
    \<and> list_all (attribute_valid d (node_name n)) (node_attrs n)"

definition document_ids :: "dtd \<Rightarrow> node \<Rightarrow> bytes list" where
  "document_ids d root = concat (map (ids_of d) (elements_of root))"

definition dtd_valid :: "attr_lookup \<Rightarrow> dtd \<Rightarrow> node \<Rightarrow> bool" where
  "dtd_valid has d root \<longleftrightarrow>
    (\<forall>n \<in> set (elements_of root). element_valid has d n)
    \<and> distinct (document_ids d root)
    \<and> (\<forall>n \<in> set (elements_of root). set (refs_of d n) \<subseteq> set (document_ids d root))"

section \<open>The checks of one element\<close>

definition no_null_text :: "node \<Rightarrow> bool" where
  "no_null_text root \<longleftrightarrow> (\<forall>n \<in> set (elements_of root). Text None \<notin> set (node_children n))"

lemma char_content: "Text None \<notin> set cs \<Longrightarrow> element_has_char_content cs = Some (\<not> list_all blank cs)"
  by (induction cs rule: element_has_char_content.induct) (auto simp: list_all_iff)

lemma no_child_names: "element_has_element_children cs \<longleftrightarrow> child_names cs \<noteq> []"
  by (auto simp: element_has_element_children_def child_names_def filter_empty_conv)

text \<open>
  The memo over a set of shapes, each the name of an element and its children's names: an entry is
  what the matcher answers on one of them.
\<close>

definition memo_entry_ok :: "dtd \<Rightarrow> (bytes \<times> bytes list) set \<Rightarrow> memo_entry \<Rightarrow> bool" where
  "memo_entry_ok d W e \<longleftrightarrow>
    (\<exists>names decl model. (memo_model e, names) \<in> W \<and> child_count e = length names \<and> child_hash e = hash_child_names names
      \<and> ttdtd_lookup_element d (memo_model e) = Some decl \<and> content_model decl = Some model
      \<and> leptris_content_model_match (Some model) (Some (memo_model e)) (Some names) = Some (match_result e, error_msg e))"

definition memo_ok :: "dtd \<Rightarrow> (bytes \<times> bytes list) set \<Rightarrow> content_memo \<Rightarrow> bool" where
  "memo_ok d W m \<longleftrightarrow> (\<forall>e. Some e \<in> set (memo_entries m) \<longrightarrow> memo_entry_ok d W e)"

text \<open>Different shapes of a name and a length have different hashes.\<close>

definition hashes_apart :: "(bytes \<times> bytes list) set \<Rightarrow> bool" where
  "hashes_apart W \<longleftrightarrow> (\<forall>name xs ys. (name, xs) \<in> W \<and> (name, ys) \<in> W \<and> length xs = length ys
      \<and> hash_child_names xs = hash_child_names ys \<longrightarrow> xs = ys)"

lemma lookup_hit:
  assumes "memo_lookup m model n h = Some e"
  shows "Some e \<in> set (memo_entries m)" "memo_model e = model" "child_count e = n" "child_hash e = h"
proof -
  obtain x where x: "find (memo_hit model n h) (memo_entries m) = Some x" "x = Some e"
    using assms by (auto simp: memo_lookup_def split: option.splits)
  then have "x \<in> set (memo_entries m)" "memo_hit model n h x" by (auto simp: find_Some_iff)
  then show "Some e \<in> set (memo_entries m)" "memo_model e = model" "child_count e = n" "child_hash e = h"
    using x(2) by (simp_all add: memo_hit_def)
qed

lemma store_ok:
  assumes "memo_ok d W m" "memo_entry_ok d W \<lparr>memo_model = model, child_count = n, child_hash = h, match_result = r, error_msg = t\<rparr>"
  shows "memo_ok d W (memo_store m model n h r t)"
  using assms set_update_subset_insert[of "memo_entries m" "memo_next m"]
  by (fastforce simp: memo_ok_def memo_store_def)

lemma match_children_exact:
  assumes m: "memo_ok d W m" and W: "hashes_apart W" "(name, child_names cs) \<in> W"
    and decl: "ttdtd_lookup_element d name = Some decl" "content_model decl = Some model"
  shows "\<exists>r m'. match_children name model cs m = Some (r, m') \<and> memo_ok d W m'
    \<and> (r = None \<longleftrightarrow> (child_names cs \<noteq> [] \<longrightarrow> model_accepts model name (child_names cs)))"
proof (cases "child_names cs = []")
  case True
  then show ?thesis using m by (simp add: match_children_def)
next
  case False
  let ?names = "child_names cs"
  obtain ok t where ok: "leptris_content_model_match (Some model) (Some name) (Some ?names) = Some (ok, t)"
    using match_answers[of "Some model" "Some name" "Some ?names"] by (metis not_None_eq surj_pair)
  have acc: "model_accepts model name ?names \<longleftrightarrow> ok" by (simp add: model_accepts_def ok)
  show ?thesis
  proof (cases "memo_lookup m name (length ?names) (hash_child_names ?names)")
    case None
    have "memo_entry_ok d W \<lparr>memo_model = name, child_count = length ?names, child_hash = hash_child_names ?names,
        match_result = ok, error_msg = t\<rparr>"
      using W(2) decl ok by (auto simp: memo_entry_ok_def)
    from store_ok[OF m this] show ?thesis using None False ok acc by (simp add: match_children_def Let_def)
  next
    case (Some e)
    note e = lookup_hit[OF Some]
    then obtain names where "(name, names) \<in> W" "length names = length ?names" "hash_child_names names = hash_child_names ?names"
      and r: "leptris_content_model_match (Some model) (Some name) (Some names) = Some (match_result e, error_msg e)"
      using m decl by (auto simp: memo_ok_def memo_entry_ok_def)
    then have "names = ?names" using W by (auto simp: hashes_apart_def)
    then have "match_result e = ok" using r ok by simp
    then show ?thesis using Some m False acc by (simp add: match_children_def Let_def)
  qed
qed

lemma check_model_exact:
  assumes m: "memo_ok d W m" and W: "hashes_apart W" "(name, child_names cs) \<in> W"
    and decl: "ttdtd_lookup_element d name = Some decl" and n: "Text None \<notin> set cs"
  shows "\<exists>r m'. check_model decl name cs m = Some (r, m') \<and> memo_ok d W m'
    \<and> (r = None \<longleftrightarrow> (content_type decl = DTD_CONTENT_CHILDREN \<longrightarrow> list_all blank cs)
      \<and> (\<forall>model. content_type decl \<noteq> DTD_CONTENT_ANY \<and> content_model decl = Some model \<and> model \<noteq> [] \<and> child_names cs \<noteq> []
         \<longrightarrow> model_accepts model name (child_names cs)))"
proof (cases "content_type decl = DTD_CONTENT_ANY \<or> (content_type decl = DTD_CONTENT_CHILDREN \<and> \<not> list_all blank cs)
    \<or> content_model decl = None \<or> content_model decl = Some []")
  case True
  then show ?thesis using m by (cases "list_all blank cs") (auto simp: check_model_def char_content[OF n])
next
  case False
  then obtain model where model: "content_model decl = Some model" "model \<noteq> []" by auto
  have "check_model decl name cs m = match_children name model cs m"
    using False model by (auto simp: check_model_def char_content[OF n])
  then show ?thesis using match_children_exact[OF m W decl model(1)] False model by auto
qed

lemma check_content_exact:
  assumes m: "memo_ok d W m" and W: "hashes_apart W" "(name, child_names cs) \<in> W"
    and decl: "ttdtd_lookup_element d name = Some decl" and n: "Text None \<notin> set cs"
  shows "\<exists>r m'. check_content decl name cs m = Some (r, m') \<and> memo_ok d W m' \<and> (r = None \<longleftrightarrow> content_valid decl name cs)"
proof (cases "content_type decl = DTD_CONTENT_EMPTY \<and> (child_names cs \<noteq> [] \<or> \<not> list_all blank cs)")
  case True
  then show ?thesis using m by (auto simp: check_content_def content_valid_def no_child_names char_content[OF n])
next
  case False
  then have "check_content decl name cs m = check_model decl name cs m"
    by (auto simp: check_content_def no_child_names char_content[OF n])
  then show ?thesis using check_model_exact[OF m W decl n] False unfolding content_valid_def by auto
qed

text \<open>The iteration over the attributes' declarations stops at the first one that is missed.\<close>

lemma chain_attr_check:
  assumes "iter = attr_check_iter has name as"
  shows "chain_each iter es None =
    (case find (\<lambda>e. snd (iter (key_data e) (cached_string e) None) \<noteq> None) es of
       None \<Rightarrow> (True, None)
     | Some e \<Rightarrow> (False, snd (iter (key_data e) (cached_string e) None)))"
proof (induction es)
  case Nil
  then show ?case by simp
next
  case (Cons e es)
  have "iter k v None = (True, None) \<or> (\<exists>x. iter k v None = (False, Some x))" for k v
    unfolding assms by (auto simp: attr_check_iter_def Let_def split: option.split)
  from this[of "key_data e" "cached_string e"] show ?case using Cons by auto
qed

lemma bucket_attr_check:
  assumes "iter = attr_check_iter has name as"
  shows "snd (bucket_each iter cs None) = None \<longleftrightarrow> (\<forall>e \<in> set (concat cs). snd (iter (key_data e) (cached_string e) None) = None)"
proof (induction cs)
  case Nil
  then show ?case by simp
next
  case (Cons c cs)
  show ?case
  proof (cases "find (\<lambda>e. snd (iter (key_data e) (cached_string e) None) \<noteq> None) c")
    case None
    then have "\<forall>e \<in> set c. snd (iter (key_data e) (cached_string e) None) = None" by (simp add: find_None_iff)
    then show ?thesis using None Cons by (auto simp: chain_attr_check[OF assms, of c])
  next
    case (Some e)
    then have "e \<in> set c" "snd (iter (key_data e) (cached_string e) None) \<noteq> None" by (auto simp: find_Some_iff)
    then show ?thesis using Some by (auto simp: chain_attr_check[OF assms, of c])
  qed
qed

lemma key_split:
  "length key > length name + 1 \<and> take (length name) key = name \<and> key ! length name = 0x2E
    \<longleftrightarrow> (\<exists>attr. attr \<noteq> [] \<and> key = build_attr_key name attr)"
  (is "?l \<longleftrightarrow> ?r")
proof
  assume l: ?l
  then have "key = take (length name) key @ key ! length name # drop (length name + 1) key"
    by (intro id_take_nth_drop[of "length name" key, simplified Suc_eq_plus1]) simp
  then have "key = build_attr_key name (drop (length name + 1) key)" using l by (simp add: build_attr_key_def)
  moreover have "drop (length name + 1) key \<noteq> []" using l by simp
  ultimately show ?r by blast
next
  assume ?r
  then show ?l by (auto simp: build_attr_key_def nth_append)
qed

lemma attr_check_iter_none:
  "snd (attr_check_iter has name as key (Some decl) None) = None \<longleftrightarrow>
    (\<forall>attr. key = build_attr_key name attr \<and> default_type decl = DTD_ATTR_REQUIRED \<and> attr \<noteq> [] \<and> length attr < 256
      \<longrightarrow> has attr as \<noteq> None)"
proof (cases "\<exists>attr. attr \<noteq> [] \<and> key = build_attr_key name attr")
  case True
  then obtain attr where a: "attr \<noteq> []" "key = build_attr_key name attr" by blast
  then have "\<not> length key \<le> length name + 1" "take (length name) key = name" "key ! length name = 0x2E"
    using key_split[of name key] by auto
  moreover have "drop (length name + 1) key = attr" using a by (simp add: build_attr_key_def)
  moreover have "key = build_attr_key name x \<longleftrightarrow> x = attr" for x using a by (auto simp: build_attr_key_def)
  ultimately show ?thesis using a(1) by (simp add: attr_check_iter_def Let_def)
next
  case False
  then have "\<not> (length key > length name + 1 \<and> take (length name) key = name \<and> key ! length name = 0x2E)"
    by (simp only: key_split not_False_eq_True)
  then have "snd (attr_check_iter has name as key (Some decl) None) = None"
    by (auto simp: attr_check_iter_def not_less)
  then show ?thesis using False by blast
qed

lemma required_exact:
  assumes "dtd_inv d"
  shows "required_violation has d name as = None \<longleftrightarrow> required_valid has d name as"
proof -
  let ?it = "attr_check_iter has name as"
  note inv = dtd_invD(4,8)[OF assms]
  have "required_violation has d name as = None \<longleftrightarrow>
      (\<forall>e \<in> set (all_entries (attributes d)). snd (?it (key_data e) (cached_string e) None) = None)"
    by (simp add: required_violation_def leptris_hash_table_for_each_def bucket_attr_check[OF refl])
  also have "\<dots> \<longleftrightarrow> (\<forall>(key, v) \<in> (\<lambda>e. (key_data e, cached_string e)) ` set (all_entries (attributes d)). snd (?it key v None) = None)"
    by auto
  also have "\<dots> \<longleftrightarrow> (\<forall>key v. v \<noteq> None \<and> leptris_hash_table_get (attributes d) key = v \<longrightarrow> snd (?it key v None) = None)"
    using entry_values[OF inv] by (simp add: Ball_def)
  also have "\<dots> \<longleftrightarrow> (\<forall>key decl. leptris_hash_table_get (attributes d) key = Some decl \<longrightarrow> snd (?it key (Some decl) None) = None)"
    by auto
  also have "\<dots> \<longleftrightarrow> required_valid has d name as"
    unfolding attr_check_iter_none required_valid_def by auto
  finally show ?thesis .
qed

text \<open>The table of IDs holds just the set \<open>S\<close>.\<close>

definition holds_ids :: "bytes set \<Rightarrow> unit hash_table \<Rightarrow> bool" where
  "holds_ids S t \<longleftrightarrow> table_inv t \<and> no_nulls t \<and> dom (leptris_hash_table_get t) = S"

definition fresh :: "bytes set \<Rightarrow> bytes list \<Rightarrow> bool" where
  "fresh S xs \<longleftrightarrow> distinct xs \<and> set xs \<inter> S = {}"

lemma fresh_append: "fresh S (xs @ ys) \<longleftrightarrow> fresh S xs \<and> fresh (S \<union> set xs) ys"
  by (auto simp: fresh_def)

lemma get_empty_key: "leptris_hash_table_get t [] = None"
  by (simp add: leptris_hash_table_get_def)

lemma holds_lookup: "holds_ids S t \<Longrightarrow> leptris_hash_table_get t v = None \<longleftrightarrow> v \<notin> S"
  by (auto simp: holds_ids_def)

lemma track_id_exact:
  assumes "holds_ids S t" and xs_def: "xs = (if ty = ascii ''ID'' \<and> v \<noteq> [] then [v] else [])"
  shows "\<exists>r t'. track_id ty v t = (r, t') \<and> (r = None \<longleftrightarrow> fresh S xs) \<and> (r = None \<longrightarrow> holds_ids (S \<union> set xs) t')"
proof (cases "ty = ascii ''ID'' \<and> leptris_hash_table_get t v = None")
  case True
  obtain ok t' where set: "table_set v () t = (ok, t')" by fastforce
  have "table_inv t" "no_nulls t" using assms(1) by (simp_all add: holds_ids_def)
  from table_set_facts[OF this set] have "holds_ids (S \<union> set xs) t'"
    using assms(1) True by (auto simp: holds_ids_def xs_def)
  then show ?thesis using True set holds_lookup[OF assms(1)] by (auto simp: track_id_def fresh_def xs_def)
next
  case False
  moreover have "[] \<notin> S" using holds_lookup[OF assms(1)] get_empty_key by blast
  ultimately show ?thesis using assms(1) holds_lookup[OF assms(1), of v]
    by (auto simp: track_id_def fresh_def xs_def)
qed

lemma token_exact: "token_violation ty an v = None \<longleftrightarrow>
    (ty = ascii ''NMTOKEN'' \<longrightarrow> v \<noteq> [] \<and> list_all nmtoken_byte v)
    \<and> (ty = ascii ''NMTOKENS'' \<longrightarrow> list_all (list_all nmtoken_byte) (space_tokens v))
    \<and> (0x7C \<in> set ty \<longrightarrow> v \<in> set (enum_options ty))"
proof -
  have "0x7C \<notin> set (ascii ''NMTOKEN'')" "0x7C \<notin> set (ascii ''NMTOKENS'')" "ascii ''NMTOKEN'' \<noteq> ascii ''NMTOKENS''"
    by (simp_all add: ascii_def)
  then show ?thesis unfolding token_violation_def by (cases "ty = ascii ''NMTOKEN''"; cases "ty = ascii ''NMTOKENS''") auto
qed

lemma entity_tokens_exact: "entity_tokens d an toks = None \<longleftrightarrow> list_all (unparsed_entity d) toks"
  by (induction d an toks rule: entity_tokens.induct) (auto simp: unparsed_entity_def split: option.splits)

lemma value_exact: "token_violation ty an v = None \<and> entity_violation d ty an v = None \<longleftrightarrow> value_valid d ty v"
  unfolding token_exact value_valid_def entity_violation_def by (auto simp: entity_tokens_exact)

lemma check_attribute_exact:
  assumes t: "holds_ids S t"
  shows "\<exists>r t'. check_attribute d name a t = (r, t') \<and> (r = None \<longleftrightarrow> attribute_valid d name a \<and> fresh S (attr_ids d name a))
    \<and> (r = None \<longrightarrow> holds_ids (S \<union> set (attr_ids d name a)) t')"
proof -
  obtain an v where a: "a = (an, v)" by fastforce
  show ?thesis
  proof (cases "attr_declared d name an")
    case None
    then have "check_attribute d name a t = (None, t)"
      by (auto simp: check_attribute_def a attr_declared_def split: if_splits)
    then show ?thesis using None t a by (simp add: attribute_valid_def attr_ids_def fresh_def)
  next
    case (Some ad)
    then have an: "an \<noteq> []" "ttdtd_lookup_attribute d name an = Some ad" by (simp_all add: attr_declared_def split: if_splits)
    let ?fixed = "default_type ad = DTD_ATTR_FIXED \<and> default_value ad \<noteq> None \<and> v \<noteq> the (default_value ad)"
    have ids: "attr_ids d name a = (if at_type ad = ascii ''ID'' \<and> v \<noteq> [] then [v] else [])"
      using Some a by (simp add: attr_ids_def)
    have valid: "attribute_valid d name a \<longleftrightarrow> \<not> ?fixed \<and> value_valid d (at_type ad) v"
      using Some a by (auto simp: attribute_valid_def)
    show ?thesis
    proof (cases ?fixed)
      case True
      then show ?thesis using an valid by (auto simp: check_attribute_def a)
    next
      case False
      obtain r t' where k: "track_id (at_type ad) v t = (r, t')" "r = None \<longleftrightarrow> fresh S (attr_ids d name a)"
        "r = None \<longrightarrow> holds_ids (S \<union> set (attr_ids d name a)) t'"
        using track_id_exact[OF t ids] by blast
      have c: "check_attribute d name a t =
          (case r of Some e \<Rightarrow> (Some e, t')
           | None \<Rightarrow> (case token_violation (at_type ad) an v of Some e \<Rightarrow> (Some e, t')
               | None \<Rightarrow> (entity_violation d (at_type ad) an v, t')))"
        using False an k(1) by (auto simp: check_attribute_def a split: option.split)
      show ?thesis unfolding c using False valid k(2,3) value_exact[of "at_type ad" an v d]
        by (cases r; cases "token_violation (at_type ad) an v") auto
    qed
  qed
qed

lemma check_attributes_exact:
  assumes "holds_ids S t"
  shows "\<exists>r t'. check_attributes d name as t = (r, t')
    \<and> (r = None \<longleftrightarrow> list_all (attribute_valid d name) as \<and> fresh S (concat (map (attr_ids d name) as)))
    \<and> (r = None \<longrightarrow> holds_ids (S \<union> set (concat (map (attr_ids d name) as))) t')"
  using assms
proof (induction as arbitrary: S t)
  case Nil
  then show ?case by (simp add: fresh_def)
next
  case (Cons a as)
  obtain r t' where a: "check_attribute d name a t = (r, t')" "r = None \<longleftrightarrow> attribute_valid d name a \<and> fresh S (attr_ids d name a)"
    "r = None \<longrightarrow> holds_ids (S \<union> set (attr_ids d name a)) t'"
    using check_attribute_exact[OF Cons.prems] by blast
  show ?case
  proof (cases r)
    case (Some e)
    then show ?thesis using a by (auto simp: fresh_append)
  next
    case None
    from Cons.IH[of "S \<union> set (attr_ids d name a)" t'] None a show ?thesis
      by (auto simp: fresh_append Un_assoc)
  qed
qed

section \<open>The walk\<close>

definition shapes :: "node list \<Rightarrow> (bytes \<times> bytes list) set" where
  "shapes ns = (\<lambda>n. (node_name n, child_names (node_children n))) ` set ns"

text \<open>What a walk over elements answers when the table held the IDs \<open>S\<close> before.\<close>

definition walked :: "attr_lookup \<Rightarrow> dtd \<Rightarrow> (bytes \<times> bytes list) set \<Rightarrow> bytes set \<Rightarrow> node list \<Rightarrow> (verdict \<times> validation) option \<Rightarrow> bool" where
  "walked has d W S ns res \<longleftrightarrow>
    (\<exists>r st. res = Some (r, st)
      \<and> (r = None \<longleftrightarrow> (\<forall>n \<in> set ns. element_valid has d n) \<and> fresh S (concat (map (ids_of d) ns)))
      \<and> (r = None \<longrightarrow> holds_ids (S \<union> set (concat (map (ids_of d) ns))) (id_table st) \<and> memo_ok d W (memo st)))"

definition walkable :: "dtd \<Rightarrow> (bytes \<times> bytes list) set \<Rightarrow> bytes set \<Rightarrow> node list \<Rightarrow> validation \<Rightarrow> bool" where
  "walkable d W S ns st \<longleftrightarrow> holds_ids S (id_table st) \<and> memo_ok d W (memo st) \<and> shapes ns \<subseteq> W
    \<and> (\<forall>n \<in> set ns. Text None \<notin> set (node_children n))"

lemma walkedE:
  assumes "walked has d W S ns res"
  obtains r st where "res = Some (r, st)"
    "r = None \<longleftrightarrow> (\<forall>n \<in> set ns. element_valid has d n) \<and> fresh S (concat (map (ids_of d) ns))"
    "r = None \<Longrightarrow> holds_ids (S \<union> set (concat (map (ids_of d) ns))) (id_table st)" "r = None \<Longrightarrow> memo_ok d W (memo st)"
  using assms unfolding walked_def by blast

lemma walk_exact:
  assumes d: "dtd_inv d" and W: "hashes_apart W"
  shows "walkable d W S (elements_of n) st \<Longrightarrow> walked has d W S (elements_of n) (validate_element_recursive has d n st)"
    and "walkable d W S (elements_in ns) st \<Longrightarrow> walked has d W S (elements_in ns) (validate_children has d ns st)"
proof (induction n and ns arbitrary: S st and S st rule: elements_of_elements_in.induct)
  case (1 nm as cs)
  let ?n = "Element nm as cs"
  have h: "holds_ids S (id_table st)" "memo_ok d W (memo st)" "(nm, child_names cs) \<in> W" "Text None \<notin> set cs"
    using "1.prems" by (auto simp: walkable_def shapes_def)
  obtain r m where c: "(case ttdtd_lookup_element d nm of None \<Rightarrow> Some (None, memo st)
      | Some decl \<Rightarrow> check_content decl nm cs (memo st)) = Some (r, m)" "memo_ok d W m"
    "r = None \<longleftrightarrow> (\<forall>decl. ttdtd_lookup_element d nm = Some decl \<longrightarrow> content_valid decl nm cs)"
    using check_content_exact[OF h(2) W h(3) _ h(4)] h(2) by (cases "ttdtd_lookup_element d nm") auto
  obtain e t where a: "check_attributes d nm as (id_table st) = (e, t)"
    "e = None \<longleftrightarrow> list_all (attribute_valid d nm) as \<and> fresh S (ids_of d ?n)"
    "e = None \<longrightarrow> holds_ids (S \<union> set (ids_of d ?n)) t"
    using check_attributes_exact[OF h(1), of d nm as] by (auto simp: ids_of_def)
  let ?S = "S \<union> set (ids_of d ?n)"
  have v: "element_valid has d ?n \<and> fresh S (ids_of d ?n) \<longleftrightarrow> r = None \<and> required_violation has d nm as = None \<and> e = None"
    unfolding c(3) a(2) required_exact[OF d] by (auto simp: element_valid_def)
  show ?case
  proof (cases "r = None \<and> required_violation has d nm as = None \<and> e = None")
    case True
    have res: "validate_element_recursive has d ?n st = validate_children has d cs \<lparr>id_table = t, memo = m\<rparr>"
      using c(1) a(1) True by simp
    have "walkable d W ?S (elements_in cs) \<lparr>id_table = t, memo = m\<rparr>"
      using "1.prems" True a(3) c(2) by (auto simp: walkable_def shapes_def)
    from "1.IH"[OF this] show ?thesis
      unfolding res using v True by (auto elim!: walkedE simp: walked_def fresh_append Un_assoc)
  next
    case False
    then have "\<exists>x st'. validate_element_recursive has d ?n st = Some (Some x, st')"
      using c(1) a(1) by (cases r; cases "required_violation has d nm as"; cases e) auto
    moreover have "\<not> (element_valid has d ?n \<and> fresh S (ids_of d ?n))" using v False by blast
    ultimately show ?thesis by (auto simp: walked_def fresh_append)
  qed
next
  case (4 c cs)
  show ?case
  proof (cases "is_element c")
    case False
    then have "elements_of c = []" by (cases c) simp_all
    then show ?thesis using "4.IH"(2)[of S st] "4.prems" False by simp
  next
    case True
    have "walkable d W S (elements_of c) st" using "4.prems" by (auto simp: walkable_def shapes_def)
    from "4.IH"(1)[OF this] obtain r st' where c: "validate_element_recursive has d c st = Some (r, st')"
      "r = None \<longleftrightarrow> (\<forall>n \<in> set (elements_of c). element_valid has d n) \<and> fresh S (concat (map (ids_of d) (elements_of c)))"
      "r = None \<Longrightarrow> holds_ids (S \<union> set (concat (map (ids_of d) (elements_of c)))) (id_table st')" "r = None \<Longrightarrow> memo_ok d W (memo st')"
      by (rule walkedE) (rule that)
    show ?thesis
    proof (cases r)
      case (Some x)
      then show ?thesis using c(1,2) True by (auto simp: walked_def fresh_append)
    next
      case None
      let ?S = "S \<union> set (concat (map (ids_of d) (elements_of c)))"
      have res: "validate_children has d (c # cs) st = validate_children has d cs st'" using True c(1) None by simp
      have "walkable d W ?S (elements_in cs) st'" using "4.prems" None c(3,4) by (simp add: walkable_def shapes_def image_Un)
      from "4.IH"(2)[OF this] show ?thesis
        unfolding res using c(2) None by (auto elim!: walkedE simp: walked_def fresh_append Un_assoc)
    qed
  qed
qed (simp_all add: walked_def walkable_def fresh_def)

section \<open>References\<close>

lemma space_tokens_nonempty: "[] \<notin> set (space_tokens p)"
proof (induction p rule: space_tokens.induct)
  case (1 p)
  show ?case
  proof (cases "dropWhile c_space p = []")
    case True
    then show ?thesis by (simp add: space_tokens.simps[of p])
  next
    case False
    then have "takeWhile (\<lambda>c. \<not> c_space c) (dropWhile c_space p) \<noteq> []"
      using hd_dropWhile[OF False] by (cases "dropWhile c_space p") simp_all
    then show ?thesis using 1 False by (subst space_tokens.simps) (simp add: Let_def)
  qed
qed

lemma idref_exact:
  assumes "holds_ids S t"
  shows "idref_attributes d name t as = None \<longleftrightarrow> set (concat (map (attr_refs d name) as)) \<subseteq> S"
proof (induction as)
  case Nil
  then show ?case by simp
next
  case (Cons a as)
  obtain an v where a: "a = (an, v)" by fastforce
  have v: "idref_violation t ty v = None \<longleftrightarrow>
      set (if ty = ascii ''IDREF'' then [v] else if ty = ascii ''IDREFS'' then space_tokens v else []) \<subseteq> S" for ty
    using holds_lookup[OF assms] by (auto simp: idref_violation_def find_None_iff)
  show ?case
  proof (cases "attr_declared d name an")
    case None
    then have "idref_attributes d name t (a # as) = idref_attributes d name t as"
      by (auto simp: a attr_declared_def split: if_splits)
    then show ?thesis using Cons None by (simp add: a attr_refs_def)
  next
    case (Some ad)
    then have "an \<noteq> []" "ttdtd_lookup_attribute d name an = Some ad" by (simp_all add: attr_declared_def split: if_splits)
    then have i: "idref_attributes d name t (a # as) = None \<longleftrightarrow>
        idref_violation t (at_type ad) v = None \<and> idref_attributes d name t as = None"
      by (simp add: a split: option.split)
    have "attr_refs d name a = (if at_type ad = ascii ''IDREF'' then [v] else if at_type ad = ascii ''IDREFS'' then space_tokens v else [])"
      using Some by (simp add: a attr_refs_def)
    then show ?thesis unfolding i v Cons by simp
  qed
qed

lemma idref_pass_exact:
  assumes t: "holds_ids S t"
  shows "validate_idref_pass d t n = None \<longleftrightarrow> (\<forall>e \<in> set (elements_of n). set (refs_of d e) \<subseteq> S)"
    and "idref_children d t ns = None \<longleftrightarrow> (\<forall>e \<in> set (elements_in ns). set (refs_of d e) \<subseteq> S)"
proof (induction n and ns rule: elements_of_elements_in.induct)
  case (1 nm as cs)
  then show ?case using idref_exact[OF t, of d nm as] by (auto simp: refs_of_def split: option.splits)
next
  case (4 c cs)
  show ?case
  proof (cases "is_element c")
    case False
    then have "elements_of c = []" by (cases c) simp_all
    then show ?thesis using "4.IH" False by simp
  next
    case True
    then show ?thesis using "4.IH" by (auto split: option.split)
  qed
qed simp_all

section \<open>The verdict\<close>


definition sample_definition :: "decl list" where
  "sample_definition =
    [Element_decl \<lparr>el_name = ascii ''e'', content_type = DTD_CONTENT_CHILDREN, content_model = Some (ascii ''(costarring)'')\<rparr>,
     Attribute_decl \<lparr>at_element = ascii ''r'', at_name = ascii ''id'', at_type = ascii ''ID'', default_type = DTD_ATTR_IMPLIED, default_value = None\<rparr>]"

abbreviation sample_dtd :: dtd where
  "sample_dtd \<equiv> fold add_decl sample_definition leptris_dtd_create"

lemma sample_inv: "dtd_inv sample_dtd"
  by (rule decls.adds[OF created_dtd, THEN conjunct1])

lemma sample_lookups:
  "ttdtd_lookup_element sample_dtd n = (if n = ascii ''e'' then
     Some \<lparr>el_name = ascii ''e'', content_type = DTD_CONTENT_CHILDREN, content_model = Some (ascii ''(costarring)'')\<rparr> else None)"
  "leptris_hash_table_get (attributes sample_dtd) k = (if k = ascii ''r.id'' then
     Some \<lparr>at_element = ascii ''r'', at_name = ascii ''id'', at_type = ascii ''ID'', default_type = DTD_ATTR_IMPLIED, default_value = None\<rparr> else None)"
proof -
  have f: "lookup_decl sample_dtd k = find (\<lambda>v. key_bytes (key_of v) \<noteq> [] \<and> key_of v = k) sample_definition" for k
    by (rule decls.first_declared[OF created_dtd created_empty])
  show "ttdtd_lookup_element sample_dtd n = (if n = ascii ''e'' then
     Some \<lparr>el_name = ascii ''e'', content_type = DTD_CONTENT_CHILDREN, content_model = Some (ascii ''(costarring)'')\<rparr> else None)"
    using f[of "Element_key n"] by (auto simp: sample_definition_def ascii_def split: if_splits)
  show "leptris_hash_table_get (attributes sample_dtd) k = (if k = ascii ''r.id'' then
     Some \<lparr>at_element = ascii ''r'', at_name = ascii ''id'', at_type = ascii ''ID'', default_type = DTD_ATTR_IMPLIED, default_value = None\<rparr> else None)"
    using f[of "Attribute_key k"] by (auto simp: sample_definition_def ascii_def build_attr_key_def split: if_splits)
qed


section \<open>Collisions\<close>

abbreviation leaves :: "bytes list \<Rightarrow> node list" where
  "leaves xs \<equiv> map (\<lambda>n. Element n [] []) xs"

lemma leaf_names: "child_names (leaves xs) = xs"
  by (simp add: child_names_def comp_def)

lemma no_required:
  assumes "dtd_inv d" "\<forall>ad k. leptris_hash_table_get (attributes d) k = Some ad \<longrightarrow> default_type ad \<noteq> DTD_ATTR_REQUIRED"
  shows "required_violation has d name as = None"
  using assms(2) unfolding required_exact[OF assms(1)] required_valid_def by blast

lemma same_state: "\<lparr>id_table = id_table st, memo = memo st\<rparr> = st"
  by (cases st) simp

lemma leaves_pass:
  assumes "dtd_inv d" "\<forall>ad k. leptris_hash_table_get (attributes d) k = Some ad \<longrightarrow> default_type ad \<noteq> DTD_ATTR_REQUIRED"
    "\<forall>x \<in> set xs. ttdtd_lookup_element d x = None"
  shows "validate_children has d (leaves xs) st = Some (None, st)"
  using assms(3) by (induction xs) (simp_all add: no_required[OF assms(1,2)] same_state)

lemma hit_stored:
  "memo_lookup (memo_store empty_memo model n h r t) model n h =
    Some \<lparr>memo_model = model, child_count = n, child_hash = h, match_result = r, error_msg = t\<rparr>"
proof -
  have "replicate 64 (None :: memo_entry option) = None # replicate 63 None" by (simp add: eval_nat_numeral)
  then show ?thesis
    by (simp add: memo_lookup_def memo_store_def empty_memo_def CONTENT_MODEL_MEMO_CAP_def memo_hit_def)
qed

text \<open>
  C35. The memo compares the children of two elements by their number and a hash of 32 bits only: when
  the children of a first element fit the content model, those of a second element of the same name,
  equal in number and hash, pass as well, whatever they are. The second element's own children are
  then not what the declaration allows, and the document passes although it is not valid.
\<close>

theorem memo_collision_accepts:
  assumes d: "dtd_inv d" "\<forall>ad k. leptris_hash_table_get (attributes d) k = Some ad \<longrightarrow> default_type ad \<noteq> DTD_ATTR_REQUIRED"
    and decl: "ttdtd_lookup_element d e = Some decl" "content_type decl = DTD_CONTENT_CHILDREN" "content_model decl = Some model" "model \<noteq> []"
    and free: "\<forall>x \<in> insert r (set xs \<union> set ys). ttdtd_lookup_element d x = None"
    and fits: "model_accepts model e xs" "\<not> model_accepts model e ys"
    and eq: "length xs = length ys" "xs \<noteq> []" "hash_child_names xs = hash_child_names ys"
  defines "root \<equiv> Element r [] [Element e [] (leaves xs), Element e [] (leaves ys)]"
  shows "leptris_dtd_validate has (Some (Some root)) (Some d) = Some (1, None) \<and> \<not> dtd_valid has d root"
proof -
  obtain t where t: "leptris_content_model_match (Some model) (Some e) (Some xs) = Some (True, t)"
    using fits(1) by (auto simp: model_accepts_def)
  let ?h = "hash_child_names xs" and ?n = "length xs"
  let ?m = "memo_store empty_memo e ?n ?h True t"
  have "Text None \<notin> set (leaves zs)" "list_all blank (leaves zs)" for zs by (auto simp: list_all_iff)
  then have chars: "element_has_char_content (leaves zs) = Some False" for zs by (simp add: char_content)
  have c: "check_content decl e (leaves zs) m = match_children e model (leaves zs) m" for zs m
    using decl by (simp add: check_content_def check_model_def chars)
  have "memo_lookup empty_memo e ?n ?h = None"
    by (auto simp: memo_lookup_def empty_memo_def memo_hit_def find_Some_iff split: option.splits)
  then have first: "check_content decl e (leaves xs) empty_memo = Some (None, ?m)"
    unfolding c using eq t by (simp add: match_children_def leaf_names Let_def)
  have second: "check_content decl e (leaves ys) ?m = Some (None, ?m)"
    unfolding c using eq hit_stored[of e ?n ?h True t] by (simp add: match_children_def leaf_names Let_def)
  note pass = leaves_pass[OF d, of _ has] no_required[OF d, of has]
  have "validate_element_recursive has d root \<lparr>id_table = empty_table 16, memo = empty_memo\<rparr> =
      Some (None, \<lparr>id_table = empty_table 16, memo = ?m\<rparr>)"
    using free decl(1) first second by (simp add: root_def pass)
  moreover have leaf: "idref_children d ids (leaves zs) = None" for ids zs by (induction zs) simp_all
  have "validate_idref_pass d ids root = None" for ids by (simp add: root_def leaf)
  ultimately have "leptris_dtd_validate has (Some (Some root)) (Some d) = Some (1, None)"
    by (simp add: leptris_dtd_validate_def)
  moreover have "\<not> content_valid decl e (leaves ys)" using decl fits(2) eq by (auto simp: content_valid_def leaf_names)
  then have "\<not> element_valid has d (Element e [] (leaves ys))" using decl(1) by (simp add: element_valid_def)
  then have "\<not> dtd_valid has d root" by (auto simp: dtd_valid_def root_def)
  ultimately show ?thesis by blast
qed

theorem memo_collision_accepts_witness:
  "leptris_dtd_validate (\<lambda>n as. map_of as n)
      (Some (Some (Element (ascii ''r'') [] [Element (ascii ''e'') [] (leaves [ascii ''costarring'']),
        Element (ascii ''e'') [] (leaves [ascii ''liquid''])]))) (Some sample_dtd) = Some (1, None)"
proof -
  let ?model = "ascii ''(costarring)''"
  have "leptris_content_model_match (Some ?model) (Some (ascii ''e'')) (Some [ascii ''costarring'']) = Some (True, None)" by code_simp
  then have yes: "model_accepts ?model (ascii ''e'') [ascii ''costarring'']" by (auto simp: model_accepts_def)
  have "leptris_content_model_match (Some ?model) (Some (ascii ''e'')) (Some [ascii ''liquid'']) = Some (False, Some (Requires (ascii ''costarring'')))"
    by code_simp
  then have no: "\<not> model_accepts ?model (ascii ''e'') [ascii ''liquid'']" by (auto simp: model_accepts_def)
  have h: "hash_child_names [ascii ''costarring''] = hash_child_names [ascii ''liquid'']" by code_simp
  have l: "\<forall>ad k. leptris_hash_table_get (attributes sample_dtd) k = Some ad \<longrightarrow> default_type ad \<noteq> DTD_ATTR_REQUIRED"
    by (simp add: sample_lookups(2) split: if_splits)
  have f: "\<forall>x \<in> insert (ascii ''r'') (set [ascii ''costarring''] \<union> set [ascii ''liquid'']). ttdtd_lookup_element sample_dtd x = None"
    by (simp add: sample_lookups(1) ascii_def)
  from memo_collision_accepts[OF sample_inv l _ _ _ _ f yes no _ _ h, of _ "\<lambda>n as. map_of as n"]
  show ?thesis by (simp add: sample_lookups(1) ascii_def)
qed

end
