(* ===== verification/Arena.thy ===== *)
theory Arena
  imports Prelude "HOL-Library.Multiset"
begin

text \<open>
  The contiguous per-document arena and the cache of blocks it is carved from (\<open>memory/arena.c\<close>):
  allocation by advancing a cursor, and the three tiers of parked blocks, the thread's small spans and
  the process's middle and large ones. Sizes and addresses are 64 bits wide. \<open>custom\<close> says whether a
  custom allocator is active; blocks of the allocator hook and of the operating system are arguments,
  \<open>None\<close> where there is none to be had. The variant for the address sanitizer, which parks nothing,
  is left out, and so are the locks: the model is of one thread.
\<close>

section \<open>The arena\<close>

record arena =
  span :: u64
  base :: u64
  asize :: u64
  used :: u64
  failed :: bool
  direct :: bool

definition align_up :: "u64 \<Rightarrow> u64" where
  "align_up n = and (n + 8 - 1) (NOT (8 - 1))"

definition leptris_arena_alloc :: "arena \<Rightarrow> u64 \<Rightarrow> u64 option \<times> arena" where
  "leptris_arena_alloc a sz =
    (if sz = 0 then (None, a)
     else let aligned = align_up sz in
       if aligned > asize a - used a then (None, a\<lparr>failed := True\<rparr>)
       else (Some (base a + used a), a\<lparr>used := used a + aligned\<rparr>))"

definition leptris_arena_alloc_node_with_content :: "arena \<Rightarrow> u64 \<Rightarrow> u64 \<Rightarrow> (u64 \<times> u64) option \<times> arena" where
  "leptris_arena_alloc_node_with_content a struct_size content_size =
    (let total = align_up struct_size + align_up (content_size + 1) in
     if total > asize a - used a then (None, a\<lparr>failed := True\<rparr>)
     else let node = base a + used a in
       (Some (node, node + align_up struct_size), a\<lparr>used := used a + total\<rparr>))"

definition leptris_arena_remaining :: "arena \<Rightarrow> u64" where
  "leptris_arena_remaining a = asize a - used a"

definition leptris_arena_reset :: "arena \<Rightarrow> arena" where
  "leptris_arena_reset a = a\<lparr>used := 0, failed := False\<rparr>"

section \<open>Parked blocks\<close>

definition ARENA_RETAIN_MIN :: u64 where "ARENA_RETAIN_MIN = 256 * 1024"
definition ARENA_RETAIN_MAX_BLOCKS :: nat where "ARENA_RETAIN_MAX_BLOCKS = 4"
definition ARENA_RETAIN_LARGE_MIN :: u64 where "ARENA_RETAIN_LARGE_MIN = 2 * 1024 * 1024"
definition ARENA_RETAIN_MAX_BYTES :: u64 where "ARENA_RETAIN_MAX_BYTES = 96 * 1024 * 1024"
definition ARENA_TLS_SPANS :: nat where "ARENA_TLS_SPANS = 8"
definition ARENA_TLS_MAX_BYTES :: u64 where "ARENA_TLS_MAX_BYTES = 2 * 1024 * 1024"

text \<open>Address and size of every slot in use, and the sum of the sizes.\<close>

record tier =
  slots :: "(u64 \<times> u64) list"
  bytes_parked :: u64

record retain =
  g_small :: tier
  g_retain_mid :: tier
  g_retain_large :: tier
  direct_taken :: nat
  direct_released :: nat

definition retain_bytes_total :: "retain \<Rightarrow> u64" where
  "retain_bytes_total r = bytes_parked (g_retain_mid r) + bytes_parked (g_retain_large r)"

text \<open>Slot \<open>i\<close> is filled with the last one.\<close>

definition take_slot :: "nat \<Rightarrow> tier \<Rightarrow> tier" where
  "take_slot i t =
    t\<lparr>slots := butlast ((slots t)[i := last (slots t)]), bytes_parked := bytes_parked t - snd (slots t ! i)\<rparr>"

definition park_slot :: "u64 \<Rightarrow> u64 \<Rightarrow> tier \<Rightarrow> tier" where
  "park_slot p sz t = t\<lparr>slots := slots t @ [(p, sz)], bytes_parked := bytes_parked t + sz\<rparr>"

primrec last_exact :: "(u64 \<times> u64) list \<Rightarrow> u64 \<Rightarrow> nat \<Rightarrow> nat option" where
  "last_exact xs request 0 = None"
| "last_exact xs request (Suc i) = (if snd (xs ! i) = request then Some i else last_exact xs request i)"

definition small_take :: "bool \<Rightarrow> u64 \<Rightarrow> tier \<Rightarrow> ((u64 \<times> u64) \<times> tier) option" where
  "small_take custom request t =
    (if request \<ge> ARENA_RETAIN_MIN then None
     else if custom then None
     else map_option (\<lambda>i. (slots t ! i, take_slot i t)) (last_exact (slots t) request (length (slots t))))"

definition small_give :: "bool \<Rightarrow> u64 \<Rightarrow> u64 \<Rightarrow> tier \<Rightarrow> tier option" where
  "small_give custom p sz t =
    (if sz \<ge> ARENA_RETAIN_MIN then None
     else if custom then None
     else if length (slots t) \<ge> ARENA_TLS_SPANS \<or> bytes_parked t + sz > ARENA_TLS_MAX_BYTES then None
     else Some (park_slot p sz t))"

function first_fit :: "(u64 \<times> u64) list \<Rightarrow> u64 \<Rightarrow> nat \<Rightarrow> nat option" where
  "first_fit xs request i =
    (if i < length xs then (if snd (xs ! i) \<ge> request then Some i else first_fit xs request (i + 1)) else None)"
  by pat_completeness auto
termination
  by (relation "measure (\<lambda>(xs, request, i). length xs - i)") auto

declare first_fit.simps [simp del]

text \<open>A parked block of at least \<open>request\<close> bytes, with its recorded size.\<close>

definition retain_take :: "bool \<Rightarrow> u64 \<Rightarrow> retain \<Rightarrow> ((u64 \<times> u64) \<times> retain) option" where
  "retain_take custom request r =
    (case small_take custom request (g_small r) of
       Some (b, t) \<Rightarrow> Some (b, r\<lparr>g_small := t\<rparr>)
     | None \<Rightarrow>
         if request < ARENA_RETAIN_MIN then None
         else if request \<ge> ARENA_RETAIN_LARGE_MIN then
           map_option (\<lambda>i. (slots (g_retain_large r) ! i, r\<lparr>g_retain_large := take_slot i (g_retain_large r)\<rparr>))
             (first_fit (slots (g_retain_large r)) request 0)
         else
           map_option (\<lambda>i. (slots (g_retain_mid r) ! i, r\<lparr>g_retain_mid := take_slot i (g_retain_mid r)\<rparr>))
             (first_fit (slots (g_retain_mid r)) request 0))"

text \<open>Whether the block was parked; otherwise it goes back to the allocator.\<close>

definition retain_give :: "bool \<Rightarrow> u64 \<Rightarrow> u64 \<Rightarrow> retain \<Rightarrow> bool \<times> retain" where
  "retain_give custom p sz r =
    (if sz < ARENA_RETAIN_MIN then
       (case small_give custom p sz (g_small r) of
          Some t \<Rightarrow> (True, r\<lparr>g_small := t\<rparr>)
        | None \<Rightarrow> (False, r))
     else
       let large_class = (sz \<ge> ARENA_RETAIN_LARGE_MIN);
           count = length (slots (if large_class then g_retain_large r else g_retain_mid r)) in
       if count \<ge> ARENA_RETAIN_MAX_BLOCKS \<or> retain_bytes_total r + sz > ARENA_RETAIN_MAX_BYTES then (False, r)
       else if large_class then (True, r\<lparr>g_retain_large := park_slot p sz (g_retain_large r)\<rparr>)
       else (True, r\<lparr>g_retain_mid := park_slot p sz (g_retain_mid r)\<rparr>))"

definition empty_tier :: tier where
  "empty_tier = \<lparr>slots = [], bytes_parked = 0\<rparr>"

text \<open>The addresses freed, and the emptied cache.\<close>

definition leptris_arena_retain_drain :: "retain \<Rightarrow> u64 list \<times> retain" where
  "leptris_arena_retain_drain r =
    (map fst (slots (g_small r)) @ map fst (slots (g_retain_mid r)) @ map fst (slots (g_retain_large r)),
     r\<lparr>g_small := empty_tier, g_retain_mid := empty_tier, g_retain_large := empty_tier\<rparr>)"

definition leptris_arena_buffer_alloc :: "bool \<Rightarrow> u64 option \<Rightarrow> u64 \<Rightarrow> retain \<Rightarrow> u64 option \<times> retain" where
  "leptris_arena_buffer_alloc custom hook sz r =
    (case retain_take custom sz r of
       Some ((p, cap), r) \<Rightarrow> (Some p, r)
     | None \<Rightarrow> (hook, r))"

definition leptris_arena_buffer_release :: "bool \<Rightarrow> u64 \<Rightarrow> u64 \<Rightarrow> retain \<Rightarrow> bool \<times> retain" where
  "leptris_arena_buffer_release custom p sz r = retain_give custom p sz r"

text \<open>The header is 48 bytes on the targets with 64-bit addresses.\<close>

definition arena_hdr :: u64 where
  "arena_hdr = and (48 + 8 - 1) (NOT (8 - 1))"

definition leptris_arena_create :: "bool \<Rightarrow> u64 option \<Rightarrow> u64 option \<Rightarrow> u64 \<Rightarrow> retain \<Rightarrow> arena option \<times> retain" where
  "leptris_arena_create custom mapped hook sz r =
    (if sz = 0 \<or> sz > - 1 - 8 - arena_hdr then (None, r)
     else
       let want = sz + arena_hdr;
           carve = (\<lambda>p capacity d. \<lparr>span = p, base = p + arena_hdr, asize = capacity - arena_hdr, used = 0,
             failed = False, direct = d\<rparr>) in
       if want > ARENA_RETAIN_MAX_BYTES \<and> \<not> custom \<and> mapped \<noteq> None
       then (Some (carve (the mapped) want True), r\<lparr>direct_taken := direct_taken r + 1\<rparr>)
       else
         (case retain_take custom want r of
            Some ((p, capacity), r) \<Rightarrow> (Some (carve p capacity False), r)
          | None \<Rightarrow>
              (case hook of
                 None \<Rightarrow> (None, r)
               | Some p \<Rightarrow> (Some (carve p want False), r))))"

text \<open>Whether the span was parked; a direct span is unmapped.\<close>

definition leptris_arena_destroy :: "bool \<Rightarrow> arena \<Rightarrow> retain \<Rightarrow> bool \<times> retain" where
  "leptris_arena_destroy custom a r =
    (if direct a then (False, r\<lparr>direct_released := direct_released r + 1\<rparr>)
     else retain_give custom (span a) (asize a + arena_hdr) r)"

section \<open>Allocation in an arena\<close>

lemma align_up_mask: "align_up n = and (n + 7) (NOT (mask 3))"
  by (simp add: align_up_def mask_eq_exp_minus_1 add_diff_eq[symmetric])

lemma unat_align_up:
  assumes "unat n + 7 < 2 ^ 64"
  shows "unat (align_up n) = (unat n + 7) div 8 * 8" "unat n \<le> unat (align_up n)" "8 dvd unat (align_up n)"
proof -
  have "unat (n + 7) = unat n + 7" using assms by (simp add: unat_word_ariths)
  then show u: "unat (align_up n) = (unat n + 7) div 8 * 8" by (simp add: align_up_mask unat_and_not_mask)
  show "unat n \<le> unat (align_up n)" unfolding u by presburger
  show "8 dvd unat (align_up n)" unfolding u by simp
qed

text \<open>The cursor stays inside the arena and on the grid; the arena lies in the address space.\<close>

definition arena_ok :: "arena \<Rightarrow> bool" where
  "arena_ok a \<longleftrightarrow> unat (used a) \<le> unat (asize a) \<and> 8 dvd unat (used a) \<and> 8 dvd unat (base a)
    \<and> unat (base a) + unat (asize a) < 2 ^ 64"

lemma arena_ok_failed [simp]: "arena_ok (a\<lparr>failed := b\<rparr>) = arena_ok a"
  by (simp add: arena_ok_def)

lemma bump:
  assumes ok: "arena_ok a" and fit: "\<not> n > asize a - used a" and n: "8 dvd unat n"
  shows "arena_ok (a\<lparr>used := used a + n\<rparr>)" "unat (used a + n) = unat (used a) + unat n"
    "unat (base a + used a) = unat (base a) + unat (used a)" "8 dvd unat (base a + used a)"
proof -
  have u: "unat (used a) \<le> unat (asize a)" "8 dvd unat (used a)" "8 dvd unat (base a)" "unat (base a) + unat (asize a) < 2 ^ 64"
    using ok by (simp_all add: arena_ok_def)
  have le: "used a \<le> asize a" using u(1) by (simp add: word_le_nat_alt)
  have f: "unat (used a) + unat n \<le> unat (asize a)"
    using fit u(1) by (simp add: word_less_nat_alt unat_sub[OF le])
  have lt: "unat (asize a) < 2 ^ 64" using u(4) by simp
  show s: "unat (used a + n) = unat (used a) + unat n" using f lt by (simp add: unat_word_ariths)
  show b: "unat (base a + used a) = unat (base a) + unat (used a)" using u by (simp add: unat_word_ariths)
  show "8 dvd unat (base a + used a)" unfolding b using u by simp
  show "arena_ok (a\<lparr>used := used a + n\<rparr>)" using u f s n by (simp add: arena_ok_def)
qed

datatype arena_request = Block u64 | Node u64 u64

text \<open>The bytes a request asks for, and the place it gets.\<close>

primrec extent :: "arena_request \<Rightarrow> nat" where
  "extent (Block sz) = unat sz"
| "extent (Node struct_size content_size) = unat (align_up struct_size) + unat content_size + 1"

primrec arena_serve :: "arena_request \<Rightarrow> arena \<Rightarrow> u64 option \<times> arena" where
  "arena_serve (Block sz) a = leptris_arena_alloc a sz"
| "arena_serve (Node struct_size content_size) a =
    (case leptris_arena_alloc_node_with_content a struct_size content_size of (r, a) \<Rightarrow> (map_option fst r, a))"

primrec arena_serve_all :: "arena_request list \<Rightarrow> arena \<Rightarrow> u64 option list \<times> arena" where
  "arena_serve_all [] a = ([], a)"
| "arena_serve_all (q # qs) a =
    (case arena_serve q a of (r, a) \<Rightarrow> (case arena_serve_all qs a of (rs, a) \<Rightarrow> (r # rs, a)))"

text \<open>Requests that cannot wrap around: below half of the address space.\<close>

primrec request_ok :: "arena_request \<Rightarrow> bool" where
  "request_ok (Block sz) \<longleftrightarrow> unat sz < 2 ^ 62"
| "request_ok (Node struct_size content_size) \<longleftrightarrow> unat struct_size < 2 ^ 62 \<and> unat content_size < 2 ^ 62"

lemma serve_facts:
  assumes ok: "arena_ok a" and q: "request_ok q" and s: "arena_serve q a = (r, a')"
  shows "arena_ok a' \<and> base a' = base a \<and> asize a' = asize a \<and> unat (used a) \<le> unat (used a') \<and>
    (\<forall>p. r = Some p \<longrightarrow> unat p = unat (base a) + unat (used a) \<and> 8 dvd unat p \<and> unat p + extent q \<le> unat (base a) + unat (used a'))"
proof (cases q)
  case (Block sz)
  have al: "unat sz \<le> unat (align_up sz)" "8 dvd unat (align_up sz)" using q Block unat_align_up[of sz] by simp_all
  show ?thesis
  proof (cases "sz = 0 \<or> align_up sz > asize a - used a")
    case True
    then have "(r, a') = (None, a) \<or> (r, a') = (None, a\<lparr>failed := True\<rparr>)"
      using s Block by (auto simp: leptris_arena_alloc_def Let_def split: if_splits)
    then show ?thesis using ok by auto
  next
    case False
    then have fit: "\<not> align_up sz > asize a - used a" by simp
    note b = bump[OF ok fit al(2)]
    show ?thesis using s Block False al(1) b by (auto simp: leptris_arena_alloc_def Let_def)
  qed
next
  case (Node st ct)
  let ?t = "align_up st + align_up (ct + 1)"
  have c: "unat (ct + 1) = unat ct + 1" using q Node by (simp add: unat_word_ariths)
  have a1: "unat (align_up st) = (unat st + 7) div 8 * 8" "8 dvd unat (align_up st)"
    using q Node unat_align_up[of st] by simp_all
  have a2: "unat (align_up (ct + 1)) = (unat ct + 8) div 8 * 8" "unat ct + 1 \<le> unat (align_up (ct + 1))" "8 dvd unat (align_up (ct + 1))"
    using q Node unat_align_up[of "ct + 1"] c by (simp_all add: add.commute)
  have "(unat st + 7) div 8 * 8 < 2 ^ 63" "(unat ct + 8) div 8 * 8 < 2 ^ 63"
    by (rule order_le_less_trans[OF div_times_less_eq_dividend], use q Node in simp)+
  then have t: "unat ?t = unat (align_up st) + unat (align_up (ct + 1))" unfolding a1(1) a2(1) using a1(1) a2(1) by (simp add: unat_word_ariths)
  then have d: "8 dvd unat ?t" using a1(2) a2(3) by simp
  show ?thesis
  proof (cases "?t > asize a - used a")
    case True
    then have "(r, a') = (None, a\<lparr>failed := True\<rparr>)"
      using s Node by (simp add: leptris_arena_alloc_node_with_content_def Let_def)
    then show ?thesis using ok by auto
  next
    case False
    note b = bump[OF ok False d]
    show ?thesis using s Node False a2(2) t b by (auto simp: leptris_arena_alloc_node_with_content_def Let_def)
  qed
qed

lemma serve_all_facts:
  "arena_ok a \<Longrightarrow> \<forall>q \<in> set qs. request_ok q \<Longrightarrow> arena_serve_all qs a = (rs, a') \<Longrightarrow>
    length rs = length qs \<and> arena_ok a' \<and> base a' = base a \<and> asize a' = asize a \<and> unat (used a) \<le> unat (used a') \<and>
    (\<forall>i < length qs. \<forall>p. rs ! i = Some p \<longrightarrow>
      unat (base a) + unat (used a) \<le> unat p \<and> 8 dvd unat p \<and> unat p + extent (qs ! i) \<le> unat (base a) + unat (used a')) \<and>
    (\<forall>i j p p'. i < j \<and> j < length qs \<and> rs ! i = Some p \<and> rs ! j = Some p' \<longrightarrow> unat p + extent (qs ! i) \<le> unat p')"
proof (induction qs arbitrary: a rs)
  case (Cons q qs)
  obtain r a1 where r: "arena_serve q a = (r, a1)" by fastforce
  obtain rs1 where rs: "arena_serve_all qs a1 = (rs1, a')" "rs = r # rs1"
    using Cons.prems(3) r by (auto split: prod.splits)
  have q: "request_ok q" using Cons.prems(2) by simp
  note f = serve_facts[OF Cons.prems(1) q r]
  have ih: "length rs1 = length qs \<and> arena_ok a' \<and> base a' = base a1 \<and> asize a' = asize a1 \<and> unat (used a1) \<le> unat (used a') \<and>
    (\<forall>i < length qs. \<forall>p. rs1 ! i = Some p \<longrightarrow>
      unat (base a1) + unat (used a1) \<le> unat p \<and> 8 dvd unat p \<and> unat p + extent (qs ! i) \<le> unat (base a1) + unat (used a')) \<and>
    (\<forall>i j p p'. i < j \<and> j < length qs \<and> rs1 ! i = Some p \<and> rs1 ! j = Some p' \<longrightarrow> unat p + extent (qs ! i) \<le> unat p')"
    by (rule Cons.IH[OF _ _ rs(1)]) (use f Cons.prems(2) in simp_all)
  have at: "unat (base a) + unat (used a1) \<le> unat p \<and> 8 dvd unat p \<and> unat p + extent (qs ! i) \<le> unat (base a) + unat (used a')"
    if "i < length qs" "rs1 ! i = Some p" for i p using ih f that by simp
  have order: "unat p + extent (qs ! i) \<le> unat p'" if "i < j" "j < length qs" "rs1 ! i = Some p" "rs1 ! j = Some p'" for i j p p'
    using ih that by blast
  have first: "unat p = unat (base a) + unat (used a) \<and> 8 dvd unat p \<and> unat p + extent q \<le> unat (base a) + unat (used a1)"
    if "r = Some p" for p using f that by blast
  have le: "unat (used a) \<le> unat (used a1)" "unat (used a1) \<le> unat (used a')" using f ih by simp_all
  have c1: "unat (base a) + unat (used a) \<le> unat p \<and> 8 dvd unat p \<and> unat p + extent ((q # qs) ! i) \<le> unat (base a) + unat (used a')"
    if "i < length (q # qs)" "rs ! i = Some p" for i p
  proof (cases i)
    case 0
    then have "r = Some p" using that rs(2) by simp
    then show ?thesis using first[of p] 0 le by auto
  next
    case (Suc k)
    then show ?thesis using at[of k p] that rs(2) le by simp
  qed
  have c2: "unat p + extent ((q # qs) ! i) \<le> unat p'"
    if ij: "i < j" "j < length (q # qs)" "rs ! i = Some p" "rs ! j = Some p'" for i j p p'
  proof -
    obtain k where j: "j = Suc k" using ij(1) by (cases j) simp_all
    then have k: "k < length qs" "rs1 ! k = Some p'" using ij rs(2) by simp_all
    show ?thesis
    proof (cases i)
      case 0
      then show ?thesis using first[of p] at[OF k] ij(3) rs(2) by simp
    next
      case (Suc l)
      then show ?thesis using order[of l k p p'] ij j rs(2) by simp
    qed
  qed
  have simple: "length rs = length (q # qs)" "arena_ok a'" "base a' = base a" "asize a' = asize a" "unat (used a) \<le> unat (used a')"
    using f ih rs(2) le by simp_all
  have C1: "\<forall>i < length (q # qs). \<forall>p. rs ! i = Some p \<longrightarrow>
      unat (base a) + unat (used a) \<le> unat p \<and> 8 dvd unat p \<and> unat p + extent ((q # qs) ! i) \<le> unat (base a) + unat (used a')"
    by (intro allI impI) (rule c1)
  have C2: "\<forall>i j p p'. i < j \<and> j < length (q # qs) \<and> rs ! i = Some p \<and> rs ! j = Some p' \<longrightarrow> unat p + extent ((q # qs) ! i) \<le> unat p'"
    by (intro allI impI, elim conjE) (rule c2)
  show ?case by (rule conjI[OF simple(1) conjI[OF simple(2) conjI[OF simple(3) conjI[OF simple(4) conjI[OF simple(5) conjI[OF C1 C2]]]]]])
qed simp

text \<open>
  C19. What an arena hands out is aligned, lies inside the arena and never overlaps: for any sequence of
  requests below 2 to the 62 bytes, blocks and nodes with content, every answer starts on a multiple
  of 8, lies between the base and the end of the arena, and ends before any later answer starts.
\<close>

theorem arena_answers_disjoint:
  assumes "arena_ok a" "\<forall>q \<in> set qs. request_ok q" "i < j" "j < length qs"
    "fst (arena_serve_all qs a) ! i = Some p" "fst (arena_serve_all qs a) ! j = Some p'"
  shows "unat (base a) \<le> unat p \<and> unat p + extent (qs ! i) \<le> unat p' \<and> unat p' + extent (qs ! j) \<le> unat (base a) + unat (asize a)
    \<and> 8 dvd unat p \<and> 8 dvd unat p'"
proof -
  obtain rs a' where r: "arena_serve_all qs a = (rs, a')" by fastforce
  note f = serve_all_facts[OF assms(1,2) r]
  have i: "i < length qs" using assms(3,4) by simp
  have "unat (used a') \<le> unat (asize a)" using f by (auto simp: arena_ok_def)
  then have e: "unat (base a) + unat (used a') \<le> unat (base a) + unat (asize a)" by simp
  have p: "unat (base a) + unat (used a) \<le> unat p \<and> 8 dvd unat p" using f i assms(5) r by simp
  have p': "8 dvd unat p' \<and> unat p' + extent (qs ! j) \<le> unat (base a) + unat (used a')" using f assms(4,6) r by simp
  have "unat p + extent (qs ! i) \<le> unat p'" using f assms(3-6) r by simp
  then show ?thesis using p p' e by linarith
qed

text \<open>
  A request within 7 bytes of the top of the address range wraps around in the rounding: it is
  answered with the cursor, which does not move, so the next request gets the same address.
\<close>

theorem arena_alloc_wraps:
  assumes "2 ^ 64 - 7 \<le> unat sz"
  shows "leptris_arena_alloc a sz = (Some (base a + used a), a)"
proof -
  have "unat sz < 2 ^ 64" using unsigned_less[of sz, where ?'a = nat] by simp
  then have "(unat sz + 7) mod 2 ^ 64 = unat sz + 7 - 2 ^ 64" using assms by (subst le_mod_geq) simp_all
  then have "unat (sz + 7) = unat sz + 7 - 2 ^ 64" by (simp add: unat_word_ariths)
  moreover have "unat sz + 7 - 2 ^ 64 < 8" using \<open>unat sz < 2 ^ 64\<close> by linarith
  ultimately have "unat (align_up sz) = 0" by (simp add: align_up_mask unat_and_not_mask)
  then have "align_up sz = 0" by (simp add: unat_eq_0)
  moreover have "sz \<noteq> 0" using assms by auto
  ultimately show ?thesis by (simp add: leptris_arena_alloc_def)
qed

section \<open>Ownership of parked blocks\<close>

text \<open>
  The cache with the allocator under it: every block the allocator has handed out and not got back,
  with its true size, and for each block that a caller holds the bytes the caller may use.
\<close>

record block_state =
  cache :: retain
  blocks :: "u64 \<rightharpoonup> u64"
  owned :: "u64 \<rightharpoonup> u64"

inductive block_step :: "block_state \<Rightarrow> block_state \<Rightarrow> bool" where
  taken: "retain_take custom request (cache s) = Some ((p, cap), r) \<Longrightarrow>
    block_step s (s\<lparr>cache := r, owned := (owned s)(p \<mapsto> cap)\<rparr>)"
| allocated: "retain_take custom request (cache s) = None \<Longrightarrow> blocks s p = None \<Longrightarrow> unat request < 2 ^ 63 \<Longrightarrow>
    block_step s (s\<lparr>blocks := (blocks s)(p \<mapsto> request), owned := (owned s)(p \<mapsto> request)\<rparr>)"
| parked: "owned s p = Some cap \<Longrightarrow> sz \<le> cap \<Longrightarrow> retain_give custom p sz (cache s) = (True, r) \<Longrightarrow>
    block_step s (s\<lparr>cache := r, owned := (owned s)(p := None)\<rparr>)"
| freed: "owned s p = Some cap \<Longrightarrow> sz \<le> cap \<Longrightarrow> retain_give custom p sz (cache s) = (False, r) \<Longrightarrow>
    block_step s (s\<lparr>cache := r, owned := (owned s)(p := None), blocks := (blocks s)(p := None)\<rparr>)"
| drained: "leptris_arena_retain_drain (cache s) = (ps, r) \<Longrightarrow>
    block_step s (s\<lparr>cache := r, blocks := (blocks s) |` (- set ps)\<rparr>)"

definition no_blocks :: block_state where
  "no_blocks = \<lparr>cache = \<lparr>g_small = empty_tier, g_retain_mid = empty_tier, g_retain_large = empty_tier,
      direct_taken = 0, direct_released = 0\<rparr>, blocks = Map.empty, owned = Map.empty\<rparr>"

abbreviation block_reachable :: "block_state \<Rightarrow> bool" where
  "block_reachable s \<equiv> block_step\<^sup>*\<^sup>* no_blocks s"

definition all_parked :: "retain \<Rightarrow> (u64 \<times> u64) list" where
  "all_parked r = slots (g_small r) @ slots (g_retain_mid r) @ slots (g_retain_large r)"

text \<open>The sum is kept, and the slots hold blocks of the tier's class.\<close>

definition tier_ok :: "nat \<Rightarrow> nat \<Rightarrow> nat \<Rightarrow> tier \<Rightarrow> bool" where
  "tier_ok n lo hi t \<longleftrightarrow> length (slots t) \<le> n \<and> unat (bytes_parked t) = sum_list (map (unat \<circ> snd) (slots t))
    \<and> (\<forall>b \<in> set (slots t). lo \<le> unat (snd b) \<and> unat (snd b) < hi)"

definition retain_ok :: "retain \<Rightarrow> bool" where
  "retain_ok r \<longleftrightarrow> tier_ok 8 0 262144 (g_small r) \<and> tier_ok 4 262144 2097152 (g_retain_mid r)
    \<and> tier_ok 4 2097152 (2 ^ 64) (g_retain_large r) \<and> unat (bytes_parked (g_small r)) \<le> 2097152
    \<and> unat (bytes_parked (g_retain_mid r)) + unat (bytes_parked (g_retain_large r)) \<le> 100663296"

definition blocks_ok :: "block_state \<Rightarrow> bool" where
  "blocks_ok s \<longleftrightarrow> retain_ok (cache s) \<and> distinct (map fst (all_parked (cache s)))
    \<and> (\<forall>p. blocks s p \<noteq> None \<longleftrightarrow> owned s p \<noteq> None \<or> p \<in> fst ` set (all_parked (cache s)))
    \<and> (\<forall>p \<in> fst ` set (all_parked (cache s)). owned s p = None)
    \<and> (\<forall>(p, sz) \<in> set (all_parked (cache s)). sz \<le> the (blocks s p))
    \<and> (\<forall>p c. owned s p = Some c \<longrightarrow> c \<le> the (blocks s p))
    \<and> (\<forall>p n. blocks s p = Some n \<longrightarrow> unat n < 2 ^ 63)"

lemma mset_take_slot:
  assumes "i < length xs"
  shows "mset xs = add_mset (xs ! i) (mset (butlast (xs[i := last xs])))"
proof -
  obtain ys z where xs: "xs = ys @ [z]" using assms by (cases xs rule: rev_cases) auto
  show ?thesis
  proof (cases "i = length ys")
    case True
    then show ?thesis by (simp add: xs)
  next
    case False
    then have i: "i < length ys" using assms xs by simp
    then have "butlast (xs[i := last xs]) = ys[i := z]" by (simp add: xs list_update_append butlast_append)
    moreover have "add_mset (ys ! i) (mset (ys[i := z])) = add_mset z (mset ys)"
      using i by (simp add: mset_update)
    ultimately show ?thesis using i by (simp add: xs nth_append)
  qed
qed

lemma take_slot_facts:
  assumes "tier_ok n lo hi t" "i < length (slots t)"
  shows "tier_ok n lo hi (take_slot i t)" "mset (slots t) = add_mset (slots t ! i) (mset (slots (take_slot i t)))"
    "unat (bytes_parked (take_slot i t)) = unat (bytes_parked t) - unat (snd (slots t ! i))"
    "unat (snd (slots t ! i)) \<le> unat (bytes_parked t)"
proof -
  show m: "mset (slots t) = add_mset (slots t ! i) (mset (slots (take_slot i t)))"
    using mset_take_slot[OF assms(2)] by (simp add: take_slot_def)
  have "sum_mset (image_mset (unat \<circ> snd) (mset (slots t))) =
      unat (snd (slots t ! i)) + sum_mset (image_mset (unat \<circ> snd) (mset (slots (take_slot i t))))"
    unfolding m by simp
  then have sum: "sum_list (map (unat \<circ> snd) (slots t)) =
      unat (snd (slots t ! i)) + sum_list (map (unat \<circ> snd) (slots (take_slot i t)))"
    by (simp only: mset_map[symmetric] sum_mset_sum_list)
  have b: "unat (bytes_parked t) = sum_list (map (unat \<circ> snd) (slots t))" using assms(1) by (simp add: tier_ok_def)
  show le: "unat (snd (slots t ! i)) \<le> unat (bytes_parked t)" using b sum by simp
  then have "snd (slots t ! i) \<le> bytes_parked t" by (simp add: word_le_nat_alt)
  then show u: "unat (bytes_parked (take_slot i t)) = unat (bytes_parked t) - unat (snd (slots t ! i))"
    by (simp add: take_slot_def unat_sub)
  have "set (slots (take_slot i t)) \<subseteq> set (slots t)" using m by (metis set_mset_add_mset_insert set_mset_mset subset_insertI)
  moreover have "length (slots (take_slot i t)) \<le> length (slots t)" by (simp add: take_slot_def)
  ultimately show "tier_ok n lo hi (take_slot i t)"
    using assms(1) u sum b unfolding tier_ok_def by auto
qed

lemma park_slot_facts:
  assumes "tier_ok n lo hi t" "length (slots t) < n" "lo \<le> unat sz" "unat sz < hi" "unat (bytes_parked t) + unat sz < 2 ^ 64"
  shows "tier_ok n lo hi (park_slot p sz t)" "slots (park_slot p sz t) = slots t @ [(p, sz)]"
    "unat (bytes_parked (park_slot p sz t)) = unat (bytes_parked t) + unat sz"
  using assms by (auto simp: tier_ok_def park_slot_def unat_word_ariths)

lemma first_fit_some: "first_fit xs request i = Some k \<Longrightarrow> k < length xs \<and> request \<le> snd (xs ! k)"
proof (induction xs request i rule: first_fit.induct)
  case (1 xs request i)
  then show ?case by (auto simp: first_fit.simps[of xs request i] split: if_splits)
qed

lemma last_exact_some: "last_exact xs request n = Some k \<Longrightarrow> k < n \<and> snd (xs ! k) = request"
  by (induction n) (auto split: if_splits)

lemmas arena_limits = ARENA_RETAIN_MIN_def ARENA_RETAIN_MAX_BLOCKS_def ARENA_RETAIN_LARGE_MIN_def
  ARENA_RETAIN_MAX_BYTES_def ARENA_TLS_SPANS_def ARENA_TLS_MAX_BYTES_def

lemma retain_take_facts:
  assumes ok: "retain_ok r" and t: "retain_take custom request r = Some ((p, cap), r')"
  shows "request \<le> cap \<and> retain_ok r' \<and> mset (all_parked r) = add_mset (p, cap) (mset (all_parked r'))"
proof (cases "small_take custom request (g_small r)")
  case (Some bt)
  then obtain i where i: "last_exact (slots (g_small r)) request (length (slots (g_small r))) = Some i"
    "bt = (slots (g_small r) ! i, take_slot i (g_small r))"
    by (auto simp: small_take_def split: if_splits)
  note li = last_exact_some[OF i(1)]
  have r': "(p, cap) = slots (g_small r) ! i" "r' = r\<lparr>g_small := take_slot i (g_small r)\<rparr>"
    using t Some i(2) by (auto simp: retain_take_def)
  have "tier_ok 8 0 262144 (g_small r)" using ok by (simp add: retain_ok_def)
  note f = take_slot_facts[OF this li[THEN conjunct1]]
  have "cap = request" using li r'(1) by (metis snd_conv)
  moreover have "unat (bytes_parked (take_slot i (g_small r))) \<le> 2097152"
    using f(3) ok by (simp add: retain_ok_def le_diff_conv trans_le_add1)
  ultimately show ?thesis using ok f(1,2) r' by (simp add: retain_ok_def all_parked_def)
next
  case None
  show ?thesis
  proof (cases "request \<ge> ARENA_RETAIN_LARGE_MIN")
    case True
    then obtain i where i: "first_fit (slots (g_retain_large r)) request 0 = Some i"
      "(p, cap) = slots (g_retain_large r) ! i" "r' = r\<lparr>g_retain_large := take_slot i (g_retain_large r)\<rparr>"
      using t None by (auto simp: retain_take_def split: if_splits)
    have "tier_ok 4 2097152 (2 ^ 64) (g_retain_large r)" using ok by (simp add: retain_ok_def)
    note f = take_slot_facts[OF this first_fit_some[OF i(1), THEN conjunct1]]
    have "request \<le> cap" using first_fit_some[OF i(1)] i(2) by (metis snd_conv)
    moreover have "unat (bytes_parked (g_retain_mid r)) + unat (bytes_parked (take_slot i (g_retain_large r))) \<le> 100663296"
      using f(3) ok unfolding retain_ok_def by linarith
    ultimately show ?thesis using ok f(1,2) i(2,3) by (simp add: retain_ok_def all_parked_def)
  next
    case False
    then obtain i where i: "first_fit (slots (g_retain_mid r)) request 0 = Some i"
      "(p, cap) = slots (g_retain_mid r) ! i" "r' = r\<lparr>g_retain_mid := take_slot i (g_retain_mid r)\<rparr>"
      using t None by (auto simp: retain_take_def split: if_splits)
    have "tier_ok 4 262144 2097152 (g_retain_mid r)" using ok by (simp add: retain_ok_def)
    note f = take_slot_facts[OF this first_fit_some[OF i(1), THEN conjunct1]]
    have "request \<le> cap" using first_fit_some[OF i(1)] i(2) by (metis snd_conv)
    moreover have "unat (bytes_parked (take_slot i (g_retain_mid r))) + unat (bytes_parked (g_retain_large r)) \<le> 100663296"
      using f(3) ok unfolding retain_ok_def by linarith
    ultimately show ?thesis using ok f(1,2) i(2,3) by (simp add: retain_ok_def all_parked_def)
  qed
qed

lemma retain_give_false: "retain_give custom p sz r = (False, r') \<Longrightarrow> r' = r"
  by (auto simp: retain_give_def Let_def split: if_splits option.splits)

lemma retain_give_facts:
  assumes ok: "retain_ok r" and sz: "unat sz < 2 ^ 63" and g: "retain_give custom p sz r = (True, r')"
  shows "retain_ok r' \<and> mset (all_parked r') = add_mset (p, sz) (mset (all_parked r))"
proof (cases "sz < ARENA_RETAIN_MIN")
  case True
  then have lt: "unat sz < 262144" by (simp add: word_less_nat_alt arena_limits)
  obtain t where t: "small_give custom p sz (g_small r) = Some t" "r' = r\<lparr>g_small := t\<rparr>"
    using g True by (auto simp: retain_give_def split: option.splits)
  have s: "tier_ok 8 0 262144 (g_small r)" "unat (bytes_parked (g_small r)) \<le> 2097152" using ok by (simp_all add: retain_ok_def)
  have lim: "length (slots (g_small r)) < 8" "\<not> bytes_parked (g_small r) + sz > 2 * 1024 * 1024" "t = park_slot p sz (g_small r)"
    using t(1) by (auto simp: small_give_def arena_limits split: if_splits)
  note f = park_slot_facts[OF s(1) lim(1) _ lt, of p]
  have sum: "unat (bytes_parked (g_small r) + sz) = unat (bytes_parked (g_small r)) + unat sz"
    using s(2) lt by (simp add: unat_word_ariths)
  then have "unat (bytes_parked (g_small r)) + unat sz \<le> 2097152" using lim(2) by (simp add: word_less_nat_alt)
  then show ?thesis using ok f s lt t(2) lim(3) by (simp add: retain_ok_def all_parked_def)
next
  case False
  then have lo: "262144 \<le> unat sz" by (simp add: word_less_nat_alt arena_limits)
  let ?b = "unat (bytes_parked (g_retain_mid r)) + unat (bytes_parked (g_retain_large r))"
  have b: "?b \<le> 100663296" using ok by (simp add: retain_ok_def)
  have tot: "unat (retain_bytes_total r + sz) = ?b + unat sz"
    using b sz by (simp add: retain_bytes_total_def unat_word_ariths)
  have fit: "\<not> retain_bytes_total r + sz > ARENA_RETAIN_MAX_BYTES"
    using g False by (auto simp: retain_give_def Let_def split: if_splits)
  then have sum: "?b + unat sz \<le> 100663296" using tot by (simp add: word_less_nat_alt arena_limits)
  show ?thesis
  proof (cases "sz \<ge> ARENA_RETAIN_LARGE_MIN")
    case True
    then have r': "length (slots (g_retain_large r)) < 4" "r' = r\<lparr>g_retain_large := park_slot p sz (g_retain_large r)\<rparr>"
      using g False fit by (auto simp: retain_give_def Let_def arena_limits split: if_splits)
    have l: "2097152 \<le> unat sz" using True by (simp add: word_le_nat_alt arena_limits)
    have "tier_ok 4 2097152 (2 ^ 64) (g_retain_large r)" using ok by (simp add: retain_ok_def)
    note f = park_slot_facts[OF this r'(1) l, of p]
    show ?thesis using ok f sum sz r'(2) by (simp add: retain_ok_def all_parked_def)
  next
    case n: False
    then have r': "length (slots (g_retain_mid r)) < 4" "r' = r\<lparr>g_retain_mid := park_slot p sz (g_retain_mid r)\<rparr>"
      using g False fit by (auto simp: retain_give_def Let_def arena_limits split: if_splits)
    have l: "unat sz < 2097152" using n by (simp add: word_le_nat_alt arena_limits)
    have "tier_ok 4 262144 2097152 (g_retain_mid r)" using ok by (simp add: retain_ok_def)
    note f = park_slot_facts[OF this r'(1) lo l, of p]
    show ?thesis using ok f sum l r'(2) by (simp add: retain_ok_def all_parked_def)
  qed
qed

text \<open>What each step does to the three parts, given the parked blocks before and after.\<close>

lemma blocks_okI:
  assumes "retain_ok r" "distinct (map fst (all_parked r))"
    "\<And>p. b p \<noteq> None \<longleftrightarrow> own p \<noteq> None \<or> p \<in> fst ` set (all_parked r)"
    "\<And>p sz. (p, sz) \<in> set (all_parked r) \<Longrightarrow> own p = None \<and> sz \<le> the (b p)"
    "\<And>p c. own p = Some c \<Longrightarrow> c \<le> the (b p)" "\<And>p n. b p = Some n \<Longrightarrow> unat n < 2 ^ 63"
  shows "blocks_ok \<lparr>cache = r, blocks = b, owned = own\<rparr>"
proof -
  have "\<forall>p \<in> fst ` set (all_parked r). own p = None" using assms(4) by force
  moreover have "\<forall>(p, sz) \<in> set (all_parked r). sz \<le> the (b p)" using assms(4) by blast
  ultimately show ?thesis using assms(1-3,5,6) by (simp add: blocks_ok_def)
qed

lemma blocks_okD:
  assumes "blocks_ok s"
  shows "retain_ok (cache s)" "distinct (map fst (all_parked (cache s)))"
    "\<And>p. blocks s p \<noteq> None \<longleftrightarrow> owned s p \<noteq> None \<or> p \<in> fst ` set (all_parked (cache s))"
    "\<And>p sz. (p, sz) \<in> set (all_parked (cache s)) \<Longrightarrow> owned s p = None \<and> sz \<le> the (blocks s p)"
    "\<And>p c. owned s p = Some c \<Longrightarrow> c \<le> the (blocks s p)" "\<And>p n. blocks s p = Some n \<Longrightarrow> unat n < 2 ^ 63"
proof -
  show "owned s p = None \<and> sz \<le> the (blocks s p)" if "(p, sz) \<in> set (all_parked (cache s))" for p sz
  proof
    have "\<forall>p \<in> fst ` set (all_parked (cache s)). owned s p = None" using assms by (simp add: blocks_ok_def)
    moreover have "p \<in> fst ` set (all_parked (cache s))" using that by (metis fst_conv imageI)
    ultimately show "owned s p = None" by (rule bspec)
    show "sz \<le> the (blocks s p)" using assms that unfolding blocks_ok_def by blast
  qed
qed (use assms in \<open>simp_all add: blocks_ok_def\<close>)

lemma state_eta: "s = \<lparr>cache = cache s, blocks = blocks s, owned = owned s\<rparr>"
  by simp

lemma parked_perm:
  assumes "mset (all_parked r) = add_mset (p, sz) (mset (all_parked r'))" "distinct (map fst (all_parked r))"
  shows "set (all_parked r) = insert (p, sz) (set (all_parked r'))" "distinct (map fst (all_parked r'))"
    "p \<notin> fst ` set (all_parked r')"
proof -
  show "set (all_parked r) = insert (p, sz) (set (all_parked r'))"
    using assms(1) by (metis set_mset_add_mset_insert set_mset_mset)
  have "mset (map fst (all_parked r)) = mset (p # map fst (all_parked r'))" using assms(1) by simp
  then have "distinct (p # map fst (all_parked r'))" using assms(2) mset_eq_imp_distinct_iff by blast
  then show "distinct (map fst (all_parked r'))" "p \<notin> fst ` set (all_parked r')" by simp_all
qed

lemma step_taken:
  assumes ok: "blocks_ok s" and t: "retain_take custom request (cache s) = Some ((p, cap), r)"
  shows "blocks_ok (s\<lparr>cache := r, owned := (owned s)(p \<mapsto> cap)\<rparr>)"
    "owned s p = None" "request \<le> cap" "cap \<le> the (blocks s p)" "blocks s p \<noteq> None"
proof -
  note d = blocks_okD[OF ok]
  note f = retain_take_facts[OF d(1) t]
  note m = parked_perm[OF f[THEN conjunct2, THEN conjunct2] d(2)]
  have in_p: "(p, cap) \<in> set (all_parked (cache s))" using m(1) by simp
  show free: "owned s p = None" "cap \<le> the (blocks s p)" using d(4)[OF in_p] by simp_all
  show "request \<le> cap" using f by blast
  have pk: "p \<in> fst ` set (all_parked (cache s))" using in_p by (metis fst_conv imageI)
  then show b: "blocks s p \<noteq> None" using d(3) by blast
  have img: "fst ` set (all_parked (cache s)) = insert p (fst ` set (all_parked r))" using m(1) by simp
  have "blocks_ok \<lparr>cache = r, blocks = blocks s, owned = (owned s)(p \<mapsto> cap)\<rparr>"
  proof (rule blocks_okI)
    show "retain_ok r" using f by blast
    show "distinct (map fst (all_parked r))" by (rule m(2))
    show "blocks s q \<noteq> None \<longleftrightarrow> ((owned s)(p \<mapsto> cap)) q \<noteq> None \<or> q \<in> fst ` set (all_parked r)" for q
      using d(3)[of q] unfolding img by auto
    show "((owned s)(p \<mapsto> cap)) q = None \<and> sz \<le> the (blocks s q)" if "(q, sz) \<in> set (all_parked r)" for q sz
    proof -
      have "q \<noteq> p" using that m(3) by (metis fst_conv imageI)
      then show ?thesis using d(4)[of q sz] that m(1) by simp
    qed
    show "c \<le> the (blocks s q)" if "((owned s)(p \<mapsto> cap)) q = Some c" for q c
      using that d(5)[of q c] free(2) by (auto split: if_splits)
    show "unat n < 2 ^ 63" if "blocks s q = Some n" for q n using d(6)[OF that] .
  qed
  then show "blocks_ok (s\<lparr>cache := r, owned := (owned s)(p \<mapsto> cap)\<rparr>)" by (subst state_eta) simp
qed

lemma step_allocated:
  assumes ok: "blocks_ok s" and b: "blocks s p = None" and n: "unat request < 2 ^ 63"
  shows "blocks_ok (s\<lparr>blocks := (blocks s)(p \<mapsto> request), owned := (owned s)(p \<mapsto> request)\<rparr>)"
proof -
  note d = blocks_okD[OF ok]
  have np: "p \<notin> fst ` set (all_parked (cache s))" using b d(3)[of p] by blast
  have "blocks_ok \<lparr>cache = cache s, blocks = (blocks s)(p \<mapsto> request), owned = (owned s)(p \<mapsto> request)\<rparr>"
  proof (rule blocks_okI[OF d(1,2)])
    show "((blocks s)(p \<mapsto> request)) q \<noteq> None \<longleftrightarrow> ((owned s)(p \<mapsto> request)) q \<noteq> None \<or> q \<in> fst ` set (all_parked (cache s))" for q
      using d(3)[of q] by auto
    show "((owned s)(p \<mapsto> request)) q = None \<and> sz \<le> the (((blocks s)(p \<mapsto> request)) q)"
      if "(q, sz) \<in> set (all_parked (cache s))" for q sz
    proof -
      have "q \<noteq> p" using that np by (metis fst_conv imageI)
      then show ?thesis using d(4)[OF that] by simp
    qed
  qed (use d(5,6) n in \<open>auto split: if_splits\<close>)
  then show ?thesis by (subst state_eta) simp
qed

lemma step_parked:
  assumes ok: "blocks_ok s" and o: "owned s p = Some cap" and sz: "sz \<le> cap"
    and g: "retain_give custom p sz (cache s) = (True, r)"
  shows "blocks_ok (s\<lparr>cache := r, owned := (owned s)(p := None)\<rparr>)"
proof -
  note d = blocks_okD[OF ok]
  obtain n where n: "blocks s p = Some n" "cap \<le> n" using d(3)[of p] d(5)[OF o] o by auto
  have "unat sz < 2 ^ 63" using d(6)[OF n(1)] n(2) sz by (simp add: word_le_nat_alt)
  note f = retain_give_facts[OF d(1) this g]
  have np: "p \<notin> fst ` set (all_parked (cache s))" using d(4) o by force
  have set_r: "set (all_parked r) = insert (p, sz) (set (all_parked (cache s)))"
    using f by (metis set_mset_add_mset_insert set_mset_mset)
  have "mset (map fst (all_parked r)) = mset (p # map fst (all_parked (cache s)))" using f by simp
  then have dist: "distinct (map fst (all_parked r))"
    using np d(2) mset_eq_imp_distinct_iff[of "map fst (all_parked r)" "p # map fst (all_parked (cache s))"] by simp
  have img: "fst ` set (all_parked r) = insert p (fst ` set (all_parked (cache s)))" using set_r by simp
  have "blocks_ok \<lparr>cache = r, blocks = blocks s, owned = (owned s)(p := None)\<rparr>"
  proof (rule blocks_okI[OF _ dist])
    show "retain_ok r" using f by blast
    show "blocks s q \<noteq> None \<longleftrightarrow> ((owned s)(p := None)) q \<noteq> None \<or> q \<in> fst ` set (all_parked r)" for q
      using d(3)[of q] n(1) unfolding img by auto
    show "((owned s)(p := None)) q = None \<and> z \<le> the (blocks s q)" if "(q, z) \<in> set (all_parked r)" for q z
    proof (cases "(q, z) = (p, sz)")
      case True
      then show ?thesis using n sz by simp
    next
      case False
      then have "(q, z) \<in> set (all_parked (cache s))" using that set_r by auto
      from d(4)[OF this] show ?thesis by simp
    qed
    show "c \<le> the (blocks s q)" if "((owned s)(p := None)) q = Some c" for q c
      using that d(5)[of q c] by (simp split: if_splits)
    show "unat n < 2 ^ 63" if "blocks s q = Some n" for q n using d(6)[OF that] .
  qed
  then show ?thesis by (subst state_eta) simp
qed

lemma step_freed:
  assumes ok: "blocks_ok s" and o: "owned s p = Some cap" and g: "retain_give custom p sz (cache s) = (False, r)"
  shows "blocks_ok (s\<lparr>cache := r, owned := (owned s)(p := None), blocks := (blocks s)(p := None)\<rparr>)"
proof -
  note d = blocks_okD[OF ok]
  have r: "r = cache s" by (rule retain_give_false[OF g])
  have np: "p \<notin> fst ` set (all_parked (cache s))" using d(4) o by force
  have "blocks_ok \<lparr>cache = cache s, blocks = (blocks s)(p := None), owned = (owned s)(p := None)\<rparr>"
  proof (rule blocks_okI[OF d(1,2)])
    show "((blocks s)(p := None)) q \<noteq> None \<longleftrightarrow> ((owned s)(p := None)) q \<noteq> None \<or> q \<in> fst ` set (all_parked (cache s))" for q
      using d(3)[of q] np by auto
    show "((owned s)(p := None)) q = None \<and> z \<le> the (((blocks s)(p := None)) q)"
      if "(q, z) \<in> set (all_parked (cache s))" for q z
    proof -
      have "q \<noteq> p" using that np by (metis fst_conv imageI)
      then show ?thesis using d(4)[OF that] by simp
    qed
  qed (use d(5,6) in \<open>auto split: if_splits\<close>)
  then show ?thesis unfolding r by (subst state_eta) simp
qed

lemma empty_cache_ok: "retain_ok (r\<lparr>g_small := empty_tier, g_retain_mid := empty_tier, g_retain_large := empty_tier\<rparr>)"
  by (simp add: retain_ok_def tier_ok_def empty_tier_def)

lemma step_drained:
  assumes ok: "blocks_ok s" and g: "leptris_arena_retain_drain (cache s) = (ps, r)"
  shows "blocks_ok (s\<lparr>cache := r, blocks := (blocks s) |` (- set ps)\<rparr>)"
proof -
  note d = blocks_okD[OF ok]
  have r: "r = (cache s)\<lparr>g_small := empty_tier, g_retain_mid := empty_tier, g_retain_large := empty_tier\<rparr>"
    using g by (simp add: leptris_arena_retain_drain_def)
  have ps: "set ps = fst ` set (all_parked (cache s))"
  proof -
    have "ps = map fst (all_parked (cache s))" using g by (simp add: leptris_arena_retain_drain_def all_parked_def)
    then show ?thesis by (simp only: set_map)
  qed
  have none: "all_parked r = []" by (simp add: r all_parked_def empty_tier_def)
  have apart: "q \<notin> set ps" if "owned s q \<noteq> None" for q
    using d(4) that unfolding ps by force
  have "blocks_ok \<lparr>cache = r, blocks = (blocks s) |` (- set ps), owned = owned s\<rparr>"
  proof (rule blocks_okI)
    show "retain_ok r" unfolding r by (rule empty_cache_ok)
    show "((blocks s) |` (- set ps)) q \<noteq> None \<longleftrightarrow> owned s q \<noteq> None \<or> q \<in> fst ` set (all_parked r)" for q
    proof (cases "q \<in> set ps")
      case True
      then have "owned s q = None" using apart[of q] by blast
      then show ?thesis using True none by (simp add: restrict_map_def)
    next
      case False
      then show ?thesis using d(3)[of q] unfolding ps[symmetric] none by (simp add: restrict_map_def)
    qed
    show "c \<le> the (((blocks s) |` (- set ps)) q)" if "owned s q = Some c" for q c
      using d(5)[OF that] apart[of q] that by (simp add: restrict_map_def)
    show "unat n < 2 ^ 63" if "((blocks s) |` (- set ps)) q = Some n" for q n
      using d(6)[of q n] that by (simp add: restrict_map_def split: if_splits)
  qed (simp_all add: none)
  then show ?thesis by (subst state_eta) simp
qed

lemma reachable_blocks_ok: "block_reachable s \<Longrightarrow> blocks_ok s"
proof (induction rule: rtranclp_induct)
  case base
  show ?case by (auto simp: blocks_ok_def no_blocks_def retain_ok_def tier_ok_def empty_tier_def all_parked_def)
next
  case (step s s')
  from step(2) step(3) show ?case
    by cases (simp_all only: step_taken(1) step_allocated step_parked step_freed step_drained)
qed


text \<open>
  The limits of the cache in every reachable state: at most 8 small spans of 2 MB together, at most
  4 middle and 4 large blocks with 96 MB of recorded sizes together, each in the tier of its size, and
  the sums the tiers keep are the sums of their slots. No block is lost: each one the allocator has
  handed out is held or parked.
\<close>

theorem parked_blocks_bounded:
  assumes "block_reachable s"
  shows "retain_ok (cache s) \<and> (\<forall>p. blocks s p \<noteq> None \<longleftrightarrow> owned s p \<noteq> None \<or> p \<in> fst ` set (all_parked (cache s)))"
  using reachable_blocks_ok[OF assms] by (simp add: blocks_ok_def)

text \<open>
  The 96 MB are a bound on recorded sizes only. A buffer is given back with the size it was asked
  for, not that of the larger block it was cut from, so the record shrinks while the block does not:
  two blocks of 90 MB are parked together.
\<close>

theorem parked_bytes_exceed_budget:
  "\<exists>s. block_reachable s \<and> unat (retain_bytes_total (cache s)) \<le> 96 * 1024 * 1024
    \<and> sum_list (map (\<lambda>(p, sz). unat (the (blocks s p))) (all_parked (cache s))) = 180 * 1024 * 1024"
proof -
  let ?big = "90 * 1024 * 1024 :: u64" and ?two = "2 * 1024 * 1024 :: u64"
  let ?t = "\<lambda>xs n. \<lparr>slots = xs, bytes_parked = n\<rparr>"
  let ?c = "\<lambda>t. \<lparr>g_small = empty_tier, g_retain_mid = empty_tier, g_retain_large = t, direct_taken = 0, direct_released = 0\<rparr>"
  let ?s1 = "\<lparr>cache = ?c empty_tier, blocks = [16 \<mapsto> ?big], owned = [16 \<mapsto> ?big]\<rparr>"
  let ?s2 = "\<lparr>cache = ?c (?t [(16, ?big)] ?big), blocks = [16 \<mapsto> ?big], owned = [16 \<mapsto> ?big](16 := None)\<rparr>"
  let ?s3 = "\<lparr>cache = ?c (?t [] 0), blocks = [16 \<mapsto> ?big], owned = ([16 \<mapsto> ?big](16 := None))(16 \<mapsto> ?big)\<rparr>"
  let ?s4 = "\<lparr>cache = ?c (?t [(16, ?two)] ?two), blocks = [16 \<mapsto> ?big], owned = (([16 \<mapsto> ?big](16 := None))(16 \<mapsto> ?big))(16 := None)\<rparr>"
  let ?s5 = "\<lparr>cache = ?c (?t [(16, ?two)] ?two), blocks = [16 \<mapsto> ?big, 32 \<mapsto> ?big], owned = ((([16 \<mapsto> ?big](16 := None))(16 \<mapsto> ?big))(16 := None))(32 \<mapsto> ?big)\<rparr>"
  let ?s6 = "\<lparr>cache = ?c (?t [(16, ?two), (32, ?big)] (?two + ?big)), blocks = [16 \<mapsto> ?big, 32 \<mapsto> ?big],
    owned = (((([16 \<mapsto> ?big](16 := None))(16 \<mapsto> ?big))(16 := None))(32 \<mapsto> ?big))(32 := None)\<rparr>"
  note eval = retain_take_def small_take_def retain_give_def retain_bytes_total_def arena_limits empty_tier_def
    first_fit.simps take_slot_def park_slot_def no_blocks_def Let_def
  have 1: "block_step no_blocks ?s1"
    using allocated[of False ?big no_blocks 16] by (simp add: eval)
  have 2: "block_step ?s1 ?s2"
    using parked[of ?s1 16 ?big ?big False "?c (?t [(16, ?big)] ?big)"] by (simp add: eval)
  have 3: "block_step ?s2 ?s3"
    using taken[of False ?two ?s2 16 ?big "?c (?t [] 0)"] by (simp add: eval)
  have 4: "block_step ?s3 ?s4"
    using parked[of ?s3 16 ?big ?two False "?c (?t [(16, ?two)] ?two)"] by (simp add: eval)
  have 5: "block_step ?s4 ?s5"
    using allocated[of False ?big ?s4 32] by (simp add: eval)
  have 6: "block_step ?s5 ?s6"
    using parked[of ?s5 32 ?big ?big False "?c (?t [(16, ?two), (32, ?big)] (?two + ?big))"] by (simp add: eval)
  have "block_reachable ?s6"
    using 1 2 3 4 5 6 by (meson rtranclp.rtrancl_into_rtrancl rtranclp.rtrancl_refl)
  moreover have "unat (retain_bytes_total (cache ?s6)) \<le> 96 * 1024 * 1024" by (simp add: eval)
  moreover have "sum_list (map (\<lambda>(p, sz). unat (the (blocks ?s6 p))) (all_parked (cache ?s6))) = 180 * 1024 * 1024"
    by (simp add: all_parked_def empty_tier_def)
  ultimately show ?thesis by blast
qed

theorem arena_answers_disjoint_witness:
  "let a = \<lparr>span = 4096, base = 4144, asize = 1000, used = 0, failed = False, direct = False\<rparr>;
      r = fst (arena_serve_all [Block 13, Node 20 5] a) in
    r = [Some 4144, Some 4160] \<and> unat (4144 :: u64) + 13 \<le> unat (4160 :: u64)"
proof -
  let ?a = "\<lparr>span = 4096, base = 4144, asize = 1000, used = 0, failed = False, direct = False\<rparr>"
  have ok: "arena_ok ?a" by (simp add: arena_ok_def)
  have r: "fst (arena_serve_all [Block 13, Node 20 5] ?a) = [Some 4144, Some 4160]" by code_simp
  have rok: "\<forall>q \<in> set [Block 13, Node 20 5]. request_ok q" by simp
  have "unat (4144 :: u64) + extent ([Block 13, Node 20 5] ! 0) \<le> unat (4160 :: u64)"
    using arena_answers_disjoint[OF ok rok, of 0 1 4144 4160] r by simp
  then show ?thesis using r by simp
qed

theorem arena_alloc_wraps_witness:
  "leptris_arena_alloc \<lparr>span = 4096, base = 4144, asize = 1000, used = 16, failed = False, direct = False\<rparr> 18446744073709551615 =
    (Some 4160, \<lparr>span = 4096, base = 4144, asize = 1000, used = 16, failed = False, direct = False\<rparr>)"
  using arena_alloc_wraps[of "18446744073709551615"] by simp

theorem parked_blocks_bounded_witness:
  "retain_ok (cache no_blocks)"
  using parked_blocks_bounded[of no_blocks] by simp


text \<open>A new arena is well formed and at least as large as asked for, parked block or not.\<close>

lemma hdr_48: "arena_hdr = 48"
  by (simp add: arena_hdr_def)

lemma created_arena_ok:
  assumes c: "leptris_arena_create custom mapped hook sz r = (Some a, r')" and ok: "retain_ok r"
    and block: "8 dvd unat (span a)" "unat (span a) + 48 + unat (asize a) < 2 ^ 64"
  shows "arena_ok a \<and> used a = 0 \<and> sz \<le> asize a"
proof -
  have sz: "sz \<noteq> 0" "\<not> sz > - 1 - 8 - 48" using c by (auto simp: leptris_arena_create_def hdr_48 split: if_splits)
  have "unat sz \<le> unat (- 1 - 8 - 48 :: u64)" using sz(2) by (simp add: word_less_nat_alt)
  then have w: "unat (sz + 48) = unat sz + 48" by (simp add: unat_word_ariths)
  obtain p capacity d where a: "a = \<lparr>span = p, base = p + 48, asize = capacity - 48, used = 0, failed = False, direct = d\<rparr>"
    and cap: "sz + 48 \<le> capacity"
  proof (cases "sz + 48 > ARENA_RETAIN_MAX_BYTES \<and> \<not> custom \<and> mapped \<noteq> None")
    case True
    then show ?thesis using that[of _ "sz + 48"] c sz by (auto simp: leptris_arena_create_def hdr_48 Let_def)
  next
    case False
    show ?thesis
    proof (cases "retain_take custom (sz + 48) r")
      case None
      then show ?thesis using that[of _ "sz + 48"] c sz False
        by (auto simp: leptris_arena_create_def hdr_48 Let_def split: option.splits)
    next
      case (Some x)
      then obtain p capacity r1 where x: "x = ((p, capacity), r1)" by (metis surj_pair)
      have "sz + 48 \<le> capacity" using retain_take_facts[OF ok] Some x by blast
      then show ?thesis using that[of p capacity] c sz False Some x by (auto simp: leptris_arena_create_def hdr_48 Let_def)
    qed
  qed
  have "unat sz + 48 \<le> unat capacity" using cap w by (simp add: word_le_nat_alt)
  then have u: "unat (capacity - 48) = unat capacity - 48" by (subst unat_sub) (simp_all add: word_le_nat_alt)
  have "unat (p + 48) = unat p + 48" using block(2) a by (simp add: unat_word_ariths)
  then show ?thesis using a block u \<open>unat sz + 48 \<le> unat capacity\<close> by (simp add: arena_ok_def word_le_nat_alt)
qed

end
