(* ===== verification/Pool.thy ===== *)
theory Pool
  imports Arena
begin

text \<open>
  The memory pool (\<open>memory/pool.c\<close>): allocation from pages, from an arena with extension blocks, the
  list of oversized allocations, and the recycler that keeps the blocks of destroyed pools. A block
  of the system allocator is a number, and a pointer is a block with an offset into it. \<open>mem n\<close> says
  whether the \<open>n\<close>-th request to the allocator succeeds; the requests are counted, and the count names
  the block. The last page of a pool is its current page. Sizes are those of the targets with 64-bit
  addresses: 120 bytes for the pool, 32 for the header of a page with its data at offset 24, and 24
  for the node of an oversized allocation.
\<close>

section \<open>Blocks\<close>

type_synonym mem = "nat \<Rightarrow> bool"
type_synonym ptr = "nat \<times> u64"

definition alloc_hook :: "mem \<Rightarrow> nat \<Rightarrow> nat option \<times> nat" where
  "alloc_hook mem n = (if mem n then Some n else None, n + 1)"

record page =
  page_block :: nat
  page_data :: u64
  page_size :: u64
  busy_size :: u64

record big_alloc =
  big_block :: nat
  big_size :: u64
  big_node :: "nat option"

record pool =
  pages :: "page list"
  page_count :: nat
  pool_page_size :: u64
  pool_block :: nat
  has_hooks :: bool
  bigs :: "big_alloc list"
  pool_arena :: "(nat \<times> arena) option"
  arena_owned :: bool
  pool_struct_in_arena :: bool
  arena_head_reserved :: u64

definition LEPTRIS_POOL_PAGE_SIZE_DEFAULT :: u64 where "LEPTRIS_POOL_PAGE_SIZE_DEFAULT = 32768"
definition LEPTRIS_POOL_PAGE_SIZE_MIN :: u64 where "LEPTRIS_POOL_PAGE_SIZE_MIN = 4096"

section \<open>Recycler\<close>

text \<open>The parked blocks, the newest first, with their sizes.\<close>

record recycle_list =
  parked_blocks :: "(nat \<times> u64) list"
  rl_n :: nat
  rl_limit :: nat
  rl_idle :: nat

definition pool_recycle_pop :: "recycle_list \<Rightarrow> u64 \<Rightarrow> nat option \<times> recycle_list" where
  "pool_recycle_pop rl sz =
    (case find (\<lambda>b. snd b = sz) (parked_blocks rl) of
       Some b \<Rightarrow> (Some (fst b), rl\<lparr>parked_blocks := remove1 b (parked_blocks rl), rl_n := rl_n rl - 1, rl_idle := 0\<rparr>)
     | None \<Rightarrow> (None, if rl_limit rl < 64 then rl\<lparr>rl_limit := rl_limit rl + 1\<rparr> else rl))"

text \<open>Whether the block was parked, and the block that was freed to trim the list.\<close>

definition pool_recycle_park :: "recycle_list \<Rightarrow> nat \<Rightarrow> u64 \<Rightarrow> bool \<times> nat option \<times> recycle_list" where
  "pool_recycle_park rl block sz =
    (if rl_n rl < rl_limit rl then
       (True, None, rl\<lparr>parked_blocks := (block, sz) # parked_blocks rl, rl_n := rl_n rl + 1, rl_idle := 0\<rparr>)
     else if rl_idle rl \<ge> rl_limit rl \<and> rl_limit rl > 2 then
       (let rl = rl\<lparr>rl_limit := rl_limit rl - 1\<rparr> in
        if rl_n rl > rl_limit rl then
          (False, Some (fst (last (parked_blocks rl))),
           rl\<lparr>parked_blocks := butlast (parked_blocks rl), rl_n := rl_n rl - 1, rl_idle := rl_idle rl + 1\<rparr>)
        else (False, None, rl\<lparr>rl_idle := rl_idle rl + 1\<rparr>))
     else (False, None, rl\<lparr>rl_idle := rl_idle rl + 1\<rparr>))"

definition drained_list :: recycle_list where
  "drained_list = \<lparr>parked_blocks = [], rl_n = 0, rl_limit = 0, rl_idle = 0\<rparr>"

record recycler =
  t_pools :: recycle_list
  t_pages :: recycle_list

definition leptris_pool_drain_recycler :: "recycler \<Rightarrow> nat list \<times> recycler" where
  "leptris_pool_drain_recycler rc =
    (map fst (parked_blocks (t_pools rc)) @ map fst (parked_blocks (t_pages rc)),
     \<lparr>t_pools = drained_list, t_pages = drained_list\<rparr>)"

section \<open>Creation\<close>

definition pool_inline_block_size :: "u64 \<Rightarrow> u64" where
  "pool_inline_block_size sz = (let header_size = and (120 + 32 - 1 + 8 - 1) (NOT (8 - 1)) in header_size + sz)"

definition new_page :: "nat \<Rightarrow> u64 \<Rightarrow> page" where
  "new_page b sz = \<lparr>page_block = b, page_data = 24, page_size = sz, busy_size = 0\<rparr>"

definition allocate_new_page :: "mem \<Rightarrow> nat \<Rightarrow> u64 \<Rightarrow> page option \<times> nat" where
  "allocate_new_page mem n sz = (case alloc_hook mem n of (b, n) \<Rightarrow> (map_option (\<lambda>b. new_page b sz) b, n))"

text \<open>The second page is from the recycler or new, and the pool does without where neither works.\<close>

definition second_page :: "bool \<Rightarrow> mem \<Rightarrow> nat \<Rightarrow> u64 \<Rightarrow> recycler \<Rightarrow> page option \<times> nat \<times> recycler" where
  "second_page active mem n sz rc =
    (case if active then pool_recycle_pop (t_pages rc) (32 - 1 + sz) else (None, t_pages rc) of
       (Some b, rl) \<Rightarrow> (Some (new_page b sz), n, rc\<lparr>t_pages := rl\<rparr>)
     | (None, rl) \<Rightarrow> (case allocate_new_page mem n sz of (pg, n) \<Rightarrow> (pg, n, rc\<lparr>t_pages := rl\<rparr>)))"

definition leptris_pool_create_with_page_size :: "bool \<Rightarrow> mem \<Rightarrow> nat \<Rightarrow> u64 \<Rightarrow> recycler \<Rightarrow> pool option \<times> nat \<times> recycler" where
  "leptris_pool_create_with_page_size custom mem n sz rc =
    (let sz = (if sz < LEPTRIS_POOL_PAGE_SIZE_MIN then LEPTRIS_POOL_PAGE_SIZE_MIN else sz);
         sz = align_up sz;
         total_size = pool_inline_block_size sz in
     case if \<not> custom then pool_recycle_pop (t_pools rc) total_size else (None, t_pools rc) of
       (popped, rl) \<Rightarrow>
         let rc = rc\<lparr>t_pools := rl\<rparr> in
         case (case popped of Some b \<Rightarrow> (Some b, n) | None \<Rightarrow> alloc_hook mem n) of
           (None, n) \<Rightarrow> (None, n, rc)
         | (Some block, n) \<Rightarrow>
             let pg = \<lparr>page_block = block, page_data = 120 + 24, page_size = sz, busy_size = 0\<rparr>;
                 p = \<lparr>pages = [pg], page_count = 1, pool_page_size = sz, pool_block = block, has_hooks = False, bigs = [],
                      pool_arena = None, arena_owned = False, pool_struct_in_arena = False, arena_head_reserved = 0\<rparr> in
             if sz \<ge> 8192 then
               (case second_page (\<not> custom) mem n sz rc of
                  (Some next_page, n, rc) \<Rightarrow> (Some (p\<lparr>pages := [pg, next_page], page_count := 2\<rparr>), n, rc)
                | (None, n, rc) \<Rightarrow> (Some p, n, rc))
             else (Some p, n, rc))"

definition leptris_pool_create :: "bool \<Rightarrow> mem \<Rightarrow> nat \<Rightarrow> recycler \<Rightarrow> pool option \<times> nat \<times> recycler" where
  "leptris_pool_create custom mem n rc = leptris_pool_create_with_page_size custom mem n LEPTRIS_POOL_PAGE_SIZE_DEFAULT rc"

definition leptris_pool_create_with_hooks :: "bool \<Rightarrow> mem \<Rightarrow> nat \<Rightarrow> u64 \<Rightarrow> bool \<Rightarrow> recycler \<Rightarrow> pool option \<times> nat \<times> recycler" where
  "leptris_pool_create_with_hooks custom mem n sz hooks rc =
    (case leptris_pool_create_with_page_size custom mem n sz rc of
       (p, n, rc) \<Rightarrow> (map_option (\<lambda>p. p\<lparr>has_hooks := hooks\<rparr>) p, n, rc))"

text \<open>
  A pool over an arena: its structure is carved from an arena of its own where there is room, and
  allocated otherwise. The arena lies in the block \<open>ab\<close>.
\<close>

definition leptris_pool_create_arena_backed :: "mem \<Rightarrow> nat \<Rightarrow> nat \<times> arena \<Rightarrow> bool \<Rightarrow> pool option \<times> nat" where
  "leptris_pool_create_arena_backed mem n aa owns_arena =
    (let before = used (snd aa);
         (carved, a) = (if owns_arena then leptris_arena_alloc (snd aa) 120 else (None, snd aa));
         (block, n) = (if carved = None then alloc_hook mem n else (Some (fst aa), n)) in
     case block of
       None \<Rightarrow> (None, n)
     | Some b \<Rightarrow>
         (Some \<lparr>pages = [], page_count = 0, pool_page_size = 0, pool_block = b, has_hooks = False, bigs = [],
            pool_arena = Some (fst aa, a), arena_owned = owns_arena, pool_struct_in_arena = (carved \<noteq> None),
            arena_head_reserved = (if carved = None then 0 else used a - before)\<rparr>, n))"

section \<open>Allocation\<close>

definition add_new_page :: "mem \<Rightarrow> nat \<Rightarrow> u64 \<Rightarrow> pool \<Rightarrow> (page option \<times> nat) \<times> pool" where
  "add_new_page mem n sz p =
    (case allocate_new_page mem n sz of
       (None, n) \<Rightarrow> ((None, n), p)
     | (Some pg, n) \<Rightarrow> ((Some pg, n), p\<lparr>pages := pages p @ [pg], page_count := page_count p + 1\<rparr>))"

definition bump_current :: "u64 \<Rightarrow> pool \<Rightarrow> ptr \<times> pool" where
  "bump_current sz p =
    (let pg = last (pages p) in
     ((page_block pg, page_data pg + busy_size pg),
      p\<lparr>pages := butlast (pages p) @ [pg\<lparr>busy_size := busy_size pg + sz\<rparr>]\<rparr>))"

text \<open>From a fresh page, whose used bytes are then \<open>sz\<close>.\<close>

definition new_page_alloc :: "mem \<Rightarrow> nat \<Rightarrow> u64 \<Rightarrow> pool \<Rightarrow> ptr option \<times> nat \<times> pool" where
  "new_page_alloc mem n sz p =
    (case add_new_page mem n (page_size (last (pages p))) p of
       ((None, n), p) \<Rightarrow> (None, n, p)
     | ((Some pg, n), p) \<Rightarrow>
         (Some (page_block pg, page_data pg), n, p\<lparr>pages := butlast (pages p) @ [pg\<lparr>busy_size := sz\<rparr>]\<rparr>))"

definition pool_alloc_arena_extension :: "mem \<Rightarrow> nat \<Rightarrow> u64 \<Rightarrow> pool \<Rightarrow> ptr option \<times> nat \<times> pool" where
  "pool_alloc_arena_extension mem n sz p =
    (case alloc_hook mem n of
       (None, n) \<Rightarrow> (None, n, p)
     | (Some b, n) \<Rightarrow>
         (case alloc_hook mem n of
            (None, n) \<Rightarrow> (None, n, p)
          | (Some node, n) \<Rightarrow>
              (Some (b, 0), n, p\<lparr>bigs := bigs p @ [\<lparr>big_block = b, big_size = sz, big_node = Some node\<rparr>]\<rparr>)))"

definition arena_request_alloc :: "mem \<Rightarrow> nat \<Rightarrow> u64 \<Rightarrow> pool \<Rightarrow> nat \<times> arena \<Rightarrow> ptr option \<times> nat \<times> pool" where
  "arena_request_alloc mem n sz p aa =
    (case leptris_arena_alloc (snd aa) sz of
       (Some off, a) \<Rightarrow> (Some (fst aa, off), n, p\<lparr>pool_arena := Some (fst aa, a)\<rparr>)
     | (None, a) \<Rightarrow> pool_alloc_arena_extension mem n sz (p\<lparr>pool_arena := Some (fst aa, a)\<rparr>))"

text \<open>
  \<open>leptris_pool_alloc\<close> and \<open>pool_alloc_oversized\<close> call each other; \<open>depth\<close> bounds the nesting, and the
  outer \<open>None\<close> means that it was not enough.
\<close>

primrec pool_alloc_at :: "nat \<Rightarrow> mem \<Rightarrow> nat \<Rightarrow> u64 \<Rightarrow> pool \<Rightarrow> (ptr option \<times> nat \<times> pool) option" where
  "pool_alloc_at 0 mem n sz p = None"
| "pool_alloc_at (Suc depth) mem n sz p =
    (if sz = 0 then Some (None, n, p)
     else case pool_arena p of
       Some aa \<Rightarrow> Some (arena_request_alloc mem n sz p aa)
     | None \<Rightarrow>
         let sz = align_up sz; pg = last (pages p) in
         if busy_size pg + sz \<le> page_size pg then
           (case bump_current sz p of (q, p) \<Rightarrow> Some (Some q, n, p))
         else if sz > page_size pg then
           (case alloc_hook mem n of
              (None, n) \<Rightarrow> Some (None, n, p)
            | (Some b, n) \<Rightarrow>
                (case pool_alloc_at depth mem n 24 p of
                   None \<Rightarrow> None
                 | Some (None, n, p) \<Rightarrow> Some (None, n, p)
                 | Some (Some node, n, p) \<Rightarrow> Some (Some (b, 0), n, p\<lparr>bigs := bigs p @ [\<lparr>big_block = b, big_size = sz, big_node = None\<rparr>]\<rparr>)))
         else Some (new_page_alloc mem n sz p))"

definition leptris_pool_alloc :: "mem \<Rightarrow> nat \<Rightarrow> u64 \<Rightarrow> pool \<Rightarrow> ptr option \<times> nat \<times> pool" where
  "leptris_pool_alloc mem n sz p = (case pool_alloc_at 2 mem n sz p of Some r \<Rightarrow> r | None \<Rightarrow> (None, n, p))"

definition pool_alloc_oversized :: "mem \<Rightarrow> nat \<Rightarrow> u64 \<Rightarrow> pool \<Rightarrow> ptr option \<times> nat \<times> pool" where
  "pool_alloc_oversized mem n sz p =
    (case alloc_hook mem n of
       (None, n) \<Rightarrow> (None, n, p)
     | (Some b, n) \<Rightarrow>
         (case leptris_pool_alloc mem n 24 p of
            (None, n, p) \<Rightarrow> (None, n, p)
          | (Some node, n, p) \<Rightarrow> (Some (b, 0), n, p\<lparr>bigs := bigs p @ [\<lparr>big_block = b, big_size = sz, big_node = None\<rparr>]\<rparr>)))"

definition leptris_pool_alloc_batch :: "mem \<Rightarrow> nat \<Rightarrow> u64 \<Rightarrow> u64 \<Rightarrow> pool \<Rightarrow> ptr option \<times> nat \<times> pool" where
  "leptris_pool_alloc_batch mem n item_size items p =
    (if item_size = 0 \<or> items = 0 then (None, n, p)
     else case pool_arena p of
       Some aa \<Rightarrow> arena_request_alloc mem n (item_size * items) p aa
     | None \<Rightarrow>
         let total_size = align_up item_size * items; pg = last (pages p) in
         if busy_size pg + total_size \<le> page_size pg then
           (case bump_current total_size p of (q, p) \<Rightarrow> (Some q, n, p))
         else if total_size > page_size pg then pool_alloc_oversized mem n total_size p
         else new_page_alloc mem n total_size p)"

text \<open>A node's structure with its content: the two pointers.\<close>

definition two_allocs :: "mem \<Rightarrow> nat \<Rightarrow> u64 \<Rightarrow> u64 \<Rightarrow> pool \<Rightarrow> (ptr \<times> ptr) option \<times> nat \<times> pool" where
  "two_allocs mem n struct_size content_size p =
    (case leptris_pool_alloc mem n struct_size p of
       (None, n, p) \<Rightarrow> (None, n, p)
     | (Some s, n, p) \<Rightarrow>
         (case leptris_pool_alloc mem n (content_size + 1) p of
            (None, n, p) \<Rightarrow> (None, n, p)
          | (Some c, n, p) \<Rightarrow> (Some (s, c), n, p)))"

definition leptris_pool_alloc_node_with_content :: "mem \<Rightarrow> nat \<Rightarrow> u64 \<Rightarrow> u64 \<Rightarrow> pool \<Rightarrow> (ptr \<times> ptr) option \<times> nat \<times> pool" where
  "leptris_pool_alloc_node_with_content mem n struct_size content_size p =
    (if struct_size = 0 then (None, n, p)
     else case pool_arena p of
       Some (ab, a) \<Rightarrow>
         (case leptris_arena_alloc_node_with_content a struct_size content_size of
            (Some (s, c), a) \<Rightarrow> (Some ((ab, s), (ab, c)), n, p\<lparr>pool_arena := Some (ab, a)\<rparr>)
          | (None, a) \<Rightarrow> two_allocs mem n struct_size content_size (p\<lparr>pool_arena := Some (ab, a)\<rparr>))
     | None \<Rightarrow>
         let aligned_struct = align_up struct_size; total = aligned_struct + align_up (content_size + 1) in
         if total \<le> pool_page_size p then
           (case leptris_pool_alloc mem n total p of
              (None, n, p) \<Rightarrow> (None, n, p)
            | (Some q, n, p) \<Rightarrow> (Some (q, (fst q, snd q + aligned_struct)), n, p))
         else two_allocs mem n aligned_struct content_size p)"

section \<open>Queries\<close>

definition leptris_pool_contains :: "pool \<Rightarrow> ptr \<Rightarrow> bool" where
  "leptris_pool_contains p q \<longleftrightarrow>
    (\<exists>pg \<in> set (pages p). busy_size pg > 32 \<and> fst q = page_block pg \<and> page_data pg \<le> snd q
        \<and> snd q < page_data pg + (busy_size pg - 32))
    \<or> (\<exists>b \<in> set (bigs p). fst q = big_block b \<and> snd q < big_size b)
    \<or> (case pool_arena p of
         None \<Rightarrow> False
       | Some (ab, a) \<Rightarrow> fst q = ab \<and> base a \<le> snd q \<and> snd q < base a + used a)"

definition leptris_pool_total_size :: "pool \<Rightarrow> u64" where
  "leptris_pool_total_size p =
    (case pool_arena p of
       Some (_, a) \<Rightarrow> asize a
     | None \<Rightarrow> fold (\<lambda>b t. t + big_size b) (bigs p) (fold (\<lambda>pg t. t + (32 - 1 + page_size pg)) (pages p) 0))"

definition leptris_pool_used_size :: "pool \<Rightarrow> u64" where
  "leptris_pool_used_size p =
    (case pool_arena p of
       Some (_, a) \<Rightarrow> used a - arena_head_reserved p
     | None \<Rightarrow> fold (\<lambda>b t. t + big_size b) (bigs p) (fold (\<lambda>pg t. t + busy_size pg) (pages p) 0))"

definition leptris_pool_page_count :: "pool \<Rightarrow> nat" where
  "leptris_pool_page_count p = (if pool_arena p \<noteq> None then 1 else page_count p)"

section \<open>Destruction\<close>

text \<open>The blocks freed, with the recycler; an arena of the pool's own is destroyed as well.\<close>

primrec destroy_pages :: "bool \<Rightarrow> page list \<Rightarrow> recycle_list \<Rightarrow> nat list \<times> recycle_list" where
  "destroy_pages can_recycle [] rl = ([], rl)"
| "destroy_pages can_recycle (pg # pgs) rl =
    (if can_recycle then
       (case pool_recycle_park rl (page_block pg) (32 - 1 + page_size pg) of
          (ok, trimmed, rl) \<Rightarrow>
            (case destroy_pages can_recycle pgs rl of
               (freed, rl) \<Rightarrow> ((case trimmed of Some b \<Rightarrow> [b] | None \<Rightarrow> []) @ (if ok then [] else [page_block pg]) @ freed, rl)))
     else (case destroy_pages can_recycle pgs rl of (freed, rl) \<Rightarrow> (page_block pg # freed, rl)))"

definition arena_pool_frees :: "pool \<Rightarrow> nat list" where
  "arena_pool_frees p =
    concat (map (\<lambda>b. big_block b # (case big_node b of Some node \<Rightarrow> [node] | None \<Rightarrow> [])) (bigs p))
    @ (if pool_struct_in_arena p then [] else [pool_block p])"

definition leptris_pool_destroy :: "bool \<Rightarrow> pool \<Rightarrow> recycler \<Rightarrow> nat list \<times> recycler" where
  "leptris_pool_destroy custom p rc =
    (if pool_arena p \<noteq> None then (arena_pool_frees p, rc) else
     let big_freed = map big_block (bigs p); can_recycle = (\<not> custom \<and> \<not> has_hooks p) in
     case destroy_pages can_recycle (tl (pages p)) (t_pages rc) of
       (page_freed, rl) \<Rightarrow>
         let rc = rc\<lparr>t_pages := rl\<rparr> in
         if can_recycle then
           (case pool_recycle_park (t_pools rc) (pool_block p) (pool_inline_block_size (pool_page_size p)) of
              (ok, trimmed, rl) \<Rightarrow>
                (big_freed @ page_freed @ (case trimmed of Some b \<Rightarrow> [b] | None \<Rightarrow> []) @ (if ok then [] else [pool_block p]),
                 rc\<lparr>t_pools := rl\<rparr>))
         else (big_freed @ page_freed @ [pool_block p], rc))"

end
