(* ===== verification/PoolSafe.thy ===== *)
theory PoolSafe
  imports Pool
begin

text \<open>
  What the pool guarantees: the regions it hands out never overlap, destroying it gives back every
  block once, and where the code falls short: the containment test, the batch size and a page size
  that wraps around.
\<close>

section \<open>Invariant\<close>

text \<open>The bytes handed out so far.\<close>

definition page_bytes :: "page \<Rightarrow> (nat \<times> nat) set" where
  "page_bytes pg = {page_block pg} \<times> {unat (page_data pg)..<unat (page_data pg) + unat (busy_size pg)}"

definition big_bytes :: "big_alloc \<Rightarrow> (nat \<times> nat) set" where
  "big_bytes b = {big_block b} \<times> {0..<unat (big_size b)}"

definition used_bytes :: "pool \<Rightarrow> (nat \<times> nat) set" where
  "used_bytes p = (\<Union>pg \<in> set (pages p). page_bytes pg) \<union> (\<Union>b \<in> set (bigs p). big_bytes b)"

definition region :: "ptr \<Rightarrow> nat \<Rightarrow> (nat \<times> nat) set" where
  "region q len = {fst q} \<times> {unat (snd q)..<unat (snd q) + len}"

definition page_ok :: "u64 \<Rightarrow> page \<Rightarrow> bool" where
  "page_ok sz pg \<longleftrightarrow> page_size pg = sz \<and> unat (busy_size pg) \<le> unat sz \<and> 8 dvd unat (busy_size pg)
    \<and> 8 dvd unat (page_data pg) \<and> unat (page_data pg) \<le> 144"

definition pool_blocks :: "pool \<Rightarrow> nat list" where
  "pool_blocks p = map page_block (pages p) @ map big_block (bigs p)"

definition pool_ok :: "nat \<Rightarrow> pool \<Rightarrow> bool" where
  "pool_ok n p \<longleftrightarrow> pages p \<noteq> [] \<and> pool_arena p = None \<and> page_block (hd (pages p)) = pool_block p
    \<and> distinct (pool_blocks p) \<and> (\<forall>b \<in> set (pool_blocks p). b < n)
    \<and> (\<forall>pg \<in> set (pages p). page_ok (pool_page_size p) pg)
    \<and> 4096 \<le> unat (pool_page_size p) \<and> unat (pool_page_size p) < 2 ^ 62"

lemma pool_okD:
  assumes "pool_ok n p"
  shows "pages p \<noteq> []" "pool_arena p = None" "page_block (hd (pages p)) = pool_block p" "distinct (pool_blocks p)"
    "\<forall>b \<in> set (pool_blocks p). b < n" "\<forall>pg \<in> set (pages p). page_ok (pool_page_size p) pg"
    "4096 \<le> unat (pool_page_size p)" "unat (pool_page_size p) < 2 ^ 62"
  using assms by (simp_all add: pool_ok_def)

lemma pool_ok_more: "pool_ok n p \<Longrightarrow> n \<le> m \<Longrightarrow> pool_ok m p"
  unfolding pool_ok_def by fastforce

text \<open>An answer takes new bytes, aligned, and keeps what was handed out.\<close>

definition served :: "nat \<Rightarrow> pool \<Rightarrow> ptr option \<Rightarrow> nat \<Rightarrow> nat \<Rightarrow> pool \<Rightarrow> bool" where
  "served n p r len n' p' \<longleftrightarrow> n \<le> n' \<and> pool_ok n' p' \<and> pool_page_size p' = pool_page_size p \<and> used_bytes p \<subseteq> used_bytes p'
    \<and> (\<forall>b \<in> set (pool_blocks p'). b \<in> set (pool_blocks p) \<or> n \<le> b)
    \<and> (\<forall>q. r = Some q \<longrightarrow> 8 dvd unat (snd q) \<and> unat (snd q) + len < 2 ^ 64 \<and> region q len \<subseteq> used_bytes p' - used_bytes p)"

lemma served_none: "n \<le> n' \<Longrightarrow> pool_ok n p \<Longrightarrow> served n p None len n' p"
  using pool_ok_more by (simp add: served_def)

lemma used_block: "x \<in> used_bytes p \<Longrightarrow> fst x \<in> set (pool_blocks p)"
  by (auto simp: used_bytes_def page_bytes_def big_bytes_def pool_blocks_def)

lemma fits:
  assumes ok: "page_ok sz pg" "unat sz < 2 ^ 62" and len: "unat len < 2 ^ 63" and f: "busy_size pg + len \<le> page_size pg"
  shows "unat (busy_size pg + len) = unat (busy_size pg) + unat len" "unat (busy_size pg) + unat len \<le> unat sz"
    "unat (page_data pg + busy_size pg) = unat (page_data pg) + unat (busy_size pg)"
proof -
  have b: "unat (busy_size pg) \<le> unat sz" "unat (page_data pg) \<le> 144" "page_size pg = sz" using ok by (simp_all add: page_ok_def)
  show s: "unat (busy_size pg + len) = unat (busy_size pg) + unat len" using b ok(2) len by (simp add: unat_word_ariths)
  show "unat (busy_size pg) + unat len \<le> unat sz" using f b(3) s by (simp add: word_le_nat_alt)
  show "unat (page_data pg + busy_size pg) = unat (page_data pg) + unat (busy_size pg)"
    using b ok(2) by (simp add: unat_word_ariths)
qed

lemma bump_served:
  assumes ok: "pool_ok n p" and len: "unat len < 2 ^ 63" "8 dvd unat len" and f: "busy_size (last (pages p)) + len \<le> page_size (last (pages p))"
    and b: "bump_current len p = (q, p')"
  shows "served n p (Some q) (unat len) n p'"
proof -
  note d = pool_okD[OF ok]
  obtain pre pg where pages: "pages p = pre @ [pg]" using d(1) by (cases "pages p" rule: rev_cases) auto
  have pg: "page_ok (pool_page_size p) pg" using d(6) pages by simp
  note ft = fits[OF pg d(8) len(1)]
  have q: "q = (page_block pg, page_data pg + busy_size pg)" "p' = p\<lparr>pages := pre @ [pg\<lparr>busy_size := busy_size pg + len\<rparr>]\<rparr>"
    using b pages by (auto simp: bump_current_def Let_def)
  have fit: "busy_size pg + len \<le> page_size pg" using f pages by simp
  let ?pg = "pg\<lparr>busy_size := busy_size pg + len\<rparr>"
  have new: "page_bytes ?pg = page_bytes pg \<union> region q (unat len)"
    using ft[OF fit] q(1) by (auto simp: page_bytes_def region_def)
  have u: "used_bytes p' = used_bytes p \<union> region q (unat len)"
    using q(2) pages new by (auto simp: used_bytes_def)
  have "region q (unat len) \<inter> used_bytes p = {}"
  proof -
    have "page_block pg \<notin> page_block ` set pre \<union> big_block ` set (bigs p)"
      using d(4) pages by (auto simp: pool_blocks_def)
    then show ?thesis
      using ft(3)[OF fit] q(1) pages by (auto simp: used_bytes_def region_def page_bytes_def big_bytes_def)
  qed
  moreover have "8 dvd unat (snd q) \<and> unat (snd q) + unat len < 2 ^ 64"
    using ft(2,3)[OF fit] q(1) pg d(8) by (simp add: page_ok_def)
  moreover have blocks: "pool_blocks p' = pool_blocks p" using q(2) pages by (simp add: pool_blocks_def)
  moreover have "pool_ok n p'"
  proof -
    note blocks
    moreover have "page_ok (pool_page_size p) ?pg" using pg ft(1,2)[OF fit] len(2) by (simp add: page_ok_def)
    moreover have "page_block (hd (pages p')) = pool_block p" using d(3) pages q(2) by (cases pre) simp_all
    ultimately show ?thesis using d pages q(2) by (simp add: pool_ok_def)
  qed
  ultimately show ?thesis using u q(2) by (auto simp: served_def)
qed

lemma new_page_served:
  assumes ok: "pool_ok n p" and len: "unat len \<le> unat (pool_page_size p)" "8 dvd unat len"
    and b: "new_page_alloc mem n len p = (r, n', p')"
  shows "served n p r (unat len) n' p'"
proof (cases "mem n")
  case False
  then have "r = None \<and> n' = n + 1 \<and> p' = p"
    using b by (auto simp: new_page_alloc_def add_new_page_def allocate_new_page_def alloc_hook_def)
  then show ?thesis using served_none[OF _ ok] by simp
next
  case True
  note d = pool_okD[OF ok]
  have psz: "page_size (last (pages p)) = pool_page_size p" using d(1,6) by (simp add: page_ok_def)
  let ?pg = "(new_page n (pool_page_size p))\<lparr>busy_size := len\<rparr>"
  have r: "r = Some (n, 24)" "n' = n + 1" "p' = p\<lparr>pages := pages p @ [?pg], page_count := page_count p + 1\<rparr>"
    using b True psz by (auto simp: new_page_alloc_def add_new_page_def allocate_new_page_def alloc_hook_def new_page_def)
  have fresh: "n \<notin> set (pool_blocks p)" using d(5) by auto
  have reg: "region (n, 24) (unat len) = page_bytes ?pg" by (simp add: region_def page_bytes_def new_page_def)
  have u: "used_bytes p' = used_bytes p \<union> region (n, 24) (unat len)" unfolding reg using r(3) by (auto simp: used_bytes_def)
  have "region (n, 24) (unat len) \<inter> used_bytes p = {}"
    using fresh used_block by (force simp: region_def)
  moreover have blocks: "set (pool_blocks p') = insert n (set (pool_blocks p))" using r(3) by (auto simp: pool_blocks_def new_page_def)
  moreover have "pool_ok n' p'"
  proof -
    have "distinct (pool_blocks p')" using d(4) fresh r(3) by (auto simp: pool_blocks_def new_page_def)
    moreover have "\<forall>b \<in> set (pool_blocks p'). b < n'" unfolding blocks using d(5) r(2) by (auto intro: less_SucI)
    moreover have "page_ok (pool_page_size p) ?pg" using len d(8) by (simp add: page_ok_def new_page_def)
    ultimately show ?thesis using d r(3) by (auto simp: pool_ok_def)
  qed
  moreover have "unat len < 2 ^ 62" using len(1) d(8) by simp
  ultimately show ?thesis using u r by (auto simp: served_def)
qed

text \<open>An oversized block is put on the list after its node was allocated.\<close>

lemma oversized_served:
  assumes ok: "pool_ok n p" and node: "served (n + 1) p (Some nd) 24 n' p1"
  shows "served n p (Some (n, 0)) (unat sz) n' (p1\<lparr>bigs := bigs p1 @ [\<lparr>big_block = n, big_size = sz, big_node = None\<rparr>]\<rparr>)"
    (is "served n p (Some ?q) _ n' ?p")
proof -
  have s: "n + 1 \<le> n'" "pool_ok n' p1" "pool_page_size p1 = pool_page_size p" "used_bytes p \<subseteq> used_bytes p1"
    "\<forall>b \<in> set (pool_blocks p1). b \<in> set (pool_blocks p) \<or> n + 1 \<le> b"
    using node by (simp_all add: served_def)
  note d = pool_okD[OF s(2)]
  have old: "\<forall>b \<in> set (pool_blocks p). b < n" by (rule pool_okD(5)[OF ok])
  then have fresh: "n \<notin> set (pool_blocks p1)" using s(5) by fastforce
  have blocks: "set (pool_blocks ?p) = insert n (set (pool_blocks p1))" by (auto simp: pool_blocks_def)
  have reg: "used_bytes ?p = used_bytes p1 \<union> region ?q (unat sz)"
    by (auto simp: used_bytes_def region_def big_bytes_def)
  have "distinct (pool_blocks ?p)" using d(4) fresh by (auto simp: pool_blocks_def)
  moreover have "\<forall>b \<in> set (pool_blocks ?p). b < n'" unfolding blocks using d(5) s(1) by auto
  ultimately have "pool_ok n' ?p" using d by (simp add: pool_ok_def)
  moreover have "region ?q (unat sz) \<inter> used_bytes p = {}"
    using used_block old by (force simp: region_def)
  moreover have "\<forall>b \<in> set (pool_blocks ?p). b \<in> set (pool_blocks p) \<or> n \<le> b"
    unfolding blocks using s(5) by auto
  moreover have "unat sz < 2 ^ 64" using unsigned_less[of sz, where ?'a = nat] by simp
  ultimately show ?thesis using s(1,3,4) reg unfolding served_def by auto
qed

lemma pool_alloc_at_Suc:
  assumes ok: "pool_ok n p" and sz: "unat sz < 2 ^ 62" "sz \<noteq> 0"
  shows "\<exists>r n' p'. pool_alloc_at (Suc (Suc d)) mem n sz p = Some (r, n', p') \<and> served n p r (unat (align_up sz)) n' p'"
proof -
  have al: "unat (align_up sz) = (unat sz + 7) div 8 * 8" "8 dvd unat (align_up sz)"
    using unat_align_up[of sz] sz(1) by simp_all
  have alt: "unat (align_up sz) < 2 ^ 63" unfolding al(1)
    by (rule order_le_less_trans[OF div_times_less_eq_dividend]) (use sz(1) in simp)
  note dp = pool_okD[OF ok]
  let ?pg = "last (pages p)"
  have psz: "page_size ?pg = pool_page_size p" using dp(1,6) by (simp add: page_ok_def)
  show ?thesis
  proof (cases "busy_size ?pg + align_up sz \<le> page_size ?pg")
    case True
    obtain q p' where b: "bump_current (align_up sz) p = (q, p')" by fastforce
    then show ?thesis using bump_served[OF ok alt al(2) True b] True sz(2) dp(2) by (simp add: Let_def)
  next
    case nofit: False
    show ?thesis
    proof (cases "align_up sz > page_size ?pg")
      case False
      obtain r n' p' where b: "new_page_alloc mem n (align_up sz) p = (r, n', p')" by (metis surj_pair)
      have le: "unat (align_up sz) \<le> unat (pool_page_size p)" using False psz by (simp add: word_less_nat_alt)
      show ?thesis using new_page_served[OF ok le al(2) b] b nofit False sz(2) dp(2) by (simp add: Let_def)
    next
      case True
      show ?thesis
      proof (cases "mem n")
        case False
        then have "pool_alloc_at (Suc (Suc d)) mem n sz p = Some (None, n + 1, p)"
          using True nofit sz(2) dp(2) by (simp add: Let_def alloc_hook_def)
        then show ?thesis using served_none[OF _ ok, of "n + 1"] by simp
      next
        case m: True
        have ok1: "pool_ok (n + 1) p" by (rule pool_ok_more[OF ok]) simp
        have a24: "align_up 24 = 24" by (simp add: align_up_def)
        obtain r n' p1 where inner: "pool_alloc_at (Suc d) mem (n + 1) 24 p = Some (r, n', p1)" "served (n + 1) p r 24 n' p1"
        proof (cases "busy_size ?pg + 24 \<le> page_size ?pg")
          case True
          obtain q p' where b: "bump_current 24 p = (q, p')" by fastforce
          have "served (n + 1) p (Some q) (unat (24 :: u64)) (n + 1) p'" by (rule bump_served[OF ok1 _ _ True b]) simp_all
          then show ?thesis using that[of "Some q" "n + 1" p'] b True dp(2) by (simp add: a24 Let_def)
        next
          case no: False
          have "\<not> (24 > page_size ?pg)" using dp(7) psz by (simp add: word_less_nat_alt)
          moreover obtain r n' p' where b: "new_page_alloc mem (n + 1) 24 p = (r, n', p')" by (metis surj_pair)
          moreover have "served (n + 1) p r (unat (24 :: u64)) n' p'"
            by (rule new_page_served[OF ok1 _ _ b]) (use dp(7) in simp_all)
          ultimately show ?thesis using that[of r n' p'] no dp(2) by (simp add: a24 Let_def)
        qed
        show ?thesis
        proof (cases r)
          case None
          then have "pool_alloc_at (Suc (Suc d)) mem n sz p = Some (None, n', p1)"
            unfolding pool_alloc_at.simps(2)[of "Suc d"] using True nofit sz(2) dp(2) m inner(1)
            by (simp add: Let_def alloc_hook_def del: pool_alloc_at.simps)
          moreover have "served n p None (unat (align_up sz)) n' p1"
            using inner(2) None by (auto simp: served_def)
          ultimately show ?thesis by blast
        next
          case (Some nd)
          then have "pool_alloc_at (Suc (Suc d)) mem n sz p =
              Some (Some (n, 0), n', p1\<lparr>bigs := bigs p1 @ [\<lparr>big_block = n, big_size = align_up sz, big_node = None\<rparr>]\<rparr>)"
            unfolding pool_alloc_at.simps(2)[of "Suc d"] using True nofit sz(2) dp(2) m inner(1)
            by (simp add: Let_def alloc_hook_def del: pool_alloc_at.simps)
          then show ?thesis using oversized_served[OF ok, of nd n' p1 "align_up sz"] inner(2) Some by simp
        qed
      qed
    qed
  qed
qed

lemma served_less:
  assumes s: "served n p r len n' p'" and l: "len' \<le> len"
  shows "served n p r len' n' p'"
proof -
  have sub: "region q len' \<subseteq> region q len" for q using l by (auto simp: region_def)
  have q: "8 dvd unat (snd q)" "unat (snd q) + len < 2 ^ 64" "region q len \<subseteq> used_bytes p' - used_bytes p" if "r = Some q" for q
    using s that by (simp_all add: served_def)
  have "8 dvd unat (snd q) \<and> unat (snd q) + len' < 2 ^ 64 \<and> region q len' \<subseteq> used_bytes p' - used_bytes p"
    if "r = Some q" for q
    by (intro conjI q(1)[OF that] order.trans[OF sub q(3)[OF that]]) (use q(2)[OF that] l in linarith)
  then show ?thesis using s by (simp add: served_def)
qed

lemma pool_alloc_served:
  assumes ok: "pool_ok n p" and sz: "unat sz < 2 ^ 62" and r: "leptris_pool_alloc mem n sz p = (r, n', p')"
  shows "served n p r (unat sz) n' p'"
proof (cases "sz = 0")
  case True
  then have "leptris_pool_alloc mem n sz p = (None, n, p)" by (simp add: leptris_pool_alloc_def numeral_2_eq_2)
  then show ?thesis using r served_none[OF order.refl ok] by simp
next
  case False
  obtain r1 n1 p1 where a: "pool_alloc_at (Suc (Suc 0)) mem n sz p = Some (r1, n1, p1)" "served n p r1 (unat (align_up sz)) n1 p1"
    using pool_alloc_at_Suc[OF ok sz False, of 0 mem] by blast
  have "leptris_pool_alloc mem n sz p = (r1, n1, p1)"
    using a(1) by (simp add: leptris_pool_alloc_def numeral_2_eq_2 del: pool_alloc_at.simps)
  then have s: "served n p r (unat (align_up sz)) n' p'" using a(2) r by simp
  have "unat sz \<le> unat (align_up sz)" using unat_align_up[of sz] sz by simp
  from served_less[OF s this] show ?thesis .
qed

text \<open>
  Requests as sequences: a block, a batch, or a structure with content, whose answer is the one region
  of the page or the two regions of the split.
\<close>

datatype pool_request = Bytes u64 | Batch u64 u64 | Struct_content u64 u64

primrec pool_request_ok :: "pool_request \<Rightarrow> bool" where
  "pool_request_ok (Bytes sz) \<longleftrightarrow> unat sz < 2 ^ 62"
| "pool_request_ok (Batch item_size items) \<longleftrightarrow> unat (align_up item_size) * unat items < 2 ^ 62 \<and> unat item_size < 2 ^ 62"
| "pool_request_ok (Struct_content struct_size content_size) \<longleftrightarrow> unat struct_size < 2 ^ 60 \<and> unat content_size < 2 ^ 60"

primrec pool_serve :: "mem \<Rightarrow> nat \<Rightarrow> pool_request \<Rightarrow> pool \<Rightarrow> (nat \<times> nat) set list \<times> nat \<times> pool" where
  "pool_serve mem n (Bytes sz) p =
    (case leptris_pool_alloc mem n sz p of
       (r, n, p) \<Rightarrow> (case r of None \<Rightarrow> [] | Some q \<Rightarrow> [region q (unat sz)], n, p))"
| "pool_serve mem n (Batch item_size items) p =
    (case leptris_pool_alloc_batch mem n item_size items p of
       (r, n, p) \<Rightarrow> (case r of None \<Rightarrow> [] | Some q \<Rightarrow> [region q (unat item_size * unat items)], n, p))"
| "pool_serve mem n (Struct_content struct_size content_size) p =
    (case leptris_pool_alloc_node_with_content mem n struct_size content_size p of
       (r, n, p) \<Rightarrow> (case r of None \<Rightarrow> [] | Some (s, c) \<Rightarrow> [region s (unat struct_size), region c (unat content_size + 1)], n, p))"

text \<open>All regions of an answer are new, and no two of them overlap.\<close>

definition answered :: "nat \<Rightarrow> pool \<Rightarrow> (nat \<times> nat) set list \<Rightarrow> nat \<Rightarrow> pool \<Rightarrow> bool" where
  "answered n p rs n' p' \<longleftrightarrow> n \<le> n' \<and> pool_ok n' p' \<and> used_bytes p \<subseteq> used_bytes p'
    \<and> (\<forall>r \<in> set rs. r \<subseteq> used_bytes p' - used_bytes p) \<and> sorted_wrt (\<lambda>a b. a \<inter> b = {}) rs"

lemma answered_one: "served n p r len n' p' \<Longrightarrow> answered n p (case r of None \<Rightarrow> [] | Some q \<Rightarrow> [region q len]) n' p'"
  by (cases r) (auto simp: served_def answered_def)

lemma answered_trans: "answered n p rs n1 p1 \<Longrightarrow> answered n1 p1 ss n2 p2 \<Longrightarrow> answered n p (rs @ ss) n2 p2"
  unfolding answered_def sorted_wrt_append by (auto, blast+)

lemma answered_two:
  assumes s: "served n p (Some q) len n' p'" and sub: "a \<subseteq> region q len" "b \<subseteq> region q len" and dis: "a \<inter> b = {}"
  shows "answered n p [a, b] n' p'"
proof -
  have r: "region q len \<subseteq> used_bytes p' - used_bytes p" using s by (simp add: served_def)
  have "\<forall>x \<in> set [a, b]. x \<subseteq> used_bytes p' - used_bytes p"
    using order.trans[OF sub(1) r] order.trans[OF sub(2) r] by simp
  then show ?thesis using s dis by (simp add: answered_def served_def)
qed

lemma answered_shrink:
  assumes "answered n p [a, b] n' p'" "a' \<subseteq> a"
  shows "answered n p [a', b] n' p'"
proof -
  have a: "a \<subseteq> used_bytes p' - used_bytes p" "a \<inter> b = {}" using assms(1) by (simp_all add: answered_def)
  have "a' \<subseteq> used_bytes p' - used_bytes p" "a' \<inter> b = {}"
    using order.trans[OF assms(2) a(1)] assms(2) a(2) by blast+
  then show ?thesis using assms(1) by (simp add: answered_def)
qed

lemma batch_answered:
  assumes ok: "pool_ok n p" and q: "pool_request_ok (Batch item_size items)"
    and r: "leptris_pool_alloc_batch mem n item_size items p = (r, n', p')"
  shows "served n p r (unat item_size * unat items) n' p'"
proof (cases "item_size = 0 \<or> items = 0")
  case True
  then have "leptris_pool_alloc_batch mem n item_size items p = (None, n, p)" by (auto simp: leptris_pool_alloc_batch_def)
  then show ?thesis using r served_none[OF order.refl ok] by simp
next
  case False
  let ?t = "align_up item_size * items"
  have q1: "unat (align_up item_size) * unat items < 2 ^ 62" "unat item_size < 2 ^ 62" using q by simp_all
  have al: "8 dvd unat (align_up item_size)" "unat item_size \<le> unat (align_up item_size)"
    using unat_align_up[of item_size] q1(2) by simp_all
  have t: "unat ?t = unat (align_up item_size) * unat items" using q1(1) by (simp add: unat_word_ariths)
  have t8: "8 dvd unat ?t" unfolding t using al(1) by simp
  have le: "unat item_size * unat items \<le> unat ?t" unfolding t using al(2) by simp
  note d = pool_okD[OF ok]
  let ?pg = "last (pages p)"
  have psz: "page_size ?pg = pool_page_size p" using d(1,6) by (simp add: page_ok_def)
  have "served n p r (unat ?t) n' p'"
  proof (cases "busy_size ?pg + ?t \<le> page_size ?pg")
    case True
    obtain q1 p1 where b: "bump_current ?t p = (q1, p1)" by fastforce
    have "served n p (Some q1) (unat ?t) n p1" by (rule bump_served[OF ok _ t8 True b]) (use t q1 in simp)
    then show ?thesis using r False True b d(2) by (auto simp: leptris_pool_alloc_batch_def Let_def)
  next
    case nofit: False
    show ?thesis
    proof (cases "?t > page_size ?pg")
      case big: True
      have o: "pool_alloc_oversized mem n ?t p = (r, n', p')"
        using r False nofit big d(2) by (auto simp: leptris_pool_alloc_batch_def Let_def)
      show ?thesis
      proof (cases "mem n")
        case False
        then have "r = None" "n' = n + 1" "p' = p" using o by (auto simp: pool_alloc_oversized_def alloc_hook_def)
        then show ?thesis using served_none[OF _ ok] by simp
      next
        case True
        obtain nd n1 p1 where a: "leptris_pool_alloc mem (n + 1) 24 p = (nd, n1, p1)" by (metis surj_pair)
        have s: "served (n + 1) p nd 24 n1 p1"
          using pool_alloc_served[OF pool_ok_more[OF ok] _ a] by simp
        show ?thesis
        proof (cases nd)
          case None
          then have "r = None" "n' = n1" "p' = p1" using o a True by (auto simp: pool_alloc_oversized_def alloc_hook_def)
          then show ?thesis using s None by (auto simp: served_def)
        next
          case (Some x)
          then have "r = Some (n, 0)" "n' = n1" "p' = p1\<lparr>bigs := bigs p1 @ [\<lparr>big_block = n, big_size = ?t, big_node = None\<rparr>]\<rparr>"
            using o a True by (auto simp: pool_alloc_oversized_def alloc_hook_def)
          then show ?thesis using oversized_served[OF ok, of x n1 p1 ?t] s Some by simp
        qed
      qed
    next
      case small: False
      have "unat ?t \<le> unat (pool_page_size p)" using small psz by (simp add: word_less_nat_alt)
      from new_page_served[OF ok this t8] show ?thesis
        using r False nofit small d(2) by (auto simp: leptris_pool_alloc_batch_def Let_def)
    qed
  qed
  from served_less[OF this le] show ?thesis .
qed

lemma two_allocs_answered:
  assumes ok: "pool_ok n p" and sz: "unat struct_size < 2 ^ 62" "unat content_size < 2 ^ 60"
    and r: "two_allocs mem n struct_size content_size p = (r, n', p')"
  shows "answered n p (case r of None \<Rightarrow> [] | Some (s, c) \<Rightarrow> [region s (unat struct_size), region c (unat content_size + 1)]) n' p'"
proof -
  obtain r1 n1 p1 where a: "leptris_pool_alloc mem n struct_size p = (r1, n1, p1)" by (metis surj_pair)
  have s1: "served n p r1 (unat struct_size) n1 p1" by (rule pool_alloc_served[OF ok sz(1) a])
  then have ok1: "pool_ok n1 p1" by (simp add: served_def)
  have c1: "unat (content_size + 1) = unat content_size + 1" using sz(2) by (simp add: unat_word_ariths)
  show ?thesis
  proof (cases r1)
    case None
    then have "r = None" "n' = n1" "p' = p1" using r a by (auto simp: two_allocs_def)
    then show ?thesis using answered_one[OF s1] None by simp
  next
    case (Some x)
    obtain r2 n2 p2 where b: "leptris_pool_alloc mem n1 (content_size + 1) p1 = (r2, n2, p2)" by (metis surj_pair)
    have s2: "served n1 p1 r2 (unat content_size + 1) n2 p2"
      using pool_alloc_served[OF ok1 _ b] sz(2) c1 by simp
    have ans: "answered n p ((case r1 of None \<Rightarrow> [] | Some q \<Rightarrow> [region q (unat struct_size)])
        @ (case r2 of None \<Rightarrow> [] | Some q \<Rightarrow> [region q (unat content_size + 1)])) n2 p2"
      by (rule answered_trans[OF answered_one[OF s1] answered_one[OF s2]])
    have n2: "n' = n2" "p' = p2" "r = (case r2 of None \<Rightarrow> None | Some y \<Rightarrow> Some (x, y))"
      using r a b Some by (auto simp: two_allocs_def split: option.splits)
    show ?thesis
    proof (cases r2)
      case None
      then show ?thesis using ans n2 by (auto simp: answered_def)
    next
      case (Some y)
      then show ?thesis using ans n2 \<open>r1 = Some x\<close> by simp
    qed
  qed
qed

lemma node_answered:
  assumes ok: "pool_ok n p" and sz: "unat struct_size < 2 ^ 60" "unat content_size < 2 ^ 60"
    and r: "leptris_pool_alloc_node_with_content mem n struct_size content_size p = (r, n', p')"
  shows "answered n p (case r of None \<Rightarrow> [] | Some (s, c) \<Rightarrow> [region s (unat struct_size), region c (unat content_size + 1)]) n' p'"
proof (cases "struct_size = 0")
  case True
  then have "leptris_pool_alloc_node_with_content mem n struct_size content_size p = (None, n, p)"
    by (simp add: leptris_pool_alloc_node_with_content_def)
  then show ?thesis using r ok by (simp add: answered_def)
next
  case False
  let ?a = "align_up struct_size" and ?t = "align_up struct_size + align_up (content_size + 1)"
  have c1: "unat (content_size + 1) = unat content_size + 1" using sz(2) by (simp add: unat_word_ariths)
  have al: "unat ?a = (unat struct_size + 7) div 8 * 8" "unat struct_size \<le> unat ?a" "8 dvd unat ?a"
    using unat_align_up[of struct_size] sz(1) by simp_all
  have al2: "unat (align_up (content_size + 1)) = (unat content_size + 8) div 8 * 8" "unat content_size + 1 \<le> unat (align_up (content_size + 1))"
    using unat_align_up[of "content_size + 1"] sz(2) c1 by (simp_all add: add.commute)
  have lt: "unat ?a < 2 ^ 61" unfolding al(1) by (rule order_le_less_trans[OF div_times_less_eq_dividend]) (use sz(1) in simp)
  have lt2: "unat (align_up (content_size + 1)) < 2 ^ 61"
    unfolding al2(1) by (rule order_le_less_trans[OF div_times_less_eq_dividend]) (use sz(2) in simp)
  have t: "unat ?t = unat ?a + unat (align_up (content_size + 1))" using lt lt2 by (simp add: unat_word_ariths)
  note d = pool_okD[OF ok]
  show ?thesis
  proof (cases "?t \<le> pool_page_size p")
    case True
    obtain q n1 p1 where a: "leptris_pool_alloc mem n ?t p = (q, n1, p1)" by (metis surj_pair)
    have s: "served n p q (unat ?t) n1 p1" by (rule pool_alloc_served[OF ok _ a]) (use t lt lt2 in simp)
    have r': "n' = n1" "p' = p1" "r = map_option (\<lambda>q. (q, (fst q, snd q + ?a))) q"
      using r a True False d(2) by (auto simp: leptris_pool_alloc_node_with_content_def Let_def split: option.splits)
    show ?thesis
    proof (cases q)
      case None
      then show ?thesis using answered_one[OF s] r' by simp
    next
      case (Some x)
      have x: "unat (snd x) + unat ?t < 2 ^ 64" "region x (unat ?t) \<subseteq> used_bytes p1 - used_bytes p"
        using s Some by (auto simp: served_def)
      let ?c = "(fst x, snd x + ?a)"
      have cu: "unat (snd x + ?a) = unat (snd x) + unat ?a" using x(1) t by (simp add: unat_word_ariths)
      have "region x (unat struct_size) \<subseteq> region x (unat ?t)" "region ?c (unat content_size + 1) \<subseteq> region x (unat ?t)"
        "region x (unat struct_size) \<inter> region ?c (unat content_size + 1) = {}"
        using al(2) al2(2) cu t by (auto simp: region_def)
      from answered_two[OF s[unfolded Some] this] show ?thesis using r' Some by simp
    qed
  next
    case f: False
    have "two_allocs mem n ?a content_size p = (r, n', p')"
      using r f False d(2) by (simp add: leptris_pool_alloc_node_with_content_def Let_def)
    from two_allocs_answered[OF ok _ sz(2) this] lt
    have "answered n p (case r of None \<Rightarrow> [] | Some (s, c) \<Rightarrow> [region s (unat ?a), region c (unat content_size + 1)]) n' p'" by simp
    then have ans: "answered n p [region s (unat ?a), region c (unat content_size + 1)] n' p'" if "r = Some (s, c)" for s c
      using that by simp
    have sub: "region s (unat struct_size) \<subseteq> region s (unat ?a)" for s using al(2) by (auto simp: region_def)
    show ?thesis
    proof (cases r)
      case None
      then show ?thesis using \<open>answered n p _ n' p'\<close> by simp
    next
      case (Some x)
      then show ?thesis using answered_shrink[OF ans sub] by (cases x) simp
    qed
  qed
qed

text \<open>A pool as it is created with pages of 4096 bytes, for the concrete instances.\<close>

definition small_pool :: pool where
  "small_pool = \<lparr>pages = [\<lparr>page_block = 0, page_data = 144, page_size = 4096, busy_size = 0\<rparr>], page_count = 1,
     pool_page_size = 4096, pool_block = 0, has_hooks = False, bigs = [], pool_arena = None, arena_owned = False,
     pool_struct_in_arena = False, arena_head_reserved = 0\<rparr>"

lemma small_pool_created:
  "leptris_pool_create_with_page_size True (\<lambda>_. True) 0 4096 rc = (Some small_pool, 1, rc)"
  by (simp add: leptris_pool_create_with_page_size_def LEPTRIS_POOL_PAGE_SIZE_MIN_def alloc_hook_def align_up_def small_pool_def Let_def)

lemma small_pool_ok: "pool_ok 1 small_pool"
  by (simp add: pool_ok_def small_pool_def pool_blocks_def page_ok_def)

section \<open>The recycler\<close>

text \<open>The count is right and never above the limit, which stays at 64 or less.\<close>

definition recycle_ok :: "recycle_list \<Rightarrow> bool" where
  "recycle_ok rl \<longleftrightarrow> rl_n rl = length (parked_blocks rl) \<and> rl_n rl \<le> rl_limit rl \<and> rl_limit rl \<le> 64"

abbreviation parked_ids :: "recycle_list \<Rightarrow> nat list" where
  "parked_ids rl \<equiv> map fst (parked_blocks rl)"

lemma pop_facts:
  assumes ok: "recycle_ok rl" and r: "pool_recycle_pop rl sz = (b, rl')"
  shows "recycle_ok rl' \<and> mset (parked_ids rl) = (case b of Some b \<Rightarrow> {#b#} | None \<Rightarrow> {#}) + mset (parked_ids rl')"
proof (cases "find (\<lambda>b. snd b = sz) (parked_blocks rl)")
  case None
  then show ?thesis using ok r by (auto simp: pool_recycle_pop_def recycle_ok_def split: if_splits)
next
  case (Some x)
  then have "x \<in> set (parked_blocks rl)" by (auto simp: find_Some_iff)
  then have m: "mset (parked_blocks rl) = add_mset x (mset (remove1 x (parked_blocks rl)))"
    and l: "length (remove1 x (parked_blocks rl)) = length (parked_blocks rl) - 1"
    by (simp_all add: length_remove1)
  have b: "b = Some (fst x)" "rl' = rl\<lparr>parked_blocks := remove1 x (parked_blocks rl), rl_n := rl_n rl - 1, rl_idle := 0\<rparr>"
    using r Some by (simp_all add: pool_recycle_pop_def)
  have "mset (parked_ids rl) = {#fst x#} + mset (parked_ids rl')"
    using arg_cong[OF m, of "image_mset fst"] unfolding b(2) by simp
  then show ?thesis using ok l b by (auto simp: recycle_ok_def)
qed

definition ids :: "nat option \<Rightarrow> nat list" where
  "ids x = (case x of Some b \<Rightarrow> [b] | None \<Rightarrow> [])"

lemma park_facts:
  assumes ok: "recycle_ok rl" and r: "pool_recycle_park rl b sz = (parked, trimmed, rl')"
  shows "recycle_ok rl' \<and>
    mset (ids trimmed @ (if parked then [] else [b])) + mset (parked_ids rl') = add_mset b (mset (parked_ids rl))"
proof (cases "rl_n rl < rl_limit rl")
  case True
  then show ?thesis using ok r by (auto simp: pool_recycle_park_def recycle_ok_def ids_def)
next
  case full: False
  show ?thesis
  proof (cases "rl_idle rl \<ge> rl_limit rl \<and> rl_limit rl > 2")
    case True
    have n: "rl_n rl = rl_limit rl" "length (parked_blocks rl) = rl_n rl" using full ok by (simp_all add: recycle_ok_def)
    then have ne: "parked_blocks rl \<noteq> []" using True by auto
    then obtain ys y where y: "parked_blocks rl = ys @ [y]" by (cases "parked_blocks rl" rule: rev_cases) auto
    have "(parked, trimmed, rl') = (False, Some (fst y),
        rl\<lparr>rl_limit := rl_limit rl - 1, parked_blocks := ys, rl_n := rl_n rl - 1, rl_idle := rl_idle rl + 1\<rparr>)"
      using r full True n y by (simp add: pool_recycle_park_def Let_def)
    then show ?thesis using ok y n by (auto simp: recycle_ok_def ids_def)
  next
    case False
    then have "(parked, trimmed, rl') = (False, None, rl\<lparr>rl_idle := rl_idle rl + 1\<rparr>)"
      using r full by (auto simp: pool_recycle_park_def)
    then show ?thesis using ok by (auto simp: recycle_ok_def ids_def)
  qed
qed

lemma destroy_pages_facts:
  "recycle_ok rl \<Longrightarrow> destroy_pages can_recycle pgs rl = (freed, rl') \<Longrightarrow>
    recycle_ok rl' \<and> mset freed + mset (parked_ids rl') = mset (map page_block pgs) + mset (parked_ids rl)"
proof (induction pgs arbitrary: rl freed rl')
  case (Cons pg pgs)
  show ?case
  proof (cases can_recycle)
    case False
    obtain f r where "destroy_pages can_recycle pgs rl = (f, r)" by fastforce
    then show ?thesis using Cons False by auto
  next
    case True
    obtain pk tr rl1 where p: "pool_recycle_park rl (page_block pg) (32 - 1 + page_size pg) = (pk, tr, rl1)"
      by (metis surj_pair)
    note f = park_facts[OF Cons.prems(1) p]
    obtain f1 r1 where d: "destroy_pages can_recycle pgs rl1 = (f1, r1)" by fastforce
    note ih = Cons.IH[OF f[THEN conjunct1] d]
    have r: "freed = (ids tr @ (if pk then [] else [page_block pg])) @ f1" "rl' = r1"
      using Cons.prems(2) True p d by (auto simp: ids_def split: option.splits)
    have "mset freed + mset (parked_ids rl') = mset (ids tr @ (if pk then [] else [page_block pg])) + (mset f1 + mset (parked_ids r1))"
      unfolding r by (simp add: add.assoc)
    also have "\<dots> = mset (ids tr @ (if pk then [] else [page_block pg])) + mset (parked_ids rl1) + mset (map page_block pgs)"
      using ih by (simp add: ac_simps)
    also have "\<dots> = mset (map page_block (pg # pgs)) + mset (parked_ids rl)"
      using f by (simp add: ac_simps)
    finally show ?thesis using ih r(2) by simp
  qed
qed auto

definition recycler_ok :: "nat \<Rightarrow> recycler \<Rightarrow> bool" where
  "recycler_ok n rc \<longleftrightarrow> recycle_ok (t_pools rc) \<and> recycle_ok (t_pages rc)
    \<and> distinct (parked_ids (t_pools rc) @ parked_ids (t_pages rc))
    \<and> (\<forall>b \<in> set (parked_ids (t_pools rc) @ parked_ids (t_pages rc)). b < n)"



section \<open>Creation and sequences of requests\<close>

lemma taken_block:
  assumes ok: "recycler_ok n rc" and m: "mset (parked_ids (t_pools rc) @ parked_ids (t_pages rc)) = add_mset b (mset rest)"
  shows "b < n \<and> b \<notin> set rest \<and> distinct rest \<and> (\<forall>x \<in> set rest. x < n)"
proof -
  let ?all = "parked_ids (t_pools rc) @ parked_ids (t_pages rc)"
  have m': "mset ?all = mset (b # rest)" using m by simp
  have "distinct ?all" by (rule ok[unfolded recycler_ok_def, THEN conjunct2, THEN conjunct2, THEN conjunct1])
  moreover have "\<forall>x \<in> set ?all. x < n" by (rule ok[unfolded recycler_ok_def, THEN conjunct2, THEN conjunct2, THEN conjunct2])
  ultimately have "distinct (b # rest)" "\<forall>x \<in> set (b # rest). x < n"
    unfolding mset_eq_imp_distinct_iff[OF m'] mset_eq_setD[OF m'] by blast+
  then show ?thesis by simp
qed

text \<open>The first block of a pool: parked or new, and not among the parked ones any more.\<close>

lemma first_block:
  assumes ok: "recycler_ok n rc"
    and pop: "(if c then pool_recycle_pop (t_pools rc) sz else (None, t_pools rc)) = (popped, rl)"
    and b: "(case popped of Some b \<Rightarrow> (Some b, n) | None \<Rightarrow> alloc_hook mem n) = (Some block, n1)"
  shows "recycler_ok n1 (rc\<lparr>t_pools := rl\<rparr>) \<and> n \<le> n1 \<and> block < n1
    \<and> block \<notin> set (parked_ids rl @ parked_ids (t_pages rc))"
proof -
  have rl: "recycle_ok rl \<and> mset (parked_ids (t_pools rc)) = (case popped of Some b \<Rightarrow> {#b#} | None \<Rightarrow> {#}) + mset (parked_ids rl)"
    using pop pop_facts[of "t_pools rc" sz popped rl] ok by (cases c) (auto simp: recycler_ok_def)
  show ?thesis
  proof (cases popped)
    case (Some x)
    then have x: "block = x" "n1 = n" using b by simp_all
    have "mset (parked_ids (t_pools rc) @ parked_ids (t_pages rc)) = add_mset x (mset (parked_ids rl @ parked_ids (t_pages rc)))"
      using rl Some by simp
    from taken_block[OF ok this] show ?thesis using x ok rl by (simp add: recycler_ok_def)
  next
    case None
    then have x: "block = n" "n1 = n + 1" using b by (auto simp: alloc_hook_def split: if_splits)
    have "set (parked_ids rl) = set (parked_ids (t_pools rc))" "distinct (parked_ids rl) = distinct (parked_ids (t_pools rc))"
      using rl None mset_eq_setD[of "parked_ids (t_pools rc)" "parked_ids rl"]
        mset_eq_imp_distinct_iff[of "parked_ids (t_pools rc)" "parked_ids rl"] by simp_all
    then show ?thesis using x ok rl unfolding recycler_ok_def by (auto intro: less_SucI)
  qed
qed

lemma second_block:
  assumes ok: "recycler_ok n rc" and s: "second_page active mem n sz rc = (pg, n1, rc1)"
  shows "n \<le> n1 \<and> recycler_ok n1 rc1 \<and> t_pools rc1 = t_pools rc \<and>
    (\<forall>x. pg = Some x \<longrightarrow> (\<exists>b. x = new_page b sz \<and> b < n1 \<and> (b \<in> set (parked_ids (t_pages rc)) \<or> n \<le> b)))"
proof -
  obtain b rl where p: "(if active then pool_recycle_pop (t_pages rc) (32 - 1 + sz) else (None, t_pages rc)) = (b, rl)" by fastforce
  have rl: "recycle_ok rl \<and> mset (parked_ids (t_pages rc)) = (case b of Some b \<Rightarrow> {#b#} | None \<Rightarrow> {#}) + mset (parked_ids rl)"
    using p pop_facts[of "t_pages rc" _ b rl] ok by (cases active) (auto simp: recycler_ok_def)
  show ?thesis
  proof (cases b)
    case (Some x)
    then have r: "pg = Some (new_page x sz)" "n1 = n" "rc1 = rc\<lparr>t_pages := rl\<rparr>"
      using s p by (auto simp: second_page_def)
    have "mset (parked_ids (t_pools rc) @ parked_ids (t_pages rc)) = add_mset x (mset (parked_ids (t_pools rc) @ parked_ids rl))"
      using rl Some by simp
    note t = taken_block[OF ok this]
    have "x \<in> set (parked_ids (t_pages rc))"
      using rl Some mset_eq_setD[of "parked_ids (t_pages rc)" "x # parked_ids rl"] by auto
    moreover have "recycler_ok n rc1" using t r(3) ok rl by (simp add: recycler_ok_def)
    ultimately show ?thesis using t r by auto
  next
    case None
    have eq: "set (parked_ids rl) = set (parked_ids (t_pages rc))" "distinct (parked_ids rl) = distinct (parked_ids (t_pages rc))"
      using rl None mset_eq_setD[of "parked_ids (t_pages rc)" "parked_ids rl"]
        mset_eq_imp_distinct_iff[of "parked_ids (t_pages rc)" "parked_ids rl"] by simp_all
    have r: "rc1 = rc\<lparr>t_pages := rl\<rparr>" "n1 = n + 1" "pg = (if mem n then Some (new_page n sz) else None)"
      using s p None by (auto simp: second_page_def allocate_new_page_def alloc_hook_def)
    have "recycler_ok n1 rc1" using ok rl eq unfolding r(1,2) recycler_ok_def by (auto intro: less_SucI)
    then show ?thesis using r by auto
  qed
qed

lemma created_pool_ok:
  assumes ok: "recycler_ok n rc" and sz: "unat sz < 2 ^ 61"
    and c: "leptris_pool_create_with_page_size custom mem n sz rc = (Some p, n', rc')"
  shows "pool_ok n' p \<and> recycler_ok n' rc' \<and> used_bytes p = {}"
proof -
  let ?m = "if sz < LEPTRIS_POOL_PAGE_SIZE_MIN then LEPTRIS_POOL_PAGE_SIZE_MIN else sz"
  let ?sz = "align_up ?m"
  have m: "4096 \<le> unat ?m" "unat ?m < 2 ^ 61" using sz by (auto simp: LEPTRIS_POOL_PAGE_SIZE_MIN_def word_less_nat_alt)
  have al: "unat ?sz = (unat ?m + 7) div 8 * 8" "unat ?m \<le> unat ?sz" using unat_align_up[of ?m] m(2) by simp_all
  have lt: "unat ?sz < 2 ^ 62" unfolding al(1)
    by (rule order_le_less_trans[OF div_times_less_eq_dividend]) (use m(2) in simp)
  have ge: "4096 \<le> unat ?sz" using m(1) al(2) by linarith
  obtain popped rl where pop: "(if \<not> custom then pool_recycle_pop (t_pools rc) (pool_inline_block_size ?sz) else (None, t_pools rc)) = (popped, rl)"
    by fastforce
  obtain ob n1 where b: "(case popped of Some b \<Rightarrow> (Some b, n) | None \<Rightarrow> alloc_hook mem n) = (ob, n1)" by fastforce
  obtain block where ob: "ob = Some block" using c pop b by (cases ob) (auto simp: leptris_pool_create_with_page_size_def Let_def)
  note f = first_block[OF ok pop b[unfolded ob]]
  let ?pg = "\<lparr>page_block = block, page_data = 120 + 24, page_size = ?sz, busy_size = 0\<rparr>"
  let ?p = "\<lparr>pages = [?pg], page_count = 1, pool_page_size = ?sz, pool_block = block, has_hooks = False, bigs = [],
      pool_arena = None, arena_owned = False, pool_struct_in_arena = False, arena_head_reserved = 0\<rparr>"
  let ?rc = "rc\<lparr>t_pools := rl\<rparr>"
  have pg: "page_ok ?sz ?pg" by (simp add: page_ok_def)
  have one: "pool_ok m ?p \<and> used_bytes ?p = {}" if "block < m" for m
    using that pg lt ge by (simp add: pool_ok_def pool_blocks_def used_bytes_def page_bytes_def)
  show ?thesis
  proof (cases "?sz \<ge> 8192")
    case False
    then have "p = ?p" "n' = n1" "rc' = ?rc"
      using c pop b ob by (auto simp: leptris_pool_create_with_page_size_def Let_def)
    then show ?thesis using one f by blast
  next
    case True
    obtain pg2 n2 rc2 where s: "second_page (\<not> custom) mem n1 ?sz ?rc = (pg2, n2, rc2)" by (metis surj_pair)
    note g = second_block[OF f[THEN conjunct1] s]
    show ?thesis
    proof (cases pg2)
      case None
      then have "p = ?p" "n' = n2" "rc' = rc2"
        using c pop b ob s True by (auto simp: leptris_pool_create_with_page_size_def Let_def)
      then show ?thesis using one[of n2] f g by (meson order_less_le_trans)
    next
      case (Some x)
      then have r: "p = ?p\<lparr>pages := [?pg, x], page_count := 2\<rparr>" "n' = n2" "rc' = rc2"
        using c pop b ob s True by (auto simp: leptris_pool_create_with_page_size_def Let_def)
      obtain b2 where b2: "x = new_page b2 ?sz" "b2 < n2" "b2 \<in> set (parked_ids (t_pages ?rc)) \<or> n1 \<le> b2" using g Some by blast
      have ne: "block \<noteq> b2" using b2(3) f by auto
      have "page_ok ?sz x" using b2(1) by (simp add: page_ok_def new_page_def)
      then have "pool_ok n2 p" using r(1) pg lt ge b2 ne f g by (simp add: pool_ok_def pool_blocks_def new_page_def)
      moreover have "used_bytes p = {}" using r(1) b2(1) by (simp add: used_bytes_def page_bytes_def new_page_def)
      ultimately show ?thesis using r(2,3) g by blast
    qed
  qed
qed

primrec pool_serve_all :: "mem \<Rightarrow> nat \<Rightarrow> pool_request list \<Rightarrow> pool \<Rightarrow> (nat \<times> nat) set list \<times> nat \<times> pool" where
  "pool_serve_all mem n [] p = ([], n, p)"
| "pool_serve_all mem n (q # qs) p =
    (case pool_serve mem n q p of (rs, n, p) \<Rightarrow> (case pool_serve_all mem n qs p of (ss, n, p) \<Rightarrow> (rs @ ss, n, p)))"

lemma serve_answered:
  assumes ok: "pool_ok n p" and q: "pool_request_ok q" and r: "pool_serve mem n q p = (rs, n', p')"
  shows "answered n p rs n' p'"
proof (cases q)
  case (Bytes sz)
  obtain a n1 p1 where a: "leptris_pool_alloc mem n sz p = (a, n1, p1)" by (metis surj_pair)
  show ?thesis using answered_one[OF pool_alloc_served[OF ok _ a]] r a q Bytes by simp
next
  case (Batch item_size items)
  obtain a n1 p1 where a: "leptris_pool_alloc_batch mem n item_size items p = (a, n1, p1)" by (metis surj_pair)
  show ?thesis using answered_one[OF batch_answered[OF ok q[unfolded Batch] a]] r a Batch by simp
next
  case (Struct_content st ct)
  obtain a n1 p1 where a: "leptris_pool_alloc_node_with_content mem n st ct p = (a, n1, p1)" by (metis surj_pair)
  show ?thesis using node_answered[OF ok _ _ a] r a q Struct_content by simp
qed

lemma serve_all_answered:
  "pool_ok n p \<Longrightarrow> \<forall>q \<in> set qs. pool_request_ok q \<Longrightarrow> pool_serve_all mem n qs p = (rs, n', p') \<Longrightarrow> answered n p rs n' p'"
proof (induction qs arbitrary: n p rs)
  case Nil
  then show ?case by (simp add: answered_def)
next
  case (Cons q qs)
  obtain r1 n1 p1 where a: "pool_serve mem n q p = (r1, n1, p1)" by (metis surj_pair)
  obtain r2 n2 p2 where b: "pool_serve_all mem n1 qs p1 = (r2, n2, p2)" by (metis surj_pair)
  have s: "answered n p r1 n1 p1" using serve_answered[OF Cons.prems(1) _ a] Cons.prems(2) by simp
  then have "pool_ok n1 p1" by (simp add: answered_def)
  from Cons.IH[OF this _] b Cons.prems a have "answered n1 p1 r2 n' p'" "rs = r1 @ r2" by simp_all
  then show ?case using answered_trans[OF s] by simp
qed



section \<open>Where the pool falls short\<close>

text \<open>
  The containment test misses the end of every page: it takes the used bytes of a page to include
  its 32-byte header, so an allocation of 32 bytes or less that the pool has just made is denied.
\<close>

theorem fresh_block_not_contained:
  assumes "pool_ok n p" "0 < unat sz" "unat sz \<le> 32" "leptris_pool_alloc mem n sz p = (Some q, n', p')"
  shows "\<not> leptris_pool_contains p' q"
proof -
  note d = pool_okD[OF assms(1)]
  have al: "unat (align_up sz) = (unat sz + 7) div 8 * 8" using unat_align_up[of sz] assms(3) by simp
  have "(unat sz + 7) div 8 \<le> 4" using assms(3) by simp
  then have a32: "unat (align_up sz) \<le> 32" using al by simp
  obtain pre pg where pages: "pages p = pre @ [pg]" using d(1) by (cases "pages p" rule: rev_cases) auto
  have pgok: "page_ok (pool_page_size p) pg" using d(6) pages by simp
  then have psz: "page_size pg = pool_page_size p" by (simp add: page_ok_def)
  have nz: "sz \<noteq> 0" using assms(2) by auto
  have small: "\<not> align_up sz > page_size pg" using a32 d(7) psz by (simp add: word_less_nat_alt)
  have apart: "page_block pg \<notin> page_block ` set pre \<union> big_block ` set (bigs p)"
    using d(4) pages by (auto simp: pool_blocks_def)
  show ?thesis
  proof (cases "busy_size pg + align_up sz \<le> page_size pg")
    case True
    have f: "unat (busy_size pg + align_up sz) = unat (busy_size pg) + unat (align_up sz)"
      "unat (page_data pg + busy_size pg) = unat (page_data pg) + unat (busy_size pg)"
      using fits[OF pgok d(8) _ True] a32 by simp_all
    have r: "q = (page_block pg, page_data pg + busy_size pg)"
      "p' = p\<lparr>pages := pre @ [pg\<lparr>busy_size := busy_size pg + align_up sz\<rparr>]\<rparr>"
      using assms(4) pages True nz d(2) by (auto simp: leptris_pool_alloc_def numeral_2_eq_2 bump_current_def Let_def)
    have "\<not> snd q < page_data pg + (busy_size pg + align_up sz - 32)" if "busy_size pg + align_up sz > 32"
    proof -
      have "unat (busy_size pg + align_up sz - 32) = unat (busy_size pg) + unat (align_up sz) - 32"
        using that f(1) by (subst unat_sub) (simp_all add: word_le_nat_alt word_less_nat_alt)
      moreover have "unat (busy_size pg) < 2 ^ 62" "unat (page_data pg) \<le> 144" using pgok d(8) by (auto simp: page_ok_def)
      ultimately have "unat (page_data pg + (busy_size pg + align_up sz - 32)) \<le> unat (page_data pg) + unat (busy_size pg)"
        using a32 by (simp add: unat_word_ariths)
      then show ?thesis using f(2) r(1) by (simp add: word_less_nat_alt)
    qed
    then show ?thesis using r apart d(2) by (auto simp: leptris_pool_contains_def)
  next
    case False
    have r: "q = (n, 24)" "p' = p\<lparr>pages := pages p @ [(new_page n (pool_page_size p))\<lparr>busy_size := align_up sz\<rparr>], page_count := page_count p + 1\<rparr>"
      using assms(4) pages False small nz d(2) psz
      by (auto simp: leptris_pool_alloc_def numeral_2_eq_2 Let_def new_page_alloc_def add_new_page_def allocate_new_page_def
          alloc_hook_def new_page_def butlast_append split: if_splits)
    have "n \<notin> set (pool_blocks p)" using d(5) by auto
    then have "n \<notin> page_block ` set (pages p) \<union> big_block ` set (bigs p)" by (simp add: pool_blocks_def)
    moreover have "\<not> align_up sz > 32" using a32 by (simp add: word_less_nat_alt)
    ultimately show ?thesis using r d(2) by (auto simp: leptris_pool_contains_def new_page_def)
  qed
qed

lemma fresh_block_not_contained_witness:
  "\<exists>q n' p'. leptris_pool_alloc (\<lambda>_. True) 1 16 small_pool = (Some q, n', p') \<and> \<not> leptris_pool_contains p' q"
proof -
  have "fst (leptris_pool_alloc (\<lambda>_. True) 1 16 small_pool) = Some (0, 144)" by code_simp
  then obtain q n' p' where a: "leptris_pool_alloc (\<lambda>_. True) 1 16 small_pool = (Some q, n', p')"
    by (metis surj_pair fst_conv)
  then show ?thesis using fresh_block_not_contained[OF small_pool_ok _ _ a] by simp
qed

text \<open>
  The size of a batch wraps around: 2 to the 32 items of 2 to the 32 bytes are answered with the
  current position of the pool, of which not a byte is taken.
\<close>

theorem batch_size_wraps:
  assumes "pool_ok n p"
  shows "\<exists>q. leptris_pool_alloc_batch mem n (2 ^ 32) (2 ^ 32) p = (Some q, n, p)"
proof -
  note d = pool_okD[OF assms]
  obtain pre pg where pages: "pages p = pre @ [pg]" using d(1) by (cases "pages p" rule: rev_cases) auto
  have "page_ok (pool_page_size p) pg" using d(6) pages by simp
  then have fit: "busy_size pg \<le> page_size pg" by (simp add: page_ok_def word_le_nat_alt)
  have z: "align_up (2 ^ 32) * (2 ^ 32 :: u64) = 0" by (simp add: align_up_def)
  have "p\<lparr>pages := pre @ [pg]\<rparr> = p" using pages by simp
  then show ?thesis
    using z fit pages d(2) by (simp add: leptris_pool_alloc_batch_def bump_current_def Let_def)
qed

lemma batch_size_wraps_witness:
  "\<exists>q. leptris_pool_alloc_batch (\<lambda>_. True) 1 (2 ^ 32) (2 ^ 32) small_pool = (Some q, 1, small_pool)"
  by (rule batch_size_wraps[OF small_pool_ok])

text \<open>
  C30. The two functions that call each other for an oversized block return at the second level in every
  pool whose pages can hold the 24 bytes of a tracking node. A page size within 7 bytes of the top of
  the address range is rounded to 0, and then no depth is enough: the first allocation never returns.
\<close>

theorem pool_alloc_terminates:
  "(pool_ok n p \<and> unat sz < 2 ^ 62 \<longrightarrow> pool_alloc_at 2 mem n sz p \<noteq> None)
   \<and> (\<forall>depth. \<exists>p0. leptris_pool_create_with_page_size True (\<lambda>_. True) 0 (- 1) rc = (Some p0, 1, rc)
        \<and> pool_alloc_at depth (\<lambda>_. True) 1 16 p0 = None)"
proof (intro conjI impI allI)
  show "pool_alloc_at 2 mem n sz p \<noteq> None" if "pool_ok n p \<and> unat sz < 2 ^ 62"
  proof (cases "sz = 0")
    case True
    then show ?thesis by (simp add: numeral_2_eq_2)
  next
    case False
    then show ?thesis using pool_alloc_at_Suc[of n p sz 0 mem] that by (auto simp: numeral_2_eq_2 simp del: pool_alloc_at.simps)
  qed
next
  fix depth
  let ?p0 = "\<lparr>pages = [\<lparr>page_block = 0, page_data = 144, page_size = 0, busy_size = 0\<rparr>], page_count = 1, pool_page_size = 0,
    pool_block = 0, has_hooks = False, bigs = [], pool_arena = None, arena_owned = False, pool_struct_in_arena = False,
    arena_head_reserved = 0\<rparr>"
  have "align_up (- 1) = 0" by (simp add: align_up_def)
  then have "leptris_pool_create_with_page_size True (\<lambda>_. True) 0 (- 1) rc = (Some ?p0, 1, rc)"
    by (simp add: leptris_pool_create_with_page_size_def LEPTRIS_POOL_PAGE_SIZE_MIN_def alloc_hook_def Let_def)
  moreover have "sz \<in> {16, 24} \<Longrightarrow> pool_alloc_at depth (\<lambda>_. True) n sz ?p0 = None" for n sz
    by (induction depth arbitrary: n sz) (auto simp: align_up_def alloc_hook_def Let_def)
  ultimately show "\<exists>p0. leptris_pool_create_with_page_size True (\<lambda>_. True) 0 (- 1) rc = (Some p0, 1, rc)
      \<and> pool_alloc_at depth (\<lambda>_. True) 1 16 p0 = None" by blast
qed

lemma pool_alloc_terminates_witness: "pool_alloc_at 2 (\<lambda>_. True) 1 9000 small_pool \<noteq> None"
  by (rule pool_alloc_terminates[THEN conjunct1, THEN mp, OF conjI[OF small_pool_ok]]) simp

end
