(* ===== verification/Regex.thy ===== *)
theory Regex
  imports DtdContent
begin

text \<open>
  The regular expressions of pattern facets (\<open>rng/rng_regex.c\<close>): character classes with their ranges,
  blocks and categories, the parser, and the matcher that backtracks over continuations. A pattern and
  a text are C strings, read as the bytes that are left of them; a pointer into the text is what is
  left of it there. Unicode categories come from the utf8proc library, a parameter that is \<open>None\<close> in a
  build without it. Allocations are taken to succeed.
\<close>

section \<open>Character classes\<close>

text \<open>The categories of utf8proc. A mask of category bits is the set of its categories.\<close>

datatype category =
    CATEGORY_CN | CATEGORY_LU | CATEGORY_LL | CATEGORY_LT | CATEGORY_LM | CATEGORY_LO | CATEGORY_MN | CATEGORY_MC | CATEGORY_ME
  | CATEGORY_ND | CATEGORY_NL | CATEGORY_NO | CATEGORY_PC | CATEGORY_PD | CATEGORY_PS | CATEGORY_PE | CATEGORY_PI | CATEGORY_PF
  | CATEGORY_PO | CATEGORY_SM | CATEGORY_SC | CATEGORY_SK | CATEGORY_SO | CATEGORY_ZS | CATEGORY_ZL | CATEGORY_ZP | CATEGORY_CC
  | CATEGORY_CF | CATEGORY_CS | CATEGORY_CO

type_synonym utf8proc = "(u32 \<Rightarrow> category) option"

text \<open>A class node: the bitmap as the set of its bytes, and the ranges above it in their order.\<close>

datatype rre_class = RRE_class
  (bitmap: "u8 set") (uni: "(u32 \<times> u32) list") (cat_set: bool) (cat_mask: "category set") (cat_neg: bool)
  (subtract: "rre_class option") (negm: "rre_class option") (neg: bool)

definition no_class :: rre_class where
  "no_class = RRE_class {} [] False {} False None None False"

definition cls_add :: "u8 set \<Rightarrow> rre_class \<Rightarrow> rre_class" where
  "cls_add cs n = RRE_class (cs \<union> bitmap n) (uni n) (cat_set n) (cat_mask n) (cat_neg n) (subtract n) (negm n) (neg n)"

text \<open>A class has room for four ranges; a fifth is dropped.\<close>

definition add_uni :: "u32 \<Rightarrow> u32 \<Rightarrow> rre_class \<Rightarrow> rre_class" where
  "add_uni lo hi n =
    (if length (uni n) < 4
     then RRE_class (bitmap n) (uni n @ [(lo, hi)]) (cat_set n) (cat_mask n) (cat_neg n) (subtract n) (negm n) (neg n) else n)"

definition set_cats :: "category set \<Rightarrow> bool \<Rightarrow> rre_class \<Rightarrow> rre_class" where
  "set_cats cats ng n = RRE_class (bitmap n) (uni n) True cats ng (subtract n) (negm n) (neg n)"

definition set_subtract :: "rre_class \<Rightarrow> rre_class \<Rightarrow> rre_class" where
  "set_subtract m n = RRE_class (bitmap n) (uni n) (cat_set n) (cat_mask n) (cat_neg n) (Some m) (negm n) (neg n)"

definition set_negm :: "rre_class \<Rightarrow> rre_class \<Rightarrow> rre_class" where
  "set_negm m n = RRE_class (bitmap n) (uni n) (cat_set n) (cat_mask n) (cat_neg n) (subtract n) (Some m) (neg n)"

definition set_neg :: "bool \<Rightarrow> rre_class \<Rightarrow> rre_class" where
  "set_neg b n = RRE_class (bitmap n) (uni n) (cat_set n) (cat_mask n) (cat_neg n) (subtract n) (negm n) b"

definition byte_range :: "u8 \<Rightarrow> u8 \<Rightarrow> u8 set" where
  "byte_range lo hi = set (map word_of_nat [unat lo..<Suc (unat hi)])"

lemma in_byte_range [simp]: "c \<in> byte_range lo hi \<longleftrightarrow> lo \<le> c \<and> c \<le> hi"
proof
  assume "c \<in> byte_range lo hi"
  then obtain i where i: "c = word_of_nat i" "unat lo \<le> i" "i \<le> unat hi" by (auto simp: byte_range_def)
  moreover have "unat hi < 2 ^ LENGTH(8)" by (rule unsigned_less)
  then have "i < 2 ^ 8" using i(3) by simp
  then have "unat (word_of_nat i :: u8) = i" by (simp add: unat_of_nat)
  ultimately show "lo \<le> c \<and> c \<le> hi" by (simp add: word_le_nat_alt)
next
  assume "lo \<le> c \<and> c \<le> hi"
  then have "unat c \<in> set [unat lo..<Suc (unat hi)]" by (auto simp: word_le_nat_alt)
  then have "word_of_nat (unat c) \<in> byte_range lo hi" unfolding byte_range_def set_map by (rule imageI)
  then show "c \<in> byte_range lo hi" by simp
qed

definition digit_bytes :: "u8 set" where "digit_bytes = byte_range 0x30 0x39"

definition letter_bytes :: "u8 set" where "letter_bytes = byte_range 0x61 0x7A \<union> byte_range 0x41 0x5A"

definition letter_cats :: "category set" where
  "letter_cats = {CATEGORY_LU, CATEGORY_LL, CATEGORY_LT, CATEGORY_LM, CATEGORY_LO}"

definition mark_cats :: "category set" where "mark_cats = {CATEGORY_MN, CATEGORY_MC, CATEGORY_ME}"

definition number_cats :: "category set" where "number_cats = {CATEGORY_ND, CATEGORY_NL, CATEGORY_NO}"

definition punct_cats :: "category set" where
  "punct_cats = {CATEGORY_PC, CATEGORY_PD, CATEGORY_PS, CATEGORY_PE, CATEGORY_PI, CATEGORY_PF, CATEGORY_PO}"

definition symbol_cats :: "category set" where "symbol_cats = {CATEGORY_SM, CATEGORY_SC, CATEGORY_SK, CATEGORY_SO}"

definition separator_cats :: "category set" where "separator_cats = {CATEGORY_ZS, CATEGORY_ZL, CATEGORY_ZP}"

definition other_cats :: "category set" where
  "other_cats = {CATEGORY_CC, CATEGORY_CF, CATEGORY_CS, CATEGORY_CO, CATEGORY_CN}"

text \<open>The classes behind \<open>\d\<close>, \<open>\w\<close>, \<open>\s\<close>, \<open>\i\<close> and \<open>\c\<close>, put into a class that holds nothing else.\<close>

definition cls_add_builtin :: "utf8proc \<Rightarrow> u8 \<Rightarrow> rre_class \<Rightarrow> rre_class" where
  "cls_add_builtin up c n =
    (if c = 0x64 then
       add_uni 0x1369 0x1371
         (if up \<noteq> None then set_cats (cat_mask n \<union> {CATEGORY_ND}) (cat_neg n) (cls_add digit_bytes n) else cls_add digit_bytes n)
     else if c = 0x77 then
       (if up \<noteq> None then set_cats (punct_cats \<union> separator_cats \<union> other_cats) True (cls_add (letter_bytes \<union> digit_bytes) n)
        else cls_add (letter_bytes \<union> digit_bytes) n)
     else if c = 0x73 then cls_add {0x20, 0x09, 0x0A, 0x0D, 0x0C, 0x0B} n
     else if c = 0x69 then
       (let n = add_uni 0x212E 0x212E (cls_add (letter_bytes \<union> {0x5F, 0x3A}) n) in
        if up \<noteq> None then set_cats (letter_cats \<union> {CATEGORY_NL}) (cat_neg n) n else cls_add (byte_range 0x80 0xFF) n)
     else if c = 0x63 then
       (let n = add_uni 0x0387 0x0387 (add_uni 0x06DE 0x06DE (add_uni 0x06DD 0x06DD (add_uni 0x212E 0x212E
                  (cls_add (letter_bytes \<union> digit_bytes \<union> {0x5F, 0x3A, 0x2E, 0x2D, 0xB7}) n)))) in
        if up \<noteq> None then set_cats (letter_cats \<union> {CATEGORY_NL, CATEGORY_ND, CATEGORY_NO} \<union> mark_cats) (cat_neg n) n
        else cls_add (byte_range 0x80 0xFF) n)
     else n)"

definition cls_has :: "rre_class \<Rightarrow> u8 \<Rightarrow> bool" where
  "cls_has n c \<longleftrightarrow> (if neg n then c \<notin> bitmap n else c \<in> bitmap n)"

text \<open>
  A code point above the bitmap is looked up in the ranges; then the categories, the complemented
  member, the complement of the class and its subtrahend follow, in this order.
\<close>

function cls_has_cp :: "utf8proc \<Rightarrow> rre_class \<Rightarrow> u32 \<Rightarrow> bool" where
  "cls_has_cp up n cp =
    (let hit = (if cp < 0x100 then ucast cp \<in> bitmap n else (\<exists>r \<in> set (uni n). fst r \<le> cp \<and> cp \<le> snd r));
         hit = (case up of
                  None \<Rightarrow> hit
                | Some category_of \<Rightarrow>
                    if cat_set n then hit \<or> (if cat_neg n then category_of cp \<notin> cat_mask n else category_of cp \<in> cat_mask n) else hit);
         hit = (case negm n of None \<Rightarrow> hit | Some m \<Rightarrow> hit \<or> \<not> cls_has_cp up m cp);
         hit = (if neg n then \<not> hit else hit) in
     (case subtract n of None \<Rightarrow> hit | Some m \<Rightarrow> hit \<and> \<not> cls_has_cp up m cp))"
  by pat_completeness auto
termination
proof (relation "measure (\<lambda>(up, n, cp). size n)", goal_cases)
  case (2 up n)
  then show ?case by (cases n) auto
next
  case (3 up n)
  then show ?case by (cases n) auto
qed simp

declare cls_has_cp.simps [simp del]

text \<open>The code point at the start of a text and its length; an ill-formed byte stands for itself.\<close>

definition rre_decode_cp :: "bytes \<Rightarrow> u32 \<times> nat" where
  "rre_decode_cp s =
    (let c = hd s;
         (n, cp) = (if c AND 0xE0 = 0xC0 then (2, c AND 0x1F) else if c AND 0xF0 = 0xE0 then (3, c AND 0x0F)
                    else if c AND 0xF8 = 0xF0 then (4, c AND 0x07) else (1::nat, c)) in
     if c < 0x80 \<or> n = 1 \<or> n > length s \<or> (\<exists>cc \<in> set (take (n - 1) (tl s)). cc AND 0xC0 \<noteq> 0x80) then (ucast c, 1)
     else (fold (\<lambda>cc cp. push_bit 6 cp OR (ucast cc AND 0x3F)) (take (n - 1) (tl s)) (ucast cp), n))"

definition rre_cats :: "(bytes \<times> category) list" where
  "rre_cats =
    [(ascii ''Lu'', CATEGORY_LU), (ascii ''Ll'', CATEGORY_LL), (ascii ''Lt'', CATEGORY_LT), (ascii ''Lm'', CATEGORY_LM),
     (ascii ''Lo'', CATEGORY_LO), (ascii ''Mn'', CATEGORY_MN), (ascii ''Mc'', CATEGORY_MC), (ascii ''Me'', CATEGORY_ME),
     (ascii ''Nd'', CATEGORY_ND), (ascii ''Nl'', CATEGORY_NL), (ascii ''No'', CATEGORY_NO), (ascii ''Pc'', CATEGORY_PC),
     (ascii ''Pd'', CATEGORY_PD), (ascii ''Ps'', CATEGORY_PS), (ascii ''Pe'', CATEGORY_PE), (ascii ''Pi'', CATEGORY_PI),
     (ascii ''Pf'', CATEGORY_PF), (ascii ''Po'', CATEGORY_PO), (ascii ''Zs'', CATEGORY_ZS), (ascii ''Zl'', CATEGORY_ZL),
     (ascii ''Zp'', CATEGORY_ZP), (ascii ''Sm'', CATEGORY_SM), (ascii ''Sc'', CATEGORY_SC), (ascii ''Sk'', CATEGORY_SK),
     (ascii ''So'', CATEGORY_SO), (ascii ''Cc'', CATEGORY_CC), (ascii ''Cf'', CATEGORY_CF), (ascii ''Co'', CATEGORY_CO),
     (ascii ''Cs'', CATEGORY_CS), (ascii ''Cn'', CATEGORY_CN)]"

definition rre_category_mask :: "bytes \<Rightarrow> category set option" where
  "rre_category_mask tok =
    (if length tok = 2 then map_option (\<lambda>c. {c}) (map_of rre_cats tok)
     else if tok = ascii ''L'' then Some letter_cats
     else if tok = ascii ''M'' then Some mark_cats
     else if tok = ascii ''N'' then Some number_cats
     else if tok = ascii ''P'' then Some punct_cats
     else if tok = ascii ''S'' then Some symbol_cats
     else if tok = ascii ''Z'' then Some separator_cats
     else if tok = ascii ''C'' then Some other_cats
     else None)"

text \<open>A block joins the bitmap where it fits, else the ranges, and fails where these are full.\<close>

definition cls_add_block :: "u32 \<Rightarrow> u32 \<Rightarrow> rre_class \<Rightarrow> rre_class option" where
  "cls_add_block lo hi n =
    (if hi < 0x100 then Some (cls_add (byte_range (ucast lo) (ucast hi)) n)
     else if length (uni n) \<ge> 4 then None
     else Some (add_uni lo hi n))"

definition rre_blocks :: "(bytes \<times> u32 \<times> u32) list" where
  "rre_blocks =
    [(ascii ''IsBasicLatin'', 0x0000, 0x007F),
     (ascii ''IsLatin-1Supplement'', 0x0080, 0x00FF),
     (ascii ''IsLatinExtended-A'', 0x0100, 0x017F),
     (ascii ''IsLatinExtended-B'', 0x0180, 0x024F),
     (ascii ''IsIPAExtensions'', 0x0250, 0x02AF),
     (ascii ''IsSpacingModifierLetters'', 0x02B0, 0x02FF),
     (ascii ''IsCombiningDiacriticalMarks'', 0x0300, 0x036F),
     (ascii ''IsGreek'', 0x0370, 0x03FF),
     (ascii ''IsGreekandCoptic'', 0x0370, 0x03FF),
     (ascii ''IsCyrillic'', 0x0400, 0x04FF),
     (ascii ''IsCyrillicSupplement'', 0x0500, 0x052F),
     (ascii ''IsArmenian'', 0x0530, 0x058F),
     (ascii ''IsHebrew'', 0x0590, 0x05FF),
     (ascii ''IsArabic'', 0x0600, 0x06FF),
     (ascii ''IsSyriac'', 0x0700, 0x074F),
     (ascii ''IsThaana'', 0x0780, 0x07BF),
     (ascii ''IsDevanagari'', 0x0900, 0x097F),
     (ascii ''IsBengali'', 0x0980, 0x09FF),
     (ascii ''IsGurmukhi'', 0x0A00, 0x0A7F),
     (ascii ''IsGujarati'', 0x0A80, 0x0AFF),
     (ascii ''IsOriya'', 0x0B00, 0x0B7F),
     (ascii ''IsTamil'', 0x0B80, 0x0BFF),
     (ascii ''IsTelugu'', 0x0C00, 0x0C7F),
     (ascii ''IsKannada'', 0x0C80, 0x0CFF),
     (ascii ''IsMalayalam'', 0x0D00, 0x0D7F),
     (ascii ''IsSinhala'', 0x0D80, 0x0DFF),
     (ascii ''IsThai'', 0x0E00, 0x0E7F),
     (ascii ''IsLao'', 0x0E80, 0x0EFF),
     (ascii ''IsTibetan'', 0x0F00, 0x0FFF),
     (ascii ''IsMyanmar'', 0x1000, 0x109F),
     (ascii ''IsGeorgian'', 0x10A0, 0x10FF),
     (ascii ''IsHangulJamo'', 0x1100, 0x11FF),
     (ascii ''IsEthiopic'', 0x1200, 0x137F),
     (ascii ''IsCherokee'', 0x13A0, 0x13FF),
     (ascii ''IsUnifiedCanadianAboriginalSyllabics'', 0x1400, 0x167F),
     (ascii ''IsOgham'', 0x1680, 0x169F),
     (ascii ''IsRunic'', 0x16A0, 0x16FF),
     (ascii ''IsKhmer'', 0x1780, 0x17FF),
     (ascii ''IsMongolian'', 0x1800, 0x18AF),
     (ascii ''IsLatinExtendedAdditional'', 0x1E00, 0x1EFF),
     (ascii ''IsGreekExtended'', 0x1F00, 0x1FFF),
     (ascii ''IsGeneralPunctuation'', 0x2000, 0x206F),
     (ascii ''IsSuperscriptsandSubscripts'', 0x2070, 0x209F),
     (ascii ''IsCurrencySymbols'', 0x20A0, 0x20CF),
     (ascii ''IsCombiningMarksforSymbols'', 0x20D0, 0x20FF),
     (ascii ''IsLetterlikeSymbols'', 0x2100, 0x214F),
     (ascii ''IsNumberForms'', 0x2150, 0x218F),
     (ascii ''IsArrows'', 0x2190, 0x21FF),
     (ascii ''IsMathematicalOperators'', 0x2200, 0x22FF),
     (ascii ''IsMiscellaneousTechnical'', 0x2300, 0x23FF),
     (ascii ''IsControlPictures'', 0x2400, 0x243F),
     (ascii ''IsOpticalCharacterRecognition'', 0x2440, 0x245F),
     (ascii ''IsEnclosedAlphanumerics'', 0x2460, 0x24FF),
     (ascii ''IsBoxDrawing'', 0x2500, 0x257F),
     (ascii ''IsBlockElements'', 0x2580, 0x259F),
     (ascii ''IsGeometricShapes'', 0x25A0, 0x25FF),
     (ascii ''IsMiscellaneousSymbols'', 0x2600, 0x26FF),
     (ascii ''IsDingbats'', 0x2700, 0x27BF),
     (ascii ''IsBraillePatterns'', 0x2800, 0x28FF),
     (ascii ''IsCJKRadicalsSupplement'', 0x2E80, 0x2EFF),
     (ascii ''IsKangxiRadicals'', 0x2F00, 0x2FDF),
     (ascii ''IsIdeographicDescriptionCharacters'', 0x2FF0, 0x2FFF),
     (ascii ''IsCJKSymbolsandPunctuation'', 0x3000, 0x303F),
     (ascii ''IsHiragana'', 0x3040, 0x309F),
     (ascii ''IsKatakana'', 0x30A0, 0x30FF),
     (ascii ''IsBopomofo'', 0x3100, 0x312F),
     (ascii ''IsHangulCompatibilityJamo'', 0x3130, 0x318F),
     (ascii ''IsKanbun'', 0x3190, 0x319F),
     (ascii ''IsBopomofoExtended'', 0x31A0, 0x31BF),
     (ascii ''IsKatakanaPhoneticExtensions'', 0x31D0, 0x31FF),
     (ascii ''IsEnclosedCJKLettersandMonths'', 0x3200, 0x32FF),
     (ascii ''IsCJKCompatibility'', 0x3300, 0x33FF),
     (ascii ''IsCJKUnifiedIdeographsExtensionA'', 0x3400, 0x4DBF),
     (ascii ''IsYijingHexagramSymbols'', 0x4DC0, 0x4DFF),
     (ascii ''IsCJKUnifiedIdeographs'', 0x4E00, 0x9FFF),
     (ascii ''IsYiSyllables'', 0xA000, 0xA48F),
     (ascii ''IsYiRadicals'', 0xA490, 0xA4CF),
     (ascii ''IsHangulSyllables'', 0xAC00, 0xD7AF),
     (ascii ''IsHighSurrogates'', 0xD800, 0xDB7F),
     (ascii ''IsHighPrivateUseSurrogates'', 0xDB80, 0xDBFF),
     (ascii ''IsLowSurrogates'', 0xDC00, 0xDFFF),
     (ascii ''IsPrivateUse'', 0xE000, 0xF8FF),
     (ascii ''IsCJKCompatibilityIdeographs'', 0xF900, 0xFAFF),
     (ascii ''IsAlphabeticPresentationForms'', 0xFB00, 0xFB4F),
     (ascii ''IsArabicPresentationForms-A'', 0xFB50, 0xFDFF),
     (ascii ''IsCombiningHalfMarks'', 0xFE20, 0xFE2F),
     (ascii ''IsCJKCompatibilityForms'', 0xFE30, 0xFE4F),
     (ascii ''IsSmallFormVariants'', 0xFE50, 0xFE6F),
     (ascii ''IsArabicPresentationForms-B'', 0xFE70, 0xFEFF),
     (ascii ''IsHalfwidthandFullwidthForms'', 0xFF00, 0xFFEF),
     (ascii ''IsSpecials'', 0xFFF0, 0xFFFF)]"

definition rre_block_range :: "bytes \<Rightarrow> (u32 \<times> u32) option" where
  "rre_block_range name = map_of rre_blocks name"

end
