(* ===== verification/RegexParse.thy ===== *)
theory RegexParse
  imports Regex
begin

text \<open>
  The parser of patterns (\<open>parse_class\<close>, \<open>parse_atom\<close>, \<open>parse_piece\<close>, \<open>parse_cat\<close> and \<open>parse_alt\<close> in
  \<open>rng/rng_regex.c\<close>). An answer is the node and what is left of the pattern, \<open>None\<close> for \<open>NULL\<close>, which in
  the code sets the flag of a bad pattern as well. That what is left gets shorter is proved along with
  the termination of the mutually recursive functions.
\<close>

section \<open>Class members\<close>

definition rre_peek :: "bytes \<Rightarrow> u8" where
  "rre_peek p = (if p = [] then 0 else hd p)"

definition control_escape :: "u8 \<Rightarrow> u8 option" where
  "control_escape e = (if e = 0x74 then Some 0x09 else if e = 0x6E then Some 0x0A else if e = 0x72 then Some 0x0D else None)"

definition member_escapes :: "u8 set" where
  "member_escapes = set (ascii ''.-^?*+()[]{}|'') \<union> {0x5C}"

definition cls_read_cp :: "bytes \<Rightarrow> (u32 \<times> bytes) option" where
  "cls_read_cp p =
    (if rre_peek p = 0x5C then
       (case tl p of
          [] \<Rightarrow> None
        | e # q \<Rightarrow>
            (case control_escape e of
               Some c \<Rightarrow> Some (ucast c, q)
             | None \<Rightarrow> if e \<in> member_escapes then Some (ucast e, q) else None))
     else if rre_peek p < 0x80 then Some (ucast (rre_peek p), tl p)
     else (case rre_decode_cp p of (cp, len) \<Rightarrow> Some (cp, drop len p)))"

definition cls_add_cp :: "u32 \<Rightarrow> rre_class \<Rightarrow> rre_class" where
  "cls_add_cp cp n = (if cp < 0x100 then cls_add {ucast cp} n else add_uni cp cp n)"

text \<open>What a property, as in \<open>\p{L}\<close>, puts into an empty class.\<close>

definition property_class :: "utf8proc \<Rightarrow> bytes \<Rightarrow> rre_class option" where
  "property_class up name =
    (case rre_block_range name of
       Some (lo, hi) \<Rightarrow> cls_add_block lo hi no_class
     | None \<Rightarrow>
         if name = ascii ''Cc'' then Some (cls_add ({0x7F} \<union> byte_range 0x80 0x9F) (cls_add (byte_range 0 0x1F) no_class))
         else if up = None then None
         else map_option (\<lambda>cats. set_cats cats False no_class) (rre_category_mask name))"

text \<open>The name in braces and what follows them.\<close>

definition property_name :: "bytes \<Rightarrow> (bytes \<times> bytes) option" where
  "property_name p =
    (if 0x7D \<in> set p then Some (takeWhile (\<lambda>c. c \<noteq> 0x7D) p, tl (dropWhile (\<lambda>c. c \<noteq> 0x7D) p)) else None)"

definition merge_uni :: "rre_class \<Rightarrow> rre_class \<Rightarrow> rre_class" where
  "merge_uni m n = fold (\<lambda>r. add_uni (fst r) (snd r)) (uni m) n"

definition merge_cats :: "bool \<Rightarrow> rre_class \<Rightarrow> rre_class \<Rightarrow> rre_class" where
  "merge_cats ng m n = (if cat_set m then set_cats (cat_mask n \<union> cat_mask m) (cat_neg n \<or> ng \<and> cat_neg m) n else n)"

definition property_member :: "utf8proc \<Rightarrow> bool \<Rightarrow> bytes \<Rightarrow> rre_class \<Rightarrow> rre_class option" where
  "property_member up compl name n =
    (case property_class up name of
       None \<Rightarrow> None
     | Some m \<Rightarrow>
         Some (if compl \<and> negm n = None then set_negm m n
               else merge_cats False m (merge_uni m (cls_add (bitmap m) n))))"

definition is_builtin :: "u8 \<Rightarrow> bool" where
  "is_builtin e \<longleftrightarrow> e \<in> set (ascii ''dDwWsSiIcC'')"

definition is_upper :: "u8 \<Rightarrow> bool" where
  "is_upper e \<longleftrightarrow> 0x41 \<le> e \<and> e \<le> 0x5A"

definition lower :: "u8 \<Rightarrow> u8" where
  "lower e = (if is_upper e then e + 0x20 else e)"

definition builtin_member :: "utf8proc \<Rightarrow> u8 \<Rightarrow> rre_class \<Rightarrow> rre_class" where
  "builtin_member up e n =
    (let m = cls_add_builtin up (lower e) no_class in
     if is_upper e then
       (if negm n = None then set_negm m n else cls_add (bitmap m) (merge_cats False m n))
     else cls_add (bitmap m) (merge_uni m (merge_cats True m n)))"

text \<open>A hyphen that makes a range, and the range from \<open>lo\<close> on.\<close>

definition range_ahead :: "bytes \<Rightarrow> bool" where
  "range_ahead p \<longleftrightarrow> length p \<ge> 2 \<and> p ! 0 = 0x2D \<and> p ! 1 \<noteq> 0x5D \<and> p ! 1 \<noteq> 0x5B"

definition range_member :: "u32 \<Rightarrow> rre_class \<Rightarrow> bytes \<Rightarrow> (rre_class \<times> bytes) option" where
  "range_member lo n p =
    (let p = tl p; hi_esc = (rre_peek p = 0x5C) in
     (case cls_read_cp p of
        None \<Rightarrow> None
      | Some (hi, p) \<Rightarrow>
          if hi < lo \<or> hi = 0x5B \<or> hi_esc \<and> hi = 0x5C then None
          else Some (if lo < 0x100 \<and> hi < 0x100 then cls_add (byte_range (ucast lo) (ucast hi)) n else add_uni lo hi n, p)))"

definition class_member :: "utf8proc \<Rightarrow> bool \<Rightarrow> rre_class \<Rightarrow> bytes \<Rightarrow> (rre_class \<times> bytes) option" where
  "class_member up first n p =
    (if length p \<ge> 3 \<and> p ! 0 = 0x5C \<and> (p ! 1 = 0x70 \<or> p ! 1 = 0x50) \<and> p ! 2 = 0x7B then
       (case property_name (drop 3 p) of
          None \<Rightarrow> None
        | Some (name, q) \<Rightarrow> map_option (\<lambda>n. (n, q)) (property_member up (p ! 1 = 0x50) name n))
     else if length p \<ge> 2 \<and> p ! 0 = 0x5C then
       (let e = p ! 1; q = drop 2 p in
        if is_builtin e then Some (builtin_member up e n, q)
        else
          let cp = ucast (case control_escape e of Some c \<Rightarrow> c | None \<Rightarrow> e) in
          if range_ahead q then range_member cp n q else Some (cls_add_cp cp n, q))
     else
       (case cls_read_cp p of
          None \<Rightarrow> None
        | Some (lo, q) \<Rightarrow>
            if range_ahead q then range_member lo n q
            else if lo = 0x2D \<and> \<not> first \<and> rre_peek q \<noteq> 0x5D then None
            else Some (cls_add_cp lo n, q)))"

lemma read_cp_shorter:
  assumes "cls_read_cp p = Some (cp, q)" "p \<noteq> []"
  shows "length q < length p"
proof -
  have "0 < snd (rre_decode_cp p)" unfolding rre_decode_cp_def Let_def by (simp split: prod.splits if_splits)
  moreover have "0 < length p" using assms(2) by simp
  moreover have "tl p = e # q \<Longrightarrow> length q < length p" for e by (cases p) auto
  ultimately show ?thesis using assms
    by (auto simp: cls_read_cp_def rre_peek_def split: if_splits list.splits option.splits prod.splits)
qed

lemma range_member_shorter: "range_member lo n p = Some (m, q) \<Longrightarrow> range_ahead p \<Longrightarrow> length q < length p"
  using read_cp_shorter[of "tl p"]
  by (cases p) (fastforce simp: range_member_def range_ahead_def Let_def split: option.splits prod.splits if_splits)+

lemma property_name_shorter: "property_name p = Some (name, q) \<Longrightarrow> length q \<le> length p"
  using length_dropWhile_le[of "\<lambda>c. c \<noteq> 0x7D" p] by (auto simp: property_name_def split: if_splits)

lemma class_member_shorter:
  assumes m: "class_member up first n p = Some (n', q)" and p: "p \<noteq> []"
  shows "length q < length p"
proof (cases "length p \<ge> 3 \<and> p ! 0 = 0x5C \<and> (p ! 1 = 0x70 \<or> p ! 1 = 0x50) \<and> p ! 2 = 0x7B")
  case True
  then have "length q \<le> length (drop 3 p)" using m by (auto simp: class_member_def dest: property_name_shorter split: option.splits)
  moreover have "length (drop 3 p) < length p" using p by simp
  ultimately show ?thesis by linarith
next
  case not_name: False
  show ?thesis
  proof (cases "length p \<ge> 2 \<and> p ! 0 = 0x5C")
    case True
    have d: "length (drop 2 p) < length p" using p by simp
    have "q = drop 2 p \<or> length q < length (drop 2 p)"
      using m True not_name unfolding class_member_def
      by (auto simp: Let_def dest: range_member_shorter simp del: length_drop split: if_splits)
    then show ?thesis using d by auto
  next
    case False
    then obtain lo r where r: "cls_read_cp p = Some (lo, r)"
      using m not_name unfolding class_member_def by (auto split: option.splits)
    have d: "length r < length p" using read_cp_shorter[OF r p] .
    have "q = r \<or> length q < length r"
      using m False not_name r unfolding class_member_def
      by (auto dest: range_member_shorter split: if_splits)
    then show ?thesis using d by auto
  qed
qed

text \<open>The members up to the bracket; a subtrahend is the last one.\<close>

function parse_class :: "utf8proc \<Rightarrow> bytes \<Rightarrow> (rre_class \<times> bytes) option"
  and parse_members :: "utf8proc \<Rightarrow> bool \<Rightarrow> rre_class \<Rightarrow> bytes \<Rightarrow> (rre_class \<times> bytes) option" where
  "parse_class up p =
    (if rre_peek p = 0x5E then parse_members up True (set_neg True no_class) (tl p)
     else parse_members up True no_class p)"
| "parse_members up first n p =
    (if p = [] then None
     else if hd p = 0x5D \<and> \<not> first then Some (n, tl p)
     else if hd p = 0x2D \<and> rre_peek (tl p) = 0x5B then
       (case parse_class up (drop 2 p) of
          None \<Rightarrow> None
        | Some (sub, q) \<Rightarrow> if rre_peek q = 0x5D then Some (set_subtract sub n, tl q) else None)
     else
       (case class_member up first n p of
          None \<Rightarrow> None
        | Some (n, q) \<Rightarrow> parse_members up False n q))"
  by pat_completeness auto
termination
  by (relation "measures [case_sum (\<lambda>(up, p). length p) (\<lambda>(up, first, n, p). length p), case_sum (\<lambda>_. 1) (\<lambda>_. 0)]")
    (auto simp: rre_peek_def dest: class_member_shorter split: if_splits)

declare parse_class.simps [simp del] parse_members.simps [simp del]

lemma parse_class_shorter:
  "parse_class up p = Some (n, q) \<Longrightarrow> length q < length p"
  "parse_members up first c p = Some (n, q) \<Longrightarrow> length q < length p"
proof (induction up p and up first c p arbitrary: n q and n q rule: parse_class_parse_members.induct)
  case (1 up p)
  have "rre_peek p = 0x5E \<Longrightarrow> length (tl p) \<le> length p" by simp
  then show ?case using 1(1)[of n q] 1(2)[of n q] "1.prems"
    by (auto simp: parse_class.simps[of up p] split: if_splits)
next
  case (2 up first c p)
  have ne: "p \<noteq> []" using "2.prems" by (auto simp: parse_members.simps)
  show ?case
  proof (cases "hd p = 0x5D \<and> \<not> first \<or> hd p = 0x2D \<and> rre_peek (tl p) = 0x5B")
    case True
    have "length (drop 2 p) < length p" "length (tl p) < length p" using ne by simp_all
    then show ?thesis using 2(1) ne True "2.prems" unfolding parse_members.simps[of up first c p]
      by (fastforce split: if_splits option.splits)
  next
    case False
    then obtain c' r where m: "class_member up first c p = Some (c', r)" "parse_members up False c' r = Some (n, q)"
      using ne "2.prems" unfolding parse_members.simps[of up first c p] by (auto split: option.splits if_splits)
    then show ?thesis using 2(2)[OF ne _ _ m(1) refl m(2)] class_member_shorter[OF m(1) ne] False by auto
  qed
qed

section \<open>Expressions\<close>

text \<open>\<open>End\<close> anchors a match at the end of the text, \<open>Minpos\<close> makes an iteration consume something.\<close>

datatype rre =
    End | Char u8 | Class rre_class | Dot | Cat rre rre | Alt rre rre | Rep rre int int | Empty | Minpos bytes

text \<open>\<open>strtol\<close> in base 10, with what is left; \<open>None\<close> where no digit is read.\<close>

definition c_digit :: "u8 \<Rightarrow> bool" where
  "c_digit c \<longleftrightarrow> 0x30 \<le> c \<and> c \<le> 0x39"

definition strtol :: "bytes \<Rightarrow> (int \<times> bytes) option" where
  "strtol p =
    (let p = dropWhile c_space p; minus = (rre_peek p = 0x2D);
         p = (if minus \<or> rre_peek p = 0x2B then tl p else p);
         ds = takeWhile c_digit p;
         v = fold (\<lambda>c v. 10 * v + (int (unat c) - 48)) ds 0 in
     if ds = [] then None
     else Some (if minus then max (- (2 ^ 63)) (- v) else min (2 ^ 63 - 1) v, dropWhile c_digit p))"

definition c_int :: "int \<Rightarrow> int" where
  "c_int v = sint (word_of_int v :: 32 word)"

text \<open>The bounds in braces; an unbounded maximum is negative.\<close>

definition braced_bounds :: "bytes \<Rightarrow> ((int \<times> int) \<times> bytes) option" where
  "braced_bounds q =
    (case strtol q of
       None \<Rightarrow> None
     | Some (v, q) \<Rightarrow>
         let l = c_int v; comma = (rre_peek q = 0x2C);
             (h, q) = (if comma then
                         (if rre_peek (tl q) = 0x7D then (-1, tl q)
                          else (case strtol (tl q) of None \<Rightarrow> (-1, tl q) | Some (v, q) \<Rightarrow> (c_int v, q)))
                       else (-1, q));
             h = (if \<not> comma \<and> h = -1 then l else h) in
         if rre_peek q = 0x7D \<and> l \<ge> 0 \<and> (h = -1 \<or> h \<ge> l) then Some ((l, h), tl q) else None)"

definition quantifier :: "bytes \<Rightarrow> (int \<times> int) \<times> bytes" where
  "quantifier p =
    (if rre_peek p = 0x2A then ((0, -1), tl p)
     else if rre_peek p = 0x2B then ((1, -1), tl p)
     else if rre_peek p = 0x3F then ((0, 1), tl p)
     else if rre_peek p = 0x7B then (case braced_bounds (tl p) of Some r \<Rightarrow> r | None \<Rightarrow> ((1, 1), p))
     else ((1, 1), p))"

text \<open>An escape outside of a class.\<close>

definition parse_escape :: "utf8proc \<Rightarrow> u8 \<Rightarrow> bytes \<Rightarrow> (rre \<times> bytes) option" where
  "parse_escape up e q =
    (if e = 0x70 \<or> e = 0x50 then
       if rre_peek q \<noteq> 0x7B then None
       else (case property_name (tl q) of
               None \<Rightarrow> None
             | Some (name, q) \<Rightarrow>
                 (case (case rre_block_range name of
                          Some (lo, hi) \<Rightarrow> cls_add_block lo hi no_class
                        | None \<Rightarrow> if up = None then None else map_option (\<lambda>cats. set_cats cats False no_class) (rre_category_mask name)) of
                    None \<Rightarrow> None
                  | Some n \<Rightarrow> Some (Class (set_neg (e = 0x50) n), q)))
     else if is_builtin e then Some (Class (set_neg (is_upper e) (cls_add_builtin up (lower e) no_class)), q)
     else (case control_escape e of
             Some c \<Rightarrow> Some (Char c, q)
           | None \<Rightarrow> if c_alnum e then None else Some (Char e, q)))"

definition branch_end :: "bytes \<Rightarrow> bool" where
  "branch_end p \<longleftrightarrow> p = [] \<or> hd p = 0x7C \<or> hd p = 0x29"

lemma strtol_shorter: "strtol p = Some (v, q) \<Longrightarrow> length q \<le> length p"
proof -
  have "length (dropWhile c_digit (dropWhile c_space p)) \<le> length p" "length (dropWhile c_digit (tl (dropWhile c_space p))) \<le> length p"
    using length_dropWhile_le[of c_digit "dropWhile c_space p"] length_dropWhile_le[of c_digit "tl (dropWhile c_space p)"]
      length_dropWhile_le[of c_space p] by auto
  then show "strtol p = Some (v, q) \<Longrightarrow> length q \<le> length p" by (auto simp: strtol_def Let_def split: if_splits)
qed

lemma quantifier_shorter: "length (snd (quantifier p)) \<le> length p"
proof -
  have "length q \<le> length p" if b: "braced_bounds p = Some (r, q)" for p r q
  proof -
    obtain v s where s: "strtol p = Some (v, s)" using b by (auto simp: braced_bounds_def split: option.splits)
    have "q = tl s \<or> q = tl (tl s) \<or> (\<exists>w t. strtol (tl s) = Some (w, t) \<and> q = tl t)"
      using b s by (auto simp: braced_bounds_def Let_def split: option.splits if_splits)
    then show ?thesis using strtol_shorter[OF s] strtol_shorter[of "tl s"] by auto
  qed
  from this[of "tl p"] show ?thesis by (fastforce simp: quantifier_def split: option.split)
qed

lemma escape_shorter: "parse_escape up e q = Some (n, r) \<Longrightarrow> length r \<le> length q"
  using property_name_shorter[of "tl q"]
  by (fastforce simp: parse_escape_def split: if_splits option.splits)

function parse_alt :: "utf8proc \<Rightarrow> nat \<Rightarrow> bytes \<Rightarrow> (rre \<times> bytes) option"
  and parse_cat :: "utf8proc \<Rightarrow> nat \<Rightarrow> bytes \<Rightarrow> (rre \<times> bytes) option"
  and parse_piece :: "utf8proc \<Rightarrow> nat \<Rightarrow> bytes \<Rightarrow> (rre \<times> bytes) option"
  and parse_atom :: "utf8proc \<Rightarrow> nat \<Rightarrow> bytes \<Rightarrow> (rre \<times> bytes) option" where
  "parse_alt up depth p =
    (case parse_cat up depth p of
       None \<Rightarrow> None
     | Some (l, q) \<Rightarrow>
         if rre_peek q \<noteq> 0x7C then Some (l, q)
         else (case parse_alt up depth (tl q) of
                 None \<Rightarrow> None
               | Some (r, q) \<Rightarrow> Some (Alt l r, q)))"
| "parse_cat up depth p =
    (if branch_end p then Some (Empty, p)
     else (case parse_piece up depth p of
             None \<Rightarrow> None
           | Some (first, q) \<Rightarrow>
               if branch_end q then Some (first, q)
               else (case parse_cat up depth q of
                       None \<Rightarrow> None
                     | Some (rest, q) \<Rightarrow> Some (Cat first rest, q))))"
| "parse_piece up depth p =
    (case parse_atom up depth p of
       None \<Rightarrow> None
     | Some (a, q) \<Rightarrow>
         (case quantifier q of
            ((lo, hi), q) \<Rightarrow> Some (if lo = 1 \<and> hi = 1 then a else Rep a lo hi, q)))"
| "parse_atom up depth p =
    (case p of
       [] \<Rightarrow> None
     | c # q \<Rightarrow>
         if c = 0x5B then map_option (\<lambda>(n, q). (Class n, q)) (parse_class up q)
         else if c = 0x28 then
           if depth + 1 > 32 then None
           else (case parse_alt up (depth + 1) q of
                   None \<Rightarrow> None
                 | Some (g, q) \<Rightarrow> if rre_peek q = 0x29 then Some (g, tl q) else None)
         else if c = 0x5C \<and> q \<noteq> [] then parse_escape up (hd q) (tl q)
         else if c = 0x2E then Some (Dot, q)
         else if c \<notin> set (ascii ''*+?()[]|'') then Some (Char c, q)
         else None)"
  by pat_completeness auto
termination
proof -
  have shorter:
    "parse_alt_parse_cat_parse_piece_parse_atom_dom (Inl (Inl (up, depth, p))) \<Longrightarrow> parse_alt up depth p = Some (n, q) \<Longrightarrow> length q \<le> length p"
    "parse_alt_parse_cat_parse_piece_parse_atom_dom (Inl (Inr (up, depth, p))) \<Longrightarrow> parse_cat up depth p = Some (n, q) \<Longrightarrow> length q \<le> length p"
    "parse_alt_parse_cat_parse_piece_parse_atom_dom (Inr (Inl (up, depth, p))) \<Longrightarrow> parse_piece up depth p = Some (n, q) \<Longrightarrow> length q < length p"
    "parse_alt_parse_cat_parse_piece_parse_atom_dom (Inr (Inr (up, depth, p))) \<Longrightarrow> parse_atom up depth p = Some (n, q) \<Longrightarrow> length q < length p"
    for up depth p n q
  proof (induction up depth p and up depth p and up depth p and up depth p arbitrary: n q and n q and n q and n q
      rule: parse_alt_parse_cat_parse_piece_parse_atom.pinduct)
    case (1 up depth p)
    then show ?case
      by (force simp: parse_alt.psimps split: option.splits if_splits)
  next
    case (2 up depth p)
    then show ?case
      by (force simp: parse_cat.psimps split: option.splits if_splits)
  next
    case (3 up depth p)
    from "3.prems" "3.hyps" obtain a r where a: "parse_atom up depth p = Some (a, r)" "q = snd (quantifier r)"
      by (auto simp: parse_piece.psimps split: option.splits prod.splits)
    then show ?case using "3.IH"[OF a(1)] quantifier_shorter[of r] by simp
  next
    case (4 up depth p)
    note prems = "4.prems"[unfolded parse_atom.psimps[OF "4.hyps"]]
    then obtain c r where p: "p = c # r" by (cases p) auto
    show ?case
    proof (cases "c = 0x28")
      case True
      then obtain g t where g: "parse_alt up (depth + 1) r = Some (g, t)" "q = tl t" "\<not> depth + 1 > 32"
        using prems p by (auto split: option.splits if_splits)
      then show ?thesis using "4.IH"[OF p _ True g(3,1)] p by (auto simp: True)
    next
      case False
      have "length (tl r) \<le> length r" by simp
      then show ?thesis using prems p False
        by (auto dest!: parse_class_shorter(1) escape_shorter split: if_splits)
    qed
  qed
  show ?thesis
  proof (relation "measures [case_sum (case_sum (\<lambda>(up, d, p). length p) (\<lambda>(up, d, p). length p)) (case_sum (\<lambda>(up, d, p). length p) (\<lambda>(up, d, p). length p)),
      case_sum (case_sum (\<lambda>_. 3) (\<lambda>_. 2)) (case_sum (\<lambda>_. 1) (\<lambda>_. 0))]", goal_cases)
    case (3 up depth p x l q)
    then have "length q \<le> length p" "q \<noteq> []" by (auto simp: rre_peek_def intro: shorter(2))
    then show ?case by (cases q) auto
  next
    case (5 up depth p x first q)
    then have "length q < length p" by (auto intro: shorter(3))
    then show ?case by simp
  qed auto
qed

declare parse_alt.simps [simp del] parse_cat.simps [simp del] parse_piece.simps [simp del] parse_atom.simps [simp del]

section \<open>Entry points\<close>

definition parse_pattern :: "utf8proc \<Rightarrow> bytes \<Rightarrow> rre option" where
  "parse_pattern up pat = (case parse_alt up 0 pat of Some (n, []) \<Rightarrow> Some n | _ \<Rightarrow> None)"

definition rng_regex_supported :: "utf8proc \<Rightarrow> bytes option \<Rightarrow> bool" where
  "rng_regex_supported up pat =
    (case pat of None \<Rightarrow> False | Some pat \<Rightarrow> pat = [] \<or> parse_pattern up pat \<noteq> None)"

end
