(* ===== verification/RegexMatch.thy ===== *)
theory RegexMatch
  imports RegexParse
begin

text \<open>
  The matcher of \<open>rng/rng_regex.c\<close> with its continuations, and what its verdict means: \<open>takes\<close> is the
  declarative reading of an expression, as a relation between what is left of a text before and behind
  it. A match that is found is one; where the body of every repetition can be taken in one way only and
  never without a byte, every match is found.
\<close>

section \<open>Matcher\<close>

text \<open>
  The ends that the iterations of a repetition reach from \<open>e\<close> on, greedily. A further pointer into the
  same text is a shorter rest.
\<close>

function count_ends :: "(bytes \<Rightarrow> bytes option) \<Rightarrow> int \<Rightarrow> nat \<Rightarrow> bytes \<Rightarrow> bytes list" where
  "count_ends f hi cnt e =
    (if hi < 0 \<or> int cnt < hi then
       (case f e of
          None \<Rightarrow> []
        | Some r \<Rightarrow> if length r < length e then r # count_ends f hi (cnt + 1) r else [])
     else [])"
  by pat_completeness auto
termination
  by (relation "measure (\<lambda>(f, hi, cnt, e). length e)") auto

declare count_ends.simps [simp del]

lemma count_ends_cong [fundef_cong]:
  assumes "e = e'" "hi = hi'" "cnt = cnt'" "\<And>x. f x = g x"
  shows "count_ends f hi cnt e = count_ends g hi' cnt' e'"
proof -
  have "f = g" using assms(4) by auto
  then show ?thesis using assms by simp
qed

text \<open>The first answer, from the last end on, with at least \<open>lo\<close> iterations.\<close>

primrec first_hit :: "(bytes \<Rightarrow> bytes option) \<Rightarrow> bytes list \<Rightarrow> bytes option" where
  "first_hit f [] = None"
| "first_hit f (e # es) = (case f e of Some r \<Rightarrow> Some r | None \<Rightarrow> first_hit f es)"

lemma first_hit_cong [fundef_cong]:
  assumes "es = es'" "\<And>x. f x = g x"
  shows "first_hit f es = first_hit g es'"
proof -
  have "f = g" using assms(2) by auto
  then show ?thesis using assms(1) by simp
qed

text \<open>One character of a class: a byte, or a whole code point.\<close>

definition class_step :: "utf8proc \<Rightarrow> rre_class \<Rightarrow> bytes \<Rightarrow> bytes option" where
  "class_step up n s =
    (if s = [] then None
     else if hd s < 0x80 \<and> \<not> cat_set n \<and> subtract n = None \<and> negm n = None then
       if cls_has n (hd s) then Some (tl s) else None
     else (case rre_decode_cp s of (cp, len) \<Rightarrow> if cls_has_cp up n cp then Some (drop len s) else None))"

text \<open>Only the syntax gets smaller: the weight of the nodes that are left to match.\<close>

primrec weight :: "rre \<Rightarrow> nat" where
  "weight End = 1" | "weight (Char c) = 1" | "weight (Class n) = 1" | "weight Dot = 1" | "weight Empty = 1" | "weight (Minpos s) = 1"
| "weight (Cat l r) = weight l + weight r + 1"
| "weight (Alt l r) = weight l + weight r + 1"
| "weight (Rep l lo hi) = weight l + 3"

lemma weight_pos: "0 < weight n"
  by (cases n) simp_all

function rre_match :: "utf8proc \<Rightarrow> rre \<Rightarrow> bytes \<Rightarrow> rre list \<Rightarrow> bytes option"
  and rre_run :: "utf8proc \<Rightarrow> rre list \<Rightarrow> bytes \<Rightarrow> bytes option" where
  "rre_match up Empty s k = rre_run up k s"
| "rre_match up (Minpos start) s k = (if s \<noteq> start then rre_run up k s else None)"
| "rre_match up End s k = (if s = [] then rre_run up k s else None)"
| "rre_match up (Char c) s k = (if s \<noteq> [] \<and> hd s = c then rre_run up k (tl s) else None)"
| "rre_match up Dot s k = (if s \<noteq> [] then rre_run up k (tl s) else None)"
| "rre_match up (Class n) s k = (case class_step up n s of None \<Rightarrow> None | Some r \<Rightarrow> rre_run up k r)"
| "rre_match up (Alt l r) s k = (case rre_match up l s k of Some e \<Rightarrow> Some e | None \<Rightarrow> rre_match up r s k)"
| "rre_match up (Cat l r) s k = rre_match up l s (r # k)"
| "rre_match up (Rep l lo hi) s k =
    (let ends = s # count_ends (\<lambda>e. rre_match up l e [Minpos e]) hi 0 s in
     first_hit (rre_run up k) (rev (drop (nat lo) ends)))"
| "rre_run up [] s = Some s"
| "rre_run up (n # k) s = rre_match up n s k"
  by pat_completeness auto

termination
  by (relation "measures [case_sum (\<lambda>(up, n, s, k). weight n + sum_list (map weight k)) (\<lambda>(up, k, s). sum_list (map weight k)),
      case_sum (\<lambda>_. 0) (\<lambda>_. 1)]") (auto simp: weight_pos)

text \<open>An empty pattern matches the empty text only; a pattern that does not parse matches nothing.\<close>

definition rng_regex_matches :: "utf8proc \<Rightarrow> bytes option \<Rightarrow> bytes option \<Rightarrow> bool" where
  "rng_regex_matches up pat value =
    (case (pat, value) of
       (Some pat, Some t) \<Rightarrow>
         if pat = [] then t = []
         else (case parse_pattern up pat of None \<Rightarrow> False | Some n \<Rightarrow> rre_match up n t [End] \<noteq> None)
     | _ \<Rightarrow> False)"

section \<open>What an expression takes\<close>

primrec takes :: "utf8proc \<Rightarrow> rre \<Rightarrow> bytes \<Rightarrow> bytes \<Rightarrow> bool" where
  "takes up End s r \<longleftrightarrow> s = [] \<and> r = []"
| "takes up (Char c) s r \<longleftrightarrow> s = c # r"
| "takes up (Class n) s r \<longleftrightarrow> class_step up n s = Some r"
| "takes up Dot s r \<longleftrightarrow> (\<exists>c. s = c # r)"
| "takes up (Cat l n) s r \<longleftrightarrow> (\<exists>m. takes up l s m \<and> takes up n m r)"
| "takes up (Alt l n) s r \<longleftrightarrow> takes up l s r \<or> takes up n s r"
| "takes up (Rep l lo hi) s r \<longleftrightarrow> (\<exists>j. lo \<le> int j \<and> (hi < 0 \<or> int j \<le> hi) \<and> (takes up l ^^ j) s r)"
| "takes up Empty s r \<longleftrightarrow> r = s"
| "takes up (Minpos start) s r \<longleftrightarrow> s \<noteq> start \<and> r = s"

primrec takes_all :: "utf8proc \<Rightarrow> rre list \<Rightarrow> bytes \<Rightarrow> bytes \<Rightarrow> bool" where
  "takes_all up [] s r \<longleftrightarrow> r = s"
| "takes_all up (n # k) s r \<longleftrightarrow> (\<exists>m. takes up n s m \<and> takes_all up k m r)"

section \<open>Matches are matches\<close>

lemma count_ends_step:
  assumes "i < length (count_ends f hi cnt e)"
  shows "f ((e # count_ends f hi cnt e) ! i) = Some (count_ends f hi cnt e ! i)
    \<and> length (count_ends f hi cnt e ! i) < length ((e # count_ends f hi cnt e) ! i)
    \<and> (hi < 0 \<or> int cnt + int i < hi)"
  using assms
proof (induction f hi cnt e arbitrary: i rule: count_ends.induct)
  case (1 f hi cnt e)
  then obtain r where r: "f e = Some r" "length r < length e" "hi < 0 \<or> int cnt < hi"
    "count_ends f hi cnt e = r # count_ends f hi (cnt + 1) r"
    by (subst (asm) (3) count_ends.simps) (auto simp: count_ends.simps[of f hi cnt e] split: if_splits option.splits)
  show ?case
  proof (cases i)
    case 0
    then show ?thesis using r by simp
  next
    case (Suc j)
    then show ?thesis using 1(1)[OF r(3,1,2), of j] 1(2) r by auto
  qed
qed

lemma first_hit_Some: "first_hit f es = Some r \<Longrightarrow> \<exists>e \<in> set es. f e = Some r"
  by (induction es) (auto split: option.splits)

lemma first_hit_None: "first_hit f es = None \<longleftrightarrow> (\<forall>e \<in> set es. f e = None)"
  by (induction es) (auto split: option.split)

abbreviation rep_ends :: "(bytes \<Rightarrow> bytes option) \<Rightarrow> int \<Rightarrow> bytes \<Rightarrow> bytes list" where
  "rep_ends f hi s \<equiv> s # count_ends f hi 0 s"

lemma ends_taken:
  assumes step: "\<And>e r. f e = Some r \<Longrightarrow> R e r" and i: "i < length (rep_ends f hi s)"
  shows "(R ^^ i) s (rep_ends f hi s ! i) \<and> (i = 0 \<or> hi < 0 \<or> int i \<le> hi)"
  using i
proof (induction i)
  case 0
  then show ?case by simp
next
  case (Suc i)
  then have "i < length (count_ends f hi 0 s)" by simp
  from count_ends_step[OF this] have "R (rep_ends f hi s ! i) (rep_ends f hi s ! Suc i)" "hi < 0 \<or> int (Suc i) \<le> hi"
    using step by auto
  then show ?case using Suc by auto
qed

text \<open>The bounds of a repetition, as the parser makes them.\<close>

primrec bounds_ok :: "rre \<Rightarrow> bool" where
  "bounds_ok End \<longleftrightarrow> True" | "bounds_ok (Char c) \<longleftrightarrow> True" | "bounds_ok (Class n) \<longleftrightarrow> True" | "bounds_ok Dot \<longleftrightarrow> True"
| "bounds_ok Empty \<longleftrightarrow> True" | "bounds_ok (Minpos s) \<longleftrightarrow> True"
| "bounds_ok (Cat l r) \<longleftrightarrow> bounds_ok l \<and> bounds_ok r"
| "bounds_ok (Alt l r) \<longleftrightarrow> bounds_ok l \<and> bounds_ok r"
| "bounds_ok (Rep l lo hi) \<longleftrightarrow> bounds_ok l \<and> 0 \<le> lo \<and> (hi < 0 \<or> lo \<le> hi)"

lemma match_sound:
  "rre_match up n s k = Some r \<Longrightarrow> bounds_ok n \<Longrightarrow> list_all bounds_ok k \<Longrightarrow> \<exists>m. takes up n s m \<and> takes_all up k m r"
  "rre_run up k s = Some r \<Longrightarrow> list_all bounds_ok k \<Longrightarrow> takes_all up k s r"
proof (induction up n s k and up k s arbitrary: r and r rule: rre_match_rre_run.induct)
  case (4 up c s k)
  then show ?case by (cases s) (auto split: if_splits)
next
  case (5 up s k)
  then show ?case by (cases s) auto
next
  case (9 up l lo hi s k)
  let ?f = "\<lambda>e. rre_match up l e [Minpos e]"
  obtain e where e: "e \<in> set (drop (nat lo) (rep_ends ?f hi s))" "rre_run up k e = Some r"
    using first_hit_Some "9.prems"(1) by (fastforce simp: Let_def)
  have l: "takes up l e r" if "?f e = Some r" for e r using "9.IH"(1)[OF that] "9.prems"(2) by auto
  have t: "(takes up l ^^ i) s (rep_ends ?f hi s ! i) \<and> (i = 0 \<or> hi < 0 \<or> int i \<le> hi)"
    if "i < length (rep_ends ?f hi s)" for i
    by (rule ends_taken[OF _ that]) (rule l)
  obtain j where j: "j < length (drop (nat lo) (rep_ends ?f hi s))" "drop (nat lo) (rep_ends ?f hi s) ! j = e"
    using e(1) by (auto simp: in_set_conv_nth)
  define i where "i = nat lo + j"
  have i: "i < length (rep_ends ?f hi s)" "rep_ends ?f hi s ! i = e" "lo \<le> int i"
    using j by (auto simp: i_def)
  have "takes up (Rep l lo hi) s e" using t[OF i(1)] i "9.prems"(2) by auto
  moreover have "takes_all up k e r" using "9.IH"(2)[OF refl e(2)] "9.prems"(3) by auto
  ultimately show ?case by blast
qed (auto split: if_splits option.splits)

section \<open>Every match is found\<close>

lemma class_step_suffix:
  assumes "class_step up n s = Some r"
  shows "\<exists>p. p \<noteq> [] \<and> s = p @ r"
proof -
  have "0 < snd (rre_decode_cp s)" unfolding rre_decode_cp_def Let_def by (simp split: prod.splits if_splits)
  then obtain k where "0 < k" "r = drop k s" "s \<noteq> []"
    using assms by (cases s) (auto simp: class_step_def split: if_splits prod.splits intro: that[of 1])
  then show ?thesis by (intro exI[of _ "take k s"]) auto
qed

lemma takes_suffix: "takes up n s r \<Longrightarrow> \<exists>p. s = p @ r"
proof (induction n arbitrary: s r)
  case (Cat l n)
  then obtain m where "takes up l s m" "takes up n m r" by auto
  then show ?case using Cat.IH(1)[of s m] Cat.IH(2)[of m r] by auto
next
  case (Rep l lo hi)
  have "(takes up l ^^ j) s r \<Longrightarrow> \<exists>p. s = p @ r" for j
  proof (induction j arbitrary: r)
    case (Suc j)
    then obtain m where "(takes up l ^^ j) s m" "takes up l m r" by auto
    then show ?case using Suc.IH[of m] Rep.IH[of m r] by auto
  qed auto
  then show ?case using Rep.prems by auto
qed (auto dest: class_step_suffix)

text \<open>The number of bytes that an expression takes, where it always is the same.\<close>

primrec width :: "rre \<Rightarrow> nat option" where
  "width End = None" | "width (Char c) = Some 1" | "width (Class n) = None" | "width Dot = Some 1"
| "width Empty = Some 0" | "width (Minpos s) = None"
| "width (Cat l r) = (case (width l, width r) of (Some v, Some w) \<Rightarrow> Some (v + w) | _ \<Rightarrow> None)"
| "width (Alt l r) = (if width l = width r then width l else None)"
| "width (Rep l lo hi) = (if lo = hi \<and> 0 \<le> lo then map_option (\<lambda>w. nat lo * w) (width l) else None)"

lemma width_taken: "takes up n s r \<Longrightarrow> width n = Some w \<Longrightarrow> length s = w + length r"
proof (induction n arbitrary: s r w)
  case (Cat l n)
  then show ?case by (fastforce split: option.splits)
next
  case (Rep l lo hi)
  then obtain v where v: "width l = Some v" "w = nat lo * v" "lo = hi" "0 \<le> lo" by (auto split: if_splits)
  have "(takes up l ^^ j) s r \<Longrightarrow> length s = j * v + length r" for j
  proof (induction j arbitrary: r)
    case (Suc j)
    then obtain m where "(takes up l ^^ j) s m" "takes up l m r" by auto
    then show ?case using Suc.IH[of m] Rep.IH[of m r v] v(1) by auto
  qed auto
  moreover obtain j where "(takes up l ^^ j) s r" "int j = lo" using Rep.prems(1) v(3,4) by auto
  ultimately show ?case using v(2) by auto
qed (auto split: if_splits)

primrec first_byte :: "rre \<Rightarrow> u8 option" where
  "first_byte End = None" | "first_byte (Char c) = Some c" | "first_byte (Class n) = None" | "first_byte Dot = None"
| "first_byte Empty = None" | "first_byte (Minpos s) = None"
| "first_byte (Cat l r) = first_byte l"
| "first_byte (Alt l r) = None"
| "first_byte (Rep l lo hi) = None"

lemma first_byte_taken: "takes up n s r \<Longrightarrow> first_byte n = Some c \<Longrightarrow> \<exists>t. s = c # t"
  by (induction n arbitrary: s r) auto

text \<open>
  A sufficient condition that an expression can be taken in one way only: its alternatives have the
  same width or start with different bytes, and its repetitions have a fixed number.
\<close>

primrec steady :: "rre \<Rightarrow> bool" where
  "steady End \<longleftrightarrow> False" | "steady (Char c) \<longleftrightarrow> True" | "steady (Class n) \<longleftrightarrow> True" | "steady Dot \<longleftrightarrow> True"
| "steady Empty \<longleftrightarrow> False" | "steady (Minpos s) \<longleftrightarrow> False"
| "steady (Cat l r) \<longleftrightarrow> steady l \<and> steady r"
| "steady (Alt l r) \<longleftrightarrow> (width l = width r \<and> width l \<noteq> None \<and> width l \<noteq> Some 0)
    \<or> (steady l \<and> steady r \<and> first_byte l \<noteq> None \<and> first_byte r \<noteq> None \<and> first_byte l \<noteq> first_byte r)"
| "steady (Rep l lo hi) \<longleftrightarrow> steady l \<and> lo = hi \<and> 0 < lo"

lemma same_width: "takes up n s r \<Longrightarrow> width n = Some w \<Longrightarrow> r = drop w s"
  using takes_suffix[of up n s r] width_taken[of up n s r w] by auto

lemma pow_shorter:
  fixes R :: "bytes \<Rightarrow> bytes \<Rightarrow> bool"
  assumes "\<And>e r. R e r \<Longrightarrow> length r < length e"
  shows "(R ^^ j) s r \<Longrightarrow> 0 < j \<Longrightarrow> length r < length s"
proof (induction j arbitrary: r)
  case (Suc j)
  then obtain m where m: "(R ^^ j) s m" "R m r" by auto
  then have "length m \<le> length s" using Suc.IH[OF m(1)] by (cases "j = 0") auto
  then show ?case using assms[OF m(2)] by simp
qed simp

lemma pow_functional:
  fixes R :: "bytes \<Rightarrow> bytes \<Rightarrow> bool"
  assumes "\<And>e r r'. R e r \<Longrightarrow> R e r' \<Longrightarrow> r' = r"
  shows "(R ^^ j) s r \<Longrightarrow> (R ^^ j) s r' \<Longrightarrow> r' = r"
proof (induction j arbitrary: r r')
  case (Suc j)
  then obtain m m' where "(R ^^ j) s m" "R m r" "(R ^^ j) s m'" "R m' r'" by auto
  then show ?case using Suc.IH assms by blast
qed auto

lemma steady_taken:
  assumes "steady n" "takes up n s r"
  shows "length r < length s \<and> (\<forall>r'. takes up n s r' \<longrightarrow> r' = r)"
  using assms
proof (induction n arbitrary: s r)
  case (Class c)
  then show ?case using class_step_suffix[of up c s r] by (fastforce simp: neq_Nil_conv)
next
  case (Cat l n)
  then obtain m where m: "takes up l s m" "takes up n m r" "steady l" "steady n" by auto
  note l = Cat.IH(1)[OF m(3,1)] and r = Cat.IH(2)[OF m(4,2)]
  have "length r < length s" using l r by linarith
  moreover have "r' = r" if "takes up (Cat l n) s r'" for r' using that l r by (metis takes.simps(5))
  ultimately show ?case by blast
next
  case (Alt l n)
  show ?case
  proof (cases "width l = width n \<and> width l \<noteq> None \<and> width l \<noteq> Some 0")
    case True
    then obtain w where "width l = Some w" by blast
    then have w: "width (Alt l n) = Some w" "0 < w" using True by auto
    have "length r < length s" using width_taken[OF Alt.prems(2) w(1)] w(2) by linarith
    then show ?thesis using same_width[OF _ w(1), of up s] Alt.prems(2) by metis
  next
    case False
    then have f: "steady l" "steady n" "first_byte l \<noteq> None" "first_byte n \<noteq> None" "first_byte l \<noteq> first_byte n"
      using Alt.prems(1) by auto
    have "\<not> (takes up l s r \<and> takes up n s r')" for r r'
      using f(3-5) first_byte_taken[of up l s r] first_byte_taken[of up n s r'] by auto
    then show ?thesis using Alt.prems(2) Alt.IH(1)[OF f(1), of s r] Alt.IH(2)[OF f(2), of s r] by (metis takes.simps(6))
  qed
next
  case (Rep l lo hi)
  then have l: "steady l" "lo = hi" "0 < lo" by simp_all
  have less: "takes up l e r \<Longrightarrow> length r < length e" and fn: "takes up l e r \<Longrightarrow> takes up l e r' \<Longrightarrow> r' = r" for e r r'
    using Rep.IH[OF l(1), of e r] by blast+
  have "takes up (Rep l lo hi) s r' \<longleftrightarrow> (\<exists>j. j = nat lo \<and> (takes up l ^^ j) s r')" for r'
    unfolding takes.simps using l by (intro ex_cong1) auto
  then have t: "takes up (Rep l lo hi) s r' \<longleftrightarrow> (takes up l ^^ nat lo) s r'" for r' by simp
  have p: "(takes up l ^^ nat lo) s r" using Rep.prems(2) unfolding t .
  have "length r < length s" by (rule pow_shorter[OF less p]) (use l(3) in auto)
  moreover have "r' = r" if "(takes up l ^^ nat lo) s r'" for r' by (rule pow_functional[OF fn p that])
  ultimately show ?case unfolding t by blast
qed auto

primrec steady_reps :: "rre \<Rightarrow> bool" where
  "steady_reps End \<longleftrightarrow> True" | "steady_reps (Char c) \<longleftrightarrow> True" | "steady_reps (Class n) \<longleftrightarrow> True" | "steady_reps Dot \<longleftrightarrow> True"
| "steady_reps Empty \<longleftrightarrow> True" | "steady_reps (Minpos s) \<longleftrightarrow> True"
| "steady_reps (Cat l r) \<longleftrightarrow> steady_reps l \<and> steady_reps r"
| "steady_reps (Alt l r) \<longleftrightarrow> steady_reps l \<and> steady_reps r"
| "steady_reps (Rep l lo hi) \<longleftrightarrow> steady l \<and> steady_reps l \<and> 0 \<le> lo \<and> (hi < 0 \<or> lo \<le> hi)"

lemma steady_bounds: "steady_reps n \<Longrightarrow> bounds_ok n"
  by (induction n) auto

lemma ends_reached:
  assumes step: "\<And>e r. f e = Some r \<longleftrightarrow> R e r" and less: "\<And>e r. R e r \<Longrightarrow> length r < length e"
  shows "(R ^^ j) e m \<Longrightarrow> hi < 0 \<or> int cnt + int j \<le> hi \<Longrightarrow>
    j < length (e # count_ends f hi cnt e) \<and> (e # count_ends f hi cnt e) ! j = m"
proof (induction j arbitrary: e cnt)
  case 0
  then show ?case by simp
next
  case (Suc j)
  obtain r where r: "R e r" "(R ^^ j) r m" using relpowp_Suc_D2[OF Suc.prems(1)] by blast
  have c: "count_ends f hi cnt e = r # count_ends f hi (cnt + 1) r"
    using r(1) less[OF r(1)] Suc.prems(2) by (subst count_ends.simps) (auto simp: step[symmetric])
  have "hi < 0 \<or> int (cnt + 1) + int j \<le> hi" using Suc.prems(2) by auto
  from Suc.IH[OF r(2) this] show ?case unfolding c by simp
qed

lemma match_complete:
  "steady_reps n \<Longrightarrow> list_all steady_reps k \<Longrightarrow> takes up n s m \<Longrightarrow> takes_all up k m r \<Longrightarrow> rre_match up n s k \<noteq> None"
  "list_all steady_reps k \<Longrightarrow> takes_all up k s r \<Longrightarrow> rre_run up k s \<noteq> None"
proof (induction up n s k and up k s arbitrary: m r and r rule: rre_match_rre_run.induct)
  case (7 up l n s k)
  then show ?case by (auto split: option.splits) blast
next
  case (8 up l n s k)
  then show ?case by fastforce
next
  case (9 up l lo hi s k)
  let ?f = "\<lambda>e. rre_match up l e [Minpos e]"
  have l: "steady l" "steady_reps l" "0 \<le> lo" using "9.prems"(1) by simp_all
  have snd: "takes up l e r" if "?f e = Some r" for e r
    using match_sound(1)[OF that steady_bounds[OF l(2)]] by auto
  have "?f e = Some r" if t: "takes up l e r" for e r
  proof -
    have "r \<noteq> e" using steady_taken[OF l(1) t] by auto
    then have "?f e \<noteq> None" using "9.IH"(1)[OF l(2) _ t, of r] by simp
    then show ?thesis using snd[of e] steady_taken[OF l(1) t] by auto
  qed
  then have step: "?f e = Some r \<longleftrightarrow> takes up l e r" for e r using snd by blast
  obtain j where j: "lo \<le> int j" "hi < 0 \<or> int j \<le> hi" "(takes up l ^^ j) s m" using "9.prems"(3) by auto
  have e: "j < length (rep_ends ?f hi s)" "rep_ends ?f hi s ! j = m"
    using ends_reached[where f = ?f and cnt = 0 and hi = hi, OF step steady_taken[OF l(1), THEN conjunct1] j(3)] j(2) by auto
  then have "drop (nat lo) (rep_ends ?f hi s) ! (j - nat lo) = m" "j - nat lo < length (drop (nat lo) (rep_ends ?f hi s))"
    using j(1) by auto
  then have "m \<in> set (drop (nat lo) (rep_ends ?f hi s))" using nth_mem by blast
  moreover have "rre_run up k m \<noteq> None" using "9.IH"(2)[OF refl "9.prems"(2,4)] .
  ultimately have "first_hit (rre_run up k) (rev (drop (nat lo) (rep_ends ?f hi s))) \<noteq> None"
    unfolding first_hit_None by (metis set_rev)
  then show ?case by (simp add: Let_def)
qed (auto split: if_splits option.splits)

section \<open>The verdict\<close>

lemma quantifier_bounds: "quantifier p = ((lo, hi), q) \<Longrightarrow> 0 \<le> lo \<and> (hi < 0 \<or> lo \<le> hi)"
proof -
  have "0 \<le> lo \<and> (hi < 0 \<or> lo \<le> hi)" if "braced_bounds p = Some ((lo, hi), q)" for p
    using that by (auto simp: braced_bounds_def Let_def split: option.splits prod.splits if_splits)
  then show "quantifier p = ((lo, hi), q) \<Longrightarrow> 0 \<le> lo \<and> (hi < 0 \<or> lo \<le> hi)"
    by (auto simp: quantifier_def split: if_splits option.splits)
qed

lemma escape_bounds: "parse_escape up e q = Some (n, r) \<Longrightarrow> bounds_ok n"
  by (auto simp: parse_escape_def split: if_splits option.splits)

lemma parse_bounds:
  "parse_alt up depth p = Some (n, q) \<Longrightarrow> bounds_ok n"
  "parse_cat up depth p = Some (n, q) \<Longrightarrow> bounds_ok n"
  "parse_piece up depth p = Some (n, q) \<Longrightarrow> bounds_ok n"
  "parse_atom up depth p = Some (n, q) \<Longrightarrow> bounds_ok n"
proof (induction up depth p and up depth p and up depth p and up depth p arbitrary: n q and n q and n q and n q
    rule: parse_alt_parse_cat_parse_piece_parse_atom.induct)
  case (1 up depth p)
  then show ?case by (fastforce simp: parse_alt.simps[of up depth p] split: option.splits if_splits)
next
  case (2 up depth p)
  then show ?case by (fastforce simp: parse_cat.simps[of up depth p] split: option.splits if_splits)
next
  case (3 up depth p)
  from "3.prems" obtain a r where a: "parse_atom up depth p = Some (a, r)" by (auto simp: parse_piece.simps split: option.splits)
  obtain lo hi s where l: "quantifier r = ((lo, hi), s)" by (metis surj_pair)
  show ?case using "3.prems" "3.IH"[OF a] quantifier_bounds[OF l] a l by (auto simp: parse_piece.simps split: if_splits)
next
  case (4 up depth p)
  then show ?case
    by (fastforce simp: parse_atom.simps[of up depth p] dest: escape_bounds split: option.splits if_splits list.splits)
qed

lemma pattern_bounds: "parse_pattern up pat = Some n \<Longrightarrow> bounds_ok n"
  by (auto simp: parse_pattern_def dest: parse_bounds(1) split: option.splits list.splits)

text \<open>
  C36. A match that is reported is one: a text that matches a pattern is taken whole, from its first to
  its last byte, by the expression the pattern was parsed to, whatever the order of the trials.
\<close>

theorem regex_match_sound:
  assumes "rng_regex_matches up (Some pat) (Some t)" "parse_pattern up pat = Some n" "pat \<noteq> []"
  shows "takes up n t []"
proof -
  obtain r where "rre_match up n t [End] = Some r" using assms by (auto simp: rng_regex_matches_def)
  from match_sound(1)[OF this pattern_bounds[OF assms(2)]] show ?thesis by auto
qed

theorem regex_match_sound_witness:
  "takes None (Cat (Alt (Char 0x61) (Char 0x62)) (Rep (Char 0x63) 0 (-1))) (ascii ''bcc'') []"
proof (rule regex_match_sound)
  show "rng_regex_matches None (Some (ascii ''(a|b)c*'')) (Some (ascii ''bcc''))" by code_simp
  show "parse_pattern None (ascii ''(a|b)c*'') = Some (Cat (Alt (Char 0x61) (Char 0x62)) (Rep (Char 0x63) 0 (-1)))" by code_simp
qed (simp add: ascii_def)

lemma match_exact:
  assumes "parse_pattern up pat = Some n" "steady_reps n" "pat \<noteq> []"
  shows "rng_regex_matches up (Some pat) (Some t) \<longleftrightarrow> takes up n t []"
proof -
  have "rre_match up n t [End] \<noteq> None \<longleftrightarrow> takes up n t []"
    using match_sound(1)[OF _ steady_bounds[OF assms(2)], of up t "[End]"] match_complete(1)[OF assms(2), of "[End]" up t "[]" "[]"]
    by fastforce
  then show ?thesis using assms by (simp add: rng_regex_matches_def)
qed

end
