(* ===== verification/RegexRoundtrip.thy ===== *)
theory RegexRoundtrip
  imports RegexMatch Automata
begin

text \<open>
  Patterns as they are written: a syntax tree with its printed form, which the parser of
  \<open>rng/rng_regex.c\<close> reads back, and its language over ASCII texts, which the matcher decides where the
  repetitions are steady. What the matcher misses beyond that is shown on patterns that it rejects.
\<close>

section \<open>Syntax trees and their printed form\<close>

text \<open>A literal byte, any byte, a class escape such as \<open>\d\<close>, a class of bytes and ranges, and the operators.\<close>

datatype rx_item = One u8 | Span u8 u8

datatype rx =
    Lit u8 | Any | Esc u8 | Set_of bool "rx_item list" | Seq rx rx | Or rx rx | Many rx nat "nat option" | Nothing

definition special :: "u8 set" where
  "special = {0x5C} \<union> set (ascii ''*+?()[]|.{}'')"

definition print_lit :: "u8 \<Rightarrow> bytes" where
  "print_lit c = (if c \<in> special then [0x5C, c] else [c])"

fun print_item :: "rx_item \<Rightarrow> bytes" where
  "print_item (One c) = [c]"
| "print_item (Span lo hi) = [lo, 0x2D, hi]"

fun print_nat :: "nat \<Rightarrow> bytes" where
  "print_nat n = (if n < 10 then [0x30 + word_of_nat n] else print_nat (n div 10) @ [0x30 + word_of_nat (n mod 10)])"

declare print_nat.simps [simp del]

definition print_bounds :: "nat \<Rightarrow> nat option \<Rightarrow> bytes" where
  "print_bounds lo hi =
    (case hi of
       None \<Rightarrow> if lo = 0 then ascii ''*'' else if lo = 1 then ascii ''+'' else [0x7B] @ print_nat lo @ ascii '',}''
     | Some h \<Rightarrow>
         if lo = 0 \<and> h = 1 then ascii ''?'' else if h = lo then [0x7B] @ print_nat lo @ [0x7D]
         else [0x7B] @ print_nat lo @ [0x2C] @ print_nat h @ [0x7D])"

text \<open>Levels: 0 for an alternative, 1 for a sequence, 2 for a piece, 3 for an atom.\<close>

definition paren :: "bool \<Rightarrow> bytes \<Rightarrow> bytes" where
  "paren b p = (if b then [0x28] @ p @ [0x29] else p)"

primrec print_rx :: "rx \<Rightarrow> nat \<Rightarrow> bytes" where
  "print_rx (Lit c) l = print_lit c"
| "print_rx Any l = [0x2E]"
| "print_rx (Esc e) l = [0x5C, e]"
| "print_rx (Set_of ng items) l = [0x5B] @ (if ng then [0x5E] else []) @ concat (map print_item items) @ [0x5D]"
| "print_rx (Seq a b) l = paren (l > 1) (print_rx a 2 @ print_rx b 1)"
| "print_rx (Or a b) l = paren (l > 0) (print_rx a 1 @ [0x7C] @ print_rx b 0)"
| "print_rx (Many a lo hi) l = paren (l > 2) (print_rx a 3 @ print_bounds lo hi)"
| "print_rx Nothing l = paren (l > 1) []"

text \<open>The depth of the parentheses.\<close>

primrec nesting :: "rx \<Rightarrow> nat \<Rightarrow> nat" where
  "nesting (Lit c) l = 0"
| "nesting Any l = 0"
| "nesting (Esc e) l = 0"
| "nesting (Set_of ng items) l = 0"
| "nesting (Seq a b) l = max (nesting a 2) (nesting b 1) + (if l > 1 then 1 else 0)"
| "nesting (Or a b) l = max (nesting a 1) (nesting b 0) + (if l > 0 then 1 else 0)"
| "nesting (Many a lo hi) l = nesting a 3 + (if l > 2 then 1 else 0)"
| "nesting Nothing l = (if l > 1 then 1 else 0)"

definition plain :: "u8 \<Rightarrow> bool" where
  "plain c \<longleftrightarrow> 0 < c \<and> c < 0x80 \<and> c \<notin> set (ascii ''][-^'') \<union> {0x5C}"

fun item_ok :: "rx_item \<Rightarrow> bool" where
  "item_ok (One c) \<longleftrightarrow> plain c"
| "item_ok (Span lo hi) \<longleftrightarrow> plain lo \<and> plain hi \<and> lo \<le> hi"

primrec rx_ok :: "rx \<Rightarrow> bool" where
  "rx_ok (Lit c) \<longleftrightarrow> 0 < c \<and> c < 0x80"
| "rx_ok Any \<longleftrightarrow> True"
| "rx_ok (Esc e) \<longleftrightarrow> is_builtin e"
| "rx_ok (Set_of ng items) \<longleftrightarrow> items \<noteq> [] \<and> list_all item_ok items"
| "rx_ok (Seq a b) \<longleftrightarrow> rx_ok a \<and> rx_ok b \<and> b \<noteq> Nothing"
| "rx_ok (Or a b) \<longleftrightarrow> rx_ok a \<and> rx_ok b"
| "rx_ok (Many a lo hi) \<longleftrightarrow> rx_ok a \<and> lo < 2 ^ 31 \<and> (case hi of None \<Rightarrow> True | Some h \<Rightarrow> lo \<le> h \<and> h < 2 ^ 31)"
| "rx_ok Nothing \<longleftrightarrow> True"

fun add_item :: "rx_item \<Rightarrow> rre_class \<Rightarrow> rre_class" where
  "add_item (One c) = cls_add {c}"
| "add_item (Span lo hi) = cls_add (byte_range lo hi)"

definition item_class :: "bool \<Rightarrow> rx_item list \<Rightarrow> rre_class" where
  "item_class ng items = fold add_item items (if ng then set_neg True no_class else no_class)"

definition escape_class :: "utf8proc \<Rightarrow> u8 \<Rightarrow> rre_class" where
  "escape_class up e = set_neg (is_upper e) (cls_add_builtin up (lower e) no_class)"

primrec to_rre :: "utf8proc \<Rightarrow> rx \<Rightarrow> rre" where
  "to_rre up (Lit c) = Char c"
| "to_rre up Any = Dot"
| "to_rre up (Esc e) = Class (escape_class up e)"
| "to_rre up (Set_of ng items) = Class (item_class ng items)"
| "to_rre up (Seq a b) = Cat (to_rre up a) (to_rre up b)"
| "to_rre up (Or a b) = Alt (to_rre up a) (to_rre up b)"
| "to_rre up (Many a lo hi) =
    (if lo = 1 \<and> hi = Some 1 then to_rre up a
     else Rep (to_rre up a) (int lo) (case hi of None \<Rightarrow> -1 | Some h \<Rightarrow> int h))"
| "to_rre up Nothing = Empty"

section \<open>Reading numbers back\<close>

lemma print_nat_digits: "list_all c_digit (print_nat n) \<and> print_nat n \<noteq> []
  \<and> fold (\<lambda>c v. 10 * v + (int (unat c) - 48)) (print_nat n) 0 = int n"
proof (induction n rule: print_nat.induct)
  case (1 n)
  have d: "unat (0x30 + word_of_nat k :: u8) = 48 + k" if "k < 10" for k
    using that by (simp add: unat_word_ariths unat_of_nat)
  have u: "uint (0x30 + word_of_nat k :: u8) = 48 + int k" if "k < 10" for k
    using d[OF that] by (metis of_nat_add of_nat_numeral of_nat_unat)
  have c: "c_digit (0x30 + word_of_nat k)" if "k < 10" for k
    using that d[OF that] by (simp add: c_digit_def word_le_nat_alt)
  show ?case
  proof (cases "n < 10")
    case True
    then show ?thesis using u c by (simp add: print_nat.simps[of n])
  next
    case False
    have "10 * int (n div 10) + int (n mod 10) = int n" by (metis mult_div_mod_eq of_nat_add of_nat_mult of_nat_numeral)
    then show ?thesis using False 1 u[of "n mod 10"] c[of "n mod 10"] by (subst (1 2 3) print_nat.simps) simp
  qed
qed

lemma strtol_print:
  assumes "n < 2 ^ 31" "q \<noteq> []" "\<not> c_digit (hd q)"
  shows "strtol (print_nat n @ q) = Some (int n, q)"
proof -
  note d = print_nat_digits[of n]
  obtain c cs where c: "print_nat n = c # cs" "c_digit c" using d by (cases "print_nat n") auto
  then have h: "\<not> c_space c" "c \<noteq> 0x2D" "c \<noteq> 0x2B" by (auto simp: c_digit_def c_space_def word_le_nat_alt)
  have s: "dropWhile c_space (print_nat n @ q) = print_nat n @ q" "rre_peek (print_nat n @ q) = c" using c(1) h by (simp_all add: rre_peek_def)
  have t: "takeWhile c_digit (print_nat n @ q) = print_nat n" "dropWhile c_digit (print_nat n @ q) = q"
    using d assms(2,3) by (cases q; simp add: takeWhile_append dropWhile_append list_all_iff)+
  have "int n < 2 ^ 31" using assms(1) by simp
  then show ?thesis using d h unfolding strtol_def s t by (simp add: s t Let_def)
qed

lemma c_int_small: "n < 2 ^ 31 \<Longrightarrow> c_int (int n) = int n"
  unfolding c_int_def signed_of_int by (simp add: signed_take_bit_int_eq_self)

lemma braced_one: "n < 2 ^ 31 \<Longrightarrow> braced_bounds (print_nat n @ 0x7D # q) = Some ((int n, int n), q)"
  by (simp add: braced_bounds_def strtol_print c_int_small rre_peek_def Let_def c_digit_def)

lemma braced_open: "n < 2 ^ 31 \<Longrightarrow> braced_bounds (print_nat n @ 0x2C # 0x7D # q) = Some ((int n, -1), q)"
  by (simp add: braced_bounds_def strtol_print c_int_small rre_peek_def Let_def c_digit_def)

lemma braced_two:
  assumes "n < 2 ^ 31" "m < 2 ^ 31" "n \<le> m"
  shows "braced_bounds (print_nat n @ 0x2C # print_nat m @ 0x7D # q) = Some ((int n, int m), q)"
proof -
  have "rre_peek (print_nat m @ 0x7D # q) \<noteq> 0x7D"
    using print_nat_digits[of m] by (cases "print_nat m") (auto simp: rre_peek_def c_digit_def)
  then show ?thesis using assms
    by (simp add: braced_bounds_def strtol_print c_int_small rre_peek_def[of "_ # _"] Let_def c_digit_def)
qed

lemma quantifier_print:
  assumes "lo < 2 ^ 31" "\<forall>h. hi = Some h \<longrightarrow> lo \<le> h \<and> h < 2 ^ 31"
  shows "quantifier (print_bounds lo hi @ q) = ((int lo, case hi of None \<Rightarrow> -1 | Some h \<Rightarrow> int h), q)"
proof (cases hi)
  case None
  then show ?thesis using assms(1) braced_open[of lo q] by (simp add: print_bounds_def quantifier_def rre_peek_def ascii_def)
next
  case (Some h)
  then show ?thesis using assms braced_one[of lo q] braced_two[of lo h q]
    by (simp add: print_bounds_def quantifier_def rre_peek_def ascii_def)
qed

section \<open>Reading classes back\<close>

declare unat_ucast_byte [simp]

lemma ucast_mono: "(ucast (lo::u8) :: u32) \<le> ucast hi \<longleftrightarrow> lo \<le> hi" "(ucast (hi::u8) :: u32) < ucast lo \<longleftrightarrow> hi < lo"
  by (simp_all add: word_le_nat_alt word_less_nat_alt)

lemma ucast_byte:
  "(ucast (c :: u8) :: u32) < 0x100" "(ucast (ucast c :: u32) :: u8) = c"
  "(ucast c :: u32) = ucast b \<longleftrightarrow> c = b"
proof -
  have "unat c < 2 ^ LENGTH(8)" by (rule unsigned_less)
  then show "(ucast c :: u32) < 0x100" by (simp add: word_less_nat_alt)
  have "unat (ucast x :: u8) = unat x mod 256" for x :: u32 by (simp add: word_arith)
  then have "unat (ucast (ucast c :: u32) :: u8) = unat c" using \<open>unat c < 2 ^ LENGTH(8)\<close> by simp
  then show "(ucast (ucast c :: u32) :: u8) = c" by (simp only: word_unat_eq_iff)
  show "(ucast c :: u32) = ucast b \<longleftrightarrow> c = b" by (metis unat_ucast_byte word_unat_eq_iff)
qed

lemma plain_facts:
  assumes "plain c"
  shows "c \<noteq> 0x5D" "c \<noteq> 0x5B" "c \<noteq> 0x2D" "c \<noteq> 0x5E" "c \<noteq> 0x5C" "c < 0x80" "(ucast c :: u32) < 0x100" "(ucast (ucast c :: u32) :: u8) = c"
    "(ucast c :: u32) \<noteq> 0x2D" "(ucast c :: u32) \<noteq> 0x5B"
proof -
  show n: "c \<noteq> 0x5D" "c \<noteq> 0x5B" "c \<noteq> 0x2D" "c \<noteq> 0x5E" "c \<noteq> 0x5C" "c < 0x80" using assms by (auto simp: plain_def ascii_def)
  show "(ucast c :: u32) < 0x100" "(ucast (ucast c :: u32) :: u8) = c" by (rule ucast_byte)+
  show "(ucast c :: u32) \<noteq> 0x2D" "(ucast c :: u32) \<noteq> 0x5B" using n(2,3) by (simp_all add: word_unat_eq_iff)
qed

lemma read_plain: "plain c \<Longrightarrow> cls_read_cp (c # p) = Some (ucast c, p)"
  using plain_facts[of c] by (simp add: cls_read_cp_def rre_peek_def)

lemma member_print:
  assumes "item_ok it" "p \<noteq> []" "hd p \<noteq> 0x2D"
  shows "class_member up first n (print_item it @ p) = Some (add_item it n, p)"
proof (cases it)
  case (One c)
  then have c: "plain c" using assms by simp
  have "\<not> range_ahead p" using assms(2,3) by (cases p) (simp_all add: range_ahead_def)
  then show ?thesis using One plain_facts[OF c] read_plain[OF c, of p]
    by (simp add: class_member_def cls_add_cp_def)
next
  case (Span lo hi)
  then have c: "plain lo" "plain hi" "lo \<le> hi" using assms by simp_all
  have "range_ahead (0x2D # hi # p)" using plain_facts[OF c(2)] by (simp add: range_ahead_def)
  then show ?thesis using Span plain_facts[OF c(1)] plain_facts[OF c(2)] read_plain[OF c(1)] read_plain[OF c(2)] c(3)
    by (simp add: class_member_def range_member_def rre_peek_def ucast_mono)
qed

lemma members_print:
  assumes "list_all item_ok items" "first \<longrightarrow> items \<noteq> []"
  shows "parse_members up first n (concat (map print_item items) @ 0x5D # q) = Some (fold add_item items n, q)"
  using assms
proof (induction items arbitrary: first n)
  case Nil
  then show ?case by (simp add: parse_members.simps)
next
  case (Cons it items)
  have h: "\<exists>c r. print_item it @ p = c # r \<and> plain c" for p using Cons.prems by (cases it) auto
  have p: "concat (map print_item items) @ 0x5D # q \<noteq> []" "hd (concat (map print_item items) @ 0x5D # q) \<noteq> 0x2D"
  proof -
    show "hd (concat (map print_item items) @ 0x5D # q) \<noteq> 0x2D"
      using Cons.prems by (cases items; cases "hd items") (auto dest: plain_facts)
  qed simp
  obtain c r where c: "print_item it @ concat (map print_item items) @ 0x5D # q = c # r" "plain c" using h by blast
  have "item_ok it" using Cons.prems by simp
  note m = member_print[OF this p, of up first n]
  have "parse_members up first n (c # r) = (case class_member up first n (c # r) of None \<Rightarrow> None | Some (n, q) \<Rightarrow> parse_members up False n q)"
    using plain_facts[OF c(2)] by (subst parse_members.simps) simp
  then show ?case using m c(1) Cons by simp
qed

lemma class_print:
  assumes "items \<noteq> []" "list_all item_ok items"
  shows "parse_class up ((if ng then [0x5E] else []) @ concat (map print_item items) @ 0x5D # q) = Some (item_class ng items, q)"
proof -
  obtain it rest where it: "items = it # rest" "item_ok it" using assms by (cases items) auto
  have "rre_peek (concat (map print_item items) @ 0x5D # q) \<noteq> 0x5E"
    using it by (cases it) (auto simp: rre_peek_def dest: plain_facts)
  then show ?thesis using members_print[OF assms(2), of True up _ q] assms(1)
    by (simp add: parse_class.simps item_class_def rre_peek_def[of "_ # _"])
qed

section \<open>Reading expressions back\<close>

definition parse_level :: "utf8proc \<Rightarrow> nat \<Rightarrow> nat \<Rightarrow> bytes \<Rightarrow> (rre \<times> bytes) option" where
  "parse_level up l =
    (if l = 0 then parse_alt up else if l = 1 then parse_cat up else if l = 2 then parse_piece up else parse_atom up)"

text \<open>What may follow an expression of a level.\<close>

definition follows :: "nat \<Rightarrow> bytes \<Rightarrow> bool" where
  "follows l q \<longleftrightarrow>
    (if l = 0 then q = [] \<or> hd q = 0x29 else if l = 1 then branch_end q
     else if l = 2 then rre_peek q \<notin> {0x2A, 0x2B, 0x3F, 0x7B} else True)"

lemma follows_down: "follows l q \<Longrightarrow> l \<le> l' \<Longrightarrow> follows l' q"
  by (auto simp: follows_def branch_end_def rre_peek_def split: if_splits)

lemma atom_piece:
  assumes "parse_atom up d p = Some (n, q)" "follows 2 q"
  shows "parse_piece up d p = Some (n, q)"
  using assms by (auto simp: parse_piece.simps quantifier_def follows_def)

lemma piece_cat:
  assumes "parse_piece up d p = Some (n, q)" "\<not> branch_end p" "follows 1 q"
  shows "parse_cat up d p = Some (n, q)"
  using assms by (simp add: parse_cat.simps[of up d p] follows_def)

lemma cat_alt:
  assumes "parse_cat up d p = Some (n, q)" "follows 0 q"
  shows "parse_alt up d p = Some (n, q)"
  using assms by (auto simp: parse_alt.simps[of up d p] follows_def rre_peek_def)

lemma up_levels:
  assumes "parse_level up k d p = Some (n, q)" "\<not> branch_end p \<or> k < 2" "follows l q" "l \<le> k" "k \<le> 3"
  shows "parse_level up l d p = Some (n, q)"
proof -
  have f: "follows j q" if "l \<le> j" for j using follows_down[OF assms(3) that] .
  consider "l = k" | "l = 2" "k = 3" | "l = 1" "k = 3" | "l = 0" "k = 3" | "l = 1" "k = 2" | "l = 0" "k = 2" | "l = 0" "k = 1"
    using assms(4,5) by linarith
  then show ?thesis
    using assms(1,2) f[of 0] f[of 1] f[of 2]
    by cases (simp_all add: parse_level_def atom_piece piece_cat cat_alt)
qed

lemma group_level:
  assumes "\<And>q. follows 0 q \<Longrightarrow> parse_alt up (d + 1) (p @ q) = Some (n, q)" "d + 1 \<le> 32" "follows l q" "l \<le> 3"
  shows "parse_level up l d (paren True p @ q) = Some (n, q)"
proof -
  have "parse_alt up (d + 1) (p @ 0x29 # q) = Some (n, 0x29 # q)" using assms(1) by (simp add: follows_def)
  then have "parse_atom up d (0x28 # p @ 0x29 # q) = Some (n, q)"
    using assms(2) by (simp add: parse_atom.simps[of up d "0x28 # _"] rre_peek_def)
  then show ?thesis using assms(3,4) up_levels[of up 3 d "0x28 # p @ 0x29 # q" n q l]
    by (simp add: parse_level_def paren_def branch_end_def)
qed

text \<open>A printed expression that is not empty starts with none of the bytes that end or quantify one.\<close>

definition starts :: "bytes \<Rightarrow> bool" where
  "starts p \<longleftrightarrow> p \<noteq> [] \<and> hd p \<notin> {0x2A, 0x2B, 0x3F, 0x7B, 0x7C, 0x29}"

lemma starts_append: "starts p \<Longrightarrow> starts (p @ q)"
  by (simp add: starts_def)

lemma starts_follows: "starts p \<Longrightarrow> follows 2 p" "starts p \<Longrightarrow> \<not> branch_end p"
  by (auto simp: starts_def follows_def branch_end_def rre_peek_def)

lemma print_starts: "rx_ok x \<Longrightarrow> 0 < l \<Longrightarrow> x \<noteq> Nothing \<or> 1 < l \<Longrightarrow> starts (print_rx x l)"
proof (induction x arbitrary: l)
  case (Lit c)
  then show ?case by (auto simp: starts_def print_lit_def special_def ascii_def)
next
  case (Seq a b)
  have "starts (print_rx a 2)" using Seq by simp
  then show ?case by (simp add: paren_def starts_append) (simp add: starts_def)
next
  case (Many a lo hi)
  have "starts (print_rx a 3)" using Many by simp
  then show ?case by (simp add: paren_def starts_append) (simp add: starts_def)
qed (auto simp: starts_def paren_def)

lemma atom_levels:
  assumes "\<And>q. parse_atom up d (p @ q) = Some (n, q)" "starts p" "follows l q" "l \<le> 3"
  shows "parse_level up l d (p @ q) = Some (n, q)"
  using up_levels[of up 3 d "p @ q" n q l] assms starts_follows(2)[OF starts_append[OF assms(2)]]
  by (simp add: parse_level_def)

lemma print_parse:
  assumes "rx_ok x" "l \<le> 3" "d + nesting x l \<le> 32" "follows l q"
  shows "parse_level up l d (print_rx x l @ q) = Some (to_rre up x, q)"
  using assms
proof (induction x arbitrary: l d q)
  case (Lit c)
  have "parse_atom up d (print_lit c @ q) = Some (Char c, q)" for q
    using Lit.prems(1)
    by (auto simp: parse_atom.simps print_lit_def special_def ascii_def parse_escape_def is_builtin_def control_escape_def c_alnum_def c_alpha_def)
  from atom_levels[OF this _ Lit.prems(4,2)] show ?case using print_starts[OF Lit.prems(1), of 3] by simp
next
  case Any
  have "parse_atom up d ([0x2E] @ q) = Some (Dot, q)" for q by (simp add: parse_atom.simps)
  from atom_levels[OF this _ Any.prems(4,2)] show ?case by (simp add: starts_def)
next
  case (Esc e)
  have "e \<noteq> 0x70" "e \<noteq> 0x50" using Esc.prems(1) by (auto simp: is_builtin_def ascii_def)
  then have "parse_atom up d ([0x5C, e] @ q) = Some (Class (escape_class up e), q)" for q
    using Esc.prems(1) by (simp add: parse_atom.simps parse_escape_def escape_class_def)
  from atom_levels[OF this _ Esc.prems(4,2)] show ?case by (simp add: starts_def)
next
  case (Set_of ng items)
  let ?p = "[0x5B] @ (if ng then [0x5E] else []) @ concat (map print_item items) @ [0x5D]"
  have "parse_atom up d (?p @ q) = Some (Class (item_class ng items), q)" for q
    using class_print[of items up ng q] Set_of.prems(1) by (simp add: parse_atom.simps)
  from atom_levels[OF this _ Set_of.prems(4,2)] show ?case by (simp add: starts_def)
next
  case (Seq a b)
  let ?p = "print_rx a 2 @ print_rx b 1" and ?n = "Cat (to_rre up a) (to_rre up b)"
  have ok: "rx_ok a" "rx_ok b" "b \<noteq> Nothing" using Seq.prems(1) by simp_all
  note sa = print_starts[OF ok(1), of 2] and sb = print_starts[OF ok(2), of 1]
  have cat: "parse_cat up d (?p @ q) = Some (?n, q)" if "follows 1 q" "d + max (nesting a 2) (nesting b 1) \<le> 32" for d q
  proof -
    have s: "starts (print_rx b 1 @ q)" "starts (print_rx a 2 @ print_rx b 1 @ q)"
      using sa sb ok(3) by (auto intro: starts_append)
    have "parse_piece up d (print_rx a 2 @ print_rx b 1 @ q) = Some (to_rre up a, print_rx b 1 @ q)"
      using Seq.IH(1)[OF ok(1), of 2 d "print_rx b 1 @ q"] starts_follows(1)[OF s(1)] that(2) by (simp add: parse_level_def)
    moreover have "parse_cat up d (print_rx b 1 @ q) = Some (to_rre up b, q)"
      using Seq.IH(2)[OF ok(2), of 1 d q] that by (simp add: parse_level_def)
    ultimately show ?thesis using starts_follows(2)[OF s(1)] starts_follows(2)[OF s(2)]
      by (simp add: parse_cat.simps[of up d "print_rx a 2 @ _"])
  qed
  show ?case
  proof (cases "l > 1")
    case True
    have "parse_alt up (d + 1) (?p @ q) = Some (?n, q)" if "follows 0 q" for q
      using cat_alt[OF cat that] follows_down[OF that, of 1] Seq.prems(3) True by simp
    from group_level[OF this _ Seq.prems(4,2)] show ?thesis using True Seq.prems(3) by simp
  next
    case False
    then have "parse_cat up d (?p @ q) = Some (?n, q)" using cat Seq.prems(3,4) follows_down[of l q 1] by simp
    then show ?thesis using False up_levels[of up 1 d "?p @ q" ?n q l] Seq.prems(4) by (simp add: parse_level_def paren_def)
  qed
next
  case (Or a b)
  let ?p = "print_rx a 1 @ [0x7C] @ print_rx b 0" and ?n = "Alt (to_rre up a) (to_rre up b)"
  have ok: "rx_ok a" "rx_ok b" using Or.prems(1) by simp_all
  have alt: "parse_alt up d (?p @ q) = Some (?n, q)" if "follows 0 q" "d + max (nesting a 1) (nesting b 0) \<le> 32" for d q
  proof -
    have "parse_cat up d (print_rx a 1 @ 0x7C # print_rx b 0 @ q) = Some (to_rre up a, 0x7C # print_rx b 0 @ q)"
      using Or.IH(1)[OF ok(1), of 1 d "0x7C # print_rx b 0 @ q"] that(2) by (simp add: parse_level_def follows_def branch_end_def)
    moreover have "parse_alt up d (print_rx b 0 @ q) = Some (to_rre up b, q)"
      using Or.IH(2)[OF ok(2), of 0 d q] that by (simp add: parse_level_def)
    ultimately show ?thesis by (simp add: parse_alt.simps[of up d "print_rx a (Suc 0) @ _"] rre_peek_def)
  qed
  show ?case
  proof (cases "l > 0")
    case True
    have "parse_alt up (d + 1) (?p @ q) = Some (?n, q)" if "follows 0 q" for q
      using alt[OF that, of "d + 1"] Or.prems(3) True by simp
    from group_level[OF this _ Or.prems(4,2)] show ?thesis using True Or.prems(3) by simp
  next
    case False
    then show ?thesis using alt[of q d] Or.prems(3,4) by (simp add: parse_level_def paren_def)
  qed
next
  case (Many a lo hi)
  let ?p = "print_rx a 3 @ print_bounds lo hi"
  have ok: "rx_ok a" "lo < 2 ^ 31" "\<forall>h. hi = Some h \<longrightarrow> lo \<le> h \<and> h < 2 ^ 31" using Many.prems(1) by auto
  have s: "starts (?p @ q)" for q using print_starts[OF ok(1), of 3] by (simp add: starts_append)
  have piece: "parse_piece up d (?p @ q) = Some (to_rre up (Many a lo hi), q)" if "d + nesting a 3 \<le> 32" for d q
  proof -
    have "parse_atom up d (print_rx a 3 @ print_bounds lo hi @ q) = Some (to_rre up a, print_bounds lo hi @ q)"
      using Many.IH[OF ok(1), of 3 d "print_bounds lo hi @ q"] that by (simp add: parse_level_def follows_def)
    then show ?thesis using quantifier_print[OF ok(2,3), of q]
      by (auto simp: parse_piece.simps[of up d "print_rx a 3 @ _"] split: option.splits)
  qed
  show ?case
  proof (cases "l > 2")
    case True
    have "parse_alt up (d + 1) (?p @ q) = Some (to_rre up (Many a lo hi), q)" if "follows 0 q" for q
      using up_levels[of up 2 "d + 1" "?p @ q" _ q 0] piece[of "d + 1" q] that starts_follows(2)[OF s] Many.prems(3) True
      by (simp add: parse_level_def del: to_rre.simps)
    from group_level[OF this _ Many.prems(4,2)] show ?thesis using True Many.prems(3) by (simp del: to_rre.simps)
  next
    case False
    then show ?thesis
      using up_levels[of up 2 d "?p @ q" "to_rre up (Many a lo hi)" q l] piece[of d q] starts_follows(2)[OF s, of q] Many.prems(3,4)
      by (simp add: parse_level_def paren_def del: to_rre.simps)
  qed
next
  case Nothing
  have cat: "parse_cat up d q = Some (Empty, q)" if "follows 1 q" for d q
    using that by (simp add: parse_cat.simps follows_def)
  show ?case
  proof (cases "l > 1")
    case True
    have "parse_alt up (d + 1) ([] @ q) = Some (Empty, q)" if "follows 0 q" for q
      using cat_alt[OF cat that] follows_down[OF that, of 1] by simp
    from group_level[OF this _ Nothing.prems(4,2)] show ?thesis using True Nothing.prems(3) by simp
  next
    case False
    have "parse_cat up d q = Some (Empty, q)" using cat False Nothing.prems(4) follows_down[of l q 1] by simp
    then show ?thesis using False up_levels[of up 1 d q Empty q l] Nothing.prems(4) by (simp add: parse_level_def paren_def)
  qed
qed

section \<open>Languages\<close>

fun item_has :: "u8 \<Rightarrow> rx_item \<Rightarrow> bool" where
  "item_has b (One c) \<longleftrightarrow> b = c"
| "item_has b (Span lo hi) \<longleftrightarrow> lo \<le> b \<and> b \<le> hi"

text \<open>Which ASCII bytes a class takes.\<close>

definition class_accepts :: "utf8proc \<Rightarrow> rre_class \<Rightarrow> u8 \<Rightarrow> bool" where
  "class_accepts up n b \<longleftrightarrow>
    (if \<not> cat_set n \<and> subtract n = None \<and> negm n = None then cls_has n b else cls_has_cp up n (ucast b))"

primrec rx_lang :: "utf8proc \<Rightarrow> rx \<Rightarrow> bytes set" where
  "rx_lang up (Lit c) = {[c]}"
| "rx_lang up Any = {[b] | b. b < 0x80}"
| "rx_lang up (Esc e) = {[b] | b. b < 0x80 \<and> class_accepts up (escape_class up e) b}"
| "rx_lang up (Set_of ng items) = {[b] | b. b < 0x80 \<and> (\<exists>it \<in> set items. item_has b it) \<noteq> ng}"
| "rx_lang up (Seq a b) = conc (rx_lang up a) (rx_lang up b)"
| "rx_lang up (Or a b) = rx_lang up a \<union> rx_lang up b"
| "rx_lang up (Many a lo hi) = occurs (int lo) (case hi of None \<Rightarrow> -1 | Some h \<Rightarrow> int h) (rx_lang up a)"
| "rx_lang up Nothing = {[]}"

abbreviation ascii_text :: "bytes \<Rightarrow> bool" where
  "ascii_text t \<equiv> list_all (\<lambda>b. b < 0x80) t"

lemma class_step_ascii: "b < 0x80 \<Longrightarrow> class_step up n (b # s) = (if class_accepts up n b then Some s else None)"
  by (auto simp: class_step_def class_accepts_def rre_decode_cp_def Let_def split: prod.split)

lemma item_class_accepts: "class_accepts up (item_class ng items) b \<longleftrightarrow> (\<exists>it \<in> set items. item_has b it) \<noteq> ng"
proof -
  have "b \<in> bitmap (fold add_item items n) \<longleftrightarrow> b \<in> bitmap n \<or> (\<exists>it \<in> set items. item_has b it)" for n
  proof (induction items arbitrary: n)
    case (Cons it items)
    show ?case unfolding fold_simps comp_apply Cons by (cases it) (auto simp: cls_add_def)
  qed simp
  moreover have "neg (fold add_item items n) = neg n \<and> cat_set (fold add_item items n) = cat_set n
    \<and> subtract (fold add_item items n) = subtract n \<and> negm (fold add_item items n) = negm n" for n
  proof (induction items arbitrary: n)
    case (Cons it items)
    show ?case unfolding fold_simps comp_apply using Cons[of "add_item it n"] by (cases it) (simp_all add: cls_add_def)
  qed simp
  ultimately show ?thesis by (simp add: class_accepts_def item_class_def no_class_def set_neg_def cls_has_def)
qed

lemma occursI: "lo \<le> int k \<Longrightarrow> hi < 0 \<or> int k \<le> hi \<Longrightarrow> w \<in> lang_pow k L \<Longrightarrow> w \<in> occurs lo hi L"
  by (auto simp: occurs_def)

lemma pow_two: "u \<in> L \<Longrightarrow> v \<in> L \<Longrightarrow> u @ v \<in> lang_pow 2 L"
  by (simp add: numeral_2_eq_2 concI conc_nil)

lemma conc_word: "conc {u} {v} = {u @ v}"
  by (auto simp: conc_iff)

lemma split_word: "(\<exists>m. (\<exists>u \<in> A. s = u @ m) \<and> (\<exists>v \<in> B. m = v @ r)) \<longleftrightarrow> (\<exists>w \<in> conc A B. s = w @ r)"
proof
  assume "\<exists>m. (\<exists>u \<in> A. s = u @ m) \<and> (\<exists>v \<in> B. m = v @ r)"
  then obtain u v where "u \<in> A" "v \<in> B" "s = (u @ v) @ r" by auto
  then show "\<exists>w \<in> conc A B. s = w @ r" using concI by blast
next
  assume "\<exists>w \<in> conc A B. s = w @ r"
  then obtain u v where "u \<in> A" "v \<in> B" "s = u @ v @ r" by (auto simp: conc_iff)
  then show "\<exists>m. (\<exists>u \<in> A. s = u @ m) \<and> (\<exists>v \<in> B. m = v @ r)" by blast
qed

lemma ascii_rest: "ascii_text s \<Longrightarrow> s = u @ m \<Longrightarrow> ascii_text m"
  by simp

lemma pow_lang:
  assumes "\<And>s r. ascii_text s \<Longrightarrow> R s r \<longleftrightarrow> (\<exists>w \<in> L. s = w @ r)"
  shows "ascii_text s \<Longrightarrow> (R ^^ j) s r \<longleftrightarrow> (\<exists>w \<in> lang_pow j L. s = w @ r)"
proof (induction j arbitrary: s)
  case 0
  then show ?case by auto
next
  case (Suc j)
  have "(R ^^ Suc j) s r \<longleftrightarrow> (\<exists>m. R s m \<and> (R ^^ j) m r)" by (metis relpowp_Suc_D2 relpowp_Suc_I2)
  also have "\<dots> \<longleftrightarrow> (\<exists>m. (\<exists>u \<in> L. s = u @ m) \<and> (R ^^ j) m r)" using assms[OF Suc.prems] by simp
  also have "\<dots> \<longleftrightarrow> (\<exists>m. (\<exists>u \<in> L. s = u @ m) \<and> (\<exists>v \<in> lang_pow j L. m = v @ r))"
    using Suc.IH ascii_rest[OF Suc.prems] by blast
  also have "\<dots> \<longleftrightarrow> (\<exists>w \<in> lang_pow (Suc j) L. s = w @ r)" by (simp only: split_word lang_pow.simps)
  finally show ?case .
qed

lemma takes_lang: "ascii_text t \<Longrightarrow> takes up (to_rre up x) t r \<longleftrightarrow> (\<exists>w \<in> rx_lang up x. t = w @ r)"
proof (induction x arbitrary: t r)
  case Any
  then show ?case by auto
next
  case (Esc e)
  then show ?case by (cases t) (auto simp: class_step_ascii, simp add: class_step_def)
next
  case (Set_of ng items)
  then show ?case by (cases t) (auto simp: class_step_ascii item_class_accepts, simp_all add: class_step_def)
next
  case (Seq a b)
  have "takes up (to_rre up (Seq a b)) t r \<longleftrightarrow> (\<exists>m. (\<exists>u \<in> rx_lang up a. t = u @ m) \<and> takes up (to_rre up b) m r)"
    using Seq.IH(1)[OF Seq.prems] by simp
  also have "\<dots> \<longleftrightarrow> (\<exists>m. (\<exists>u \<in> rx_lang up a. t = u @ m) \<and> (\<exists>v \<in> rx_lang up b. m = v @ r))"
    using Seq.IH(2) ascii_rest[OF Seq.prems] by blast
  also have "\<dots> \<longleftrightarrow> (\<exists>w \<in> rx_lang up (Seq a b). t = w @ r)" by (simp only: split_word rx_lang.simps)
  finally show ?case .
next
  case (Many a lo hi)
  show ?case
  proof (cases "lo = 1 \<and> hi = Some 1")
    case True
    have "rx_lang up (Many a lo hi) = rx_lang up a" using True by (simp only: rx_lang.simps option.simps of_nat_1 occurs_once)
    then show ?thesis using True Many by simp
  next
    case False
    have "(takes up (to_rre up a) ^^ j) t r \<longleftrightarrow> (\<exists>w \<in> lang_pow j (rx_lang up a). t = w @ r)" for j
      by (rule pow_lang[OF Many.IH Many.prems])
    moreover have "to_rre up (Many a lo hi) = Rep (to_rre up a) (int lo) (case hi of None \<Rightarrow> -1 | Some h \<Rightarrow> int h)"
      using False by auto
    ultimately have "takes up (to_rre up (Many a lo hi)) t r \<longleftrightarrow> (\<exists>j. int lo \<le> int j \<and> ((case hi of None \<Rightarrow> -1 | Some h \<Rightarrow> int h) < 0
        \<or> int j \<le> (case hi of None \<Rightarrow> -1 | Some h \<Rightarrow> int h)) \<and> (\<exists>w \<in> lang_pow j (rx_lang up a). t = w @ r))"
      by (simp only: takes.simps)
    then show ?thesis by (auto simp only: rx_lang.simps occurs_def mem_Collect_eq)
  qed
next
  case (Lit c)
  then show ?case by simp
next
  case (Or a b)
  then show ?case by auto
next
  case Nothing
  then show ?case by auto
qed

lemma printed_pattern:
  assumes "rx_ok x" "nesting x 0 \<le> 32"
  shows "parse_pattern up (print_rx x 0) = Some (to_rre up x)"
  using print_parse[of x 0 0 "[]" up] assms by (simp add: parse_pattern_def parse_level_def follows_def)

lemma printed_empty: "rx_ok x \<Longrightarrow> print_rx x 0 = [] \<Longrightarrow> x = Nothing"
  using print_starts[of _ 1] print_starts[of _ 2] print_starts[of _ 3] by (cases x) (auto simp: paren_def starts_def print_lit_def split: if_splits)

text \<open>
  C9. The matcher decides its language: a pattern that is the printed form of a syntax tree is parsed
  to this tree and matches an ASCII text just if the text is a word of the tree's language, provided
  that the body of each repetition is steady, that is, taken in one way only and never empty.
\<close>

theorem regex_match_exact:
  assumes "rx_ok x" "nesting x 0 \<le> 32" "steady_reps (to_rre up x)" "ascii_text t"
  shows "rng_regex_matches up (Some (print_rx x 0)) (Some t) \<longleftrightarrow> t \<in> rx_lang up x"
proof (cases "print_rx x 0 = []")
  case True
  then have "x = Nothing" by (rule printed_empty[OF assms(1)])
  then show ?thesis by (simp add: rng_regex_matches_def paren_def)
next
  case False
  show ?thesis
    unfolding match_exact[OF printed_pattern[OF assms(1,2)] assms(3) False] takes_lang[OF assms(4)] by simp
qed

theorem regex_match_exact_witness:
  "rng_regex_matches None (Some (ascii ''[a-c]{2,3}-(boy|girl)*'')) (Some (ascii ''ab-girlboy''))"
proof -
  let ?w = "\<lambda>n. foldr Seq (map Lit (butlast (ascii n))) (Lit (last (ascii n)))"
  let ?x = "Seq (Many (Set_of False [Span 0x61 0x63]) 2 (Some 3))
    (Seq (Lit 0x2D) (Many (Or (?w ''boy'') (?w ''girl'')) 0 None))"
  have p: "print_rx ?x 0 = ascii ''[a-c]{2,3}-(boy|girl)*''" by code_simp
  have s: "steady_reps (to_rre None ?x)" by (simp add: ascii_def)
  have "[0x61::u8, 0x62] \<in> occurs 2 3 {[b] | b. b < 0x80 \<and> (0x61 \<le> b \<and> b \<le> 0x63)}"
    using occursI[of 2 2 3, OF _ _ pow_two[of "[0x61::u8]" _ "[0x62]"]] by simp
  moreover have "ascii ''girlboy'' \<in> occurs 0 (-1) ({ascii ''boy''} \<union> {ascii ''girl''})"
    using occursI[of 0 2 "-1", OF _ _ pow_two[of "ascii ''girl''" _ "ascii ''boy''"]] by (simp add: ascii_def)
  ultimately have "[0x61, 0x62] @ [0x2D] @ ascii ''girlboy'' \<in> conc (occurs 2 3 {[b] | b. b < 0x80 \<and> (0x61 \<le> b \<and> b \<le> 0x63)})
      (conc {[0x2D]} (occurs 0 (-1) ({ascii ''boy''} \<union> {ascii ''girl''})))"
    by (intro concI) simp_all
  then have "ascii ''ab-girlboy'' \<in> rx_lang None ?x" by (simp add: ascii_def conc_word)
  moreover have "rx_ok ?x" "nesting ?x 0 \<le> 32" "ascii_text (ascii ''ab-girlboy'')" by (simp_all add: ascii_def plain_def)
  ultimately show ?thesis using regex_match_exact[OF _ _ s, of "ascii ''ab-girlboy''"] p by simp
qed

text \<open>
  C37. Beyond steady repetitions the matcher misses words: the first end of each iteration is final, an
  iteration that takes nothing is never counted, even where a minimum asks for it, and so \<open>(a|ab)+c\<close>
  rejects abc, \<open>(a?)+\<close> rejects the empty text and \<open>(a?){2}\<close> rejects a.
\<close>

theorem regex_match_incomplete:
  "\<not> rng_regex_matches up (Some (ascii ''(a|ab)+c'')) (Some (ascii ''abc''))
    \<and> ascii ''abc'' \<in> rx_lang up (Seq (Many (Or (Lit 0x61) (Seq (Lit 0x61) (Lit 0x62))) 1 None) (Lit 0x63))
    \<and> \<not> rng_regex_matches up (Some (ascii ''(a?)+'')) (Some [])
    \<and> [] \<in> rx_lang up (Many (Many (Lit 0x61) 0 (Some 1)) 1 None)
    \<and> \<not> rng_regex_matches up (Some (ascii ''(a?){2}'')) (Some (ascii ''a''))
    \<and> ascii ''a'' \<in> rx_lang up (Many (Many (Lit 0x61) 0 (Some 1)) 2 (Some 2))"
proof -
  have "\<not> rng_regex_matches up (Some (ascii ''(a|ab)+c'')) (Some (ascii ''abc''))"
    "\<not> rng_regex_matches up (Some (ascii ''(a?)+'')) (Some [])"
    "\<not> rng_regex_matches up (Some (ascii ''(a?){2}'')) (Some (ascii ''a''))" by code_simp+
  moreover have "ascii ''ab'' @ ascii ''c'' \<in> rx_lang up (Seq (Many (Or (Lit 0x61) (Seq (Lit 0x61) (Lit 0x62))) 1 None) (Lit 0x63))"
    unfolding rx_lang.simps by (intro concI occursI[of _ 1]) (simp_all add: conc_word ascii_def)
  moreover have o: "[] \<in> occurs 0 1 L" "w \<in> L \<Longrightarrow> w \<in> occurs 0 1 L" for L :: "bytes set" and w
    using occursI[of 0 0 1 "[]" L] occursI[of 0 1 1 w L] by simp_all
  then have "[] \<in> rx_lang up (Many (Many (Lit 0x61) 0 (Some 1)) 1 None)"
    by (simp add: occursI[of 1 1])
  moreover have "[] @ ascii ''a'' \<in> rx_lang up (Many (Many (Lit 0x61) 0 (Some 1)) 2 (Some 2))"
    unfolding rx_lang.simps option.simps of_nat_numeral of_nat_1 of_nat_0 by (rule occursI[of _ 2, OF _ _ pow_two]) (simp_all add: o ascii_def)
  ultimately show ?thesis by (simp add: ascii_def)
qed

end
