(* ===== verification/IlScan.thy ===== *)
theory IlScan
  imports TextScan
begin

text \<open>
  The scan of the interleaved lane (\<open>leptris_il_scan\<close> in \<open>flat/direct_parse.c\<close>, \<open>flat/il_scan.h\<close>,
  \<open>common/chartype.c\<close>): one pass over a document without declarations, comments, references and
  namespace declarations that writes a flat table of element and text records and a table of
  attributes, both as offsets into the text; it gives up, for another parser to take over, on anything
  else. The public record reader (\<open>sax/records.c\<close>) is built on it.
\<close>

section \<open>Character classes\<close>

definition CT_NAME_START :: u8 where "CT_NAME_START = 0x01"
definition CT_NAME :: u8 where "CT_NAME = 0x02"
definition CT_WS :: u8 where "CT_WS = 0x04"
definition CT_UTF8 :: u8 where "CT_UTF8 = 0x08"
definition CT_ATTR_GT :: u8 where "CT_ATTR_GT = 0x10"
definition CT_ATTR_SLASH :: u8 where "CT_ATTR_SLASH = 0x20"
definition CT_ATTR_EQ :: u8 where "CT_ATTR_EQ = 0x40"
definition CT_ATTR_QUOTE :: u8 where "CT_ATTR_QUOTE = 0x80"

lemmas chartype_flags = CT_NAME_START_def CT_NAME_def CT_WS_def CT_UTF8_def CT_ATTR_GT_def CT_ATTR_SLASH_def
  CT_ATTR_EQ_def CT_ATTR_QUOTE_def

definition leptris_chartype_table :: "u8 \<Rightarrow> u8" where
  "leptris_chartype_table c =
    (if 0x80 \<le> c then CT_UTF8
     else if 0x61 \<le> c \<and> c \<le> 0x7A \<or> 0x41 \<le> c \<and> c \<le> 0x5A \<or> c = 0x5F \<or> c = 0x3A then CT_NAME_START OR CT_NAME
     else if 0x30 \<le> c \<and> c \<le> 0x39 \<or> c = 0x2D \<or> c = 0x2E then CT_NAME
     else if c = 0x20 \<or> c = 0x09 \<or> c = 0x0A \<or> c = 0x0D then CT_WS
     else if c = 0x3E then CT_ATTR_GT
     else if c = 0x2F then CT_ATTR_SLASH
     else if c = 0x3D then CT_ATTR_EQ
     else if c = 0x22 \<or> c = 0x27 then CT_ATTR_QUOTE
     else 0)"

definition is_chartype :: "u8 \<Rightarrow> u8 \<Rightarrow> bool" where
  "is_chartype c flags \<longleftrightarrow> leptris_chartype_table c AND flags \<noteq> 0"

definition is_name_char :: "u8 \<Rightarrow> bool" where
  "is_name_char c \<longleftrightarrow> is_chartype c (CT_NAME OR CT_NAME_START OR CT_UTF8)"

definition is_name_start :: "u8 \<Rightarrow> bool" where
  "is_name_start c \<longleftrightarrow> is_chartype c (CT_NAME_START OR CT_UTF8)"

definition is_ws :: "u8 \<Rightarrow> bool" where
  "is_ws c \<longleftrightarrow> is_chartype c CT_WS"

lemma name_start_iff:
  "is_name_start c \<longleftrightarrow> 0x80 \<le> c \<or> 0x61 \<le> c \<and> c \<le> 0x7A \<or> 0x41 \<le> c \<and> c \<le> 0x5A \<or> c = 0x5F \<or> c = 0x3A"
  by (simp add: is_name_start_def is_chartype_def leptris_chartype_table_def chartype_flags)

lemma name_char_iff: "is_name_char c \<longleftrightarrow> is_name_start c \<or> 0x30 \<le> c \<and> c \<le> 0x39 \<or> c = 0x2D \<or> c = 0x2E"
  by (simp add: name_start_iff is_name_char_def is_chartype_def leptris_chartype_table_def chartype_flags)

lemma ws_iff: "is_ws c \<longleftrightarrow> c = 0x20 \<or> c = 0x09 \<or> c = 0x0A \<or> c = 0x0D"
  by (simp add: is_ws_def is_chartype_def leptris_chartype_table_def chartype_flags)

lemma nul_class [simp]: "\<not> is_name_char 0" "\<not> is_name_start 0" "\<not> is_ws 0"
  by (simp_all add: name_char_iff name_start_iff ws_iff)

section \<open>Records\<close>

text \<open>
  An index of a record or an attribute is \<open>None\<close> where the code has \<open>IL_NONE\<close>. Offsets and indexes
  are numbers: both callers refuse texts of \<open>0x7FFFFFFF\<close> bytes, so 32 bits hold all of them.
\<close>

record il_attr =
  name_off :: nat
  name_len :: nat
  val_off :: nat
  val_len :: nat
  has_ws :: bool

datatype il_kind = IlElement | IlText

record il_rec =
  off :: nat
  len :: nat
  parent_rec :: "nat option"
  next_sib :: "nat option"
  line :: nat
  start_tag_end :: nat
  elem_end :: nat
  first_attr :: "nat option"
  attr_count :: nat
  kind :: il_kind
  self_closing :: bool
  open_prefixed :: bool
  has_open_parent :: bool

text \<open>
  The two depth stacks are one block of memory: \<open>open\<close> is its first half and \<open>last_child\<close> the second,
  so that a store in front of \<open>last_child\<close> hits the end of \<open>open\<close>.
\<close>

record il_ctx =
  recs :: "il_rec list"
  attrs :: "il_attr list"
  stacks :: "nat \<Rightarrow> nat option"
  depth :: nat

definition LEPTRIS_IL_MAX_DEPTH :: nat where "LEPTRIS_IL_MAX_DEPTH = 256"

definition DP_MAX_DEPTH :: nat where "DP_MAX_DEPTH = 256"

text \<open>\<open>il_stacks_init\<close>: the fixed buffers serve up to 256, a block of the configured depth beyond it.\<close>

definition stack_cap :: "int \<Rightarrow> nat" where
  "stack_cap max_depth =
    (let dcap = (if 0 < max_depth then nat max_depth else LEPTRIS_IL_MAX_DEPTH) in
     if dcap \<le> LEPTRIS_IL_MAX_DEPTH then LEPTRIS_IL_MAX_DEPTH else dcap)"

definition depth_limit :: "int \<Rightarrow> nat" where
  "depth_limit max_depth = (if 0 < max_depth then nat max_depth else DP_MAX_DEPTH)"

definition get_last :: "nat \<Rightarrow> il_ctx \<Rightarrow> nat option" where
  "get_last cap c = stacks c (cap + depth c - 1)"

definition set_last :: "nat \<Rightarrow> nat option \<Rightarrow> il_ctx \<Rightarrow> il_ctx" where
  "set_last cap v c = c\<lparr>stacks := (stacks c)(cap + depth c - 1 := v)\<rparr>"

definition get_open :: "il_ctx \<Rightarrow> nat option" where
  "get_open c = stacks c (depth c - 1)"

section \<open>Reading the text\<close>

text \<open>The scratch copy ends in NUL bytes, which a read behind the text yields.\<close>

definition at :: "bytes \<Rightarrow> nat \<Rightarrow> u8" where
  "at s j = (case drop j s of [] \<Rightarrow> 0 | c # _ \<Rightarrow> c)"

definition slice :: "bytes \<Rightarrow> nat \<Rightarrow> nat \<Rightarrow> bytes" where
  "slice s j n = take n (drop j s)"

lemma il_at_end: "length s \<le> j \<Longrightarrow> at s j = 0"
  by (simp add: at_def)

lemma il_at_inside: "P (at s j) \<Longrightarrow> \<not> P 0 \<Longrightarrow> j < length s"
  by (metis il_at_end linorder_not_le)

text \<open>\<open>while (IS_WS(s[j])) j++\<close>\<close>

definition skip_ws :: "bytes \<Rightarrow> nat \<Rightarrow> nat" where
  "skip_ws s j = j + length (takeWhile is_ws (drop j s))"

definition il_ws_only :: "bytes \<Rightarrow> bool" where
  "il_ws_only p \<longleftrightarrow> list_all is_ws p"

text \<open>The end of a name, four bytes at a time.\<close>

function il_name_end :: "bytes \<Rightarrow> nat \<Rightarrow> nat" where
  "il_name_end s j =
    (if \<not> is_name_char (at s j) then j
     else if \<not> is_name_char (at s (j + 1)) then j + 1
     else if \<not> is_name_char (at s (j + 2)) then j + 2
     else if \<not> is_name_char (at s (j + 3)) then j + 3
     else il_name_end s (j + 4))"
  by pat_completeness auto
termination
  by (relation "measure (\<lambda>(s, j). length s - j)") (auto dest: il_at_inside[of is_name_char])

declare il_name_end.simps [simp del]

text \<open>
  A run up to a delimiter, without an ampersand: 48 bytes are probed one by one, the tail is left to
  the vector kernels. The flag tells of tabs and line breaks.
\<close>

definition line_ws :: "u8 \<Rightarrow> bool" where
  "line_ws v \<longleftrightarrow> v = 0x09 \<or> v = 0x0A \<or> v = 0x0D"

datatype probe = Stop nat bool | Ampersand | Ran nat bool

fun probe_run :: "nat \<Rightarrow> u8 \<Rightarrow> bytes \<Rightarrow> nat \<Rightarrow> bool \<Rightarrow> probe" where
  "probe_run 0 qc s q ws = Ran q ws"
| "probe_run (Suc k) qc s q ws =
    (let v = at s q in
     if v = qc then Stop q ws else if v = 0x26 then Ampersand else probe_run k qc s (q + 1) (ws \<or> line_ws v))"

definition run_end :: "u8 \<Rightarrow> bytes \<Rightarrow> nat \<Rightarrow> (nat \<times> bool) option" where
  "run_end qc s j =
    (case probe_run 48 qc s j False of
       Stop q ws \<Rightarrow> Some (q, ws)
     | Ampersand \<Rightarrow> None
     | Ran q ws \<Rightarrow>
         if length s \<le> q then None
         else (case memchr (drop q s) qc of
                 None \<Rightarrow> None
               | Some k \<Rightarrow>
                   if 0 < k \<and> contains_scalar (slice s q k) 0x26 then None
                   else Some (q + k, ws \<or> list_ex line_ws (slice s q k))))"

section \<open>Start tags\<close>

text \<open>One attribute, behind the blanks in front of it.\<close>

definition il_attribute :: "bytes \<Rightarrow> nat \<Rightarrow> (il_attr \<times> nat) option" where
  "il_attribute s a0 =
    (if \<not> is_name_start (at s a0) then None
     else let j = il_name_end s a0; al = j - a0 in
       if 5 \<le> al \<and> slice s a0 5 = ascii ''xmlns'' then None
       else let j = skip_ws s j in
         if at s j \<noteq> 0x3D then None
         else let j = skip_ws s (j + 1) in
           if at s j \<noteq> 0x22 \<and> at s j \<noteq> 0x27 then None
           else (case run_end (at s j) s (j + 1) of
                   None \<Rightarrow> None
                 | Some (vend, ws) \<Rightarrow>
                     Some (\<lparr>name_off = a0, name_len = al, val_off = j + 1, val_len = vend - (j + 1), has_ws = ws\<rparr>, vend + 1)))"

lemma name_end_le: "j \<le> il_name_end s j"
proof (induction s j rule: il_name_end.induct)
  case (1 s j)
  then show ?case by (auto simp: il_name_end.simps[of s j])
qed

lemma probe_le: "probe_run k qc s q ws = Stop q' ws' \<Longrightarrow> q \<le> q'" "probe_run k qc s q ws = Ran q' ws' \<Longrightarrow> q \<le> q'"
  by (induction k qc s q ws rule: probe_run.induct) (auto simp: Let_def split: if_splits)

lemma run_end_le: "run_end qc s j = Some (e, ws) \<Longrightarrow> j \<le> e"
  by (auto simp: run_end_def split: probe.splits if_splits option.splits dest: probe_le)

lemma il_attribute_progress: "il_attribute s j = Some (a, j') \<Longrightarrow> j < length s \<and> j < j'"
proof -
  assume a: "il_attribute s j = Some (a, j')"
  then have "is_name_start (at s j)" by (simp add: il_attribute_def split: if_splits)
  then have "j < length s" by (rule il_at_inside) simp
  moreover have "j < j'"
    using a name_end_le[of j s] by (auto simp: il_attribute_def Let_def skip_ws_def split: if_splits option.splits dest!: run_end_le)
  ultimately show ?thesis by simp
qed

definition same_name :: "bytes \<Rightarrow> il_attr \<Rightarrow> il_attr \<Rightarrow> bool" where
  "same_name s p a \<longleftrightarrow> name_len p = name_len a \<and> slice s (name_off p) (name_len a) = slice s (name_off a) (name_len a)"

text \<open>
  The attributes up to the end of the tag; the earlier ones of the element are those from \<open>first\<close> on.
\<close>

function il_attributes :: "bytes \<Rightarrow> nat \<Rightarrow> il_attr list \<Rightarrow> nat option \<Rightarrow> nat \<Rightarrow> (nat \<times> bool \<times> il_attr list \<times> nat option \<times> nat) option" where
  "il_attributes s j as first acount =
    (let j = skip_ws s j in
     if at s j = 0x3E then Some (j + 1, False, as, first, acount)
     else if at s j = 0x2F \<and> at s (j + 1) = 0x3E then Some (j + 2, True, as, first, acount)
     else (case il_attribute s j of
             None \<Rightarrow> None
           | Some (a, j') \<Rightarrow>
               if 0 < acount \<and> list_ex (\<lambda>p. same_name s p a) (drop (the first) as) then None
               else il_attributes s j' (as @ [a]) (if acount = 0 then Some (length as) else first) (acount + 1)))"
  by pat_completeness auto
termination
  by (relation "measure (\<lambda>(s, j, as, first, acount). length s - j)")
    (auto dest!: il_attribute_progress simp: skip_ws_def)

declare il_attributes.simps [simp del]

section \<open>The scan\<close>

definition name_prefixed :: "bytes \<Rightarrow> bool" where
  "name_prefixed n \<longleftrightarrow> 3 \<le> length n \<and> 0x3A \<in> set n"

text \<open>A new record, chained behind the last child of the open element.\<close>

definition push_rec :: "nat \<Rightarrow> il_rec \<Rightarrow> il_ctx \<Rightarrow> il_ctx" where
  "push_rec cap r c =
    (let ri = length (recs c);
         rs = recs c @ [r];
         rs = (if has_open_parent r then
                 (case get_last cap c of None \<Rightarrow> rs | Some k \<Rightarrow> rs[k := (rs ! k)\<lparr>next_sib := Some ri\<rparr>])
               else rs) in
     set_last cap (Some ri) (c\<lparr>recs := rs\<rparr>))"

text \<open>Where the scan goes on: at a start tag, in the content of the open element, or it is done.\<close>

datatype il_next = Open nat | Content nat | Done nat nat nat

text \<open>Behind the root only blanks are left.\<close>

definition il_finish :: "bytes \<Rightarrow> nat \<Rightarrow> nat \<Rightarrow> il_next option" where
  "il_finish s root t0 = (let j = skip_ws s t0 in if at s j \<noteq> 0 then None else Some (Done root t0 (j - t0)))"

definition il_line :: "bytes \<Rightarrow> nat \<Rightarrow> nat" where
  "il_line s j = (if length s < 0x7FFFFFFF then j else 0)"

definition il_open :: "int \<Rightarrow> bytes \<Rightarrow> nat \<Rightarrow> il_ctx \<Rightarrow> (il_next \<times> il_ctx) option" where
  "il_open max_depth s i c =
    (if length s \<le> i + 1 then None
     else if at s (i + 1) = 0x21 \<or> at s (i + 1) = 0x3F then None
     else if \<not> is_name_start (at s (i + 1)) then None
     else let n0 = i + 1; j = il_name_end s n0; nl = j - n0; cap = stack_cap max_depth in
       (case il_attributes s j (attrs c) None 0 of
          None \<Rightarrow> None
        | Some (j, closed, as, first, acount) \<Rightarrow>
            let r = \<lparr>off = n0, len = nl, parent_rec = (if 0 < depth c then get_open c else None), next_sib = None,
                     line = (if length s < 0x7FFFFFFF then i + 1 else 0), start_tag_end = il_line s j,
                     elem_end = (if closed then il_line s j else 0), first_attr = first, attr_count = acount,
                     kind = IlElement, self_closing = closed, open_prefixed = name_prefixed (slice s n0 nl),
                     has_open_parent = 0 < depth c\<rparr>;
                ri = length (recs c);
                c = push_rec cap r (c\<lparr>attrs := as\<rparr>) in
            if \<not> closed then
              if depth_limit max_depth \<le> depth c then None
              else Some (Content j, c\<lparr>stacks := (stacks c)(depth c := Some ri, cap + depth c := None), depth := depth c + 1\<rparr>)
            else if depth c = 0 then map_option (\<lambda>n. (n, c)) (il_finish s ri j)
            else Some (Content j, c)))"

text \<open>The name in an end tag; for a prefixed element, what is behind its first colon.\<close>

definition close_name :: "il_rec \<Rightarrow> bytes \<Rightarrow> bytes" where
  "close_name el n = (if open_prefixed el then (case memchr n 0x3A of None \<Rightarrow> n | Some k \<Rightarrow> drop (k + 1) n) else n)"

definition il_close :: "int \<Rightarrow> bytes \<Rightarrow> nat \<Rightarrow> il_ctx \<Rightarrow> (il_next \<times> il_ctx) option" where
  "il_close max_depth s c0 c =
    (if \<not> is_name_start (at s c0) then None
     else let cs = il_name_end s c0; name = slice s c0 (cs - c0); cs = skip_ws s cs in
       if at s cs \<noteq> 0x3E then None
       else let cs = cs + 1 in
         if depth c = 0 then None
         else let oi = the (get_open c); el = recs c ! oi; cl = close_name el name in
           if len el \<noteq> length cl \<or> slice s (off el) (length cl) \<noteq> cl then None
           else let c = c\<lparr>recs := (recs c)[oi := el\<lparr>elem_end := il_line s cs\<rparr>], depth := depth c - 1\<rparr> in
             if depth c = 0 then map_option (\<lambda>n. (n, c)) (il_finish s oi cs)
             else Some (Content cs, c))"

definition il_content :: "int \<Rightarrow> bool \<Rightarrow> bytes \<Rightarrow> nat \<Rightarrow> il_ctx \<Rightarrow> (il_next \<times> il_ctx) option" where
  "il_content max_depth drop_ws s t0 c =
    (case run_end 0x3C s t0 of
       None \<Rightarrow> None
     | Some (j, _) \<Rightarrow>
         let tl = j - t0; cap = stack_cap max_depth;
             c = (if 0 < tl \<and> \<not> (drop_ws \<and> il_ws_only (slice s t0 tl)) then
                    push_rec cap \<lparr>off = t0, len = tl, parent_rec = get_open c, next_sib = None,
                      line = (if length s < 0x7FFFFFFF then t0 + 1 else 0), start_tag_end = 0, elem_end = 0,
                      first_attr = None, attr_count = 0, kind = IlText, self_closing = False, open_prefixed = False,
                      has_open_parent = True\<rparr> c
                  else c) in
         if length s \<le> j + 1 then None
         else if at s (j + 1) = 0x21 \<or> at s (j + 1) = 0x3F then None
         else if at s (j + 1) \<noteq> 0x2F then Some (Open j, c)
         else il_close max_depth s (j + 2) c)"

lemma finish_done: "il_finish s r t = Some n \<Longrightarrow> \<exists>k. n = Done r t k"
  by (auto simp: il_finish_def Let_def split: if_splits)

lemma il_attributes_le: "il_attributes s j as first k = Some (j', closed, as', first', k') \<Longrightarrow> j < j'"
proof (induction s j as first k rule: il_attributes.induct)
  case (1 s j as first k)
  let ?j = "skip_ws s j"
  have j: "j \<le> ?j" by (simp add: skip_ws_def)
  show ?case
  proof (cases "at s ?j = 0x3E \<or> at s ?j = 0x2F \<and> at s (?j + 1) = 0x3E")
    case True
    then show ?thesis using "1.prems" j by (auto simp: il_attributes.simps[of s j] Let_def split: if_splits)
  next
    case False
    then obtain a i where a: "il_attribute s ?j = Some (a, i)"
      "il_attributes s i (as @ [a]) (if k = 0 then Some (length as) else first) (k + 1) = Some (j', closed, as', first', k')"
      "\<not> (0 < k \<and> list_ex (\<lambda>p. same_name s p a) (drop (the first) as))"
      using "1.prems" by (auto simp: il_attributes.simps[of s j] Let_def split: if_splits option.splits)
    have "i < j'" using "1.IH"[OF refl _ _ a(1) refl a(3) a(2)] False by blast
    then show ?thesis using il_attribute_progress[OF a(1)] j by simp
  qed
qed

lemma open_next: "il_open max_depth s i c = Some (n, c') \<Longrightarrow> (\<exists>j. n = Content j \<and> i < j \<and> i < length s) \<or> (\<exists>r t k. n = Done r t k)"
  using name_end_le[of "i + 1" s]
  by (fastforce simp: il_open_def Let_def split: if_splits option.splits prod.splits dest: finish_done il_attributes_le)

lemma close_next: "il_close max_depth s j c = Some (n, c') \<Longrightarrow> (\<exists>k. n = Content k \<and> j < k) \<or> (\<exists>r t k. n = Done r t k)"
  using name_end_le[of j s]
  by (fastforce simp: il_close_def Let_def skip_ws_def split: if_splits dest: finish_done)

lemma content_next:
  assumes "il_content max_depth drop_ws s t0 c = Some (n, c')"
  shows "(\<exists>j. n = Open j \<and> t0 \<le> j \<and> t0 < length s) \<or> (\<exists>j. n = Content j \<and> t0 < j \<and> t0 < length s) \<or> (\<exists>r t k. n = Done r t k)"
proof -
  obtain j ws where j: "run_end 0x3C s t0 = Some (j, ws)" "j + 1 < length s"
    using assms by (auto simp: il_content_def Let_def split: option.splits if_splits)
  note le = run_end_le[OF j(1)]
  show ?thesis
  proof (cases "at s (j + 1) = 0x2F")
    case True
    then obtain c'' where "il_close max_depth s (j + 2) c'' = Some (n, c')"
      using assms j by (auto simp: il_content_def Let_def split: if_splits)
    from close_next[OF this] show ?thesis using le j by auto
  next
    case False
    then have "n = Open j" using assms j by (auto simp: il_content_def Let_def split: if_splits)
    then show ?thesis using le j by auto
  qed
qed

function il_loop :: "int \<Rightarrow> bool \<Rightarrow> bytes \<Rightarrow> il_next \<Rightarrow> il_ctx \<Rightarrow> (il_ctx \<times> nat \<times> nat \<times> nat) option" where
  "il_loop max_depth drop_ws s n c =
    (case n of
       Done root t k \<Rightarrow> Some (c, root, t, k)
     | Open i \<Rightarrow>
         (case il_open max_depth s i c of None \<Rightarrow> None | Some (n, c) \<Rightarrow> il_loop max_depth drop_ws s n c)
     | Content j \<Rightarrow>
         (case il_content max_depth drop_ws s j c of None \<Rightarrow> None | Some (n, c) \<Rightarrow> il_loop max_depth drop_ws s n c))"
  by pat_completeness auto
termination
  by (relation "measures [\<lambda>(m, d, s, n, c). case n of Open i \<Rightarrow> Suc (length s - i) | Content j \<Rightarrow> Suc (length s - j) | Done r t k \<Rightarrow> 0,
      \<lambda>(m, d, s, n, c). case n of Content j \<Rightarrow> 1 | _ \<Rightarrow> 0]") (auto dest!: open_next content_next)

declare il_loop.simps [simp del]

definition empty_ctx :: il_ctx where
  "empty_ctx = \<lparr>recs = [], attrs = [], stacks = (\<lambda>_. Some 0), depth = 0\<rparr>"

text \<open>
  Blanks and a byte order mark may come first. The byte at the start of the first tag is not looked at.
\<close>

definition leptris_il_scan :: "int \<Rightarrow> bytes \<Rightarrow> bool \<Rightarrow> (il_ctx \<times> nat \<times> nat \<times> nat) option" where
  "leptris_il_scan max_depth s drop_ws =
    (let i = (if 3 \<le> length s \<and> at s 0 = 0xEF \<and> at s 1 = 0xBB \<and> at s 2 = 0xBF then 3 else 0);
         i = skip_ws s i in
     if length s \<le> i then None
     else il_loop max_depth drop_ws s (Open i) empty_ctx)"

definition leptris_il_run :: "int \<Rightarrow> bytes \<Rightarrow> bool \<Rightarrow> (il_ctx \<times> nat) option" where
  "leptris_il_run max_depth xml drop_ws =
    (if xml = [] \<or> 0x7FFFFFFF \<le> length xml then None
     else map_option (\<lambda>(c, root, _). (c, root)) (leptris_il_scan max_depth xml drop_ws))"

end
