(* ===== verification/IlTree.thy ===== *)
theory IlTree
  imports IlScan
begin

text \<open>
  Documents of the interleaved lane as they are written, their print, and the tables of records and
  attributes that the scan makes of them: the scan of a printed document is computed exactly.
\<close>

section \<open>Documents and their print\<close>

text \<open>
  An attribute has blanks in front of it, and before and behind the equals sign. An element is
  self-closing, or has content and an end tag with a name and blanks.
\<close>

record xattr =
  xblank :: bytes
  xname :: bytes
  xbefore :: bytes
  xafter :: bytes
  xquote :: u8
  xvalue :: bytes

datatype xnode = Chars bytes | Closed bytes "xattr list" bytes | Elem bytes "xattr list" bytes "xnode list" bytes bytes

definition print_attr :: "xattr \<Rightarrow> bytes" where
  "print_attr a = xblank a @ xname a @ xbefore a @ [0x3D] @ xafter a @ [xquote a] @ xvalue a @ [xquote a]"

definition print_tag :: "bytes \<Rightarrow> xattr list \<Rightarrow> bytes \<Rightarrow> bytes" where
  "print_tag n as w = [0x3C] @ n @ concat (map print_attr as) @ w"

fun print_node :: "xnode \<Rightarrow> bytes" and print_nodes :: "xnode list \<Rightarrow> bytes" where
  "print_node (Chars t) = t"
| "print_node (Closed n as w) = print_tag n as w @ [0x2F, 0x3E]"
| "print_node (Elem n as w cs en w') = print_tag n as w @ [0x3E] @ print_nodes cs @ [0x3C, 0x2F] @ en @ w' @ [0x3E]"
| "print_nodes [] = []"
| "print_nodes (c # cs) = print_node c @ print_nodes cs"

definition name_ok :: "bytes \<Rightarrow> bool" where
  "name_ok n \<longleftrightarrow> n \<noteq> [] \<and> is_name_start (hd n) \<and> list_all is_name_char n"

definition attr_ok :: "xattr \<Rightarrow> bool" where
  "attr_ok a \<longleftrightarrow> name_ok (xname a) \<and> take 5 (xname a) \<noteq> ascii ''xmlns'' \<and> (xquote a = 0x22 \<or> xquote a = 0x27)
    \<and> xquote a \<notin> set (xvalue a) \<and> 0x26 \<notin> set (xvalue a)
    \<and> list_all is_ws (xblank a) \<and> list_all is_ws (xbefore a) \<and> list_all is_ws (xafter a)"

definition attrs_ok :: "xattr list \<Rightarrow> bool" where
  "attrs_ok as \<longleftrightarrow> list_all attr_ok as \<and> distinct (map xname as) \<and> (as \<noteq> [] \<longrightarrow> xblank (hd as) \<noteq> [])"

definition is_chars :: "xnode \<Rightarrow> bool" where
  "is_chars c \<longleftrightarrow> (case c of Chars _ \<Rightarrow> True | _ \<Rightarrow> False)"

text \<open>
  The name in the end tag is that of the start tag. For a name with a prefix, what is behind the first
  colon of the end tag is compared with the whole name of the start tag.
\<close>

definition close_of :: "bytes \<Rightarrow> bytes \<Rightarrow> bytes" where
  "close_of n en = (if name_prefixed n then (case memchr en 0x3A of None \<Rightarrow> en | Some k \<Rightarrow> drop (k + 1) en) else en)"

fun node_ok :: "xnode \<Rightarrow> bool" and nodes_ok :: "xnode list \<Rightarrow> bool" where
  "node_ok (Chars t) \<longleftrightarrow> t \<noteq> [] \<and> 0x3C \<notin> set t \<and> 0x26 \<notin> set t"
| "node_ok (Closed n as w) \<longleftrightarrow> name_ok n \<and> attrs_ok as \<and> list_all is_ws w"
| "node_ok (Elem n as w cs en w') \<longleftrightarrow>
    name_ok n \<and> attrs_ok as \<and> list_all is_ws w \<and> nodes_ok cs \<and> name_ok en \<and> close_of n en = n \<and> list_all is_ws w'"
| "nodes_ok [] \<longleftrightarrow> True"
| "nodes_ok (c # cs) \<longleftrightarrow> node_ok c \<and> nodes_ok cs \<and> \<not> (is_chars c \<and> cs \<noteq> [] \<and> is_chars (hd cs))"

text \<open>The depth of the elements that have content.\<close>

fun levels :: "xnode \<Rightarrow> nat" and levels_list :: "xnode list \<Rightarrow> nat" where
  "levels (Chars t) = 0"
| "levels (Closed n as w) = 0"
| "levels (Elem n as w cs en w') = Suc (levels_list cs)"
| "levels_list [] = 0"
| "levels_list (c # cs) = max (levels c) (levels_list cs)"

section \<open>The tables of a document\<close>

text \<open>The entry of an attribute whose print starts at \<open>j\<close>.\<close>

definition attr_entry :: "nat \<Rightarrow> xattr \<Rightarrow> il_attr" where
  "attr_entry j a =
    (let n = j + length (xblank a); v = n + length (xname a) + length (xbefore a) + length (xafter a) + 2 in
     \<lparr>name_off = n, name_len = length (xname a), val_off = v, val_len = length (xvalue a), has_ws = list_ex line_ws (xvalue a)\<rparr>)"

fun attr_entries :: "nat \<Rightarrow> xattr list \<Rightarrow> il_attr list" where
  "attr_entries j [] = []"
| "attr_entries j (a # as) = attr_entry j a # attr_entries (j + length (print_attr a)) as"

fun node_attrs :: "nat \<Rightarrow> xnode \<Rightarrow> il_attr list" and nodes_attrs :: "nat \<Rightarrow> xnode list \<Rightarrow> il_attr list" where
  "node_attrs j (Chars t) = []"
| "node_attrs j (Closed n as w) = attr_entries (j + 1 + length n) as"
| "node_attrs j (Elem n as w cs en w') =
    attr_entries (j + 1 + length n) as @ nodes_attrs (j + length (print_tag n as w) + 1) cs"
| "nodes_attrs j [] = []"
| "nodes_attrs j (c # cs) = node_attrs j c @ nodes_attrs (j + length (print_node c)) cs"

text \<open>\<open>ok\<close> tells whether positions are recorded, \<open>r\<close> is the next record and \<open>a\<close> the next attribute.\<close>

definition text_rec :: "bool \<Rightarrow> nat \<Rightarrow> nat option \<Rightarrow> bytes \<Rightarrow> il_rec" where
  "text_rec ok j p t =
    \<lparr>off = j, len = length t, parent_rec = p, next_sib = None, line = (if ok then j + 1 else 0), start_tag_end = 0, elem_end = 0,
     first_attr = None, attr_count = 0, kind = IlText, self_closing = False, open_prefixed = False, has_open_parent = True\<rparr>"

definition elem_rec :: "bool \<Rightarrow> nat \<Rightarrow> nat \<Rightarrow> nat option \<Rightarrow> bytes \<Rightarrow> nat \<Rightarrow> nat \<Rightarrow> nat \<Rightarrow> bool \<Rightarrow> il_rec" where
  "elem_rec ok j a p n k tag_end el_end closed =
    \<lparr>off = j + 1, len = length n, parent_rec = p, next_sib = None, line = (if ok then j + 1 else 0),
     start_tag_end = (if ok then tag_end else 0), elem_end = (if ok then el_end else 0),
     first_attr = (if k = 0 then None else Some a), attr_count = k, kind = IlElement, self_closing = closed,
     open_prefixed = name_prefixed n, has_open_parent = (p \<noteq> None)\<rparr>"

definition dropped :: "bool \<Rightarrow> xnode \<Rightarrow> bool" where
  "dropped drop_ws c \<longleftrightarrow> (case c of Chars t \<Rightarrow> drop_ws \<and> il_ws_only t | _ \<Rightarrow> False)"

fun node_recs :: "bool \<Rightarrow> bool \<Rightarrow> nat \<Rightarrow> nat \<Rightarrow> nat \<Rightarrow> nat option \<Rightarrow> xnode \<Rightarrow> il_rec list"
  and nodes_recs :: "bool \<Rightarrow> bool \<Rightarrow> nat \<Rightarrow> nat \<Rightarrow> nat \<Rightarrow> nat option \<Rightarrow> xnode list \<Rightarrow> il_rec list" where
  "node_recs ok d j r a p (Chars t) = [text_rec ok j p t]"
| "node_recs ok d j r a p (Closed n as w) =
    (let e = j + length (print_node (Closed n as w)) in [elem_rec ok j a p n (length as) e e True])"
| "node_recs ok d j r a p (Elem n as w cs en w') =
    elem_rec ok j a p n (length as) (j + length (print_tag n as w) + 1) (j + length (print_node (Elem n as w cs en w'))) False
    # nodes_recs ok d (j + length (print_tag n as w) + 1) (r + 1) (a + length as) (Some r) cs"
| "nodes_recs ok d j r a p [] = []"
| "nodes_recs ok d j r a p (c # cs) =
    (let j' = j + length (print_node c) in
     if dropped d c then nodes_recs ok d j' r a p cs
     else let rs = node_recs ok d j r a p c; r' = r + length rs;
              next = (if list_all (dropped d) cs then None else Some r') in
       (hd rs)\<lparr>next_sib := next\<rparr> # tl rs @ nodes_recs ok d j' r' (a + length (node_attrs j c)) p cs)"

lemma close_name_rec: "close_name (elem_rec ok j a p n k tag_end el_end closed) en = close_of n en"
  by (simp add: close_name_def close_of_def elem_rec_def)

lemma node_recs_not_Nil [simp]: "node_recs ok d j r a p c \<noteq> []"
  by (cases c) (simp_all add: Let_def)

section \<open>Steps over printed text\<close>

lemma at_here [simp]: "drop j s = c # q \<Longrightarrow> at s j = c"
  by (simp add: at_def)

lemma at_hd: "drop j s = p @ q \<Longrightarrow> p \<noteq> [] \<Longrightarrow> at s j = hd p"
  by (cases p) simp_all

lemma drop_on: "drop j s = p @ q \<Longrightarrow> drop (j + length p) s = q"
  by (metis append_eq_conv_conj drop_drop add.commute)

lemma slice_here: "drop j s = p @ q \<Longrightarrow> slice s j (length p) = p"
  by (simp add: slice_def)

lemma skip_ws_run: "drop j s = w @ q \<Longrightarrow> list_all is_ws w \<Longrightarrow> (q = [] \<or> \<not> is_ws (hd q)) \<Longrightarrow> skip_ws s j = j + length w"
  by (cases q) (auto simp: skip_ws_def list_all_iff takeWhile_append takeWhile_eq_all_conv[THEN iffD2] simp del: length_drop)

lemma name_run_end: "il_name_end s j = j + length (takeWhile is_name_char (drop j s))"
proof (induction s j rule: il_name_end.induct)
  case (1 s j)
  have at: "at s i = (case drop i s of [] \<Rightarrow> 0 | c # _ \<Rightarrow> c)" for i by (simp add: at_def)
  have step: "length (takeWhile is_name_char (drop i s)) =
      (if is_name_char (at s i) then Suc (length (takeWhile is_name_char (drop (Suc i) s))) else 0)" for i
    by (cases "drop i s") (auto simp: at_def drop_Suc tl_drop[symmetric])
  show ?case
    using 1 step[of j] step[of "j + 1"] step[of "j + 2"] step[of "j + 3"]
    by (simp add: il_name_end.simps[of s j] numeral_eq_Suc)
qed

lemma name_end_run:
  assumes "drop j s = n @ q" "list_all is_name_char n" "q = [] \<or> \<not> is_name_char (hd q)"
  shows "il_name_end s j = j + length n"
  using assms by (cases q) (auto simp: name_run_end list_all_iff takeWhile_append takeWhile_eq_all_conv[THEN iffD2] simp del: length_drop)

text \<open>The probe and the kernels together find the delimiter, unless an ampersand comes first.\<close>

abbreviation upto :: "u8 \<Rightarrow> bytes \<Rightarrow> bytes" where
  "upto c \<equiv> takeWhile (\<lambda>x. x \<noteq> c)"

lemma upto_shorter: "length (upto c p) < length p \<longleftrightarrow> c \<in> set p"
  by (induction p) auto

lemma memchr_upto: "memchr p c = (if c \<in> set p then Some (length (upto c p)) else None)"
  by (induction p) auto

lemma probe_result:
  assumes "qc \<noteq> 0" "qc \<noteq> 0x26"
  shows "probe_run k qc s q ws =
    (let p = take k (drop q s); v = upto qc p in
     if 0x26 \<in> set v then Ampersand
     else if qc \<in> set p then Stop (q + length v) (ws \<or> list_ex line_ws v)
     else Ran (q + k) (ws \<or> list_ex line_ws v))"
proof (induction k arbitrary: q ws)
  case (Suc k)
  show ?case
  proof (cases "drop q s")
    case Nil
    then have "at s q = 0" "drop (q + 1) s = []" by (simp_all add: at_def)
    then show ?thesis using Suc[of "q + 1"] Nil assms by (simp add: line_ws_def)
  next
    case (Cons c r)
    then have "drop (q + 1) s = r" by (metis add.commute drop_Suc list.sel(3) plus_1_eq_Suc tl_drop)
    then show ?thesis using Suc[of "q + 1"] Cons assms by (auto simp: Let_def)
  qed
qed simp

lemma run_end_iff:
  assumes "qc \<noteq> 0" "qc \<noteq> 0x26"
  shows "run_end qc s j = (let p = drop j s; v = upto qc p in
    if qc \<in> set p \<and> 0x26 \<notin> set v then Some (j + length v, list_ex line_ws v) else None)"
proof -
  define P Q where "P = take 48 (drop j s)" and "Q = drop (j + 48) s"
  then have p: "drop j s = P @ Q" by (metis append_take_drop_id drop_drop add.commute)
  have q: "drop (j + 48) s = Q" by (simp add: Q_def)
  note r = probe_result[OF assms, of 48 s j False, folded P_def]
  show ?thesis
  proof (cases "qc \<in> set P")
    case True
    then have "upto qc (drop j s) = upto qc P" "qc \<in> set (drop j s)" using p True takeWhile_append1[of qc P "\<lambda>x. x \<noteq> qc" Q] by simp_all
    then show ?thesis using True by (simp add: run_end_def r Let_def)
  next
    case False
    then have v: "upto qc P = P" by (simp add: takeWhile_eq_all_conv) blast
    have w: "upto qc (drop j s) = P @ upto qc Q" unfolding p by (rule takeWhile_append2) (use False in auto)
    have m: "qc \<in> set (drop j s) \<longleftrightarrow> qc \<in> set Q" using False p by simp
    have l: "length P = 48" if "qc \<in> set Q"
    proof -
      have "Q \<noteq> []" using that by auto
      then have "j + 48 < length s" by (simp add: Q_def)
      then show ?thesis by (simp add: P_def)
    qed
    have e: "\<not> length s \<le> j + 48" if "qc \<in> set Q" using that by (auto simp: Q_def)
    have r: "probe_run 48 qc s j False = (if 0x26 \<in> set P then Ampersand else Ran (j + 48) (list_ex line_ws P))"
      unfolding r Let_def v using False by simp
    have c: "contains_scalar (upto qc Q) 0x26 \<longleftrightarrow> 0x26 \<in> set (upto qc Q)"
      by (simp add: contains_scalar_def contains_loop_iff memchr_None)
    have t: "slice s (j + 48) (length (upto qc Q)) = upto qc Q" unfolding slice_def q by (metis takeWhile_eq_take)
    show ?thesis
    proof (cases "qc \<in> set Q")
      case True
      then have "run_end qc s j = (if 0x26 \<in> set P \<or> 0x26 \<in> set (upto qc Q) then None
          else Some (j + 48 + length (upto qc Q), list_ex line_ws P \<or> list_ex line_ws (upto qc Q)))"
        using e c t by (auto simp: run_end_def r memchr_upto q)
      then show ?thesis using m True l by (simp add: w Let_def add.assoc)
    next
      case f: False
      then have "run_end qc s j = None" by (simp add: run_end_def r memchr_upto q)
      then show ?thesis using m f by (simp add: Let_def)
    qed
  qed
qed

lemma run_end_run:
  assumes "drop j s = v @ qc # q" "qc \<notin> set v" "0x26 \<notin> set v" "qc \<noteq> 0" "qc \<noteq> 0x26"
  shows "run_end qc s j = Some (j + length v, list_ex line_ws v)"
proof -
  have "upto qc (v @ qc # q) = v" using assms(2) by (induction v) auto
  then show ?thesis using assms by (simp add: run_end_iff)
qed

end
