(* ===== verification/IlExact.thy ===== *)
theory IlExact
  imports IlTree
begin

text \<open>
  The scan of a printed document: each step of \<open>leptris_il_scan\<close> over the print of a node, and from
  them the tables of the whole document.
\<close>

section \<open>Attributes\<close>

lemma drop_cons: "drop j s = c # q \<Longrightarrow> drop (Suc j) s = q"
  using drop_on[of j s "[c]" q] by simp

lemma name_ok_hd: "name_ok n \<Longrightarrow> is_name_start (hd n) \<and> n \<noteq> [] \<and> list_all is_name_char n"
  by (simp add: name_ok_def)

lemma delimiters [simp]:
  "\<not> is_name_char 0x3E" "\<not> is_name_char 0x2F" "\<not> is_name_char 0x3D" "\<not> is_name_start 0x3E" "\<not> is_name_start 0x2F"
  "\<not> is_ws 0x3E" "\<not> is_ws 0x2F" "\<not> is_ws 0x3D" "\<not> is_ws 0x22" "\<not> is_ws 0x27" "\<not> is_ws 0x3C"
  by (simp_all add: name_char_iff name_start_iff ws_iff)

lemma start_no_ws: "is_name_start c \<Longrightarrow> \<not> is_ws c" "is_name_start c \<Longrightarrow> c \<noteq> 0x3E" "is_name_start c \<Longrightarrow> c \<noteq> 0x2F"
  "is_name_start c \<Longrightarrow> c \<noteq> 0x21" "is_name_start c \<Longrightarrow> c \<noteq> 0x3F"
  by (auto simp: name_start_iff ws_iff)

lemma ws_no_name: "is_ws c \<Longrightarrow> \<not> is_name_char c"
  by (auto simp: name_char_iff name_start_iff ws_iff)

lemma hd_ws: "list_all is_ws w \<Longrightarrow> \<not> is_name_char c \<Longrightarrow> \<not> is_name_char (hd (w @ c # q))"
  by (cases w) (auto simp: ws_no_name)

lemma attribute_print:
  assumes "attr_ok a" "drop j s = print_attr a @ q"
  shows "skip_ws s j = j + length (xblank a)"
    "il_attribute s (j + length (xblank a)) = Some (attr_entry j a, j + length (print_attr a))"
    "slice s (name_off (attr_entry j a)) (name_len (attr_entry j a)) = xname a"
    "is_name_start (at s (j + length (xblank a)))"
proof -
  let ?n = "xname a" and ?v = "xvalue a" and ?c = "xquote a"
  have ok: "name_ok ?n" "take 5 ?n \<noteq> ascii ''xmlns''" "?c = 0x22 \<or> ?c = 0x27" "?c \<notin> set ?v" "0x26 \<notin> set ?v"
    "list_all is_ws (xblank a)" "list_all is_ws (xbefore a)" "list_all is_ws (xafter a)"
    using assms(1) by (simp_all add: attr_ok_def)
  note n = name_ok_hd[OF ok(1)]
  define j1 j2 j3 j4 where "j1 = j + length (xblank a)" and "j2 = j1 + length ?n" and "j3 = j2 + length (xbefore a)"
    and "j4 = j3 + 1 + length (xafter a)"
  note js = j1_def j2_def j3_def j4_def
  have d1: "drop j1 s = ?n @ xbefore a @ 0x3D # xafter a @ ?c # ?v @ ?c # q"
    using drop_on[OF assms(2)[unfolded print_attr_def append_assoc]] by (simp add: js)
  note d2 = drop_on[OF d1, folded j2_def] note d3 = drop_on[OF d2, folded j3_def]
  have d4: "drop j4 s = ?c # ?v @ ?c # q" using drop_on[OF drop_cons[OF d3]] by (simp add: js)
  show "skip_ws s j = j + length (xblank a)"
    using skip_ws_run[OF assms(2)[unfolded print_attr_def append_assoc] ok(6)] n start_no_ws(1) by (auto simp: hd_append)
  have e: "il_name_end s j1 = j2" "skip_ws s j2 = j3" "skip_ws s (j3 + 1) = j4"
    using name_end_run[OF d1] n hd_ws[OF ok(7), of "0x3D"] skip_ws_run[OF d2 ok(7)] skip_ws_run[OF drop_cons[OF d3] ok(8)] ok(3)
    by (auto simp: js)
  have r: "run_end ?c s (j4 + 1) = Some (j4 + 1 + length ?v, list_ex line_ws ?v)"
    using run_end_run[OF drop_cons[OF d4] ok(4,5)] ok(3) by auto
  have x: "\<not> (5 \<le> length ?n \<and> slice s j1 5 = ascii ''xmlns'')"
  proof -
    have "5 \<le> length ?n \<Longrightarrow> slice s j1 5 = take 5 ?n" using d1 by (simp add: slice_def)
    then show ?thesis using ok(2) by auto
  qed
  have s: "is_name_start (at s j1)" using at_hd[OF d1] n by auto
  have q: "at s j4 = ?c" "at s j3 = 0x3D" using d3 d4 by simp_all
  have l: "j + length (print_attr a) = j4 + 2 + length ?v" by (simp add: print_attr_def js)
  have en: "attr_entry j a = \<lparr>name_off = j1, name_len = j2 - j1, val_off = j4 + 1, val_len = length ?v, has_ws = list_ex line_ws ?v\<rparr>"
    by (simp add: attr_entry_def js Let_def)
  show "il_attribute s (j + length (xblank a)) = Some (attr_entry j a, j + length (print_attr a))"
    unfolding il_attribute_def j1_def[symmetric] e Let_def q l en using s x ok(3) r by (auto simp: js)
  show "slice s (name_off (attr_entry j a)) (name_len (attr_entry j a)) = xname a"
    using slice_here[OF d1] by (simp add: en js)
  show "is_name_start (at s (j + length (xblank a)))" using s by (simp add: js)
qed

lemma attributes_print:
  assumes "list_all attr_ok as" "list_all is_ws w" "drop j s = concat (map print_attr as) @ w @ e @ q"
    "closed \<and> e = [0x2F, 0x3E] \<or> \<not> closed \<and> e = [0x3E]"
    "map (\<lambda>p. slice s (name_off p) (name_len p)) (drop f A) = N" "distinct (N @ map xname as)" "length A = f + k"
  shows "il_attributes s j A (if k = 0 then None else Some f) k =
    Some (j + length (concat (map print_attr as) @ w @ e), closed, A @ attr_entries j as,
      (if k + length as = 0 then None else Some f), k + length as)"
  using assms
proof (induction as arbitrary: j A k N)
  case Nil
  have d: "drop (j + length w) s = e @ q" using drop_on[of j s w "e @ q"] Nil.prems(3) by simp
  have "e \<noteq> []" "\<not> is_ws (hd e)" using Nil.prems(4) by auto
  then have w: "skip_ws s j = j + length w" using skip_ws_run[of j s w "e @ q"] Nil.prems(2,3) by simp
  show ?case
  proof (cases closed)
    case True
    then have d: "drop (j + length w) s = 0x2F # 0x3E # q" using d Nil.prems(4) by simp
    then have "at s (j + length w) = 0x2F" "at s (Suc (j + length w)) = 0x3E" using drop_cons[OF d] by simp_all
    then show ?thesis using w Nil.prems(4) True by (simp add: il_attributes.simps[of s j] Let_def)
  next
    case False
    then have "at s (j + length w) = 0x3E" using d Nil.prems(4) by auto
    then show ?thesis using w Nil.prems(4) False by (simp add: il_attributes.simps[of s j] Let_def)
  qed
next
  case (Cons a as)
  have ok: "attr_ok a" "name_ok (xname a)" using Cons.prems(1) by (simp_all add: attr_ok_def)
  have d: "drop j s = print_attr a @ concat (map print_attr as) @ w @ e @ q" using Cons.prems(3) by simp
  note p = attribute_print[OF ok(1) d] note d' = drop_on[OF d]
  let ?j = "j + length (xblank a)" and ?a = "attr_entry j a"
  have s: "at s ?j \<noteq> 0x3E" "at s ?j \<noteq> 0x2F" using start_no_ws(2,3)[OF p(4)] by simp_all
  have fresh: "\<not> list_ex (\<lambda>p. same_name s p ?a) (drop f A)"
  proof
    assume "list_ex (\<lambda>p. same_name s p ?a) (drop f A)"
    then obtain x where "x \<in> set (drop f A)" "same_name s x ?a" by (auto simp: list_ex_iff)
    then have "slice s (name_off x) (name_len x) = xname a" using p(3) by (simp add: same_name_def)
    then have "xname a \<in> set N" using \<open>x \<in> set (drop f A)\<close> Cons.prems(5) by force
    then show False using Cons.prems(6) by simp
  qed
  have f: "f \<le> length A" "k = 0 \<Longrightarrow> f = length A" using Cons.prems(7) by simp_all
  have IH: "il_attributes s (j + length (print_attr a)) (A @ [?a]) (if Suc k = 0 then None else Some f) (Suc k) =
    Some (j + length (print_attr a) + length (concat (map print_attr as) @ w @ e), closed, (A @ [?a]) @ attr_entries (j + length (print_attr a)) as,
      (if Suc k + length as = 0 then None else Some f), Suc k + length as)"
    by (rule Cons.IH[where N = "N @ [xname a]"]) (use Cons.prems p(3) d' f in auto)
  have "il_attributes s j A (if k = 0 then None else Some f) k = il_attributes s (j + length (print_attr a)) (A @ [?a]) (Some f) (Suc k)"
    using s fresh f by (subst il_attributes.simps) (simp add: p Let_def)
  then show ?case using IH by simp
qed

section \<open>Steps of the scan\<close>

abbreviation positions :: "bytes \<Rightarrow> bool" where
  "positions s \<equiv> length s < 0x7FFFFFFF"

text \<open>The last child is chained to the next record.\<close>

definition chain :: "nat option \<Rightarrow> nat \<Rightarrow> il_rec list \<Rightarrow> il_rec list" where
  "chain l v R = (case l of None \<Rightarrow> R | Some k \<Rightarrow> R[k := (R ! k)\<lparr>next_sib := Some v\<rparr>])"

definition in_range :: "nat option \<Rightarrow> 'a list \<Rightarrow> bool" where
  "in_range l R \<longleftrightarrow> (\<forall>k. l = Some k \<longrightarrow> k < length R)"

lemma length_chain [simp]: "length (chain l v R) = length R"
  by (simp add: chain_def split: option.split)

lemma chain_None [simp]: "chain None v R = R"
  by (simp add: chain_def)

lemma chain_append: "in_range l R \<Longrightarrow> chain l v (R @ S) = chain l v R @ S"
  by (auto simp: chain_def in_range_def nth_append list_update_append split: option.split)

lemma chain_next: "r = length R \<Longrightarrow> chain (Some r) v (R @ x # S) = R @ x\<lparr>next_sib := Some v\<rparr> # S"
  by (simp add: chain_def)

lemma push_rec_eq:
  assumes "in_range (get_last cap c) (recs c)"
  shows "push_rec cap r c = set_last cap (Some (length (recs c)))
    (c\<lparr>recs := chain (if has_open_parent r then get_last cap c else None) (length (recs c)) (recs c) @ [r]\<rparr>)"
proof -
  have "chain (get_last cap c) v (recs c @ [r]) = chain (get_last cap c) v (recs c) @ [r]" for v by (rule chain_append[OF assms])
  then show ?thesis by (auto simp: push_rec_def chain_def Let_def split: option.splits)
qed

definition context_ok :: "nat \<Rightarrow> il_ctx \<Rightarrow> bool" where
  "context_ok cap c \<longleftrightarrow> (0 < depth c \<longrightarrow> get_open c \<noteq> None \<and> in_range (get_last cap c) (recs c)) \<and> depth c \<le> cap \<and> 0 < cap"

text \<open>What a node changes: the tables grow, and it becomes the last child of the open element.\<close>

definition scanned :: "nat \<Rightarrow> il_ctx \<Rightarrow> il_ctx \<Rightarrow> il_rec list \<Rightarrow> il_attr list \<Rightarrow> nat option \<Rightarrow> bool" where
  "scanned cap c c' R A l \<longleftrightarrow> recs c' = R \<and> attrs c' = A \<and> depth c' = depth c \<and> (\<forall>i < depth c. stacks c' i = stacks c i)
    \<and> (\<forall>i. i + 1 < depth c \<longrightarrow> stacks c' (cap + i) = stacks c (cap + i)) \<and> (0 < depth c \<longrightarrow> get_last cap c' = l)"

definition parent_of :: "il_ctx \<Rightarrow> nat option" where
  "parent_of c = (if depth c = 0 then None else get_open c)"

definition last_of :: "nat \<Rightarrow> il_ctx \<Rightarrow> nat option" where
  "last_of cap c = (if depth c = 0 then None else get_last cap c)"

definition behind :: "bytes \<Rightarrow> il_ctx \<Rightarrow> nat \<Rightarrow> nat \<Rightarrow> il_next option" where
  "behind s c r j = (if depth c = 0 then il_finish s r j else Some (Content j))"

lemma cap_limit: "depth_limit m \<le> stack_cap m" "0 < stack_cap m"
  by (simp_all add: depth_limit_def stack_cap_def DP_MAX_DEPTH_def LEPTRIS_IL_MAX_DEPTH_def Let_def)

lemma open_print:
  assumes "drop (i + 1) s = tl (print_tag n as w) @ e @ q" "name_ok n" "attrs_ok as" "list_all is_ws w"
    "closed \<and> e = [0x2F, 0x3E] \<or> \<not> closed \<and> e = [0x3E]" "context_ok cap c" "cap = stack_cap m"
  shows "\<exists>c1. il_open m s i c =
      (let j = i + length (print_tag n as w @ e); r = length (recs c) in
       if closed then map_option (\<lambda>n. (n, c1)) (behind s c r j)
       else if depth_limit m \<le> depth c then None
       else Some (Content j, c1\<lparr>stacks := (stacks c1)(depth c := Some r, cap + depth c := None), depth := depth c + 1\<rparr>))
    \<and> scanned cap c c1 (chain (last_of cap c) (length (recs c)) (recs c) @
        [elem_rec (positions s) i (length (attrs c)) (parent_of c) n (length as) (i + length (print_tag n as w @ e))
          (if closed then i + length (print_tag n as w @ e) else 0) closed])
      (attrs c @ attr_entries (i + 1 + length n) as) (Some (length (recs c)))"
proof -
  note n = name_ok_hd[OF assms(2)]
  define j0 j1 where "j0 = i + 1" and "j1 = j0 + length n"
  have d0: "drop j0 s = n @ concat (map print_attr as) @ w @ e @ q"
    using assms(1) by (simp add: print_tag_def j0_def)
  note d1 = drop_on[OF d0, folded j1_def]
  have h: "at s j0 = hd n" using at_hd[OF d0] n by simp
  then have nb: "at s j0 \<noteq> 0x21" "at s j0 \<noteq> 0x3F" "is_name_start (at s j0)" using start_no_ws(4,5) n by metis+
  then have l: "\<not> length s \<le> i + 1" using il_at_inside[of is_name_start s j0] by (simp add: j0_def)
  have "\<not> is_name_char (hd (concat (map print_attr as) @ w @ e @ q))"
  proof (cases as)
    case Nil
    then show ?thesis using hd_ws[of w "hd e" "tl e @ q"] assms(4,5) by auto
  next
    case (Cons a as')
    then have "xblank a \<noteq> []" "list_all is_ws (xblank a)" using assms(3) by (auto simp: attrs_ok_def attr_ok_def)
    then show ?thesis using Cons ws_no_name by (cases "xblank a") (auto simp: print_attr_def)
  qed
  then have e: "il_name_end s j0 = j1" using name_end_run[OF d0] n by (simp add: j1_def)
  have a: "il_attributes s j1 (attrs c) None 0 = Some (i + length (print_tag n as w @ e), closed, attrs c @ attr_entries j1 as,
      (if length as = 0 then None else Some (length (attrs c))), length as)"
    using attributes_print[OF _ assms(4) d1 assms(5), of "length (attrs c)" "attrs c" "[]" 0] assms(3)
    by (simp add: attrs_ok_def print_tag_def j0_def j1_def add.assoc)
  have sl: "slice s j0 (j1 - j0) = n" using slice_here[OF d0] by (simp add: j1_def)
  define R where "R = elem_rec (positions s) i (length (attrs c)) (parent_of c) n (length as) (i + length (print_tag n as w @ e))
          (if closed then i + length (print_tag n as w @ e) else 0) closed"
  define c1 where "c1 = push_rec cap R (c\<lparr>attrs := attrs c @ attr_entries j1 as\<rparr>)"
  have hp: "has_open_parent R \<longleftrightarrow> 0 < depth c" using assms(6) by (simp add: R_def elem_rec_def parent_of_def context_ok_def)
  have r: "\<lparr>off = j0, len = j1 - j0, parent_rec = (if 0 < depth c then get_open c else None), next_sib = None,
      line = (if positions s then i + 1 else 0), start_tag_end = il_line s (i + length (print_tag n as w @ e)),
      elem_end = (if closed then il_line s (i + length (print_tag n as w @ e)) else 0),
      first_attr = (if length as = 0 then None else Some (length (attrs c))), attr_count = length as,
      kind = IlElement, self_closing = closed, open_prefixed = name_prefixed n, has_open_parent = 0 < depth c\<rparr> = R"
    using hp by (simp add: R_def elem_rec_def parent_of_def il_line_def j0_def j1_def)
  have dep: "depth c1 = depth c" "recs c1 = chain (last_of cap c) (length (recs c)) (recs c) @ [R]"
    "attrs c1 = attrs c @ attr_entries j1 as" "stacks c1 = (stacks c)(cap + depth c - 1 := Some (length (recs c)))"
  proof -
    have g: "get_last cap (c\<lparr>attrs := X\<rparr>) = get_last cap c" for X by (simp add: get_last_def)
    have "c1 = set_last cap (Some (length (recs c)))
       (c\<lparr>attrs := attrs c @ attr_entries j1 as, recs := chain (last_of cap c) (length (recs c)) (recs c) @ [R]\<rparr>)"
    proof (cases "0 < depth c")
      case True
      then have "in_range (get_last cap c) (recs c)" using assms(6) by (simp add: context_ok_def)
      then show ?thesis using push_rec_eq[of cap "c\<lparr>attrs := attrs c @ attr_entries j1 as\<rparr>" R] True hp by (simp add: c1_def g last_of_def)
    next
      case False
      then show ?thesis using hp by (simp add: c1_def push_rec_def last_of_def chain_def Let_def)
    qed
    then show "depth c1 = depth c" "recs c1 = chain (last_of cap c) (length (recs c)) (recs c) @ [R]"
      "attrs c1 = attrs c @ attr_entries j1 as" "stacks c1 = (stacks c)(cap + depth c - 1 := Some (length (recs c)))"
      by (simp_all add: set_last_def)
  qed
  have "il_open m s i c = (let j = i + length (print_tag n as w @ e); r = length (recs c) in
       if closed then map_option (\<lambda>n. (n, c1)) (behind s c r j)
       else if depth_limit m \<le> depth c then None
       else Some (Content j, c1\<lparr>stacks := (stacks c1)(depth c := Some r, cap + depth c := None), depth := depth c + 1\<rparr>))"
  proof -
    note u = il_open_def[of m s i c, folded j0_def, unfolded Let_def, unfolded e sl a, unfolded option.case prod.case]
    have "il_open m s i c = (if closed then if depth c1 = 0 then map_option (\<lambda>n. (n, c1)) (il_finish s (length (recs c)) (i + length (print_tag n as w @ e)))
          else Some (Content (i + length (print_tag n as w @ e)), c1)
        else if depth_limit m \<le> depth c1 then None
       else Some (Content (i + length (print_tag n as w @ e)),
         c1\<lparr>stacks := (stacks c1)(depth c1 := Some (length (recs c)), cap + depth c1 := None), depth := depth c1 + 1\<rparr>))"
      unfolding u r[folded j0_def] assms(7)[symmetric] c1_def[symmetric] using l[folded j0_def] nb by simp
    then show ?thesis unfolding dep(1) behind_def Let_def by simp
  qed
  moreover have "scanned cap c c1 (chain (last_of cap c) (length (recs c)) (recs c) @ [R]) (attrs c @ attr_entries j1 as) (Some (length (recs c)))"
    using assms(6) by (auto simp: scanned_def dep get_last_def context_ok_def)
  ultimately show ?thesis unfolding R_def j1_def j0_def by blast
qed

lemma loop_content: "il_content m d s j c = il_content m d s j' c' \<Longrightarrow> il_loop m d s (Content j) c = il_loop m d s (Content j') c'"
  by (simp add: il_loop.simps)

lemma run_to_tag: "drop j s = t @ 0x3C # q \<Longrightarrow> 0x3C \<notin> set t \<Longrightarrow> 0x26 \<notin> set t \<Longrightarrow> run_end 0x3C s j = Some (j + length t, list_ex line_ws t)"
  by (rule run_end_run) auto

lemma content_text:
  assumes "drop j s = t @ 0x3C # q" "t \<noteq> []" "0x3C \<notin> set t" "0x26 \<notin> set t" "cap = stack_cap m"
  shows "il_content m d s j c = il_content m d s (j + length t)
    (if d \<and> il_ws_only t then c else push_rec cap (text_rec (positions s) j (get_open c) t) c)"
proof -
  have r: "run_end 0x3C s (j + length t) = Some (j + length t, False)" using run_to_tag[of "j + length t" s "[]" q] drop_on[OF assms(1)] by simp
  have c: "(if d \<and> il_ws_only t then c else push_rec cap (text_rec (positions s) j (get_open c) t) c) =
      (if 0 < length t \<and> \<not> (d \<and> il_ws_only t) then push_rec cap (text_rec (positions s) j (get_open c) t) c else c)"
    using assms(2) by simp
  show ?thesis unfolding c il_content_def run_to_tag[OF assms(1,3,4)] r Let_def text_rec_def assms(5)
    using assms(2) by (simp add: slice_here[OF assms(1)])
qed

lemma content_open:
  assumes "drop j s = 0x3C # x # q" "x \<noteq> 0x21" "x \<noteq> 0x3F" "x \<noteq> 0x2F"
  shows "il_content m d s j c = Some (Open j, c)"
proof -
  have "\<not> length s \<le> Suc j" using arg_cong[OF assms(1), of length] by simp
  then show ?thesis using run_to_tag[of j s "[]"] assms drop_cons[OF assms(1)] by (simp add: il_content_def Let_def)
qed

lemma content_close:
  assumes "drop j s = 0x3C # 0x2F # q"
  shows "il_content m d s j c = il_close m s (j + 2) c"
proof -
  have "\<not> length s \<le> Suc j" using arg_cong[OF assms(1), of length] by simp
  then show ?thesis using run_to_tag[of j s "[]"] assms drop_cons[OF assms(1)] by (simp add: il_content_def Let_def)
qed

lemma next_sib_hd: "next_sib (hd (node_recs ok d j r a p c)) = None"
  by (cases c) (simp_all add: text_rec_def elem_rec_def Let_def)

lemma no_next: "next_sib (x :: il_rec) = None \<Longrightarrow> x\<lparr>next_sib := None\<rparr> = x"
  by (cases x) simp

lemma scanned_then:
  assumes "scanned cap c c1 (R @ rs) A1 (Some r)" "r = length R" "rs \<noteq> []" "next_sib (hd rs) = None" "0 < depth c"
    "scanned cap c1 c2 ((if stop then recs c1 else chain (last_of cap c1) (length (recs c1)) (recs c1)) @ rs') A2 l"
  shows "scanned cap c c2 (R @ (hd rs)\<lparr>next_sib := (if stop then None else Some (r + length rs))\<rparr> # tl rs @ rs') A2 l"
proof -
  have "last_of cap c1 = Some r" "recs c1 = R @ hd rs # tl rs" using assms(1,3,5) by (auto simp: scanned_def last_of_def)
  moreover have "length (recs c1) = r + length rs" using assms(1,2) by (simp add: scanned_def)
  ultimately have "(if stop then recs c1 else chain (last_of cap c1) (length (recs c1)) (recs c1)) =
      R @ (hd rs)\<lparr>next_sib := (if stop then None else Some (r + length rs))\<rparr> # tl rs"
    using no_next[OF assms(4)] chain_next[OF assms(2)] by simp
  then show ?thesis using assms(1,6) by (auto simp: scanned_def)
qed

lemma push_scanned:
  assumes "context_ok cap c" "0 < depth c" "has_open_parent x"
  shows "scanned cap c (push_rec cap x c) (chain (last_of cap c) (length (recs c)) (recs c) @ [x]) (attrs c) (Some (length (recs c)))"
  using assms push_rec_eq[of cap c x]
  by (auto simp: scanned_def context_ok_def set_last_def get_last_def last_of_def)

lemma scanned_context: "scanned cap c c' R A (Some r) \<Longrightarrow> r < length R \<Longrightarrow> context_ok cap c \<Longrightarrow> context_ok cap c'"
  by (auto simp: scanned_def context_ok_def get_open_def in_range_def)

lemma scanned_open: "scanned cap c c' R A l \<Longrightarrow> 0 < depth c \<Longrightarrow> get_open c' = get_open c"
  by (simp add: scanned_def get_open_def)

section \<open>The scan of a node\<close>

lemma close_print:
  assumes "drop j s = en @ w @ 0x3E # q" "name_ok en" "close_of n en = n" "list_all is_ws w" "0 < depth c" "get_open c = Some r"
    "recs c ! r = elem_rec ok i a p n k e 0 False" "slice s (i + 1) (length n) = n"
    "ok = positions s"
  shows "il_close m s j c =
    (let c' = c\<lparr>recs := (recs c)[r := elem_rec ok i a p n k e (il_line s (j + length en + length w + 1)) False], depth := depth c - 1\<rparr> in
     map_option (\<lambda>n. (n, c')) (behind s c' r (j + length en + length w + 1)))"
proof -
  note n = name_ok_hd[OF assms(2)]
  have h: "is_name_start (at s j)" using at_hd[OF assms(1)] n by simp
  have e: "il_name_end s j = j + length en" using name_end_run[OF assms(1)] n hd_ws[OF assms(4), of "0x3E" q] by simp
  note d = drop_on[OF assms(1)]
  have w: "skip_ws s (j + length en) = j + length en + length w" using skip_ws_run[OF d assms(4)] by simp
  have g: "at s (j + length en + length w) = 0x3E" using drop_on[OF d] by simp
  have sl: "slice s j (length en) = en" by (rule slice_here[OF assms(1)])
  have x: "(elem_rec ok i a p n k e 0 False)\<lparr>elem_end := il_line s x\<rparr> = elem_rec ok i a p n k e (il_line s x) False" for x
    by (simp add: elem_rec_def il_line_def assms(9))
  have el: "close_name (recs c ! r) en = n" "len (recs c ! r) = length n" "off (recs c ! r) = i + 1"
    by (simp_all add: assms(3,7) close_name_rec) (simp_all add: elem_rec_def)
  have u: "il_close m s j c = (let cs = j + length en + length w + 1;
      c' = c\<lparr>recs := (recs c)[r := (recs c ! r)\<lparr>elem_end := il_line s cs\<rparr>], depth := depth c - 1\<rparr> in
      if depth c' = 0 then map_option (\<lambda>n. (n, c')) (il_finish s r cs) else Some (Content cs, c'))"
    unfolding il_close_def Let_def e using h w g assms(5,6) sl el assms(8) by simp
  show ?thesis unfolding u assms(7) x by (simp add: behind_def Let_def)
qed

text \<open>Behind the start tag of an element with content.\<close>

lemma enter_element:
  fixes m s
  defines "cap \<equiv> stack_cap m"
  assumes p: "drop (i + 1) s = tl (print_tag n as w) @ [0x3E] @ q" and ok: "name_ok n" "attrs_ok as" "list_all is_ws w"
    and ctx: "context_ok cap c" and dep: "depth c < depth_limit m"
  obtains c2 where "il_open m s i c = Some (Content (i + length (print_tag n as w) + 1), c2)" "context_ok cap c2"
    "scanned cap c (c2\<lparr>depth := depth c\<rparr>) (chain (last_of cap c) (length (recs c)) (recs c) @
        [elem_rec (positions s) i (length (attrs c)) (parent_of c) n (length as) (i + length (print_tag n as w) + 1) 0 False])
      (attrs c @ attr_entries (i + 1 + length n) as) (Some (length (recs c)))"
    "depth c2 = Suc (depth c)" "get_open c2 = Some (length (recs c))" "last_of cap c2 = None"
    "drop (i + length (print_tag n as w) + 1) s = q" "slice s (i + 1) (length n) = n"
proof -
  let ?r = "length (recs c)" and ?t = "i + length (print_tag n as w) + 1"
  have dc: "depth c < cap" using dep cap_limit[of m] by (simp add: cap_def)
  from open_print[OF p ok _ ctx, of False m] dep
  obtain c1 where c1: "il_open m s i c =
        Some (Content ?t, c1\<lparr>stacks := (stacks c1)(depth c := Some ?r, cap + depth c := None), depth := depth c + 1\<rparr>)"
      "scanned cap c c1 (chain (last_of cap c) ?r (recs c) @
        [elem_rec (positions s) i (length (attrs c)) (parent_of c) n (length as) ?t 0 False])
      (attrs c @ attr_entries (i + 1 + length n) as) (Some ?r)"
    unfolding Let_def by (auto simp: cap_def)
  define c2 where "c2 = c1\<lparr>stacks := (stacks c1)(depth c := Some ?r, cap + depth c := None), depth := depth c + 1\<rparr>"
  have "Suc (i + 1 + length (tl (print_tag n as w))) = ?t" by (simp add: print_tag_def)
  then have "drop ?t s = q" using drop_cons[OF drop_on[OF p, unfolded append_Cons append_Nil]] by metis
  moreover have "slice s (i + 1) (length n) = n" using slice_here[of "i + 1" s n] p by (simp add: print_tag_def)
  moreover have "depth c2 = Suc (depth c)" "get_open c2 = Some ?r" "last_of cap c2 = None" "get_last cap c2 = None"
    using dc by (simp_all add: c2_def get_open_def get_last_def last_of_def)
  moreover have "context_ok cap c2" using calculation dc by (simp add: context_ok_def in_range_def)
  moreover have "scanned cap c (c2\<lparr>depth := depth c\<rparr>) (recs c1) (attrs c1) (Some ?r)"
    using c1(2) dc by (auto simp: c2_def scanned_def get_last_def)
  ultimately show thesis using that[of c2] c1 by (simp add: c2_def scanned_def)
qed

lemma markup_first: "\<not> is_chars x \<Longrightarrow> node_ok x \<Longrightarrow> \<exists>b r. print_node x = 0x3C # b # r \<and> is_name_start b"
  by (cases x) (auto simp: is_chars_def print_tag_def name_ok_def neq_Nil_conv)

lemma nodes_first: "nodes_ok cs \<Longrightarrow> cs = [] \<or> \<not> is_chars (hd cs) \<Longrightarrow> \<exists>r. print_nodes cs @ 0x3C # q = 0x3C # r"
  using markup_first by (cases cs) fastforce+

lemma scan_print:
  fixes m d s
  defines "cap \<equiv> stack_cap m" and "ok \<equiv> positions s"
  shows "node_ok x \<Longrightarrow> \<not> is_chars x \<Longrightarrow> drop (i + 1) s = tl (print_node x) @ q \<Longrightarrow> context_ok cap c \<Longrightarrow> depth c + levels x \<le> depth_limit m \<Longrightarrow>
      \<exists>c'. il_loop m d s (Open i) c =
          (case behind s c (length (recs c)) (i + length (print_node x)) of None \<Rightarrow> None | Some n \<Rightarrow> il_loop m d s n c')
        \<and> scanned cap c c' (chain (last_of cap c) (length (recs c)) (recs c)
            @ node_recs ok d i (length (recs c)) (length (attrs c)) (parent_of c) x) (attrs c @ node_attrs i x) (Some (length (recs c)))"
    "nodes_ok cs \<Longrightarrow> drop i s = print_nodes cs @ 0x3C # q \<Longrightarrow> context_ok cap c \<Longrightarrow> 0 < depth c \<Longrightarrow>
      depth c + levels_list cs \<le> depth_limit m \<Longrightarrow>
      \<exists>c' l. il_loop m d s (Content i) c = il_loop m d s (Content (i + length (print_nodes cs))) c'
        \<and> scanned cap c c' ((if list_all (dropped d) cs then recs c else chain (last_of cap c) (length (recs c)) (recs c))
            @ nodes_recs ok d i (length (recs c)) (length (attrs c)) (get_open c) cs) (attrs c @ nodes_attrs i cs) l"
proof (induction x and cs arbitrary: i c q and i c q rule: print_node_print_nodes.induct)
  case (1 t)
  then show ?case by (simp add: is_chars_def)
next
  case (2 n as w)
  let ?e = "[0x2F, 0x3E] :: bytes"
  have p: "drop (i + 1) s = tl (print_tag n as w) @ ?e @ q" using 2(3) by (simp add: print_tag_def)
  have e: "print_node (Closed n as w) = print_tag n as w @ ?e" by simp
  from open_print[OF p _ _ _ _ 2(4), of True m] 2(1)
  obtain c1 where c1: "il_open m s i c = map_option (\<lambda>n. (n, c1)) (behind s c (length (recs c)) (i + length (print_tag n as w @ ?e)))"
      "scanned cap c c1 (chain (last_of cap c) (length (recs c)) (recs c) @
        [elem_rec ok i (length (attrs c)) (parent_of c) n (length as) (i + length (print_tag n as w @ ?e)) (i + length (print_tag n as w @ ?e)) True])
        (attrs c @ attr_entries (i + 1 + length n) as) (Some (length (recs c)))"
    unfolding Let_def ok_def by (auto simp: cap_def simp del: append_assoc)
  then show ?case unfolding e by (intro exI[of _ c1]) (simp add: il_loop.simps[of m d s "Open i"] Let_def split: option.split)
next
  case (3 n as w cs en w')
  let ?r = "length (recs c)" and ?a = "length (attrs c)" and ?R = "chain (last_of cap c) (length (recs c)) (recs c)"
  define t where "t = i + length (print_tag n as w) + 1"
  define el where "el = elem_rec ok i ?a (parent_of c) n (length as) t 0 False"
  have ok: "name_ok n" "name_ok en" "attrs_ok as" "list_all is_ws w" "nodes_ok cs" "list_all is_ws w'" "close_of n en = n" using 3(2) by simp_all
  have dep: "depth c < depth_limit m" using 3(6) by simp
  have p: "drop (i + 1) s = tl (print_tag n as w) @ [0x3E] @ print_nodes cs @ 0x3C # 0x2F # en @ w' @ 0x3E # q"
    using 3(4) by (simp add: print_tag_def)
  from enter_element[OF p ok(1,3,4) 3(5)[unfolded cap_def] dep, folded cap_def ok_def t_def, folded el_def]
  obtain c2 where open2: "il_open m s i c = Some (Content t, c2)" and k2: "context_ok cap c2"
    and sc2: "scanned cap c (c2\<lparr>depth := depth c\<rparr>) (?R @ [el]) (attrs c @ attr_entries (i + 1 + length n) as) (Some ?r)"
    and c2: "depth c2 = Suc (depth c)" "get_open c2 = Some ?r" "last_of cap c2 = None"
    and d2: "drop t s = print_nodes cs @ 0x3C # 0x2F # en @ w' @ 0x3E # q" and sl: "slice s (i + 1) (length n) = n" .
  have r2: "recs c2 = ?R @ [el]" "attrs c2 = attrs c @ attr_entries (i + 1 + length n) as" using sc2 by (simp_all add: scanned_def)
  obtain c3 l where c3: "il_loop m d s (Content t) c2 = il_loop m d s (Content (t + length (print_nodes cs))) c3"
      "scanned cap c2 c3 ((if list_all (dropped d) cs then recs c2 else chain (last_of cap c2) (length (recs c2)) (recs c2))
          @ nodes_recs ok d t (length (recs c2)) (length (attrs c2)) (get_open c2) cs) (attrs c2 @ nodes_attrs t cs) l"
    using "3.IH"[OF ok(5) d2 k2] c2(1) 3(6) by auto
  let ?N = "nodes_recs ok d t (?r + 1) (?a + length as) (Some ?r) cs"
  have len: "length (attr_entries j as) = length as" for j by (induction as arbitrary: j) simp_all
  have r3: "recs c3 = ?R @ el # ?N" "attrs c3 = (attrs c @ attr_entries (i + 1 + length n) as) @ nodes_attrs t cs" "depth c3 = Suc (depth c)"
    using c3(2) by (simp_all add: scanned_def c2 r2 len)
  define t3 where "t3 = t + length (print_nodes cs)"
  define e where "e = t3 + 2 + length en + length w' + 1"
  have d3: "drop t3 s = 0x3C # 0x2F # en @ w' @ 0x3E # q" using drop_on[OF d2] by (simp add: t3_def)
  have d4: "drop (t3 + 2) s = en @ w' @ 0x3E # q" using drop_cons[OF drop_cons[OF d3]] by simp
  have o3: "get_open c3 = Some ?r" "recs c3 ! ?r = el" using scanned_open[OF c3(2)] c2 r3(1) by (simp_all add: nth_append)
  define c4 where "c4 = c3\<lparr>recs := (recs c3)[?r := elem_rec ok i ?a (parent_of c) n (length as) t (il_line s e) False], depth := depth c3 - 1\<rparr>"
  have cl: "il_close m s (t3 + 2) c3 = map_option (\<lambda>n. (n, c4)) (behind s c4 ?r e)"
    using close_print[OF d4 ok(2,7,6) _ o3(1) o3(2)[unfolded el_def] sl meta_eq_to_obj_eq[OF ok_def]] r3(3) unfolding c4_def e_def Let_def by simp
  have lp: "il_loop m d s (Open i) c = (case behind s c ?r e of None \<Rightarrow> None | Some n \<Rightarrow> il_loop m d s n c4)"
  proof -
    have "il_loop m d s (Open i) c = il_loop m d s (Content t3) c3"
      using open2 c3(1) by (simp add: il_loop.simps[of m d s "Open i"] t3_def)
    also have "\<dots> = (case behind s c4 ?r e of None \<Rightarrow> None | Some n \<Rightarrow> il_loop m d s n c4)"
      unfolding il_loop.simps[of m d s "Content t3" c3] il_next.case content_close[OF d3] cl by (simp split: option.split)
    finally show ?thesis by (simp add: behind_def c4_def r3(3))
  qed
  have e: "e = i + length (print_node (Elem n as w cs en w'))" by (simp add: e_def t3_def t_def)
  have "recs c4 = ?R @ elem_rec ok i ?a (parent_of c) n (length as) t e False # ?N"
    using r3(1) by (simp add: c4_def elem_rec_def il_line_def ok_def list_update_append)
  moreover have "scanned cap c c4 (recs c4) (attrs c3) (Some ?r)"
  proof -
    have f: "\<forall>i < Suc (depth c). stacks c4 i = stacks c2 i" "\<forall>i. i < depth c \<longrightarrow> stacks c4 (cap + i) = stacks c2 (cap + i)"
      using c3(2) by (simp_all add: scanned_def c4_def c2(1))
    have "0 < depth c \<Longrightarrow> stacks c4 (cap + depth c - 1) = stacks c2 (cap + depth c - 1)" using f(2)[rule_format, of "depth c - 1"] by simp
    then show ?thesis using f sc2 by (simp add: scanned_def c4_def r3 get_last_def)
  qed
  ultimately show ?case using lp r3(2) unfolding e by (intro exI[of _ c4]) (simp add: t_def)
next
  case 4
  then show ?case by (intro exI[of _ c] exI[of _ "get_last cap c"]) (simp add: scanned_def)
next
  case (5 x cs)
  let ?r = "length (recs c)" and ?a = "length (attrs c)" and ?R = "chain (last_of cap c) (length (recs c)) (recs c)"
  define t where "t = i + length (print_node x)"
  have ok: "node_ok x" "nodes_ok cs" "\<not> (is_chars x \<and> cs \<noteq> [] \<and> is_chars (hd cs))" using 5(3) by simp_all
  have d: "drop i s = print_node x @ print_nodes cs @ 0x3C # q" using 5(4) by simp
  note d' = drop_on[OF d, folded t_def]
  have lv: "depth c + levels x \<le> depth_limit m" "depth c + levels_list cs \<le> depth_limit m" using 5(7) by simp_all
  obtain c1 where c1: "il_loop m d s (Content i) c = il_loop m d s (Content t) c1"
      "if dropped d x then c1 = c else scanned cap c c1 (?R @ node_recs ok d i ?r ?a (get_open c) x) (attrs c @ node_attrs i x) (Some ?r)"
  proof (cases "is_chars x")
    case True
    then obtain u where Chars: "x = Chars u" by (cases x) (simp_all add: is_chars_def)
    then have u: "u \<noteq> []" "0x3C \<notin> set u" "0x26 \<notin> set u" "cs = [] \<or> \<not> is_chars (hd cs)" using ok by (auto simp: is_chars_def)
    obtain r where r: "print_nodes cs @ 0x3C # q = 0x3C # r" using nodes_first[OF ok(2) u(4)] by blast
    show ?thesis
      using that loop_content[OF content_text[OF _ u(1-3) meta_eq_to_obj_eq[OF cap_def], of i s r d c]] d r Chars
        push_scanned[OF 5(5,6), of "text_rec ok i (get_open c) u"]
      by (auto simp: dropped_def t_def ok_def text_rec_def cap_def split: if_splits)
  next
    case False
    obtain b r where b: "drop i s = 0x3C # b # r" "is_name_start b" "print_node x = 0x3C # tl (print_node x)"
      using markup_first[OF False ok(1)] d by auto
    have d0: "drop (i + 1) s = tl (print_node x) @ print_nodes cs @ 0x3C # q"
      using drop_cons[of i s "0x3C"] d b(3) by (metis Suc_eq_plus1 append_Cons)
    obtain c1 where c1: "il_loop m d s (Open i) c = il_loop m d s (Content t) c1"
        "scanned cap c c1 (?R @ node_recs ok d i ?r ?a (get_open c) x) (attrs c @ node_attrs i x) (Some ?r)"
      using "5.IH"(1)[OF ok(1) False d0 5(5) lv(1)] 5(6) by (auto simp: behind_def parent_of_def t_def)
    have "il_loop m d s (Content i) c = il_loop m d s (Open i) c"
      using content_open[OF b(1)] start_no_ws[OF b(2)] by (simp add: il_loop.simps[of m d s "Content i"])
    moreover have "\<not> dropped d x" using False by (cases x) (auto simp: dropped_def is_chars_def)
    ultimately show ?thesis using that c1 by simp
  qed
  show ?case
  proof (cases "dropped d x")
    case True
    then have "c1 = c" "attrs c @ node_attrs i x = attrs c" using c1(2) by (auto simp: dropped_def split: xnode.splits)
    then show ?thesis using "5.IH"(2)[OF ok(2) d' 5(5,6) lv(2)] c1(1) True by (simp add: t_def add.assoc)
  next
    case False
    let ?N = "node_recs ok d i ?r ?a (get_open c) x"
    have sc: "scanned cap c c1 (?R @ ?N) (attrs c @ node_attrs i x) (Some ?r)" using c1(2) False by simp
    have k: "context_ok cap c1" "0 < depth c1" "depth c1 = depth c" "get_open c1 = get_open c" "recs c1 = ?R @ ?N" "attrs c1 = attrs c @ node_attrs i x"
      using scanned_context[OF sc _ 5(5)] scanned_open[OF sc 5(6)] sc 5(6) by (auto simp: scanned_def)
    obtain c2 l where c2: "il_loop m d s (Content t) c1 = il_loop m d s (Content (t + length (print_nodes cs))) c2"
        "scanned cap c1 c2 ((if list_all (dropped d) cs then recs c1 else chain (last_of cap c1) (length (recs c1)) (recs c1))
          @ nodes_recs ok d t (length (recs c1)) (length (attrs c1)) (get_open c1) cs) (attrs c1 @ nodes_attrs t cs) l"
      using "5.IH"(2)[OF ok(2) d' k(1,2)] lv(2) k(3) by auto
    have "scanned cap c c2 (?R @ (hd ?N)\<lparr>next_sib := (if list_all (dropped d) cs then None else Some (?r + length ?N))\<rparr> # tl ?N
        @ nodes_recs ok d t (length (recs c1)) (length (attrs c1)) (get_open c1) cs) (attrs c1 @ nodes_attrs t cs) l"
      by (rule scanned_then[OF sc _ _ next_sib_hd 5(6) c2(2)]) simp_all
    then show ?thesis using c1(1) c2(1) False k by (intro exI[of _ c2] exI[of _ l]) (simp add: t_def Let_def add.assoc)
  qed
qed

section \<open>The scan of a document\<close>

text \<open>
  A document may start with a byte order mark and blanks, and blanks may follow it. Of the first tag
  the first byte is not looked at, and what follows a NUL byte behind the document is not read.
\<close>

definition print_doc :: "bool \<Rightarrow> bytes \<Rightarrow> u8 \<Rightarrow> xnode \<Rightarrow> bytes \<Rightarrow> bytes \<Rightarrow> bytes" where
  "print_doc bom lead b x trail junk = (if bom then [0xEF, 0xBB, 0xBF] else []) @ lead @ b # tl (print_node x) @ trail @ junk"

definition doc_ok :: "int \<Rightarrow> bool \<Rightarrow> bytes \<Rightarrow> u8 \<Rightarrow> xnode \<Rightarrow> bytes \<Rightarrow> bytes \<Rightarrow> bool" where
  "doc_ok m bom lead b x trail junk \<longleftrightarrow> list_all is_ws lead \<and> \<not> is_ws b \<and> node_ok x \<and> \<not> is_chars x \<and> levels x \<le> depth_limit m
    \<and> list_all is_ws trail \<and> (junk = [] \<or> hd junk = 0) \<and> (bom \<longleftrightarrow> take 3 (print_doc bom lead b x trail junk) = [0xEF, 0xBB, 0xBF])"

definition tables :: "(il_ctx \<times> nat \<times> nat \<times> nat) option \<Rightarrow> (il_rec list \<times> il_attr list \<times> nat) option" where
  "tables r = map_option (\<lambda>(c, root, _). (recs c, attrs c, root)) r"

lemma bom_test: "(3 \<le> length s \<and> at s 0 = 0xEF \<and> at s 1 = 0xBB \<and> at s 2 = 0xBF) \<longleftrightarrow> take 3 s = [0xEF, 0xBB, 0xBF]"
proof (cases "3 \<le> length s")
  case True
  then obtain a b c r where "s = a # b # c # r" by (auto simp: numeral_3_eq_3 Suc_le_length_iff)
  then show ?thesis by (simp add: at_def numeral_3_eq_3)
next
  case False
  then have "length (take 3 s) \<noteq> length [0xEF, 0xBB, 0xBF :: u8]" by simp
  then have "take 3 s \<noteq> [0xEF, 0xBB, 0xBF]" by metis
  then show ?thesis using False by simp
qed

lemma scan_document:
  assumes "doc_ok m bom lead b x trail junk"
  defines "j \<equiv> (if bom then 3 else 0) + length lead" and "s \<equiv> print_doc bom lead b x trail junk"
  shows "tables (leptris_il_scan m s d) =
    Some (node_recs (positions s) d j 0 0 None x, node_attrs j x, 0)"
proof -
  let ?i = "if bom then 3 else 0 :: nat"
  have ok: "list_all is_ws lead" "\<not> is_ws b" "node_ok x" "\<not> is_chars x" "levels x \<le> depth_limit m" "list_all is_ws trail" "junk = [] \<or> hd junk = 0"
    and bm: "take 3 s = [0xEF, 0xBB, 0xBF] \<longleftrightarrow> bom"
    using assms(1) unfolding doc_ok_def s_def by blast+
  have i: "(if 3 \<le> length s \<and> at s 0 = 0xEF \<and> at s 1 = 0xBB \<and> at s 2 = 0xBF then 3 else 0) = ?i"
    unfolding bom_test bm by simp
  have d0: "drop ?i s = lead @ b # tl (print_node x) @ trail @ junk" by (simp add: s_def print_doc_def)
  have w: "skip_ws s ?i = j" using skip_ws_run[OF d0 ok(1)] ok(2) by (simp add: j_def)
  note dj = drop_on[OF d0, folded j_def]
  have l: "\<not> length s \<le> j" using arg_cong[OF dj, of length] by simp
  have d1: "drop (j + 1) s = tl (print_node x) @ trail @ junk" using drop_cons[OF dj] by simp
  have c: "context_ok (stack_cap m) empty_ctx" using cap_limit by (simp add: context_ok_def empty_ctx_def)
  obtain c' where c': "il_loop m d s (Open j) empty_ctx =
      (case behind s empty_ctx 0 (j + length (print_node x)) of None \<Rightarrow> None | Some n \<Rightarrow> il_loop m d s n c')"
      "scanned (stack_cap m) empty_ctx c' (node_recs (positions s) d j 0 0 None x) (node_attrs j x) (Some 0)"
    using scan_print(1)[OF ok(3,4) d1 c, of d] ok(5) by (auto simp: empty_ctx_def last_of_def parent_of_def)
  obtain b' r where "print_node x = 0x3C # b' # r" using markup_first[OF ok(4,3)] by blast
  then have p: "j + 1 + length (tl (print_node x)) = j + length (print_node x)" by simp
  have dt: "drop (j + length (print_node x)) s = trail @ junk" using drop_on[OF d1] unfolding p .
  then have t: "skip_ws s (j + length (print_node x)) = j + length (print_node x) + length trail" using skip_ws_run[OF dt ok(6)] ok(7) by auto
  have "drop (j + length (print_node x) + length trail) s = junk" using drop_on[OF dt] .
  then have "at s (j + length (print_node x) + length trail) = 0" using ok(7) by (cases junk) (auto simp: at_def)
  then have "il_loop m d s (Open j) empty_ctx = Some (c', 0, j + length (print_node x), length trail)"
    using c'(1) t by (simp add: behind_def empty_ctx_def il_finish_def il_loop.simps[of m d s "Done _ _ _"])
  then show ?thesis using c'(2) unfolding leptris_il_scan_def i Let_def w using l by (simp add: tables_def scanned_def)
qed

end
