(* ===== verification/IlLanguage.thy ===== *)
theory IlLanguage
  imports IlExact "HOL-Library.Code_Target_Nat"
begin

text \<open>
  What the scan of the interleaved lane accepts: every text that it accepts is the print of a document,
  so that its verdict is decided exactly. The leniencies show in the grammar: the first byte of the
  first tag, what follows a NUL byte, end tags of prefixed names, missing blanks between attributes.
\<close>

section \<open>Reading steps backwards\<close>

lemma split_ws: "\<exists>w. drop j s = w @ drop (skip_ws s j) s \<and> list_all is_ws w \<and> skip_ws s j = j + length w"
proof -
  have "drop j s = takeWhile is_ws (drop j s) @ drop (length (takeWhile is_ws (drop j s))) (drop j s)"
    by (metis append_take_drop_id takeWhile_eq_take)
  then show ?thesis by (intro exI[of _ "takeWhile is_ws (drop j s)"]) (auto simp: skip_ws_def list_all_iff add.commute dest: set_takeWhileD)
qed

lemma split_name:
  assumes "is_name_start (at s j)"
  shows "\<exists>n. drop j s = n @ drop (il_name_end s j) s \<and> name_ok n \<and> il_name_end s j = j + length n
    \<and> slice s j (il_name_end s j - j) = n \<and> \<not> is_name_char (at s (il_name_end s j))"
proof -
  define p n where "p = drop j s" and "n = takeWhile is_name_char p"
  have e: "il_name_end s j = j + length n" by (simp add: name_run_end n_def p_def)
  have q: "drop (il_name_end s j) s = dropWhile is_name_char p" by (simp add: e n_def p_def dropWhile_eq_drop add.commute)
  have d: "drop j s = n @ drop (il_name_end s j) s" unfolding q by (simp add: n_def p_def)
  have "p \<noteq> []" "hd p = at s j" using assms by (auto simp: at_def p_def split: list.splits)
  then obtain r where "p = at s j # r" by (metis list.collapse)
  then have "n = at s j # takeWhile is_name_char r" using assms by (simp add: n_def name_char_iff)
  moreover have "list_all is_name_char n" by (auto simp: n_def list_all_iff dest: set_takeWhileD)
  ultimately have "name_ok n" using assms by (simp add: name_ok_def)
  moreover have "slice s j (il_name_end s j - j) = n" using slice_here[OF d] by (simp add: e)
  moreover have "\<not> is_name_char (at s (il_name_end s j))"
  proof (cases "dropWhile is_name_char p")
    case Nil
    then have "drop (il_name_end s j) s = []" unfolding q .
    then show ?thesis by (simp add: at_def)
  next
    case (Cons c r)
    then show ?thesis using q hd_dropWhile[of is_name_char p] by (simp add: at_def)
  qed
  ultimately show ?thesis using d e by blast
qed

lemma upto_run: "c \<notin> set v \<Longrightarrow> upto c (v @ c # q) = v"
  by (induction v) auto

lemma split_run:
  assumes "run_end qc s j = Some (e, ws)" "qc \<noteq> 0" "qc \<noteq> 0x26"
  shows "\<exists>v q. drop j s = v @ qc # q \<and> qc \<notin> set v \<and> 0x26 \<notin> set v \<and> e = j + length v \<and> ws = list_ex line_ws v"
proof -
  have e: "qc \<in> set (drop j s)" "0x26 \<notin> set (upto qc (drop j s))" "e = j + length (upto qc (drop j s))" "ws = list_ex line_ws (upto qc (drop j s))"
    using assms(1) unfolding run_end_iff[OF assms(2,3)] Let_def by (auto split: if_splits)
  obtain v q where v: "drop j s = v @ qc # q" "qc \<notin> set v" using split_list_first[OF e(1)] by blast
  then have "upto qc (drop j s) = v" by (simp add: upto_run)
  then show ?thesis using e v by blast
qed

lemma at_cons_drop: "at s j = c \<Longrightarrow> c \<noteq> 0 \<Longrightarrow> drop j s = c # drop (j + 1) s"
  by (cases "drop j s") (auto simp: at_def drop_Suc dest: drop_cons)

lemma attribute_inv:
  assumes "il_attribute s (skip_ws s j) = Some (a, j')"
  shows "\<exists>x q. drop j s = print_attr x @ q \<and> attr_ok x \<and> a = attr_entry j x \<and> j' = j + length (print_attr x)"
proof -
  obtain w where w: "drop j s = w @ drop (skip_ws s j) s" "list_all is_ws w" "skip_ws s j = j + length w" using split_ws by blast
  define j1 where "j1 = skip_ws s j"
  have st: "is_name_start (at s j1)" using assms by (auto simp: il_attribute_def j1_def split: if_splits)
  obtain n where n: "drop j1 s = n @ drop (il_name_end s j1) s" "name_ok n" "il_name_end s j1 = j1 + length n" "slice s j1 (il_name_end s j1 - j1) = n"
    using split_name[OF st] by blast
  define j2 where "j2 = il_name_end s j1"
  obtain w1 where w1: "drop j2 s = w1 @ drop (skip_ws s j2) s" "list_all is_ws w1" using split_ws by blast
  define j3 where "j3 = skip_ws s j2"
  obtain w2 where w2: "drop (j3 + 1) s = w2 @ drop (skip_ws s (j3 + 1)) s" "list_all is_ws w2" using split_ws by blast
  define j4 where "j4 = skip_ws s (j3 + 1)"
  have c: "\<not> (5 \<le> j2 - j1 \<and> slice s j1 5 = ascii ''xmlns'')" "at s j3 = 0x3D" "at s j4 = 0x22 \<or> at s j4 = 0x27"
    "\<exists>e ws. run_end (at s j4) s (j4 + 1) = Some (e, ws)"
    using assms[unfolded il_attribute_def Let_def, folded j1_def, folded j2_def, folded j3_def, folded j4_def] st
    by (simp_all split: if_splits option.splits prod.splits)
  obtain e ws v q where v: "drop (j4 + 1) s = v @ at s j4 # q" "at s j4 \<notin> set v" "0x26 \<notin> set v"
    using c(3,4) split_run[of "at s j4" s "j4 + 1"] by force
  define x where "x = \<lparr>xblank = w, xname = n, xbefore = w1, xafter = w2, xquote = at s j4, xvalue = v\<rparr>"
  have x: "take 5 n \<noteq> ascii ''xmlns''"
  proof
    assume t: "take 5 n = ascii ''xmlns''"
    have "length (take 5 n) = 5" unfolding t by (simp add: ascii_def)
    then have l: "5 \<le> length n" by simp
    then have "slice s j1 5 = take 5 n" using n(1) unfolding slice_def by (metis take_append diff_is_0_eq append_Nil2 take_eq_Nil)
    then show False using t c(1) n(3) l by (simp add: j2_def)
  qed
  have ok: "attr_ok x" using x n(2) w w1 w2 v c(3) by (simp add: attr_ok_def x_def)
  have d4: "drop j4 s = at s j4 # v @ at s j4 # q" 
  proof -
    have "at s j4 \<noteq> 0" using c(3) by auto
    then have "drop j4 s = at s j4 # drop (j4 + 1) s" by (rule at_cons_drop[OF refl])
    then show ?thesis by (simp only: v(1))
  qed
  have d3: "drop j3 s = 0x3D # w2 @ drop j4 s" using at_cons_drop[OF c(2)] w2(1) by (simp add: j4_def)
  note parts = w(1)[folded j1_def] n(1)[folded j2_def] w1(1)[folded j3_def] d3 d4
  have d: "drop j s = print_attr x @ q" unfolding parts print_attr_def x_def by simp
  have "il_attribute s (skip_ws s j) = Some (attr_entry j x, j + length (print_attr x))"
    using attribute_print(1,2)[OF ok d] by simp
  then show ?thesis using assms d ok by auto
qed

lemma attributes_inv:
  assumes "il_attributes s j A first k = Some (j', closed, A', first', k')" "first = (if k = 0 then None else Some f)"
    "map (\<lambda>p. slice s (name_off p) (name_len p)) (drop f A) = N" "\<forall>p \<in> set (drop f A). length (slice s (name_off p) (name_len p)) = name_len p"
    "distinct N" "length A = f + k"
  shows "\<exists>as w e q. drop j s = concat (map print_attr as) @ w @ e @ q \<and> list_all attr_ok as \<and> list_all is_ws w
    \<and> (closed \<and> e = [0x2F, 0x3E] \<or> \<not> closed \<and> e = [0x3E]) \<and> distinct (N @ map xname as)"
  using assms
proof (induction s j A first k arbitrary: N rule: il_attributes.induct)
  case (1 s j A first k)
  let ?j = "skip_ws s j"
  obtain w where w: "drop j s = w @ drop ?j s" "list_all is_ws w" using split_ws by blast
  show ?case
  proof (cases "at s ?j = 0x3E \<or> at s ?j = 0x2F \<and> at s (?j + 1) = 0x3E")
    case True
    then have c: "closed \<longleftrightarrow> at s ?j = 0x2F" using "1.prems"(1) by (auto simp: il_attributes.simps[of s j] Let_def split: if_splits)
    obtain e q where e: "drop ?j s = e @ q" "closed \<and> e = [0x2F, 0x3E] \<or> \<not> closed \<and> e = [0x3E]"
    proof (cases closed)
      case t: True
      then have a: "at s ?j = 0x2F" "at s (?j + 1) = 0x3E" using c True by auto
      have "drop ?j s = 0x2F # drop (?j + 1) s" by (rule at_cons_drop[OF a(1)]) simp
      also have "drop (?j + 1) s = 0x3E # drop (?j + 1 + 1) s" by (rule at_cons_drop[OF a(2)]) simp
      finally show thesis using that[of "[0x2F, 0x3E]" "drop (?j + 1 + 1) s"] t by simp
    next
      case f: False
      then have "at s ?j = 0x3E" using c True by auto
      then have "drop ?j s = 0x3E # drop (?j + 1) s" by (rule at_cons_drop) simp
      then show thesis using that[of "[0x3E]" "drop (?j + 1) s"] f by simp
    qed
    have "drop j s = w @ e @ q" using w(1) e(1) by metis
    then show ?thesis using w(2) "1.prems"(5) e(2)
      by (intro exI[of _ "[]"] exI[of _ w] exI[of _ e] exI[of _ q]) simp
  next
    case False
    then obtain a i where a: "il_attribute s ?j = Some (a, i)"
      "il_attributes s i (A @ [a]) (if k = 0 then Some (length A) else first) (k + 1) = Some (j', closed, A', first', k')"
      "\<not> (0 < k \<and> list_ex (\<lambda>p. same_name s p a) (drop (the first) A))"
      using "1.prems"(1) by (auto simp: il_attributes.simps[of s j] Let_def split: if_splits option.splits)
    obtain x q where x: "drop j s = print_attr x @ q" "attr_ok x" "a = attr_entry j x" "i = j + length (print_attr x)"
      using attribute_inv[OF a(1)] by blast
    have n: "slice s (name_off a) (name_len a) = xname x" "name_len a = length (xname x)"
      using attribute_print(3)[OF x(2,1)] by (simp_all add: x(3) attr_entry_def Let_def)
    have f: "(if k = 0 then Some (length A) else first) = (if k + 1 = 0 then None else Some f)" "f \<le> length A"
      using "1.prems"(2,6) by simp_all
    have fresh: "xname x \<notin> set N"
    proof
      assume "xname x \<in> set N"
      then obtain p where p: "p \<in> set (drop f A)" "slice s (name_off p) (name_len p) = xname x" using "1.prems"(3) by force
      then have "name_len p = name_len a" using "1.prems"(4) n by metis
      then have "same_name s p a" using p n by (simp add: same_name_def)
      moreover have "0 < k" using p(1) "1.prems"(6) by (cases k) simp_all
      ultimately show False using a(3) p(1) "1.prems"(2) by (auto simp: list_ex_iff)
    qed
    obtain as v e q' where "drop i s = concat (map print_attr as) @ v @ e @ q'" "list_all attr_ok as" "list_all is_ws v"
      "closed \<and> e = [0x2F, 0x3E] \<or> \<not> closed \<and> e = [0x3E]" "distinct ((N @ [xname x]) @ map xname as)"
      using "1.IH"[OF refl _ _ a(1) refl a(3,2) f(1), of "N @ [xname x]"] False "1.prems" f(2) n fresh by auto
    moreover have "drop j s = print_attr x @ drop i s" using x(1,4) drop_on[OF x(1)] by simp
    ultimately show ?thesis using x(2) by (intro exI[of _ "x # as"] exI[of _ v] exI[of _ e] exI[of _ q']) simp
  qed
qed

lemma open_inv:
  assumes "il_open m s i c = Some r"
  shows "\<exists>n as w e q closed. drop (i + 1) s = tl (print_tag n as w) @ e @ q \<and> name_ok n \<and> attrs_ok as \<and> list_all is_ws w
    \<and> (closed \<and> e = [0x2F, 0x3E] \<or> \<not> closed \<and> e = [0x3E])"
proof -
  have st: "is_name_start (at s (i + 1))" using assms by (simp add: il_open_def split: if_splits)
  define j where "j = il_name_end s (i + 1)"
  obtain n where n: "drop (i + 1) s = n @ drop j s" "name_ok n" "\<not> is_name_char (at s j)"
    using split_name[OF st] unfolding j_def by blast
  obtain j' closed A' f' k' where a: "il_attributes s j (attrs c) None 0 = Some (j', closed, A', f', k')"
    using assms unfolding il_open_def Let_def j_def[symmetric] by (auto split: if_splits option.splits)
  obtain as w e q where as: "drop j s = concat (map print_attr as) @ w @ e @ q" "list_all attr_ok as" "list_all is_ws w"
    "closed \<and> e = [0x2F, 0x3E] \<or> \<not> closed \<and> e = [0x3E]" "distinct (map xname as)"
    using attributes_inv[OF a, of "length (attrs c)" "[]"] by auto
  have "as \<noteq> [] \<longrightarrow> xblank (hd as) \<noteq> []"
  proof (intro impI notI)
    assume "as \<noteq> []" "xblank (hd as) = []"
    then obtain x as' where x: "as = x # as'" "attr_ok x" "xblank x = []" using as(2) by (cases as) auto
    then have "is_name_start (at s j)" using attribute_print(4)[OF x(2), of j s] as(1) by simp
    then show False using n(3) by (simp add: name_char_iff)
  qed
  then have "attrs_ok as" using as by (simp add: attrs_ok_def)
  moreover have "drop (i + 1) s = tl (print_tag n as w) @ e @ q" using n(1) as(1) by (simp add: print_tag_def)
  ultimately show ?thesis using n(2) as(3,4) by blast
qed

lemma close_inv:
  assumes "il_close m s j c = Some r" "get_open c = Some o'" "recs c ! o' = elem_rec ok i a p n k e x False" "slice s (i + 1) (length n) = n"
  shows "\<exists>en w q. drop j s = en @ w @ 0x3E # q \<and> name_ok en \<and> close_of n en = n \<and> list_all is_ws w"
proof -
  have st: "is_name_start (at s j)" using assms(1) by (simp add: il_close_def split: if_splits)
  define j1 where "j1 = il_name_end s j"
  obtain en where en: "drop j s = en @ drop j1 s" "name_ok en" "slice s j (j1 - j) = en"
    using split_name[OF st] unfolding j1_def by blast
  obtain w where w: "drop j1 s = w @ drop (skip_ws s j1) s" "list_all is_ws w" using split_ws by blast
  have g: "at s (skip_ws s j1) = 0x3E" and l: "len (recs c ! o') = length (close_name (recs c ! o') en)"
    and sl: "slice s (off (recs c ! o')) (length (close_name (recs c ! o') en)) = close_name (recs c ! o') en"
    using assms(1,2) unfolding il_close_def Let_def j1_def[symmetric] en(3) by (simp_all split: if_splits)
  have "close_of n en = n" using l sl assms(4) unfolding assms(3) close_name_rec by (simp add: elem_rec_def)
  moreover have "drop (skip_ws s j1) s = 0x3E # drop (skip_ws s j1 + 1) s" using at_cons_drop[OF g] by simp
  ultimately show ?thesis using en w by (intro exI[of _ en] exI[of _ w] exI[of _ "drop (skip_ws s j1 + 1) s"]) simp
qed

section \<open>Accepted texts are documents\<close>

lemma scanned_next: "scanned cap c c' R A (Some r) \<Longrightarrow> r < length R \<Longrightarrow> context_ok cap c \<Longrightarrow> 0 < depth c \<Longrightarrow>
    context_ok cap c' \<and> 0 < depth c' \<and> depth c' = depth c"
  using scanned_context[of cap c c' R A r] by (simp add: scanned_def)

lemma scan_accepts:
  fixes m d s
  defines "cap \<equiv> stack_cap m"
  shows "(\<forall>c. il_loop m d s (Open j) c \<noteq> None \<longrightarrow> context_ok cap c \<longrightarrow> depth c \<le> depth_limit m \<longrightarrow>
      (\<exists>x q. drop (j + 1) s = tl (print_node x) @ q \<and> node_ok x \<and> \<not> is_chars x \<and> depth c + levels x \<le> depth_limit m))
    \<and> (\<forall>c. il_loop m d s (Content j) c \<noteq> None \<longrightarrow> context_ok cap c \<longrightarrow> 0 < depth c \<longrightarrow> depth c \<le> depth_limit m \<longrightarrow>
      (\<exists>cs q. drop j s = print_nodes cs @ 0x3C # 0x2F # q \<and> nodes_ok cs \<and> depth c + levels_list cs \<le> depth_limit m))"
proof (induction "length s - j" arbitrary: j rule: less_induct)
  case less
  have IH: "\<exists>cs q. drop t s = print_nodes cs @ 0x3C # 0x2F # q \<and> nodes_ok cs \<and> depth c + levels_list cs \<le> depth_limit m"
    if "il_loop m d s (Content t) c \<noteq> None" "context_ok cap c" "0 < depth c" "depth c \<le> depth_limit m" "j < t" "j < length s" for t c
    using less[of t] that by simp
  have opened: "\<exists>x q. drop (i + 1) s = tl (print_node x) @ q \<and> node_ok x \<and> \<not> is_chars x \<and> depth c + levels x \<le> depth_limit m"
    if run: "il_loop m d s (Open i) c \<noteq> None" and ctx: "context_ok cap c" and dl: "depth c \<le> depth_limit m" and i: "j \<le> i" for i c
  proof -
    obtain r where r: "il_open m s i c = Some r" using run by (auto simp: il_loop.simps[of m d s "Open i"] split: option.splits)
    then have il: "i < length s" by (auto simp: il_open_def split: if_splits)
    obtain n as w e q closed where o: "drop (i + 1) s = tl (print_tag n as w) @ e @ q" "name_ok n" "attrs_ok as" "list_all is_ws w"
      "closed \<and> e = [0x2F, 0x3E] \<or> \<not> closed \<and> e = [0x3E]" using open_inv[OF r] by blast
    show ?thesis
    proof (cases closed)
      case True
      then show ?thesis using True o dl
        by (intro exI[of _ "Closed n as w"] exI[of _ q]) (simp add: is_chars_def print_tag_def)
    next
      case False
      then have p: "drop (i + 1) s = tl (print_tag n as w) @ [0x3E] @ q" using o(1,5) by simp
      have dep: "depth c < depth_limit m"
        using open_print[OF p o(2-4) _ ctx, of False m] r by (auto simp: cap_def Let_def split: if_splits)
      define t where "t = i + length (print_tag n as w) + 1"
      define el where "el = elem_rec (positions s) i (length (attrs c)) (parent_of c) n (length as) t 0 False"
      let ?R = "chain (last_of cap c) (length (recs c)) (recs c)"
      from enter_element[OF p o(2-4) ctx[unfolded cap_def] dep, folded cap_def t_def, folded el_def]
      obtain c2 where open2: "il_open m s i c = Some (Content t, c2)" and k2: "context_ok cap c2"
        and sc2: "scanned cap c (c2\<lparr>depth := depth c\<rparr>) (?R @ [el]) (attrs c @ attr_entries (i + 1 + length n) as) (Some (length (recs c)))"
        and c2: "depth c2 = Suc (depth c)" "get_open c2 = Some (length (recs c))" "last_of cap c2 = None"
        and d2: "drop t s = q" and sl: "slice s (i + 1) (length n) = n" .
      have run2: "il_loop m d s (Content t) c2 \<noteq> None" using run open2 by (simp add: il_loop.simps[of m d s "Open i"])
      obtain cs q' where cs: "drop t s = print_nodes cs @ 0x3C # 0x2F # q'" "nodes_ok cs" "depth c2 + levels_list cs \<le> depth_limit m"
        using IH[OF run2 k2] c2(1) dep i il by (auto simp: t_def)
      obtain c3 l where c3: "il_loop m d s (Content t) c2 = il_loop m d s (Content (t + length (print_nodes cs))) c3"
        "scanned cap c2 c3 ((if list_all (dropped d) cs then recs c2 else chain (last_of cap c2) (length (recs c2)) (recs c2))
          @ nodes_recs (positions s) d t (length (recs c2)) (length (attrs c2)) (get_open c2) cs) (attrs c2 @ nodes_attrs t cs) l"
        using scan_print(2)[OF cs(2,1) k2[unfolded cap_def] _ cs(3), of d] c2(1) unfolding cap_def by auto
      have "recs c2 = ?R @ [el]" using sc2 by (simp add: scanned_def)
      then have o3: "get_open c3 = Some (length (recs c))" "recs c3 ! length (recs c) = el"
        using scanned_open[OF c3(2)] c3(2) c2 by (simp_all add: scanned_def nth_append)
      define t3 where "t3 = t + length (print_nodes cs)"
      have d3: "drop t3 s = 0x3C # 0x2F # q'" using drop_on[OF cs(1)] by (simp add: t3_def)
      obtain r' where r': "il_close m s (t3 + 2) c3 = Some r'"
        using run2 c3(1) content_close[OF d3, of m d c3] by (auto simp: il_loop.simps[of m d s "Content t3"] t3_def[symmetric] split: option.splits)
      obtain en w' q'' where en: "drop (t3 + 2) s = en @ w' @ 0x3E # q''" "name_ok en" "close_of n en = n" "list_all is_ws w'"
        using close_inv[OF r' o3(1) o3(2)[unfolded el_def] sl] by blast
      have "q' = en @ w' @ 0x3E # q''" using drop_cons[OF drop_cons[OF d3]] en(1) by simp
      then have "drop (i + 1) s = tl (print_node (Elem n as w cs en w')) @ q''" using p d2 cs(1) by (simp add: print_tag_def)
      then show ?thesis using o cs en c2(1) by (intro exI[of _ "Elem n as w cs en w'"] exI[of _ q'']) (simp add: is_chars_def)
    qed
  qed
  have content: "\<exists>cs q. drop j s = print_nodes cs @ 0x3C # 0x2F # q \<and> nodes_ok cs \<and> depth c + levels_list cs \<le> depth_limit m"
    if run: "il_loop m d s (Content j) c \<noteq> None" and ctx: "context_ok cap c" "0 < depth c" "depth c \<le> depth_limit m" for c
  proof -
    obtain k ws where k: "run_end 0x3C s j = Some (k, ws)"
      using run by (auto simp: il_loop.simps[of m d s "Content j"] il_content_def split: option.splits)
    obtain t q where t: "drop j s = t @ 0x3C # q" "0x3C \<notin> set t" "0x26 \<notin> set t" "k = j + length t" using split_run[OF k] by auto
    let ?text = "if t = [] then [] else [Chars t]"
    have tx: "print_nodes ?text = t" "nodes_ok ?text" "levels_list ?text = 0" using t by simp_all
    define c1 where "c1 = (if t = [] \<or> d \<and> il_ws_only t then c else push_rec cap (text_rec (positions s) j (get_open c) t) c)"
    have c1: "il_content m d s j c = il_content m d s k c1"
      using content_text[OF t(1) _ t(2,3) meta_eq_to_obj_eq[OF cap_def], of d c] t(4) by (cases "t = []") (simp_all add: c1_def)
    have ctx1: "context_ok cap c1" "depth c1 = depth c"
      using scanned_next[OF push_scanned[OF ctx(1,2), of "text_rec (positions s) j (get_open c) t"] _ ctx(1,2)] ctx
      by (auto simp: c1_def text_rec_def)
    have dk: "drop k s = 0x3C # q" using drop_on[OF t(1)] t(4) by simp
    have more: "il_content m d s k c1 \<noteq> None" using run c1 by (auto simp: il_loop.simps[of m d s "Content j"] split: option.splits)
    have re: "run_end 0x3C s k = Some (k, False)" using run_to_tag[of k s "[]" q] dk by simp
    obtain b r where q: "q = b # r"
    proof (cases q)
      case Nil
      then have "length s \<le> k + 1" using arg_cong[OF dk, of length] by simp
      then show thesis using more re by (simp add: il_content_def)
    qed
    have "at s (k + 1) = b" using drop_cons[OF dk] q by simp
    then have qb: "b \<noteq> 0x21" "b \<noteq> 0x3F" using more re by (auto simp: il_content_def split: if_splits)
    show ?thesis
    proof (cases "b = 0x2F")
      case True
      then show ?thesis using t(1) q tx ctx(3) by (intro exI[of _ ?text] exI[of _ r]) simp
    next
      case False
      have run1: "il_loop m d s (Open k) c1 \<noteq> None"
        using run c1 content_open[OF dk[unfolded q] qb False] by (simp add: il_loop.simps[of m d s "Content j"])
      obtain x q' where x: "drop (k + 1) s = tl (print_node x) @ q'" "node_ok x" "\<not> is_chars x" "depth c1 + levels x \<le> depth_limit m"
        using opened[OF run1 ctx1(1)] ctx(3) ctx1(2) t(4) by auto
      obtain c2 where c2: "il_loop m d s (Open k) c1 =
          (case behind s c1 (length (recs c1)) (k + length (print_node x)) of None \<Rightarrow> None | Some n \<Rightarrow> il_loop m d s n c2)"
        "scanned cap c1 c2 (chain (last_of cap c1) (length (recs c1)) (recs c1)
          @ node_recs (positions s) d k (length (recs c1)) (length (attrs c1)) (parent_of c1) x) (attrs c1 @ node_attrs k x) (Some (length (recs c1)))"
        using scan_print(1)[OF x(2,3,1) ctx1(1)[unfolded cap_def] x(4), of d] unfolding cap_def by blast
      define t2 where "t2 = k + length (print_node x)"
      have ctx2: "context_ok cap c2" "0 < depth c2" "depth c2 = depth c"
        using scanned_next[OF c2(2) _ ctx1(1)] ctx(2) ctx1(2) by auto
      have run2: "il_loop m d s (Content t2) c2 \<noteq> None"
        using run1 c2(1) ctx(2) ctx1(2) by (simp add: behind_def t2_def)
      obtain y z where y: "print_node x = 0x3C # y # z" using markup_first[OF x(3,2)] by blast
      have "drop j s \<noteq> []" using t(1) by simp
      then have l: "j < t2" "j < length s" using t(4) y by (simp_all add: t2_def)
      obtain cs q'' where cs: "drop t2 s = print_nodes cs @ 0x3C # 0x2F # q''" "nodes_ok cs" "depth c2 + levels_list cs \<le> depth_limit m"
        using IH[OF run2 ctx2(1,2) _ l] ctx2(3) ctx(3) by auto
      have "drop (k + 1) s = q" using drop_cons[OF dk] by simp
      then have "q = tl (print_node x) @ q'" using x(1) by simp
      then have e: "drop k s = print_node x @ q'" using dk y by simp
      then have "q' = print_nodes cs @ 0x3C # 0x2F # q''" using drop_on[OF e] cs(1) by (simp add: t2_def)
      then have "drop j s = print_nodes (?text @ x # cs) @ 0x3C # 0x2F # q''" using t(1) dk e by simp
      moreover have "nodes_ok (?text @ x # cs)" "depth c + levels_list (?text @ x # cs) \<le> depth_limit m"
        using t(2,3) x cs ctx2(3) ctx1(2) by (auto simp: is_chars_def)
      ultimately show ?thesis by blast
    qed
  qed
  have "\<forall>c. il_loop m d s (Open j) c \<noteq> None \<longrightarrow> context_ok cap c \<longrightarrow> depth c \<le> depth_limit m \<longrightarrow>
      (\<exists>x q. drop (j + 1) s = tl (print_node x) @ q \<and> node_ok x \<and> \<not> is_chars x \<and> depth c + levels x \<le> depth_limit m)"
    using opened by blast
  show ?case using opened content by blast
qed

lemma accepted_document:
  assumes "leptris_il_scan m s d \<noteq> None"
  obtains bom lead b x trail junk where "s = print_doc bom lead b x trail junk" "doc_ok m bom lead b x trail junk"
proof -
  define bom where "bom \<longleftrightarrow> take 3 s = [0xEF, 0xBB, 0xBF]"
  define i0 where "i0 = (if bom then 3 else 0 :: nat)"
  define i where "i = skip_ws s i0"
  have run: "il_loop m d s (Open i) empty_ctx \<noteq> None" and il: "i < length s"
    using assms unfolding leptris_il_scan_def bom_test bom_def[symmetric] i0_def[symmetric] Let_def i_def[symmetric]
    by (auto split: if_splits)
  have ctx: "context_ok (stack_cap m) empty_ctx" "depth empty_ctx = 0" using cap_limit by (simp_all add: context_ok_def empty_ctx_def)
  obtain x q where x: "drop (i + 1) s = tl (print_node x) @ q" "node_ok x" "\<not> is_chars x" "levels x \<le> depth_limit m"
    using scan_accepts[where j = i and m = m and d = d and s = s] run ctx by force
  obtain c' where "il_loop m d s (Open i) empty_ctx =
      (case behind s empty_ctx 0 (i + length (print_node x)) of None \<Rightarrow> None | Some n \<Rightarrow> il_loop m d s n c')"
    using scan_print(1)[OF x(2,3,1) ctx(1), of d] x(4) ctx(2) by (auto simp: empty_ctx_def)
  then have fin: "il_finish s 0 (i + length (print_node x)) \<noteq> None" using run ctx(2) by (auto simp: behind_def split: option.splits)
  obtain y z where "print_node x = 0x3C # y # z" using markup_first[OF x(3,2)] by blast
  then have e: "i + 1 + length (tl (print_node x)) = i + length (print_node x)" by simp
  have dq: "drop (i + length (print_node x)) s = q" using drop_on[OF x(1)] unfolding e .
  define k where "k = skip_ws s (i + length (print_node x))"
  obtain trail where trail: "q = trail @ drop k s" "list_all is_ws trail" using split_ws[of "i + length (print_node x)" s] dq k_def by auto
  have "at s k = 0" using fin by (auto simp: il_finish_def k_def Let_def split: if_splits)
  then have junk: "drop k s = [] \<or> hd (drop k s) = 0" by (auto simp: at_def split: list.splits)
  obtain lead where lead: "drop i0 s = lead @ drop i s" "list_all is_ws lead" using split_ws[of i0 s] i_def by auto
  define b where "b = at s i"
  have di: "drop i s = b # drop (i + 1) s" using il by (simp add: b_def at_def Cons_nth_drop_Suc[symmetric])
  have nb: "\<not> is_ws b"
  proof
    assume "is_ws b"
    have "drop i s = dropWhile is_ws (drop i0 s)" by (simp add: i_def skip_ws_def dropWhile_eq_drop add.commute)
    then have dw: "dropWhile is_ws (drop i0 s) = b # drop (i + 1) s" using di by metis
    then have "\<not> is_ws (hd (dropWhile is_ws (drop i0 s)))" by (intro hd_dropWhile[of is_ws "drop i0 s"]) simp
    then show False using \<open>is_ws b\<close> by (simp add: dw)
  qed
  have "s = (if bom then [0xEF, 0xBB, 0xBF] else []) @ drop i0 s"
  proof (cases bom)
    case True
    then have "take 3 s = [0xEF, 0xBB, 0xBF]" by (simp add: bom_def)
    then show ?thesis using append_take_drop_id[of 3 s] True unfolding i0_def by metis
  qed (simp add: i0_def)
  then have doc: "s = print_doc bom lead b x trail (drop k s)"
    unfolding print_doc_def using lead(1) di x(1) trail(1) by simp
  moreover have "doc_ok m bom lead b x trail (drop k s)"
    unfolding doc_ok_def doc[symmetric] using lead(2) nb x(2-4) trail(2) junk by (simp add: bom_def)
  ultimately show thesis by (rule that)
qed

text \<open>
  C5. The scan of the interleaved lane is decided exactly: it succeeds just on the printed documents
  (elements, attributes and character data nested no deeper than the limit, with the leniencies of
  \<open>doc_ok\<close>), and the tables that it gives are those of the document: its records in document order with
  their offsets, positions, parents and next siblings, and its attributes.
\<close>

theorem il_scan_exact:
  "tables (leptris_il_scan m s d) = Some (R, A, root) \<longleftrightarrow>
    (\<exists>bom lead b x trail junk. s = print_doc bom lead b x trail junk \<and> doc_ok m bom lead b x trail junk
      \<and> (let j = (if bom then 3 else 0) + length lead in R = node_recs (length s < 0x7FFFFFFF) d j 0 0 None x \<and> A = node_attrs j x) \<and> root = 0)"
proof
  assume t: "tables (leptris_il_scan m s d) = Some (R, A, root)"
  then have "leptris_il_scan m s d \<noteq> None" by (auto simp: tables_def)
  then obtain bom lead b x trail junk where "s = print_doc bom lead b x trail junk" "doc_ok m bom lead b x trail junk"
    by (rule accepted_document)
  with scan_document[OF this(2), of d] t show "\<exists>bom lead b x trail junk. s = print_doc bom lead b x trail junk \<and> doc_ok m bom lead b x trail junk
      \<and> (let j = (if bom then 3 else 0) + length lead in R = node_recs (length s < 0x7FFFFFFF) d j 0 0 None x \<and> A = node_attrs j x) \<and> root = 0"
    by (intro exI[of _ bom] exI[of _ lead] exI[of _ b] exI[of _ x] exI[of _ trail] exI[of _ junk]) (simp add: Let_def)
qed (auto simp: scan_document Let_def)

text \<open>
  The scan accepts texts that are not well-formed: end tags that do not match, as in
  \<open><p:a></x:p:a>\<close>, any first byte, and anything behind a NUL byte; it gives up on \<open><p:a></p:a>\<close>.
\<close>

theorem il_scan_lenient:
  "leptris_il_scan 0 (ascii ''<p:a></x:p:a>'') False \<noteq> None \<and> leptris_il_scan 0 (ascii ''!a/>'') False \<noteq> None
    \<and> leptris_il_scan 0 (ascii ''<a/>'' @ [0, 0x3C]) False \<noteq> None \<and> leptris_il_scan 0 (ascii ''<a x='1'y='<'/>'') False \<noteq> None
    \<and> leptris_il_scan 0 (ascii ''<p:a></p:a>'') False = None"
  by (intro conjI; code_simp)

end
