(* ===== verification/Dom.thy ===== *)
theory Dom
  imports Encoding
begin

text \<open>
  The tree of nodes and its mutation: the nodes with their links, the walks over a chain of siblings,
  the cache of last children, and the operations that attach, move and remove nodes
  (\<open>dom/element.c\<close>, \<open>dom/element_modify.c\<close>, \<open>dom/node_public.c\<close>, \<open>dom/edges.h\<close>). The heap holds the
  nodes of one document, so that \<open>adopt_for_splice\<close> keeps its argument; pointer arguments are not NULL.
  A walk that does not end, and a read of memory that is no link, is \<open>None\<close>.
\<close>

section \<open>Nodes\<close>

type_synonym addr = nat

datatype node_kind = NODE_ELEMENT | NODE_TEXT | NODE_COMMENT | NODE_CDATA | NODE_PI | NODE_DOCTYPE
  | NODE_ATTRIBUTE | NODE_DOCUMENT | NODE_ENTITY_REF

text \<open>The part of \<open>leptris_ns_cache\<close> that remembers where an indexed read of the children stopped.\<close>

record child_cache =
  child_gen :: u32
  child_cached_gen :: u32
  child_idx :: u32
  child_node :: "addr option"

text \<open>
  Links are given decoded. \<open>stamped\<close> tells that the document is found for the node when it is at the
  top: an element by its entry in the map of roots, another node by its owner field; \<open>namebp\<close> tells
  that the name of an element is preceded by its document.
\<close>

record dom_node =
  ntype :: node_kind
  version :: "30 word"
  parent_off :: "addr option"
  next_sibling_off :: "addr option"
  first_child_off :: "addr option"
  child_count :: u16
  ns_cache :: "child_cache option"
  stamped :: bool
  namebp :: bool

record dom =
  heap :: "addr \<Rightarrow> dom_node"
  mut_tail :: "nat \<Rightarrow> (addr \<times> addr) option"
  mut_elem_cursor :: addr
  mut_elem_end :: addr
  mutation_version :: u32
  element_index :: bool

definition on_node :: "addr \<Rightarrow> (dom_node \<Rightarrow> dom_node) \<Rightarrow> dom \<Rightarrow> dom" where
  "on_node a f s = s\<lparr>heap := (heap s)(a := f (heap s a))\<rparr>"

definition is_element :: "dom \<Rightarrow> addr \<Rightarrow> bool" where
  "is_element s n \<longleftrightarrow> ntype (heap s n) = NODE_ELEMENT"

text \<open>The kinds that \<open>leptris_edge_idx\<close> gives an entry in the tables of offsets.\<close>

fun has_edges :: "node_kind \<Rightarrow> bool" where
  "has_edges NODE_DOCTYPE = False"
| "has_edges NODE_ATTRIBUTE = False"
| "has_edges NODE_DOCUMENT = False"
| "has_edges _ = True"

definition leptris_node_parent :: "dom \<Rightarrow> addr \<Rightarrow> addr option" where
  "leptris_node_parent s n = (if has_edges (ntype (heap s n)) then parent_off (heap s n) else None)"

definition leptris_node_get_next_sibling :: "dom \<Rightarrow> addr \<Rightarrow> addr option" where
  "leptris_node_get_next_sibling s n = (if has_edges (ntype (heap s n)) then next_sibling_off (heap s n) else None)"

definition leptris_node_set_next_sibling :: "addr \<Rightarrow> addr option \<Rightarrow> dom \<Rightarrow> dom" where
  "leptris_node_set_next_sibling n v s = (if has_edges (ntype (heap s n)) then on_node n (next_sibling_off_update (\<lambda>_. v)) s else s)"

definition leptris_elem_set_next_sibling :: "addr \<Rightarrow> addr option \<Rightarrow> dom \<Rightarrow> dom" where
  "leptris_elem_set_next_sibling n v s = on_node n (next_sibling_off_update (\<lambda>_. v)) s"

definition leptris_elem_set_first_child :: "addr \<Rightarrow> addr option \<Rightarrow> dom \<Rightarrow> dom" where
  "leptris_elem_set_first_child n v s = on_node n (first_child_off_update (\<lambda>_. v)) s"

definition leptris_elem_set_parent :: "addr \<Rightarrow> addr option \<Rightarrow> dom \<Rightarrow> dom" where
  "leptris_elem_set_parent n v s = on_node n (parent_off_update (\<lambda>_. v)) s"

text \<open>The switch over the kinds with the setter of each.\<close>

definition set_parent_of_kind :: "addr \<Rightarrow> addr option \<Rightarrow> dom \<Rightarrow> dom" where
  "set_parent_of_kind n v s = (if has_edges (ntype (heap s n)) then on_node n (parent_off_update (\<lambda>_. v)) s else s)"

definition leptris_node_increment_version :: "addr \<Rightarrow> dom \<Rightarrow> dom" where
  "leptris_node_increment_version n s = on_node n (version_update (\<lambda>v. v + 1)) s"

text \<open>
  The reader for elements takes its argument for an element. It reads byte 24, where an element and a
  text node have the parent, but a comment, a CDATA section and an entity reference the next sibling,
  and a processing instruction a half of the pointer to its data.
\<close>

definition leptris_element_parent :: "dom \<Rightarrow> addr \<Rightarrow> addr option option" where
  "leptris_element_parent s n =
    (case ntype (heap s n) of
       NODE_ELEMENT \<Rightarrow> Some (parent_off (heap s n))
     | NODE_TEXT \<Rightarrow> Some (parent_off (heap s n))
     | NODE_COMMENT \<Rightarrow> Some (next_sibling_off (heap s n))
     | NODE_CDATA \<Rightarrow> Some (next_sibling_off (heap s n))
     | NODE_ENTITY_REF \<Rightarrow> Some (next_sibling_off (heap s n))
     | _ \<Rightarrow> None)"

section \<open>Walks\<close>

partial_function (option) last_from :: "dom \<Rightarrow> addr \<Rightarrow> addr option" where
  "last_from s c = (case leptris_node_get_next_sibling s c of None \<Rightarrow> Some c | Some n \<Rightarrow> last_from s n)"

definition leptris_elem_last_child :: "dom \<Rightarrow> addr \<Rightarrow> addr option option" where
  "leptris_elem_last_child s e = (case first_child_off (heap s e) of None \<Rightarrow> Some None | Some c \<Rightarrow> map_option Some (last_from s c))"

text \<open>The node before \<open>n\<close> in the chain, and whether \<open>n\<close> is in the chain at all.\<close>

partial_function (option) find_from :: "dom \<Rightarrow> addr \<Rightarrow> addr option \<Rightarrow> addr \<Rightarrow> (addr option \<times> bool) option" where
  "find_from s n prev c =
    (if c = n then Some (prev, True)
     else (case leptris_node_get_next_sibling s c of
             None \<Rightarrow> Some (Some c, False)
           | Some d \<Rightarrow> find_from s n (Some c) d))"

definition find_node :: "dom \<Rightarrow> addr \<Rightarrow> addr option \<Rightarrow> (addr option \<times> bool) option" where
  "find_node s n first = (case first of None \<Rightarrow> Some (None, False) | Some c \<Rightarrow> find_from s n None c)"

definition leptris_node_first_child_internal :: "dom \<Rightarrow> addr \<Rightarrow> addr option" where
  "leptris_node_first_child_internal s n = (if is_element s n then first_child_off (heap s n) else None)"

partial_function (option) climb :: "dom \<Rightarrow> addr \<Rightarrow> addr option" where
  "climb s e =
    (case leptris_element_parent s e of
       None \<Rightarrow> None
     | Some None \<Rightarrow> Some e
     | Some (Some p) \<Rightarrow> climb s p)"

text \<open>Whether the document is found. The memo of the last root holds an entry of the map of roots.\<close>

definition leptris_element_get_document :: "dom \<Rightarrow> addr \<Rightarrow> bool option" where
  "leptris_element_get_document s e =
    (if \<not> is_element s e then Some (stamped (heap s e))
     else if namebp (heap s e) \<and> parent_off (heap s e) = None then Some True
     else map_option (\<lambda>top. namebp (heap s top) \<or> stamped (heap s top)) (climb s e))"

definition leptris_element_index_invalidate :: "dom \<Rightarrow> dom" where
  "leptris_element_index_invalidate s = s\<lparr>mutation_version := mutation_version s + 1, element_index := False\<rparr>"

definition invalidate_index_if :: "bool \<Rightarrow> dom \<Rightarrow> dom" where
  "invalidate_index_if d s = (if d then leptris_element_index_invalidate s else s)"

definition leptris_element_invalidate_child_cache :: "addr \<Rightarrow> dom \<Rightarrow> dom" where
  "leptris_element_invalidate_child_cache e s =
    on_node e (ns_cache_update (map_option (\<lambda>c. c\<lparr>child_gen := child_gen c + 1, child_node := None\<rparr>))) s"

section \<open>Unlinking\<close>

text \<open>\<open>v\<close> becomes what follows \<open>prev\<close> in the list of \<open>p\<close>.\<close>

definition link_behind :: "addr \<Rightarrow> addr option \<Rightarrow> addr option \<Rightarrow> dom \<Rightarrow> dom" where
  "link_behind p prev v s =
    (case prev of Some q \<Rightarrow> leptris_node_set_next_sibling q v s | None \<Rightarrow> leptris_elem_set_first_child p v s)"

text \<open>An entity reference keeps its parent.\<close>

definition clear_parent :: "addr \<Rightarrow> bool \<Rightarrow> dom \<Rightarrow> dom" where
  "clear_parent n orphan_doc s =
    (if is_element s n then
       let s = leptris_elem_set_parent n None s in
       if orphan_doc then on_node n (stamped_update (\<lambda>_. True)) s else s
     else if ntype (heap s n) = NODE_ENTITY_REF then s
     else set_parent_of_kind n None s)"

definition uncount :: "addr \<Rightarrow> addr \<Rightarrow> dom \<Rightarrow> dom" where
  "uncount p n s =
    (if is_element s n \<and> child_count (heap s p) > 0 then on_node p (child_count_update (\<lambda>k. k - 1)) s else s)"

definition leptris_node_unlink :: "addr \<Rightarrow> dom \<Rightarrow> (leptris_status \<times> dom) option" where
  "leptris_node_unlink n s =
    (case leptris_node_parent s n of
       None \<Rightarrow> Some (LEPTRIS_ERROR_NOT_FOUND, s)
     | Some p \<Rightarrow> do {
         orphan_doc \<leftarrow> (if is_element s n \<and> \<not> namebp (heap s n) then leptris_element_get_document s n else Some False);
         (prev, found) \<leftarrow> find_node s n (first_child_off (heap s p));
         if \<not> found then Some (LEPTRIS_ERROR_NOT_FOUND, s)
         else do {
           let next = leptris_node_get_next_sibling s n;
           let s = link_behind p prev next s;
           _ \<leftarrow> leptris_elem_last_child s p;
           let s = uncount p n (clear_parent n orphan_doc (leptris_node_set_next_sibling n None s));
           d \<leftarrow> leptris_element_get_document s p;
           Some (LEPTRIS_OK, invalidate_index_if d s) } })"

section \<open>Appending and prepending\<close>

definition appendable :: "node_kind \<Rightarrow> bool" where
  "appendable k \<longleftrightarrow> k \<in> {NODE_ELEMENT, NODE_TEXT, NODE_COMMENT, NODE_CDATA, NODE_PI} \<or> k = NODE_ENTITY_REF"

definition tail_slot :: "addr \<Rightarrow> nat" where
  "tail_slot e = (e div 16) mod 64"

text \<open>The cached last child: an entry counts if it is for \<open>e\<close> and its child has \<open>e\<close> as parent.\<close>

definition cached_tail :: "dom \<Rightarrow> addr \<Rightarrow> addr option" where
  "cached_tail s e =
    (case mut_tail s (tail_slot e) of
       Some (p, c) \<Rightarrow> if p = e \<and> leptris_node_parent s c = Some e then Some c else None
     | None \<Rightarrow> None)"

text \<open>A node with a parent is unlinked first, whatever the outcome.\<close>

definition unlink_attached :: "addr \<Rightarrow> dom \<Rightarrow> dom option" where
  "unlink_attached c s = (case leptris_node_parent s c of None \<Rightarrow> Some s | Some _ \<Rightarrow> map_option snd (leptris_node_unlink c s))"

definition append_last :: "dom \<Rightarrow> addr \<Rightarrow> addr option \<Rightarrow> addr option \<Rightarrow> addr option option" where
  "append_last s e hint tail =
    (if first_child_off (heap s e) = None then Some None
     else case hint of
       Some h \<Rightarrow> Some (Some h)
     | None \<Rightarrow> (case tail of Some t \<Rightarrow> Some (Some t) | None \<Rightarrow> leptris_elem_last_child s e))"

text \<open>An element as the last node is linked directly, another node by its kind.\<close>

definition link_last :: "addr \<Rightarrow> addr option \<Rightarrow> addr \<Rightarrow> dom \<Rightarrow> dom" where
  "link_last e l child s =
    (case l of
       Some q \<Rightarrow> if is_element s q then leptris_elem_set_next_sibling q (Some child) s
                 else leptris_node_set_next_sibling q (Some child) s
     | None \<Rightarrow> leptris_elem_set_first_child e (Some child) s)"

definition count_child :: "addr \<Rightarrow> dom \<Rightarrow> dom" where
  "count_child e s = on_node e (child_count_update (\<lambda>k. k + 1)) s"

definition remember_tail :: "bool \<Rightarrow> addr \<Rightarrow> addr \<Rightarrow> dom \<Rightarrow> dom" where
  "remember_tail doc e child s = (if doc then s\<lparr>mut_tail := (mut_tail s)(tail_slot e := Some (e, child))\<rparr> else s)"

definition leptris_element_append_child_hint_doc :: "addr \<Rightarrow> addr \<Rightarrow> bool \<Rightarrow> addr option \<Rightarrow> dom \<Rightarrow> dom option" where
  "leptris_element_append_child_hint_doc e child doc hint s =
    (if \<not> appendable (ntype (heap s child)) then Some s
     else do {
       s \<leftarrow> unlink_attached child s;
       let tail = (if doc then cached_tail s e else None);
       s \<leftarrow> (if is_element s child then do {
               let s = leptris_elem_set_parent child (Some e) s;
               l \<leftarrow> append_last s e hint tail;
               Some (count_child e (link_last e l child s)) }
             else do {
               l \<leftarrow> append_last s e hint tail;
               Some (set_parent_of_kind child (Some e) (link_behind e l (Some child) s)) });
       Some (leptris_node_increment_version e (remember_tail doc e child s)) })"

text \<open>A hint counts if it is a child of \<open>e\<close> without a next sibling.\<close>

definition leptris_element_append_child_tail :: "addr \<Rightarrow> addr \<Rightarrow> bool \<Rightarrow> addr option \<Rightarrow> dom \<Rightarrow> dom option" where
  "leptris_element_append_child_tail e child doc hint s =
    leptris_element_append_child_hint_doc e child doc
      (case hint of
         Some h \<Rightarrow> if leptris_node_parent s h \<noteq> Some e \<or> leptris_node_get_next_sibling s h \<noteq> None then None else Some h
       | None \<Rightarrow> None) s"

definition leptris_element_append_child_internal :: "addr \<Rightarrow> addr \<Rightarrow> dom \<Rightarrow> dom option" where
  "leptris_element_append_child_internal e child s = do {
     d \<leftarrow> leptris_element_get_document s e;
     leptris_element_append_child_hint_doc e child d None s }"

definition MUT_ELEM_BLOCK_COUNT :: nat where "MUT_ELEM_BLOCK_COUNT = 1024"

definition node_in_current_mut_block :: "bool \<Rightarrow> dom \<Rightarrow> addr \<Rightarrow> bool" where
  "node_in_current_mut_block doc s c \<longleftrightarrow>
    doc \<and> mut_elem_cursor s \<noteq> 0 \<and> mut_elem_end s - MUT_ELEM_BLOCK_COUNT * 44 \<le> c \<and> c < mut_elem_cursor s"

text \<open>Whether \<open>child\<close> is met on the way up, with a bound on the steps.\<close>

fun ancestor_guard :: "nat \<Rightarrow> dom \<Rightarrow> addr option \<Rightarrow> addr \<Rightarrow> bool option" where
  "ancestor_guard 0 s p child = Some False"
| "ancestor_guard (Suc k) s p child =
    (case p of
       None \<Rightarrow> Some False
     | Some q \<Rightarrow> if q = child then Some True
                 else (case leptris_element_parent s q of None \<Rightarrow> None | Some p' \<Rightarrow> ancestor_guard k s p' child))"

partial_function (option) met_from :: "dom \<Rightarrow> addr \<Rightarrow> addr \<Rightarrow> bool option" where
  "met_from s q child =
    (if q = child then Some True
     else (case leptris_element_parent s q of
             None \<Rightarrow> None
           | Some None \<Rightarrow> Some False
           | Some (Some p) \<Rightarrow> met_from s p child))"

definition met_above :: "dom \<Rightarrow> addr option \<Rightarrow> addr \<Rightarrow> bool option" where
  "met_above s p child = (case p of None \<Rightarrow> Some False | Some q \<Rightarrow> met_from s q child)"

definition leptris_element_append_child :: "addr \<Rightarrow> addr \<Rightarrow> dom \<Rightarrow> (leptris_status \<times> dom) option" where
  "leptris_element_append_child parent child s = do {
     doc \<leftarrow> leptris_element_get_document s parent;
     let fresh = (node_in_current_mut_block doc s child \<and> first_child_off (heap s child) = None);
     if parent = child then Some (LEPTRIS_ERROR_INVALID_ARG, s)
     else do {
       above \<leftarrow> (if fresh then Some False
                 else do { p \<leftarrow> leptris_element_parent s parent; ancestor_guard 8192 s p child });
       if above then Some (LEPTRIS_ERROR_INVALID_ARG, s)
       else do {
         s \<leftarrow> leptris_element_append_child_hint_doc parent child doc None s;
         Some (LEPTRIS_OK, invalidate_index_if doc (leptris_element_invalidate_child_cache parent s)) } } }"

definition link_first_element :: "addr \<Rightarrow> addr \<Rightarrow> dom \<Rightarrow> dom" where
  "link_first_element e child s =
    (case first_child_off (heap s e) of
       Some f \<Rightarrow> leptris_elem_set_first_child e (Some child) (leptris_elem_set_next_sibling child (Some f) s)
     | None \<Rightarrow> leptris_elem_set_first_child e (Some child) s)"

definition link_first_node :: "addr \<Rightarrow> addr \<Rightarrow> dom \<Rightarrow> dom" where
  "link_first_node e child s =
    (case first_child_off (heap s e) of
       Some f \<Rightarrow> leptris_elem_set_first_child e (Some child) (leptris_node_set_next_sibling child (Some f) s)
     | None \<Rightarrow> leptris_elem_set_first_child e (Some child) s)"

definition leptris_element_prepend_child_internal :: "addr \<Rightarrow> addr \<Rightarrow> dom \<Rightarrow> dom option" where
  "leptris_element_prepend_child_internal e child s =
    (if \<not> appendable (ntype (heap s child)) then Some s
     else do {
       s \<leftarrow> unlink_attached child s;
       let s = (if is_element s child then count_child e (link_first_element e child (leptris_elem_set_parent child (Some e) s))
                else set_parent_of_kind child (Some e) (link_first_node e child s));
       Some (leptris_node_increment_version e s) })"

definition leptris_element_prepend_child :: "addr \<Rightarrow> addr \<Rightarrow> dom \<Rightarrow> (leptris_status \<times> dom) option" where
  "leptris_element_prepend_child parent child s =
    (if parent = child then Some (LEPTRIS_ERROR_INVALID_ARG, s)
     else do {
       p \<leftarrow> leptris_element_parent s parent;
       above \<leftarrow> met_above s p child;
       if above then Some (LEPTRIS_ERROR_INVALID_ARG, s)
       else do {
         s \<leftarrow> leptris_element_prepend_child_internal parent child s;
         let s = leptris_element_invalidate_child_cache parent s;
         d \<leftarrow> leptris_element_get_document s parent;
         Some (LEPTRIS_OK, invalidate_index_if d s) } })"

section \<open>Inserting beside a node\<close>

text \<open>
  The guard against cycles is for elements only; it takes the sibling for an element. Without a parent
  of the sibling the two nodes are only chained.
\<close>

definition insert_guard :: "dom \<Rightarrow> addr \<Rightarrow> addr \<Rightarrow> bool option" where
  "insert_guard s sibling new_node =
    (if is_element s new_node then
       if sibling = new_node then Some True
       else do { p \<leftarrow> leptris_element_parent s sibling; met_above s p new_node }
     else Some False)"

definition count_if_element :: "addr \<Rightarrow> addr \<Rightarrow> dom \<Rightarrow> dom" where
  "count_if_element p n s = (if is_element s n then count_child p s else s)"

text \<open>The version of a changed element goes up, and its remembered child is forgotten.\<close>

definition touch :: "addr \<Rightarrow> dom \<Rightarrow> dom" where
  "touch p s = leptris_element_invalidate_child_cache p (leptris_node_increment_version p s)"

definition leptris_element_insert_before :: "addr \<Rightarrow> addr \<Rightarrow> dom \<Rightarrow> (leptris_status \<times> dom) option" where
  "leptris_element_insert_before sibling new_node s = do {
     above \<leftarrow> insert_guard s sibling new_node;
     if above then Some (LEPTRIS_ERROR_INVALID_ARG, s)
     else if \<not> appendable (ntype (heap s new_node)) then Some (LEPTRIS_ERROR_INVALID_ARG, s)
     else (case leptris_node_parent s sibling of
         None \<Rightarrow> do {
           s \<leftarrow> unlink_attached new_node s;
           Some (LEPTRIS_OK, leptris_node_set_next_sibling new_node (Some sibling) s) }
       | Some parent \<Rightarrow> do {
           s \<leftarrow> unlink_attached new_node s;
           (prev, found) \<leftarrow> find_node s sibling (leptris_node_first_child_internal s parent);
           if \<not> found then Some (LEPTRIS_ERROR_INVALID_ARG, s)
           else do {
             let s = link_behind parent prev (Some new_node) s;
             let s = set_parent_of_kind new_node (Some parent) (leptris_node_set_next_sibling new_node (Some sibling) s);
             let s = touch parent (count_if_element parent new_node s);
             d \<leftarrow> leptris_element_get_document s parent;
             Some (LEPTRIS_OK, invalidate_index_if d s) } }) }"

definition leptris_element_insert_after :: "addr \<Rightarrow> addr \<Rightarrow> dom \<Rightarrow> (leptris_status \<times> dom) option" where
  "leptris_element_insert_after sibling new_node s = do {
     above \<leftarrow> insert_guard s sibling new_node;
     if above then Some (LEPTRIS_ERROR_INVALID_ARG, s)
     else if \<not> appendable (ntype (heap s new_node)) then Some (LEPTRIS_ERROR_INVALID_ARG, s)
     else (case leptris_node_parent s sibling of
         None \<Rightarrow> do {
           s \<leftarrow> unlink_attached new_node s;
           let after = leptris_node_get_next_sibling s sibling;
           let s = leptris_node_set_next_sibling sibling (Some new_node) s;
           Some (LEPTRIS_OK, leptris_node_set_next_sibling new_node after s) }
       | Some parent \<Rightarrow> do {
           s \<leftarrow> unlink_attached new_node s;
           let next = leptris_node_get_next_sibling s sibling;
           let s = leptris_node_set_next_sibling new_node next (leptris_node_set_next_sibling sibling (Some new_node) s);
           let s = set_parent_of_kind new_node (Some parent) s;
           _ \<leftarrow> (if is_element s parent then leptris_elem_last_child s parent else Some None);
           let s = touch parent (count_if_element parent new_node s);
           d \<leftarrow> leptris_element_get_document s parent;
           Some (LEPTRIS_OK, invalidate_index_if d s) }) }"

section \<open>Removing\<close>

definition uncount_removed :: "addr \<Rightarrow> addr \<Rightarrow> dom \<Rightarrow> dom" where
  "uncount_removed p n s = (if is_element s n then on_node p (child_count_update (\<lambda>k. k - 1)) s else s)"

definition leptris_element_remove_child :: "addr \<Rightarrow> addr \<Rightarrow> dom \<Rightarrow> (leptris_status \<times> dom) option" where
  "leptris_element_remove_child parent child s = do {
     (prev, found) \<leftarrow> find_node s child (leptris_node_first_child_internal s parent);
     if \<not> found then Some (LEPTRIS_ERROR_INVALID_ARG, s)
     else do {
       let next = leptris_node_get_next_sibling s child;
       let s = link_behind parent prev next s;
       _ \<leftarrow> leptris_elem_last_child s parent;
       let s = set_parent_of_kind child None (leptris_node_set_next_sibling child None s);
       let s = touch parent (uncount_removed parent child s);
       d \<leftarrow> leptris_element_get_document s parent;
       Some (LEPTRIS_OK, invalidate_index_if d s) } }"

text \<open>Every node of a chain becomes an orphan; the next one is read before.\<close>

partial_function (option) orphan_all :: "dom \<Rightarrow> addr \<Rightarrow> dom option" where
  "orphan_all s c =
    (case leptris_node_get_next_sibling s c of
       None \<Rightarrow> Some (leptris_node_set_next_sibling c None (set_parent_of_kind c None s))
     | Some n \<Rightarrow> orphan_all (leptris_node_set_next_sibling c None (set_parent_of_kind c None s)) n)"

definition leptris_element_remove_all_children :: "addr \<Rightarrow> dom \<Rightarrow> (leptris_status \<times> dom) option" where
  "leptris_element_remove_all_children e s = do {
     s \<leftarrow> (case leptris_node_first_child_internal s e of None \<Rightarrow> Some s | Some c \<Rightarrow> orphan_all s c);
     let s = touch e (on_node e (child_count_update (\<lambda>_. 0)) (leptris_elem_set_first_child e None s));
     d \<leftarrow> leptris_element_get_document s e;
     Some (LEPTRIS_OK, invalidate_index_if d s) }"

section \<open>Reading children\<close>

text \<open>All children, of every kind, as \<open>leptris_node_children\<close> writes them.\<close>

partial_function (option) nodes_from :: "dom \<Rightarrow> addr \<Rightarrow> addr list option" where
  "nodes_from s c =
    (case leptris_node_get_next_sibling s c of
       None \<Rightarrow> Some [c]
     | Some n \<Rightarrow> do { rest \<leftarrow> nodes_from s n; Some (c # rest) })"

definition leptris_node_children :: "dom \<Rightarrow> addr \<Rightarrow> nat \<Rightarrow> addr list option" where
  "leptris_node_children s e max_count =
    (case leptris_node_first_child_internal s e of
       None \<Rightarrow> Some []
     | Some c \<Rightarrow> map_option (take max_count) (nodes_from s c))"

definition leptris_node_previous_sibling :: "dom \<Rightarrow> addr \<Rightarrow> addr option option" where
  "leptris_node_previous_sibling s n =
    (case leptris_node_parent s n of
       None \<Rightarrow> Some None
     | Some p \<Rightarrow> do {
         (prev, found) \<leftarrow> find_node s n (first_child_off (heap s p));
         Some (if found then prev else None) })"

text \<open>The \<open>i\<close>-th element at or behind \<open>c\<close>, where \<open>c\<close> has the number \<open>k\<close>.\<close>

partial_function (option) element_from :: "dom \<Rightarrow> nat \<Rightarrow> nat \<Rightarrow> addr \<Rightarrow> addr option option" where
  "element_from s i k c =
    (if is_element s c \<and> k = i then Some (Some c)
     else (case leptris_node_get_next_sibling s c of
             None \<Rightarrow> Some None
           | Some n \<Rightarrow> element_from s i (if is_element s c then k + 1 else k) n))"

definition leptris_element_get_first_child :: "dom \<Rightarrow> addr \<Rightarrow> addr option option" where
  "leptris_element_get_first_child s e =
    (case first_child_off (heap s e) of None \<Rightarrow> Some None | Some c \<Rightarrow> element_from s 0 0 c)"

text \<open>Where an indexed read resumes: at the remembered element, unless a change of the children came after it.\<close>

definition resume_at :: "dom \<Rightarrow> addr \<Rightarrow> nat \<Rightarrow> (addr \<times> nat) option" where
  "resume_at s e i =
    (case ns_cache (heap s e) of
       None \<Rightarrow> None
     | Some cc \<Rightarrow> (case child_node cc of
         None \<Rightarrow> None
       | Some c \<Rightarrow> if child_cached_gen cc = child_gen cc \<and> unat (child_idx cc) \<le> i then Some (c, unat (child_idx cc)) else None))"

definition child_start :: "dom \<Rightarrow> addr \<Rightarrow> nat \<Rightarrow> (addr option \<times> nat) option" where
  "child_start s e i =
    (case resume_at s e i of
       Some (c, j) \<Rightarrow> Some (Some c, j)
     | None \<Rightarrow> do { f \<leftarrow> leptris_element_get_first_child s e; Some (f, 0) })"

definition new_cache :: "bool \<Rightarrow> addr \<Rightarrow> dom \<Rightarrow> dom" where
  "new_cache d e s =
    (if d then on_node e (ns_cache_update (\<lambda>_. Some \<lparr>child_gen = 0, child_cached_gen = 0, child_idx = 0, child_node = None\<rparr>)) s else s)"

definition remember_child :: "addr \<Rightarrow> nat \<Rightarrow> addr option \<Rightarrow> dom \<Rightarrow> dom" where
  "remember_child e i r s =
    (case r of
       None \<Rightarrow> s
     | Some c \<Rightarrow> on_node e (ns_cache_update (map_option (\<lambda>cc. cc\<lparr>child_cached_gen := child_gen cc, child_idx := of_nat i, child_node := Some c\<rparr>))) s)"

definition leptris_element_child :: "dom \<Rightarrow> addr \<Rightarrow> nat \<Rightarrow> (addr option \<times> dom) option" where
  "leptris_element_child s e i =
    (if unat (child_count (heap s e)) \<le> i then Some (None, s)
     else do {
       d \<leftarrow> (if ns_cache (heap s e) = None \<and> child_count (heap s e) > 1 then leptris_element_get_document s e else Some False);
       let s = new_cache d e s;
       (cur, k) \<leftarrow> child_start s e i;
       r \<leftarrow> (case cur of None \<Rightarrow> Some None | Some c \<Rightarrow> element_from s i k c);
       Some (r, remember_child e i r s) })"

declare last_from.simps [code] find_from.simps [code] climb.simps [code] met_from.simps [code]
  orphan_all.simps [code] nodes_from.simps [code] element_from.simps [code]

end
