(* ===== verification/DomTree.thy ===== *)
theory DomTree
  imports Dom
begin

text \<open>
  The tree as lists of children: when the links of the nodes represent a forest, and what inserting a
  node into a list of children and removing one does to the links. The operations of the code are
  combinations of the two.
\<close>

section \<open>Chains\<close>

text \<open>\<open>xs\<close> is the chain of links from \<open>c\<close> up to \<open>d\<close>.\<close>

primrec chain_of :: "(addr \<Rightarrow> addr option) \<Rightarrow> addr option \<Rightarrow> addr list \<Rightarrow> addr option \<Rightarrow> bool" where
  "chain_of f c [] d \<longleftrightarrow> c = d"
| "chain_of f c (x # xs) d \<longleftrightarrow> c = Some x \<and> chain_of f (f x) xs d"

lemma links_append: "chain_of f c (xs @ ys) d \<longleftrightarrow> (\<exists>m. chain_of f c xs m \<and> chain_of f m ys d)"
  by (induction xs arbitrary: c) auto

lemma chain_update [simp]: "x \<notin> set xs \<Longrightarrow> chain_of (f(x := v)) c xs d \<longleftrightarrow> chain_of f c xs d"
  by (induction xs arbitrary: c) auto

lemma chain_cong: "(\<And>x. x \<in> set xs \<Longrightarrow> f x = g x) \<Longrightarrow> chain_of f c xs d \<longleftrightarrow> chain_of g c xs d"
  by (induction xs arbitrary: c) auto

lemma chain_unique: "chain_of f c xs None \<Longrightarrow> chain_of f c ys None \<Longrightarrow> xs = ys"
proof (induction xs arbitrary: c ys)
  case Nil then show ?case by (cases ys) auto
next
  case (Cons x xs) then show ?case by (cases ys) auto
qed

lemma chain_distinct: "chain_of f c xs None \<Longrightarrow> distinct xs"
proof (induction xs arbitrary: c)
  case (Cons x xs)
  have "x \<notin> set xs"
  proof
    assume "x \<in> set xs"
    then obtain as bs where xs: "xs = as @ x # bs" by (metis split_list)
    then have "chain_of f (Some x) (x # bs) None" using Cons.prems by (auto simp: links_append)
    moreover have "chain_of f (Some x) (x # xs) None" using Cons.prems by simp
    ultimately have "x # bs = x # xs" by (rule chain_unique)
    then show False using xs by simp
  qed
  then show ?case using Cons by auto
qed simp

lemma chain_relink:
  assumes "chain_of f c xs d" "distinct xs" "xs \<noteq> []"
  shows "chain_of (f(last xs := v)) c xs v"
proof -
  obtain as x where xs: "xs = as @ [x]" using assms(3) by (metis rev_exhaust)
  then show ?thesis using assms(1,2) by (auto simp: links_append)
qed

section \<open>Forests\<close>

text \<open>Up to the kinds: the next siblings, the parents, the first children and the counts of child elements.\<close>

definition below :: "(addr \<Rightarrow> addr option) \<Rightarrow> (addr \<times> addr) set" where
  "below P = {(p, c). P c = Some p}"

definition linked :: "(addr \<Rightarrow> node_kind) \<Rightarrow> (addr \<Rightarrow> addr option) \<Rightarrow> (addr \<Rightarrow> addr option) \<Rightarrow> (addr \<Rightarrow> addr option) \<Rightarrow> (addr \<Rightarrow> u16)
    \<Rightarrow> (addr \<Rightarrow> addr list) \<Rightarrow> bool" where
  "linked T N P F C ks \<longleftrightarrow>
    (\<forall>p. T p = NODE_ELEMENT \<longrightarrow> chain_of N (F p) (ks p) None \<and> C p = of_nat (length (filter (\<lambda>c. T c = NODE_ELEMENT) (ks p))))
    \<and> (\<forall>p. T p \<noteq> NODE_ELEMENT \<longrightarrow> ks p = [])
    \<and> (\<forall>p c. c \<in> set (ks p) \<longleftrightarrow> P c = Some p)
    \<and> (\<forall>c. P c \<noteq> None \<longrightarrow> has_edges (T c)) \<and> (\<forall>c. P c = None \<longrightarrow> N c = None)
    \<and> wf (below P)"

lemma linkedD:
  assumes "linked T N P F C ks"
  shows linked_chain: "T p = NODE_ELEMENT \<Longrightarrow> chain_of N (F p) (ks p) None"
    and linked_count: "T p = NODE_ELEMENT \<Longrightarrow> C p = of_nat (length (filter (\<lambda>c. T c = NODE_ELEMENT) (ks p)))"
    and linked_leaf: "T p \<noteq> NODE_ELEMENT \<Longrightarrow> ks p = []"
    and linked_parent: "c \<in> set (ks p) \<longleftrightarrow> P c = Some p"
    and linked_edges: "P c \<noteq> None \<Longrightarrow> has_edges (T c)"
    and linked_orphan: "P c = None \<Longrightarrow> N c = None"
    and linked_wf: "wf (below P)"
  using assms by (simp_all add: linked_def)

lemma linked_element: "linked T N P F C ks \<Longrightarrow> P c = Some p \<Longrightarrow> T p = NODE_ELEMENT"
  using linked_leaf[of T N P F C ks p] linked_parent[of T N P F C ks c p] by (cases "T p = NODE_ELEMENT") simp_all

lemma linked_distinct: "linked T N P F C ks \<Longrightarrow> distinct (ks p)"
  by (cases "T p = NODE_ELEMENT") (auto simp: linked_leaf intro: chain_distinct dest: linked_chain)

text \<open>Lists of other parents do not see a change of the links of this one's children.\<close>

lemma linked_other: "linked T N P F C ks \<Longrightarrow> x \<in> set (ks p) \<Longrightarrow> q \<noteq> p \<Longrightarrow> x \<notin> set (ks q)"
  by (simp add: linked_parent)

definition head :: "addr list \<Rightarrow> addr option" where
  "head xs = (case xs of [] \<Rightarrow> None | x # _ \<Rightarrow> Some x)"

lemma head_simps [simp]: "head [] = None" "head (x # xs) = Some x"
  by (simp_all add: head_def)

lemma chain_head: "chain_of f c xs None \<Longrightarrow> c = head xs"
  by (cases xs) auto

text \<open>The links after \<open>v\<close> is put behind the nodes \<open>xs\<close> of the list of \<open>p\<close>.\<close>

definition relink_next :: "addr list \<Rightarrow> addr option \<Rightarrow> (addr \<Rightarrow> addr option) \<Rightarrow> addr \<Rightarrow> addr option" where
  "relink_next xs v N = (if xs = [] then N else N(last xs := v))"

definition relink_first :: "addr \<Rightarrow> addr list \<Rightarrow> addr option \<Rightarrow> (addr \<Rightarrow> addr option) \<Rightarrow> addr \<Rightarrow> addr option" where
  "relink_first p xs v F = (if xs = [] then F(p := v) else F)"

lemma chain_around:
  assumes "chain_of N (F p) (xs @ ys) None" "distinct (xs @ ys)"
  shows "chain_of (relink_next xs v N) (relink_first p xs v F p) xs v" "chain_of (relink_next xs v N) (head ys) ys None"
proof -
  obtain m where m: "chain_of N (F p) xs m" "chain_of N m ys None" using assms(1) by (auto simp: links_append)
  show "chain_of (relink_next xs v N) (relink_first p xs v F p) xs v"
    using m(1) assms(2) chain_relink[OF m(1), of v] by (auto simp: relink_next_def relink_first_def)
  have "last xs \<notin> set ys" if "xs \<noteq> []" using assms(2) last_in_set[OF that] by (auto simp: disjoint_iff)
  then show "chain_of (relink_next xs v N) (head ys) ys None"
    using m(2) chain_head[OF m(2)] by (simp add: relink_next_def)
qed

lemma below_insert: "P c = None \<Longrightarrow> below (P(c := Some p)) = insert (p, c) (below P)"
  by (auto simp: below_def split: if_splits)

lemma below_remove: "below (P(c := None)) \<subseteq> below P"
  by (auto simp: below_def split: if_splits)

theorem linked_insert:
  assumes l: "linked T N P F C ks" and p: "T p = NODE_ELEMENT" and c: "has_edges (T c)" "P c = None" "(c, p) \<notin> (below P)\<^sup>*"
    and ks: "ks p = xs @ ys"
  shows "linked T ((relink_next xs (Some c) N)(c := head ys)) (P(c := Some p)) (relink_first p xs (Some c) F)
      (if T c = NODE_ELEMENT then C(p := C p + 1) else C) (ks(p := xs @ c # ys))"
    (is "linked T ?N ?P ?F ?C ?ks")
  unfolding linked_def
proof (intro conjI allI impI)
  have new: "c \<notin> set (ks q)" for q using linked_parent[OF l, of c q] c(2) by simp
  have d: "distinct (xs @ ys)" using linked_distinct[OF l, of p] ks by simp
  fix q
  show "T q \<noteq> NODE_ELEMENT \<Longrightarrow> ?ks q = []" using p linked_leaf[OF l, of q] by auto
  fix e
  show "e \<in> set (?ks q) \<longleftrightarrow> ?P e = Some q"
  proof (cases "q = p")
    case True
    have "e \<in> set (xs @ ys) \<longleftrightarrow> P e = Some p" using linked_parent[OF l, of e p] ks by simp
    then show ?thesis using True c(2) by auto
  next
    case False
    then show ?thesis using linked_parent[OF l, of e q] c(2) by auto
  qed
  assume "T q = NODE_ELEMENT"
  show "chain_of ?N (?F q) (?ks q) None"
  proof (cases "q = p")
    case True
    have "chain_of N (F p) (xs @ ys) None" using linked_chain[OF l p] ks by simp
    from chain_around[of N F p xs ys "Some c", OF this d] show ?thesis using new[of p] ks True by (auto simp: links_append)
  next
    case False
    have "last xs \<notin> set (ks q)" if "xs \<noteq> []" using linked_other[OF l, of "last xs" p q] False ks that by simp
    then show ?thesis using linked_chain[OF l \<open>T q = NODE_ELEMENT\<close>] new[of q] False by (auto simp: relink_next_def relink_first_def)
  qed
  show "?C q = of_nat (length (filter (\<lambda>c. T c = NODE_ELEMENT) (?ks q)))"
    using linked_count[OF l \<open>T q = NODE_ELEMENT\<close>] ks by auto
next
  fix e
  show "?P e \<noteq> None \<Longrightarrow> has_edges (T e)" using c(1) linked_edges[OF l, of e] by (auto split: if_splits)
  show "?P e = None \<Longrightarrow> ?N e = None"
  proof -
    assume e: "?P e = None"
    then have "e \<notin> set (ks p)" using linked_parent[OF l, of e p] by (auto split: if_splits)
    then have "xs \<noteq> [] \<Longrightarrow> e \<noteq> last xs" using ks by auto
    then show "?N e = None" using e linked_orphan[OF l, of e] by (auto simp: relink_next_def split: if_splits)
  qed
next
  show "wf (below ?P)" using c linked_wf[OF l] by (simp add: below_insert wf_insert)
qed

theorem linked_remove:
  assumes l: "linked T N P F C ks" and ks: "ks p = xs @ c # ys"
  shows "linked T ((relink_next xs (N c) N)(c := None)) (P(c := None)) (relink_first p xs (N c) F)
      (if T c = NODE_ELEMENT then C(p := C p - 1) else C) (ks(p := xs @ ys))"
    (is "linked T ?N ?P ?F ?C ?ks")
  unfolding linked_def
proof (intro conjI allI impI)
  have p: "T p = NODE_ELEMENT" using linked_leaf[OF l, of p] ks by (cases "T p = NODE_ELEMENT") auto
  have c: "P c = Some p" using linked_parent[OF l, of c p] ks by simp
  have d: "distinct (xs @ c # ys)" using linked_distinct[OF l, of p] ks by simp
  have next_c: "N c = head ys" using linked_chain[OF l p] ks by (auto simp: links_append dest: chain_head)
  fix q
  show "T q \<noteq> NODE_ELEMENT \<Longrightarrow> ?ks q = []" using p linked_leaf[OF l, of q] by auto
  fix e
  show "e \<in> set (?ks q) \<longleftrightarrow> ?P e = Some q"
  proof (cases "q = p")
    case True
    have "e \<in> set (xs @ c # ys) \<longleftrightarrow> P e = Some p" using linked_parent[OF l, of e p] ks by simp
    then show ?thesis using True d by auto
  next
    case False
    then show ?thesis using linked_parent[OF l, of e q] c by auto
  qed
  assume "T q = NODE_ELEMENT"
  show "chain_of ?N (?F q) (?ks q) None"
  proof (cases "q = p")
    case True
    have "chain_of N (F p) (xs @ (c # ys)) None" using linked_chain[OF l p] ks by simp
    from chain_around[of N F p xs "c # ys" "N c", OF this d] have "chain_of (relink_next xs (N c) N) (?F p) xs (N c)"
      "chain_of (relink_next xs (N c) N) (Some c) (c # ys) None" by simp_all
    moreover have "relink_next xs (N c) N c = N c" using d by (auto simp: relink_next_def)
    ultimately show ?thesis using True d by (auto simp: links_append)
  next
    case False
    have "last xs \<notin> set (ks q)" if "xs \<noteq> []" using linked_other[OF l, of "last xs" p q] False ks that by simp
    moreover have "c \<notin> set (ks q)" using linked_parent[OF l, of c q] c False by simp
    ultimately show ?thesis using linked_chain[OF l \<open>T q = NODE_ELEMENT\<close>] False by (auto simp: relink_next_def relink_first_def)
  qed
  show "?C q = of_nat (length (filter (\<lambda>c. T c = NODE_ELEMENT) (?ks q)))"
    using linked_count[OF l \<open>T q = NODE_ELEMENT\<close>] ks by auto
next
  fix e
  show "?P e \<noteq> None \<Longrightarrow> has_edges (T e)" using linked_edges[OF l, of e] by (auto split: if_splits)
  show "?P e = None \<Longrightarrow> ?N e = None"
  proof -
    assume e: "?P e = None"
    show "?N e = None"
    proof (cases "e = c")
      case False
      then have "e \<notin> set (ks p)" using e linked_parent[OF l, of e p] by (auto split: if_splits)
      then have "xs \<noteq> [] \<Longrightarrow> e \<noteq> last xs" using ks by auto
      then show ?thesis using e False linked_orphan[OF l, of e] by (auto simp: relink_next_def split: if_splits)
    qed simp
  qed
next
  show "wf (below ?P)" by (rule wf_subset[OF linked_wf[OF l] below_remove])
qed

end
