(* ===== verification/DomEdit.thy ===== *)
theory DomEdit
  imports DomTree
begin

text \<open>
  The operations on the tree refine operations on lists of children: each one returns, its links
  represent the new lists, and its status is that of the abstract operation, as long as the cached
  last children are the last children.
\<close>

section \<open>The links of a state\<close>

definition kinds :: "dom \<Rightarrow> addr \<Rightarrow> node_kind" where "kinds s n = ntype (heap s n)"
definition nexts :: "dom \<Rightarrow> addr \<Rightarrow> addr option" where "nexts s n = next_sibling_off (heap s n)"
definition parents :: "dom \<Rightarrow> addr \<Rightarrow> addr option" where "parents s n = parent_off (heap s n)"
definition firsts :: "dom \<Rightarrow> addr \<Rightarrow> addr option" where "firsts s n = first_child_off (heap s n)"
definition counts :: "dom \<Rightarrow> addr \<Rightarrow> u16" where "counts s n = child_count (heap s n)"

lemmas links_defs = kinds_def nexts_def parents_def firsts_def counts_def

text \<open>Child elements are counted in 16 bits, so no node has more than the counter can tell.\<close>

definition elements :: "dom \<Rightarrow> addr list \<Rightarrow> nat" where
  "elements s cs = length (filter (\<lambda>c. kinds s c = NODE_ELEMENT) cs)"

definition tree :: "dom \<Rightarrow> (addr \<Rightarrow> addr list) \<Rightarrow> bool" where
  "tree s ks \<longleftrightarrow> linked (kinds s) (nexts s) (parents s) (firsts s) (counts s) ks \<and> (\<forall>p. elements s (ks p) < 65536)"

named_theorems links \<comment> \<open>what the setters do to the links\<close>

lemma set_next_links [links]:
  "kinds (leptris_node_set_next_sibling n v s) = kinds s"
  "has_edges (kinds s n) \<Longrightarrow> nexts (leptris_node_set_next_sibling n v s) = (nexts s)(n := v)"
  "parents (leptris_node_set_next_sibling n v s) = parents s"
  "firsts (leptris_node_set_next_sibling n v s) = firsts s"
  "counts (leptris_node_set_next_sibling n v s) = counts s"
  "mut_tail (leptris_node_set_next_sibling n v s) = mut_tail s"
  by (auto simp: leptris_node_set_next_sibling_def on_node_def links_defs fun_eq_iff)

lemma elem_set_next_links [links]:
  "kinds (leptris_elem_set_next_sibling n v s) = kinds s"
  "nexts (leptris_elem_set_next_sibling n v s) = (nexts s)(n := v)"
  "parents (leptris_elem_set_next_sibling n v s) = parents s"
  "firsts (leptris_elem_set_next_sibling n v s) = firsts s"
  "counts (leptris_elem_set_next_sibling n v s) = counts s"
  "mut_tail (leptris_elem_set_next_sibling n v s) = mut_tail s"
  by (auto simp: leptris_elem_set_next_sibling_def on_node_def links_defs fun_eq_iff)

lemma set_first_links [links]:
  "kinds (leptris_elem_set_first_child n v s) = kinds s"
  "nexts (leptris_elem_set_first_child n v s) = nexts s"
  "parents (leptris_elem_set_first_child n v s) = parents s"
  "firsts (leptris_elem_set_first_child n v s) = (firsts s)(n := v)"
  "counts (leptris_elem_set_first_child n v s) = counts s"
  "mut_tail (leptris_elem_set_first_child n v s) = mut_tail s"
  by (auto simp: leptris_elem_set_first_child_def on_node_def links_defs fun_eq_iff)

lemma elem_set_parent_links [links]:
  "kinds (leptris_elem_set_parent n v s) = kinds s"
  "nexts (leptris_elem_set_parent n v s) = nexts s"
  "parents (leptris_elem_set_parent n v s) = (parents s)(n := v)"
  "firsts (leptris_elem_set_parent n v s) = firsts s"
  "counts (leptris_elem_set_parent n v s) = counts s"
  "mut_tail (leptris_elem_set_parent n v s) = mut_tail s"
  by (auto simp: leptris_elem_set_parent_def on_node_def links_defs fun_eq_iff)

lemma set_parent_links [links]:
  "kinds (set_parent_of_kind n v s) = kinds s"
  "nexts (set_parent_of_kind n v s) = nexts s"
  "has_edges (kinds s n) \<Longrightarrow> parents (set_parent_of_kind n v s) = (parents s)(n := v)"
  "firsts (set_parent_of_kind n v s) = firsts s"
  "counts (set_parent_of_kind n v s) = counts s"
  "mut_tail (set_parent_of_kind n v s) = mut_tail s"
  by (auto simp: set_parent_of_kind_def on_node_def links_defs fun_eq_iff)

lemma count_links [links]:
  "kinds (on_node n (child_count_update f) s) = kinds s"
  "nexts (on_node n (child_count_update f) s) = nexts s"
  "parents (on_node n (child_count_update f) s) = parents s"
  "firsts (on_node n (child_count_update f) s) = firsts s"
  "counts (on_node n (child_count_update f) s) = (counts s)(n := f (counts s n))"
  "mut_tail (on_node n (child_count_update f) s) = mut_tail s"
  by (auto simp: on_node_def links_defs fun_eq_iff)

lemma stamp_links [links]:
  "kinds (on_node n (stamped_update f) s) = kinds s"
  "nexts (on_node n (stamped_update f) s) = nexts s"
  "parents (on_node n (stamped_update f) s) = parents s"
  "firsts (on_node n (stamped_update f) s) = firsts s"
  "counts (on_node n (stamped_update f) s) = counts s"
  "mut_tail (on_node n (stamped_update f) s) = mut_tail s"
  by (auto simp: on_node_def links_defs fun_eq_iff)

lemma version_links [links]:
  "kinds (leptris_node_increment_version n s) = kinds s"
  "nexts (leptris_node_increment_version n s) = nexts s"
  "parents (leptris_node_increment_version n s) = parents s"
  "firsts (leptris_node_increment_version n s) = firsts s"
  "counts (leptris_node_increment_version n s) = counts s"
  "mut_tail (leptris_node_increment_version n s) = mut_tail s"
  by (auto simp: leptris_node_increment_version_def on_node_def links_defs fun_eq_iff)

lemma cache_links [links]:
  "kinds (leptris_element_invalidate_child_cache n s) = kinds s"
  "nexts (leptris_element_invalidate_child_cache n s) = nexts s"
  "parents (leptris_element_invalidate_child_cache n s) = parents s"
  "firsts (leptris_element_invalidate_child_cache n s) = firsts s"
  "counts (leptris_element_invalidate_child_cache n s) = counts s"
  "mut_tail (leptris_element_invalidate_child_cache n s) = mut_tail s"
  by (auto simp: leptris_element_invalidate_child_cache_def on_node_def links_defs fun_eq_iff)

lemma index_links [links]:
  "kinds (invalidate_index_if d s) = kinds s"
  "nexts (invalidate_index_if d s) = nexts s"
  "parents (invalidate_index_if d s) = parents s"
  "firsts (invalidate_index_if d s) = firsts s"
  "counts (invalidate_index_if d s) = counts s"
  "mut_tail (invalidate_index_if d s) = mut_tail s"
  by (auto simp: invalidate_index_if_def leptris_element_index_invalidate_def links_defs fun_eq_iff)

lemma tail_links [links]:
  "kinds (s\<lparr>mut_tail := m\<rparr>) = kinds s" "nexts (s\<lparr>mut_tail := m\<rparr>) = nexts s" "parents (s\<lparr>mut_tail := m\<rparr>) = parents s"
  "firsts (s\<lparr>mut_tail := m\<rparr>) = firsts s" "counts (s\<lparr>mut_tail := m\<rparr>) = counts s"
  by (auto simp: links_defs fun_eq_iff)

lemma tree_links: "kinds s' = kinds s \<Longrightarrow> nexts s' = nexts s \<Longrightarrow> parents s' = parents s \<Longrightarrow> firsts s' = firsts s \<Longrightarrow> counts s' = counts s
    \<Longrightarrow> tree s' ks = tree s ks"
  by (simp add: tree_def elements_def)

text \<open>The readers in terms of the links.\<close>

lemma node_parent_links: "leptris_node_parent s n = (if has_edges (kinds s n) then parents s n else None)"
  by (simp add: leptris_node_parent_def links_defs)

lemma node_next_links: "leptris_node_get_next_sibling s n = (if has_edges (kinds s n) then nexts s n else None)"
  by (simp add: leptris_node_get_next_sibling_def links_defs)

lemma is_element_links: "is_element s n \<longleftrightarrow> kinds s n = NODE_ELEMENT"
  by (simp add: is_element_def kinds_def)

section \<open>The walks return\<close>

text \<open>A chain of nodes that have links.\<close>

definition nodes_chain :: "dom \<Rightarrow> addr option \<Rightarrow> addr list \<Rightarrow> bool" where
  "nodes_chain s c xs \<longleftrightarrow> chain_of (nexts s) c xs None \<and> list_all (\<lambda>x. has_edges (kinds s x)) xs"

lemma nodes_chain_Cons: "nodes_chain s c (x # xs) \<longleftrightarrow> c = Some x \<and> has_edges (kinds s x) \<and> nodes_chain s (nexts s x) xs"
  by (auto simp: nodes_chain_def)

lemma nodes_chain_Nil: "nodes_chain s c [] \<longleftrightarrow> c = None"
  by (auto simp: nodes_chain_def)

lemma last_from_chain: "nodes_chain s (Some c) xs \<Longrightarrow> last_from s c = Some (last xs)"
proof (induction xs arbitrary: c)
  case (Cons x xs)
  then have x: "c = x" "has_edges (kinds s x)" "nodes_chain s (nexts s x) xs" by (auto simp: nodes_chain_Cons)
  show ?case
  proof (cases xs)
    case Nil
    then show ?thesis using x by (simp add: last_from.simps node_next_links nodes_chain_Nil)
  next
    case (Cons y ys)
    then have "nexts s x = Some y" using x(3) by (simp add: nodes_chain_Cons)
    then show ?thesis using x Cons.IH[of y] Cons by (simp add: last_from.simps[of s x] node_next_links)
  qed
qed (simp add: nodes_chain_def)

lemma last_child_chain:
  assumes "nodes_chain s (firsts s p) xs"
  shows "leptris_elem_last_child s p = Some (if xs = [] then None else Some (last xs))"
proof (cases xs)
  case (Cons x ys)
  then have "firsts s p = Some x" using assms by (simp add: nodes_chain_Cons)
  then show ?thesis using assms Cons last_from_chain[of s x xs] by (simp add: leptris_elem_last_child_def firsts_def)
qed (use assms in \<open>simp add: nodes_chain_Nil leptris_elem_last_child_def firsts_def\<close>)

lemma find_from_chain:
  "nodes_chain s (Some c) (xs @ n # ys) \<Longrightarrow> n \<notin> set xs \<Longrightarrow> find_from s n prev c = Some (if xs = [] then prev else Some (last xs), True)"
proof (induction xs arbitrary: c prev)
  case Nil then show ?case by (simp add: nodes_chain_Cons find_from.simps[of s n])
next
  case (Cons x xs)
  then have x: "c = x" "has_edges (kinds s x)" "nodes_chain s (nexts s x) (xs @ n # ys)" "x \<noteq> n" by (auto simp: nodes_chain_Cons)
  then obtain d where d: "nexts s x = Some d" by (cases "nexts s x"; cases xs) (auto simp: nodes_chain_def)
  then show ?case using x Cons.IH[of d "Some x"] Cons.prems by (simp add: find_from.simps[of s n prev x] node_next_links)
qed

lemma find_from_absent: "nodes_chain s (Some c) xs \<Longrightarrow> n \<notin> set xs \<Longrightarrow> \<exists>q. find_from s n prev c = Some (q, False)"
proof (induction xs arbitrary: c prev)
  case Nil then show ?case by (simp add: nodes_chain_def)
next
  case (Cons x xs)
  then have x: "c = x" "has_edges (kinds s x)" "nodes_chain s (nexts s x) xs" "x \<noteq> n" by (auto simp: nodes_chain_Cons)
  show ?case
  proof (cases "nexts s x")
    case None then show ?thesis using x by (simp add: find_from.simps[of s n prev x] node_next_links)
  next
    case (Some d)
    then show ?thesis using x Cons.IH[of d "Some x"] Cons.prems by (simp add: find_from.simps[of s n prev x] node_next_links)
  qed
qed

lemma find_node_chain:
  assumes "nodes_chain s f (xs @ n # ys)" "n \<notin> set xs"
  shows "find_node s n f = Some (if xs = [] then None else Some (last xs), True)"
proof -
  obtain c where "f = Some c" using assms(1) by (cases f; cases xs) (auto simp: nodes_chain_def)
  then show ?thesis using assms find_from_chain[of s c xs n ys None] by (simp add: find_node_def)
qed

lemma find_node_absent: "nodes_chain s f xs \<Longrightarrow> n \<notin> set xs \<Longrightarrow> \<exists>q. find_node s n f = Some (q, False)"
  by (cases f) (auto simp: find_node_def find_from_absent)

text \<open>Of a tree.\<close>

lemma tree_chain:
  assumes "tree s ks" "kinds s p = NODE_ELEMENT"
  shows "nodes_chain s (firsts s p) (ks p)"
proof -
  have "has_edges (kinds s x)" if "x \<in> set (ks p)" for x
    using that assms(1) linked_edges[of "kinds s" "nexts s" "parents s" "firsts s" "counts s" ks x]
      linked_parent[of "kinds s" "nexts s" "parents s" "firsts s" "counts s" ks x p] by (simp add: tree_def)
  then show ?thesis using assms by (auto simp: nodes_chain_def tree_def list_all_iff dest: linked_chain)
qed

lemma tree_parent: "tree s ks \<Longrightarrow> n \<in> set (ks p) \<longleftrightarrow> parents s n = Some p"
  unfolding tree_def using linked_parent by blast

lemma tree_edges: "tree s ks \<Longrightarrow> parents s n \<noteq> None \<Longrightarrow> has_edges (kinds s n)"
  by (auto simp: tree_def dest: linked_edges)

lemma tree_element: "tree s ks \<Longrightarrow> parents s n = Some p \<Longrightarrow> kinds s p = NODE_ELEMENT"
  by (auto simp: tree_def dest: linked_element)

lemma tree_distinct: "tree s ks \<Longrightarrow> distinct (ks p)"
  by (auto simp: tree_def dest: linked_distinct)

lemma tree_wf: "tree s ks \<Longrightarrow> wf (below (parents s))"
  by (auto simp: tree_def dest: linked_wf)

lemma tree_node_parent: "tree s ks \<Longrightarrow> leptris_node_parent s n = parents s n"
  using tree_edges[of s ks n] by (cases "parents s n") (auto simp: node_parent_links)

lemma element_parent_links: "kinds s n = NODE_ELEMENT \<Longrightarrow> leptris_element_parent s n = Some (parents s n)"
  by (simp add: leptris_element_parent_def links_defs)

lemma climb_returns:
  assumes "tree s ks"
  shows "kinds s e = NODE_ELEMENT \<Longrightarrow> \<exists>t. climb s e = Some t"
proof (induction e rule: wf_induct_rule[OF tree_wf[OF assms]])
  case (1 e)
  show ?case
  proof (cases "parents s e")
    case None then show ?thesis using 1 by (simp add: climb.simps[of s e] element_parent_links)
  next
    case (Some p)
    then have "\<exists>t. climb s p = Some t" using 1 tree_element[OF assms Some] by (simp add: below_def)
    then show ?thesis using 1 Some by (simp add: climb.simps[of s e] element_parent_links)
  qed
qed

lemma document_returns: "tree s ks \<Longrightarrow> \<exists>d. leptris_element_get_document s e = Some d"
  using climb_returns[of s ks e] by (auto simp: leptris_element_get_document_def is_element_links)

lemma met_from_above:
  assumes "tree s ks"
  shows "kinds s q = NODE_ELEMENT \<Longrightarrow> met_from s q c = Some ((c, q) \<in> (below (parents s))\<^sup>*)"
proof (induction q rule: wf_induct_rule[OF tree_wf[OF assms]])
  case (1 q)
  show ?case
  proof (cases "q = c")
    case False
    have step: "(c, q) \<in> (below (parents s))\<^sup>* \<longleftrightarrow> (case parents s q of None \<Rightarrow> False | Some p \<Rightarrow> (c, p) \<in> (below (parents s))\<^sup>*)"
      using False by (auto simp: below_def elim: rtranclE intro: rtrancl_into_rtrancl split: option.splits)
    show ?thesis
    proof (cases "parents s q")
      case None then show ?thesis using 1 False step by (simp add: met_from.simps[of s q] element_parent_links)
    next
      case (Some p)
      then have "met_from s p c = Some ((c, p) \<in> (below (parents s))\<^sup>*)" using 1 tree_element[OF assms Some] by (simp add: below_def)
      then show ?thesis using 1 False step Some by (simp add: met_from.simps[of s q] element_parent_links)
    qed
  qed (simp add: met_from.simps[of s c])
qed

text \<open>The bounded walk up gives no false alarm, and meets an ancestor that is near enough.\<close>

lemma ancestor_guard_none:
  assumes "tree s ks"
  shows "(\<And>q. p = Some q \<Longrightarrow> kinds s q = NODE_ELEMENT \<and> (c, q) \<notin> (below (parents s))\<^sup>*) \<Longrightarrow> ancestor_guard k s p c = Some False"
proof (induction k arbitrary: p)
  case (Suc k)
  show ?case
  proof (cases p)
    case (Some q)
    then have q: "kinds s q = NODE_ELEMENT" "(c, q) \<notin> (below (parents s))\<^sup>*" using Suc.prems by auto
    have "ancestor_guard k s (parents s q) c = Some False"
    proof (rule Suc.IH)
      fix r assume r: "parents s q = Some r"
      then have "(r, q) \<in> below (parents s)" by (simp add: below_def)
      then show "kinds s r = NODE_ELEMENT \<and> (c, r) \<notin> (below (parents s))\<^sup>*"
        using q(2) tree_element[OF assms r] by (auto dest: rtrancl_into_rtrancl)
    qed
    then show ?thesis using Some q by (auto simp: element_parent_links)
  qed simp
qed simp

lemma ancestor_guard_meets:
  assumes "tree s ks"
  shows "kinds s q = NODE_ELEMENT \<Longrightarrow> (c, q) \<in> below (parents s) ^^ n \<Longrightarrow> n < k \<Longrightarrow> ancestor_guard k s (Some q) c = Some True"
proof (induction k arbitrary: q n)
  case (Suc k)
  show ?case
  proof (cases "q = c")
    case False
    then obtain m r where m: "n = Suc m" "(c, r) \<in> below (parents s) ^^ m" "(r, q) \<in> below (parents s)"
      using Suc.prems(2) by (cases n) auto
    then have r: "parents s q = Some r" by (simp add: below_def)
    then have "ancestor_guard k s (Some r) c = Some True" using Suc.IH[of r m] Suc.prems(3) m tree_element[OF assms r] by simp
    then show ?thesis using False r Suc.prems(1) by (simp add: element_parent_links)
  qed simp
qed simp

end
