(* ===== verification/DomOps.thy ===== *)
theory DomOps
  imports DomEdit
begin

text \<open>
  Each operation on the links refines the operation on the lists of children.
\<close>

section \<open>Lists of children\<close>

definition detach :: "addr \<Rightarrow> (addr \<Rightarrow> addr list) \<Rightarrow> addr \<Rightarrow> addr list" where
  "detach c ks p = removeAll c (ks p)"

definition put :: "addr \<Rightarrow> addr list \<Rightarrow> (addr \<Rightarrow> addr list) \<Rightarrow> addr \<Rightarrow> addr list" where
  "put p cs ks = ks(p := cs)"

text \<open>
  A cached last child is stale if it is a child but not the last one. Entries with another parent do
  not count.
\<close>

definition stale :: "(nat \<Rightarrow> (addr \<times> addr) option) \<Rightarrow> addr \<Rightarrow> addr list \<Rightarrow> bool" where
  "stale m p cs \<longleftrightarrow> (case m (tail_slot p) of None \<Rightarrow> False | Some (q, t) \<Rightarrow> q = p \<and> t \<in> set cs \<and> t \<noteq> last cs)"

definition tails_ok :: "dom \<Rightarrow> (addr \<Rightarrow> addr list) \<Rightarrow> bool" where
  "tails_ok s ks \<longleftrightarrow> (\<forall>p. \<not> stale (mut_tail s) p (ks p))"

lemma cached_tail_child: "tree s ks \<Longrightarrow> cached_tail s p = Some t \<longleftrightarrow> mut_tail s (tail_slot p) = Some (p, t) \<and> t \<in> set (ks p)"
  by (auto simp: cached_tail_def tree_node_parent tree_parent split: option.splits prod.splits if_splits)

lemma cached_tail_last: "tree s ks \<Longrightarrow> tails_ok s ks \<Longrightarrow> cached_tail s p = Some t \<Longrightarrow> t = last (ks p)"
  by (auto simp: cached_tail_child tails_ok_def stale_def dest: spec[of _ p])

lemma stale_removeAll: "stale m p (removeAll c cs) \<Longrightarrow> stale m p cs"
proof -
  assume "stale m p (removeAll c cs)"
  then obtain t where t: "m (tail_slot p) = Some (p, t)" "t \<in> set cs" "t \<noteq> c" "t \<noteq> last (removeAll c cs)"
    by (auto simp: stale_def split: option.splits)
  have "t \<noteq> last cs"
  proof
    assume "t = last cs"
    moreover have "cs \<noteq> []" using t(2) by auto
    then have "cs = butlast cs @ [last cs]" by simp
    then have "removeAll c cs = removeAll c (butlast cs) @ [last cs]" using t(3) \<open>t = last cs\<close>
      by (metis removeAll.simps removeAll_append)
    ultimately show False using t(4) by simp
  qed
  then show ?thesis using t by (simp add: stale_def)
qed

lemma tails_detach: "tails_ok s ks \<Longrightarrow> mut_tail s' = mut_tail s \<Longrightarrow> tails_ok s' (detach c ks)"
  by (auto simp: tails_ok_def detach_def dest: stale_removeAll)

lemma detach_child:
  assumes "tree s ks" "ks p = xs @ c # ys"
  shows "detach c ks = ks(p := xs @ ys)"
proof
  fix q
  have d: "distinct (xs @ c # ys)" using tree_distinct[OF assms(1), of p] assms(2) by simp
  have "c \<notin> set (ks q)" if "q \<noteq> p" using that tree_parent[OF assms(1), of c q] tree_parent[OF assms(1), of c p] assms(2) by auto
  then show "detach c ks q = (ks(p := xs @ ys)) q" using assms(2) d by (auto simp: detach_def removeAll_id)
qed

lemma detach_orphan: "tree s ks \<Longrightarrow> parents s c = None \<Longrightarrow> detach c ks = ks"
  using tree_parent[of s ks c] by (auto simp: detach_def fun_eq_iff removeAll_id)

section \<open>Unlinking\<close>

lemma elements_append [simp]: "elements s (xs @ ys) = elements s xs + elements s ys"
  by (simp add: elements_def)

lemma elements_Cons: "elements s (x # xs) = (if kinds s x = NODE_ELEMENT then Suc (elements s xs) else elements s xs)"
  by (simp add: elements_def)

lemma tree_count: "tree s ks \<Longrightarrow> kinds s p = NODE_ELEMENT \<Longrightarrow> unat (counts s p) = elements s (ks p)"
proof -
  assume t: "tree s ks" and p: "kinds s p = NODE_ELEMENT"
  have "counts s p = of_nat (elements s (ks p))" using t p by (auto simp: tree_def elements_def dest: linked_count)
  moreover have "elements s (ks p) < 65536" using t by (simp add: tree_def)
  ultimately show ?thesis by (simp add: unat_of_nat)
qed

lemma tree_remove:
  assumes t: "tree s ks" and ks: "ks p = xs @ c # ys"
    and s': "kinds s' = kinds s" "nexts s' = (relink_next xs (nexts s c) (nexts s))(c := None)" "parents s' = (parents s)(c := None)"
      "firsts s' = relink_first p xs (nexts s c) (firsts s)"
      "counts s' = (if kinds s c = NODE_ELEMENT then (counts s)(p := counts s p - 1) else counts s)"
  shows "tree s' (detach c ks)"
proof -
  have "elements s (xs @ c # ys) < 65536" using t ks[symmetric] by (simp add: tree_def)
  then have "elements s' (xs @ ys) < 65536" using s'(1) by (auto simp: elements_def split: if_splits)
  moreover have "elements s' (ks q) < 65536" for q using t s'(1) by (simp add: tree_def elements_def)
  ultimately show ?thesis
    using linked_remove[of "kinds s" "nexts s" "parents s" "firsts s" "counts s" ks p xs c ys] t ks s'
    by (simp add: tree_def detach_child[OF t ks])
qed

lemma relink_chain:
  assumes t: "tree s ks" and ks: "ks p = xs @ c # ys"
    and s1: "kinds s1 = kinds s" "nexts s1 = relink_next xs (nexts s c) (nexts s)" "firsts s1 = relink_first p xs (nexts s c) (firsts s)"
  shows "nodes_chain s1 (firsts s1 p) (xs @ ys)"
proof -
  have p: "kinds s p = NODE_ELEMENT" using tree_parent[OF t, of c p] ks tree_element[OF t, of c p] by simp
  have d: "distinct (xs @ c # ys)" using tree_distinct[OF t, of p] ks by simp
  have n: "nodes_chain s (firsts s p) (xs @ c # ys)" using tree_chain[OF t p] ks by simp
  then have "chain_of (nexts s) (firsts s p) (xs @ c # ys) None" by (simp add: nodes_chain_def)
  note ch = chain_around[of "nexts s" "firsts s" p xs "c # ys" "nexts s c", OF this d]
  have "relink_next xs (nexts s c) (nexts s) c = nexts s c" using d by (auto simp: relink_next_def)
  then have "chain_of (nexts s1) (firsts s1 p) (xs @ ys) None" using ch s1 by (auto simp: links_append)
  then show ?thesis using n s1(1) by (auto simp: nodes_chain_def)
qed

lemma link_behind_links:
  assumes "xs \<noteq> [] \<Longrightarrow> has_edges (kinds s (last xs))"
  shows "kinds (link_behind p (if xs = [] then None else Some (last xs)) v s) = kinds s"
    "nexts (link_behind p (if xs = [] then None else Some (last xs)) v s) = relink_next xs v (nexts s)"
    "parents (link_behind p (if xs = [] then None else Some (last xs)) v s) = parents s"
    "firsts (link_behind p (if xs = [] then None else Some (last xs)) v s) = relink_first p xs v (firsts s)"
    "counts (link_behind p (if xs = [] then None else Some (last xs)) v s) = counts s"
    "mut_tail (link_behind p (if xs = [] then None else Some (last xs)) v s) = mut_tail s"
  using assms by (auto simp: link_behind_def relink_next_def relink_first_def links)

lemma clear_parent_links:
  assumes "has_edges (kinds s n)" "kinds s n \<noteq> NODE_ENTITY_REF"
  shows "kinds (clear_parent n d s) = kinds s" "nexts (clear_parent n d s) = nexts s" "parents (clear_parent n d s) = (parents s)(n := None)"
    "firsts (clear_parent n d s) = firsts s" "counts (clear_parent n d s) = counts s" "mut_tail (clear_parent n d s) = mut_tail s"
  using assms by (auto simp: clear_parent_def links Let_def kinds_def[symmetric])

lemma uncount_links:
  "kinds (uncount p n s) = kinds s" "nexts (uncount p n s) = nexts s" "parents (uncount p n s) = parents s"
  "firsts (uncount p n s) = firsts s"
  "counts (uncount p n s) = (if kinds s n = NODE_ELEMENT \<and> counts s p \<noteq> 0 then (counts s)(p := counts s p - 1) else counts s)"
  "mut_tail (uncount p n s) = mut_tail s"
  by (auto simp: uncount_def links is_element_links counts_def[symmetric] word_neq_0_conv)

lemma unlink_refines:
  assumes t: "tree s ks" and ks: "ks p = xs @ c # ys" and k: "kinds s c \<noteq> NODE_ENTITY_REF"
  shows "\<exists>s'. leptris_node_unlink c s = Some (LEPTRIS_OK, s') \<and> tree s' (detach c ks) \<and> kinds s' = kinds s
    \<and> parents s' = (parents s)(c := None) \<and> mut_tail s' = mut_tail s"
proof -
  have pc: "parents s c = Some p" using tree_parent[OF t, of c p] ks by simp
  have p: "kinds s p = NODE_ELEMENT" by (rule tree_element[OF t pc])
  have e: "has_edges (kinds s c)" using tree_edges[OF t, of c] pc by simp
  have d: "distinct (xs @ c # ys)" using tree_distinct[OF t, of p] ks by simp
  have ex: "has_edges (kinds s (last xs))" if "xs \<noteq> []"
    using tree_edges[OF t, of "last xs"] tree_parent[OF t, of "last xs" p] ks that by simp
  have find: "find_node s c (first_child_off (heap s p)) = Some (if xs = [] then None else Some (last xs), True)"
    using find_node_chain[of s "firsts s p" xs c ys] tree_chain[OF t p] ks d by (simp add: firsts_def)
  obtain od where od: "(if is_element s c \<and> \<not> namebp (heap s c) then leptris_element_get_document s c else Some False) = Some od"
    using document_returns[OF t, of c] by (cases "is_element s c \<and> \<not> namebp (heap s c)") auto
  let ?prev = "if xs = [] then None else Some (last xs)"
  define s1 where "s1 = link_behind p ?prev (nexts s c) s"
  have s1: "kinds s1 = kinds s" "nexts s1 = relink_next xs (nexts s c) (nexts s)" "firsts s1 = relink_first p xs (nexts s c) (firsts s)"
    "parents s1 = parents s" "counts s1 = counts s" "mut_tail s1 = mut_tail s"
    using ex by (simp_all add: s1_def link_behind_links)
  obtain w where w: "leptris_elem_last_child s1 p = Some w"
    using last_child_chain[OF relink_chain[OF t ks s1(1-3)]] by auto
  define s4 where "s4 = uncount p c (clear_parent c od (leptris_node_set_next_sibling c None s1))"
  have "counts s p \<noteq> 0" if "kinds s c = NODE_ELEMENT"
  proof -
    have "unat (counts s p) = elements s (xs @ c # ys)" using tree_count[OF t p] ks by simp
    then have "0 < unat (counts s p)" using that by (simp add: elements_def)
    then show ?thesis by auto
  qed
  then have s4: "kinds s4 = kinds s" "nexts s4 = (relink_next xs (nexts s c) (nexts s))(c := None)" "firsts s4 = relink_first p xs (nexts s c) (firsts s)"
    "parents s4 = (parents s)(c := None)" "counts s4 = (if kinds s c = NODE_ELEMENT then (counts s)(p := counts s p - 1) else counts s)" "mut_tail s4 = mut_tail s"
    using e k s1 by (auto simp: s4_def links uncount_links clear_parent_links)
  have t4: "tree s4 (detach c ks)" by (rule tree_remove[OF t ks s4(1,2,4,3,5)])
  obtain dd where dd: "leptris_element_get_document s4 p = Some dd" using document_returns[OF t4] by auto
  have "leptris_node_unlink c s = Some (LEPTRIS_OK, invalidate_index_if dd s4)"
    using od find w dd e pc by (simp add: leptris_node_unlink_def node_parent_links node_next_links Let_def s1_def s4_def)
  moreover have "tree (invalidate_index_if dd s4) (detach c ks)" using t4 tree_links[of "invalidate_index_if dd s4" s4] by (simp add: links)
  ultimately show ?thesis using s4 by (auto simp: links)
qed

lemma unlink_attached_refines:
  assumes t: "tree s ks" and k: "parents s c \<noteq> None \<Longrightarrow> kinds s c \<noteq> NODE_ENTITY_REF"
  shows "\<exists>s'. unlink_attached c s = Some s' \<and> tree s' (detach c ks) \<and> kinds s' = kinds s
    \<and> parents s' = (parents s)(c := None) \<and> mut_tail s' = mut_tail s"
proof (cases "parents s c")
  case None
  then show ?thesis using t by (auto simp: unlink_attached_def tree_node_parent detach_orphan)
next
  case (Some p)
  then have "c \<in> set (ks p)" using tree_parent[OF t] by simp
  then obtain xs ys where "ks p = xs @ c # ys" by (metis split_list)
  from unlink_refines[OF t this] k Some t show ?thesis by (auto simp: unlink_attached_def tree_node_parent)
qed

section \<open>Appending\<close>

lemma tree_insert:
  assumes t: "tree s ks" and p: "kinds s p = NODE_ELEMENT" and c: "has_edges (kinds s c)" "parents s c = None" "(c, p) \<notin> (below (parents s))\<^sup>*"
    and ks: "ks p = xs @ ys" and room: "elements s (ks p) < 65535"
    and s': "kinds s' = kinds s" "nexts s' = (relink_next xs (Some c) (nexts s))(c := head ys)" "parents s' = (parents s)(c := Some p)"
      "firsts s' = relink_first p xs (Some c) (firsts s)"
      "counts s' = (if kinds s c = NODE_ELEMENT then (counts s)(p := counts s p + 1) else counts s)"
  shows "tree s' (put p (xs @ c # ys) ks)"
proof -
  have "elements s' (xs @ c # ys) < 65536" using room ks s'(1) by (auto simp: elements_def split: if_splits)
  moreover have "elements s' (ks q) < 65536" for q using t s'(1) by (simp add: tree_def elements_def)
  ultimately show ?thesis
    using linked_insert[of "kinds s" "nexts s" "parents s" "firsts s" "counts s" ks p c xs ys] assms
    by (simp add: tree_def put_def)
qed

lemma append_last_chain:
  assumes "nodes_chain s (firsts s e) zs" "\<And>h. zs \<noteq> [] \<Longrightarrow> hint = Some h \<Longrightarrow> h = last zs" "\<And>h. zs \<noteq> [] \<Longrightarrow> tail = Some h \<Longrightarrow> h = last zs"
  shows "append_last s e hint tail = Some (if zs = [] then None else Some (last zs))"
proof (cases zs)
  case Nil then show ?thesis using assms(1) by (simp add: append_last_def nodes_chain_Nil firsts_def)
next
  case (Cons z zs')
  then have "first_child_off (heap s e) = Some z" using assms(1) by (simp add: nodes_chain_Cons firsts_def)
  then show ?thesis using last_child_chain[OF assms(1)] assms(2,3) Cons by (auto simp: append_last_def split: option.splits)
qed

lemma link_last_links:
  assumes "zs \<noteq> [] \<Longrightarrow> has_edges (kinds s (last zs))"
  shows "kinds (link_last e (if zs = [] then None else Some (last zs)) c s) = kinds s"
    "nexts (link_last e (if zs = [] then None else Some (last zs)) c s) = relink_next zs (Some c) (nexts s)"
    "parents (link_last e (if zs = [] then None else Some (last zs)) c s) = parents s"
    "firsts (link_last e (if zs = [] then None else Some (last zs)) c s) = relink_first e zs (Some c) (firsts s)"
    "counts (link_last e (if zs = [] then None else Some (last zs)) c s) = counts s"
    "mut_tail (link_last e (if zs = [] then None else Some (last zs)) c s) = mut_tail s"
  using assms by (auto simp: link_last_def relink_next_def relink_first_def links)

lemma count_child_links [links]:
  "kinds (count_child e s) = kinds s" "nexts (count_child e s) = nexts s" "parents (count_child e s) = parents s"
  "firsts (count_child e s) = firsts s" "counts (count_child e s) = (counts s)(e := counts s e + 1)" "mut_tail (count_child e s) = mut_tail s"
  by (simp_all add: count_child_def links)

lemma remember_tail_links [links]:
  "kinds (remember_tail d e c s) = kinds s" "nexts (remember_tail d e c s) = nexts s" "parents (remember_tail d e c s) = parents s"
  "firsts (remember_tail d e c s) = firsts s" "counts (remember_tail d e c s) = counts s"
  "mut_tail (remember_tail d e c s) = (if d then (mut_tail s)(tail_slot e := Some (e, c)) else mut_tail s)"
  by (simp_all add: remember_tail_def links)

lemma touch_links [links]:
  "kinds (touch e s) = kinds s" "nexts (touch e s) = nexts s" "parents (touch e s) = parents s"
  "firsts (touch e s) = firsts s" "counts (touch e s) = counts s" "mut_tail (touch e s) = mut_tail s"
  by (simp_all add: touch_def links)

lemma nodes_chain_links: "nexts s' = nexts s \<Longrightarrow> kinds s' = kinds s \<Longrightarrow> nodes_chain s' c xs = nodes_chain s c xs"
  by (simp add: nodes_chain_def)

definition appended :: "addr \<Rightarrow> addr \<Rightarrow> (addr \<Rightarrow> addr list) \<Rightarrow> addr \<Rightarrow> addr list" where
  "appended p c ks = put p (detach c ks p @ [c]) (detach c ks)"

lemma below_mono: "below (P(c := None)) \<subseteq> below P"
  by (rule below_remove)

lemma not_above_detached: "(c, p) \<notin> (below P)\<^sup>* \<Longrightarrow> (c, p) \<notin> (below (P(c := None)))\<^sup>*"
  using rtrancl_mono[OF below_remove] by blast

lemma tails_appended:
  assumes "tails_ok s ks" and "m = (if d then (mut_tail s)(tail_slot p := Some (p, c)) else mut_tail s)"
    and "\<not> d \<Longrightarrow> \<not> stale (mut_tail s) p (detach c ks p @ [c])"
  shows "\<forall>q. \<not> stale m q (appended p c ks q)"
proof (intro allI)
  fix q
  show "\<not> stale m q (appended p c ks q)"
  proof (cases "q = p")
    case True
    then show ?thesis using assms(2,3) by (auto simp: appended_def put_def stale_def split: if_splits)
  next
    case False
    have "\<not> stale (mut_tail s) q (detach c ks q)" using assms(1) stale_removeAll[of "mut_tail s" q c "ks q"] by (auto simp: tails_ok_def detach_def)
    then show ?thesis using False assms(2) by (auto simp: appended_def put_def stale_def split: if_splits option.splits)
  qed
qed

lemma appendable_edges: "appendable k \<Longrightarrow> has_edges k"
  by (cases k) (auto simp: appendable_def)

text \<open>The two branches, on a state in which the child has no parent.\<close>

definition append_detached :: "addr \<Rightarrow> addr \<Rightarrow> addr option \<Rightarrow> addr option \<Rightarrow> dom \<Rightarrow> dom option" where
  "append_detached e child hint tail s =
    (if is_element s child then do {
       let s = leptris_elem_set_parent child (Some e) s;
       l \<leftarrow> append_last s e hint tail;
       Some (count_child e (link_last e l child s)) }
     else do {
       l \<leftarrow> append_last s e hint tail;
       Some (set_parent_of_kind child (Some e) (link_behind e l (Some child) s)) })"

lemma append_by_detached:
  "leptris_element_append_child_hint_doc e child doc hint s =
    (if \<not> appendable (ntype (heap s child)) then Some s
     else do {
       s \<leftarrow> unlink_attached child s;
       s \<leftarrow> append_detached e child hint (if doc then cached_tail s e else None) s;
       Some (leptris_node_increment_version e (remember_tail doc e child s)) })"
  by (simp add: leptris_element_append_child_hint_doc_def append_detached_def Let_def)

lemma append_detached_refines:
  assumes t: "tree s ks" and p: "kinds s p = NODE_ELEMENT" and c: "has_edges (kinds s c)" "parents s c = None" "(c, p) \<notin> (below (parents s))\<^sup>*"
    and room: "elements s (ks p) < 65535"
    and ht: "\<And>h. ks p \<noteq> [] \<Longrightarrow> hint = Some h \<Longrightarrow> h = last (ks p)" "\<And>h. ks p \<noteq> [] \<Longrightarrow> tail = Some h \<Longrightarrow> h = last (ks p)"
  shows "\<exists>s'. append_detached p c hint tail s = Some s' \<and> tree s' (put p (ks p @ [c]) ks) \<and> kinds s' = kinds s \<and> mut_tail s' = mut_tail s"
proof -
  have ex: "has_edges (kinds s (last (ks p)))" if "ks p \<noteq> []"
    using tree_edges[OF t, of "last (ks p)"] tree_parent[OF t, of "last (ks p)" p] that by simp
  let ?l = "if ks p = [] then None else Some (last (ks p))"
  note ch = tree_chain[OF t p]
  define s1 where "s1 = leptris_elem_set_parent c (Some p) s"
  have s1: "append_last s1 p hint tail = Some ?l"
    by (rule append_last_chain) (use ch ht nodes_chain_links[of s1 s] in \<open>simp_all add: s1_def links\<close>)
  have s0: "append_last s p hint tail = Some ?l" by (rule append_last_chain[OF ch]) (use ht in simp_all)
  define s' where "s' = (if is_element s c then count_child p (link_last p ?l c s1) else set_parent_of_kind c (Some p) (link_behind p ?l (Some c) s))"
  have "append_detached p c hint tail s = Some s'" using s0 s1 by (simp add: append_detached_def s'_def s1_def Let_def)
  moreover have links': "kinds s' = kinds s" "nexts s' = relink_next (ks p) (Some c) (nexts s)" "parents s' = (parents s)(c := Some p)"
    "firsts s' = relink_first p (ks p) (Some c) (firsts s)" "mut_tail s' = mut_tail s"
    "counts s' = (if kinds s c = NODE_ELEMENT then (counts s)(p := counts s p + 1) else counts s)"
    using ex c by (simp_all add: s'_def s1_def links link_last_links link_behind_links is_element_links)
  moreover have "nexts s c = None" using t c(2) by (auto simp: tree_def dest: linked_orphan)
  moreover have "c \<notin> set (ks p)" using tree_parent[OF t, of c p] c(2) by simp
  ultimately have "relink_next (ks p) (Some c) (nexts s) c = None"
    using last_in_set[of "ks p"] by (cases "ks p = []") (auto simp: relink_next_def)
  then have n: "nexts s' = (relink_next (ks p) (Some c) (nexts s))(c := head [])" using links'(2) by (simp add: fun_upd_idem)
  have "tree s' (put p (ks p @ [c]) ks)"
    using tree_insert[OF t p c, of "ks p" "[]" s'] room links' n by simp
  then show ?thesis using \<open>append_detached p c hint tail s = Some s'\<close> links' by auto
qed

lemma append_hint_refines:
  assumes t: "tree s ks" and tails: "doc \<Longrightarrow> \<not> stale (mut_tail s) p (ks p)" and p: "kinds s p = NODE_ELEMENT"
    and c: "appendable (kinds s c)" "(c, p) \<notin> (below (parents s))\<^sup>*" "parents s c \<noteq> None \<Longrightarrow> kinds s c \<noteq> NODE_ENTITY_REF"
    and room: "elements s (detach c ks p) < 65535"
    and hint: "\<And>h. hint = Some h \<Longrightarrow> h = last (detach c ks p)"
  shows "\<exists>s'. leptris_element_append_child_hint_doc p c doc hint s = Some s' \<and> tree s' (appended p c ks) \<and> kinds s' = kinds s
    \<and> mut_tail s' = (if doc then (mut_tail s)(tail_slot p := Some (p, c)) else mut_tail s)"
proof -
  obtain s1 where s1: "unlink_attached c s = Some s1" "tree s1 (detach c ks)" "kinds s1 = kinds s"
    "parents s1 = (parents s)(c := None)" "mut_tail s1 = mut_tail s" using unlink_attached_refines[OF t c(3)] by blast
  have tail: "h = last (detach c ks p)" if "(if doc then cached_tail s1 p else None) = Some h" for h
  proof -
    have d: doc using that by (cases doc) auto
    then have h: "mut_tail s (tail_slot p) = Some (p, h)" "h \<in> set (detach c ks p)"
      using that cached_tail_child[OF s1(2), of p h] s1(5) by simp_all
    moreover have "\<not> stale (mut_tail s) p (detach c ks p)"
      using tails[OF d] stale_removeAll[of "mut_tail s" p c "ks p"] by (auto simp: detach_def)
    ultimately show ?thesis by (simp add: stale_def)
  qed
  have "elements s1 (detach c ks p) < 65535" using room s1(3) by (simp add: elements_def)
  then obtain s2 where s2: "append_detached p c hint (if doc then cached_tail s1 p else None) s1 = Some s2"
    "tree s2 (put p (detach c ks p @ [c]) (detach c ks))" "kinds s2 = kinds s1" "mut_tail s2 = mut_tail s1"
    using append_detached_refines[of s1 "detach c ks" p c hint "if doc then cached_tail s1 p else None"] s1 p c
      not_above_detached[OF c(2)] hint tail by (auto simp: appendable_edges)
  define s' where "s' = leptris_node_increment_version p (remember_tail doc p c s2)"
  have "leptris_element_append_child_hint_doc p c doc hint s = Some s'"
    using s1 s2 c(1) by (simp add: append_by_detached s'_def kinds_def)
  moreover have "tree s' (appended p c ks)" using s2(2) tree_links[of s' s2] by (simp add: s'_def links appended_def)
  ultimately show ?thesis using s1 s2 by (simp add: s'_def links)
qed

text \<open>The test for a fresh child is right: a node without children is above no other.\<close>

lemma childless_not_above:
  assumes "tree s ks" "kinds s p = NODE_ELEMENT" "first_child_off (heap s c) = None" "c \<noteq> p"
  shows "(c, p) \<notin> (below (parents s))\<^sup>*"
proof
  assume "(c, p) \<in> (below (parents s))\<^sup>*"
  then obtain x where x: "parents s x = Some c" using assms(4) by (auto simp: below_def elim: converse_rtranclE)
  then have "kinds s c = NODE_ELEMENT" "x \<in> set (ks c)" using tree_element[OF assms(1) x] tree_parent[OF assms(1)] by auto
  moreover have "ks c = []" using tree_chain[OF assms(1) \<open>kinds s c = NODE_ELEMENT\<close>] assms(3)
    by (cases "ks c") (auto simp: nodes_chain_Cons firsts_def)
  ultimately show False by simp
qed

lemma append_child_refines:
  assumes t: "tree s ks" and tails: "\<not> stale (mut_tail s) p (ks p)" and p: "kinds s p = NODE_ELEMENT"
    and c: "appendable (kinds s c)" "(c, p) \<notin> (below (parents s))\<^sup>*" "parents s c \<noteq> None \<Longrightarrow> kinds s c \<noteq> NODE_ENTITY_REF"
    and room: "elements s (detach c ks p) < 65535"
  shows "\<exists>s'. leptris_element_append_child p c s = Some (LEPTRIS_OK, s') \<and> tree s' (appended p c ks) \<and> kinds s' = kinds s
    \<and> (\<exists>doc. leptris_element_get_document s p = Some doc \<and> mut_tail s' = (if doc then (mut_tail s)(tail_slot p := Some (p, c)) else mut_tail s))"
proof -
  obtain doc where doc: "leptris_element_get_document s p = Some doc" using document_returns[OF t] by blast
  have g: "ancestor_guard 8192 s (parents s p) c = Some False"
  proof (rule ancestor_guard_none[OF t])
    fix q assume q: "parents s p = Some q"
    then have "(q, p) \<in> below (parents s)" by (simp add: below_def)
    then show "kinds s q = NODE_ELEMENT \<and> (c, q) \<notin> (below (parents s))\<^sup>*"
      using c(2) tree_element[OF t q] by (auto dest: rtrancl_into_rtrancl)
  qed
  obtain s1 where s1: "leptris_element_append_child_hint_doc p c doc None s = Some s1" "tree s1 (appended p c ks)" "kinds s1 = kinds s"
    "mut_tail s1 = (if doc then (mut_tail s)(tail_slot p := Some (p, c)) else mut_tail s)"
    using append_hint_refines[OF t _ p c room, of doc None] tails by auto
  define s' where "s' = invalidate_index_if doc (leptris_element_invalidate_child_cache p s1)"
  have "p \<noteq> c" using c(2) by auto
  then have "leptris_element_append_child p c s = Some (LEPTRIS_OK, s')"
    using doc g s1(1) p by (simp add: leptris_element_append_child_def element_parent_links Let_def s'_def)
  moreover have "tree s' (appended p c ks)" using s1(2) tree_links[of s' s1] by (simp add: s'_def links)
  ultimately show ?thesis using s1(3,4) doc by (auto simp: s'_def links)
qed

lemma append_child_rejects:
  assumes t: "tree s ks" and p: "kinds s p = NODE_ELEMENT" and above: "(c, p) \<in> below (parents s) ^^ n" "n \<le> 8192"
  shows "leptris_element_append_child p c s = Some (LEPTRIS_ERROR_INVALID_ARG, s)"
proof (cases "c = p")
  case False
  obtain doc where doc: "leptris_element_get_document s p = Some doc" using document_returns[OF t] by blast
  obtain m r where m: "n = Suc m" "(c, r) \<in> below (parents s) ^^ m" "(r, p) \<in> below (parents s)"
    using above(1) False by (cases n) auto
  then have r: "parents s p = Some r" by (simp add: below_def)
  have "ancestor_guard 8192 s (Some r) c = Some True"
    by (rule ancestor_guard_meets[OF t tree_element[OF t r] m(2)]) (use above(2) m(1) in simp)
  moreover have "first_child_off (heap s c) \<noteq> None"
    using childless_not_above[OF t p _ False] above(1) by (auto simp: relpow_imp_rtrancl)
  ultimately show ?thesis using doc r p False
    by (auto simp: leptris_element_append_child_def element_parent_links Let_def)
qed (use document_returns[OF t, of p] in \<open>auto simp: leptris_element_append_child_def Let_def\<close>)

end
