(* ===== verification/DomMove.thy ===== *)
theory DomMove
  imports DomOps
begin

text \<open>
  Prepending, inserting beside a node and removing refine the operations on lists of children.
\<close>

section \<open>Prepending\<close>

definition prepended :: "addr \<Rightarrow> addr \<Rightarrow> (addr \<Rightarrow> addr list) \<Rightarrow> addr \<Rightarrow> addr list" where
  "prepended p c ks = put p (c # detach c ks p) (detach c ks)"

lemma prepend_internal_refines:
  assumes t: "tree s ks" and p: "kinds s p = NODE_ELEMENT"
    and c: "appendable (kinds s c)" "(c, p) \<notin> (below (parents s))\<^sup>*" "parents s c \<noteq> None \<Longrightarrow> kinds s c \<noteq> NODE_ENTITY_REF"
    and room: "elements s (detach c ks p) < 65535"
  shows "\<exists>s'. leptris_element_prepend_child_internal p c s = Some s' \<and> tree s' (prepended p c ks) \<and> kinds s' = kinds s \<and> mut_tail s' = mut_tail s"
proof -
  obtain s1 where s1: "unlink_attached c s = Some s1" "tree s1 (detach c ks)" "kinds s1 = kinds s"
    "parents s1 = (parents s)(c := None)" "mut_tail s1 = mut_tail s" using unlink_attached_refines[OF t c(3)] by blast
  let ?ks = "detach c ks"
  have p1: "kinds s1 p = NODE_ELEMENT" and c1: "has_edges (kinds s1 c)" "parents s1 c = None" using p c(1) s1 by (simp_all add: appendable_edges)
  have first: "firsts s1 p = head (?ks p)" using tree_chain[OF s1(2) p1] by (auto simp: nodes_chain_def dest: chain_head)
  have orphan: "nexts s1 c = None" using s1(2) c1(2) by (auto simp: tree_def dest: linked_orphan)
  define s2 where "s2 = (if is_element s1 c then count_child p (link_first_element p c (leptris_elem_set_parent c (Some p) s1))
                else set_parent_of_kind c (Some p) (link_first_node p c s1))"
  have "c \<noteq> p" using c(2) by auto
  then have s2: "kinds s2 = kinds s1" "nexts s2 = (nexts s1)(c := head (?ks p))" "parents s2 = (parents s1)(c := Some p)"
    "firsts s2 = (firsts s1)(p := Some c)" "counts s2 = (if kinds s1 c = NODE_ELEMENT then (counts s1)(p := counts s1 p + 1) else counts s1)"
    "mut_tail s2 = mut_tail s1"
    using c1 first orphan firsts_def[of "leptris_elem_set_parent c (Some p) s1" p] firsts_def[of s1 p]
    by (auto simp: s2_def link_first_element_def link_first_node_def links is_element_links fun_upd_idem split: option.splits)
  have "elements s1 (?ks p) < 65535" using room s1(3) by (simp add: elements_def)
  then have t2: "tree s2 (prepended p c ks)" unfolding prepended_def
    using tree_insert[OF s1(2) p1 c1, of "[]" "?ks p" s2] s1(4) not_above_detached[OF c(2)] s2
    by (simp add: relink_next_def relink_first_def)
  define s' where "s' = leptris_node_increment_version p s2"
  have "leptris_element_prepend_child_internal p c s = Some s'"
    using s1(1) c(1) by (simp add: leptris_element_prepend_child_internal_def s'_def s2_def kinds_def Let_def)
  moreover have "tree s' (prepended p c ks)" using t2 tree_links[of s' s2] by (simp add: s'_def links)
  ultimately show ?thesis using s1 s2 by (simp add: s'_def links)
qed

lemma met_above_parent:
  assumes t: "tree s ks" and p: "kinds s p = NODE_ELEMENT" "c \<noteq> p"
  shows "met_above s (parents s p) c = Some ((c, p) \<in> (below (parents s))\<^sup>*)"
proof -
  have "(c, p) \<in> (below (parents s))\<^sup>* \<longleftrightarrow> (case parents s p of None \<Rightarrow> False | Some q \<Rightarrow> (c, q) \<in> (below (parents s))\<^sup>*)"
    using p(2) by (auto simp: below_def elim: rtranclE intro: rtrancl_into_rtrancl split: option.splits)
  then show ?thesis using met_from_above[OF t] tree_element[OF t, of p] by (auto simp: met_above_def split: option.splits)
qed

lemma prepend_child_refines:
  assumes t: "tree s ks" and p: "kinds s p = NODE_ELEMENT"
    and c: "appendable (kinds s c)" "(c, p) \<notin> (below (parents s))\<^sup>*" "parents s c \<noteq> None \<Longrightarrow> kinds s c \<noteq> NODE_ENTITY_REF"
    and room: "elements s (detach c ks p) < 65535"
  shows "\<exists>s'. leptris_element_prepend_child p c s = Some (LEPTRIS_OK, s') \<and> tree s' (prepended p c ks) \<and> kinds s' = kinds s \<and> mut_tail s' = mut_tail s"
proof -
  obtain s1 where s1: "leptris_element_prepend_child_internal p c s = Some s1" "tree s1 (prepended p c ks)" "kinds s1 = kinds s" "mut_tail s1 = mut_tail s"
    using prepend_internal_refines[OF assms] by blast
  define s2 where "s2 = leptris_element_invalidate_child_cache p s1"
  have t2: "tree s2 (prepended p c ks)" using s1(2) tree_links[of s2 s1] by (simp add: s2_def links)
  obtain d where d: "leptris_element_get_document s2 p = Some d" using document_returns[OF t2] by blast
  have "c \<noteq> p" using c(2) by auto
  then have "leptris_element_prepend_child p c s = Some (LEPTRIS_OK, invalidate_index_if d s2)"
    using met_above_parent[OF t p] c(2) p s1(1) d by (simp add: leptris_element_prepend_child_def element_parent_links s2_def Let_def)
  moreover have "tree (invalidate_index_if d s2) (prepended p c ks)" using t2 tree_links[of "invalidate_index_if d s2" s2] by (simp add: links)
  ultimately show ?thesis using s1 by (simp add: s2_def links)
qed

lemma prepend_child_rejects:
  assumes t: "tree s ks" and p: "kinds s p = NODE_ELEMENT" and above: "(c, p) \<in> (below (parents s))\<^sup>*"
  shows "leptris_element_prepend_child p c s = Some (LEPTRIS_ERROR_INVALID_ARG, s)"
proof (cases "c = p")
  case False
  then show ?thesis using met_above_parent[OF t p False] above p by (simp add: leptris_element_prepend_child_def element_parent_links)
qed (simp add: leptris_element_prepend_child_def)

section \<open>Inserting\<close>

definition before :: "addr \<Rightarrow> addr \<Rightarrow> addr list \<Rightarrow> addr list" where
  "before x c cs = takeWhile (\<lambda>y. y \<noteq> x) cs @ c # dropWhile (\<lambda>y. y \<noteq> x) cs"

definition after :: "addr \<Rightarrow> addr \<Rightarrow> addr list \<Rightarrow> addr list" where
  "after x c cs = takeWhile (\<lambda>y. y \<noteq> x) cs @ x # c # tl (dropWhile (\<lambda>y. y \<noteq> x) cs)"

lemma before_split: "x \<notin> set xs \<Longrightarrow> before x c (xs @ x # ys) = xs @ c # x # ys"
  unfolding before_def by (induction xs) auto

lemma after_split: "x \<notin> set xs \<Longrightarrow> after x c (xs @ x # ys) = xs @ x # c # ys"
  unfolding after_def by (induction xs) auto

definition inserted_before :: "addr \<Rightarrow> addr \<Rightarrow> addr \<Rightarrow> (addr \<Rightarrow> addr list) \<Rightarrow> addr \<Rightarrow> addr list" where
  "inserted_before p x c ks = put p (before x c (detach c ks p)) (detach c ks)"

definition inserted_after :: "addr \<Rightarrow> addr \<Rightarrow> addr \<Rightarrow> (addr \<Rightarrow> addr list) \<Rightarrow> addr \<Rightarrow> addr list" where
  "inserted_after p x c ks = put p (after x c (detach c ks p)) (detach c ks)"

text \<open>Only elements are above others.\<close>

lemma leaf_not_above: "tree s ks \<Longrightarrow> kinds s c \<noteq> NODE_ELEMENT \<Longrightarrow> c \<noteq> p \<Longrightarrow> (c, p) \<notin> (below (parents s))\<^sup>*"
  by (erule contrapos_nn, erule converse_rtranclE) (auto simp: below_def dest: tree_element)

text \<open>The guard is right where the sibling is an element or a text node.\<close>

lemma insert_guard_passes:
  assumes t: "tree s ks" and x: "parents s x = Some p" "c \<noteq> x" "(c, p) \<notin> (below (parents s))\<^sup>*"
    and kind: "kinds s c = NODE_ELEMENT \<Longrightarrow> kinds s x = NODE_ELEMENT \<or> kinds s x = NODE_TEXT"
  shows "insert_guard s x c = Some False"
proof (cases "kinds s c = NODE_ELEMENT")
  case True
  then have "leptris_element_parent s x = Some (Some p)" using kind x(1) by (auto simp: leptris_element_parent_def links_defs)
  moreover have "met_above s (Some p) c = Some False" using met_from_above[OF t tree_element[OF t x(1)], of c] x(3) by (simp add: met_above_def)
  ultimately show ?thesis using True x(2) by (simp add: insert_guard_def is_element_links)
qed (simp add: insert_guard_def is_element_links)

lemma insert_guard_rejects:
  assumes t: "tree s ks" and x: "parents s x = Some p" "(c, x) \<in> (below (parents s))\<^sup>*" and c: "kinds s c = NODE_ELEMENT"
    and kind: "kinds s x = NODE_ELEMENT \<or> kinds s x = NODE_TEXT"
  shows "insert_guard s x c = Some True"
proof (cases "c = x")
  case False
  then have "(c, p) \<in> (below (parents s))\<^sup>*" using x by (auto simp: below_def elim: rtranclE)
  moreover have "leptris_element_parent s x = Some (Some p)" using kind x(1) by (auto simp: leptris_element_parent_def links_defs)
  ultimately show ?thesis using met_from_above[OF t tree_element[OF t x(1)], of c] c False
    by (simp add: insert_guard_def is_element_links met_above_def)
qed (use c in \<open>simp add: insert_guard_def is_element_links\<close>)

lemma count_if_element_links [links]:
  "kinds (count_if_element p n s) = kinds s" "nexts (count_if_element p n s) = nexts s" "parents (count_if_element p n s) = parents s"
  "firsts (count_if_element p n s) = firsts s"
  "counts (count_if_element p n s) = (if kinds s n = NODE_ELEMENT then (counts s)(p := counts s p + 1) else counts s)"
  "mut_tail (count_if_element p n s) = mut_tail s"
  by (simp_all add: count_if_element_def links is_element_links)

text \<open>What a sibling is to the node that is put beside it.\<close>

definition beside :: "dom \<Rightarrow> (addr \<Rightarrow> addr list) \<Rightarrow> addr \<Rightarrow> addr \<Rightarrow> addr \<Rightarrow> bool" where
  "beside s ks p x c \<longleftrightarrow> parents s x = Some p \<and> c \<noteq> x \<and> (c, p) \<notin> (below (parents s))\<^sup>* \<and> appendable (kinds s c)
    \<and> (kinds s c = NODE_ELEMENT \<longrightarrow> kinds s x = NODE_ELEMENT \<or> kinds s x = NODE_TEXT)
    \<and> (parents s c \<noteq> None \<longrightarrow> kinds s c \<noteq> NODE_ENTITY_REF) \<and> elements s (detach c ks p) < 65535"

lemma beside_unlinked:
  assumes t: "tree s ks" and b: "beside s ks p x c"
  obtains s1 xs ys where "insert_guard s x c = Some False" "unlink_attached c s = Some s1" "tree s1 (detach c ks)" "kinds s1 = kinds s"
    "mut_tail s1 = mut_tail s" "kinds s1 p = NODE_ELEMENT" "parents s1 c = None" "(c, p) \<notin> (below (parents s1))\<^sup>*"
    "detach c ks p = xs @ x # ys" "x \<notin> set xs" "has_edges (kinds s1 c)" "has_edges (kinds s1 x)"
    "xs \<noteq> [] \<longrightarrow> has_edges (kinds s1 (last xs))" "elements s1 (detach c ks p) < 65535" "nodes_chain s1 (firsts s1 p) (xs @ x # ys)"
proof -
  have x: "parents s x = Some p" "c \<noteq> x" and c: "(c, p) \<notin> (below (parents s))\<^sup>*" "appendable (kinds s c)"
    "parents s c \<noteq> None \<Longrightarrow> kinds s c \<noteq> NODE_ENTITY_REF" using b by (auto simp: beside_def)
  obtain s1 where s1: "unlink_attached c s = Some s1" "tree s1 (detach c ks)" "kinds s1 = kinds s"
    "parents s1 = (parents s)(c := None)" "mut_tail s1 = mut_tail s" using unlink_attached_refines[OF t c(3)] by blast
  have "x \<in> set (detach c ks p)" using tree_parent[OF t, of x p] x by (simp add: detach_def)
  then obtain xs ys where xs: "detach c ks p = xs @ x # ys" by (metis split_list)
  have p: "kinds s1 p = NODE_ELEMENT" using tree_element[OF t x(1)] s1(3) by simp
  have ch: "nodes_chain s1 (firsts s1 p) (xs @ x # ys)" using tree_chain[OF s1(2) p] xs by simp
  show thesis
  proof (rule that[of s1 xs ys])
    show "insert_guard s x c = Some False" using insert_guard_passes[OF t x c(1)] b by (auto simp: beside_def)
    show "x \<notin> set xs" using tree_distinct[OF s1(2), of p] xs by simp
    show "(c, p) \<notin> (below (parents s1))\<^sup>*" using not_above_detached[OF c(1)] s1(4) by simp
    show "has_edges (kinds s1 c)" using c(2) s1(3) by (simp add: appendable_edges)
    show "has_edges (kinds s1 x)" using ch by (simp add: nodes_chain_def)
    show "xs \<noteq> [] \<longrightarrow> has_edges (kinds s1 (last xs))" using ch by (auto simp: nodes_chain_def list_all_iff)
    show "elements s1 (detach c ks p) < 65535" using b s1(3) by (simp add: beside_def elements_def)
  qed (use s1 xs p ch in simp_all)
qed

lemma insert_before_refines:
  assumes t: "tree s ks" and b: "beside s ks p x c"
  shows "\<exists>s'. leptris_element_insert_before x c s = Some (LEPTRIS_OK, s') \<and> tree s' (inserted_before p x c ks) \<and> kinds s' = kinds s \<and> mut_tail s' = mut_tail s"
proof -
  obtain s1 xs ys where s1: "insert_guard s x c = Some False" "unlink_attached c s = Some s1" "tree s1 (detach c ks)" "kinds s1 = kinds s"
    "mut_tail s1 = mut_tail s" and p: "kinds s1 p = NODE_ELEMENT" and c: "parents s1 c = None" "(c, p) \<notin> (below (parents s1))\<^sup>*"
    and xs: "detach c ks p = xs @ x # ys" "x \<notin> set xs" and e: "has_edges (kinds s1 c)" "has_edges (kinds s1 x)" "xs \<noteq> [] \<longrightarrow> has_edges (kinds s1 (last xs))"
    and room: "elements s1 (detach c ks p) < 65535" and ch: "nodes_chain s1 (firsts s1 p) (xs @ x # ys)"
    by (rule beside_unlinked[OF t b])
  define prev where "prev = (if xs = [] then None else Some (last xs))"
  have find: "find_node s1 x (leptris_node_first_child_internal s1 p) = Some (prev, True)"
    using find_node_chain[OF ch xs(2)] p by (simp add: leptris_node_first_child_internal_def is_element_links firsts_def prev_def)
  define s2 where "s2 = touch p (count_if_element p c (set_parent_of_kind c (Some p) (leptris_node_set_next_sibling c (Some x) (link_behind p prev (Some c) s1))))"
  have s2: "kinds s2 = kinds s1" "nexts s2 = (relink_next xs (Some c) (nexts s1))(c := head (x # ys))" "parents s2 = (parents s1)(c := Some p)"
    "firsts s2 = relink_first p xs (Some c) (firsts s1)" "counts s2 = (if kinds s1 c = NODE_ELEMENT then (counts s1)(p := counts s1 p + 1) else counts s1)"
    "mut_tail s2 = mut_tail s1"
    using e by (simp_all add: s2_def prev_def links link_behind_links)
  have t2: "tree s2 (inserted_before p x c ks)"
    using tree_insert[OF s1(3) p e(1) c xs(1) room s2(1-5)] xs by (simp add: inserted_before_def before_split)
  obtain d where d: "leptris_element_get_document s2 p = Some d" using document_returns[OF t2] by blast
  have "leptris_node_parent s x = Some p" "appendable (ntype (heap s c))" using b by (auto simp: beside_def tree_node_parent[OF t] kinds_def)
  then have "leptris_element_insert_before x c s = Some (LEPTRIS_OK, invalidate_index_if d s2)"
    using s1(1,2) find d by (simp add: leptris_element_insert_before_def s2_def Let_def)
  moreover have "tree (invalidate_index_if d s2) (inserted_before p x c ks)" using t2 tree_links[of "invalidate_index_if d s2" s2] by (simp add: links)
  ultimately show ?thesis using s1(4,5) s2 by (simp add: links)
qed

lemma insert_after_refines:
  assumes t: "tree s ks" and b: "beside s ks p x c"
  shows "\<exists>s'. leptris_element_insert_after x c s = Some (LEPTRIS_OK, s') \<and> tree s' (inserted_after p x c ks) \<and> kinds s' = kinds s \<and> mut_tail s' = mut_tail s"
proof -
  obtain s1 xs ys where s1: "insert_guard s x c = Some False" "unlink_attached c s = Some s1" "tree s1 (detach c ks)" "kinds s1 = kinds s"
    "mut_tail s1 = mut_tail s" and p: "kinds s1 p = NODE_ELEMENT" and c: "parents s1 c = None" "(c, p) \<notin> (below (parents s1))\<^sup>*"
    and xs: "detach c ks p = xs @ x # ys" "x \<notin> set xs" and e: "has_edges (kinds s1 c)" "has_edges (kinds s1 x)" "xs \<noteq> [] \<longrightarrow> has_edges (kinds s1 (last xs))"
    and room: "elements s1 (detach c ks p) < 65535" and ch: "nodes_chain s1 (firsts s1 p) (xs @ x # ys)"
    by (rule beside_unlinked[OF t b])
  have next_x: "leptris_node_get_next_sibling s1 x = head ys"
    using ch e(2) by (auto simp: nodes_chain_def links_append node_next_links dest: chain_head)
  define s2 where "s2 = set_parent_of_kind c (Some p) (leptris_node_set_next_sibling c (head ys) (leptris_node_set_next_sibling x (Some c) s1))"
  define s3 where "s3 = touch p (count_if_element p c s2)"
  have s3: "kinds s3 = kinds s1" "nexts s3 = (relink_next (xs @ [x]) (Some c) (nexts s1))(c := head ys)" "parents s3 = (parents s1)(c := Some p)"
    "firsts s3 = relink_first p (xs @ [x]) (Some c) (firsts s1)" "counts s3 = (if kinds s1 c = NODE_ELEMENT then (counts s1)(p := counts s1 p + 1) else counts s1)"
    "mut_tail s3 = mut_tail s1"
    using e by (simp_all add: s3_def s2_def links relink_next_def relink_first_def)
  have t3: "tree s3 (inserted_after p x c ks)"
    using tree_insert[OF s1(3) p e(1) c, of "xs @ [x]" ys s3] s3 room xs by (simp add: inserted_after_def after_split)
  have p3: "kinds s3 p = NODE_ELEMENT" using p s3(1) by simp
  have "nodes_chain s2 (firsts s2 p) (inserted_after p x c ks p)"
    using tree_chain[OF t3 p3] nodes_chain_links[of s3 s2] by (simp add: s3_def links)
  then obtain w where w: "leptris_elem_last_child s2 p = Some w" using last_child_chain by blast
  have "is_element s2 p" using p3 by (simp add: s3_def is_element_links links)
  obtain d where d: "leptris_element_get_document s3 p = Some d" using document_returns[OF t3] by blast
  have "leptris_node_parent s x = Some p" "appendable (ntype (heap s c))" using b by (auto simp: beside_def tree_node_parent[OF t] kinds_def)
  then have "leptris_element_insert_after x c s = Some (LEPTRIS_OK, invalidate_index_if d s3)"
    using s1(1,2) next_x d w \<open>is_element s2 p\<close> by (simp add: leptris_element_insert_after_def s3_def s2_def Let_def)
  moreover have "tree (invalidate_index_if d s3) (inserted_after p x c ks)" using t3 tree_links[of "invalidate_index_if d s3" s3] by (simp add: links)
  ultimately show ?thesis using s1(4,5) s3 by (simp add: links)
qed

section \<open>Removing\<close>

lemma remove_child_refines:
  assumes t: "tree s ks" and c: "c \<in> set (ks p)"
  shows "\<exists>s'. leptris_element_remove_child p c s = Some (LEPTRIS_OK, s') \<and> tree s' (detach c ks) \<and> kinds s' = kinds s \<and> mut_tail s' = mut_tail s"
proof -
  obtain xs ys where ks: "ks p = xs @ c # ys" using c by (metis split_list)
  have pc: "parents s c = Some p" using tree_parent[OF t, of c p] c by simp
  have p: "kinds s p = NODE_ELEMENT" by (rule tree_element[OF t pc])
  have e: "has_edges (kinds s c)" using tree_edges[OF t, of c] pc by simp
  have ex: "has_edges (kinds s (last xs))" if "xs \<noteq> []"
    using tree_edges[OF t, of "last xs"] tree_parent[OF t, of "last xs" p] ks that by simp
  define prev where "prev = (if xs = [] then None else Some (last xs))"
  have find: "find_node s c (leptris_node_first_child_internal s p) = Some (prev, True)"
    using find_node_chain[of s "firsts s p" xs c ys] tree_chain[OF t p] tree_distinct[OF t, of p] ks p
    by (simp add: leptris_node_first_child_internal_def is_element_links firsts_def prev_def)
  define s1 where "s1 = link_behind p prev (nexts s c) s"
  have s1: "kinds s1 = kinds s" "nexts s1 = relink_next xs (nexts s c) (nexts s)" "firsts s1 = relink_first p xs (nexts s c) (firsts s)"
    "parents s1 = parents s" "counts s1 = counts s" "mut_tail s1 = mut_tail s"
    using ex by (simp_all add: s1_def prev_def link_behind_links)
  obtain w where w: "leptris_elem_last_child s1 p = Some w" using last_child_chain[OF relink_chain[OF t ks s1(1-3)]] by blast
  define s2 where "s2 = set_parent_of_kind c None (leptris_node_set_next_sibling c None s1)"
  define s3 where "s3 = touch p (uncount_removed p c s2)"
  have s3: "kinds s3 = kinds s" "nexts s3 = (relink_next xs (nexts s c) (nexts s))(c := None)" "firsts s3 = relink_first p xs (nexts s c) (firsts s)"
    "parents s3 = (parents s)(c := None)" "counts s3 = (if kinds s c = NODE_ELEMENT then (counts s)(p := counts s p - 1) else counts s)" "mut_tail s3 = mut_tail s"
    using e s1 by (simp_all add: s3_def s2_def links uncount_removed_def is_element_links)
  have t3: "tree s3 (detach c ks)" by (rule tree_remove[OF t ks s3(1,2,4,3,5)])
  obtain d where d: "leptris_element_get_document s3 p = Some d" using document_returns[OF t3] by blast
  have "leptris_element_remove_child p c s = Some (LEPTRIS_OK, invalidate_index_if d s3)"
    using find w d e by (simp add: leptris_element_remove_child_def node_next_links s1_def s2_def s3_def Let_def)
  moreover have "tree (invalidate_index_if d s3) (detach c ks)" using t3 tree_links[of "invalidate_index_if d s3" s3] by (simp add: links)
  ultimately show ?thesis using s3 by (simp add: links)
qed

lemma remove_child_rejects:
  assumes t: "tree s ks" and c: "c \<notin> set (ks p)"
  shows "leptris_element_remove_child p c s = Some (LEPTRIS_ERROR_INVALID_ARG, s)"
proof (cases "kinds s p = NODE_ELEMENT")
  case True
  then obtain q where "find_node s c (leptris_node_first_child_internal s p) = Some (q, False)"
    using find_node_absent[OF tree_chain[OF t True] c] by (auto simp: leptris_node_first_child_internal_def is_element_links firsts_def)
  then show ?thesis by (simp add: leptris_element_remove_child_def)
qed (simp add: leptris_element_remove_child_def leptris_node_first_child_internal_def is_element_links find_node_def)

lemma orphan_all_chain:
  "nodes_chain s (Some c) xs \<Longrightarrow> distinct xs \<Longrightarrow>
    \<exists>s'. orphan_all s c = Some s' \<and> kinds s' = kinds s \<and> firsts s' = firsts s \<and> counts s' = counts s \<and> mut_tail s' = mut_tail s
      \<and> nexts s' = (\<lambda>n. if n \<in> set xs then None else nexts s n) \<and> parents s' = (\<lambda>n. if n \<in> set xs then None else parents s n)"
proof (induction xs arbitrary: c s)
  case Nil then show ?case by (simp add: nodes_chain_def)
next
  case (Cons x xs)
  then have x: "c = x" "has_edges (kinds s x)" "nodes_chain s (nexts s x) xs" "x \<notin> set xs" "distinct xs" by (auto simp: nodes_chain_Cons)
  define s1 where "s1 = leptris_node_set_next_sibling x None (set_parent_of_kind x None s)"
  have s1: "kinds s1 = kinds s" "nexts s1 = (nexts s)(x := None)" "firsts s1 = firsts s" "parents s1 = (parents s)(x := None)"
    "counts s1 = counts s" "mut_tail s1 = mut_tail s" using x(2) by (simp_all add: s1_def links)
  show ?case
  proof (cases "nexts s x")
    case None
    then have "xs = []" using x(3) by (cases xs) (auto simp: nodes_chain_Cons)
    then show ?thesis using x(1,2) None s1 by (auto simp: orphan_all.simps[of s x] node_next_links s1_def[symmetric] fun_eq_iff)
  next
    case (Some d)
    have "nodes_chain s1 (Some d) xs" using x(3,4) Some s1 by (simp add: nodes_chain_def)
    from Cons.IH[OF this x(5)] obtain s' where s': "orphan_all s1 d = Some s'" "kinds s' = kinds s1" "firsts s' = firsts s1" "counts s' = counts s1"
      "mut_tail s' = mut_tail s1" "nexts s' = (\<lambda>n. if n \<in> set xs then None else nexts s1 n)" "parents s' = (\<lambda>n. if n \<in> set xs then None else parents s1 n)"
      by blast
    then show ?thesis using x(1,2) Some s1 by (auto simp: orphan_all.simps[of s x] node_next_links s1_def[symmetric] fun_eq_iff)
  qed
qed

lemma linked_clear:
  assumes l: "linked T N P F C ks" and p: "T p = NODE_ELEMENT"
  shows "linked T (\<lambda>n. if n \<in> set (ks p) then None else N n) (\<lambda>n. if n \<in> set (ks p) then None else P n) (F(p := None)) (C(p := 0)) (ks(p := []))"
    (is "linked T ?N ?P ?F ?C ?ks")
  unfolding linked_def
proof (intro conjI allI impI)
  fix q
  show "T q \<noteq> NODE_ELEMENT \<Longrightarrow> ?ks q = []" using p linked_leaf[OF l, of q] by auto
  fix e
  show "e \<in> set (?ks q) \<longleftrightarrow> ?P e = Some q" using linked_parent[OF l, of e q] linked_parent[OF l, of e p] by auto
  assume q: "T q = NODE_ELEMENT"
  show "chain_of ?N (?F q) (?ks q) None"
  proof (cases "q = p")
    case False
    have "chain_of N (F q) (ks q) None" by (rule linked_chain[OF l q])
    then show ?thesis using False linked_other[OF l] by (subst chain_cong[of _ ?N N]) auto
  qed simp
  show "?C q = of_nat (length (filter (\<lambda>c. T c = NODE_ELEMENT) (?ks q)))" using linked_count[OF l q] by simp
next
  fix e
  show "?P e \<noteq> None \<Longrightarrow> has_edges (T e)" using linked_edges[OF l, of e] by (auto split: if_splits)
  show "?P e = None \<Longrightarrow> ?N e = None" using linked_orphan[OF l, of e] by (auto split: if_splits)
next
  show "wf (below ?P)" by (rule wf_subset[OF linked_wf[OF l]]) (auto simp: below_def split: if_splits)
qed

lemma remove_all_refines:
  assumes t: "tree s ks" and p: "kinds s p = NODE_ELEMENT"
  shows "\<exists>s'. leptris_element_remove_all_children p s = Some (LEPTRIS_OK, s') \<and> tree s' (put p [] ks) \<and> kinds s' = kinds s \<and> mut_tail s' = mut_tail s"
proof -
  note ch = tree_chain[OF t p]
  have "\<exists>s1. (case leptris_node_first_child_internal s p of None \<Rightarrow> Some s | Some c \<Rightarrow> orphan_all s c) = Some s1 \<and> kinds s1 = kinds s \<and> firsts s1 = firsts s
      \<and> counts s1 = counts s \<and> mut_tail s1 = mut_tail s \<and> nexts s1 = (\<lambda>n. if n \<in> set (ks p) then None else nexts s n)
      \<and> parents s1 = (\<lambda>n. if n \<in> set (ks p) then None else parents s n)"
  proof (cases "firsts s p")
    case None
    then have "ks p = []" using ch by (cases "ks p") (auto simp: nodes_chain_Cons)
    then show ?thesis using None by (simp add: leptris_node_first_child_internal_def firsts_def)
  next
    case (Some c)
    then show ?thesis using orphan_all_chain[of s c "ks p"] ch tree_distinct[OF t, of p] p
      by (auto simp: leptris_node_first_child_internal_def is_element_links firsts_def)
  qed
  then obtain s1 where s1: "(case leptris_node_first_child_internal s p of None \<Rightarrow> Some s | Some c \<Rightarrow> orphan_all s c) = Some s1" "kinds s1 = kinds s" "firsts s1 = firsts s"
    "counts s1 = counts s" "mut_tail s1 = mut_tail s" "nexts s1 = (\<lambda>n. if n \<in> set (ks p) then None else nexts s n)"
    "parents s1 = (\<lambda>n. if n \<in> set (ks p) then None else parents s n)" by blast
  define s2 where "s2 = touch p (on_node p (child_count_update (\<lambda>_. 0)) (leptris_elem_set_first_child p None s1))"
  have s2: "kinds s2 = kinds s" "firsts s2 = (firsts s)(p := None)" "counts s2 = (counts s)(p := 0)" "mut_tail s2 = mut_tail s"
    "nexts s2 = (\<lambda>n. if n \<in> set (ks p) then None else nexts s n)" "parents s2 = (\<lambda>n. if n \<in> set (ks p) then None else parents s n)"
    using s1 by (simp_all add: s2_def links)
  have "elements s2 (put p [] ks q) < 65536" for q using t s2(1) by (simp add: tree_def elements_def put_def)
  then have t2: "tree s2 (put p [] ks)"
    using linked_clear[of "kinds s" "nexts s" "parents s" "firsts s" "counts s" ks p] t p s2 by (simp add: tree_def put_def)
  obtain d where d: "leptris_element_get_document s2 p = Some d" using document_returns[OF t2] by blast
  have "leptris_element_remove_all_children p s = Some (LEPTRIS_OK, invalidate_index_if d s2)"
    using s1(1) d by (simp add: leptris_element_remove_all_children_def s2_def Let_def)
  moreover have "tree (invalidate_index_if d s2) (put p [] ks)" using t2 tree_links[of "invalidate_index_if d s2" s2] by (simp add: links)
  ultimately show ?thesis using s2 by (simp add: links)
qed

end
