(* ===== verification/DomSpec.thy ===== *)
theory DomSpec
  imports DomMove
begin

text \<open>
  The operations on the tree against their specification on lists of children, as a step relation with
  its invariant, the readers of children, and the states in which the code breaks the lists.
\<close>

section \<open>Edits\<close>

datatype edit = Append addr addr | Prepend addr addr | Insert_Before addr addr | Insert_After addr addr
  | Remove addr addr | Remove_All addr | Unlink addr

fun run_edit :: "edit \<Rightarrow> dom \<Rightarrow> (leptris_status \<times> dom) option" where
  "run_edit (Append p c) s = leptris_element_append_child p c s"
| "run_edit (Prepend p c) s = leptris_element_prepend_child p c s"
| "run_edit (Insert_Before x c) s = leptris_element_insert_before x c s"
| "run_edit (Insert_After x c) s = leptris_element_insert_after x c s"
| "run_edit (Remove p c) s = leptris_element_remove_child p c s"
| "run_edit (Remove_All p) s = leptris_element_remove_all_children p s"
| "run_edit (Unlink c) s = leptris_node_unlink c s"

definition lies_above :: "(addr \<Rightarrow> addr list) \<Rightarrow> addr \<Rightarrow> addr \<Rightarrow> bool" where
  "lies_above ks c p \<longleftrightarrow> (c, p) \<in> {(p, c). c \<in> set (ks p)}\<^sup>*"

definition where_found :: "addr \<Rightarrow> (addr list \<Rightarrow> addr list) \<Rightarrow> (addr \<Rightarrow> addr list) \<Rightarrow> addr \<Rightarrow> addr list" where
  "where_found x f ks p = (if x \<in> set (ks p) then f (ks p) else ks p)"

fun spec :: "edit \<Rightarrow> (addr \<Rightarrow> addr list) \<Rightarrow> leptris_status \<times> (addr \<Rightarrow> addr list)" where
  "spec (Append p c) ks = (if lies_above ks c p then (LEPTRIS_ERROR_INVALID_ARG, ks) else (LEPTRIS_OK, appended p c ks))"
| "spec (Prepend p c) ks = (if lies_above ks c p then (LEPTRIS_ERROR_INVALID_ARG, ks) else (LEPTRIS_OK, prepended p c ks))"
| "spec (Insert_Before x c) ks =
    (if lies_above ks c x then (LEPTRIS_ERROR_INVALID_ARG, ks) else (LEPTRIS_OK, where_found x (before x c) (detach c ks)))"
| "spec (Insert_After x c) ks =
    (if lies_above ks c x then (LEPTRIS_ERROR_INVALID_ARG, ks) else (LEPTRIS_OK, where_found x (after x c) (detach c ks)))"
| "spec (Remove p c) ks = (if c \<in> set (ks p) then (LEPTRIS_OK, detach c ks) else (LEPTRIS_ERROR_INVALID_ARG, ks))"
| "spec (Remove_All p) ks = (LEPTRIS_OK, put p [] ks)"
| "spec (Unlink c) ks = (if \<exists>p. c \<in> set (ks p) then (LEPTRIS_OK, detach c ks) else (LEPTRIS_ERROR_NOT_FOUND, ks))"

text \<open>
  The arguments that the operations are made for: a parent is an element, a node to attach is of a kind
  that has links, and entity references are attached once. An element is put beside an element or a text
  node. The count of child elements has room, and no node lies more than 8192 levels above another.
\<close>

definition movable :: "dom \<Rightarrow> addr \<Rightarrow> bool" where
  "movable s c \<longleftrightarrow> appendable (kinds s c) \<and> (parents s c \<noteq> None \<longrightarrow> kinds s c \<noteq> NODE_ENTITY_REF)"

definition room_for :: "dom \<Rightarrow> (addr \<Rightarrow> addr list) \<Rightarrow> addr \<Rightarrow> addr \<Rightarrow> bool" where
  "room_for s ks p c \<longleftrightarrow> elements s (detach c ks p) < 65535"

definition sibling_ok :: "dom \<Rightarrow> (addr \<Rightarrow> addr list) \<Rightarrow> addr \<Rightarrow> addr \<Rightarrow> bool" where
  "sibling_ok s ks x c \<longleftrightarrow> movable s c \<and> (\<exists>p. parents s x = Some p \<and> room_for s ks p c)
    \<and> (if kinds s c = NODE_ELEMENT then kinds s x = NODE_ELEMENT \<or> kinds s x = NODE_TEXT else c \<noteq> x)"

fun admissible :: "dom \<Rightarrow> (addr \<Rightarrow> addr list) \<Rightarrow> edit \<Rightarrow> bool" where
  "admissible s ks (Append p c) \<longleftrightarrow> kinds s p = NODE_ELEMENT \<and> movable s c \<and> room_for s ks p c
    \<and> (\<forall>n. (c, p) \<in> below (parents s) ^^ n \<longrightarrow> n \<le> 8192)"
| "admissible s ks (Prepend p c) \<longleftrightarrow> kinds s p = NODE_ELEMENT \<and> movable s c \<and> room_for s ks p c"
| "admissible s ks (Insert_Before x c) \<longleftrightarrow> sibling_ok s ks x c"
| "admissible s ks (Insert_After x c) \<longleftrightarrow> sibling_ok s ks x c"
| "admissible s ks (Remove p c) \<longleftrightarrow> True"
| "admissible s ks (Remove_All p) \<longleftrightarrow> kinds s p = NODE_ELEMENT"
| "admissible s ks (Unlink c) \<longleftrightarrow> parents s c \<noteq> None \<longrightarrow> kinds s c \<noteq> NODE_ENTITY_REF"

text \<open>
  The operations that put a node elsewhere than at the end do not look at the cached last children, so
  that these must be right for the new lists as they are. Nor does appending to an element whose document
  is not found.
\<close>

fun keeps_tails :: "dom \<Rightarrow> (addr \<Rightarrow> addr list) \<Rightarrow> edit \<Rightarrow> bool" where
  "keeps_tails s ks (Append p c) \<longleftrightarrow> leptris_element_get_document s p = Some True
    \<or> (\<forall>q. \<not> stale (mut_tail s) q (snd (spec (Append p c) ks) q))"
| "keeps_tails s ks (Prepend p c) \<longleftrightarrow> (\<forall>q. \<not> stale (mut_tail s) q (snd (spec (Prepend p c) ks) q))"
| "keeps_tails s ks (Insert_Before x c) \<longleftrightarrow> (\<forall>q. \<not> stale (mut_tail s) q (snd (spec (Insert_Before x c) ks) q))"
| "keeps_tails s ks (Insert_After x c) \<longleftrightarrow> (\<forall>q. \<not> stale (mut_tail s) q (snd (spec (Insert_After x c) ks) q))"
| "keeps_tails s ks _ \<longleftrightarrow> True"

lemma lies_above_links: "tree s ks \<Longrightarrow> lies_above ks c p \<longleftrightarrow> (c, p) \<in> (below (parents s))\<^sup>*"
  by (simp add: lies_above_def below_def tree_parent)

lemma where_found_put:
  assumes "tree s ks" "x \<in> set (ks p)"
  shows "where_found x f ks = put p (f (ks p)) ks"
proof
  fix q
  have "x \<in> set (ks q) \<longleftrightarrow> q = p" using tree_parent[OF assms(1), of x] assms(2) by auto
  then show "where_found x f ks q = put p (f (ks p)) ks q" by (simp add: where_found_def put_def)
qed

lemma insert_refines:
  assumes t: "tree s ks" and a: "sibling_ok s ks x c"
  shows "\<exists>s'. leptris_element_insert_before x c s = Some (fst (spec (Insert_Before x c) ks), s') \<and> tree s' (snd (spec (Insert_Before x c) ks))
      \<and> kinds s' = kinds s \<and> mut_tail s' = mut_tail s"
    and "\<exists>s'. leptris_element_insert_after x c s = Some (fst (spec (Insert_After x c) ks), s') \<and> tree s' (snd (spec (Insert_After x c) ks))
      \<and> kinds s' = kinds s \<and> mut_tail s' = mut_tail s"
proof -
  obtain p where p: "parents s x = Some p" "room_for s ks p c" using a by (auto simp: sibling_ok_def)
  have "(\<exists>s'. leptris_element_insert_before x c s = Some (fst (spec (Insert_Before x c) ks), s') \<and> tree s' (snd (spec (Insert_Before x c) ks))
      \<and> kinds s' = kinds s \<and> mut_tail s' = mut_tail s) \<and>
    (\<exists>s'. leptris_element_insert_after x c s = Some (fst (spec (Insert_After x c) ks), s') \<and> tree s' (snd (spec (Insert_After x c) ks))
      \<and> kinds s' = kinds s \<and> mut_tail s' = mut_tail s)"
  proof (cases "lies_above ks c x")
    case True
    then have cx: "(c, x) \<in> (below (parents s))\<^sup>*" using lies_above_links[OF t] by simp
    then have e: "kinds s c = NODE_ELEMENT" using a leaf_not_above[OF t, of c x] by (auto simp: sibling_ok_def)
    then have "insert_guard s x c = Some True" using insert_guard_rejects[OF t p(1) cx e] a by (auto simp: sibling_ok_def)
    then show ?thesis using True t by (simp add: leptris_element_insert_before_def leptris_element_insert_after_def)
  next
    case False
    then have n: "(c, x) \<notin> (below (parents s))\<^sup>*" using lies_above_links[OF t] by simp
    then have "(c, p) \<notin> (below (parents s))\<^sup>*" using p(1) by (auto simp: below_def dest: rtrancl_into_rtrancl)
    moreover have cx: "c \<noteq> x" using n by auto
    ultimately have b: "beside s ks p x c" using a p by (auto simp: beside_def sibling_ok_def movable_def room_for_def split: if_splits)
    obtain s1 where "tree s1 (detach c ks)"
      using unlink_attached_refines[OF t, of c] a by (auto simp: sibling_ok_def movable_def)
    moreover have "x \<in> set (detach c ks p)" using tree_parent[OF t, of x p] p cx by (simp add: detach_def)
    ultimately have "where_found x f (detach c ks) = put p (f (detach c ks p)) (detach c ks)" for f by (rule where_found_put)
    then show ?thesis using insert_before_refines[OF t b] insert_after_refines[OF t b] False
      by (simp add: inserted_before_def inserted_after_def)
  qed
  then show "\<exists>s'. leptris_element_insert_before x c s = Some (fst (spec (Insert_Before x c) ks), s') \<and> tree s' (snd (spec (Insert_Before x c) ks))
      \<and> kinds s' = kinds s \<and> mut_tail s' = mut_tail s"
    and "\<exists>s'. leptris_element_insert_after x c s = Some (fst (spec (Insert_After x c) ks), s') \<and> tree s' (snd (spec (Insert_After x c) ks))
      \<and> kinds s' = kinds s \<and> mut_tail s' = mut_tail s" by blast+
qed

lemma append_refines_spec:
  assumes t: "tree s ks" "tails_ok s ks" and a: "admissible s ks (Append p c)"
  shows "\<exists>s'. leptris_element_append_child p c s = Some (fst (spec (Append p c) ks), s') \<and> tree s' (snd (spec (Append p c) ks))
    \<and> kinds s' = kinds s \<and> (keeps_tails s ks (Append p c) \<longrightarrow> tails_ok s' (snd (spec (Append p c) ks)))"
proof (cases "lies_above ks c p")
  case True
  then have "(c, p) \<in> (below (parents s))\<^sup>*" using lies_above_links[OF t(1)] by simp
  then obtain n where n: "(c, p) \<in> below (parents s) ^^ n" by (auto dest: rtrancl_imp_relpow)
  then have "n \<le> 8192" using a by simp
  then show ?thesis using append_child_rejects[OF t(1) _ n] a True t by simp
next
  case False
  then have above: "(c, p) \<notin> (below (parents s))\<^sup>*" using lies_above_links[OF t(1)] by simp
  obtain s' doc where s': "leptris_element_append_child p c s = Some (LEPTRIS_OK, s')" "tree s' (appended p c ks)" "kinds s' = kinds s"
    "leptris_element_get_document s p = Some doc" "mut_tail s' = (if doc then (mut_tail s)(tail_slot p := Some (p, c)) else mut_tail s)"
    using append_child_refines[OF t(1) _ _ _ above] a t(2) by (auto simp: movable_def room_for_def tails_ok_def)
  have "tails_ok s' (appended p c ks)" if "keeps_tails s ks (Append p c)"
    using that False s'(4,5) tails_appended[OF t(2), of "mut_tail s'" True p c] by (cases doc) (auto simp: tails_ok_def)
  then show ?thesis using s' False by auto
qed

theorem edit_refines:
  assumes "tree s ks" "tails_ok s ks" "admissible s ks e"
  shows "\<exists>s'. run_edit e s = Some (fst (spec e ks), s') \<and> tree s' (snd (spec e ks)) \<and> kinds s' = kinds s
    \<and> (keeps_tails s ks e \<longrightarrow> tails_ok s' (snd (spec e ks)))"
proof (cases e)
  case (Append p c)
  then show ?thesis using append_refines_spec assms by simp
next
  case (Prepend p c)
  show ?thesis
  proof (cases "lies_above ks c p")
    case True
    then show ?thesis using prepend_child_rejects[OF assms(1), of p c] lies_above_links[OF assms(1), of c p] assms Prepend by simp
  next
    case False
    then have "(c, p) \<notin> (below (parents s))\<^sup>*" using lies_above_links[OF assms(1)] by simp
    then show ?thesis using prepend_child_refines[OF assms(1), of p c] assms(3) Prepend False
      by (auto simp: movable_def room_for_def tails_ok_def)
  qed
next
  case (Insert_Before x c)
  then show ?thesis using insert_refines(1)[OF assms(1), of x c] assms(3) by (auto simp: tails_ok_def)
next
  case (Insert_After x c)
  then show ?thesis using insert_refines(2)[OF assms(1), of x c] assms(3) by (auto simp: tails_ok_def)
next
  case (Remove p c)
  then show ?thesis using remove_child_refines[OF assms(1), of c p] remove_child_rejects[OF assms(1), of c p] assms(1,2)
    by (cases "c \<in> set (ks p)") (auto dest: tails_detach)
next
  case (Remove_All p)
  then have "kinds s p = NODE_ELEMENT" using assms(3) by simp
  moreover have "tails_ok s' (put p [] ks)" if "mut_tail s' = mut_tail s" for s'
    using that assms(2) by (auto simp: tails_ok_def put_def stale_def split: option.splits)
  ultimately show ?thesis using remove_all_refines[OF assms(1), of p] Remove_All by auto
next
  case (Unlink c)
  show ?thesis
  proof (cases "parents s c")
    case None
    then show ?thesis using Unlink assms(1,2) by (simp add: leptris_node_unlink_def tree_node_parent tree_parent)
  next
    case (Some p)
    then have "c \<in> set (ks p)" using tree_parent[OF assms(1)] by simp
    then obtain xs ys where ks: "ks p = xs @ c # ys" by (metis split_list)
    have "\<exists>p. c \<in> set (ks p)" using ks by (intro exI[of _ p]) simp
    then show ?thesis using unlink_refines[OF assms(1) ks] Unlink Some assms(2,3) by (auto dest: tails_detach)
  qed
qed

text \<open>States that edits lead to.\<close>

inductive edited :: "dom \<Rightarrow> (addr \<Rightarrow> addr list) \<Rightarrow> dom \<Rightarrow> (addr \<Rightarrow> addr list) \<Rightarrow> bool" for s ks where
  start: "edited s ks s ks"
| edit: "edited s ks s' ks' \<Longrightarrow> admissible s' ks' e \<Longrightarrow> keeps_tails s' ks' e \<Longrightarrow> run_edit e s' = Some (r, s'')
    \<Longrightarrow> edited s ks s'' (snd (spec e ks'))"

lemma edited_tree: "edited s ks s' ks' \<Longrightarrow> tree s ks \<Longrightarrow> tails_ok s ks \<Longrightarrow> tree s' ks' \<and> tails_ok s' ks'"
proof (induction rule: edited.induct)
  case (edit s' ks' e r s'')
  then show ?case using edit_refines[of s' ks' e] by auto
qed simp

section \<open>Readers\<close>

lemma nodes_from_chain: "nodes_chain s (Some c) xs \<Longrightarrow> nodes_from s c = Some xs"
proof (induction xs arbitrary: c)
  case (Cons x xs)
  then have x: "c = x" "has_edges (kinds s x)" "nodes_chain s (nexts s x) xs" by (auto simp: nodes_chain_Cons)
  show ?case
  proof (cases "nexts s x")
    case None
    then have "xs = []" using x(3) by (cases xs) (auto simp: nodes_chain_Cons)
    then show ?thesis using x None by (simp add: nodes_from.simps[of s x] node_next_links)
  next
    case (Some d)
    then show ?thesis using x Cons.IH[of d] by (simp add: nodes_from.simps[of s x] node_next_links)
  qed
qed (simp add: nodes_chain_def)

lemma children_read:
  assumes "tree s ks"
  shows "leptris_node_children s p n = Some (take n (ks p))"
proof (cases "kinds s p = NODE_ELEMENT")
  case True
  note ch = tree_chain[OF assms True]
  show ?thesis
  proof (cases "firsts s p")
    case None
    then have "ks p = []" using ch by (cases "ks p") (auto simp: nodes_chain_Cons)
    then show ?thesis using None by (simp add: leptris_node_children_def leptris_node_first_child_internal_def firsts_def)
  next
    case (Some c)
    then show ?thesis using nodes_from_chain[of s c "ks p"] ch True
      by (simp add: leptris_node_children_def leptris_node_first_child_internal_def firsts_def is_element_links)
  qed
next
  case False
  then have "ks p = []" using assms by (auto simp: tree_def dest: linked_leaf)
  then show ?thesis using False by (simp add: leptris_node_children_def leptris_node_first_child_internal_def is_element_links)
qed

lemma previous_sibling_read:
  assumes t: "tree s ks" and ks: "ks p = xs @ n # ys"
  shows "leptris_node_previous_sibling s n = Some (if xs = [] then None else Some (last xs))"
proof -
  have pn: "parents s n = Some p" using tree_parent[OF t, of n p] ks by simp
  have "find_node s n (firsts s p) = Some (if xs = [] then None else Some (last xs), True)"
    using find_node_chain[of s "firsts s p" xs n ys] tree_chain[OF t tree_element[OF t pn]] tree_distinct[OF t, of p] ks by simp
  then show ?thesis using pn by (simp add: leptris_node_previous_sibling_def tree_node_parent[OF t] firsts_def)
qed

end
