(* ===== verification/DomRead.thy ===== *)
theory DomRead
  imports DomSpec "HOL-Library.Code_Target_Nat"
begin

text \<open>
  Indexed reads of the children with their memory of the last read, the main theorem on the tree, and
  the sequences of edits on which the code fails.
\<close>

section \<open>Indexed reads\<close>

definition child_elements :: "dom \<Rightarrow> (addr \<Rightarrow> addr list) \<Rightarrow> addr \<Rightarrow> addr list" where
  "child_elements s ks e = filter (\<lambda>c. kinds s c = NODE_ELEMENT) (ks e)"

text \<open>A remembered child that counts is the child of its index.\<close>

definition memory_ok :: "dom \<Rightarrow> (addr \<Rightarrow> addr list) \<Rightarrow> addr \<Rightarrow> bool" where
  "memory_ok s ks e \<longleftrightarrow>
    (case ns_cache (heap s e) of
       None \<Rightarrow> True
     | Some cc \<Rightarrow> (case child_node cc of
         None \<Rightarrow> True
       | Some c \<Rightarrow> child_cached_gen cc = child_gen cc \<longrightarrow>
           unat (child_idx cc) < length (child_elements s ks e) \<and> child_elements s ks e ! unat (child_idx cc) = c))"

lemma element_from_chain:
  "nodes_chain s (Some c) xs \<Longrightarrow> k \<le> i \<Longrightarrow>
    element_from s i k c = Some (let es = filter (\<lambda>c. kinds s c = NODE_ELEMENT) xs in if i - k < length es then Some (es ! (i - k)) else None)"
proof (induction xs arbitrary: c k)
  case (Cons x xs)
  then have x: "c = x" "has_edges (kinds s x)" "nodes_chain s (nexts s x) xs" by (auto simp: nodes_chain_Cons)
  let ?es = "filter (\<lambda>c. kinds s c = NODE_ELEMENT) xs"
  show ?case
  proof (cases "nexts s x")
    case None
    then have "xs = []" using x(3) by (cases xs) (auto simp: nodes_chain_Cons)
    then show ?thesis using x None Cons.prems(2) by (auto simp: element_from.simps[of s i k x] node_next_links is_element_links Let_def)
  next
    case (Some d)
    then have ch: "nodes_chain s (Some d) xs" using x by simp
    show ?thesis
    proof (cases "kinds s x = NODE_ELEMENT")
      case True
      show ?thesis
      proof (cases "k = i")
        case False
        then have "Suc k \<le> i" "i - k = Suc (i - Suc k)" using Cons.prems(2) by simp_all
        then show ?thesis using Cons.IH[OF ch] True x Some False
          by (simp add: element_from.simps[of s i k x] node_next_links is_element_links Let_def)
      next
        case True
        then show ?thesis using \<open>kinds s x = NODE_ELEMENT\<close> x by (subst element_from.simps) (simp add: is_element_links)
      qed
    next
      case False
      then show ?thesis using Cons.IH[OF ch Cons.prems(2)] x Some
        by (simp add: element_from.simps[of s i k x] node_next_links is_element_links Let_def)
    qed
  qed
qed (simp add: nodes_chain_def)

lemma filter_nth_split:
  "j < length (filter P xs) \<Longrightarrow> \<exists>as bs. xs = as @ (filter P xs ! j) # bs \<and> length (filter P as) = j \<and> P (filter P xs ! j)"
proof (induction xs arbitrary: j)
  case (Cons x xs)
  show ?case
  proof (cases "P x \<and> j = 0")
    case True then show ?thesis by - (rule exI[of _ "[]"], rule exI[of _ xs], simp)
  next
    case False
    define i where "i = (if P x then j - 1 else j)"
    have i: "i < length (filter P xs)" "filter P (x # xs) ! j = filter P xs ! i" using Cons.prems False by (auto simp: i_def nth_Cons')
    from Cons.IH[OF i(1)] obtain as bs where ab: "xs = as @ (filter P xs ! i) # bs" "length (filter P as) = i" "P (filter P xs ! i)" by blast
    then have "x # xs = (x # as) @ (filter P (x # xs) ! j) # bs" using i(2) by simp
    moreover have "length (filter P (x # as)) = j" using ab(2) False by (auto simp: i_def)
    ultimately show ?thesis using ab(3) i(2) by metis
  qed
qed simp

text \<open>From the \<open>j\<close>-th element on.\<close>

lemma element_from_element:
  assumes t: "tree s ks" and e: "kinds s e = NODE_ELEMENT" and j: "j < length (child_elements s ks e)" "j \<le> i"
  shows "element_from s i j (child_elements s ks e ! j) =
    Some (if i < length (child_elements s ks e) then Some (child_elements s ks e ! i) else None)"
proof -
  let ?P = "\<lambda>c. kinds s c = NODE_ELEMENT"
  define c where "c = child_elements s ks e ! j"
  obtain as bs where ks: "ks e = as @ c # bs" "length (filter ?P as) = j" "?P c"
    using filter_nth_split[of j ?P "ks e"] j(1) by (auto simp: child_elements_def c_def)
  have "nodes_chain s (firsts s e) (as @ c # bs)" using tree_chain[OF t e] ks(1) by simp
  then have "nodes_chain s (Some c) (c # bs)" by (auto simp: nodes_chain_def links_append)
  from element_from_chain[OF this j(2)]
  have r: "element_from s i j c = Some (let es = filter ?P (c # bs) in if i - j < length es then Some (es ! (i - j)) else None)" .
  have f: "child_elements s ks e = filter ?P as @ filter ?P (c # bs)" by (simp add: child_elements_def ks(1))
  have "(let es = filter ?P (c # bs) in if i - j < length es then Some (es ! (i - j)) else None)
    = (if i < length (child_elements s ks e) then Some (child_elements s ks e ! i) else None)"
    unfolding f using ks(2) j(2) by (auto simp: Let_def nth_append)
  then show ?thesis using r by (simp only: c_def)
qed

lemma first_child_read:
  assumes t: "tree s ks" and e: "kinds s e = NODE_ELEMENT"
  shows "leptris_element_get_first_child s e = Some (if child_elements s ks e = [] then None else Some (child_elements s ks e ! 0))"
proof (cases "firsts s e")
  case None
  then have "ks e = []" using tree_chain[OF t e] by (cases "ks e") (auto simp: nodes_chain_Cons)
  then show ?thesis using None by (simp add: leptris_element_get_first_child_def firsts_def child_elements_def)
next
  case (Some c)
  then show ?thesis using tree_chain[OF t e] element_from_chain[of s c "ks e" 0 0]
    by (auto simp: leptris_element_get_first_child_def firsts_def child_elements_def Let_def)
qed

lemma cache_update_links [links]:
  "kinds (on_node n (ns_cache_update f) s) = kinds s" "nexts (on_node n (ns_cache_update f) s) = nexts s"
  "parents (on_node n (ns_cache_update f) s) = parents s" "firsts (on_node n (ns_cache_update f) s) = firsts s"
  "counts (on_node n (ns_cache_update f) s) = counts s" "ns_cache (heap (on_node n (ns_cache_update f) s) n) = f (ns_cache (heap s n))"
  by (auto simp: on_node_def links_defs fun_eq_iff)

text \<open>
  C38. An indexed read of the children gives the element of that index in the list of children, or nothing
  behind the last one, also where it resumes at the element of the last read; what it remembers is right
  again, and the links are as before.
\<close>

theorem child_read_exact:
  assumes t: "tree s ks" and e: "kinds s e = NODE_ELEMENT" and m: "memory_ok s ks e"
  shows "\<exists>s'. leptris_element_child s e i = Some (if i < length (child_elements s ks e) then Some (child_elements s ks e ! i) else None, s')
    \<and> tree s' ks \<and> kinds s' = kinds s \<and> memory_ok s' ks e"
proof (cases "i < length (child_elements s ks e)")
  case False
  have "unat (child_count (heap s e)) = length (child_elements s ks e)"
    using tree_count[OF t e] by (simp add: counts_def elements_def child_elements_def)
  then show ?thesis using False t m by (simp add: leptris_element_child_def)
next
  case True
  let ?es = "child_elements s ks e"
  have count: "unat (child_count (heap s e)) = length ?es"
    using tree_count[OF t e] by (simp add: counts_def elements_def child_elements_def)
  have small: "length ?es < 65536" using t by (simp add: tree_def elements_def child_elements_def)
  obtain d where d: "(if ns_cache (heap s e) = None \<and> child_count (heap s e) > 1 then leptris_element_get_document s e else Some False) = Some d"
    using document_returns[OF t, of e] by (cases "ns_cache (heap s e) = None \<and> child_count (heap s e) > 1") auto
  have dn: "d \<Longrightarrow> ns_cache (heap s e) = None" using d by (auto split: if_splits)
  define s1 where "s1 = new_cache d e s"
  have s1: "kinds s1 = kinds s" "nexts s1 = nexts s" "parents s1 = parents s" "firsts s1 = firsts s" "counts s1 = counts s"
    by (simp_all add: s1_def new_cache_def links)
  have t1: "tree s1 ks" using t tree_links[OF s1] by simp
  have es1: "child_elements s1 ks e = ?es" by (simp add: child_elements_def s1)
  have "ns_cache (heap s1 e) = (if d then Some \<lparr>child_gen = 0, child_cached_gen = 0, child_idx = 0, child_node = None\<rparr> else ns_cache (heap s e))"
    by (simp add: s1_def new_cache_def links)
  then have m1: "memory_ok s1 ks e" using m unfolding memory_ok_def es1 by (simp split: if_splits)
  have e1: "kinds s1 e = NODE_ELEMENT" using e s1 by simp
  obtain c j where start: "child_start s1 e i = Some (Some c, j)"
    "j \<le> i" "j < length ?es" "c = ?es ! j"
  proof (cases "resume_at s1 e i")
    case None
    have "?es \<noteq> []" using True by auto
    then show ?thesis using that[of "?es ! 0" 0] None first_child_read[OF t1 e1] es1 by (simp add: child_start_def)
  next
    case (Some cj)
    then obtain c j where cj: "resume_at s1 e i = Some (c, j)" by (cases cj) auto
    then have "j \<le> i" "j < length ?es" "c = ?es ! j" using m1 es1
      by (auto simp: resume_at_def memory_ok_def split: option.splits if_splits)
    then show ?thesis using that[of c j] cj by (simp add: child_start_def)
  qed
  define s2 where "s2 = remember_child e i (Some (?es ! i)) s1"
  have s2: "kinds s2 = kinds s1" "nexts s2 = nexts s1" "parents s2 = parents s1" "firsts s2 = firsts s1" "counts s2 = counts s1"
    by (simp_all add: s2_def remember_child_def links)
  have "element_from s1 i j c = Some (Some (?es ! i))"
    using element_from_element[OF t1 e1, of j i] start es1 True by simp
  then have "leptris_element_child s e i = Some (Some (?es ! i), s2)"
    using True count d start(1) by (simp add: leptris_element_child_def s1_def s2_def Let_def)
  moreover have "memory_ok s2 ks e"
  proof -
    have "unat (of_nat i :: u32) = i" using True small by (simp add: unat_of_nat)
    moreover have "child_elements s2 ks e = ?es" by (simp add: child_elements_def s1 s2)
    ultimately show ?thesis using True by (auto simp: memory_ok_def s2_def remember_child_def links split: option.splits)
  qed
  ultimately show ?thesis using True t1 tree_links[OF s2] s1 s2 by simp
qed

section \<open>The tree under edits\<close>

text \<open>A small document: elements with no parent, a comment, an entity reference and a processing instruction.\<close>

definition fresh_node :: "node_kind \<Rightarrow> dom_node" where
  "fresh_node k = \<lparr>ntype = k, version = 0, parent_off = None, next_sibling_off = None, first_child_off = None, child_count = 0,
     ns_cache = None, stamped = True, namebp = False\<rparr>"

definition sample :: dom where
  "sample = \<lparr>heap = (\<lambda>n. fresh_node (if n = 7 then NODE_COMMENT else if n = 8 then NODE_ENTITY_REF else if n = 9 then NODE_PI else NODE_ELEMENT)),
     mut_tail = (\<lambda>_. None), mut_elem_cursor = 0, mut_elem_end = 0, mutation_version = 0, element_index = False\<rparr>"

fun run_edits :: "edit list \<Rightarrow> dom \<Rightarrow> dom option" where
  "run_edits [] s = Some s"
| "run_edits (e # es) s = (case run_edit e s of None \<Rightarrow> None | Some (_, s) \<Rightarrow> run_edits es s)"

lemma sample_tree: "tree sample (\<lambda>_. [])" "tails_ok sample (\<lambda>_. [])"
proof -
  have "below (parents sample) = {}" by (simp add: below_def parents_def sample_def fresh_node_def)
  then show "tree sample (\<lambda>_. [])"
    by (simp add: tree_def linked_def elements_def links_defs) (simp add: sample_def fresh_node_def)
qed (simp add: tails_ok_def stale_def sample_def)





text \<open>
Unlinking a node does not make its parent forget the last child read: reading the first child, then
  unlinking it and reading the first child again gives the unlinked node.
\<close>

theorem unlink_keeps_remembered_child:
  "Option.bind (run_edits [Append 1 2, Append 1 3, Append 1 4] sample) (\<lambda>s.
     Option.bind (leptris_element_child s 1 0) (\<lambda>(a, s).
     Option.bind (run_edit (Unlink 2) s) (\<lambda>(r, s).
     map_option (\<lambda>(b, s). (a, b, leptris_node_children s 1 9)) (leptris_element_child s 1 0)))) = Some (Some 2, Some 2, Some [3, 4])"
  by code_simp

lemma child_read_exact_witness:
  "\<exists>s1 s2 s3. run_edit (Append 5 2) sample = Some (LEPTRIS_OK, s1) \<and> leptris_element_child s1 5 0 = Some (Some 2, s2)
    \<and> leptris_element_child s1 5 1 = Some (None, s3)"
proof -
  have "Option.bind (run_edit (Append 5 2) sample) (\<lambda>(r, s). if r = LEPTRIS_OK \<and> ns_cache (heap s 5) = None \<and> kinds s 5 = NODE_ELEMENT \<and> kinds s 2 = NODE_ELEMENT
      then Some (leptris_node_children s 5 9) else None) = Some (Some [2])" by code_simp
  then obtain s where s: "run_edit (Append 5 2) sample = Some (LEPTRIS_OK, s)" "ns_cache (heap s 5) = None" "kinds s 5 = NODE_ELEMENT" "kinds s 2 = NODE_ELEMENT"
    "leptris_node_children s 5 9 = Some [2]"
    by (auto simp: bind_eq_Some_conv simp del: run_edit.simps split: if_splits)
  have b: "below (parents sample) = {}" by (simp add: below_def parents_def sample_def fresh_node_def)
  have empty: "(2, 5) \<in> ({} :: (addr \<times> addr) set) ^^ n \<longleftrightarrow> False" for n by (cases n) auto
  have "admissible sample (\<lambda>_. []) (Append 5 2)"
    by (simp add: kinds_def parents_def b empty movable_def room_for_def detach_def elements_def appendable_def) (simp add: sample_def fresh_node_def)
  from edit_refines[OF sample_tree this] obtain ks where t: "tree s ks"
    using s(1) by (auto simp del: run_edit.simps spec.simps)
  have "take 9 (ks 5) = [2]" using children_read[OF t, of 5 9] s(5) by simp
  then have "ks 5 = [2]" by (cases "ks 5") auto
  then have es: "child_elements s ks 5 = [2]" by (simp add: child_elements_def s(4))
  have m: "memory_ok s ks 5" by (simp add: memory_ok_def s(2))
  show ?thesis using s(1) child_read_exact[OF t s(3) m, of 0] child_read_exact[OF t s(3) m, of 1] by (auto simp: es simp del: run_edit.simps)
qed

end
