(* ===== verification/Spec2Isabelle.thy ===== *)
theory Spec2Isabelle
  imports Prelude TextScan Unicode Utf8Gate Utf16 Encoding Entities Compact
    XsdSchema XsdContent Automata XsdLanguage XsdVerdict DtdContent DtdMatch DtdSound DtdVerdict HashTable DtdModel DtdResolver DtdParser DtdRoundtrip
    DtdValidate DtdValid Arena Pool PoolSafe
    Regex RegexParse RegexMatch RegexRoundtrip IlScan IlTree IlExact IlLanguage
    Dom DomTree DomEdit DomOps DomMove DomSpec DomRead
begin

text \<open>
  A model of the leptris XML library.
\<close>

end
